(* ===== verification/V8Prelude.thy ===== *)
theory V8Prelude
  imports Main "HOL-Library.Word"
begin

text \<open>
  Shared vocabulary of the development: names for the machine integers the C++ code uses,
  the fact collections the component theories fill, and generic lemmas on lists, words and
  circular arrays that several components need.
\<close>

unbundle bit_operations_syntax

type_synonym uint8 = "8 word"
type_synonym uint16 = "16 word"
type_synonym uint32 = "32 word"
type_synonym uint64 = "64 word"

named_theorems cyc_simps
  \<open>successor and distance of slots of a circular array\<close>

section \<open>Circular arrays\<close>

text \<open>
  A scan that wraps around at the end of an array of \<open>n\<close> slots: \<open>cyc_next n p\<close> is the slot
  after \<open>p\<close>, \<open>cyc_dist n i j\<close> the number of steps from \<open>i\<close> to \<open>j\<close>.
\<close>

definition cyc_next :: "nat \<Rightarrow> nat \<Rightarrow> nat" where
  "cyc_next n p = (if Suc p \<ge> n then 0 else Suc p)"

definition cyc_dist :: "nat \<Rightarrow> nat \<Rightarrow> nat \<Rightarrow> nat" where
  "cyc_dist n i j = (if i \<le> j then j - i else j + n - i)"

lemma cyc_next_less [simp, intro]: "p < n \<Longrightarrow> cyc_next n p < n"
  by (simp add: cyc_next_def)

lemma cyc_dist_self [simp]: "cyc_dist n i i = 0"
  by (simp add: cyc_dist_def)

lemma cyc_dist_less: "i < n \<Longrightarrow> j < n \<Longrightarrow> cyc_dist n i j < n"
  by (auto simp: cyc_dist_def)

lemma cyc_dist_eq_0: "i < n \<Longrightarrow> j < n \<Longrightarrow> cyc_dist n i j = 0 \<longleftrightarrow> i = j"
  by (auto simp: cyc_dist_def)

lemma cyc_dist_next:
  "p < n \<Longrightarrow> s < n \<Longrightarrow> s \<noteq> p \<Longrightarrow> cyc_dist n p s = Suc (cyc_dist n (cyc_next n p) s)"
  by (auto simp: cyc_dist_def cyc_next_def)

lemma cyc_dist_to_next:
  "p < n \<Longrightarrow> q < n \<Longrightarrow> cyc_next n q \<noteq> p \<Longrightarrow>
    cyc_dist n p (cyc_next n q) = Suc (cyc_dist n p q)"
  by (auto simp: cyc_dist_def cyc_next_def)

lemma cyc_dist_inj:
  "p < n \<Longrightarrow> q < n \<Longrightarrow> s < n \<Longrightarrow> cyc_dist n p q = cyc_dist n p s \<Longrightarrow> q = s"
  by (auto simp: cyc_dist_def split: if_splits)

lemma cyc_dist_split:
  "h < n \<Longrightarrow> p < n \<Longrightarrow> j < n \<Longrightarrow> cyc_dist n h p \<le> cyc_dist n h j \<Longrightarrow>
    cyc_dist n h j = cyc_dist n h p + cyc_dist n p j"
  by (auto simp: cyc_dist_def split: if_splits)

lemma cyc_dist_between:
  "h < n \<Longrightarrow> p < n \<Longrightarrow> q < n \<Longrightarrow> j < n \<Longrightarrow> cyc_dist n h p < cyc_dist n h j \<Longrightarrow>
    cyc_dist n p q < cyc_dist n p j \<Longrightarrow> cyc_dist n h q < cyc_dist n h j"
  by (auto simp: cyc_dist_def split: if_splits)

text \<open>The pointer comparison of a backward-shifting removal, as a statement on distances.\<close>

lemma cyc_dist_outside:
  "p < n \<Longrightarrow> q < n \<Longrightarrow> r < n \<Longrightarrow> p \<noteq> q \<Longrightarrow>
    ((p < q \<and> (r \<le> p \<or> q < r)) \<or> (q < p \<and> (r \<le> p \<and> q < r))) \<longleftrightarrow>
    cyc_dist n r p < cyc_dist n r q"
  by (auto simp: cyc_dist_def split: if_splits)

lemmas [cyc_simps] = cyc_dist_less cyc_dist_eq_0

section \<open>Lists\<close>

lemma find_SomeD: "find P xs = Some x \<Longrightarrow> x \<in> set xs \<and> P x"
  by (induction xs) (auto split: if_splits)

section \<open>Words\<close>

text \<open>Masking with a power of two less one is the remainder.\<close>

lemma unat_and_pow2_mask:
  fixes h c :: "'a::len word"
  assumes "unat c = 2 ^ k"
  shows "unat (h AND (c - 1)) = unat h mod 2 ^ k"
proof -
  have "c = word_of_nat (unat c)" by simp
  also have "\<dots> = 2 ^ k" by (simp add: assms)
  finally have "c = 2 ^ k" .
  then have "c - 1 = mask k"
    by (simp add: mask_eq_decr_exp)
  then have "unat (h AND (c - 1)) = unat (take_bit k h)"
    by (simp only: take_bit_eq_mask)
  then show ?thesis
    by (simp only: unsigned_take_bit_eq take_bit_eq_mod [of k "unat h"])
qed

end
