(* ===== verification/HashMap.thy ===== *)
theory HashMap
  imports V8Prelude
begin

text \<open>
  The open-addressing hash map of src/src/hashmap.cc and src/src/hashmap.h.
  A pointer into the entry array is an index, a NULL key or value is \<open>None\<close>.
  A fatal out-of-memory exit, a probe that never meets an empty slot and a read past
  the old array while rehashing are errors. The second half of the theory shows that the map
  is a finite map up to the client's match function.
\<close>

section \<open>The data of the map\<close>

record ('k, 'v) Entry =
  e_key :: "'k option"
  e_value :: "'v option"
  e_hash :: uint32

record ('k, 'v) HashMap =
  hm_allocator :: "nat \<Rightarrow> ('k, 'v) Entry list option"
  hm_match :: "'k \<Rightarrow> 'k \<Rightarrow> bool"
  hm_map :: "('k, 'v) Entry list"
  hm_capacity :: uint32
  hm_occupancy :: uint32

datatype hm_error = OutOfMemory | ProbeDiverges | BadAccess | DepthExceeded

section \<open>The operations\<close>

text \<open>
  The pointer \<open>map_ + (hash & (capacity_ - 1))\<close> every search starts from.
\<close>

definition home_slot :: "('k, 'v) HashMap \<Rightarrow> uint32 \<Rightarrow> nat" where
  "home_slot m h = unat (h AND (hm_capacity m - 1))"

text \<open>
  The \<open>while\<close> loop of \<open>Probe\<close> visits the slots in circular order. After \<open>capacity_\<close> slots it
  is back where it started, in the same state: it then never ends, which is \<open>None\<close>.
\<close>

fun probe_loop :: "('k, 'v) HashMap \<Rightarrow> 'k \<Rightarrow> uint32 \<Rightarrow> nat \<Rightarrow> nat \<Rightarrow> nat option" where
  "probe_loop m k h 0 p = None"
| "probe_loop m k h (Suc n) p =
     (case e_key (hm_map m ! p) of
        None \<Rightarrow> Some p
      | Some k' \<Rightarrow>
          if h \<noteq> e_hash (hm_map m ! p) \<or> \<not> hm_match m k k'
          then probe_loop m k h n (cyc_next (unat (hm_capacity m)) p)
          else Some p)"

definition HashMap_Probe :: "('k, 'v) HashMap \<Rightarrow> 'k \<Rightarrow> uint32 \<Rightarrow> nat option" where
  "HashMap_Probe m k h = probe_loop m k h (unat (hm_capacity m)) (home_slot m h)"

definition HashMap_Clear :: "('k, 'v) HashMap \<Rightarrow> ('k, 'v) HashMap" where
  "HashMap_Clear m =
     m\<lparr>hm_map := map (\<lambda>e. e\<lparr>e_key := None\<rparr>) (take (unat (hm_capacity m)) (hm_map m))
                @ drop (unat (hm_capacity m)) (hm_map m),
       hm_occupancy := 0\<rparr>"

text \<open>
  \<open>hm_allocator m n\<close> is the block the client's allocator returns for \<open>n\<close> entries, with whatever it
  holds, or \<open>None\<close> for NULL, where the code calls \<open>FatalProcessOutOfMemory\<close>.
\<close>

definition HashMap_Initialize ::
  "uint32 \<Rightarrow> ('k, 'v) HashMap \<Rightarrow> hm_error + ('k, 'v) HashMap" where
  "HashMap_Initialize cap m =
     (case hm_allocator m (unat cap) of
        None \<Rightarrow> Inl OutOfMemory
      | Some block \<Rightarrow> Inr (HashMap_Clear (m\<lparr>hm_map := block, hm_capacity := cap\<rparr>)))"

definition HashMap_new ::
  "('k \<Rightarrow> 'k \<Rightarrow> bool) \<Rightarrow> (nat \<Rightarrow> ('k, 'v) Entry list option) \<Rightarrow> uint32 \<Rightarrow>
    hm_error + ('k, 'v) HashMap" where
  "HashMap_new match allocator initial_capacity =
     HashMap_Initialize initial_capacity
       \<lparr>hm_allocator = allocator, hm_match = match, hm_map = [], hm_capacity = 0, hm_occupancy = 0\<rparr>"

text \<open>
  \<open>Lookup\<close> and \<open>Resize\<close> call each other. \<open>LookupWith\<close> is the body of \<open>Lookup\<close> with \<open>Resize\<close> as an
  argument, \<open>ResizeWith\<close> the body of \<open>Resize\<close> with \<open>Lookup\<close> as an argument, and
  \<open>HashMap_LookupN\<close> ties the knot for a nesting depth.
\<close>

definition LookupWith ::
  "(('k, 'v) HashMap \<Rightarrow> hm_error + ('k, 'v) HashMap) \<Rightarrow>
   ('k, 'v) HashMap \<Rightarrow> 'k \<Rightarrow> uint32 \<Rightarrow> bool \<Rightarrow>
    hm_error + (nat option \<times> ('k, 'v) HashMap)" where
  "LookupWith resize m k h ins =
     (case HashMap_Probe m k h of
        None \<Rightarrow> Inl ProbeDiverges
      | Some p \<Rightarrow>
          if e_key (hm_map m ! p) \<noteq> None then Inr (Some p, m)
          else if ins then
            (let m1 = m\<lparr>hm_map := (hm_map m)[p := \<lparr>e_key = Some k, e_value = None, e_hash = h\<rparr>],
                         hm_occupancy := hm_occupancy m + 1\<rparr>
             in if hm_occupancy m1 + hm_occupancy m1 div 4 \<ge> hm_capacity m1 then
                  (case resize m1 of
                     Inl err \<Rightarrow> Inl err
                   | Inr m2 \<Rightarrow>
                       (case HashMap_Probe m2 k h of
                          None \<Rightarrow> Inl ProbeDiverges
                        | Some p' \<Rightarrow> Inr (Some p', m2)))
                else Inr (Some p, m1))
          else Inr (None, m))"

text \<open>The loop \<open>for (p = map; n > 0; p++)\<close> over the old array; \<open>n\<close> counts entries still to move.\<close>

fun rehash ::
  "(('k, 'v) HashMap \<Rightarrow> 'k \<Rightarrow> uint32 \<Rightarrow> bool \<Rightarrow>
      hm_error + (nat option \<times> ('k, 'v) HashMap)) \<Rightarrow>
   ('k, 'v) Entry list \<Rightarrow> nat \<Rightarrow> ('k, 'v) HashMap \<Rightarrow> hm_error + ('k, 'v) HashMap" where
  "rehash lookup old 0 m = Inr m"
| "rehash lookup [] (Suc n) m = Inl BadAccess"
| "rehash lookup (e # old) (Suc n) m =
     (case e_key e of
        None \<Rightarrow> rehash lookup old (Suc n) m
      | Some k \<Rightarrow>
          (case lookup m k (e_hash e) True of
             Inl err \<Rightarrow> Inl err
           | Inr (None, m1) \<Rightarrow> Inl BadAccess
           | Inr (Some q, m1) \<Rightarrow>
               rehash lookup old n
                 (m1\<lparr>hm_map := (hm_map m1)[q := (hm_map m1 ! q)\<lparr>e_value := e_value e\<rparr>]\<rparr>)))"

definition ResizeWith ::
  "(('k, 'v) HashMap \<Rightarrow> 'k \<Rightarrow> uint32 \<Rightarrow> bool \<Rightarrow>
      hm_error + (nat option \<times> ('k, 'v) HashMap)) \<Rightarrow>
   ('k, 'v) HashMap \<Rightarrow> hm_error + ('k, 'v) HashMap" where
  "ResizeWith lookup m =
     (case HashMap_Initialize (hm_capacity m * 2) m of
        Inl err \<Rightarrow> Inl err
      | Inr m1 \<Rightarrow> rehash lookup (hm_map m) (unat (hm_occupancy m)) m1)"

fun HashMap_LookupN ::
  "nat \<Rightarrow> ('k, 'v) HashMap \<Rightarrow> 'k \<Rightarrow> uint32 \<Rightarrow> bool \<Rightarrow>
    hm_error + (nat option \<times> ('k, 'v) HashMap)" where
  "HashMap_LookupN 0 m k h ins = LookupWith (\<lambda>_. Inl DepthExceeded) m k h ins"
| "HashMap_LookupN (Suc n) m k h ins =
     LookupWith (ResizeWith (HashMap_LookupN n)) m k h ins"

text \<open>
  One level is enough: a rehash never grows the new array (lemma \<open>rehash_ok\<close> below).
\<close>

definition HashMap_Lookup ::
  "('k, 'v) HashMap \<Rightarrow> 'k \<Rightarrow> uint32 \<Rightarrow> bool \<Rightarrow>
    hm_error + (nat option \<times> ('k, 'v) HashMap)" where
  "HashMap_Lookup m k h ins = HashMap_LookupN 1 m k h ins"

definition HashMap_Resize :: "('k, 'v) HashMap \<Rightarrow> hm_error + ('k, 'v) HashMap" where
  "HashMap_Resize m = ResizeWith (HashMap_LookupN 0) m"

text \<open>
  The scan of \<open>Remove\<close>: \<open>p\<close> is the candidate entry to clear, \<open>q\<close> scans forward, and the entry
  at \<open>q\<close> is moved to \<open>p\<close> when its initial position is outside the range between them.
\<close>

fun remove_loop ::
  "uint32 \<Rightarrow> nat \<Rightarrow> ('k, 'v) Entry list \<Rightarrow> nat \<Rightarrow> nat \<Rightarrow> (('k, 'v) Entry list \<times> nat) option"
where
  "remove_loop cap 0 es p q0 = None"
| "remove_loop cap (Suc n) es p q0 =
     (let q = cyc_next (unat cap) q0 in
      if e_key (es ! q) = None then Some (es, p)
      else
        (let r = unat (e_hash (es ! q) AND (cap - 1)) in
         if (p < q \<and> (r \<le> p \<or> q < r)) \<or> (q < p \<and> (r \<le> p \<and> q < r))
         then remove_loop cap n (es[p := es ! q]) q q
         else remove_loop cap n es p q))"

definition HashMap_Remove ::
  "('k, 'v) HashMap \<Rightarrow> 'k \<Rightarrow> uint32 \<Rightarrow> hm_error + ('k, 'v) HashMap" where
  "HashMap_Remove m k h =
     (case HashMap_Probe m k h of
        None \<Rightarrow> Inl ProbeDiverges
      | Some p \<Rightarrow>
          if e_key (hm_map m ! p) = None then Inr m
          else
            (case remove_loop (hm_capacity m) (unat (hm_capacity m)) (hm_map m) p p of
               None \<Rightarrow> Inl ProbeDiverges
             | Some (es, p') \<Rightarrow>
                 Inr (m\<lparr>hm_map := es[p' := (es ! p')\<lparr>e_key := None\<rparr>],
                        hm_occupancy := hm_occupancy m - 1\<rparr>)))"

text \<open>Iteration. \<open>Start\<close> is \<open>Next\<close> of the position before the array.\<close>

fun next_from :: "('k, 'v) Entry list \<Rightarrow> nat \<Rightarrow> nat \<Rightarrow> nat option" where
  "next_from es 0 p = None"
| "next_from es (Suc n) p =
     (if e_key (es ! p) \<noteq> None then Some p else next_from es n (Suc p))"

definition HashMap_Next :: "('k, 'v) HashMap \<Rightarrow> nat \<Rightarrow> nat option" where
  "HashMap_Next m p = next_from (hm_map m) (unat (hm_capacity m) - Suc p) (Suc p)"

definition HashMap_Start :: "('k, 'v) HashMap \<Rightarrow> nat option" where
  "HashMap_Start m = next_from (hm_map m) (unat (hm_capacity m)) 0"

section \<open>What a table holds\<close>

text \<open>
  The contract between the map and its client: the match function is an equivalence, and keys
  that match are always passed with the same hash.
\<close>

locale match_fun =
  fixes match :: "'k \<Rightarrow> 'k \<Rightarrow> bool"
    and hash_of :: "'k \<Rightarrow> uint32"
  assumes match_refl [simp]: "match k k"
    and match_sym: "match a b \<Longrightarrow> match b a"
    and match_trans: "match a b \<Longrightarrow> match b c \<Longrightarrow> match a c"
    and match_hash: "match a b \<Longrightarrow> hash_of a = hash_of b"

definition key_matches :: "('k \<Rightarrow> 'k \<Rightarrow> bool) \<Rightarrow> 'k \<Rightarrow> ('k, 'v) Entry \<Rightarrow> bool" where
  "key_matches match k e = (case e_key e of None \<Rightarrow> False | Some k' \<Rightarrow> match k k')"

text \<open>The abstract map: the value of the entry whose key matches, if there is one.\<close>

definition tbl_find ::
  "('k \<Rightarrow> 'k \<Rightarrow> bool) \<Rightarrow> ('k, 'v) Entry list \<Rightarrow> 'k \<Rightarrow> 'v option option" where
  "tbl_find match es k = map_option e_value (find (key_matches match k) es)"

definition occupied_slots :: "('k, 'v) Entry list \<Rightarrow> nat" where
  "occupied_slots es = length (filter (\<lambda>e. e_key e \<noteq> None) es)"

definition home :: "('k, 'v) Entry list \<Rightarrow> nat \<Rightarrow> nat" where
  "home es j = unat (e_hash (es ! j)) mod length es"

definition on_path :: "('k, 'v) Entry list \<Rightarrow> nat \<Rightarrow> nat \<Rightarrow> bool" where
  "on_path es j s \<longleftrightarrow>
     cyc_dist (length es) (home es j) s < cyc_dist (length es) (home es j) j"

definition keys_distinct :: "('k \<Rightarrow> 'k \<Rightarrow> bool) \<Rightarrow> ('k, 'v) Entry list \<Rightarrow> bool" where
  "keys_distinct match es \<longleftrightarrow>
     (\<forall>i < length es. \<forall>j < length es. \<forall>k k'.
        e_key (es ! i) = Some k \<longrightarrow> e_key (es ! j) = Some k' \<longrightarrow> match k k' \<longrightarrow> i = j)"

definition hashes_ok :: "('k \<Rightarrow> uint32) \<Rightarrow> ('k, 'v) Entry list \<Rightarrow> bool" where
  "hashes_ok hash_of es \<longleftrightarrow>
     (\<forall>j < length es. \<forall>k. e_key (es ! j) = Some k \<longrightarrow> e_hash (es ! j) = hash_of k)"

text \<open>
  Every entry can be reached from its initial position: no empty slot on the way, except
  possibly the slots in \<open>H\<close>.
\<close>

definition paths_ok :: "nat set \<Rightarrow> ('k, 'v) Entry list \<Rightarrow> bool" where
  "paths_ok H es \<longleftrightarrow>
     (\<forall>j < length es. e_key (es ! j) \<noteq> None \<longrightarrow>
        (\<forall>s < length es. on_path es j s \<longrightarrow> e_key (es ! s) \<noteq> None \<or> s \<in> H))"

definition table_ok ::
  "('k \<Rightarrow> 'k \<Rightarrow> bool) \<Rightarrow> ('k \<Rightarrow> uint32) \<Rightarrow> ('k, 'v) Entry list \<Rightarrow> bool" where
  "table_ok match hash_of es \<longleftrightarrow>
     keys_distinct match es \<and> hashes_ok hash_of es \<and> paths_ok {} es"

text \<open>The count \<open>Lookup\<close> compares with the capacity.\<close>

definition load_of :: "nat \<Rightarrow> nat" where
  "load_of n = n + n div 4"

lemma load_of_mono: "a \<le> b \<Longrightarrow> load_of a \<le> load_of b"
  by (simp add: load_of_def add_mono div_le_mono)

lemma load_of_ge: "n \<le> load_of n"
  by (simp add: load_of_def)

lemma load_of_0 [simp]: "load_of 0 = 0"
  by (simp add: load_of_def)

lemma load_of_Suc: "load_of (Suc n) \<le> load_of n + 2"
  unfolding load_of_def by linarith

lemma load_of_less_double: "0 < c \<Longrightarrow> n \<le> c \<Longrightarrow> load_of n < c * 2"
  unfolding load_of_def by linarith

text \<open>
  The invariant of the map between operations. The last conjunct is the load bound of \<open>Lookup\<close>;
  it leaves an empty slot for every probe to stop at.
\<close>

definition HashMap_ok ::
  "('k \<Rightarrow> uint32) \<Rightarrow> ('k, 'v) HashMap \<Rightarrow> bool" where
  "HashMap_ok hash_of m \<longleftrightarrow>
     length (hm_map m) = unat (hm_capacity m) \<and>
     (\<exists>j. unat (hm_capacity m) = 2 ^ j) \<and>
     unat (hm_occupancy m) = occupied_slots (hm_map m) \<and>
     table_ok (hm_match m) hash_of (hm_map m) \<and>
     load_of (occupied_slots (hm_map m)) < unat (hm_capacity m)"

abbreviation hm_find :: "('k, 'v) HashMap \<Rightarrow> 'k \<Rightarrow> 'v option option" where
  "hm_find m k \<equiv> tbl_find (hm_match m) (hm_map m) k"

lemma tbl_find_SomeD:
  assumes "tbl_find match es k = Some v"
  shows "\<exists>j < length es. \<exists>k'. e_key (es ! j) = Some k' \<and> match k k' \<and> e_value (es ! j) = v"
proof -
  obtain e where e: "find (key_matches match k) es = Some e" "e_value e = v"
    using assms by (auto simp: tbl_find_def)
  then obtain j where "j < length es" "key_matches match k (es ! j)" "es ! j = e"
    by (auto simp: find_Some_iff)
  with e(2) show ?thesis
    by (auto simp: key_matches_def split: option.splits)
qed

lemma tbl_find_None_iff:
  "tbl_find match es k = None \<longleftrightarrow>
     (\<forall>j < length es. \<forall>k'. e_key (es ! j) = Some k' \<longrightarrow> \<not> match k k')"
  by (force simp: tbl_find_def find_None_iff key_matches_def in_set_conv_nth
        split: option.splits)

lemma occupied_slots_update:
  "p < length es \<Longrightarrow>
     occupied_slots (es[p := e]) + (if e_key (es ! p) = None then 0 else 1)
       = occupied_slots es + (if e_key e = None then 0 else 1)"
proof (induction es arbitrary: p)
  case Nil
  then show ?case by simp
next
  case (Cons x es)
  show ?case
  proof (cases p)
    case 0
    then show ?thesis by (simp add: occupied_slots_def)
  next
    case (Suc n)
    with Cons.IH [of n] Cons.prems show ?thesis
      by (auto simp: occupied_slots_def split: if_splits)
  qed
qed

lemma occupied_slots_less_empty:
  assumes "occupied_slots es < length es"
  shows "\<exists>s < length es. e_key (es ! s) = None"
proof (rule ccontr)
  assume "\<not> ?thesis"
  then have "filter (\<lambda>e. e_key e \<noteq> None) es = es"
    by (auto simp: filter_id_conv in_set_conv_nth)
  with assms show False by (simp add: occupied_slots_def)
qed

lemma keys_distinctD:
  "keys_distinct match es \<Longrightarrow> i < length es \<Longrightarrow> j < length es \<Longrightarrow>
    e_key (es ! i) = Some k \<Longrightarrow> e_key (es ! j) = Some k' \<Longrightarrow> match k k' \<Longrightarrow> i = j"
  by (auto simp: keys_distinct_def)

context match_fun begin

lemma tbl_find_SomeI:
  assumes "keys_distinct match es" "j < length es" "e_key (es ! j) = Some k'" "match k k'"
  shows "tbl_find match es k = Some (e_value (es ! j))"
proof (cases "tbl_find match es k")
  case None
  then show ?thesis using assms by (auto simp: tbl_find_None_iff)
next
  case (Some v)
  from tbl_find_SomeD [OF Some] obtain i k'' where
    i: "i < length es" "e_key (es ! i) = Some k''" "match k k''" "e_value (es ! i) = v"
    by blast
  have "match k'' k'"
    using match_trans [OF match_sym [OF i(3)] assms(4)] .
  then have "i = j"
    using keys_distinctD [OF assms(1) i(1) assms(2) i(2) assms(3)] by simp
  with i Some show ?thesis by simp
qed

lemma tbl_find_Some_iff:
  "keys_distinct match es \<Longrightarrow>
   tbl_find match es k = Some v \<longleftrightarrow>
     (\<exists>j < length es. \<exists>k'. e_key (es ! j) = Some k' \<and> match k k' \<and> e_value (es ! j) = v)"
  by (auto dest: tbl_find_SomeD simp: tbl_find_SomeI)

lemma tbl_find_match:
  assumes "match k k'"
  shows "tbl_find match es k = tbl_find match es k'"
proof -
  have "match k x \<longleftrightarrow> match k' x" for x
    using assms match_sym match_trans by blast
  then have "key_matches match k = key_matches match k'"
    by (auto simp: key_matches_def fun_eq_iff split: option.splits)
  then show ?thesis unfolding tbl_find_def by (rule arg_cong)
qed

end

section \<open>Probing\<close>

text \<open>The condition that ends the loop of \<open>Probe\<close> at a slot.\<close>

definition probe_stops :: "('k, 'v) HashMap \<Rightarrow> 'k \<Rightarrow> uint32 \<Rightarrow> nat \<Rightarrow> bool" where
  "probe_stops m k h s \<longleftrightarrow>
     (case e_key (hm_map m ! s) of
        None \<Rightarrow> True
      | Some k' \<Rightarrow> h = e_hash (hm_map m ! s) \<and> hm_match m k k')"

lemma probe_loop_step:
  "probe_loop m k h (Suc n) p =
     (if probe_stops m k h p then Some p
      else probe_loop m k h n (cyc_next (unat (hm_capacity m)) p))"
  by (auto simp: probe_stops_def split: option.splits)

lemma probe_loop_finds:
  assumes "p < unat (hm_capacity m)" "z < unat (hm_capacity m)" "probe_stops m k h z"
    "cyc_dist (unat (hm_capacity m)) p z < fuel"
  shows "\<exists>q < unat (hm_capacity m). probe_loop m k h fuel p = Some q \<and> probe_stops m k h q \<and>
      (\<forall>s < unat (hm_capacity m).
         cyc_dist (unat (hm_capacity m)) p s < cyc_dist (unat (hm_capacity m)) p q \<longrightarrow>
         \<not> probe_stops m k h s)"
  using assms
proof (induction fuel arbitrary: p)
  case 0
  then show ?case by simp
next
  case (Suc fuel)
  let ?n = "unat (hm_capacity m)"
  show ?case
  proof (cases "probe_stops m k h p")
    case True
    with Suc.prems show ?thesis
      by (auto simp: probe_loop_step simp del: probe_loop.simps)
  next
    case False
    with Suc.prems(3) have ne: "z \<noteq> p" by auto
    let ?p = "cyc_next ?n p"
    have p: "?p < ?n" using Suc.prems(1) by simp
    have "cyc_dist ?n ?p z < fuel"
      using cyc_dist_next [OF Suc.prems(1,2) ne] Suc.prems(4) by simp
    from Suc.IH [OF p Suc.prems(2,3) this] obtain q where
      q: "q < ?n" "probe_loop m k h fuel ?p = Some q" "probe_stops m k h q" and
      before: "\<forall>s < ?n. cyc_dist ?n ?p s < cyc_dist ?n ?p q \<longrightarrow> \<not> probe_stops m k h s"
      by blast
    have "\<not> probe_stops m k h s" if s: "s < ?n" "cyc_dist ?n p s < cyc_dist ?n p q" for s
    proof (cases "s = p")
      case True
      with False show ?thesis by simp
    next
      case ne: False
      moreover have "q \<noteq> p" using q(3) False by auto
      ultimately have "cyc_dist ?n ?p s < cyc_dist ?n ?p q"
        using cyc_dist_next [of p ?n] Suc.prems(1) s q(1) by simp
      with before s(1) show ?thesis by simp
    qed
    with q False show ?thesis
      by (auto simp: probe_loop_step simp del: probe_loop.simps)
  qed
qed

lemma home_slot_eq:
  assumes "HashMap_ok hash_of m"
  shows "home_slot m h = unat h mod unat (hm_capacity m)"
    and "0 < unat (hm_capacity m)"
  using assms by (auto simp: HashMap_ok_def home_slot_def unat_and_pow2_mask)

lemma home_slot_less:
  "HashMap_ok hash_of m \<Longrightarrow> home_slot m h < unat (hm_capacity m)"
  using home_slot_eq [of hash_of m] by simp

lemma HashMap_ok_empty_slot:
  "HashMap_ok hash_of m \<Longrightarrow> \<exists>z < unat (hm_capacity m). e_key (hm_map m ! z) = None"
  using occupied_slots_less_empty [of "hm_map m"] load_of_ge [of "occupied_slots (hm_map m)"]
  by (auto simp: HashMap_ok_def)

text \<open>Under the invariant a probe returns, and says what it found.\<close>

lemma Probe_returns:
  assumes "HashMap_ok hash_of m"
  shows "\<exists>q < unat (hm_capacity m). HashMap_Probe m k h = Some q \<and> probe_stops m k h q \<and>
      (\<forall>s < unat (hm_capacity m).
         cyc_dist (unat (hm_capacity m)) (home_slot m h) s
           < cyc_dist (unat (hm_capacity m)) (home_slot m h) q \<longrightarrow>
         \<not> probe_stops m k h s)"
proof -
  obtain z where z: "z < unat (hm_capacity m)" "e_key (hm_map m ! z) = None"
    using HashMap_ok_empty_slot [OF assms] by blast
  then have "probe_stops m k h z" by (simp add: probe_stops_def)
  from probe_loop_finds [OF home_slot_less [OF assms] z(1) this
      cyc_dist_less [OF home_slot_less [OF assms] z(1)]]
  show ?thesis unfolding HashMap_Probe_def .
qed

lemma HashMap_ok_tableD:
  assumes "HashMap_ok hash_of m"
  shows "keys_distinct (hm_match m) (hm_map m)" "hashes_ok hash_of (hm_map m)"
    "paths_ok {} (hm_map m)" "length (hm_map m) = unat (hm_capacity m)"
  using assms by (auto simp: HashMap_ok_def table_ok_def)

lemma hashes_okD:
  "hashes_ok hash_of es \<Longrightarrow> j < length es \<Longrightarrow> e_key (es ! j) = Some k \<Longrightarrow>
    e_hash (es ! j) = hash_of k"
  by (auto simp: hashes_ok_def)

lemma paths_okD:
  "paths_ok H es \<Longrightarrow> j < length es \<Longrightarrow> e_key (es ! j) \<noteq> None \<Longrightarrow> s < length es \<Longrightarrow>
    on_path es j s \<Longrightarrow> e_key (es ! s) \<noteq> None \<or> s \<in> H"
  by (auto simp: paths_ok_def)

context match_fun begin

text \<open>An entry that is in the table is the one the probe for its key stops at.\<close>

lemma Probe_found:
  assumes m: "hm_match m = match" and ok: "HashMap_ok hash_of m"
    and j: "j < unat (hm_capacity m)" "e_key (hm_map m ! j) = Some k'" "match k k'"
  shows "HashMap_Probe m k (hash_of k) = Some j"
proof -
  let ?n = "unat (hm_capacity m)" and ?es = "hm_map m" and ?p = "home_slot m (hash_of k)"
  note t = HashMap_ok_tableD [OF ok]
  have hj: "e_hash (?es ! j) = hash_of k"
    using hashes_okD [OF t(2) _ j(2)] j t(4) match_hash by simp
  then have home: "home ?es j = ?p"
    using home_slot_eq(1) [OF ok] t(4) by (simp add: home_def)
  obtain q where q: "q < ?n" "HashMap_Probe m k (hash_of k) = Some q"
      "probe_stops m k (hash_of k) q" and
    before: "\<forall>s < ?n. cyc_dist ?n ?p s < cyc_dist ?n ?p q \<longrightarrow> \<not> probe_stops m k (hash_of k) s"
    using Probe_returns [OF ok] by blast
  have stop_j: "probe_stops m k (hash_of k) j"
    using j m hj by (simp add: probe_stops_def)
  have "\<not> cyc_dist ?n ?p q < cyc_dist ?n ?p j"
  proof
    assume less: "cyc_dist ?n ?p q < cyc_dist ?n ?p j"
    then have "e_key (?es ! q) \<noteq> None"
      using paths_okD [OF t(3), of j q] j q(1) t(4) home by (auto simp: on_path_def)
    then obtain k2 where "e_key (?es ! q) = Some k2" "match k k2"
      using q(3) m by (auto simp: probe_stops_def)
    then have "q = j"
      using keys_distinctD [OF t(1), of q j k2 k'] q(1) j t(4) m
        match_trans [OF match_sym, of k k2 k'] by simp
    with less show False by simp
  qed
  moreover have "\<not> cyc_dist ?n ?p j < cyc_dist ?n ?p q"
    using before j(1) stop_j by blast
  ultimately have "q = j"
    using cyc_dist_inj [OF home_slot_less [OF ok] q(1) j(1)] by simp
  with q(2) show ?thesis by simp
qed

lemma Probe_finds:
  assumes m: "hm_match m = match" and ok: "HashMap_ok hash_of m" and v: "hm_find m k = Some v"
  shows "\<exists>j < unat (hm_capacity m). \<exists>k'. HashMap_Probe m k (hash_of k) = Some j \<and>
    e_key (hm_map m ! j) = Some k' \<and> match k k' \<and> e_value (hm_map m ! j) = v"
proof -
  from tbl_find_SomeD [OF v] obtain j k' where
    j: "j < length (hm_map m)" "e_key (hm_map m ! j) = Some k'" "match k k'"
      "e_value (hm_map m ! j) = v"
    using m by auto
  then show ?thesis
    using Probe_found [OF m ok _ j(2,3)] HashMap_ok_tableD(4) [OF ok] by auto
qed

text \<open>
  A key that is not in the table makes the probe stop at an empty slot, and every slot
  before it on the way from the initial position is occupied.
\<close>

lemma Probe_missing:
  assumes m: "hm_match m = match" and ok: "HashMap_ok hash_of m" and v: "hm_find m k = None"
  shows "\<exists>q < unat (hm_capacity m). HashMap_Probe m k (hash_of k) = Some q \<and>
    e_key (hm_map m ! q) = None \<and>
    (\<forall>s < unat (hm_capacity m).
       cyc_dist (unat (hm_capacity m)) (home_slot m (hash_of k)) s
         < cyc_dist (unat (hm_capacity m)) (home_slot m (hash_of k)) q \<longrightarrow>
       e_key (hm_map m ! s) \<noteq> None)"
proof -
  let ?n = "unat (hm_capacity m)" and ?p = "home_slot m (hash_of k)"
  obtain q where q: "q < ?n" "HashMap_Probe m k (hash_of k) = Some q"
      "probe_stops m k (hash_of k) q" and
    before: "\<forall>s < ?n. cyc_dist ?n ?p s < cyc_dist ?n ?p q \<longrightarrow> \<not> probe_stops m k (hash_of k) s"
    using Probe_returns [OF ok] by blast
  have len: "length (hm_map m) = ?n" by (rule HashMap_ok_tableD(4) [OF ok])
  have "e_key (hm_map m ! q) = None"
  proof (cases "e_key (hm_map m ! q)")
    case (Some k')
    with q(3) have "hm_match m k k'" by (simp add: probe_stops_def)
    with v Some q(1) len show ?thesis by (auto simp: tbl_find_None_iff)
  qed
  moreover have "e_key (hm_map m ! s) \<noteq> None"
    if s: "s < ?n" "cyc_dist ?n ?p s < cyc_dist ?n ?p q" for s
  proof
    assume "e_key (hm_map m ! s) = None"
    then have "probe_stops m k (hash_of k) s" by (simp add: probe_stops_def)
    with before s show False by blast
  qed
  ultimately show ?thesis using q by blast
qed

end

section \<open>Writing an entry\<close>

lemma on_path_update_other:
  "j \<noteq> p \<Longrightarrow> on_path (es[p := e]) j s \<longleftrightarrow> on_path es j s"
  by (simp add: on_path_def home_def)

lemma home_update_same:
  "p < length es \<Longrightarrow> home (es[p := e]) p = unat (e_hash e) mod length es"
  by (simp add: home_def)

lemma paths_ok_update_occupied:
  assumes "paths_ok H es" "p < length es" "e_key e \<noteq> None" "p \<notin> H"
    and "\<And>s. s < length es \<Longrightarrow>
      cyc_dist (length es) (unat (e_hash e) mod length es) s
        < cyc_dist (length es) (unat (e_hash e) mod length es) p \<Longrightarrow>
      e_key (es ! s) \<noteq> None \<or> s \<in> H"
  shows "paths_ok H (es[p := e])"
  unfolding paths_ok_def
proof (intro allI impI)
  fix j s
  assume j: "j < length (es[p := e])" "e_key (es[p := e] ! j) \<noteq> None"
    and s: "s < length (es[p := e])" "on_path (es[p := e]) j s"
  show "e_key (es[p := e] ! s) \<noteq> None \<or> s \<in> H"
  proof (cases "s = p")
    case True
    with assms(2,3) show ?thesis by simp
  next
    case False
    have "e_key (es ! s) \<noteq> None \<or> s \<in> H"
    proof (cases "j = p")
      case True
      with s assms(2,5) show ?thesis by (simp add: on_path_def home_update_same)
    next
      case False
      with j s paths_okD [OF assms(1), of j s] show ?thesis
        by (simp add: on_path_update_other)
    qed
    with False show ?thesis by simp
  qed
qed

lemma hashes_ok_update:
  "hashes_ok hash_of es \<Longrightarrow> (\<And>k. e_key e = Some k \<Longrightarrow> e_hash e = hash_of k) \<Longrightarrow>
    hashes_ok hash_of (es[p := e])"
  by (cases "p < length es") (auto simp: hashes_ok_def nth_list_update list_update_beyond)

context match_fun begin

lemma keys_distinct_update:
  assumes "keys_distinct match es"
    and "\<And>j k k'. j < length es \<Longrightarrow> j \<noteq> p \<Longrightarrow> e_key (es ! j) = Some k' \<Longrightarrow> e_key e = Some k \<Longrightarrow>
      \<not> match k k'"
  shows "keys_distinct match (es[p := e])"
  unfolding keys_distinct_def
proof (intro allI impI)
  fix i j k k'
  assume ij: "i < length (es[p := e])" "j < length (es[p := e])"
    and k: "e_key (es[p := e] ! i) = Some k" "e_key (es[p := e] ! j) = Some k'" "match k k'"
  show "i = j"
  proof (rule ccontr)
    assume ne: "i \<noteq> j"
    consider "i = p" | "j = p" | "i \<noteq> p" "j \<noteq> p" by blast
    then show False
    proof cases
      case 1
      with ij k ne assms(2) [of j k' k] show False by simp
    next
      case 2
      with ij k ne assms(2) [of i k k'] match_sym [OF k(3)] show False by simp
    next
      case 3
      with ij k ne keys_distinctD [OF assms(1), of i j k k'] show False by simp
    qed
  qed
qed

text \<open>An update of one slot, seen by the abstract map.\<close>

lemma tbl_find_update:
  assumes d: "keys_distinct match (es[p := e])" "keys_distinct match es" and p: "p < length es"
    and k0: "\<And>k'. e_key (es ! p) = Some k' \<Longrightarrow> e_key e \<noteq> None \<Longrightarrow> match k' (the (e_key e))"
  shows "tbl_find match (es[p := e]) k =
     (if key_matches match k e then Some (e_value e)
      else if key_matches match k (es ! p) then None else tbl_find match es k)"
proof (cases "key_matches match k e")
  case True
  then obtain k' where "e_key e = Some k'" "match k k'"
    by (auto simp: key_matches_def split: option.splits)
  with tbl_find_SomeI [OF d(1), of p k' k] p True show ?thesis by simp
next
  case no: False
  show ?thesis
  proof (cases "key_matches match k (es ! p)")
    case True
    then obtain k' where k': "e_key (es ! p) = Some k'" "match k k'"
      by (auto simp: key_matches_def split: option.splits)
    have "\<not> match k k2" if "j < length es" "e_key (es[p := e] ! j) = Some k2" for j k2
    proof
      assume m: "match k k2"
      show False
      proof (cases "j = p")
        case True
        with that no m p show False by (auto simp: key_matches_def)
      next
        case False
        with that have "e_key (es ! j) = Some k2" by simp
        moreover have "match k' k2"
          using match_trans [OF match_sym [OF k'(2)] m] .
        ultimately show False
          using keys_distinctD [OF d(2) p that(1) k'(1)] False by blast
      qed
    qed
    then have "tbl_find match (es[p := e]) k = None"
      by (simp add: tbl_find_None_iff)
    with no True show ?thesis by simp
  next
    case False
    have "tbl_find match (es[p := e]) k = Some v \<longleftrightarrow> tbl_find match es k = Some v" for v
      unfolding tbl_find_Some_iff [OF d(1)] tbl_find_Some_iff [OF d(2)]
      using no False p
      by (intro ex_cong1) (auto simp: key_matches_def nth_list_update)
    then have "tbl_find match (es[p := e]) k = tbl_find match es k"
      by (metis not_None_eq)
    with no False show ?thesis by simp
  qed
qed

text \<open>Filling the empty slot a probe stopped at.\<close>

lemma table_ok_insert:
  assumes ok: "table_ok match hash_of es" and q: "q < length es" "e_key (es ! q) = None"
    and new: "tbl_find match es k = None"
    and path: "\<And>s. s < length es \<Longrightarrow>
      cyc_dist (length es) (unat (hash_of k) mod length es) s
        < cyc_dist (length es) (unat (hash_of k) mod length es) q \<Longrightarrow> e_key (es ! s) \<noteq> None"
  shows "table_ok match hash_of (es[q := \<lparr>e_key = Some k, e_value = v, e_hash = hash_of k\<rparr>])"
    and "tbl_find match (es[q := \<lparr>e_key = Some k, e_value = v, e_hash = hash_of k\<rparr>]) k' =
      (if match k' k then Some v else tbl_find match es k')"
proof -
  let ?e = "\<lparr>e_key = Some k, e_value = v, e_hash = hash_of k\<rparr>"
  have d: "keys_distinct match es" and p: "paths_ok {} es" and h: "hashes_ok hash_of es"
    using ok by (auto simp: table_ok_def)
  have d': "keys_distinct match (es[q := ?e])"
    using new by (intro keys_distinct_update [OF d]) (auto simp: tbl_find_None_iff)
  moreover have "hashes_ok hash_of (es[q := ?e])"
    by (rule hashes_ok_update [OF h]) auto
  moreover have "paths_ok {} (es[q := ?e])"
    using path by (intro paths_ok_update_occupied [OF p q(1)]) auto
  ultimately show "table_ok match hash_of (es[q := ?e])" by (simp add: table_ok_def)
  show "tbl_find match (es[q := ?e]) k' = (if match k' k then Some v else tbl_find match es k')"
    using tbl_find_update [OF d' d q(1)] q(2) by (simp add: key_matches_def)
qed

text \<open>Overwriting the key (by one that matches) and the value of an entry.\<close>

lemma table_ok_overwrite:
  assumes ok: "table_ok match hash_of es" and q: "q < length es" "e_key (es ! q) = Some k0"
    and k: "match k0 k"
  shows "table_ok match hash_of (es[q := (es ! q)\<lparr>e_key := Some k, e_value := v\<rparr>])"
    and "tbl_find match (es[q := (es ! q)\<lparr>e_key := Some k, e_value := v\<rparr>]) k' =
      (if match k' k then Some v else tbl_find match es k')"
proof -
  let ?e = "(es ! q)\<lparr>e_key := Some k, e_value := v\<rparr>"
  have d: "keys_distinct match es" and p: "paths_ok {} es" and h: "hashes_ok hash_of es"
    using ok by (auto simp: table_ok_def)
  have d': "keys_distinct match (es[q := ?e])"
  proof (rule keys_distinct_update [OF d])
    fix j k2 k1
    assume j: "j < length es" "j \<noteq> q" "e_key (es ! j) = Some k1" "e_key ?e = Some k2"
    show "\<not> match k2 k1"
      using keys_distinctD [OF d q(1) j(1) q(2) j(3)] j(2,4) match_trans [OF k] by auto
  qed
  moreover have "hashes_ok hash_of (es[q := ?e])"
    using hashes_okD [OF h q] match_hash [OF k] by (intro hashes_ok_update [OF h]) auto
  moreover have "paths_ok {} (es[q := ?e])"
  proof (rule paths_ok_update_occupied [OF p q(1)])
    fix s
    assume "s < length es"
      "cyc_dist (length es) (unat (e_hash ?e) mod length es) s
        < cyc_dist (length es) (unat (e_hash ?e) mod length es) q"
    then show "e_key (es ! s) \<noteq> None \<or> s \<in> {}"
      using paths_okD [OF p q(1), of s] q(2) by (simp add: on_path_def home_def)
  qed auto
  ultimately show "table_ok match hash_of (es[q := ?e])" by (simp add: table_ok_def)
  have "key_matches match k' (es ! q) \<Longrightarrow> match k' k"
    using q(2) k match_trans by (auto simp: key_matches_def)
  then show "tbl_find match (es[q := ?e]) k' =
      (if match k' k then Some v else tbl_find match es k')"
    using tbl_find_update [OF d' d q(1)] q(2) k by (auto simp: key_matches_def)
qed

end

section \<open>Removing an entry\<close>

text \<open>
  While \<open>Remove\<close> scans, slot \<open>p\<close> is a hole: the entry there is to be cleared, so the table meant
  is the one with its key gone. The scan keeps: keys whose path crosses the hole lie beyond
  the scan position \<open>q\<close>, and every slot between the hole and \<open>q\<close> is occupied.
\<close>

definition clear_slot :: "('k, 'v) Entry list \<Rightarrow> nat \<Rightarrow> ('k, 'v) Entry list" where
  "clear_slot es p = es[p := (es ! p)\<lparr>e_key := None\<rparr>]"

definition hole_ok ::
  "('k \<Rightarrow> 'k \<Rightarrow> bool) \<Rightarrow> ('k \<Rightarrow> uint32) \<Rightarrow> ('k, 'v) Entry list \<Rightarrow> nat \<Rightarrow> nat \<Rightarrow> bool" where
  "hole_ok match hash_of es p q \<longleftrightarrow>
     keys_distinct match (clear_slot es p) \<and> hashes_ok hash_of (clear_slot es p) \<and>
     paths_ok {p} (clear_slot es p) \<and>
     (\<forall>j < length es. e_key (clear_slot es p ! j) \<noteq> None \<longrightarrow> on_path (clear_slot es p) j p \<longrightarrow>
        cyc_dist (length es) p q < cyc_dist (length es) p j) \<and>
     (\<forall>s < length es. 0 < cyc_dist (length es) p s \<longrightarrow>
        cyc_dist (length es) p s \<le> cyc_dist (length es) p q \<longrightarrow>
        e_key (clear_slot es p ! s) \<noteq> None)"

lemma length_clear_slot [simp]: "length (clear_slot es p) = length es"
  by (simp add: clear_slot_def)

lemma nth_clear_slot_same [simp]: "p < length es \<Longrightarrow> e_key (clear_slot es p ! p) = None"
  by (simp add: clear_slot_def)

lemma nth_clear_slot_other [simp]: "s \<noteq> p \<Longrightarrow> clear_slot es p ! s = es ! s"
  by (simp add: clear_slot_def)

lemma occupied_slots_clear:
  "p < length es \<Longrightarrow> e_key (es ! p) \<noteq> None \<Longrightarrow>
    occupied_slots (clear_slot es p) + 1 = occupied_slots es"
  using occupied_slots_update [of p es "(es ! p)\<lparr>e_key := None\<rparr>"]
  by (auto simp: clear_slot_def split: if_splits)

lemma hole_okD:
  assumes "hole_ok match hash_of es p q"
  shows "keys_distinct match (clear_slot es p)" "hashes_ok hash_of (clear_slot es p)"
    "paths_ok {p} (clear_slot es p)"
    "\<And>j. j < length es \<Longrightarrow> e_key (clear_slot es p ! j) \<noteq> None \<Longrightarrow>
      on_path (clear_slot es p) j p \<Longrightarrow>
      cyc_dist (length es) p q < cyc_dist (length es) p j"
    "\<And>s. s < length es \<Longrightarrow> 0 < cyc_dist (length es) p s \<Longrightarrow>
      cyc_dist (length es) p s \<le> cyc_dist (length es) p q \<Longrightarrow> e_key (clear_slot es p ! s) \<noteq> None"
  using assms unfolding hole_ok_def by blast+

lemma hole_scan_next:
  assumes h: "hole_ok match hash_of es p q" and b: "p < length es" "q < length es" "z < length es"
    and z: "z \<noteq> p" "e_key (es ! z) = None"
  defines "q' \<equiv> cyc_next (length es) q"
  shows "q' < length es" "q' \<noteq> p" "q \<noteq> z"
    "cyc_dist (length es) p q' = Suc (cyc_dist (length es) p q)"
    "cyc_dist (length es) q z = Suc (cyc_dist (length es) q' z)"
proof -
  let ?n = "length es"
  show q': "q' < ?n" using b by (simp add: q'_def)
  have pz: "0 < cyc_dist ?n p z"
    using cyc_dist_eq_0 [OF b(1,3)] z(1) by simp
  have less: "cyc_dist ?n p q < cyc_dist ?n p z"
  proof (rule ccontr)
    assume "\<not> ?thesis"
    then have "e_key (clear_slot es p ! z) \<noteq> None"
      using hole_okD(5) [OF h b(3) pz] by simp
    with z show False by simp
  qed
  then show qz: "q \<noteq> z" by auto
  show d: "cyc_dist ?n q z = Suc (cyc_dist ?n q' z)"
    using cyc_dist_next [OF b(2,3)] qz by (simp add: q'_def)
  have split: "cyc_dist ?n p z = cyc_dist ?n p q + cyc_dist ?n q z"
    using cyc_dist_split [OF b(1,2,3)] less by simp
  show ne: "q' \<noteq> p"
  proof
    assume "q' = p"
    with d split have "cyc_dist ?n p z = cyc_dist ?n p q + Suc (cyc_dist ?n p z)" by simp
    then show False by simp
  qed
  show "cyc_dist ?n p q' = Suc (cyc_dist ?n p q)"
    using cyc_dist_to_next [OF b(1,2)] ne by (simp add: q'_def)
qed

text \<open>The scan meets an empty slot: the hole can be cleared.\<close>

lemma hole_done:
  assumes h: "hole_ok match hash_of es p q" and b: "p < length es" "q' < length es" "q' \<noteq> p"
    and d: "cyc_dist (length es) p q' = Suc (cyc_dist (length es) p q)"
    and e: "e_key (es ! q') = None"
  shows "table_ok match hash_of (clear_slot es p)"
proof -
  let ?n = "length es" and ?T = "clear_slot es p"
  note hD = hole_okD [OF h]
  have "paths_ok {} ?T"
    unfolding paths_ok_def
  proof (intro allI impI)
    fix j s
    assume j: "j < length ?T" "e_key (?T ! j) \<noteq> None" and s: "s < length ?T" "on_path ?T j s"
    have "s \<noteq> p"
    proof
      assume "s = p"
      with s have path: "on_path ?T j p" by simp
      have "0 < ?n" using b(1) by linarith
      then have hm: "home ?T j < ?n" by (simp add: home_def)
      from hD(4) [OF _ j(2) path] j(1) d
      have "cyc_dist ?n p q' \<le> cyc_dist ?n p j" by simp
      moreover have "q' \<noteq> j" using j(2) e b(3) by auto
      ultimately have "cyc_dist ?n p q' < cyc_dist ?n p j"
        using cyc_dist_inj [OF b(1,2), of j] j(1) by fastforce
      then have "on_path ?T j q'"
        using cyc_dist_between [OF hm b(1,2), of j] path j(1) by (simp add: on_path_def)
      then show False
        using paths_okD [OF hD(3) j(1,2), of q'] b e by simp
    qed
    then show "e_key (?T ! s) \<noteq> None \<or> s \<in> {}"
      using paths_okD [OF hD(3) j s] by blast
  qed
  with hD(1,2) show ?thesis by (simp add: table_ok_def)
qed

text \<open>The entry at the scan position stays: its initial position is between hole and scan.\<close>

lemma hole_skip:
  assumes h: "hole_ok match hash_of es p q" and b: "p < length es" "q' < length es" "q' \<noteq> p"
    and d: "cyc_dist (length es) p q' = Suc (cyc_dist (length es) p q)"
    and e: "e_key (es ! q') \<noteq> None" and off: "\<not> on_path es q' p"
  shows "hole_ok match hash_of es p q'"
proof -
  let ?n = "length es" and ?T = "clear_slot es p"
  note hD = hole_okD [OF h]
  have off': "\<not> on_path ?T q' p"
    using off b(3) by (simp add: on_path_def home_def)
  have "cyc_dist ?n p q' < cyc_dist ?n p j"
    if j: "j < ?n" "e_key (?T ! j) \<noteq> None" "on_path ?T j p" for j
  proof -
    have "j \<noteq> q'" using j(3) off' by blast
    moreover have "cyc_dist ?n p q' \<le> cyc_dist ?n p j"
      using hD(4) [OF j] d by simp
    ultimately show ?thesis
      using cyc_dist_inj [OF b(1,2) j(1)] by fastforce
  qed
  moreover have "e_key (?T ! s) \<noteq> None"
    if s: "s < ?n" "0 < cyc_dist ?n p s" "cyc_dist ?n p s \<le> cyc_dist ?n p q'" for s
  proof (cases "cyc_dist ?n p s = cyc_dist ?n p q'")
    case True
    then have "s = q'" using cyc_dist_inj [OF b(1) s(1) b(2)] by simp
    with e b(3) show ?thesis by simp
  next
    case False
    with s d hD(5) [OF s(1,2)] show ?thesis by simp
  qed
  ultimately show ?thesis
    using hD(1-3) by (simp add: hole_ok_def)
qed

text \<open>
  The entry at the scan position moves into the hole, and its old slot is the new hole. Slot
  \<open>p\<close> of the new table is slot \<open>q'\<close> of the old one; all others stay.
\<close>

lemma hole_move_nth:
  assumes "p < length es" "q' < length es" "q' \<noteq> p" "j \<noteq> q'"
  shows "clear_slot (es[p := es ! q']) q' ! j = clear_slot es p ! (if j = p then q' else j)"
  using assms by (auto simp: clear_slot_def nth_list_update)

lemma hole_move:
  assumes h: "hole_ok match hash_of es p q" and b: "p < length es" "q' < length es" "q' \<noteq> p"
    and e: "e_key (es ! q') \<noteq> None" and on: "on_path es q' p"
  shows "hole_ok match hash_of (es[p := es ! q']) q' q'"
proof -
  let ?n = "length es" and ?T = "clear_slot es p"
  let ?T1 = "clear_slot (es[p := es ! q']) q'" and ?\<sigma> = "\<lambda>j. if j = p then q' else j"
  note hD = hole_okD [OF h]
  have nth: "?T1 ! j = ?T ! ?\<sigma> j" if "j \<noteq> q'" for j
    using hole_move_nth [OF b that] .
  have q'None: "e_key (?T1 ! q') = None" using b by simp
  have "keys_distinct match ?T1"
    unfolding keys_distinct_def
  proof (intro allI impI)
    fix i j k k'
    assume i: "i < length ?T1" "e_key (?T1 ! i) = Some k"
      and j: "j < length ?T1" "e_key (?T1 ! j) = Some k'" and m: "match k k'"
    have ij: "i \<noteq> q'" "j \<noteq> q'" using i j q'None by auto
    have "?\<sigma> i = ?\<sigma> j"
      using keys_distinctD [OF hD(1), of "?\<sigma> i" "?\<sigma> j" k k'] i j m nth [OF ij(1)] nth [OF ij(2)] b
      by simp
    with ij show "i = j" by (simp split: if_splits)
  qed
  moreover have "hashes_ok hash_of ?T1"
    unfolding hashes_ok_def
  proof (intro allI impI)
    fix j k
    assume j: "j < length ?T1" "e_key (?T1 ! j) = Some k"
    then have "j \<noteq> q'" using q'None by auto
    with nth j b hashes_okD [OF hD(2), of "?\<sigma> j" k] show "e_hash (?T1 ! j) = hash_of k"
      by (cases "j = p") auto
  qed
  moreover have "paths_ok {q'} ?T1"
    unfolding paths_ok_def
  proof (intro allI impI)
    fix j s
    assume j: "j < length ?T1" "e_key (?T1 ! j) \<noteq> None" and s: "s < length ?T1" "on_path ?T1 j s"
    have jq: "j \<noteq> q'" using j q'None by auto
    have home: "home ?T1 j = home ?T (?\<sigma> j)" using nth [OF jq] by (simp add: home_def)
    have path: "on_path ?T (?\<sigma> j) s \<and> (j = p \<longrightarrow> s \<noteq> p)"
    proof (cases "j = p")
      case True
      have "home ?T q' = home es q'" using b(3) by (simp add: home_def)
      with True s(2) on home show ?thesis by (auto simp: on_path_def)
    next
      case False
      with s(2) home show ?thesis by (simp add: on_path_def)
    qed
    show "e_key (?T1 ! s) \<noteq> None \<or> s \<in> {q'}"
    proof (cases "s = q' \<or> s = p")
      case True
      with nth [of p] e b show ?thesis by auto
    next
      case False
      moreover have "e_key (?T ! ?\<sigma> j) \<noteq> None" using j(2) nth [OF jq] by simp
      ultimately show ?thesis
        using paths_okD [OF hD(3), of "?\<sigma> j" s] path j(1) s(1) b nth [of s] by auto
    qed
  qed
  moreover have "cyc_dist ?n q' q' < cyc_dist ?n q' j"
    if "j < ?n" "e_key (?T1 ! j) \<noteq> None" for j
    using that q'None cyc_dist_eq_0 [OF b(2) that(1)] by auto
  ultimately show ?thesis
    unfolding hole_ok_def by simp
qed

context match_fun begin

lemma hole_move_find:
  assumes d: "keys_distinct match (clear_slot es p)"
    "keys_distinct match (clear_slot (es[p := es ! q']) q')"
    and b: "p < length es" "q' < length es" "q' \<noteq> p"
  shows "tbl_find match (clear_slot (es[p := es ! q']) q') k = tbl_find match (clear_slot es p) k"
proof -
  let ?T = "clear_slot es p" and ?T1 = "clear_slot (es[p := es ! q']) q'"
  have "tbl_find match ?T1 k = Some v \<longleftrightarrow> tbl_find match ?T k = Some v" for v
  proof
    assume "tbl_find match ?T1 k = Some v"
    then obtain j k' where j: "j < length es" "e_key (?T1 ! j) = Some k'" "match k k'"
      "e_value (?T1 ! j) = v"
      using tbl_find_SomeD [of match ?T1 k v] by auto
    then have "j \<noteq> q'" using b by auto
    then show "tbl_find match ?T k = Some v"
      using tbl_find_SomeI [OF d(1), of "if j = p then q' else j" k' k] j b hole_move_nth [OF b, of j]
      by (cases "j = p") auto
  next
    assume "tbl_find match ?T k = Some v"
    then obtain j k' where j: "j < length es" "e_key (?T ! j) = Some k'" "match k k'"
      "e_value (?T ! j) = v"
      using tbl_find_SomeD [of match ?T k v] by auto
    then have "j \<noteq> p" using b by auto
    then show "tbl_find match ?T1 k = Some v"
      using tbl_find_SomeI [OF d(2), of "if j = q' then p else j" k' k] j b
        hole_move_nth [OF b, of "if j = q' then p else j"]
      by (cases "j = q'") auto
  qed
  then show ?thesis by (metis not_None_eq)
qed

lemma hole_move_occupied:
  assumes b: "p < length es" "q' < length es" "q' \<noteq> p" and e: "e_key (es ! q') \<noteq> None"
  shows "occupied_slots (clear_slot (es[p := es ! q']) q') = occupied_slots (clear_slot es p)"
  using occupied_slots_clear [of q' "es[p := es ! q']"]
    occupied_slots_update [OF b(1), of "es ! q'"]
    occupied_slots_update [OF b(1), of "(es ! p)\<lparr>e_key := None\<rparr>"] b e
  by (auto simp: clear_slot_def split: if_splits)

lemma remove_loop_correct:
  assumes "hole_ok match hash_of es p q" "p < length es" "q < length es" "z < length es"
    "z \<noteq> p" "e_key (es ! z) = None" "cyc_dist (length es) q z \<le> fuel"
    "unat cap = length es" "length es = 2 ^ i"
  shows "\<exists>es' p'. remove_loop cap fuel es p q = Some (es', p') \<and> p' < length es \<and>
     length es' = length es \<and> table_ok match hash_of (clear_slot es' p') \<and>
     (\<forall>k. tbl_find match (clear_slot es' p') k = tbl_find match (clear_slot es p) k) \<and>
     occupied_slots (clear_slot es' p') = occupied_slots (clear_slot es p)"
  using assms
proof (induction fuel arbitrary: es p q)
  case 0
  have "q \<noteq> z" using hole_scan_next(3) [OF "0.prems"(1-6)] .
  with "0.prems"(3,4,7) cyc_dist_eq_0 show ?case by auto
next
  case (Suc fuel)
  let ?n = "length es" and ?q' = "cyc_next (length es) q"
  note pr = Suc.prems
  note nx = hole_scan_next [OF pr(1-6)]
  have fuel: "cyc_dist ?n ?q' z \<le> fuel" using nx(5) pr(7) by simp
  have home: "unat (e_hash (es ! ?q') AND (cap - 1)) = home es ?q'"
    using unat_and_pow2_mask [of cap i "e_hash (es ! ?q')"] pr(8,9) by (simp add: home_def)
  have "0 < ?n" using pr(2) by linarith
  then have hless: "home es ?q' < ?n" by (simp add: home_def)
  show ?case
  proof (cases "e_key (es ! ?q') = None")
    case True
    have "remove_loop cap (Suc fuel) es p q = Some (es, p)"
      using True pr(8) by (simp add: Let_def)
    with hole_done [OF pr(1,2) nx(1,2,4) True] pr(2) show ?thesis by blast
  next
    case occ: False
    have cond: "((p < ?q' \<and> (home es ?q' \<le> p \<or> ?q' < home es ?q')) \<or>
        (?q' < p \<and> (home es ?q' \<le> p \<and> ?q' < home es ?q'))) \<longleftrightarrow> on_path es ?q' p"
      using cyc_dist_outside [OF pr(2) nx(1) hless] nx(2) by (simp add: on_path_def)
    show ?thesis
    proof (cases "on_path es ?q' p")
      case True
      let ?es = "es[p := es ! ?q']"
      have run: "remove_loop cap (Suc fuel) es p q = remove_loop cap fuel ?es ?q' ?q'"
        by (simp only: remove_loop.simps Let_def pr(8) occ home cond True if_True if_False)
      note mv = hole_move [OF pr(1,2) nx(1,2) occ True]
      have z: "z \<noteq> ?q'" "e_key (?es ! z) = None" using occ pr(5,6) by auto
      obtain es' p' where IH: "remove_loop cap fuel ?es ?q' ?q' = Some (es', p')"
        "p' < length ?es" "length es' = length ?es" "table_ok match hash_of (clear_slot es' p')"
        "\<forall>k. tbl_find match (clear_slot es' p') k = tbl_find match (clear_slot ?es ?q') k"
        "occupied_slots (clear_slot es' p') = occupied_slots (clear_slot ?es ?q')"
        using Suc.IH [of ?es ?q' ?q'] mv nx(1) pr(4,8,9) z fuel by auto
      then show ?thesis
        using run hole_move_find [OF hole_okD(1) [OF pr(1)] hole_okD(1) [OF mv] pr(2) nx(1,2)]
          hole_move_occupied [OF pr(2) nx(1,2) occ]
        by auto
    next
      case False
      have "remove_loop cap (Suc fuel) es p q = remove_loop cap fuel es p ?q'"
        by (simp only: remove_loop.simps Let_def pr(8) occ home cond False if_True if_False)
      with Suc.IH [OF hole_skip [OF pr(1,2) nx(1,2,4) occ False] pr(2) nx(1) pr(4-6) fuel pr(8,9)]
      show ?thesis by simp
    qed
  qed
qed

end

context match_fun begin

text \<open>The table \<open>Remove\<close> starts its scan on.\<close>

lemma hole_start:
  assumes ok: "table_ok match hash_of es" and p: "p < length es"
  shows "hole_ok match hash_of es p p"
proof -
  have d: "keys_distinct match es" "hashes_ok hash_of es" and path: "paths_ok {} es"
    using ok by (auto simp: table_ok_def)
  have "keys_distinct match (clear_slot es p)"
    unfolding clear_slot_def by (rule keys_distinct_update [OF d(1)]) simp
  moreover have "hashes_ok hash_of (clear_slot es p)"
    unfolding clear_slot_def by (rule hashes_ok_update [OF d(2)]) simp
  moreover have "paths_ok {p} (clear_slot es p)"
    unfolding paths_ok_def
  proof (intro allI impI)
    fix j s
    assume j: "j < length (clear_slot es p)" "e_key (clear_slot es p ! j) \<noteq> None"
      and s: "s < length (clear_slot es p)" "on_path (clear_slot es p) j s"
    have "j \<noteq> p" using j p by auto
    with j s paths_okD [OF path, of j s] show "e_key (clear_slot es p ! s) \<noteq> None \<or> s \<in> {p}"
      by (cases "s = p") (auto simp: on_path_def home_def)
  qed
  moreover have "0 < cyc_dist (length es) p j"
    if "j < length es" "e_key (clear_slot es p ! j) \<noteq> None" for j
    using that p cyc_dist_eq_0 [OF p that(1)] by auto
  ultimately show ?thesis
    unfolding hole_ok_def by simp
qed

lemma table_ok_clear_find:
  assumes "table_ok match hash_of es" "p < length es" "e_key (es ! p) = Some k0" "match k k0"
  shows "tbl_find match (clear_slot es p) k' = (if match k' k then None else tbl_find match es k')"
proof -
  have d: "keys_distinct match es" using assms(1) by (simp add: table_ok_def)
  have d': "keys_distinct match (clear_slot es p)"
    using hole_start [OF assms(1,2)] by (simp add: hole_ok_def)
  have "match k' k0 \<longleftrightarrow> match k' k"
    using match_trans [of k' k k0] match_trans [OF _ match_sym [OF assms(4)], of k'] assms(4)
    by blast
  then have "key_matches match k' (es ! p) \<longleftrightarrow> match k' k"
    using assms(3) by (simp add: key_matches_def)
  then show ?thesis
    using tbl_find_update [OF d' [unfolded clear_slot_def] d assms(2)]
    by (simp add: clear_slot_def key_matches_def)
qed

text \<open>\<open>Remove\<close> returns, keeps the invariant, and removes exactly the key.\<close>

lemma Remove_correct:
  assumes m: "hm_match m = match" and ok: "HashMap_ok hash_of m"
  shows "\<exists>m'. HashMap_Remove m k (hash_of k) = Inr m' \<and> HashMap_ok hash_of m' \<and>
    hm_match m' = hm_match m \<and> hm_allocator m' = hm_allocator m \<and>
    hm_capacity m' = hm_capacity m \<and>
    unat (hm_occupancy m') + (if hm_find m k = None then 0 else 1) = unat (hm_occupancy m) \<and>
    (\<forall>k'. hm_find m' k' = (if match k' k then None else hm_find m k'))"
proof (cases "hm_find m k")
  case None
  then obtain q where "HashMap_Probe m k (hash_of k) = Some q" "e_key (hm_map m ! q) = None"
    using Probe_missing [OF m ok] by blast
  then have "HashMap_Remove m k (hash_of k) = Inr m"
    by (simp add: HashMap_Remove_def)
  moreover have "hm_find m k' = None" if "match k' k" for k'
    using tbl_find_match [OF that, of "hm_map m"] None m by simp
  ultimately show ?thesis using ok None by auto
next
  case (Some v)
  let ?es = "hm_map m" and ?n = "unat (hm_capacity m)"
  obtain p k0 where p: "p < ?n" "HashMap_Probe m k (hash_of k) = Some p"
      "e_key (?es ! p) = Some k0" "match k k0"
    using Probe_finds [OF m ok Some] by blast
  obtain z where z: "z < ?n" "e_key (?es ! z) = None"
    using HashMap_ok_empty_slot [OF ok] by blast
  have len: "length ?es = ?n" and pow: "\<exists>i. ?n = 2 ^ i" and tbl: "table_ok match hash_of ?es"
    and occ: "unat (hm_occupancy m) = occupied_slots ?es"
    and load: "load_of (occupied_slots ?es) < ?n"
    using ok m by (auto simp: HashMap_ok_def)
  have "z \<noteq> p" using z p by auto
  moreover have "cyc_dist (length ?es) p z \<le> ?n"
    using cyc_dist_less [OF p(1) z(1)] len by simp
  ultimately obtain es' p' where r: "remove_loop (hm_capacity m) ?n ?es p p = Some (es', p')"
    "p' < length ?es" "length es' = length ?es" "table_ok match hash_of (clear_slot es' p')"
    "\<forall>k. tbl_find match (clear_slot es' p') k = tbl_find match (clear_slot ?es p) k"
    "occupied_slots (clear_slot es' p') = occupied_slots (clear_slot ?es p)"
    using remove_loop_correct [OF hole_start [OF tbl, of p]] p z len pow by metis
  have one: "occupied_slots (clear_slot ?es p) + 1 = occupied_slots ?es"
    using occupied_slots_clear [of p ?es] p len by simp
  have occ': "unat (hm_occupancy m - 1) = occupied_slots (clear_slot ?es p)"
    using one occ by (simp add: unat_sub_if_size word_le_nat_alt)
  let ?m' = "m\<lparr>hm_map := clear_slot es' p', hm_occupancy := hm_occupancy m - 1\<rparr>"
  have run: "HashMap_Remove m k (hash_of k) = Inr ?m'"
    using p r(1) by (simp add: HashMap_Remove_def clear_slot_def)
  moreover have "HashMap_ok hash_of ?m'"
    using r len pow occ' m one load
      load_of_mono [of "occupied_slots (clear_slot ?es p)" "occupied_slots ?es"]
    by (simp add: HashMap_ok_def)
  moreover have "hm_find ?m' k' = (if match k' k then None else hm_find m k')" for k'
    using r(5) table_ok_clear_find [OF tbl _ p(3,4)] p(1) len m by simp
  ultimately show ?thesis
    using Some occ occ' one by auto
qed

end

section \<open>Inserting an entry\<close>

text \<open>
  What the code expects of the client's allocator: a block it returns has the size asked for.
\<close>

definition allocator_ok :: "(nat \<Rightarrow> ('k, 'v) Entry list option) \<Rightarrow> bool" where
  "allocator_ok alloc \<longleftrightarrow> (\<forall>n es. alloc n = Some es \<longrightarrow> length es = n)"

text \<open>What a client does with the entry \<open>Lookup\<close> returned: \<open>entry->value = v\<close>.\<close>

definition set_value :: "('k, 'v) HashMap \<Rightarrow> nat \<Rightarrow> 'v option \<Rightarrow> ('k, 'v) HashMap" where
  "set_value m p v = m\<lparr>hm_map := (hm_map m)[p := (hm_map m ! p)\<lparr>e_value := v\<rparr>]\<rparr>"

lemma set_value_sel [simp]:
  "hm_match (set_value m p v) = hm_match m" "hm_allocator (set_value m p v) = hm_allocator m"
  "hm_capacity (set_value m p v) = hm_capacity m" "hm_occupancy (set_value m p v) = hm_occupancy m"
  by (simp_all add: set_value_def)

lemma occupied_slots_replicate_None:
  "(\<And>e. e \<in> set es \<Longrightarrow> e_key e = None) \<Longrightarrow> occupied_slots es = 0"
  by (simp add: occupied_slots_def)

lemma table_ok_empty:
  assumes "\<And>e. e \<in> set es \<Longrightarrow> e_key e = None"
  shows "table_ok match hash_of es" and "tbl_find match es k = None"
  using assms
  by (auto simp: table_ok_def keys_distinct_def hashes_ok_def paths_ok_def tbl_find_None_iff)

text \<open>A cleared map, in any capacity that is a power of two, is empty and in order.\<close>

lemma Clear_correct:
  assumes "length (hm_map m) = unat (hm_capacity m)" "unat (hm_capacity m) = 2 ^ i"
  shows "HashMap_ok hash_of (HashMap_Clear m)" and "hm_find (HashMap_Clear m) k = None"
    and "hm_occupancy (HashMap_Clear m) = 0"
proof -
  let ?es = "hm_map (HashMap_Clear m)"
  have none: "e_key e = None" if "e \<in> set ?es" for e
    using that assms(1) by (auto simp: HashMap_Clear_def)
  have es: "length ?es = unat (hm_capacity m)" using assms(1) by (simp add: HashMap_Clear_def)
  have "occupied_slots ?es = 0" using none by (rule occupied_slots_replicate_None)
  moreover have "table_ok (hm_match m) hash_of ?es" using none by (rule table_ok_empty(1))
  moreover have "hm_match (HashMap_Clear m) = hm_match m" "hm_occupancy (HashMap_Clear m) = 0"
    "hm_capacity (HashMap_Clear m) = hm_capacity m"
    by (simp_all add: HashMap_Clear_def)
  ultimately show "HashMap_ok hash_of (HashMap_Clear m)"
    using es assms(2) by (auto simp only: HashMap_ok_def unsigned_0) simp_all
  show "hm_find (HashMap_Clear m) k = None"
    using none by (rule table_ok_empty(2))
  show "hm_occupancy (HashMap_Clear m) = 0" by (simp add: HashMap_Clear_def)
qed

lemma Initialize_correct:
  assumes "allocator_ok (hm_allocator m)" "unat cap = 2 ^ i"
    "HashMap_Initialize cap m = Inr m'"
  shows "HashMap_ok hash_of m'" "hm_find m' k = None" "hm_occupancy m' = 0"
    "hm_capacity m' = cap" "hm_match m' = hm_match m" "hm_allocator m' = hm_allocator m"
proof -
  obtain es where es: "hm_allocator m (unat cap) = Some es" "length es = unat cap"
    and m': "m' = HashMap_Clear (m\<lparr>hm_map := es, hm_capacity := cap\<rparr>)"
    using assms by (auto simp: HashMap_Initialize_def allocator_ok_def split: option.splits)
  show "HashMap_ok hash_of m'" "hm_find m' k = None" "hm_occupancy m' = 0"
    unfolding m' using es(2) assms(2) by (simp_all add: Clear_correct [where i = i])
  show "hm_capacity m' = cap" "hm_match m' = hm_match m" "hm_allocator m' = hm_allocator m"
    unfolding m' by (simp_all add: HashMap_Clear_def)
qed

context match_fun begin

lemma set_value_correct:
  assumes m: "hm_match m = match" and ok: "HashMap_ok hash_of m"
    and p: "p < unat (hm_capacity m)" "e_key (hm_map m ! p) = Some k0" "match k k0"
  shows "HashMap_ok hash_of (set_value m p v)"
    and "hm_find (set_value m p v) k' = (if match k' k then Some v else hm_find m k')"
    and "e_key (hm_map (set_value m p v) ! j) = e_key (hm_map m ! j)"
proof -
  let ?es = "hm_map m"
  let ?es' = "?es[p := (?es ! p)\<lparr>e_value := v\<rparr>]"
  have len: "length ?es = unat (hm_capacity m)" and tbl: "table_ok match hash_of ?es"
    using ok m by (auto simp: HashMap_ok_def)
  have eq: "(?es ! p)\<lparr>e_value := v\<rparr> = (?es ! p)\<lparr>e_key := Some k0, e_value := v\<rparr>"
    using p(2) by simp
  note ow = table_ok_overwrite [OF tbl _ p(2) match_refl, of v, folded eq]
  have "occupied_slots ?es' = occupied_slots ?es"
    using occupied_slots_update [of p ?es "(?es ! p)\<lparr>e_value := v\<rparr>"] p len by simp
  then show "HashMap_ok hash_of (set_value m p v)"
    using ow(1) ok p(1) len m by (simp add: HashMap_ok_def set_value_def)
  have "match k' k0 \<longleftrightarrow> match k' k"
    using match_trans [of k' k k0] match_trans [OF _ match_sym [OF p(3)], of k'] p(3) by blast
  then show "hm_find (set_value m p v) k' = (if match k' k then Some v else hm_find m k')"
    using ow(2) [of k'] p(1) len m by (simp add: set_value_def)
  show "e_key (hm_map (set_value m p v) ! j) = e_key (hm_map m ! j)"
    using p(1) len by (cases "j = p") (auto simp: set_value_def)
qed

lemma LookupWith_present:
  assumes m: "hm_match m = match" and ok: "HashMap_ok hash_of m" and v: "hm_find m k = Some v"
  shows "\<exists>p < unat (hm_capacity m). \<exists>k0. LookupWith r m k (hash_of k) ins = Inr (Some p, m) \<and>
    e_key (hm_map m ! p) = Some k0 \<and> match k k0 \<and> e_value (hm_map m ! p) = v"
  using Probe_finds [OF m ok v] by (auto simp: LookupWith_def)

lemma LookupWith_absent:
  assumes m: "hm_match m = match" and ok: "HashMap_ok hash_of m" and v: "hm_find m k = None"
  shows "LookupWith r m k (hash_of k) False = Inr (None, m)"
  using Probe_missing [OF m ok v] by (auto simp: LookupWith_def)

end

text \<open>The insertion before the load is checked: the table may now be full.\<close>

definition inserted :: "('k, 'v) HashMap \<Rightarrow> nat \<Rightarrow> 'k \<Rightarrow> uint32 \<Rightarrow> ('k, 'v) HashMap" where
  "inserted m q k h =
     m\<lparr>hm_map := (hm_map m)[q := \<lparr>e_key = Some k, e_value = None, e_hash = h\<rparr>],
       hm_occupancy := hm_occupancy m + 1\<rparr>"

lemma inserted_sel [simp]:
  "hm_match (inserted m q k h) = hm_match m" "hm_allocator (inserted m q k h) = hm_allocator m"
  "hm_capacity (inserted m q k h) = hm_capacity m"
  "hm_occupancy (inserted m q k h) = hm_occupancy m + 1"
  by (simp_all add: inserted_def)

context match_fun begin

lemma LookupWith_insert:
  assumes m: "hm_match m = match" and ok: "HashMap_ok hash_of m" and v: "hm_find m k = None"
    and cap: "unat (hm_capacity m) \<le> 2 ^ 31"
  defines "occ1 \<equiv> Suc (unat (hm_occupancy m))"
  shows "\<exists>q < unat (hm_capacity m).
    LookupWith r m k (hash_of k) True =
      (if load_of occ1 \<ge> unat (hm_capacity m) then
         (case r (inserted m q k (hash_of k)) of Inl err \<Rightarrow> Inl err
          | Inr m2 \<Rightarrow> (case HashMap_Probe m2 k (hash_of k) of
                None \<Rightarrow> Inl ProbeDiverges | Some p' \<Rightarrow> Inr (Some p', m2)))
       else Inr (Some q, inserted m q k (hash_of k))) \<and>
    table_ok match hash_of (hm_map (inserted m q k (hash_of k))) \<and>
    (\<forall>k'. hm_find (inserted m q k (hash_of k)) k' =
       (if match k' k then Some None else hm_find m k')) \<and>
    occupied_slots (hm_map (inserted m q k (hash_of k))) = occ1 \<and>
    unat (hm_occupancy m + 1) = occ1 \<and>
    e_key (hm_map (inserted m q k (hash_of k)) ! q) = Some k \<and>
    length (hm_map (inserted m q k (hash_of k))) = unat (hm_capacity m)"
proof -
  obtain q where q: "q < unat (hm_capacity m)" "HashMap_Probe m k (hash_of k) = Some q"
    "e_key (hm_map m ! q) = None" and
    path: "\<And>s. s < unat (hm_capacity m) \<Longrightarrow>
       cyc_dist (unat (hm_capacity m)) (home_slot m (hash_of k)) s
         < cyc_dist (unat (hm_capacity m)) (home_slot m (hash_of k)) q \<Longrightarrow>
       e_key (hm_map m ! s) \<noteq> None"
    using Probe_missing [OF m ok v] by blast
  let ?e = "\<lparr>e_key = Some k, e_value = None, e_hash = hash_of k\<rparr>"
  let ?m1 = "inserted m q k (hash_of k)"
  have map1: "hm_map ?m1 = (hm_map m)[q := ?e]" by (simp add: inserted_def)
  have len: "length (hm_map m) = unat (hm_capacity m)" and tbl: "table_ok match hash_of (hm_map m)"
    and occ: "unat (hm_occupancy m) = occupied_slots (hm_map m)"
    and load: "load_of (occupied_slots (hm_map m)) < unat (hm_capacity m)"
    using ok m by (auto simp: HashMap_ok_def)
  note le = load_of_ge [of "occupied_slots (hm_map m)"] load_of_Suc [of "occupied_slots (hm_map m)"]
  have suc: "unat (hm_occupancy m + 1) = Suc (unat (hm_occupancy m))"
    using occ load cap le by (simp add: unat_plus_if_size word_size)
  have wrap: "unat (w + w div 4) = load_of (unat w)"
    if "load_of (unat w) < 2 ^ 32" for w :: uint32
    using that by (simp add: unat_word_ariths unat_div load_of_def)
  have cond: "hm_occupancy ?m1 + hm_occupancy ?m1 div 4 \<ge> hm_capacity ?m1 \<longleftrightarrow>
      load_of occ1 \<ge> unat (hm_capacity m)"
    using wrap [of "hm_occupancy m + 1"] suc occ load cap le
    by (simp add: word_le_nat_alt occ1_def)
  note ins = table_ok_insert [OF tbl, of q k, where v = None]
  have pre: "q < length (hm_map m)" "e_key (hm_map m ! q) = None"
    "tbl_find match (hm_map m) k = None"
    "\<And>s. s < length (hm_map m) \<Longrightarrow>
      cyc_dist (length (hm_map m)) (unat (hash_of k) mod length (hm_map m)) s
        < cyc_dist (length (hm_map m)) (unat (hash_of k) mod length (hm_map m)) q \<Longrightarrow>
      e_key (hm_map m ! s) \<noteq> None"
    using q v m path len home_slot_eq(1) [OF ok] by simp_all
  have "occupied_slots (hm_map ?m1) = occ1"
    using occupied_slots_update [OF pre(1), of ?e] pre(2) occ by (simp add: map1 occ1_def)
  moreover have "LookupWith r m k (hash_of k) True =
      (if load_of occ1 \<ge> unat (hm_capacity m) then
         (case r ?m1 of Inl err \<Rightarrow> Inl err
          | Inr m2 \<Rightarrow> (case HashMap_Probe m2 k (hash_of k) of
                None \<Rightarrow> Inl ProbeDiverges | Some p' \<Rightarrow> Inr (Some p', m2)))
       else Inr (Some q, ?m1))"
    unfolding cond [symmetric] using q by (simp add: LookupWith_def Let_def inserted_def)
  moreover have "table_ok match hash_of (hm_map ?m1)"
    unfolding map1 by (rule ins(1) [OF pre])
  moreover have "hm_find ?m1 k' = (if match k' k then Some None else hm_find m k')" for k'
    using ins(2) [OF pre] m by (simp add: map1)
  ultimately show ?thesis
    using q(1) suc len pre(1) by (intro exI [of _ q]) (simp add: map1 occ1_def)
qed

end

section \<open>Growing the table\<close>

lemma tbl_find_Cons:
  "tbl_find match (e # es) k =
     (if key_matches match k e then Some (e_value e) else tbl_find match es k)"
  by (simp add: tbl_find_def)

lemma hashes_ok_Cons:
  "hashes_ok hash_of (e # es) \<longleftrightarrow>
     (\<forall>k. e_key e = Some k \<longrightarrow> e_hash e = hash_of k) \<and> hashes_ok hash_of es"
  by (simp add: hashes_ok_def All_less_Suc2)

lemma keys_distinct_ConsD:
  assumes "keys_distinct match (e # es)"
  shows "keys_distinct match es" "e_key e = Some k \<Longrightarrow> tbl_find match es k = None"
proof -
  show "keys_distinct match es"
    unfolding keys_distinct_def
  proof (intro allI impI)
    fix i j k k'
    assume "i < length es" "j < length es" "e_key (es ! i) = Some k" "e_key (es ! j) = Some k'"
      "match k k'"
    then show "i = j" using keys_distinctD [OF assms, of "Suc i" "Suc j" k k'] by simp
  qed
  show "tbl_find match es k = None" if "e_key e = Some k"
    unfolding tbl_find_None_iff
  proof (intro allI impI notI)
    fix j k'
    assume "j < length es" "e_key (es ! j) = Some k'" "match k k'"
    then show False using keys_distinctD [OF assms, of 0 "Suc j" k k'] that by simp
  qed
qed

lemma occupied_slots_Cons [simp]:
  "occupied_slots (e # es) = (if e_key e = None then 0 else 1) + occupied_slots es"
  by (simp add: occupied_slots_def)

lemma occupied_slots_0_find:
  "occupied_slots es = 0 \<Longrightarrow> tbl_find match es k = None"
proof (induction es)
  case Nil
  then show ?case by (simp add: tbl_find_def)
next
  case (Cons e es)
  then show ?case by (simp add: tbl_find_Cons key_matches_def split: if_splits)
qed

context match_fun begin

text \<open>One round of the rehash: a nested \<open>Lookup\<close> that inserts without growing the table.\<close>

lemma rehash_one:
  assumes m: "hm_match m = match" and ok: "HashMap_ok hash_of m" and new: "hm_find m k = None"
    and cap: "unat (hm_capacity m) \<le> 2 ^ 31"
    and load: "load_of (Suc (unat (hm_occupancy m))) < unat (hm_capacity m)"
  shows "\<exists>q m1. LookupWith r m k (hash_of k) True = Inr (Some q, m1) \<and>
    HashMap_ok hash_of (set_value m1 q v) \<and>
    hm_match m1 = hm_match m \<and> hm_allocator m1 = hm_allocator m \<and>
    hm_capacity m1 = hm_capacity m \<and> unat (hm_occupancy m1) = Suc (unat (hm_occupancy m)) \<and>
    (\<forall>k'. hm_find (set_value m1 q v) k' = (if match k' k then Some v else hm_find m k'))"
proof -
  have small: "\<not> unat (hm_capacity m) \<le>
      load_of (Suc (unat (hm_occupancy m)))"
    by (simp only: not_le load)
  obtain q where q: "q < unat (hm_capacity m)" and
    run: "LookupWith r m k (hash_of k) True = Inr (Some q, inserted m q k (hash_of k))" and
    tbl: "table_ok match hash_of (hm_map (inserted m q k (hash_of k)))" and
    find: "\<forall>k'. hm_find (inserted m q k (hash_of k)) k' =
      (if match k' k then Some None else hm_find m k')" and
    occ: "occupied_slots (hm_map (inserted m q k (hash_of k))) = Suc (unat (hm_occupancy m))"
      "unat (hm_occupancy m + 1) = Suc (unat (hm_occupancy m))" and
    key: "e_key (hm_map (inserted m q k (hash_of k)) ! q) = Some k" and
    len: "length (hm_map (inserted m q k (hash_of k))) = unat (hm_capacity m)"
    using LookupWith_insert [OF m ok new cap, of r, unfolded if_not_P [OF small]]
    by (elim exE conjE) (rule that)
  let ?m1 = "inserted m q k (hash_of k)"
  have ok1: "HashMap_ok hash_of ?m1"
    using ok tbl occ load len m by (simp add: HashMap_ok_def)
  have m1: "hm_match ?m1 = match" using m by simp
  have q1: "q < unat (hm_capacity ?m1)" using q by simp
  note sv = set_value_correct [OF m1 ok1 q1 key match_refl]
  have "hm_find (set_value ?m1 q v) k' = (if match k' k then Some v else hm_find m k')" for k'
    using sv(2) [of v k'] find by simp
  with run sv(1) occ(2) show ?thesis
    by (intro exI [of _ q] exI [of _ ?m1]) simp
qed

lemma LookupN_0: "HashMap_LookupN 0 = LookupWith (\<lambda>_. Inl DepthExceeded)"
  by (intro ext) simp

declare HashMap_LookupN.simps [simp del]

text \<open>The loop of \<open>Resize\<close> moves every entry of the old table, and no insertion grows the new one.\<close>

lemma rehash_ok:
  assumes "keys_distinct match old" "hashes_ok hash_of old" "occupied_slots old = n"
    and "hm_match m = match" "HashMap_ok hash_of m" "unat (hm_capacity m) \<le> 2 ^ 31"
    and "load_of (unat (hm_occupancy m) + n) < unat (hm_capacity m)"
    and "\<And>k. tbl_find match old k \<noteq> None \<Longrightarrow> hm_find m k = None"
  shows "\<exists>m'. rehash (HashMap_LookupN 0) old n m = Inr m' \<and> HashMap_ok hash_of m' \<and>
    hm_match m' = hm_match m \<and> hm_allocator m' = hm_allocator m \<and>
    hm_capacity m' = hm_capacity m \<and> unat (hm_occupancy m') = unat (hm_occupancy m) + n \<and>
    (\<forall>k. hm_find m' k = (case tbl_find match old k of Some v \<Rightarrow> Some v | None \<Rightarrow> hm_find m k))"
  using assms
proof (induction old arbitrary: n m)
  case Nil
  then show ?case by (auto simp: occupied_slots_def tbl_find_def)
next
  case (Cons e old)
  note d = keys_distinct_ConsD [OF Cons.prems(1)]
  have h: "hashes_ok hash_of old" "\<And>k. e_key e = Some k \<Longrightarrow> e_hash e = hash_of k"
    using Cons.prems(2) by (auto simp: hashes_ok_Cons)
  show ?case
  proof (cases "e_key e")
    case None
    have same: "rehash (HashMap_LookupN 0) (e # old) n m = rehash (HashMap_LookupN 0) old n m"
      using None by (cases n) auto
    have find: "tbl_find match (e # old) k = tbl_find match old k" for k
      using None by (simp add: tbl_find_Cons key_matches_def)
    show ?thesis
      unfolding same find
      using Cons.IH [OF d(1) h(1) _ Cons.prems(4-7)] Cons.prems(3,8) None find
      by simp
  next
    case (Some k)
    then obtain i where n: "n = Suc i" "occupied_slots old = i"
      using Cons.prems(3) by auto
    have find: "tbl_find match (e # old) k' = (if match k' k then Some (e_value e) else tbl_find match old k')"
      for k' using Some by (simp add: tbl_find_Cons key_matches_def)
    have new: "hm_find m k = None" using Cons.prems(8) [of k] find by simp
    have load: "load_of (Suc (unat (hm_occupancy m))) < unat (hm_capacity m)"
      using Cons.prems(7) n(1) load_of_mono [of "Suc (unat (hm_occupancy m))" "unat (hm_occupancy m) + n"]
      by simp
    obtain q m1 where l: "HashMap_LookupN 0 m k (hash_of k) True = Inr (Some q, m1)"
      "HashMap_ok hash_of (set_value m1 q (e_value e))"
      "hm_match m1 = hm_match m" "hm_allocator m1 = hm_allocator m"
      "hm_capacity m1 = hm_capacity m" "unat (hm_occupancy m1) = Suc (unat (hm_occupancy m))"
      and f1: "\<And>k'. hm_find (set_value m1 q (e_value e)) k' =
        (if match k' k then Some (e_value e) else hm_find m k')"
      unfolding LookupN_0
      using rehash_one [OF Cons.prems(4,5) new Cons.prems(6) load] by blast
    have old_none: "tbl_find match old k' = None" if "match k' k" for k'
      using d(2) [OF Some] tbl_find_match [OF that, of old] by simp
    have "hm_find (set_value m1 q (e_value e)) k' = None" if "tbl_find match old k' \<noteq> None" for k'
      using f1 [of k'] that old_none [of k'] Cons.prems(8) [of k'] find [of k'] by auto
    then obtain m' where m': "rehash (HashMap_LookupN 0) old i (set_value m1 q (e_value e)) = Inr m'"
      "HashMap_ok hash_of m'" "hm_match m' = hm_match m" "hm_allocator m' = hm_allocator m"
      "hm_capacity m' = hm_capacity m" "unat (hm_occupancy m') = unat (hm_occupancy m) + n"
      "\<And>k. hm_find m' k = (case tbl_find match old k of Some v \<Rightarrow> Some v
           | None \<Rightarrow> hm_find (set_value m1 q (e_value e)) k)"
      using Cons.IH [OF d(1) h(1) n(2), of "set_value m1 q (e_value e)"] l Cons.prems(4,6,7) n(1)
      by auto
    have run: "rehash (HashMap_LookupN 0) (e # old) n m = Inr m'"
      using m'(1) l(1) Some n(1) h(2) by (simp add: set_value_def)
    moreover have "hm_find m' k' = (case tbl_find match (e # old) k' of Some v \<Rightarrow> Some v
        | None \<Rightarrow> hm_find m k')" for k'
      using m'(7) [of k'] f1 [of k'] find [of k'] old_none [of k'] by (auto split: option.splits)
    ultimately show ?thesis using m'(2-6) by blast
  qed
qed

end

text \<open>The entry \<open>Lookup\<close> returned stands for the key that was asked for.\<close>

definition entry_for :: "('k, 'v) HashMap \<Rightarrow> nat \<Rightarrow> 'k \<Rightarrow> bool" where
  "entry_for m p k \<longleftrightarrow> p < unat (hm_capacity m) \<and>
     (\<exists>k0. e_key (hm_map m ! p) = Some k0 \<and> hm_match m k k0)"

context match_fun begin

text \<open>
  \<open>Resize\<close> on a table that may be full: either the allocator gives up, or the same map is back
  in twice the capacity.
\<close>

lemma Resize_correct:
  assumes m: "hm_match m = match" and al: "allocator_ok (hm_allocator m)"
    and tbl: "table_ok match hash_of (hm_map m)" and len: "length (hm_map m) = unat (hm_capacity m)"
    and pow: "unat (hm_capacity m) = 2 ^ i" and occ: "unat (hm_occupancy m) = occupied_slots (hm_map m)"
    and cap: "unat (hm_capacity m) \<le> 2 ^ 30"
  shows "(HashMap_Resize m = Inl OutOfMemory \<and> hm_allocator m (unat (hm_capacity m) * 2) = None) \<or>
    (\<exists>m'. HashMap_Resize m = Inr m' \<and> HashMap_ok hash_of m' \<and> hm_match m' = match \<and>
      hm_allocator m' = hm_allocator m \<and> unat (hm_capacity m') = unat (hm_capacity m) * 2 \<and>
      hm_occupancy m' = hm_occupancy m \<and> (\<forall>k. hm_find m' k = hm_find m k))"
proof (cases "hm_allocator m (unat (hm_capacity m) * 2)")
  case None
  have "unat (hm_capacity m * 2) = unat (hm_capacity m) * 2"
    using cap by (simp add: unat_mult_lem [THEN iffD1])
  with None show ?thesis
    by (simp add: HashMap_Resize_def ResizeWith_def HashMap_Initialize_def)
next
  case (Some block)
  have cap2: "unat (hm_capacity m * 2) = unat (hm_capacity m) * 2"
    using cap by (simp add: unat_mult_lem [THEN iffD1])
  obtain m1 where init: "HashMap_Initialize (hm_capacity m * 2) m = Inr m1"
    using Some cap2 by (simp add: HashMap_Initialize_def)
  have "unat (hm_capacity m * 2) = 2 ^ Suc i" using cap2 pow by simp
  note m1 = Initialize_correct [OF al this init]
  have d: "keys_distinct match (hm_map m)" "hashes_ok hash_of (hm_map m)"
    using tbl by (auto simp: table_ok_def)
  have "occupied_slots (hm_map m) \<le> unat (hm_capacity m)"
    unfolding len [symmetric] occupied_slots_def by simp
  then have load: "load_of (unat (hm_occupancy m1) + unat (hm_occupancy m)) < unat (hm_capacity m1)"
    using load_of_less_double [of "unat (hm_capacity m)" "unat (hm_occupancy m)"] m1(3,4) cap2 occ pow
    by simp
  have "unat (hm_capacity m1) \<le> 2 ^ 31" using cap cap2 m1(4) by simp
  from rehash_ok [OF d occ [symmetric] _ m1(1) this load] m1(2-6) m
  obtain m' where m': "rehash (HashMap_LookupN 0) (hm_map m) (unat (hm_occupancy m)) m1 = Inr m'"
    "HashMap_ok hash_of m'" "hm_match m' = match" "hm_allocator m' = hm_allocator m"
    "hm_capacity m' = hm_capacity m * 2" "unat (hm_occupancy m') = unat (hm_occupancy m)"
    "\<forall>k. hm_find m' k = (case tbl_find match (hm_map m) k of Some v \<Rightarrow> Some v | None \<Rightarrow> hm_find m1 k)"
    by auto
  have "hm_find m' k = hm_find m k" for k
    using m'(7) m1(2) m by (simp split: option.splits)
  moreover have "HashMap_Resize m = Inr m'"
    using init m'(1) by (simp add: HashMap_Resize_def ResizeWith_def)
  ultimately show ?thesis
    using m'(2-6) cap2 by (intro disjI2) (auto simp: word_unat_eq_iff)
qed


lemma Lookup_present:
  assumes "hm_match m = match" "HashMap_ok hash_of m" "hm_find m k = Some v"
  shows "\<exists>p. HashMap_Lookup m k (hash_of k) ins = Inr (Some p, m) \<and> entry_for m p k \<and>
    e_value (hm_map m ! p) = v"
  using LookupWith_present [OF assms, of "ResizeWith (HashMap_LookupN 0)" ins] assms(1)
  by (auto simp: HashMap_Lookup_def HashMap_LookupN.simps entry_for_def)

lemma Lookup_absent:
  assumes "hm_match m = match" "HashMap_ok hash_of m" "hm_find m k = None"
  shows "HashMap_Lookup m k (hash_of k) False = Inr (None, m)"
  using LookupWith_absent [OF assms, of "ResizeWith (HashMap_LookupN 0)"]
  by (simp add: HashMap_Lookup_def HashMap_LookupN.simps)

lemma Lookup_insert:
  assumes m: "hm_match m = match" and ok: "HashMap_ok hash_of m" and v: "hm_find m k = None"
    and al: "allocator_ok (hm_allocator m)" and cap: "unat (hm_capacity m) \<le> 2 ^ 30"
  shows "(HashMap_Lookup m k (hash_of k) True = Inl OutOfMemory \<and>
      hm_allocator m (unat (hm_capacity m) * 2) = None) \<or>
    (\<exists>p m'. HashMap_Lookup m k (hash_of k) True = Inr (Some p, m') \<and> HashMap_ok hash_of m' \<and>
      hm_match m' = match \<and> hm_allocator m' = hm_allocator m \<and>
      unat (hm_occupancy m') = Suc (unat (hm_occupancy m)) \<and> entry_for m' p k \<and>
      unat (hm_capacity m') =
        (if load_of (Suc (unat (hm_occupancy m))) \<ge> unat (hm_capacity m)
         then unat (hm_capacity m) * 2 else unat (hm_capacity m)) \<and>
      e_value (hm_map m' ! p) = None \<and>
      (\<forall>k'. hm_find m' k' = (if match k' k then Some None else hm_find m k')))"
proof -
  let ?r = "ResizeWith (HashMap_LookupN 0)"
  have cap31: "unat (hm_capacity m) \<le> 2 ^ 31" using cap by simp
  obtain q where q: "q < unat (hm_capacity m)" and
    run: "LookupWith ?r m k (hash_of k) True =
      (if load_of (Suc (unat (hm_occupancy m))) \<ge> unat (hm_capacity m) then
         (case ?r (inserted m q k (hash_of k)) of Inl err \<Rightarrow> Inl err
          | Inr m2 \<Rightarrow> (case HashMap_Probe m2 k (hash_of k) of
                None \<Rightarrow> Inl ProbeDiverges | Some p' \<Rightarrow> Inr (Some p', m2)))
       else Inr (Some q, inserted m q k (hash_of k)))" and
    tbl: "table_ok match hash_of (hm_map (inserted m q k (hash_of k)))" and
    find: "\<forall>k'. hm_find (inserted m q k (hash_of k)) k' =
      (if match k' k then Some None else hm_find m k')" and
    occ: "occupied_slots (hm_map (inserted m q k (hash_of k))) = Suc (unat (hm_occupancy m))"
      "unat (hm_occupancy m + 1) = Suc (unat (hm_occupancy m))" and
    key: "e_key (hm_map (inserted m q k (hash_of k)) ! q) = Some k" and
    len: "length (hm_map (inserted m q k (hash_of k))) = unat (hm_capacity m)"
    using LookupWith_insert [OF m ok v cap31, of ?r] by (elim exE conjE) (rule that)
  let ?m1 = "inserted m q k (hash_of k)"
  obtain i where pow: "unat (hm_capacity m) = 2 ^ i" using ok by (auto simp: HashMap_ok_def)
  have L: "HashMap_Lookup m k (hash_of k) True = LookupWith ?r m k (hash_of k) True"
    by (simp add: HashMap_Lookup_def HashMap_LookupN.simps)
  have self: "hm_find ?m1 k = Some None" using find by simp
  show ?thesis
  proof (cases "load_of (Suc (unat (hm_occupancy m))) \<ge> unat (hm_capacity m)")
    case False
    have ok1: "HashMap_ok hash_of ?m1"
      using False tbl occ len pow m by (auto simp: HashMap_ok_def)
    have "e_value (hm_map ?m1 ! q) = None" using q len by (simp add: inserted_def)
    then show ?thesis
      using L run False ok1 find occ(2) key m q by (auto simp: entry_for_def)
  next
    case True
    have rs: "?r ?m1 = HashMap_Resize ?m1" by (simp add: HashMap_Resize_def)
    have "(HashMap_Resize ?m1 = Inl OutOfMemory \<and> hm_allocator m (unat (hm_capacity m) * 2) = None) \<or>
      (\<exists>m'. HashMap_Resize ?m1 = Inr m' \<and> HashMap_ok hash_of m' \<and> hm_match m' = match \<and>
        hm_allocator m' = hm_allocator m \<and> unat (hm_capacity m') = unat (hm_capacity m) * 2 \<and>
        hm_occupancy m' = hm_occupancy m + 1 \<and> (\<forall>k. hm_find m' k = hm_find ?m1 k))"
      using Resize_correct [of ?m1 i] m al tbl len pow occ cap by simp
    then show ?thesis
    proof (elim disjE exE conjE, goal_cases)
      case 1
      then show ?thesis using L run True rs by simp
    next
      case (2 m')
      have "hm_find m' k = Some None" using 2(7) self by simp
      from Probe_finds [OF 2(3,2) this] obtain p k0 where
        "p < unat (hm_capacity m')" "HashMap_Probe m' k (hash_of k) = Some p"
        "e_key (hm_map m' ! p) = Some k0" "match k k0" "e_value (hm_map m' ! p) = None"
        by blast
      then show ?thesis
        using 2 L run True rs find occ(2) m by (intro disjI2) (auto simp: entry_for_def)
    qed
  qed
qed

end

section \<open>The interface of the map\<close>

text \<open>
  What a client of the map relies on. A client asks for the entry of a key and reads or writes
  the value in it; \<open>same\<close> is the client's notion of equal keys. Growing may run out of memory.
\<close>

locale keyed_store =
  fixes lookup :: "'m \<Rightarrow> 'k \<Rightarrow> bool \<Rightarrow> hm_error + (nat option \<times> 'm)"
    and entry_value :: "'m \<Rightarrow> nat \<Rightarrow> 'v option"
    and put :: "'m \<Rightarrow> nat \<Rightarrow> 'v option \<Rightarrow> 'm"
    and find :: "'m \<Rightarrow> 'k \<Rightarrow> 'v option option"
    and refers :: "'m \<Rightarrow> nat \<Rightarrow> 'k \<Rightarrow> bool"
    and ok :: "'m \<Rightarrow> bool"
    and room :: "'m \<Rightarrow> bool"
    and same :: "'k \<Rightarrow> 'k \<Rightarrow> bool"
  assumes find_same: "same a b \<Longrightarrow> find m a = find m b"
    and same_refl: "same k k"
    and lookup_present: "ok m \<Longrightarrow> find m k = Some v \<Longrightarrow>
      \<exists>p. lookup m k ins = Inr (Some p, m) \<and> refers m p k \<and> entry_value m p = v"
    and lookup_absent: "ok m \<Longrightarrow> find m k = None \<Longrightarrow> lookup m k False = Inr (None, m)"
    and lookup_insert: "ok m \<Longrightarrow> room m \<Longrightarrow> find m k = None \<Longrightarrow>
      lookup m k True = Inl OutOfMemory \<or>
      (\<exists>p m'. lookup m k True = Inr (Some p, m') \<and> ok m' \<and> refers m' p k \<and>
        entry_value m' p = None \<and>
        (\<forall>k'. find m' k' = (if same k' k then Some None else find m k')))"
    and write_entry: "ok m \<Longrightarrow> refers m p k \<Longrightarrow>
      ok (put m p v) \<and> (\<forall>k'. find (put m p v) k' = (if same k' k then Some v else find m k'))"
begin

text \<open>An inserting lookup never fails to give an entry unless memory runs out.\<close>

lemma lookup_or_oom:
  assumes "ok m" "room m"
  shows "lookup m k True = Inl OutOfMemory \<or>
    (\<exists>p m'. lookup m k True = Inr (Some p, m') \<and> ok m' \<and> refers m' p k \<and>
      entry_value m' p = (case find m k of Some v \<Rightarrow> v | None \<Rightarrow> None) \<and>
      (\<forall>k'. find m' k' = (if same k' k then Some (entry_value m' p) else find m k')))"
proof (cases "find m k")
  case None
  from lookup_insert [OF assms this] None show ?thesis by auto
next
  case (Some v)
  then obtain p where p: "lookup m k True = Inr (Some p, m)" "refers m p k" "entry_value m p = v"
    using lookup_present [OF assms(1) Some, of True] by blast
  have "same k' k \<Longrightarrow> find m k' = Some v" for k'
    using find_same [of k' k m] Some by simp
  with p assms(1) Some show ?thesis
    by (intro disjI2 exI [of _ p] exI [of _ m]) simp
qed

text \<open>Lookup with insertion and a write of the value: the abstract update.\<close>

lemma put_updates:
  assumes "ok m" "room m" "lookup m k True = Inr (e, m')"
  shows "\<exists>p. e = Some p \<and> ok (put m' p v) \<and>
    (\<forall>k'. find (put m' p v) k' = (if same k' k then Some v else find m k'))"
proof -
  obtain p where p: "e = Some p" "ok m'" "refers m' p k"
    "\<forall>k'. find m' k' = (if same k' k then Some (entry_value m' p) else find m k')"
    using lookup_or_oom [OF assms(1,2), of k] assms(3) by auto
  then show ?thesis
    using write_entry [OF p(2,3), of v] by (intro exI [of _ p]) simp
qed

lemma find_after_put:
  assumes "ok m" "room m" "lookup m k True = Inr (Some p, m')"
  shows "find (put m' p v) k = Some v"
  using put_updates [OF assms, of v] same_refl by auto

end

text \<open>The state in which a client can rely on the map, and where it can still grow.\<close>

definition store_ok ::
  "('k \<Rightarrow> 'k \<Rightarrow> bool) \<Rightarrow> ('k \<Rightarrow> uint32) \<Rightarrow> ('k, 'v) HashMap \<Rightarrow> bool" where
  "store_ok match hash_of m \<longleftrightarrow>
     hm_match m = match \<and> allocator_ok (hm_allocator m) \<and> HashMap_ok hash_of m"

definition store_room :: "('k, 'v) HashMap \<Rightarrow> bool" where
  "store_room m \<longleftrightarrow> unat (hm_capacity m) \<le> 2 ^ 30"

lemma store_okD:
  "store_ok match hash_of m \<Longrightarrow> hm_match m = match"
  "store_ok match hash_of m \<Longrightarrow> allocator_ok (hm_allocator m)"
  "store_ok match hash_of m \<Longrightarrow> HashMap_ok hash_of m"
  by (auto simp: store_ok_def)

text \<open>
  The map of the code is such a store for every match function and hash that keep the
  client's side of the contract.
\<close>

sublocale match_fun \<subseteq> store: keyed_store
  "\<lambda>m k ins. HashMap_Lookup m k (hash_of k) ins" "\<lambda>m p. e_value (hm_map m ! p)" set_value
  "\<lambda>m k. tbl_find match (hm_map m) k" entry_for "store_ok match hash_of" store_room match
proof (unfold_locales, goal_cases)
  case (1 a b m)
  then show ?case by (rule tbl_find_match)
next
  case 2
  show ?case by simp
next
  case (3 m k v ins)
  then show ?case using Lookup_present [of m k v ins] store_okD [of match hash_of m] by auto
next
  case (4 m k)
  then show ?case using Lookup_absent [of m k] store_okD [of match hash_of m] by auto
next
  case (5 m k)
  note s = store_okD [OF 5(1)]
  have v: "hm_find m k = None" using 5(3) s(1) by simp
  have cap: "unat (hm_capacity m) \<le> 2 ^ 30" using 5(2) by (simp add: store_room_def)
  from Lookup_insert [OF s(1,3) v s(2) cap] show ?case
  proof (elim disjE exE conjE, goal_cases)
    case 1
    then show ?case by simp
  next
    case (2 p m')
    then show ?case using s by (intro disjI2 exI [of _ p] exI [of _ m']) (simp add: store_ok_def)
  qed
next
  case (6 m p k v)
  note s = store_okD [OF 6(1)]
  obtain k0 where p: "p < unat (hm_capacity m)" "e_key (hm_map m ! p) = Some k0" "match k k0"
    using 6(2) s(1) by (auto simp: entry_for_def)
  show ?case
    using set_value_correct(1,2) [OF s(1,3) p, of v] s by (simp add: store_ok_def)
qed

section \<open>Iteration\<close>

text \<open>The client's loop \<open>for (p = map.Start(); p != NULL; p = map.Next(p))\<close>.\<close>

fun HashMap_iterate :: "('k, 'v) HashMap \<Rightarrow> nat \<Rightarrow> nat option \<Rightarrow> nat list option" where
  "HashMap_iterate m fuel None = Some []"
| "HashMap_iterate m 0 (Some p) = None"
| "HashMap_iterate m (Suc fuel) (Some p) =
     map_option ((#) p) (HashMap_iterate m fuel (HashMap_Next m p))"

lemma iterate_from:
  assumes "a + n = unat (hm_capacity m)" "n \<le> fuel"
  shows "HashMap_iterate m fuel (next_from (hm_map m) n a) =
    Some (filter (\<lambda>p. e_key (hm_map m ! p) \<noteq> None) [a..<unat (hm_capacity m)])"
  using assms
proof (induction n arbitrary: a fuel)
  case 0
  then show ?case by simp
next
  case (Suc n)
  have upt: "[a..<unat (hm_capacity m)] = a # [Suc a..<unat (hm_capacity m)]"
    using Suc.prems(1) by (simp add: upt_conv_Cons)
  have nx: "HashMap_Next m a = next_from (hm_map m) n (Suc a)"
    using Suc.prems(1) by (simp add: HashMap_Next_def flip: Suc.prems(1))
  show ?case
  proof (cases "e_key (hm_map m ! a) \<noteq> None")
    case True
    obtain f where "fuel = Suc f" "n \<le> f" using Suc.prems(2) by (cases fuel) auto
    with True upt nx Suc.IH [of "Suc a" f] Suc.prems(1) show ?thesis by simp
  next
    case False
    with upt Suc.IH [of "Suc a" fuel] Suc.prems show ?thesis by simp
  qed
qed

section \<open>Sequences of operations\<close>

text \<open>
  What clients do: look up with insertion and write the value, remove, clear. \<open>run_ops\<close> runs
  a sequence on the map of the code, \<open>spec_ops\<close> on the abstract map.
\<close>

datatype ('k, 'v) map_op = Put 'k "'v option" | Del 'k | Clr

fun run_op :: "('k \<Rightarrow> uint32) \<Rightarrow> ('k, 'v) map_op \<Rightarrow> ('k, 'v) HashMap \<Rightarrow>
    hm_error + ('k, 'v) HashMap" where
  "run_op hash_of (Put k v) m =
     (case HashMap_Lookup m k (hash_of k) True of
        Inl err \<Rightarrow> Inl err
      | Inr (None, m') \<Rightarrow> Inl BadAccess
      | Inr (Some p, m') \<Rightarrow> Inr (set_value m' p v))"
| "run_op hash_of (Del k) m = HashMap_Remove m k (hash_of k)"
| "run_op hash_of Clr m = Inr (HashMap_Clear m)"

fun run_ops :: "('k \<Rightarrow> uint32) \<Rightarrow> ('k, 'v) map_op list \<Rightarrow> ('k, 'v) HashMap \<Rightarrow>
    hm_error + ('k, 'v) HashMap" where
  "run_ops hash_of [] m = Inr m"
| "run_ops hash_of (c # cs) m =
     (case run_op hash_of c m of Inl err \<Rightarrow> Inl err | Inr m' \<Rightarrow> run_ops hash_of cs m')"

fun spec_op :: "('k \<Rightarrow> 'k \<Rightarrow> bool) \<Rightarrow> ('k, 'v) map_op \<Rightarrow> ('k \<Rightarrow> 'v option option) \<Rightarrow>
    ('k \<Rightarrow> 'v option option)" where
  "spec_op match (Put k v) f = (\<lambda>k'. if match k' k then Some v else f k')"
| "spec_op match (Del k) f = (\<lambda>k'. if match k' k then None else f k')"
| "spec_op match Clr f = (\<lambda>k'. None)"

fun spec_ops :: "('k \<Rightarrow> 'k \<Rightarrow> bool) \<Rightarrow> ('k, 'v) map_op list \<Rightarrow> ('k \<Rightarrow> 'v option option) \<Rightarrow>
    ('k \<Rightarrow> 'v option option)" where
  "spec_ops match [] f = f"
| "spec_ops match (c # cs) f = spec_ops match cs (spec_op match c f)"

definition simulates :: "('k \<Rightarrow> 'k \<Rightarrow> bool) \<Rightarrow> ('k \<Rightarrow> uint32) \<Rightarrow> ('k, 'v) HashMap \<Rightarrow>
    ('k \<Rightarrow> 'v option option) \<Rightarrow> nat \<Rightarrow> bool" where
  "simulates match hash_of m f n \<longleftrightarrow>
     store_ok match hash_of m \<and> (\<forall>k. hm_find m k = f k) \<and>
     unat (hm_occupancy m) \<le> n \<and> store_room m"

lemma load_of_small: "n \<le> 2 ^ 29 \<Longrightarrow> load_of n < 2 ^ 30"
  unfolding load_of_def by simp

context match_fun begin

text \<open>One operation. After \<open>n\<close> operations the table holds at most \<open>n\<close> keys.\<close>

lemma run_op_simulates:
  assumes sim: "simulates match hash_of m f n" and n: "n < 2 ^ 29"
  shows "run_op hash_of c m = Inl OutOfMemory \<or>
    (\<exists>m'. run_op hash_of c m = Inr m' \<and> simulates match hash_of m' (spec_op match c f) (Suc n))"
proof -
  have s: "store_ok match hash_of m" "store_room m" and f: "\<And>k. hm_find m k = f k"
    and occ: "unat (hm_occupancy m) \<le> n"
    using sim by (auto simp: simulates_def)
  note m = store_okD [OF s(1)]
  show ?thesis
  proof (cases c)
    case (Put k v)
    show ?thesis
    proof (cases "run_op hash_of c m = Inl OutOfMemory")
      case False
      then have no_oom: "HashMap_Lookup m k (hash_of k) True \<noteq> Inl OutOfMemory"
        using Put by auto
      obtain p m' where l: "HashMap_Lookup m k (hash_of k) True = Inr (Some p, m')"
        using store.lookup_or_oom [OF s, of k] no_oom by auto
      have put: "store_ok match hash_of (set_value m' p v)"
        "\<forall>k'. tbl_find match (hm_map (set_value m' p v)) k' =
           (if match k' k then Some v else tbl_find match (hm_map m) k')"
        using store.put_updates [OF s l, of v] by auto
      have "unat (hm_occupancy m') \<le> Suc n \<and> unat (hm_capacity m') \<le> 2 ^ 30"
      proof (cases "hm_find m k")
        case None
        have cap: "unat (hm_capacity m) \<le> 2 ^ 30" using s(2) by (simp add: store_room_def)
        have o': "unat (hm_occupancy m') = Suc (unat (hm_occupancy m))"
          and c': "unat (hm_capacity m') =
            (if load_of (Suc (unat (hm_occupancy m))) \<ge> unat (hm_capacity m)
             then unat (hm_capacity m) * 2 else unat (hm_capacity m))"
          using Lookup_insert [OF m(1,3) None m(2) cap] l by auto
        obtain i where i: "unat (hm_capacity m) = 2 ^ i" using m(3) by (auto simp: HashMap_ok_def)
        have "unat (hm_capacity m') \<le> 2 ^ 30"
        proof (cases "load_of (Suc (unat (hm_occupancy m))) \<ge> unat (hm_capacity m)")
          case True
          have "load_of (Suc (unat (hm_occupancy m))) < 2 ^ 30"
            using load_of_small [of "Suc (unat (hm_occupancy m))"] occ n by simp
          with True i have "(2::nat) ^ i < 2 ^ 30" by simp
          then have "i < 30" by (simp only: power_strict_increasing_iff)
          then have "(2::nat) ^ Suc i \<le> 2 ^ 30" by (simp only: power_increasing_iff Suc_le_eq)
          with True c' i show ?thesis by simp
        next
          case False
          with c' cap show ?thesis by simp
        qed
        with o' occ show ?thesis by simp
      next
        case (Some w)
        with Lookup_present [OF m(1,3) Some, of True] l have "m' = m" by auto
        with occ s(2) show ?thesis by (simp add: store_room_def)
      qed
      with put l f Put m(1) show ?thesis
        by (auto simp: simulates_def store_room_def store_ok_def)
    qed simp
  next
    case (Del k)
    from Remove_correct [OF m(1,3), of k] obtain m' where
      "HashMap_Remove m k (hash_of k) = Inr m'" "HashMap_ok hash_of m'" "hm_match m' = match"
      "hm_allocator m' = hm_allocator m" "hm_capacity m' = hm_capacity m"
      "unat (hm_occupancy m') + (if hm_find m k = None then 0 else 1) = unat (hm_occupancy m)"
      "\<forall>k'. hm_find m' k' = (if match k' k then None else hm_find m k')"
      using m(1) by auto
    with Del f occ s m show ?thesis
      by (auto simp: simulates_def store_ok_def store_room_def split: if_splits)
  next
    case Clr
    obtain i where i: "unat (hm_capacity m) = 2 ^ i" and len: "length (hm_map m) = unat (hm_capacity m)"
      using m(3) by (auto simp: HashMap_ok_def)
    have "hm_match (HashMap_Clear m) = match" "hm_allocator (HashMap_Clear m) = hm_allocator m"
      "hm_capacity (HashMap_Clear m) = hm_capacity m"
      using m(1) by (simp_all add: HashMap_Clear_def)
    with Clr Clear_correct [OF len i] s m show ?thesis
      by (simp add: simulates_def store_ok_def store_room_def)
  qed
qed

lemma run_ops_simulates:
  "simulates match hash_of m f n \<Longrightarrow> n + length cs \<le> 2 ^ 29 \<Longrightarrow>
    run_ops hash_of cs m = Inl OutOfMemory \<or>
    (\<exists>m'. run_ops hash_of cs m = Inr m' \<and>
      simulates match hash_of m' (spec_ops match cs f) (n + length cs))"
proof (induction cs arbitrary: m f n)
  case Nil
  then show ?case by simp
next
  case (Cons c cs)
  have n: "n < 2 ^ 29" using Cons.prems(2) by simp
  from run_op_simulates [OF Cons.prems(1) n, of c] show ?case
  proof (elim disjE exE conjE, goal_cases)
    case 1
    then show ?case by simp
  next
    case (2 m')
    then show ?case using Cons.IH [of m' "spec_op match c f" "Suc n"] Cons.prems(2) by auto
  qed
qed

end

section \<open>Properties\<close>

lemma load_bound: "load_of n < c \<Longrightarrow> 5 * n \<le> 4 * c"
  unfolding load_of_def by linarith

context match_fun begin

lemma new_map_refines:
  assumes al: "allocator_ok alloc" and pow: "unat cap = 2 ^ i" and cap: "unat cap \<le> 2 ^ 30"
    and new: "HashMap_new match alloc cap = Inr m0" and cs: "length cs \<le> 2 ^ 29"
  shows "run_ops hash_of cs m0 = Inl OutOfMemory \<or>
    (\<exists>m. run_ops hash_of cs m0 = Inr m \<and>
      (\<forall>k. \<exists>p. HashMap_Lookup m k (hash_of k) False = Inr (p, m) \<and>
        map_option (\<lambda>p. e_value (hm_map m ! p)) p = spec_ops match cs (\<lambda>_. None) k) \<and>
      5 * unat (hm_occupancy m) \<le> 4 * unat (hm_capacity m))"
proof -
  have init: "HashMap_Initialize cap
      \<lparr>hm_allocator = alloc, hm_match = match, hm_map = [], hm_capacity = 0, hm_occupancy = 0\<rparr>
      = Inr m0"
    using new by (simp add: HashMap_new_def)
  have "simulates match hash_of m0 (\<lambda>_. None) 0"
    using Initialize_correct [OF _ pow init] al cap
    by (simp add: simulates_def store_ok_def store_room_def)
  from run_ops_simulates [OF this, of cs, unfolded add_0, OF cs] show ?thesis
  proof (elim disjE exE conjE, goal_cases)
    case (2 m)
    then have s: "store_ok match hash_of m" and f: "\<And>k. hm_find m k = spec_ops match cs (\<lambda>_. None) k"
      by (simp_all add: simulates_def)
    note m = store_okD [OF s]
    have "\<exists>p. HashMap_Lookup m k (hash_of k) False = Inr (p, m) \<and>
        map_option (\<lambda>p. e_value (hm_map m ! p)) p = hm_find m k" for k
    proof (cases "hm_find m k")
      case None
      then show ?thesis using Lookup_absent [OF m(1,3) None] by simp
    next
      case (Some v)
      from Lookup_present [OF m(1,3) Some, of False] obtain p where
        "HashMap_Lookup m k (hash_of k) False = Inr (Some p, m)" "e_value (hm_map m ! p) = v"
        by blast
      with Some show ?thesis by (intro exI [of _ "Some p"]) simp
    qed
    moreover have "5 * unat (hm_occupancy m) \<le> 4 * unat (hm_capacity m)"
      using m(3) load_bound by (simp add: HashMap_ok_def)
    ultimately show ?case using 2 f by auto
  qed simp
qed

end

text \<open>The allocator and the keys of the concrete instances below.\<close>

definition blank_block :: "nat \<Rightarrow> (nat, nat) Entry list option" where
  "blank_block n = Some (replicate n \<lparr>e_key = None, e_value = None, e_hash = 0\<rparr>)"

lemma blank_block_ok [simp]: "allocator_ok blank_block"
  by (auto simp: allocator_ok_def blank_block_def)

interpretation nat_keys: match_fun "(=) :: nat \<Rightarrow> nat \<Rightarrow> bool" "word_of_nat"
  by unfold_locales auto

text \<open>
  C1. The hash map refines a finite map. Starting from a new map whose capacity is a power of two,
  any sequence of at most $2^{29}$ insertions, updates, removals and clears either stops because
  the allocator fails or ends in a map in which a lookup, for every key, gives the value the
  abstract map holds, and whose load is at most 80 percent. No probe, removal scan or
  rehash diverges or reads past its array.
\<close>

theorem hashmap_refines_map:
  assumes "match_fun match hash_of" "allocator_ok alloc"
    "unat cap = 2 ^ i" "unat cap \<le> 2 ^ 30" "HashMap_new match alloc cap = Inr m0"
    "length cs \<le> 2 ^ 29"
  shows "run_ops hash_of cs m0 = Inl OutOfMemory \<or>
    (\<exists>m. run_ops hash_of cs m0 = Inr m \<and>
      (\<forall>k. \<exists>p. HashMap_Lookup m k (hash_of k) False = Inr (p, m) \<and>
        map_option (\<lambda>p. e_value (hm_map m ! p)) p = spec_ops match cs (\<lambda>_. None) k) \<and>
      5 * unat (hm_occupancy m) \<le> 4 * unat (hm_capacity m))"
  using match_fun.new_map_refines [OF assms] .

theorem hashmap_refines_map_witness:
  "\<exists>m0. HashMap_new (=) blank_block 4 = Inr m0 \<and>
    (run_ops word_of_nat [Put 5 (Some 1), Put 13 (Some 2), Put 21 None, Put 4 (Some 7), Del 5] m0
       = Inl OutOfMemory \<or>
     (\<exists>m. run_ops word_of_nat [Put 5 (Some 1), Put 13 (Some 2), Put 21 None, Put 4 (Some 7), Del 5] m0
         = Inr m \<and>
       (\<forall>k. \<exists>p. HashMap_Lookup m k (word_of_nat k) False = Inr (p, m) \<and>
         map_option (\<lambda>p. e_value (hm_map m ! p)) p =
           spec_ops (=) [Put 5 (Some 1), Put 13 (Some 2), Put 21 None, Put 4 (Some 7), Del 5]
             (\<lambda>_. None) k) \<and>
       5 * unat (hm_occupancy m) \<le> 4 * unat (hm_capacity m)))"
proof -
  obtain m0 where m0: "HashMap_new (=) blank_block 4 = Inr m0"
    by (simp add: HashMap_new_def HashMap_Initialize_def blank_block_def)
  have four: "unat (4 :: uint32) = 2 ^ 2" "unat (4 :: uint32) \<le> 2 ^ 30" by simp_all
  show ?thesis
    by (intro exI [of _ m0] conjI m0
        hashmap_refines_map [OF nat_keys.match_fun_axioms blank_block_ok four m0]) simp
qed

text \<open>
  C2. \<open>Remove\<close> removes exactly its key. On a map in order the scan ends, the invariant
  (every remaining entry can be reached from its initial slot, keys stay distinct, the occupancy
  counts the entries, the load bound) holds afterwards, the key is gone, every other key keeps its
  value, and the occupancy drops by one when the key was there.
\<close>

theorem hashmap_remove_exact:
  assumes "match_fun match hash_of" "hm_match m = match" "HashMap_ok hash_of m"
  shows "\<exists>m'. HashMap_Remove m k (hash_of k) = Inr m' \<and> HashMap_ok hash_of m' \<and>
    (\<forall>k'. hm_find m' k' = (if match k' k then None else hm_find m k')) \<and>
    unat (hm_occupancy m') + (if hm_find m k = None then 0 else 1) = unat (hm_occupancy m)"
  using match_fun.Remove_correct [OF assms, of k] by blast

text \<open>A full cluster that wraps around the end of a table of eight slots.\<close>

definition wrapped_map :: "(nat, nat) HashMap" where
  "wrapped_map =
     \<lparr>hm_allocator = blank_block, hm_match = (=),
      hm_map = [\<lparr>e_key = Some 15, e_value = Some 1, e_hash = 15\<rparr>,
                \<lparr>e_key = Some 8, e_value = Some 2, e_hash = 8\<rparr>,
                \<lparr>e_key = None, e_value = None, e_hash = 0\<rparr>,
                \<lparr>e_key = None, e_value = None, e_hash = 0\<rparr>,
                \<lparr>e_key = None, e_value = None, e_hash = 0\<rparr>,
                \<lparr>e_key = None, e_value = None, e_hash = 0\<rparr>,
                \<lparr>e_key = Some 6, e_value = Some 4, e_hash = 6\<rparr>,
                \<lparr>e_key = Some 7, e_value = Some 3, e_hash = 7\<rparr>],
      hm_capacity = 8, hm_occupancy = 4\<rparr>"


lemma All_less_8: "(\<forall>i < (8::nat). P i) \<longleftrightarrow> P 0 \<and> P 1 \<and> P 2 \<and> P 3 \<and> P 4 \<and> P 5 \<and> P 6 \<and> P 7"
proof -
  have "i < 8 \<longleftrightarrow> i = 0 \<or> i = 1 \<or> i = 2 \<or> i = 3 \<or> i = 4 \<or> i = 5 \<or> i = 6 \<or> i = 7" for i :: nat
    by linarith
  then show ?thesis by auto
qed

lemma wrapped_map_ok: "HashMap_ok word_of_nat wrapped_map"
proof -
  have len: "length (hm_map wrapped_map) = 8" by (simp add: wrapped_map_def)
  have "keys_distinct (hm_match wrapped_map) (hm_map wrapped_map)"
    unfolding keys_distinct_def len All_less_8 by (simp add: wrapped_map_def)
  moreover have "hashes_ok word_of_nat (hm_map wrapped_map)"
    unfolding hashes_ok_def len All_less_8 by (simp add: wrapped_map_def)
  moreover have "paths_ok {} (hm_map wrapped_map)"
    unfolding paths_ok_def on_path_def home_def cyc_dist_def len All_less_8
    by (simp add: wrapped_map_def)
  moreover have "unat (hm_capacity wrapped_map) = 2 ^ 3" by (simp add: wrapped_map_def)
  moreover have "unat (hm_occupancy wrapped_map) = occupied_slots (hm_map wrapped_map)"
    "load_of (occupied_slots (hm_map wrapped_map)) < 8"
    by (simp_all add: wrapped_map_def occupied_slots_def load_of_def)
  ultimately show ?thesis
    unfolding HashMap_ok_def table_ok_def using len by (intro conjI exI [of _ 3]) simp_all
qed

theorem hashmap_remove_exact_witness:
  "\<exists>m'. HashMap_Remove wrapped_map 7 7 = Inr m' \<and> HashMap_ok word_of_nat m' \<and>
    (\<forall>k'. hm_find m' k' = (if k' = 7 then None else hm_find wrapped_map k')) \<and>
    unat (hm_occupancy m') + (if hm_find wrapped_map 7 = None then 0 else 1)
      = unat (hm_occupancy wrapped_map)"
  using hashmap_remove_exact [OF nat_keys.match_fun_axioms _ wrapped_map_ok, of 7]
  by (simp add: wrapped_map_def)

text \<open>
  C3. The iteration of a client, from \<open>Start\<close> by \<open>Next\<close> until NULL, ends and visits exactly the
  occupied slots of the table, each once, in the order of the table.
\<close>

theorem hashmap_iterates_all:
  "HashMap_iterate m (unat (hm_capacity m)) (HashMap_Start m) =
     Some (filter (\<lambda>p. e_key (hm_map m ! p) \<noteq> None) [0..<unat (hm_capacity m)])"
  unfolding HashMap_Start_def by (rule iterate_from) simp_all

end
