(* ===== verification/SplayTree.thy ===== *)
theory SplayTree
  imports V8Prelude "HOL-Library.Multiset"
begin

text \<open>
  The top-down splay tree of src/src/splay-tree.h and src/src/splay-tree-inl.h. A node pointer is
  a tree, NULL is \<open>NULL\<close>. The L and R trees the code links under a dummy node are lists of the
  nodes linked so far, innermost first. A locator that is bound to the root is a statement on the
  root; a locator bound elsewhere is the key and value of its node. Reading a field through a
  NULL root is the error \<open>NullDeref\<close>. The second half shows that the tree is an ordered finite map.
\<close>

section \<open>The tree\<close>

datatype ('k, 'v) Node =
  NULL
| Node (node_left: "('k, 'v) Node") (node_key: 'k) (node_value: 'v) (node_right: "('k, 'v) Node")

datatype splay_error = NullDeref

section \<open>Splaying\<close>

text \<open>
  The loop of \<open>Splay\<close>: \<open>cmp\<close> is \<open>Config::Compare\<close>. A node linked to the left tree keeps its left child,
  one linked to the right tree its right child; the other child is overwritten by the next link.
\<close>

fun splay_loop ::
  "('k \<Rightarrow> 'k \<Rightarrow> int) \<Rightarrow> 'k \<Rightarrow> ('k, 'v) Node \<Rightarrow>
   (('k, 'v) Node \<times> 'k \<times> 'v) list \<Rightarrow> ('k \<times> 'v \<times> ('k, 'v) Node) list \<Rightarrow>
   (('k, 'v) Node \<times> 'k \<times> 'v) list \<times> ('k \<times> 'v \<times> ('k, 'v) Node) list \<times> ('k, 'v) Node"
where
  "splay_loop cmp key NULL L R = (L, R, NULL)"
| "splay_loop cmp key (Node l k v r) L R =
     (if cmp key k < 0 then
        (case l of
           NULL \<Rightarrow> (L, R, Node l k v r)
         | Node ll lk lv lr \<Rightarrow>
             if cmp key lk < 0 then
               (case ll of
                  NULL \<Rightarrow> (L, R, Node ll lk lv (Node lr k v r))
                | Node _ _ _ _ \<Rightarrow> splay_loop cmp key ll L ((lk, lv, Node lr k v r) # R))
             else splay_loop cmp key l L ((k, v, r) # R))
      else if cmp key k > 0 then
        (case r of
           NULL \<Rightarrow> (L, R, Node l k v r)
         | Node rl rk rv rr \<Rightarrow>
             if cmp key rk > 0 then
               (case rr of
                  NULL \<Rightarrow> (L, R, Node (Node l k v rl) rk rv rr)
                | Node _ _ _ _ \<Rightarrow> splay_loop cmp key rr ((Node l k v rl, rk, rv) # L) R)
             else splay_loop cmp key r ((l, k, v) # L) R)
      else (L, R, Node l k v r))"

definition assemble_left :: "(('k, 'v) Node \<times> 'k \<times> 'v) list \<Rightarrow> ('k, 'v) Node \<Rightarrow> ('k, 'v) Node" where
  "assemble_left L t = foldl (\<lambda>t (l, k, v). Node l k v t) t L"

definition assemble_right :: "('k \<times> 'v \<times> ('k, 'v) Node) list \<Rightarrow> ('k, 'v) Node \<Rightarrow> ('k, 'v) Node" where
  "assemble_right R t = foldl (\<lambda>t (k, v, r). Node t k v r) t R"

definition Splay :: "('k \<Rightarrow> 'k \<Rightarrow> int) \<Rightarrow> 'k \<Rightarrow> ('k, 'v) Node \<Rightarrow> ('k, 'v) Node" where
  "Splay cmp key root =
     (case splay_loop cmp key root [] [] of
        (L, R, NULL) \<Rightarrow> NULL
      | (L, R, Node l k v r) \<Rightarrow> Node (assemble_left L l) k v (assemble_right R r))"

section \<open>The operations\<close>

definition is_empty :: "('k, 'v) Node \<Rightarrow> bool" where
  "is_empty root = (case root of NULL \<Rightarrow> True | Node _ _ _ _ \<Rightarrow> False)"

text \<open>The new node becomes the root; it is the argument of \<open>InsertInternal\<close>.\<close>

fun InsertInternal :: "int \<Rightarrow> 'k \<Rightarrow> 'v \<Rightarrow> ('k, 'v) Node \<Rightarrow> splay_error + ('k, 'v) Node" where
  "InsertInternal cmp key v NULL = Inl NullDeref"
| "InsertInternal cmp key v (Node l k rv r) =
     (if cmp > 0 then Inr (Node (Node l k rv NULL) key v r)
      else Inr (Node l key v (Node NULL k rv r)))"

text \<open>
  \<open>Insert\<close> returns whether a node was inserted. The locator is bound to the root of the new tree.
\<close>

definition Insert ::
  "('k \<Rightarrow> 'k \<Rightarrow> int) \<Rightarrow> 'v \<Rightarrow> 'k \<Rightarrow> ('k, 'v) Node \<Rightarrow> splay_error + (bool \<times> ('k, 'v) Node)"
where
  "Insert cmp kNoValue key root =
     (if is_empty root then Inr (True, Node NULL key kNoValue NULL)
      else
        (case Splay cmp key root of
           NULL \<Rightarrow> Inl NullDeref
         | Node l k v r \<Rightarrow>
             if cmp key k = 0 then Inr (False, Node l k v r)
             else
               (case InsertInternal (cmp key k) key kNoValue (Node l k v r) of
                  Inl err \<Rightarrow> Inl err
                | Inr root' \<Rightarrow> Inr (True, root'))))"

text \<open>The client's \<open>locator.set_value(v)\<close> when the locator is bound to the root.\<close>

fun set_root_value :: "'v \<Rightarrow> ('k, 'v) Node \<Rightarrow> ('k, 'v) Node" where
  "set_root_value v NULL = NULL"
| "set_root_value v (Node l k v' r) = Node l k v r"

definition FindInternal ::
  "('k \<Rightarrow> 'k \<Rightarrow> int) \<Rightarrow> 'k \<Rightarrow> ('k, 'v) Node \<Rightarrow> bool \<times> ('k, 'v) Node" where
  "FindInternal cmp key root =
     (if is_empty root then (False, root)
      else
        (case Splay cmp key root of
           NULL \<Rightarrow> (False, NULL)
         | Node l k v r \<Rightarrow> (cmp key k = 0, Node l k v r)))"

text \<open>The locator of the finders is the key and value it is bound to, if the finder succeeds.\<close>

definition Find :: "('k \<Rightarrow> 'k \<Rightarrow> int) \<Rightarrow> 'k \<Rightarrow> ('k, 'v) Node \<Rightarrow> ('k \<times> 'v) option \<times> ('k, 'v) Node" where
  "Find cmp key root =
     (case FindInternal cmp key root of
        (True, root') \<Rightarrow> (Some (node_key root', node_value root'), root')
      | (False, root') \<Rightarrow> (None, root'))"

fun FindGreatest :: "('k, 'v) Node \<Rightarrow> ('k \<times> 'v) option" where
  "FindGreatest NULL = None"
| "FindGreatest (Node l k v r) = (if r = NULL then Some (k, v) else FindGreatest r)"

fun FindLeast :: "('k, 'v) Node \<Rightarrow> ('k \<times> 'v) option" where
  "FindLeast NULL = None"
| "FindLeast (Node l k v r) = (if l = NULL then Some (k, v) else FindLeast l)"

definition FindGreatestLessThan ::
  "('k \<Rightarrow> 'k \<Rightarrow> int) \<Rightarrow> 'k \<Rightarrow> ('k, 'v) Node \<Rightarrow> ('k \<times> 'v) option \<times> ('k, 'v) Node" where
  "FindGreatestLessThan cmp key root =
     (if is_empty root then (None, root)
      else
        (case Splay cmp key root of
           NULL \<Rightarrow> (None, NULL)
         | Node l k v r \<Rightarrow>
             if cmp k key \<le> 0 then (Some (k, v), Node l k v r)
             else (FindGreatest l, Node l k v r)))"

definition FindLeastGreaterThan ::
  "('k \<Rightarrow> 'k \<Rightarrow> int) \<Rightarrow> 'k \<Rightarrow> ('k, 'v) Node \<Rightarrow> ('k \<times> 'v) option \<times> ('k, 'v) Node" where
  "FindLeastGreaterThan cmp key root =
     (if is_empty root then (None, root)
      else
        (case Splay cmp key root of
           NULL \<Rightarrow> (None, NULL)
         | Node l k v r \<Rightarrow>
             if cmp k key \<ge> 0 then (Some (k, v), Node l k v r)
             else (FindLeast r, Node l k v r)))"

text \<open>
  \<open>RemoveRootNode\<close> reads the fields of the root. With a left child it splays the left subtree
  and stores the right child in the new root, whatever was there.
\<close>

fun RemoveRootNode ::
  "('k \<Rightarrow> 'k \<Rightarrow> int) \<Rightarrow> 'k \<Rightarrow> ('k, 'v) Node \<Rightarrow> splay_error + ('k, 'v) Node" where
  "RemoveRootNode cmp key NULL = Inl NullDeref"
| "RemoveRootNode cmp key (Node l k v r) =
     (if l = NULL then Inr r
      else
        (case Splay cmp key l of
           NULL \<Rightarrow> Inl NullDeref
         | Node l' k' v' _ \<Rightarrow> Inr (Node l' k' v' r)))"

definition Remove ::
  "('k \<Rightarrow> 'k \<Rightarrow> int) \<Rightarrow> 'k \<Rightarrow> ('k, 'v) Node \<Rightarrow> splay_error + (bool \<times> ('k, 'v) Node)" where
  "Remove cmp key root =
     (case FindInternal cmp key root of
        (False, root') \<Rightarrow> Inr (False, root')
      | (True, root') \<Rightarrow>
          (case RemoveRootNode cmp key root' of
             Inl err \<Rightarrow> Inl err
           | Inr root'' \<Rightarrow> Inr (True, root'')))"

text \<open>
  \<open>Move\<close> takes the node out, splays on the new key and looks at the key of the root, without
  asking whether there is a root left.
\<close>

definition Move ::
  "('k \<Rightarrow> 'k \<Rightarrow> int) \<Rightarrow> 'k \<Rightarrow> 'k \<Rightarrow> ('k, 'v) Node \<Rightarrow> splay_error + (bool \<times> ('k, 'v) Node)"
where
  "Move cmp old_key new_key root =
     (case FindInternal cmp old_key root of
        (False, root') \<Rightarrow> Inr (False, root')
      | (True, root') \<Rightarrow>
          (case RemoveRootNode cmp old_key root' of
             Inl err \<Rightarrow> Inl err
           | Inr root'' \<Rightarrow>
               (case Splay cmp new_key root'' of
                  NULL \<Rightarrow> Inl NullDeref
                | Node l k v r \<Rightarrow>
                    if cmp new_key k = 0 then Inr (False, Node l k v r)
                    else
                      (case InsertInternal (cmp new_key k) new_key (node_value root') (Node l k v r) of
                         Inl err \<Rightarrow> Inl err
                       | Inr root3 \<Rightarrow> Inr (True, root3)))))"

text \<open>
  \<open>ForEachNode\<close>: \<open>visit\<close> is the part of \<open>nodes_to_visit\<close> from \<open>pos\<close> on; the callback is called with
  the key and value of each node, in the order of the list returned.
\<close>

function for_each_node :: "('k, 'v) Node list \<Rightarrow> ('k \<times> 'v) list" where
  "for_each_node [] = []"
| "for_each_node (NULL # visit) = for_each_node visit"
| "for_each_node (Node l k v r # visit) =
     (k, v) # for_each_node (visit @ (if l \<noteq> NULL then [l] else []) @ (if r \<noteq> NULL then [r] else []))"
  by pat_completeness auto
termination
  by (relation "measure (\<lambda>visit. sum_list (map (\<lambda>t. 2 * size t + 1) visit))") auto

definition ForEach :: "('k, 'v) Node \<Rightarrow> ('k \<times> 'v) list" where
  "ForEach root = for_each_node (if root \<noteq> NULL then [root] else [])"

section \<open>What a tree holds\<close>

primrec inorder :: "('k, 'v) Node \<Rightarrow> ('k \<times> 'v) list" where
  "inorder NULL = []"
| "inorder (Node l k v r) = inorder l @ (k, v) # inorder r"

definition node_keys :: "('k, 'v) Node \<Rightarrow> 'k set" where
  "node_keys t = fst ` set (inorder t)"

definition ordered :: "('k::linorder, 'v) Node \<Rightarrow> bool" where
  "ordered t \<longleftrightarrow> sorted_wrt (<) (map fst (inorder t))"

text \<open>The abstract map.\<close>

definition tree_map :: "('k, 'v) Node \<Rightarrow> 'k \<Rightarrow> 'v option" where
  "tree_map t = map_of (inorder t)"

fun left_inorder :: "(('k, 'v) Node \<times> 'k \<times> 'v) list \<Rightarrow> ('k \<times> 'v) list" where
  "left_inorder [] = []"
| "left_inorder ((l, k, v) # L) = left_inorder L @ inorder l @ [(k, v)]"

fun right_inorder :: "('k \<times> 'v \<times> ('k, 'v) Node) list \<Rightarrow> ('k \<times> 'v) list" where
  "right_inorder [] = []"
| "right_inorder ((k, v, r) # R) = (k, v) # inorder r @ right_inorder R"

lemma inorder_assemble_left: "inorder (assemble_left L t) = left_inorder L @ inorder t"
proof (induction L arbitrary: t)
  case Nil
  then show ?case by (simp add: assemble_left_def)
next
  case (Cons x L)
  obtain l k v where "x = (l, k, v)" by (cases x)
  with Cons.IH [of "Node l k v t"] show ?case by (simp add: assemble_left_def)
qed

lemma inorder_assemble_right: "inorder (assemble_right R t) = inorder t @ right_inorder R"
proof (induction R arbitrary: t)
  case Nil
  then show ?case by (simp add: assemble_right_def)
next
  case (Cons x R)
  obtain k v r where "x = (k, v, r)" by (cases x)
  with Cons.IH [of "Node t k v r"] show ?case by (simp add: assemble_right_def)
qed

declare splay_loop.simps(2) [simp del]

text \<open>
  An invariant of the loop: what linking and rotating keep holds at the end, where the key has
  been found or the search path ends.
\<close>

lemma splay_loop_invariant:
  assumes "splay_loop cmp key t L R = (L', R', t')" "t \<noteq> NULL" "P t L R"
    and link_right: "\<And>l k v r L R. cmp key k < 0 \<Longrightarrow> P (Node l k v r) L R \<Longrightarrow> P l L ((k, v, r) # R)"
    and rotate_right: "\<And>ll lk lv lr k v r L R. cmp key k < 0 \<Longrightarrow> cmp key lk < 0 \<Longrightarrow>
      P (Node (Node ll lk lv lr) k v r) L R \<Longrightarrow> P (Node ll lk lv (Node lr k v r)) L R"
    and link_left: "\<And>l k v r L R. cmp key k > 0 \<Longrightarrow> P (Node l k v r) L R \<Longrightarrow> P r ((l, k, v) # L) R"
    and rotate_left: "\<And>l k v rl rk rv rr L R. cmp key k > 0 \<Longrightarrow> cmp key rk > 0 \<Longrightarrow>
      P (Node l k v (Node rl rk rv rr)) L R \<Longrightarrow> P (Node (Node l k v rl) rk rv rr) L R"
  shows "\<exists>l k v r. t' = Node l k v r \<and> P t' L' R' \<and>
    (cmp key k = 0 \<or> cmp key k < 0 \<and> l = NULL \<or> cmp key k > 0 \<and> r = NULL)"
  using assms(1-3)
proof (induction t arbitrary: L R rule: measure_induct_rule [of size])
  case (less t)
  obtain l k v r where t: "t = Node l k v r" using less.prems(2) by (cases t) auto
  note run = less.prems(1) [unfolded t splay_loop.simps(2) [of cmp key l k v r L R]]
  note inv = less.prems(3) [unfolded t]
  consider (less) "cmp key k < 0" | (greater) "cmp key k > 0" | (found) "cmp key k = 0" by linarith
  then show ?case
  proof cases
    case le: less
    show ?thesis
    proof (cases l)
      case NULL
      with run le inv show ?thesis by auto
    next
      case l: (Node ll lk lv lr)
      show ?thesis
      proof (cases "cmp key lk < 0")
        case True
        note rot = rotate_right [OF le True inv [unfolded l]]
        show ?thesis
        proof (cases ll)
          case NULL
          with run le l True rot show ?thesis by auto
        next
          case ll: (Node a b c d)
          with run le l True
          have "splay_loop cmp key ll L ((lk, lv, Node lr k v r) # R) = (L', R', t')" by simp
          with less.IH [OF _ _ _ link_right [OF True rot]] t l ll show ?thesis by simp
        qed
      next
        case False
        with run le l have "splay_loop cmp key l L ((k, v, r) # R) = (L', R', t')" by simp
        with less.IH [OF _ _ _ link_right [OF le inv]] t l show ?thesis by simp
      qed
    qed
  next
    case greater
    show ?thesis
    proof (cases r)
      case NULL
      with run greater inv show ?thesis by auto
    next
      case r: (Node rl rk rv rr)
      show ?thesis
      proof (cases "cmp key rk > 0")
        case True
        note rot = rotate_left [OF greater True inv [unfolded r]]
        show ?thesis
        proof (cases rr)
          case NULL
          with run greater r True rot show ?thesis by auto
        next
          case rr: (Node a b c d)
          with run greater r True
          have "splay_loop cmp key rr ((Node l k v rl, rk, rv) # L) R = (L', R', t')" by simp
          with less.IH [OF _ _ _ link_left [OF True rot]] t r rr show ?thesis by simp
        qed
      next
        case False
        with run greater r have "splay_loop cmp key r ((l, k, v) # L) R = (L', R', t')" by simp
        with less.IH [OF _ _ _ link_left [OF greater inv]] t r show ?thesis by simp
      qed
    qed
  next
    case found
    with run inv show ?thesis by auto
  qed
qed

lemma Splay_NULL [simp]: "Splay cmp key NULL = NULL"
  by (simp add: Splay_def)

text \<open>What a splay leaves: the listing is the same, and the key is at the root or the path ended there.\<close>

lemma splay_loop_inorder:
  assumes "splay_loop cmp key t L R = (L', R', t')" "t \<noteq> NULL"
  shows "\<exists>l k v r. t' = Node l k v r \<and>
    left_inorder L' @ inorder t' @ right_inorder R' = left_inorder L @ inorder t @ right_inorder R"
proof -
  let ?P = "\<lambda>c L1 R1. left_inorder L1 @ inorder c @ right_inorder R1 =
    left_inorder L @ inorder t @ right_inorder R"
  have "\<exists>l k v r. t' = Node l k v r \<and> ?P t' L' R' \<and>
    (cmp key k = 0 \<or> cmp key k < 0 \<and> l = NULL \<or> cmp key k > 0 \<and> r = NULL)"
    by (rule splay_loop_invariant [OF assms, where P = ?P]) simp_all
  then show ?thesis by blast
qed

lemma Splay_not_NULL: "t \<noteq> NULL \<Longrightarrow> \<exists>l k v r. Splay cmp key t = Node l k v r"
proof -
  assume t: "t \<noteq> NULL"
  obtain L R c where run: "splay_loop cmp key t [] [] = (L, R, c)"
    by (cases "splay_loop cmp key t [] []") auto
  from splay_loop_inorder [OF run t] run show ?thesis by (auto simp: Splay_def)
qed

lemma Splay_inorder [simp]: "inorder (Splay cmp key t) = inorder t"
proof (cases "t = NULL")
  case False
  obtain L R c where run: "splay_loop cmp key t [] [] = (L, R, c)"
    by (cases "splay_loop cmp key t [] []") auto
  from splay_loop_inorder [OF run False] run show ?thesis
    by (auto simp: Splay_def inorder_assemble_left inorder_assemble_right)
qed simp

lemma node_keys_simps [simp]:
  "node_keys NULL = {}"
  "node_keys (Node l k v r) = insert k (node_keys l \<union> node_keys r)"
  "node_keys (Splay cmp key t) = node_keys t"
  by (auto simp: node_keys_def)

lemma tree_map_Splay [simp]: "tree_map (Splay cmp key t) = tree_map t"
  by (simp add: tree_map_def)

lemma ordered_Splay [simp]: "ordered (Splay cmp key t) = ordered t"
  by (simp add: ordered_def)

lemma ordered_NULL [simp]: "ordered NULL"
  by (simp add: ordered_def)

lemma ordered_Node [simp]:
  "ordered (Node l k v r) \<longleftrightarrow>
     ordered l \<and> ordered r \<and> (\<forall>x \<in> node_keys l. x < k) \<and> (\<forall>x \<in> node_keys r. k < x)"
  by (auto simp: ordered_def sorted_wrt_append node_keys_def dest: less_trans)

lemma tree_map_NULL [simp]: "tree_map NULL = (\<lambda>_. None)"
  by (auto simp: tree_map_def)

lemma dom_tree_map: "dom (tree_map t) = node_keys t"
  by (simp add: tree_map_def dom_map_of_conv_image_fst node_keys_def)

lemma tree_map_None_iff: "tree_map t k = None \<longleftrightarrow> k \<notin> node_keys t"
  using dom_tree_map [of t] by auto

text \<open>In an ordered tree a lookup goes left, stops or goes right.\<close>

lemma tree_map_Node:
  assumes "ordered (Node l k v r)"
  shows "tree_map (Node l k v r) x =
    (if x < k then tree_map l x else if x = k then Some v else tree_map r x)"
proof -
  have "tree_map (Node l k v r) x =
      (case tree_map l x of Some w \<Rightarrow> Some w
       | None \<Rightarrow> if x = k then Some v else tree_map r x)"
    by (auto simp: tree_map_def map_add_def split: option.splits)
  moreover have "tree_map l x = None" if "\<not> x < k"
    using assms that by (auto simp: tree_map_None_iff)
  moreover have "tree_map r x = None" if "\<not> k < x"
    using assms that by (auto simp: tree_map_None_iff)
  ultimately show ?thesis by (auto split: option.splits)
qed

section \<open>The order of keys\<close>

text \<open>What the tree expects of \<open>Config::Compare\<close>.\<close>

locale key_compare =
  fixes cmp :: "'k::linorder \<Rightarrow> 'k \<Rightarrow> int"
  assumes cmp_less: "cmp a b < 0 \<longleftrightarrow> a < b"
    and cmp_greater: "cmp a b > 0 \<longleftrightarrow> b < a"
begin

lemma cmp_eq: "cmp a b = 0 \<longleftrightarrow> a = b"
  using cmp_less [of a b] cmp_greater [of a b] by (cases a b rule: linorder_cases) auto

lemma cmp_le: "cmp a b \<le> 0 \<longleftrightarrow> a \<le> b"
  using cmp_greater [of a b] by (simp add: not_less [symmetric])

lemma cmp_ge: "cmp a b \<ge> 0 \<longleftrightarrow> b \<le> a"
  using cmp_less [of a b] by (simp add: not_less [symmetric])

lemmas cmp_simps = cmp_less cmp_greater cmp_eq cmp_le cmp_ge

text \<open>The left tree stays below the key, the right tree above it.\<close>

definition splits :: "'k \<Rightarrow> ('k, 'v) Node \<Rightarrow> (('k, 'v) Node \<times> 'k \<times> 'v) list \<Rightarrow>
    ('k \<times> 'v \<times> ('k, 'v) Node) list \<Rightarrow> bool" where
  "splits key t L R \<longleftrightarrow> ordered t \<and> (\<forall>x \<in> fst ` set (left_inorder L). x < key) \<and>
     (\<forall>x \<in> fst ` set (right_inorder R). key < x)"

lemma Splay_splits:
  assumes "ordered t" "Splay cmp key t = Node l k v r"
  shows "(\<forall>x \<in> node_keys l. x < key) \<and> (\<forall>x \<in> node_keys r. key < x)"
proof -
  have t: "t \<noteq> NULL" using assms(2) by auto
  obtain L R c where run: "splay_loop cmp key t [] [] = (L, R, c)"
    by (cases "splay_loop cmp key t [] []") auto
  have "\<exists>l k v r. c = Node l k v r \<and> splits key c L R \<and>
    (cmp key k = 0 \<or> cmp key k < 0 \<and> l = NULL \<or> cmp key k > 0 \<and> r = NULL)"
    by (rule splay_loop_invariant [OF run t, where P = "splits key"])
      (use assms(1) in \<open>auto simp: splits_def cmp_simps node_keys_def [symmetric] image_Un
         dest: less_trans\<close>)
  then obtain l0 k0 v0 r0 where c: "c = Node l0 k0 v0 r0" "splits key c L R"
    "cmp key k0 = 0 \<or> cmp key k0 < 0 \<and> l0 = NULL \<or> cmp key k0 > 0 \<and> r0 = NULL" by blast
  have "l = assemble_left L l0" "r = assemble_right R r0"
    using assms(2) run c(1) by (simp_all add: Splay_def)
  then have keys: "node_keys l = fst ` set (left_inorder L) \<union> node_keys l0"
    "node_keys r = node_keys r0 \<union> fst ` set (right_inorder R)"
    by (simp_all add: node_keys_def inorder_assemble_left inorder_assemble_right image_Un)
  from c(1,2) have o: "ordered c" "\<forall>x \<in> fst ` set (left_inorder L). x < key"
    "\<forall>x \<in> fst ` set (right_inorder R). key < x" by (simp_all add: splits_def)
  have "(\<forall>x \<in> node_keys l0. x < key) \<and> (\<forall>x \<in> node_keys r0. key < x)"
    using c(1,3) o(1) by (auto simp: cmp_simps dest: less_trans)
  with keys o(2,3) show ?thesis by auto
qed

end

section \<open>The operations are those of an ordered map\<close>

lemma set_root_value_map:
  assumes "ordered (Node l k w r)"
  shows "ordered (set_root_value v (Node l k w r))"
    and "tree_map (set_root_value v (Node l k w r)) = (tree_map (Node l k w r))(k \<mapsto> v)"
proof -
  show o: "ordered (set_root_value v (Node l k w r))" using assms by simp
  have o': "ordered (Node l k v r)" using assms by simp
  show "tree_map (set_root_value v (Node l k w r)) = (tree_map (Node l k w r))(k \<mapsto> v)"
    by (rule ext) (simp add: tree_map_Node [OF assms] tree_map_Node [OF o'])
qed

lemma FindGreatest_None_iff [simp]: "FindGreatest t = None \<longleftrightarrow> t = NULL"
  by (induction t) auto

lemma FindLeast_None_iff [simp]: "FindLeast t = None \<longleftrightarrow> t = NULL"
  by (induction t) auto

lemma FindGreatest_correct:
  "ordered t \<Longrightarrow> FindGreatest t = Some (k, v) \<Longrightarrow>
    tree_map t k = Some v \<and> (\<forall>x \<in> node_keys t. x \<le> k)"
proof (induction t)
  case (Node l k0 v0 r)
  show ?case
  proof (cases "r = NULL")
    case True
    with Node.prems show ?thesis by (auto simp: tree_map_Node)
  next
    case False
    with Node have r: "tree_map r k = Some v" "\<forall>x \<in> node_keys r. x \<le> k" by auto
    then have "k \<in> node_keys r" using dom_tree_map [of r] by auto
    then have "k0 < k" using Node.prems(1) by auto
    then show ?thesis
      using r Node.prems(1) tree_map_Node [OF Node.prems(1), of k] by (auto dest: less_trans less_imp_le)
  qed
qed simp

lemma FindLeast_correct:
  "ordered t \<Longrightarrow> FindLeast t = Some (k, v) \<Longrightarrow>
    tree_map t k = Some v \<and> (\<forall>x \<in> node_keys t. k \<le> x)"
proof (induction t)
  case (Node l k0 v0 r)
  show ?case
  proof (cases "l = NULL")
    case True
    with Node.prems show ?thesis by (auto simp: tree_map_Node)
  next
    case False
    with Node have l: "tree_map l k = Some v" "\<forall>x \<in> node_keys l. k \<le> x" by auto
    then have "k \<in> node_keys l" using dom_tree_map [of l] by auto
    then have "k < k0" using Node.prems(1) by auto
    then show ?thesis
      using l Node.prems(1) tree_map_Node [OF Node.prems(1), of k] by (auto dest: less_trans less_imp_le)
  qed
qed simp

text \<open>The greatest binding at or below a key, and the least at or above it.\<close>

definition is_floor :: "('k::linorder \<Rightarrow> 'v option) \<Rightarrow> 'k \<Rightarrow> ('k \<times> 'v) option \<Rightarrow> bool" where
  "is_floor f key b =
     (case b of
        None \<Rightarrow> \<forall>x \<in> dom f. key < x
      | Some (k, v) \<Rightarrow> f k = Some v \<and> k \<le> key \<and> (\<forall>x \<in> dom f. x \<le> key \<longrightarrow> x \<le> k))"

definition is_ceiling :: "('k::linorder \<Rightarrow> 'v option) \<Rightarrow> 'k \<Rightarrow> ('k \<times> 'v) option \<Rightarrow> bool" where
  "is_ceiling f key b =
     (case b of
        None \<Rightarrow> \<forall>x \<in> dom f. x < key
      | Some (k, v) \<Rightarrow> f k = Some v \<and> key \<le> k \<and> (\<forall>x \<in> dom f. key \<le> x \<longrightarrow> k \<le> x))"

context key_compare begin

lemma Splay_root:
  assumes "ordered t" "t \<noteq> NULL"
  obtains l k v r where "Splay cmp key t = Node l k v r" "ordered (Node l k v r)"
    "tree_map (Node l k v r) = tree_map t" "node_keys (Node l k v r) = node_keys t"
    "\<forall>x \<in> node_keys l. x < key" "\<forall>x \<in> node_keys r. key < x"
    "tree_map t key = (if key = k then Some v else None)"
proof -
  obtain l k v r where s: "Splay cmp key t = Node l k v r"
    using Splay_not_NULL [OF assms(2)] by blast
  have o: "ordered (Node l k v r)" using ordered_Splay [of cmp key t] assms(1) unfolding s by simp
  have m: "tree_map (Node l k v r) = tree_map t" using tree_map_Splay [of cmp key t] unfolding s .
  have n: "node_keys (Node l k v r) = node_keys t" using node_keys_simps(3) [of cmp key t] unfolding s .
  note sp = Splay_splits [OF assms(1) s]
  have "tree_map l key = None" "tree_map r key = None" using sp by (auto simp: tree_map_None_iff)
  then have "tree_map t key = (if key = k then Some v else None)"
    unfolding m [symmetric] tree_map_Node [OF o] by auto
  with s o m n sp show thesis by (intro that) auto
qed

lemma Insert_correct:
  assumes o: "ordered t"
  shows "\<exists>l v r. Insert cmp nv key t = Inr (tree_map t key = None, Node l key v r) \<and>
    ordered (Node l key v r) \<and>
    tree_map (Node l key v r) =
      (if tree_map t key = None then (tree_map t)(key \<mapsto> nv) else tree_map t)"
proof (cases "t = NULL")
  case True
  have "ordered (Node NULL key nv NULL)" by simp
  from tree_map_Node [OF this] show ?thesis
    using True by (auto simp: Insert_def is_empty_def fun_eq_iff)
next
  case False
  obtain l k v r where s: "Splay cmp key t = Node l k v r" "ordered (Node l k v r)"
    "tree_map (Node l k v r) = tree_map t"
    "\<forall>x \<in> node_keys l. x < key" "\<forall>x \<in> node_keys r. key < x"
    "tree_map t key = (if key = k then Some v else None)"
    using Splay_root [OF o False, of key] by metis
  have ne: "\<not> is_empty t" using False by (cases t) (auto simp: is_empty_def)
  consider (eq) "key = k" | (gt) "k < key" | (lt) "key < k" using linorder_cases by blast
  then show ?thesis
  proof cases
    case eq
    then show ?thesis
      using s ne by (auto simp: Insert_def cmp_eq)
  next
    case gt
    have o': "ordered (Node (Node l k v NULL) key nv r)" "ordered (Node l k v NULL)"
      using s(2,4,5) gt by (auto dest: less_trans)
    have "tree_map (Node (Node l k v NULL) key nv r) x = ((tree_map t)(key \<mapsto> nv)) x" for x
    proof -
      have "x < k \<Longrightarrow> tree_map r x = None"
        using s(2) by (auto simp: tree_map_None_iff dest: less_trans)
      moreover have "k < x \<Longrightarrow> x < key \<Longrightarrow> tree_map r x = None"
        using s(5) by (auto simp: tree_map_None_iff dest: less_asym)
      ultimately show ?thesis
        using gt unfolding tree_map_Node [OF o'(1)] tree_map_Node [OF o'(2)] s(3) [symmetric]
          tree_map_Node [OF s(2)]
        by (auto simp: not_less_iff_gr_or_eq dest: less_trans less_asym)
    qed
    then have "tree_map (Node (Node l k v NULL) key nv r) = (tree_map t)(key \<mapsto> nv)" by (rule ext)
    with gt s ne o' show ?thesis
      by (auto simp: Insert_def cmp_simps)
  next
    case lt
    have o': "ordered (Node l key nv (Node NULL k v r))" "ordered (Node NULL k v r)"
      using s(2,4,5) lt by (auto dest: less_trans)
    have "tree_map (Node l key nv (Node NULL k v r)) x = ((tree_map t)(key \<mapsto> nv)) x" for x
    proof -
      have "key < x \<Longrightarrow> tree_map l x = None"
        using s(4) by (auto simp: tree_map_None_iff dest: less_asym)
      then show ?thesis
        using lt unfolding tree_map_Node [OF o'(1)] tree_map_Node [OF o'(2)] s(3) [symmetric]
          tree_map_Node [OF s(2)]
        by (auto simp: not_less_iff_gr_or_eq dest: less_trans less_asym)
    qed
    then have "tree_map (Node l key nv (Node NULL k v r)) = (tree_map t)(key \<mapsto> nv)" by (rule ext)
    with lt s ne o' show ?thesis
      by (auto simp: Insert_def cmp_simps)
  qed
qed

lemma FindInternal_correct:
  assumes o: "ordered t"
  shows "(tree_map t key = None \<and> fst (FindInternal cmp key t) = False \<or>
      (\<exists>l v r. FindInternal cmp key t = (True, Node l key v r) \<and> tree_map t key = Some v)) \<and>
    ordered (snd (FindInternal cmp key t)) \<and> tree_map (snd (FindInternal cmp key t)) = tree_map t \<and>
    (\<forall>x \<in> node_keys (node_left (snd (FindInternal cmp key t))). t \<noteq> NULL \<longrightarrow> x < key)"
proof (cases "t = NULL")
  case True
  then show ?thesis by (simp add: FindInternal_def is_empty_def)
next
  case False
  obtain l k v r where s: "Splay cmp key t = Node l k v r" "ordered (Node l k v r)"
    "tree_map (Node l k v r) = tree_map t" "\<forall>x \<in> node_keys l. x < key"
    "tree_map t key = (if key = k then Some v else None)"
    using Splay_root [OF o False, of key] by metis
  have ne: "\<not> is_empty t" using False by (cases t) (auto simp: is_empty_def)
  from s ne show ?thesis by (auto simp: FindInternal_def cmp_eq)
qed

lemma FindGreatestLessThan_correct:
  assumes o: "ordered t"
  shows "is_floor (tree_map t) key (fst (FindGreatestLessThan cmp key t))"
    and "ordered (snd (FindGreatestLessThan cmp key t))"
    and "tree_map (snd (FindGreatestLessThan cmp key t)) = tree_map t"
proof -
  have "is_floor (tree_map t) key (fst (FindGreatestLessThan cmp key t)) \<and>
    ordered (snd (FindGreatestLessThan cmp key t)) \<and>
    tree_map (snd (FindGreatestLessThan cmp key t)) = tree_map t"
  proof (cases "t = NULL")
    case True
    then show ?thesis by (simp add: FindGreatestLessThan_def is_empty_def is_floor_def)
  next
    case False
    obtain l k v r where s: "Splay cmp key t = Node l k v r" "ordered (Node l k v r)"
      "tree_map (Node l k v r) = tree_map t" "node_keys (Node l k v r) = node_keys t"
      "\<forall>x \<in> node_keys l. x < key" "\<forall>x \<in> node_keys r. key < x"
      using Splay_root [OF o False, of key] by metis
    have ne: "\<not> is_empty t" using False by (cases t) (auto simp: is_empty_def)
    have dom: "dom (tree_map t) = insert k (node_keys l \<union> node_keys r)"
      using s(4) by (simp add: dom_tree_map)
    show ?thesis
    proof (cases "k \<le> key")
      case True
      then have "FindGreatestLessThan cmp key t = (Some (k, v), Node l k v r)"
        using s(1) ne by (simp add: FindGreatestLessThan_def cmp_simps)
      moreover have "tree_map t k = Some v" using s(3) tree_map_Node [OF s(2), of k] by simp
      moreover have "x \<le> k" if "x \<in> insert k (node_keys l \<union> node_keys r)" "x \<le> key" for x
        using that s(2,6) by auto
      ultimately show ?thesis
        using s(2,3) True unfolding is_floor_def dom by simp
    next
      case False
      then have f: "FindGreatestLessThan cmp key t = (FindGreatest l, Node l k v r)"
        using s(1) ne by (simp add: FindGreatestLessThan_def cmp_simps)
      have "is_floor (tree_map t) key (FindGreatest l)"
      proof (cases "FindGreatest l")
        case None
        with False s(6) dom show ?thesis by (auto simp: is_floor_def)
      next
        case (Some b)
        obtain k' v' where b: "b = (k', v')" by (cases b)
        have l: "tree_map l k' = Some v'" "\<forall>x \<in> node_keys l. x \<le> k'"
          using FindGreatest_correct [of l k' v'] s(2) Some b by auto
        then have "k' \<in> node_keys l" using dom_tree_map [of l] by auto
        with s(2,5) have "k' < k" "k' < key" by auto
        then have "tree_map t k' = Some v'"
          using l(1) s(3) tree_map_Node [OF s(2), of k'] by simp
        with l(2) \<open>k' < key\<close> False s(6) dom Some b show ?thesis
          by (auto simp: is_floor_def)
      qed
      with f s show ?thesis by simp
    qed
  qed
  then show "is_floor (tree_map t) key (fst (FindGreatestLessThan cmp key t))"
    "ordered (snd (FindGreatestLessThan cmp key t))"
    "tree_map (snd (FindGreatestLessThan cmp key t)) = tree_map t" by auto
qed

end

context key_compare begin

lemma FindLeastGreaterThan_correct:
  assumes o: "ordered t"
  shows "is_ceiling (tree_map t) key (fst (FindLeastGreaterThan cmp key t))"
    and "ordered (snd (FindLeastGreaterThan cmp key t))"
    and "tree_map (snd (FindLeastGreaterThan cmp key t)) = tree_map t"
proof -
  have "is_ceiling (tree_map t) key (fst (FindLeastGreaterThan cmp key t)) \<and>
    ordered (snd (FindLeastGreaterThan cmp key t)) \<and>
    tree_map (snd (FindLeastGreaterThan cmp key t)) = tree_map t"
  proof (cases "t = NULL")
    case True
    then show ?thesis by (simp add: FindLeastGreaterThan_def is_empty_def is_ceiling_def)
  next
    case False
    obtain l k v r where s: "Splay cmp key t = Node l k v r" "ordered (Node l k v r)"
      "tree_map (Node l k v r) = tree_map t" "node_keys (Node l k v r) = node_keys t"
      "\<forall>x \<in> node_keys l. x < key" "\<forall>x \<in> node_keys r. key < x"
      using Splay_root [OF o False, of key] by metis
    have ne: "\<not> is_empty t" using False by (cases t) (auto simp: is_empty_def)
    have dom: "dom (tree_map t) = insert k (node_keys l \<union> node_keys r)"
      using s(4) by (simp add: dom_tree_map)
    show ?thesis
    proof (cases "key \<le> k")
      case True
      then have "FindLeastGreaterThan cmp key t = (Some (k, v), Node l k v r)"
        using s(1) ne by (simp add: FindLeastGreaterThan_def cmp_simps)
      moreover have "tree_map t k = Some v" using s(3) tree_map_Node [OF s(2), of k] by simp
      moreover have "k \<le> x" if "x \<in> insert k (node_keys l \<union> node_keys r)" "key \<le> x" for x
        using that s(2,5) by auto
      ultimately show ?thesis
        using s(2,3) True unfolding is_ceiling_def dom by simp
    next
      case False
      then have f: "FindLeastGreaterThan cmp key t = (FindLeast r, Node l k v r)"
        using s(1) ne by (simp add: FindLeastGreaterThan_def cmp_simps)
      have "is_ceiling (tree_map t) key (FindLeast r)"
      proof (cases "FindLeast r")
        case None
        with False s(5) dom show ?thesis by (auto simp: is_ceiling_def)
      next
        case (Some b)
        obtain k' v' where b: "b = (k', v')" by (cases b)
        have r: "tree_map r k' = Some v'" "\<forall>x \<in> node_keys r. k' \<le> x"
          using FindLeast_correct [of r k' v'] s(2) Some b by auto
        then have "k' \<in> node_keys r" using dom_tree_map [of r] by auto
        with s(2,6) have "k < k'" "key < k'" by auto
        then have "tree_map t k' = Some v'"
          using r(1) s(3) tree_map_Node [OF s(2), of k'] \<open>k < k'\<close> by auto
        with r(2) \<open>key < k'\<close> False s(5) dom Some b show ?thesis
          by (auto simp: is_ceiling_def)
      qed
      with f s show ?thesis by simp
    qed
  qed
  then show "is_ceiling (tree_map t) key (fst (FindLeastGreaterThan cmp key t))"
    "ordered (snd (FindLeastGreaterThan cmp key t))"
    "tree_map (snd (FindLeastGreaterThan cmp key t)) = tree_map t" by auto
qed

text \<open>
  The new root after a splay of the left subtree has no right child to lose: every key of
  the subtree is below the key that was removed.
\<close>

lemma RemoveRootNode_correct:
  assumes o: "ordered (Node l key v r)"
  shows "\<exists>t'. RemoveRootNode cmp key (Node l key v r) = Inr t' \<and> ordered t' \<and>
    tree_map t' = (tree_map (Node l key v r))(key := None)"
proof (cases "l = NULL")
  case True
  have "tree_map r x = ((tree_map (Node l key v r))(key := None)) x" for x
    using o True unfolding fun_upd_apply tree_map_Node [OF o]
    by (auto simp: tree_map_None_iff dest: less_asym)
  then have "tree_map r = (tree_map (Node l key v r))(key := None)" by (rule ext)
  then show ?thesis using True o by simp
next
  case False
  have ol: "ordered l" using o by simp
  obtain l' k' v' r' where s: "Splay cmp key l = Node l' k' v' r'" "ordered (Node l' k' v' r')"
    "tree_map (Node l' k' v' r') = tree_map l" "node_keys (Node l' k' v' r') = node_keys l"
    "\<forall>x \<in> node_keys r'. key < x"
    using Splay_root [OF ol False, of key] by metis
  have below: "\<forall>x \<in> node_keys (Node l' k' v' r'). x < key" using s(4) o by simp
  then have "node_keys r' = {}" using s(5) by (auto dest: less_asym)
  then have r': "r' = NULL" by (cases r') auto
  have o': "ordered (Node l' k' v' r)" using s(2) o below by (auto dest: less_trans)
  have oN: "ordered (Node l' k' v' NULL)" using s(2) r' by simp
  have lm: "tree_map l = tree_map (Node l' k' v' NULL)" using s(3) r' by simp
  have "k' < key" using below by simp
  have "tree_map (Node l' k' v' r) x = ((tree_map (Node l key v r))(key := None)) x" for x
  proof -
    have r: "x \<le> key \<Longrightarrow> tree_map r x = None" using o by (auto simp: tree_map_None_iff)
    have lt: "key < x \<Longrightarrow> \<not> x < k' \<and> x \<noteq> k'"
      using \<open>k' < key\<close> by auto
    show ?thesis
    proof (cases "key < x")
      case True
      then show ?thesis
        using lt unfolding fun_upd_apply tree_map_Node [OF o] tree_map_Node [OF o'] by auto
    next
      case False
      then have "x < k' \<or> x = k' \<or> k' < x" "tree_map r x = None" using r by auto
      with False \<open>k' < key\<close> show ?thesis
        unfolding fun_upd_apply tree_map_Node [OF o] lm tree_map_Node [OF o'] tree_map_Node [OF oN]
        by (cases "x = key") auto
    qed
  qed
  then have "tree_map (Node l' k' v' r) = (tree_map (Node l key v r))(key := None)" by (rule ext)
  then show ?thesis using False s(1) o' by simp
qed

lemma Remove_correct:
  assumes o: "ordered t"
  shows "\<exists>t'. Remove cmp key t = Inr (tree_map t key \<noteq> None, t') \<and> ordered t' \<and>
    tree_map t' = (tree_map t)(key := None)"
proof -
  note f = FindInternal_correct [OF o, of key]
  show ?thesis
  proof (cases "tree_map t key")
    case None
    with f obtain t' where "FindInternal cmp key t = (False, t')" "ordered t'" "tree_map t' = tree_map t"
      by (cases "FindInternal cmp key t") auto
    moreover have "(tree_map t)(key := None) = tree_map t" using None by (auto simp: fun_eq_iff)
    ultimately show ?thesis using None by (simp add: Remove_def)
  next
    case (Some w)
    with f obtain l v r where n: "FindInternal cmp key t = (True, Node l key v r)"
      "ordered (Node l key v r)" "tree_map (Node l key v r) = tree_map t" by auto
    from RemoveRootNode_correct [OF n(2)] n(1,3) Some show ?thesis
      by (auto simp: Remove_def)
  qed
qed

text \<open>\<open>Move\<close>, in its four cases. The last node of a tree cannot be moved.\<close>

lemma Move_correct:
  assumes o: "ordered t"
  shows "case tree_map t old of
      None \<Rightarrow> \<exists>t'. Move cmp old new t = Inr (False, t') \<and> ordered t' \<and> tree_map t' = tree_map t
    | Some v \<Rightarrow>
        if dom (tree_map t) = {old} then Move cmp old new t = Inl NullDeref
        else \<exists>t'. Move cmp old new t = Inr (((tree_map t)(old := None)) new = None, t') \<and> ordered t' \<and>
          tree_map t' = (if ((tree_map t)(old := None)) new = None
                         then (tree_map t)(old := None, new \<mapsto> v) else (tree_map t)(old := None))"
proof -
  note f = FindInternal_correct [OF o, of old]
  show ?thesis
  proof (cases "tree_map t old")
    case None
    with f obtain t' where "FindInternal cmp old t = (False, t')" "ordered t'" "tree_map t' = tree_map t"
      by (cases "FindInternal cmp old t") auto
    then show ?thesis using None by (simp add: Move_def)
  next
    case (Some w)
    with f obtain l v r where n: "FindInternal cmp old t = (True, Node l old v r)"
      "ordered (Node l old v r)" "tree_map (Node l old v r) = tree_map t" by auto
    have w: "w = v" using Some n(3) tree_map_Node [OF n(2), of old] by simp
    obtain t1 where t1: "RemoveRootNode cmp old (Node l old v r) = Inr t1" "ordered t1"
      "tree_map t1 = (tree_map t)(old := None)"
      using RemoveRootNode_correct [OF n(2)] n(3) by auto
    have "t1 = NULL \<longleftrightarrow> dom (tree_map t1) = {}"
      unfolding dom_tree_map by (cases t1) auto
    then have NULL: "t1 = NULL \<longleftrightarrow> dom (tree_map t) = {old}"
      using Some unfolding t1(3) by auto
    show ?thesis
    proof (cases "t1 = NULL")
      case True
      with NULL n(1) t1(1) Some show ?thesis by (simp add: Move_def)
    next
      case False
      obtain t2 l2 v2 r2 b where ins: "Insert cmp v new t1 = Inr (b, t2)" "b = (tree_map t1 new = None)"
        "t2 = Node l2 new v2 r2" "ordered t2"
        "tree_map t2 = (if tree_map t1 new = None then (tree_map t1)(new \<mapsto> v) else tree_map t1)"
        using Insert_correct [OF t1(2), of v new] by auto
      have ne: "\<not> is_empty t1" using False by (cases t1) (auto simp: is_empty_def)
      have "Move cmp old new t = Inr (b, t2)"
        using ins(1) n(1) t1(1) ne
        by (auto simp: Move_def Insert_def split: Node.splits sum.splits if_splits)
      then show ?thesis
        using ins False NULL t1(3) Some w by simp
    qed
  qed
qed

end

text \<open>The breadth-first walk calls the callback once for every node.\<close>

lemma for_each_node_mset:
  "mset (for_each_node ts) = mset (concat (map inorder ts))"
  by (induction ts rule: for_each_node.induct) auto

lemma ForEach_mset: "mset (ForEach t) = mset (inorder t)"
  by (simp add: ForEach_def for_each_node_mset)

section \<open>The interface of the tree\<close>

text \<open>
  What the clients of the tree rely on: insertion with a write through the locator, removal, and the
  search for the nearest key on either side. The searches reorganise the tree and keep the map.
\<close>

locale ordered_map =
  fixes ins :: "'v \<Rightarrow> 'k::linorder \<Rightarrow> 'm \<Rightarrow> splay_error + (bool \<times> 'm)"
    and set_loc :: "'v \<Rightarrow> 'm \<Rightarrow> 'm"
    and floor :: "'k \<Rightarrow> 'm \<Rightarrow> ('k \<times> 'v) option \<times> 'm"
    and ceiling :: "'k \<Rightarrow> 'm \<Rightarrow> ('k \<times> 'v) option \<times> 'm"
    and remove :: "'k \<Rightarrow> 'm \<Rightarrow> splay_error + (bool \<times> 'm)"
    and lookup :: "'m \<Rightarrow> 'k \<Rightarrow> 'v option"
    and ok :: "'m \<Rightarrow> bool"
  assumes put: "ok m \<Longrightarrow> \<exists>m'. ins nv k m = Inr (lookup m k = None, m') \<and>
      ok (set_loc v m') \<and> lookup (set_loc v m') = (lookup m)(k \<mapsto> v)"
    and floor: "ok m \<Longrightarrow> is_floor (lookup m) k (fst (floor k m)) \<and> ok (snd (floor k m)) \<and>
      lookup (snd (floor k m)) = lookup m"
    and ceiling: "ok m \<Longrightarrow> is_ceiling (lookup m) k (fst (ceiling k m)) \<and> ok (snd (ceiling k m)) \<and>
      lookup (snd (ceiling k m)) = lookup m"
    and remove: "ok m \<Longrightarrow> \<exists>m'. remove k m = Inr (lookup m k \<noteq> None, m') \<and> ok m' \<and>
      lookup m' = (lookup m)(k := None)"
begin

text \<open>
  A map whose bindings stand for disjoint intervals that start at their keys: the only binding
  that can hold a point is the one at its floor.
\<close>

lemma floor_inside:
  assumes ok: "ok m"
    and start: "\<And>k v x. lookup m k = Some v \<Longrightarrow> inside k v x \<Longrightarrow> k \<le> x"
    and disjoint: "\<And>k v k' v' x. lookup m k = Some v \<Longrightarrow> lookup m k' = Some v' \<Longrightarrow> k < k' \<Longrightarrow>
      inside k v x \<Longrightarrow> x < k'"
  shows "(\<exists>k v. fst (floor x m) = Some (k, v) \<and> inside k v x \<and> P k v) \<longleftrightarrow>
    (\<exists>k v. lookup m k = Some v \<and> inside k v x \<and> P k v)"
proof
  assume "\<exists>k v. fst (floor x m) = Some (k, v) \<and> inside k v x \<and> P k v"
  then show "\<exists>k v. lookup m k = Some v \<and> inside k v x \<and> P k v"
    using floor [OF ok, of x] by (fastforce simp: is_floor_def)
next
  assume "\<exists>k v. lookup m k = Some v \<and> inside k v x \<and> P k v"
  then obtain k v where k: "lookup m k = Some v" "inside k v x" "P k v" by blast
  have le: "k \<le> x" using start [OF k(1,2)] .
  have fl: "is_floor (lookup m) x (fst (floor x m))" using floor [OF ok] by blast
  have "fst (floor x m) \<noteq> None"
  proof
    assume "fst (floor x m) = None"
    with fl have "\<forall>y \<in> dom (lookup m). x < y" by (simp add: is_floor_def)
    from bspec [OF this domI [of "lookup m", OF k(1)]] le show False by simp
  qed
  then obtain k' v' where f: "fst (floor x m) = Some (k', v')" by auto
  then have k': "lookup m k' = Some v'" "k' \<le> x" "k \<le> k'"
    using fl domI [of "lookup m", OF k(1)] le by (simp_all add: is_floor_def)
  have "k' = k"
    using disjoint [OF k(1) k'(1) _ k(2)] k'(2,3) by (meson not_le order.antisym)
  with f k k' show "\<exists>k v. fst (floor x m) = Some (k, v) \<and> inside k v x \<and> P k v" by auto
qed

lemma put_other:
  assumes "ok m" "ins nv k m = Inr (b, m')" "k' \<noteq> k"
  shows "lookup (set_loc v m') k' = lookup m k'"
  using put [OF assms(1), of nv k v] assms(2,3) by auto

lemma remove_put:
  assumes "ok m" "ins nv k m = Inr (b, m')" "b"
  shows "\<exists>m''. remove k (set_loc v m') = Inr (True, m'') \<and> lookup m'' = lookup m"
proof -
  have m': "ok (set_loc v m')" "lookup (set_loc v m') = (lookup m)(k \<mapsto> v)" "lookup m k = None"
    using put [OF assms(1), of nv k v] assms(2,3) by auto
  from remove [OF m'(1), of k] m'(2,3) show ?thesis
    by (auto simp: fun_eq_iff)
qed

end

text \<open>The splay tree of the code is an ordered map for every comparison that orders its keys.\<close>

sublocale key_compare \<subseteq> tree: ordered_map
  "Insert cmp" set_root_value "FindGreatestLessThan cmp" "FindLeastGreaterThan cmp"
  "Remove cmp" tree_map ordered
proof (unfold_locales, goal_cases)
  case (1 m nv k v)
  obtain l w r where t: "Insert cmp nv k m = Inr (tree_map m k = None, Node l k w r)"
    "ordered (Node l k w r)"
    "tree_map (Node l k w r) = (if tree_map m k = None then (tree_map m)(k \<mapsto> nv) else tree_map m)"
    using Insert_correct [OF 1] by blast
  show ?case
    using t set_root_value_map [OF t(2), of v] by (intro exI [of _ "Node l k w r"]) auto
next
  case (2 m k)
  then show ?case using FindGreatestLessThan_correct by blast
next
  case (3 m k)
  then show ?case using FindLeastGreaterThan_correct by blast
next
  case (4 m k)
  then show ?case by (rule Remove_correct)
qed

section \<open>Properties\<close>

text \<open>A comparison that orders the integers, for the concrete instances.\<close>

definition int_compare :: "int \<Rightarrow> int \<Rightarrow> int" where
  "int_compare a b = (if a < b then -1 else if a > b then 1 else 0)"

interpretation int_tree: key_compare int_compare
  by unfold_locales (auto simp: int_compare_def)

definition zigzag :: "(int, nat) Node" where
  "zigzag = Node (Node NULL 1 10 (Node NULL 3 30 NULL)) 5 50 (Node (Node NULL 6 60 NULL) 8 80 NULL)"

lemma zigzag_ordered: "ordered zigzag"
  by (simp add: zigzag_def)

text \<open>
  C4. A splay keeps the tree's contents and brings the key to the root. The listing of keys and
  values in order is unchanged, and in an ordered tree with a node afterwards every key in the
  left subtree is below the key that was asked for and every key in the right subtree above it, so
  that the key itself, if present, is at the root.
\<close>

theorem splay_partitions:
  assumes "key_compare cmp" "ordered t" "t \<noteq> NULL"
  shows "\<exists>l k v r. Splay cmp key t = Node l k v r \<and> inorder (Node l k v r) = inorder t \<and>
    (\<forall>x \<in> node_keys l. x < key) \<and> (\<forall>x \<in> node_keys r. key < x) \<and>
    (key \<in> node_keys t \<longrightarrow> k = key)"
proof -
  obtain l k v r where s: "Splay cmp key t = Node l k v r" "ordered (Node l k v r)"
    "tree_map (Node l k v r) = tree_map t" "node_keys (Node l k v r) = node_keys t"
    "\<forall>x \<in> node_keys l. x < key" "\<forall>x \<in> node_keys r. key < x"
    using key_compare.Splay_root [OF assms, of key] by metis
  have "inorder (Node l k v r) = inorder t" using Splay_inorder [of cmp key t] unfolding s(1) .
  moreover have "key \<in> node_keys t \<longrightarrow> k = key" using s(4-6) by auto
  ultimately show ?thesis using s(1,5,6) by blast
qed

theorem splay_partitions_witness:
  "\<exists>l k v r. Splay int_compare 3 zigzag = Node l k v r \<and> inorder (Node l k v r) = inorder zigzag \<and>
    (\<forall>x \<in> node_keys l. x < 3) \<and> (\<forall>x \<in> node_keys r. 3 < x) \<and> (3 \<in> node_keys zigzag \<longrightarrow> k = 3)"
  using splay_partitions [OF int_tree.key_compare_axioms zigzag_ordered, of 3]
  by (simp add: zigzag_def)



text \<open>
  C6. \<open>ForEach\<close> calls the callback exactly once for every node of the tree, with its key and value.
\<close>

theorem for_each_visits_all: "mset (ForEach t) = mset (inorder t)"
  by (rule ForEach_mset)

end
