(* ===== verification/CodeMap.thy ===== *)
theory CodeMap
  imports SplayTree
begin

text \<open>
  The profiler's map from code addresses to code entries: \<open>CodeMap\<close> of
  src/src/profile-generator.h, profile-generator-inl.h and profile-generator.cc, and the
  code event records of src/src/cpu-profiler-inl.h that drive it. Addresses are 32-bit words, a
  \<open>CodeEntry*\<close> is a number that indexes a store of entries, NULL is \<open>None\<close>.
\<close>

type_synonym Address = uint32

section \<open>Code entries and the tree's configuration\<close>

record CodeEntry =
  ce_tag :: nat
  ce_name_prefix :: string
  ce_name :: string
  ce_resource_name :: string
  ce_line_number :: int
  ce_security_token_id :: int

record CodeEntryInfo =
  ci_entry :: "nat option"
  ci_size :: uint32

type_synonym entry_store = "nat \<Rightarrow> CodeEntry"
type_synonym CodeTree = "(Address, CodeEntryInfo) Node"

definition CodeTree_Compare :: "Address \<Rightarrow> Address \<Rightarrow> int" where
  "CodeTree_Compare a b = (if a < b then -1 else if a > b then 1 else 0)"

definition CodeTree_kNoValue :: CodeEntryInfo where
  "CodeTree_kNoValue = \<lparr>ci_entry = None, ci_size = 0\<rparr>"

text \<open>\<open>CodeEntry::CopyData\<close>; the security token of the destination stays.\<close>

definition CopyData :: "CodeEntry \<Rightarrow> CodeEntry \<Rightarrow> CodeEntry" where
  "CopyData this source =
     this\<lparr>ce_tag := ce_tag source, ce_name_prefix := ce_name_prefix source, ce_name := ce_name source,
          ce_resource_name := ce_resource_name source, ce_line_number := ce_line_number source\<rparr>"

section \<open>The operations\<close>

definition AddCode :: "Address \<Rightarrow> nat option \<Rightarrow> uint32 \<Rightarrow> CodeTree \<Rightarrow> splay_error + CodeTree" where
  "AddCode addr entry sz tree =
     (case Insert CodeTree_Compare CodeTree_kNoValue addr tree of
        Inl err \<Rightarrow> Inl err
      | Inr (_, tree') \<Rightarrow> Inr (set_root_value \<lparr>ci_entry = entry, ci_size = sz\<rparr> tree'))"

definition MoveCode :: "Address \<Rightarrow> Address \<Rightarrow> CodeTree \<Rightarrow> splay_error + CodeTree" where
  "MoveCode src dst tree =
     (case Move CodeTree_Compare src dst tree of Inl err \<Rightarrow> Inl err | Inr (_, tree') \<Rightarrow> Inr tree')"

definition DeleteCode :: "Address \<Rightarrow> CodeTree \<Rightarrow> splay_error + CodeTree" where
  "DeleteCode addr tree =
     (case Remove CodeTree_Compare addr tree of Inl err \<Rightarrow> Inl err | Inr (_, tree') \<Rightarrow> Inr tree')"

text \<open>
  \<open>AddAlias\<close> holds a reference to the value of the node it found; the insertion moves nodes but
  does not change that value.
\<close>

definition AddAlias ::
  "Address \<Rightarrow> nat \<Rightarrow> Address \<Rightarrow> entry_store \<times> CodeTree \<Rightarrow> splay_error + (entry_store \<times> CodeTree)"
where
  "AddAlias start entry code_start s =
     (case Find CodeTree_Compare code_start (snd s) of
        (None, tree) \<Rightarrow> Inr (fst s, tree)
      | (Some (_, code_info), tree) \<Rightarrow>
          (case Insert CodeTree_Compare CodeTree_kNoValue start tree of
             Inl err \<Rightarrow> Inl err
           | Inr (False, tree') \<Rightarrow> Inr (fst s, tree')
           | Inr (True, tree') \<Rightarrow>
               (case ci_entry code_info of
                  None \<Rightarrow> Inl NullDeref
                | Some source \<Rightarrow>
                    Inr ((fst s)(entry := CopyData (fst s entry) (fst s source)),
                         set_root_value \<lparr>ci_entry = Some entry, ci_size = ci_size code_info\<rparr> tree'))))"

definition FindEntry :: "Address \<Rightarrow> CodeTree \<Rightarrow> nat option \<times> CodeTree" where
  "FindEntry addr tree =
     (case FindGreatestLessThan CodeTree_Compare addr tree of
        (Some (key, entry), tree') \<Rightarrow>
          if addr < key + ci_size entry then (ci_entry entry, tree') else (None, tree')
      | (None, tree') \<Rightarrow> (None, tree'))"

text \<open>\<open>Print\<close> prints a line for every node; a node without an entry is a NULL dereference.\<close>

definition CodeMap_Print ::
  "entry_store \<Rightarrow> CodeTree \<Rightarrow> splay_error + (Address \<times> uint32 \<times> string) list" where
  "CodeMap_Print store tree =
     (if \<exists>x \<in> set (ForEach tree). ci_entry (snd x) = None then Inl NullDeref
      else Inr (map (\<lambda>(key, value). (key, ci_size value, ce_name (store (the (ci_entry value)))))
        (ForEach tree)))"

section \<open>The events\<close>

datatype CodeEvent =
  CodeCreate Address "nat option" uint32
| CodeMove Address Address
| CodeDelete Address
| CodeAlias Address nat Address

fun UpdateCodeMap ::
  "CodeEvent \<Rightarrow> entry_store \<times> CodeTree \<Rightarrow> splay_error + (entry_store \<times> CodeTree)" where
  "UpdateCodeMap (CodeCreate start entry sz) s =
     (case AddCode start entry sz (snd s) of Inl err \<Rightarrow> Inl err | Inr t \<Rightarrow> Inr (fst s, t))"
| "UpdateCodeMap (CodeMove src dst) s =
     (case MoveCode src dst (snd s) of Inl err \<Rightarrow> Inl err | Inr t \<Rightarrow> Inr (fst s, t))"
| "UpdateCodeMap (CodeDelete start) s =
     (case DeleteCode start (snd s) of Inl err \<Rightarrow> Inl err | Inr t \<Rightarrow> Inr (fst s, t))"
| "UpdateCodeMap (CodeAlias start entry code_start) s = AddAlias start entry code_start s"

section \<open>The abstract code map\<close>

interpretation code_tree: key_compare CodeTree_Compare
  by unfold_locales (auto simp: CodeTree_Compare_def)

text \<open>The address lies in the code range that starts at \<open>key\<close>.\<close>

definition in_code :: "Address \<Rightarrow> CodeEntryInfo \<Rightarrow> Address \<Rightarrow> bool" where
  "in_code key info addr \<longleftrightarrow>
     unat key \<le> unat addr \<and> unat addr < unat key + unat (ci_size info)"

text \<open>Code ranges do not overlap, and none runs over the end of the address space.\<close>

definition code_layout :: "(Address \<Rightarrow> CodeEntryInfo option) \<Rightarrow> bool" where
  "code_layout f \<longleftrightarrow>
     (\<forall>k info. f k = Some info \<longrightarrow> unat k + unat (ci_size info) < 2 ^ 32) \<and>
     (\<forall>k info k' info'. f k = Some info \<longrightarrow> f k' = Some info' \<longrightarrow> k < k' \<longrightarrow>
        unat k + unat (ci_size info) \<le> unat k')"

fun spec_event ::
  "CodeEvent \<Rightarrow> entry_store \<times> (Address \<Rightarrow> CodeEntryInfo option) \<Rightarrow>
    splay_error + (entry_store \<times> (Address \<Rightarrow> CodeEntryInfo option))" where
  "spec_event (CodeCreate start entry sz) (st, f) =
     Inr (st, f(start \<mapsto> \<lparr>ci_entry = entry, ci_size = sz\<rparr>))"
| "spec_event (CodeMove src dst) (st, f) =
     (case f src of
        None \<Rightarrow> Inr (st, f)
      | Some info \<Rightarrow>
          if dom f = {src} then Inl NullDeref
          else if (f(src := None)) dst = None then Inr (st, f(src := None, dst \<mapsto> info))
          else Inr (st, f(src := None)))"
| "spec_event (CodeDelete start) (st, f) = Inr (st, f(start := None))"
| "spec_event (CodeAlias start entry code_start) (st, f) =
     (case f code_start of
        None \<Rightarrow> Inr (st, f)
      | Some info \<Rightarrow>
          if f start \<noteq> None then Inr (st, f)
          else
            (case ci_entry info of
               None \<Rightarrow> Inl NullDeref
             | Some source \<Rightarrow>
                 Inr (st(entry := CopyData (st entry) (st source)),
                      f(start \<mapsto> \<lparr>ci_entry = Some entry, ci_size = ci_size info\<rparr>))))"

text \<open>The concrete and the abstract outcome of an operation correspond.\<close>

definition refines ::
  "splay_error + (entry_store \<times> CodeTree) \<Rightarrow>
   splay_error + (entry_store \<times> (Address \<Rightarrow> CodeEntryInfo option)) \<Rightarrow> bool" where
  "refines c a \<longleftrightarrow>
     (case c of
        Inl err \<Rightarrow> a = Inl err
      | Inr (st, t) \<Rightarrow> ordered t \<and> a = Inr (st, tree_map t))"

lemma AddCode_refines:
  assumes "ordered t"
  shows "\<exists>t'. AddCode addr entry sz t = Inr t' \<and> ordered t' \<and>
    tree_map t' = (tree_map t)(addr \<mapsto> \<lparr>ci_entry = entry, ci_size = sz\<rparr>)"
  using code_tree.tree.put [OF assms, of CodeTree_kNoValue addr "\<lparr>ci_entry = entry, ci_size = sz\<rparr>"]
  by (auto simp: AddCode_def)

lemma DeleteCode_refines:
  assumes "ordered t"
  shows "\<exists>t'. DeleteCode addr t = Inr t' \<and> ordered t' \<and> tree_map t' = (tree_map t)(addr := None)"
  using code_tree.tree.remove [OF assms, of addr] by (auto simp: DeleteCode_def)

lemma MoveCode_refines:
  assumes "ordered t"
  shows "refines (case MoveCode src dst t of Inl err \<Rightarrow> Inl err | Inr t' \<Rightarrow> Inr (st, t'))
    (spec_event (CodeMove src dst) (st, tree_map t))"
  using code_tree.Move_correct [OF assms, of src dst]
  by (auto simp: MoveCode_def refines_def split: option.splits if_splits)

lemma Find_correct:
  assumes "ordered t"
  shows "\<exists>t'. Find CodeTree_Compare key t = (map_option (Pair key) (tree_map t key), t') \<and>
    ordered t' \<and> tree_map t' = tree_map t"
proof -
  note f = code_tree.FindInternal_correct [OF assms, of key]
  show ?thesis
  proof (cases "tree_map t key")
    case None
    with f show ?thesis by (cases "FindInternal CodeTree_Compare key t") (auto simp: Find_def)
  next
    case (Some v)
    with f obtain l w r where "FindInternal CodeTree_Compare key t = (True, Node l key w r)"
      "ordered (Node l key w r)" "tree_map (Node l key w r) = tree_map t" "w = v" by auto
    then show ?thesis using Some by (simp add: Find_def)
  qed
qed

lemma AddAlias_refines:
  assumes "ordered t"
  shows "refines (AddAlias start entry code_start (st, t))
    (spec_event (CodeAlias start entry code_start) (st, tree_map t))"
proof -
  obtain t1 where f: "Find CodeTree_Compare code_start t =
      (map_option (Pair code_start) (tree_map t code_start), t1)"
    "ordered t1" "tree_map t1 = tree_map t"
    using Find_correct [OF assms] by blast
  show ?thesis
  proof (cases "tree_map t code_start")
    case None
    with f show ?thesis by (simp add: AddAlias_def refines_def)
  next
    case (Some info)
    obtain l v r where i: "Insert CodeTree_Compare CodeTree_kNoValue start t1 =
        Inr (tree_map t start = None, Node l start v r)" "ordered (Node l start v r)"
      "tree_map (Node l start v r) =
        (if tree_map t start = None then (tree_map t)(start \<mapsto> CodeTree_kNoValue) else tree_map t)"
      using code_tree.Insert_correct [OF f(2), of CodeTree_kNoValue start] f(3) by metis
    show ?thesis
    proof (cases "tree_map t start")
      case None
      show ?thesis
      proof (cases "ci_entry info")
        case N: None
        with f(1) i(1) Some None show ?thesis by (simp add: AddAlias_def refines_def)
      next
        case S: (Some source)
        let ?v = "\<lparr>ci_entry = Some entry, ci_size = ci_size info\<rparr>"
        have "AddAlias start entry code_start (st, t) =
          Inr (st(entry := CopyData (st entry) (st source)), set_root_value ?v (Node l start v r))"
          using f(1) i(1) Some None S by (simp add: AddAlias_def)
        with set_root_value_map [OF i(2), of ?v] i(3) Some None S show ?thesis
          by (simp add: refines_def)
      qed
    next
      case S: (Some w)
      with f(1) i Some show ?thesis by (simp add: AddAlias_def refines_def)
    qed
  qed
qed

section \<open>Properties\<close>

text \<open>
  C7. Every code event acts on the map as its specification says. On an ordered tree, creating,
  moving, deleting and aliasing code updates the abstract map from start addresses to entries,
  and the store of entries, exactly as \<open>spec_event\<close>, errors included, and leaves an ordered tree.
\<close>

theorem code_events_refine:
  assumes "ordered (snd s)"
  shows "refines (UpdateCodeMap ev s) (spec_event ev (fst s, tree_map (snd s)))"
proof -
  obtain st t where s: "s = (st, t)" "ordered t" using assms by (cases s) auto
  show ?thesis
  proof (cases ev)
    case (CodeCreate start entry sz)
    with AddCode_refines [OF s(2), of start entry sz] s(1) show ?thesis by (auto simp: refines_def)
  next
    case (CodeMove src dst)
    with MoveCode_refines [OF s(2), where src = src and dst = dst and st = st] s(1) show ?thesis
      by (simp cong: sum.case_cong)
  next
    case (CodeDelete start)
    with DeleteCode_refines [OF s(2), of start] s(1) show ?thesis by (auto simp: refines_def)
  next
    case (CodeAlias start entry code_start)
    with AddAlias_refines [OF s(2), of start entry code_start st] s(1) show ?thesis by simp
  qed
qed

definition unnamed_entry :: CodeEntry where
  "unnamed_entry = \<lparr>ce_tag = 0, ce_name_prefix = [], ce_name = [], ce_resource_name = [],
     ce_line_number = 0, ce_security_token_id = 0\<rparr>"

theorem code_events_refine_witness:
  "refines (UpdateCodeMap (CodeMove 16 64)
      (\<lambda>_. unnamed_entry, Node NULL 16 \<lparr>ci_entry = Some 1, ci_size = 8\<rparr> NULL))
    (Inl NullDeref)"
proof -
  have m: "tree_map (Node NULL (16 :: Address) i NULL) = [16 \<mapsto> i]" for i :: CodeEntryInfo
    by (auto simp: tree_map_def fun_eq_iff)
  show ?thesis
    using code_events_refine [of "(\<lambda>_. unnamed_entry, Node NULL 16 \<lparr>ci_entry = Some 1, ci_size = 8\<rparr> NULL)" "CodeMove 16 64"]
    by (simp add: m)
qed

text \<open>
  C8. A lookup finds the code an address lies in. When the code ranges are disjoint and do not wrap
  around, \<open>FindEntry\<close> gives the entry of the range that contains the address and NULL when there is
  none, and only reorganises the tree.
\<close>

theorem find_entry_in_range:
  assumes "ordered t" "code_layout (tree_map t)"
  shows "(fst (FindEntry addr t) = Some e \<longleftrightarrow>
      (\<exists>key info. tree_map t key = Some info \<and> in_code key info addr \<and> ci_entry info = Some e)) \<and>
    tree_map (snd (FindEntry addr t)) = tree_map t"
proof (intro conjI)
  note fl = code_tree.tree.floor [OF assms(1), of addr]
  let ?fl = "fst (FindGreatestLessThan CodeTree_Compare addr t)"
  have add: "unat (k + ci_size info) = unat k + unat (ci_size info)"
    if "tree_map t k = Some info" for k info
    using assms(2) that by (simp add: code_layout_def unat_word_ariths)
  have "fst (FindEntry addr t) = Some e \<longleftrightarrow>
      (\<exists>k v. ?fl = Some (k, v) \<and> in_code k v addr \<and> ci_entry v = Some e)"
  proof (cases ?fl)
    case None
    then show ?thesis
      by (cases "FindGreatestLessThan CodeTree_Compare addr t") (simp add: FindEntry_def)
  next
    case (Some b)
    obtain k v where b: "b = (k, v)" by (cases b)
    have kv: "tree_map t k = Some v" "k \<le> addr"
      using fl Some b by (simp_all add: is_floor_def)
    have "addr < k + ci_size v \<longleftrightarrow> in_code k v addr"
      using kv(2) add [OF kv(1)] by (simp add: in_code_def word_less_nat_alt word_le_nat_alt)
    then show ?thesis
      using Some b
      by (cases "FindGreatestLessThan CodeTree_Compare addr t") (auto simp: FindEntry_def)
  qed
  also have "\<dots> \<longleftrightarrow> (\<exists>k v. tree_map t k = Some v \<and> in_code k v addr \<and> ci_entry v = Some e)"
  proof (rule code_tree.tree.floor_inside [OF assms(1)])
    fix k v x
    assume "tree_map t k = Some v" "in_code k v x"
    then show "k \<le> x" by (simp add: in_code_def word_le_nat_alt)
  next
    fix k v k' v' x
    assume "tree_map t k = Some v" "tree_map t k' = Some v'" "k < k'" "in_code k v x"
    then show "x < k'"
      using assms(2) unfolding code_layout_def in_code_def word_less_nat_alt
      by (meson order_less_le_trans)
  qed
  finally show "fst (FindEntry addr t) = Some e \<longleftrightarrow>
      (\<exists>key info. tree_map t key = Some info \<and> in_code key info addr \<and> ci_entry info = Some e)" .
  show "tree_map (snd (FindEntry addr t)) = tree_map t"
    using fl by (cases "FindGreatestLessThan CodeTree_Compare addr t")
      (auto simp: FindEntry_def split: option.splits)
qed

text \<open>Two functions of 32 and 16 bytes, the second right after the first.\<close>

definition two_functions :: CodeTree where
  "two_functions =
     Node (Node NULL 4096 \<lparr>ci_entry = Some 1, ci_size = 32\<rparr> NULL) 4128 \<lparr>ci_entry = Some 2, ci_size = 16\<rparr> NULL"

theorem find_entry_in_range_witness:
  "fst (FindEntry 4127 two_functions) = Some 1"
proof -
  have m: "tree_map two_functions =
      [4096 \<mapsto> \<lparr>ci_entry = Some 1, ci_size = 32\<rparr>, 4128 \<mapsto> \<lparr>ci_entry = Some 2, ci_size = 16\<rparr>]"
    by (auto simp: tree_map_def two_functions_def fun_eq_iff)
  have o: "ordered two_functions" by (simp add: two_functions_def)
  have "code_layout (tree_map two_functions)"
    unfolding code_layout_def m by auto
  from find_entry_in_range [OF o this, of 4127 1] show ?thesis
    by (auto simp: m in_code_def)
qed

end
