(* ===== verification/OutSet.thy ===== *)
theory OutSet
  imports V8Prelude
begin

text \<open>
  The sets of out-going choices of the regexp compiler's dispatch tables: class \<open>OutSet\<close> of
  src/src/jsregexp.h and src/src/jsregexp.cc. Sets and lists live in a zone and are shared
  by pointers, so they are modelled in a store: a set is an index into \<open>z_sets\<close>, a list of
  values an index into \<open>z_lists\<close>; NULL is \<open>None\<close>.
\<close>

section \<open>The zone and the operations\<close>

record OutSet =
  os_first :: uint32
  os_remaining :: "nat option"
  os_successors :: "nat list option"

record Zone =
  z_sets :: "OutSet list"
  z_lists :: "uint32 list list"

definition kFirstLimit :: uint32 where
  "kFirstLimit = 32"

text \<open>\<open>new OutSet(first, remaining)\<close>: the new set shares the list \<open>remaining\<close> points to.\<close>

definition new_OutSet :: "uint32 \<Rightarrow> nat option \<Rightarrow> Zone \<Rightarrow> Zone \<times> nat" where
  "new_OutSet first remaining z =
     (z\<lparr>z_sets := z_sets z @ [\<lparr>os_first = first, os_remaining = remaining, os_successors = None\<rparr>]\<rparr>,
      length (z_sets z))"

definition OutSet_Get :: "Zone \<Rightarrow> nat \<Rightarrow> uint32 \<Rightarrow> bool" where
  "OutSet_Get z s v =
     (if v < kFirstLimit then os_first (z_sets z ! s) AND push_bit (unat v) 1 \<noteq> 0
      else
        (case os_remaining (z_sets z ! s) of
           None \<Rightarrow> False
         | Some l \<Rightarrow> v \<in> set (z_lists z ! l)))"

definition OutSet_Set :: "nat \<Rightarrow> uint32 \<Rightarrow> Zone \<Rightarrow> Zone" where
  "OutSet_Set s v z =
     (if v < kFirstLimit then
        z\<lparr>z_sets := (z_sets z)[s := (z_sets z ! s)
            \<lparr>os_first := os_first (z_sets z ! s) OR push_bit (unat v) 1\<rparr>]\<rparr>
      else
        (let (z1, l) =
           (case os_remaining (z_sets z ! s) of
              None \<Rightarrow>
                (z\<lparr>z_sets := (z_sets z)[s := (z_sets z ! s)\<lparr>os_remaining := Some (length (z_lists z))\<rparr>],
                   z_lists := z_lists z @ [[]]\<rparr>, length (z_lists z))
            | Some l \<Rightarrow> (z, l))
         in if z_lists z1 ! l = [] \<or> v \<notin> set (z_lists z1 ! l)
            then z1\<lparr>z_lists := (z_lists z1)[l := z_lists z1 ! l @ [v]]\<rparr>
            else z1))"

text \<open>
  \<open>Extend\<close> returns this set if it has the value, a successor that has it, or a new successor.
\<close>

definition OutSet_Extend :: "Zone \<Rightarrow> nat \<Rightarrow> uint32 \<Rightarrow> Zone \<times> nat" where
  "OutSet_Extend z s v =
     (if OutSet_Get z s v then (z, s)
      else
        (case find (\<lambda>s'. OutSet_Get z s' v) (case os_successors (z_sets z ! s) of None \<Rightarrow> [] | Some l \<Rightarrow> l) of
           Some s' \<Rightarrow> (z, s')
         | None \<Rightarrow>
             (let succs = (case os_successors (z_sets z ! s) of None \<Rightarrow> [] | Some l \<Rightarrow> l);
                  (z1, r) = new_OutSet (os_first (z_sets z ! s)) (os_remaining (z_sets z ! s)) z;
                  z2 = OutSet_Set r v z1
              in (z2\<lparr>z_sets := (z_sets z2)[s := (z_sets z2 ! s)\<lparr>os_successors := Some (succs @ [r])\<rparr>]\<rparr>,
                  r))))"

section \<open>Sets of small values\<close>

lemma Get_small: "v < kFirstLimit \<Longrightarrow> OutSet_Get z s v \<longleftrightarrow> bit (os_first (z_sets z ! s)) (unat v)"
  by (simp add: OutSet_Get_def bit_iff_and_push_bit_not_eq_0)

text \<open>
  A zone whose sets have only values below the limit: no list is used, and a successor of a set is
  the set with one more value.
\<close>

definition successor_of :: "OutSet \<Rightarrow> OutSet \<Rightarrow> bool" where
  "successor_of s s' \<longleftrightarrow>
     (\<exists>n < 32. \<not> bit (os_first s) n \<and> os_first s' = os_first s OR push_bit n 1)"

definition zone_ok :: "Zone \<Rightarrow> bool" where
  "zone_ok z \<longleftrightarrow>
     (\<forall>s < length (z_sets z). os_remaining (z_sets z ! s) = None \<and>
        (\<forall>l. os_successors (z_sets z ! s) = Some l \<longrightarrow>
           (\<forall>s' \<in> set l. s' < length (z_sets z) \<and> successor_of (z_sets z ! s) (z_sets z ! s'))))"

lemma zone_okD:
  assumes "zone_ok z" "s < length (z_sets z)"
  shows "os_remaining (z_sets z ! s) = None"
    and "os_successors (z_sets z ! s) = Some l \<Longrightarrow> s' \<in> set l \<Longrightarrow>
      s' < length (z_sets z) \<and> successor_of (z_sets z ! s) (z_sets z ! s')"
  using assms by (auto simp: zone_ok_def)

lemma Get_big: "zone_ok z \<Longrightarrow> s < length (z_sets z) \<Longrightarrow> \<not> v < kFirstLimit \<Longrightarrow> \<not> OutSet_Get z s v"
  by (simp add: OutSet_Get_def zone_okD)

lemma bit_push_1: "bit (2 ^ n :: uint32) k \<longleftrightarrow> k = n \<and> n < 32"
  by (auto simp: bit_exp_iff)

lemma successor_bit:
  "successor_of a b \<Longrightarrow> \<not> bit (os_first a) k \<Longrightarrow> bit (os_first b) k \<Longrightarrow>
    os_first b = os_first a OR push_bit k 1"
  by (auto simp: successor_of_def bit_or_iff bit_push_1)

lemma unat_kFirstLimit: "v < kFirstLimit \<longleftrightarrow> unat v < 32"
  by (simp add: kFirstLimit_def word_less_nat_alt)

text \<open>A new successor: the state after the allocation, the insertion and the registration.\<close>

definition extended :: "Zone \<Rightarrow> nat \<Rightarrow> uint32 \<Rightarrow> Zone" where
  "extended z s v =
     (let succs = (case os_successors (z_sets z ! s) of None \<Rightarrow> [] | Some l \<Rightarrow> l);
          n = length (z_sets z);
          new = \<lparr>os_first = os_first (z_sets z ! s) OR push_bit (unat v) 1,
                 os_remaining = os_remaining (z_sets z ! s), os_successors = None\<rparr>
      in z\<lparr>z_sets := (z_sets z)[s := (z_sets z ! s)\<lparr>os_successors := Some (succs @ [n])\<rparr>] @ [new]\<rparr>)"

lemma Extend_cases:
  assumes "v < kFirstLimit" "s < length (z_sets z)"
  shows "OutSet_Extend z s v =
    (if OutSet_Get z s v then (z, s)
     else (case find (\<lambda>s'. OutSet_Get z s' v)
             (case os_successors (z_sets z ! s) of None \<Rightarrow> [] | Some l \<Rightarrow> l) of
             Some s' \<Rightarrow> (z, s')
           | None \<Rightarrow> (extended z s v, length (z_sets z))))"
  using assms
  by (simp add: OutSet_Extend_def new_OutSet_def OutSet_Set_def extended_def Let_def
      nth_append list_update_append split: option.splits)

lemma extended_sets:
  assumes "s < length (z_sets z)"
  shows "length (z_sets (extended z s v)) = Suc (length (z_sets z))"
    and "k < length (z_sets z) \<Longrightarrow> os_first (z_sets (extended z s v) ! k) = os_first (z_sets z ! k)"
    and "k < length (z_sets z) \<Longrightarrow> os_remaining (z_sets (extended z s v) ! k) = os_remaining (z_sets z ! k)"
    and "z_sets (extended z s v) ! length (z_sets z) =
      \<lparr>os_first = os_first (z_sets z ! s) OR push_bit (unat v) 1,
       os_remaining = os_remaining (z_sets z ! s), os_successors = None\<rparr>"
    and "k < length (z_sets z) \<Longrightarrow> os_successors (z_sets (extended z s v) ! k) =
      (if k = s then Some ((case os_successors (z_sets z ! s) of None \<Rightarrow> [] | Some l \<Rightarrow> l) @ [length (z_sets z)])
       else os_successors (z_sets z ! k))"
  using assms by (auto simp: extended_def Let_def nth_append nth_list_update)

lemma extended_ok:
  assumes ok: "zone_ok z" and s: "s < length (z_sets z)" and v: "unat v < 32"
    and no: "\<not> bit (os_first (z_sets z ! s)) (unat v)"
  shows "zone_ok (extended z s v)"
  unfolding zone_ok_def extended_sets(1) [OF s]
proof (intro allI impI conjI ballI)
  fix k
  assume k: "k < Suc (length (z_sets z))"
  note E = extended_sets [OF s, where v = v]
  show "os_remaining (z_sets (extended z s v) ! k) = None"
    using k E zone_okD(1) [OF ok] s by (cases "k = length (z_sets z)") auto
  fix l s'
  assume l: "os_successors (z_sets (extended z s v) ! k) = Some l" and s': "s' \<in> set l"
  have kn: "k < length (z_sets z)" using k l E(4) by (cases "k = length (z_sets z)") auto
  have cases: "k = s \<and> s' = length (z_sets z) \<or>
      s' < length (z_sets z) \<and> successor_of (z_sets z ! k) (z_sets z ! s')"
    using l s' E(5) [OF kn] zone_okD(2) [OF ok kn, of _ s'] by (auto split: if_splits option.splits)
  then show "s' < Suc (length (z_sets z))" by auto
  show "successor_of (z_sets (extended z s v) ! k) (z_sets (extended z s v) ! s')"
    using cases
  proof
    assume new: "k = s \<and> s' = length (z_sets z)"
    then have "os_first (z_sets (extended z s v) ! s') = os_first (z_sets z ! s) OR push_bit (unat v) 1"
      using E(4) by simp
    with new no v E(2) [OF s] show ?thesis
      unfolding successor_of_def by auto
  next
    assume old: "s' < length (z_sets z) \<and> successor_of (z_sets z ! k) (z_sets z ! s')"
    then show ?thesis
      unfolding successor_of_def E(2) [OF kn] by (simp add: E(2))
  qed
qed

section \<open>Properties\<close>

text \<open>
  C9. Extending a set of small values. In a zone in which only values below 32 have been used,
  \<open>Extend\<close> returns a set that has exactly one more value, whether it finds this set, a cached
  successor or makes a new one; no existing set changes its values, and the zone stays in order.
\<close>

theorem extend_small_values:
  assumes "zone_ok z" "s < length (z_sets z)" "v < kFirstLimit" "OutSet_Extend z s v = (z', r)"
  shows "zone_ok z' \<and> r < length (z_sets z') \<and>
    (\<forall>w. OutSet_Get z' r w \<longleftrightarrow> OutSet_Get z s w \<or> w = v) \<and>
    (\<forall>k < length (z_sets z). \<forall>w. OutSet_Get z' k w \<longleftrightarrow> OutSet_Get z k w)"
proof -
  let ?succs = "case os_successors (z_sets z ! s) of None \<Rightarrow> [] | Some l \<Rightarrow> l"
  have v: "unat v < 32" using assms(3) by (simp add: unat_kFirstLimit)
  have or: "OutSet_Get z' r w \<longleftrightarrow> OutSet_Get z s w \<or> w = v"
    if "zone_ok z'" "r < length (z_sets z')"
      "os_first (z_sets z' ! r) = os_first (z_sets z ! s) OR push_bit (unat v) 1" for w
  proof (cases "w < kFirstLimit")
    case True
    have "w \<noteq> v \<longrightarrow> unat w \<noteq> unat v" by (simp add: word_unat_eq_iff)
    then show ?thesis
      unfolding Get_small [OF True] that(3)
      by (cases "w = v") (use v in \<open>simp_all add: bit_or_iff bit_push_1\<close>)
  next
    case False
    with Get_big [OF that(1,2) False] Get_big [OF assms(1,2) False] assms(3) show ?thesis by auto
  qed
  consider (has) "OutSet_Get z s v" "z' = z" "r = s"
    | (succ) "\<not> OutSet_Get z s v" "r \<in> set ?succs" "OutSet_Get z r v" "z' = z"
    | (new) "\<not> OutSet_Get z s v" "z' = extended z s v" "r = length (z_sets z)"
  proof (cases "OutSet_Get z s v")
    case True
    then have "z' = z" "r = s" using assms(4) by (simp_all add: Extend_cases [OF assms(3,2)])
    with True that(1) show ?thesis by blast
  next
    case False
    show ?thesis
    proof (cases "find (\<lambda>s'. OutSet_Get z s' v) ?succs")
      case None
      then have "z' = extended z s v" "r = length (z_sets z)"
        using assms(4) False by (simp_all add: Extend_cases [OF assms(3,2)])
      with False that(3) show ?thesis by blast
    next
      case (Some s')
      note found = find_SomeD [OF Some]
      moreover have "r = s'" "z' = z"
        using assms(4) False Some by (simp_all add: Extend_cases [OF assms(3,2)])
      ultimately show ?thesis using that(2) False by blast
    qed
  qed
  then show ?thesis
  proof cases
    case has
    with assms show ?thesis by auto
  next
    case succ
    then have "r < length (z_sets z) \<and> successor_of (z_sets z ! s) (z_sets z ! r)"
      using zone_okD(2) [OF assms(1,2)]
      by (cases "os_successors (z_sets z ! s)") simp_all
    moreover have "\<not> bit (os_first (z_sets z ! s)) (unat v)" "bit (os_first (z_sets z ! r)) (unat v)"
      using succ assms(3) by (simp_all add: Get_small)
    ultimately have "os_first (z_sets z ! r) = os_first (z_sets z ! s) OR push_bit (unat v) 1"
      "r < length (z_sets z)" using successor_bit by blast+
    with succ assms(1) or show ?thesis by simp
  next
    case new
    note E = extended_sets [OF assms(2), where v = v]
    have no: "\<not> bit (os_first (z_sets z ! s)) (unat v)"
      using new(1) assms(3) by (simp add: Get_small)
    have ok: "zone_ok z'" using extended_ok [OF assms(1,2) v no] new(2) by simp
    have "OutSet_Get z' k w \<longleftrightarrow> OutSet_Get z k w" if k: "k < length (z_sets z)" for k w
      using E(2,3) [OF k] zone_okD(1) [OF assms(1) k] new(2) by (simp add: OutSet_Get_def)
    then show ?thesis
      using ok or E(1,4) new(2,3) by simp
  qed
qed

text \<open>The zone of a new dispatch table: the empty set, without successors.\<close>

definition empty_zone :: Zone where
  "empty_zone = \<lparr>z_sets = [\<lparr>os_first = 0, os_remaining = None, os_successors = None\<rparr>], z_lists = []\<rparr>"

theorem extend_small_values_witness:
  "\<forall>w. OutSet_Get (fst (OutSet_Extend empty_zone 0 5)) (snd (OutSet_Extend empty_zone 0 5)) w
    \<longleftrightarrow> w = 5"
proof -
  have ok: "zone_ok empty_zone" by (simp add: zone_ok_def empty_zone_def)
  have z: "0 < length (z_sets empty_zone)" "(5::uint32) < kFirstLimit"
    by (simp_all add: empty_zone_def kFirstLimit_def)
  have "\<not> OutSet_Get empty_zone 0 w" for w
    by (simp add: OutSet_Get_def empty_zone_def)
  with extend_small_values [OF ok z, of "fst (OutSet_Extend empty_zone 0 5)"
      "snd (OutSet_Extend empty_zone 0 5)"]
  show ?thesis by simp
qed


end
