(* ===== verification/UnicodeLookup.thy ===== *)
theory UnicodeLookup
  imports V8Prelude
begin

text \<open>
  The search in the generated character tables of src/src/unicode.cc, \<open>LookupPredicate\<close>, and the
  cache in front of it, \<open>Predicate\<close> of src/src/unicode.h and src/src/unicode-inl.h. A table is a list
  of entries, a code point a natural number below $2^{32}$. The search decides membership
  in the ranges a table stands for, for every table that is strictly increasing and in which
  every start of a range is followed by its end.
\<close>

section \<open>Table entries\<close>

definition kStartBit :: int where "kStartBit = 2 ^ 30"
definition kChunkBits :: nat where "kChunkBits = 2 ^ 13"

text \<open>\<open>entry & (kStartBit - 1)\<close> and \<open>(entry & kStartBit) != 0\<close> on a non-negative entry.\<close>

definition GetEntry :: "int \<Rightarrow> nat" where
  "GetEntry entry = nat (entry mod kStartBit)"

definition IsStart :: "int \<Rightarrow> bool" where
  "IsStart entry \<longleftrightarrow> (entry div kStartBit) mod 2 \<noteq> 0"

section \<open>The search\<close>

text \<open>
  The \<open>while\<close> loop. \<open>None\<close> stands for the two ways it could go wrong: \<open>high\<close> falls below \<open>low\<close>, so
  that the unsigned difference wraps and the read is outside the table, or no branch applies
  and the loop repeats the same state for ever.
\<close>

function lookup_loop :: "int list \<Rightarrow> nat \<Rightarrow> nat \<Rightarrow> nat \<Rightarrow> nat \<Rightarrow> nat option" where
  "lookup_loop table sz value low high =
     (if high = low then Some low
      else if high < low then None
      else
        (let mid = low + (high - low) div 2; current_value = GetEntry (table ! mid) in
         if current_value \<le> value \<and> (mid + 1 = sz \<or> GetEntry (table ! (mid + 1)) > value)
         then Some mid
         else if current_value < value then lookup_loop table sz value (mid + 1) high
         else if current_value > value then
           (if mid = 0 then Some low else lookup_loop table sz value low (mid - 1))
         else None))"
  by pat_completeness auto
termination
  by (relation "measure (\<lambda>(table, sz, value, low, high). high - low)") (simp_all, linarith+)

declare lookup_loop.simps [simp del]

definition LookupPredicate :: "int list \<Rightarrow> nat \<Rightarrow> nat \<Rightarrow> bool option" where
  "LookupPredicate table sz chr =
     (let value = chr mod kChunkBits in
      case lookup_loop table sz value 0 (sz - 1) of
        None \<Rightarrow> None
      | Some low \<Rightarrow>
          (let field = table ! low; entry = GetEntry field; is_start = IsStart field
           in Some (entry = value \<or> (entry < value \<and> is_start))))"

section \<open>The cache\<close>

text \<open>
  \<open>Predicate<T, size>\<close>: the code point of a cache entry is a bit field of 21 bits, so storing it
  truncates it. A fresh entry holds code point 0 with the value false.
\<close>

record CacheEntry =
  ce_code_point :: nat
  ce_value :: bool

definition Predicate_new :: "nat \<Rightarrow> CacheEntry list" where
  "Predicate_new sz = replicate sz \<lparr>ce_code_point = 0, ce_value = False\<rparr>"

definition Predicate_get ::
  "(nat \<Rightarrow> bool) \<Rightarrow> CacheEntry list \<Rightarrow> nat \<Rightarrow> bool \<times> CacheEntry list" where
  "Predicate_get Is entries code_point =
     (let i = code_point mod length entries; entry = entries ! i in
      if ce_code_point entry = code_point then (ce_value entry, entries)
      else
        (let result = Is code_point
         in (result, entries[i := \<lparr>ce_code_point = code_point mod 2 ^ 21, ce_value = result\<rparr>])))"

section \<open>What a table stands for\<close>

fun ranges_of :: "int list \<Rightarrow> (nat \<times> nat) list" where
  "ranges_of [] = []"
| "ranges_of [x] = [(GetEntry x, GetEntry x)]"
| "ranges_of (x # y # xs) =
     (if IsStart x then (GetEntry x, GetEntry y) # ranges_of xs
      else (GetEntry x, GetEntry x) # ranges_of (y # xs))"

definition in_ranges :: "(nat \<times> nat) list \<Rightarrow> nat \<Rightarrow> bool" where
  "in_ranges rs v \<longleftrightarrow> (\<exists>(a, b) \<in> set rs. a \<le> v \<and> v \<le> b)"

text \<open>Strictly increasing, and a start is followed by an entry that is not a start.\<close>

fun table_ok :: "int list \<Rightarrow> bool" where
  "table_ok [] = True"
| "table_ok [x] = (\<not> IsStart x)"
| "table_ok (x # y # xs) =
     (GetEntry x < GetEntry y \<and> \<not> (IsStart x \<and> IsStart y) \<and> table_ok (y # xs))"

text \<open>The entry the search should find: the last one not above the value.\<close>

definition hit :: "int \<Rightarrow> nat \<Rightarrow> bool" where
  "hit x v \<longleftrightarrow> GetEntry x = v \<or> GetEntry x < v \<and> IsStart x"

lemma table_ok_step:
  "table_ok table \<Longrightarrow> i + 1 < length table \<Longrightarrow>
    GetEntry (table ! i) < GetEntry (table ! (i + 1)) \<and>
    \<not> (IsStart (table ! i) \<and> IsStart (table ! (i + 1)))"
proof (induction table arbitrary: i rule: table_ok.induct)
  case (3 x y xs)
  then show ?case by (cases i) auto
qed auto

lemma table_ok_last: "table_ok table \<Longrightarrow> table \<noteq> [] \<Longrightarrow> \<not> IsStart (last table)"
  by (induction table rule: table_ok.induct) auto

lemma table_ok_less:
  assumes "table_ok table" "j < length table" "i < j"
  shows "GetEntry (table ! i) < GetEntry (table ! j)"
  using assms(2,3)
proof (induction j)
  case (Suc j)
  have step: "GetEntry (table ! j) < GetEntry (table ! Suc j)"
    using table_ok_step [OF assms(1), of j] Suc.prems by simp
  show ?case
  proof (cases "i = j")
    case False
    with Suc have "GetEntry (table ! i) < GetEntry (table ! j)" by simp
    with step show ?thesis by simp
  qed (use step in simp)
qed simp

text \<open>Membership in the ranges, by the entry at the floor of the value.\<close>

lemma in_ranges_Cons: "in_ranges ((a, b) # rs) v \<longleftrightarrow> a \<le> v \<and> v \<le> b \<or> in_ranges rs v"
  by (auto simp: in_ranges_def)

lemma ranges_below:
  "table_ok table \<Longrightarrow> table \<noteq> [] \<Longrightarrow> v < GetEntry (hd table) \<Longrightarrow> \<not> in_ranges (ranges_of table) v"
proof (induction table rule: ranges_of.induct)
  case (3 x y xs)
  show ?case
  proof (cases "IsStart x")
    case True
    show ?thesis
    proof (cases xs)
      case Nil
      with True 3 show ?thesis by (simp add: in_ranges_def)
    next
      case (Cons z zs)
      with True 3 show ?thesis by (simp add: in_ranges_Cons)
    qed
  next
    case False
    with 3 show ?thesis by (simp add: in_ranges_Cons)
  qed
qed (auto simp: in_ranges_def)

lemma in_ranges_iff_floor:
  assumes "table_ok table" "i < length table" "GetEntry (table ! i) \<le> v"
    "i + 1 < length table \<Longrightarrow> v < GetEntry (table ! (i + 1))"
  shows "in_ranges (ranges_of table) v \<longleftrightarrow> hit (table ! i) v"
  using assms
proof (induction table arbitrary: i rule: ranges_of.induct)
  case (2 x)
  then show ?case by (auto simp: in_ranges_def hit_def)
next
  case (3 x y xs)
  note ok = "3.prems"(1)
  have ok': "table_ok (y # xs)" "table_ok xs" using ok by (cases xs; simp)+
  show ?case
  proof (cases "IsStart x")
    case True
    have ns: "\<not> IsStart y" using True ok by simp
    have below: "\<not> in_ranges (ranges_of xs) v" if "v < GetEntry (xs ! 0)" "xs \<noteq> []"
      using ranges_below [OF ok'(2) that(2)] that by (simp add: hd_conv_nth)
    consider (0) "i = 0" | (1) "i = 1" | (2) k where "i = Suc (Suc k)"
      by (cases i rule: nat.exhaust) (metis One_nat_def nat.exhaust)+
    then show ?thesis
    proof cases
      case 0
      with True "3.prems" show ?thesis by (auto simp: in_ranges_Cons hit_def)
    next
      case 1
      have "\<not> in_ranges (ranges_of xs) v"
        using below "3.prems"(4) 1 by (cases xs) (auto simp: in_ranges_def)
      with 1 True ns "3.prems" show ?thesis by (auto simp: in_ranges_Cons hit_def)
    next
      case (2 k)
      have "GetEntry y < GetEntry (xs ! k)"
        using table_ok_less [OF ok'(1), of "Suc k" 0] "3.prems"(2) 2 by simp
      with True 2 "3.IH"(1) [OF True ok'(2), of k] "3.prems"(2-4) show ?thesis
        by (simp add: in_ranges_Cons)
    qed
  next
    case False
    show ?thesis
    proof (cases i)
      case 0
      with False "3.prems" ranges_below [OF ok'(1)] show ?thesis
        by (auto simp: in_ranges_Cons hit_def)
    next
      case (Suc k)
      have "GetEntry x < GetEntry ((y # xs) ! k)"
        using table_ok_less [OF ok, of "Suc k" 0] "3.prems"(2) Suc by simp
      with False Suc "3.IH"(2) [OF False ok'(1), of k] "3.prems"(2-4) show ?thesis
        by (simp add: in_ranges_Cons)
    qed
  qed
qed simp

text \<open>A value below every entry: the search ends at the first entry, which is no hit.\<close>

lemma no_hit_below: "v < GetEntry x \<Longrightarrow> \<not> hit x v"
  by (simp add: hit_def)

text \<open>
  The loop keeps the floor of the value between \<open>low\<close> and \<open>high\<close>, so that the difference
  of the two never wraps.
\<close>

lemma lookup_loop_floor:
  assumes ok: "table_ok table" and len: "length table = sz"
    and "low \<le> high" "high < sz"
    and "0 < low \<longrightarrow> GetEntry (table ! low) \<le> value"
    and "high + 1 < sz \<longrightarrow> value < GetEntry (table ! (high + 1))"
  shows "\<exists>i < sz. lookup_loop table sz value low high = Some i \<and>
    (GetEntry (table ! i) \<le> value \<and> (i + 1 < sz \<longrightarrow> value < GetEntry (table ! (i + 1))) \<or>
     i = 0 \<and> value < GetEntry (table ! 0))"
  using assms(3-)
proof (induction "high - low" arbitrary: low high rule: less_induct)
  case less
  show ?case
  proof (cases "high = low")
    case True
    then have "lookup_loop table sz value low high = Some low"
      by (simp add: lookup_loop.simps)
    moreover have "GetEntry (table ! low) \<le> value \<or> low = 0 \<and> value < GetEntry (table ! 0)"
      using less.prems(3) by (cases "low = 0") auto
    ultimately show ?thesis
      using less.prems(2,4) True by (intro exI [of _ low]) auto
  next
    case False
    define mid where "mid = low + (high - low) div 2"
    let ?cur = "GetEntry (table ! mid)"
    have lh: "low < high" using False less.prems(1) by simp
    then have mid: "low \<le> mid" "mid < high" unfolding mid_def by linarith+
    then have mid1: "mid + 1 < sz" using less.prems(2) by simp
    have step: "?cur < GetEntry (table ! (mid + 1))"
      using table_ok_step [OF ok, of mid] mid1 len by simp
    have eq: "lookup_loop table sz value low high =
      (if ?cur \<le> value \<and> GetEntry (table ! (mid + 1)) > value then Some mid
       else if ?cur < value then lookup_loop table sz value (mid + 1) high
       else if ?cur > value then
         (if mid = 0 then Some low else lookup_loop table sz value low (mid - 1))
       else None)"
      using lh mid1 by (subst lookup_loop.simps) (simp add: Let_def flip: mid_def)
    consider (here) "?cur \<le> value" "value < GetEntry (table ! (mid + 1))"
      | (right) "GetEntry (table ! (mid + 1)) \<le> value" | (left) "value < ?cur" by linarith
    then show ?thesis
    proof cases
      case here
      with eq mid mid1 show ?thesis by (intro exI [of _ mid]) simp
    next
      case right
      then have "lookup_loop table sz value low high = lookup_loop table sz value (mid + 1) high"
        using eq step by simp
      moreover have "\<exists>i < sz. lookup_loop table sz value (mid + 1) high = Some i \<and>
        (GetEntry (table ! i) \<le> value \<and> (i + 1 < sz \<longrightarrow> value < GetEntry (table ! (i + 1))) \<or>
         i = 0 \<and> value < GetEntry (table ! 0))"
        using right mid mid1 lh less.prems(2,4) by (intro less.hyps) auto
      ultimately show ?thesis by simp
    next
      case left
      show ?thesis
      proof (cases "mid = 0")
        case True
        with left eq mid mid1 show ?thesis by (intro exI [of _ 0]) auto
      next
        case False
        have "low < mid"
        proof (rule ccontr)
          assume "\<not> low < mid"
          with mid(1) have "mid = low" by simp
          with False left less.prems(3) show False by simp
        qed
        have "lookup_loop table sz value low high = lookup_loop table sz value low (mid - 1)"
          using eq left False by simp
        moreover have "\<exists>i < sz. lookup_loop table sz value low (mid - 1) = Some i \<and>
          (GetEntry (table ! i) \<le> value \<and> (i + 1 < sz \<longrightarrow> value < GetEntry (table ! (i + 1))) \<or>
           i = 0 \<and> value < GetEntry (table ! 0))"
          using left mid mid1 \<open>low < mid\<close> less.prems(2,3) by (intro less.hyps) auto
        ultimately show ?thesis by simp
      qed
    qed
  qed
qed

lemma LookupPredicate_correct:
  assumes "table_ok table" "length table = sz" "0 < sz"
  shows "LookupPredicate table sz chr = Some (in_ranges (ranges_of table) (chr mod kChunkBits))"
proof -
  let ?v = "chr mod kChunkBits"
  obtain i where i: "i < sz" "lookup_loop table sz ?v 0 (sz - 1) = Some i"
    "GetEntry (table ! i) \<le> ?v \<and> (i + 1 < sz \<longrightarrow> ?v < GetEntry (table ! (i + 1))) \<or>
     i = 0 \<and> ?v < GetEntry (table ! 0)"
    using lookup_loop_floor [OF assms(1,2), of 0 "sz - 1" ?v] assms(3) by auto
  have "in_ranges (ranges_of table) ?v \<longleftrightarrow> hit (table ! i) ?v"
    using i(3)
  proof
    assume "GetEntry (table ! i) \<le> ?v \<and> (i + 1 < sz \<longrightarrow> ?v < GetEntry (table ! (i + 1)))"
    then show ?thesis using in_ranges_iff_floor [OF assms(1)] i(1) assms(2) by simp
  next
    assume low: "i = 0 \<and> ?v < GetEntry (table ! 0)"
    have "table \<noteq> []" using assms by auto
    with low ranges_below [OF assms(1) this, of ?v] no_hit_below [of ?v "table ! 0"]
    show ?thesis by (simp add: hd_conv_nth)
  qed
  then show ?thesis
    using i(2) by (simp add: LookupPredicate_def Let_def hit_def)
qed

end
