(* ===== verification/UnicodeTables.thy ===== *)
theory UnicodeTables
  imports UnicodeLookup
begin

text \<open>
  The character tables of src/src/unicode.cc, as they are there, and the predicates that search
  them: \<open>Uppercase\<close>, \<open>Lowercase\<close>, \<open>Letter\<close>, \<open>Space\<close>, \<open>Number\<close>, \<open>WhiteSpace\<close>, \<open>LineTerminator\<close>,
  \<open>CombiningMark\<close> and \<open>ConnectorPunctuation\<close>. Each is shown to decide membership in the
  ranges its tables stand for, so the search never leaves a table.
\<close>

section \<open>Tables and predicates\<close>

definition kUppercaseTable0 :: "int list" where
  "kUppercaseTable0 = [
   1073741889, 90, 1073742016, 214, 1073742040, 222, 256, 258, 260, 262, 264, 266, 268, 270, 272,
   274, 276, 278, 280, 282, 284, 286, 288, 290, 292, 294, 296, 298, 300, 302, 304, 306, 308, 310,
   313, 315, 317, 319, 321, 323, 325, 327, 330, 332, 334, 336, 338, 340, 342, 344, 346, 348, 350,
   352, 354, 356, 358, 360, 362, 364, 366, 368, 370, 372, 374, 1073742200, 377, 379, 381,
   1073742209, 386, 388, 1073742214, 391, 1073742217, 395, 1073742222, 401, 1073742227, 404,
   1073742230, 408, 1073742236, 413, 1073742239, 416, 418, 420, 1073742246, 423, 425, 428,
   1073742254, 431, 1073742257, 435, 437, 1073742263, 440, 444, 452, 455, 458, 461, 463, 465,
   467, 469, 471, 473, 475, 478, 480, 482, 484, 486, 488, 490, 492, 494, 497, 500, 1073742326,
   504, 506, 508, 510, 512, 514, 516, 518, 520, 522, 524, 526, 528, 530, 532, 534, 536, 538, 540,
   542, 544, 546, 548, 550, 552, 554, 556, 558, 560, 562, 1073742394, 571, 1073742397, 574, 577,
   1073742403, 582, 584, 586, 588, 590, 902, 1073742728, 906, 908, 1073742734, 911, 1073742737,
   929, 1073742755, 939, 1073742802, 980, 984, 986, 988, 990, 992, 994, 996, 998, 1000, 1002,
   1004, 1006, 1012, 1015, 1073742841, 1018, 1073742845, 1071, 1120, 1122, 1124, 1126, 1128,
   1130, 1132, 1134, 1136, 1138, 1140, 1142, 1144, 1146, 1148, 1150, 1152, 1162, 1164, 1166,
   1168, 1170, 1172, 1174, 1176, 1178, 1180, 1182, 1184, 1186, 1188, 1190, 1192, 1194, 1196,
   1198, 1200, 1202, 1204, 1206, 1208, 1210, 1212, 1214, 1073743040, 1217, 1219, 1221, 1223,
   1225, 1227, 1229, 1232, 1234, 1236, 1238, 1240, 1242, 1244, 1246, 1248, 1250, 1252, 1254,
   1256, 1258, 1260, 1262, 1264, 1266, 1268, 1270, 1272, 1274, 1276, 1278, 1280, 1282, 1284,
   1286, 1288, 1290, 1292, 1294, 1296, 1298, 1073743153, 1366, 1073746080, 4293, 7680, 7682,
   7684, 7686, 7688, 7690, 7692, 7694, 7696, 7698, 7700, 7702, 7704, 7706, 7708, 7710, 7712,
   7714, 7716, 7718, 7720, 7722, 7724, 7726, 7728, 7730, 7732, 7734, 7736, 7738, 7740, 7742,
   7744, 7746, 7748, 7750, 7752, 7754, 7756, 7758, 7760, 7762, 7764, 7766, 7768, 7770, 7772,
   7774, 7776, 7778, 7780, 7782, 7784, 7786, 7788, 7790, 7792, 7794, 7796, 7798, 7800, 7802,
   7804, 7806, 7808, 7810, 7812, 7814, 7816, 7818, 7820, 7822, 7824, 7826, 7828, 7840, 7842,
   7844, 7846, 7848, 7850, 7852, 7854, 7856, 7858, 7860, 7862, 7864, 7866, 7868, 7870, 7872,
   7874, 7876, 7878, 7880, 7882, 7884, 7886, 7888, 7890, 7892, 7894, 7896, 7898, 7900, 7902,
   7904, 7906, 7908, 7910, 7912, 7914, 7916, 7918, 7920, 7922, 7924, 7926, 7928, 1073749768,
   7951, 1073749784, 7965, 1073749800, 7983, 1073749816, 7999, 1073749832, 8013, 8025, 8027,
   8029, 8031, 1073749864, 8047, 1073749944, 8123, 1073749960, 8139, 1073749976, 8155,
   1073749992, 8172, 1073750008, 8187]"

definition kUppercaseTable1 :: "int list" where
  "kUppercaseTable1 = [
   258, 263, 1073742091, 269, 1073742096, 274, 277, 1073742105, 285, 292, 294, 296, 1073742122,
   301, 1073742128, 307, 1073742142, 319, 325, 387, 1073744896, 3118, 3168, 1073744994, 3172,
   3175, 3177, 3179, 3189, 3200, 3202, 3204, 3206, 3208, 3210, 3212, 3214, 3216, 3218, 3220,
   3222, 3224, 3226, 3228, 3230, 3232, 3234, 3236, 3238, 3240, 3242, 3244, 3246, 3248, 3250,
   3252, 3254, 3256, 3258, 3260, 3262, 3264, 3266, 3268, 3270, 3272, 3274, 3276, 3278, 3280,
   3282, 3284, 3286, 3288, 3290, 3292, 3294, 3296, 3298]"

definition kUppercaseTable7 :: "int list" where
  "kUppercaseTable7 = [
   1073749793, 7994]"

definition Uppercase_Is :: "nat \<Rightarrow> bool option" where
  "Uppercase_Is c =
     (let chunk_index = c div 8192 in
      if chunk_index = 0 then LookupPredicate kUppercaseTable0 430 c
      else if chunk_index = 1 then LookupPredicate kUppercaseTable1 79 c
      else if chunk_index = 7 then LookupPredicate kUppercaseTable7 2 c
      else Some False)"

definition kLowercaseTable0 :: "int list" where
  "kLowercaseTable0 = [
   1073741921, 122, 170, 181, 186, 1073742047, 246, 1073742072, 255, 257, 259, 261, 263, 265,
   267, 269, 271, 273, 275, 277, 279, 281, 283, 285, 287, 289, 291, 293, 295, 297, 299, 301, 303,
   305, 307, 309, 1073742135, 312, 314, 316, 318, 320, 322, 324, 326, 1073742152, 329, 331, 333,
   335, 337, 339, 341, 343, 345, 347, 349, 351, 353, 355, 357, 359, 361, 363, 365, 367, 369, 371,
   373, 375, 378, 380, 1073742206, 384, 387, 389, 392, 1073742220, 397, 402, 405, 1073742233,
   411, 414, 417, 419, 421, 424, 1073742250, 427, 429, 432, 436, 438, 1073742265, 442,
   1073742269, 447, 454, 457, 460, 462, 464, 466, 468, 470, 472, 474, 1073742300, 477, 479, 481,
   483, 485, 487, 489, 491, 493, 1073742319, 496, 499, 501, 505, 507, 509, 511, 513, 515, 517,
   519, 521, 523, 525, 527, 529, 531, 533, 535, 537, 539, 541, 543, 545, 547, 549, 551, 553, 555,
   557, 559, 561, 1073742387, 569, 572, 1073742399, 576, 578, 583, 585, 587, 589, 1073742415,
   659, 1073742485, 687, 1073742715, 893, 912, 1073742764, 974, 1073742800, 977, 1073742805, 983,
   985, 987, 989, 991, 993, 995, 997, 999, 1001, 1003, 1005, 1073742831, 1011, 1013, 1016,
   1073742843, 1020, 1073742896, 1119, 1121, 1123, 1125, 1127, 1129, 1131, 1133, 1135, 1137,
   1139, 1141, 1143, 1145, 1147, 1149, 1151, 1153, 1163, 1165, 1167, 1169, 1171, 1173, 1175,
   1177, 1179, 1181, 1183, 1185, 1187, 1189, 1191, 1193, 1195, 1197, 1199, 1201, 1203, 1205,
   1207, 1209, 1211, 1213, 1215, 1218, 1220, 1222, 1224, 1226, 1228, 1073743054, 1231, 1233,
   1235, 1237, 1239, 1241, 1243, 1245, 1247, 1249, 1251, 1253, 1255, 1257, 1259, 1261, 1263,
   1265, 1267, 1269, 1271, 1273, 1275, 1277, 1279, 1281, 1283, 1285, 1287, 1289, 1291, 1293,
   1295, 1297, 1299, 1073743201, 1415, 1073749248, 7467, 1073749346, 7543, 1073749369, 7578,
   7681, 7683, 7685, 7687, 7689, 7691, 7693, 7695, 7697, 7699, 7701, 7703, 7705, 7707, 7709,
   7711, 7713, 7715, 7717, 7719, 7721, 7723, 7725, 7727, 7729, 7731, 7733, 7735, 7737, 7739,
   7741, 7743, 7745, 7747, 7749, 7751, 7753, 7755, 7757, 7759, 7761, 7763, 7765, 7767, 7769,
   7771, 7773, 7775, 7777, 7779, 7781, 7783, 7785, 7787, 7789, 7791, 7793, 7795, 7797, 7799,
   7801, 7803, 7805, 7807, 7809, 7811, 7813, 7815, 7817, 7819, 7821, 7823, 7825, 7827,
   1073749653, 7835, 7841, 7843, 7845, 7847, 7849, 7851, 7853, 7855, 7857, 7859, 7861, 7863,
   7865, 7867, 7869, 7871, 7873, 7875, 7877, 7879, 7881, 7883, 7885, 7887, 7889, 7891, 7893,
   7895, 7897, 7899, 7901, 7903, 7905, 7907, 7909, 7911, 7913, 7915, 7917, 7919, 7921, 7923,
   7925, 7927, 7929, 1073749760, 7943, 1073749776, 7957, 1073749792, 7975, 1073749808, 7991,
   1073749824, 8005, 1073749840, 8023, 1073749856, 8039, 1073749872, 8061, 1073749888, 8071,
   1073749904, 8087, 1073749920, 8103, 1073749936, 8116, 1073749942, 8119, 8126, 1073749954,
   8132, 1073749958, 8135, 1073749968, 8147, 1073749974, 8151, 1073749984, 8167, 1073750002,
   8180, 1073750006, 8183]"

definition kLowercaseTable1 :: "int list" where
  "kLowercaseTable1 = [
   113, 127, 266, 1073742094, 271, 275, 303, 308, 313, 1073742140, 317, 1073742150, 329, 334,
   388, 1073744944, 3166, 3169, 1073744997, 3174, 3176, 3178, 3180, 3188, 1073745014, 3191, 3201,
   3203, 3205, 3207, 3209, 3211, 3213, 3215, 3217, 3219, 3221, 3223, 3225, 3227, 3229, 3231,
   3233, 3235, 3237, 3239, 3241, 3243, 3245, 3247, 3249, 3251, 3253, 3255, 3257, 3259, 3261,
   3263, 3265, 3267, 3269, 3271, 3273, 3275, 3277, 3279, 3281, 3283, 3285, 3287, 3289, 3291,
   3293, 3295, 3297, 1073745123, 3300, 1073745152, 3365]"

definition kLowercaseTable7 :: "int list" where
  "kLowercaseTable7 = [
   1073748736, 6918, 1073748755, 6935, 1073749825, 8026]"

definition Lowercase_Is :: "nat \<Rightarrow> bool option" where
  "Lowercase_Is c =
     (let chunk_index = c div 8192 in
      if chunk_index = 0 then LookupPredicate kLowercaseTable0 449 c
      else if chunk_index = 1 then LookupPredicate kLowercaseTable1 79 c
      else if chunk_index = 7 then LookupPredicate kLowercaseTable7 6 c
      else Some False)"

definition kLetterTable0 :: "int list" where
  "kLetterTable0 = [
   1073741889, 90, 1073741921, 122, 170, 181, 186, 1073742016, 214, 1073742040, 246, 1073742072,
   705, 1073742534, 721, 1073742560, 740, 750, 1073742714, 893, 902, 1073742728, 906, 908,
   1073742734, 929, 1073742755, 974, 1073742800, 1013, 1073742839, 1153, 1073742986, 1299,
   1073743153, 1366, 1369, 1073743201, 1415, 1073743312, 1514, 1073743344, 1522, 1073743393,
   1594, 1073743424, 1610, 1073743470, 1647, 1073743473, 1747, 1749, 1073743589, 1766,
   1073743598, 1775, 1073743610, 1788, 1791, 1808, 1073743634, 1839, 1073743693, 1901,
   1073743744, 1957, 1969, 1073743818, 2026, 1073743860, 2037, 2042, 1073744132, 2361, 2365,
   2384, 1073744216, 2401, 1073744251, 2431, 1073744261, 2444, 1073744271, 2448, 1073744275,
   2472, 1073744298, 2480, 2482, 1073744310, 2489, 2493, 2510, 1073744348, 2525, 1073744351,
   2529, 1073744368, 2545, 1073744389, 2570, 1073744399, 2576, 1073744403, 2600, 1073744426,
   2608, 1073744434, 2611, 1073744437, 2614, 1073744440, 2617, 1073744473, 2652, 2654,
   1073744498, 2676, 1073744517, 2701, 1073744527, 2705, 1073744531, 2728, 1073744554, 2736,
   1073744562, 2739, 1073744565, 2745, 2749, 2768, 1073744608, 2785, 1073744645, 2828,
   1073744655, 2832, 1073744659, 2856, 1073744682, 2864, 1073744690, 2867, 1073744693, 2873,
   2877, 1073744732, 2909, 1073744735, 2913, 2929, 2947, 1073744773, 2954, 1073744782, 2960,
   1073744786, 2965, 1073744793, 2970, 2972, 1073744798, 2975, 1073744803, 2980, 1073744808,
   2986, 1073744814, 3001, 1073744901, 3084, 1073744910, 3088, 1073744914, 3112, 1073744938,
   3123, 1073744949, 3129, 1073744992, 3169, 1073745029, 3212, 1073745038, 3216, 1073745042,
   3240, 1073745066, 3251, 1073745077, 3257, 3261, 3294, 1073745120, 3297, 1073745157, 3340,
   1073745166, 3344, 1073745170, 3368, 1073745194, 3385, 1073745248, 3425, 1073745285, 3478,
   1073745306, 3505, 1073745331, 3515, 3517, 1073745344, 3526, 1073745409, 3632, 1073745458,
   3635, 1073745472, 3654, 1073745537, 3714, 3716, 1073745543, 3720, 3722, 3725, 1073745556,
   3735, 1073745561, 3743, 1073745569, 3747, 3749, 3751, 1073745578, 3755, 1073745581, 3760,
   1073745586, 3763, 3773, 1073745600, 3780, 3782, 1073745628, 3805, 3840, 1073745728, 3911,
   1073745737, 3946, 1073745800, 3979, 1073745920, 4129, 1073745955, 4135, 1073745961, 4138,
   1073746000, 4181, 1073746080, 4293, 1073746128, 4346, 4348, 1073746176, 4441, 1073746271,
   4514, 1073746344, 4601, 1073746432, 4680, 1073746506, 4685, 1073746512, 4694, 4696,
   1073746522, 4701, 1073746528, 4744, 1073746570, 4749, 1073746576, 4784, 1073746610, 4789,
   1073746616, 4798, 4800, 1073746626, 4805, 1073746632, 4822, 1073746648, 4880, 1073746706,
   4885, 1073746712, 4954, 1073746816, 5007, 1073746848, 5108, 1073746945, 5740, 1073747567,
   5750, 1073747585, 5786, 1073747616, 5866, 1073747694, 5872, 1073747712, 5900, 1073747726,
   5905, 1073747744, 5937, 1073747776, 5969, 1073747808, 5996, 1073747822, 6000, 1073747840,
   6067, 6103, 6108, 1073748000, 6263, 1073748096, 6312, 1073748224, 6428, 1073748304, 6509,
   1073748336, 6516, 1073748352, 6569, 1073748417, 6599, 1073748480, 6678, 1073748741, 6963,
   1073748805, 6987, 1073749248, 7615, 1073749504, 7835, 1073749664, 7929, 1073749760, 7957,
   1073749784, 7965, 1073749792, 8005, 1073749832, 8013, 1073749840, 8023, 8025, 8027, 8029,
   1073749855, 8061, 1073749888, 8116, 1073749942, 8124, 8126, 1073749954, 8132, 1073749958,
   8140, 1073749968, 8147, 1073749974, 8155, 1073749984, 8172, 1073750002, 8180, 1073750006, 8188]"

definition kLetterTable1 :: "int list" where
  "kLetterTable1 = [
   113, 127, 1073741968, 148, 258, 263, 1073742090, 275, 277, 1073742105, 285, 292, 294, 296,
   1073742122, 301, 1073742127, 313, 1073742140, 319, 1073742149, 329, 334, 1073742176, 388,
   1073744896, 3118, 1073744944, 3166, 1073744992, 3180, 1073745012, 3191, 1073745024, 3300,
   1073745152, 3365, 1073745200, 3429, 3439, 1073745280, 3478, 1073745312, 3494, 1073745320,
   3502, 1073745328, 3510, 1073745336, 3518, 1073745344, 3526, 1073745352, 3534, 1073745360,
   3542, 1073745368, 3550, 1073745925, 4103, 1073745953, 4137, 1073745969, 4149, 1073745976,
   4156, 1073745985, 4246, 1073746077, 4255, 1073746081, 4346, 1073746172, 4351, 1073746181,
   4396, 1073746225, 4494, 1073746336, 4535, 1073746416, 4607, 1073746944, 8191]"

definition kLetterTable2 :: "int list" where
  "kLetterTable2 = [
   1073741824, 3509, 1073745408, 8191]"

definition kLetterTable3 :: "int list" where
  "kLetterTable3 = [
   1073741824, 8191]"

definition kLetterTable4 :: "int list" where
  "kLetterTable4 = [
   1073741824, 8123]"

definition kLetterTable5 :: "int list" where
  "kLetterTable5 = [
   1073741824, 1164, 1073743639, 1818, 1073743872, 2049, 1073743875, 2053, 1073743879, 2058,
   1073743884, 2082, 1073743936, 2163, 1073744896, 8191]"

definition kLetterTable6 :: "int list" where
  "kLetterTable6 = [
   1073741824, 6051]"

definition kLetterTable7 :: "int list" where
  "kLetterTable7 = [
   1073748224, 6701, 1073748528, 6762, 1073748592, 6873, 1073748736, 6918, 1073748755, 6935,
   6941, 1073748767, 6952, 1073748778, 6966, 1073748792, 6972, 6974, 1073748800, 6977,
   1073748803, 6980, 1073748806, 7089, 1073748947, 7485, 1073749328, 7567, 1073749394, 7623,
   1073749488, 7675, 1073749616, 7796, 1073749622, 7932, 1073749793, 7994, 1073749825, 8026,
   1073749862, 8126, 1073749954, 8135, 1073749962, 8143, 1073749970, 8151, 1073749978, 8156]"

definition Letter_Is :: "nat \<Rightarrow> bool option" where
  "Letter_Is c =
     (let chunk_index = c div 8192 in
      if chunk_index = 0 then LookupPredicate kLetterTable0 394 c
      else if chunk_index = 1 then LookupPredicate kLetterTable1 84 c
      else if chunk_index = 2 then LookupPredicate kLetterTable2 4 c
      else if chunk_index = 3 then LookupPredicate kLetterTable3 2 c
      else if chunk_index = 4 then LookupPredicate kLetterTable4 2 c
      else if chunk_index = 5 then LookupPredicate kLetterTable5 16 c
      else if chunk_index = 6 then LookupPredicate kLetterTable6 2 c
      else if chunk_index = 7 then LookupPredicate kLetterTable7 50 c
      else Some False)"

definition kSpaceTable0 :: "int list" where
  "kSpaceTable0 = [
   32, 160, 5760, 6158]"

definition kSpaceTable1 :: "int list" where
  "kSpaceTable1 = [
   1073741824, 10, 47, 95, 4096]"

definition Space_Is :: "nat \<Rightarrow> bool option" where
  "Space_Is c =
     (let chunk_index = c div 8192 in
      if chunk_index = 0 then LookupPredicate kSpaceTable0 4 c
      else if chunk_index = 1 then LookupPredicate kSpaceTable1 5 c
      else Some False)"

definition kNumberTable0 :: "int list" where
  "kNumberTable0 = [
   1073741872, 57, 1073743456, 1641, 1073743600, 1785, 1073743808, 1993, 1073744230, 2415,
   1073744358, 2543, 1073744486, 2671, 1073744614, 2799, 1073744742, 2927, 1073744870, 3055,
   1073744998, 3183, 1073745126, 3311, 1073745254, 3439, 1073745488, 3673, 1073745616, 3801,
   1073745696, 3881, 1073745984, 4169, 1073747936, 6121, 1073747984, 6169, 1073748294, 6479,
   1073748432, 6617, 1073748816, 7001]"

definition kNumberTable7 :: "int list" where
  "kNumberTable7 = [
   1073749776, 7961]"

definition Number_Is :: "nat \<Rightarrow> bool option" where
  "Number_Is c =
     (let chunk_index = c div 8192 in
      if chunk_index = 0 then LookupPredicate kNumberTable0 44 c
      else if chunk_index = 7 then LookupPredicate kNumberTable7 2 c
      else Some False)"

definition kWhiteSpaceTable0 :: "int list" where
  "kWhiteSpaceTable0 = [
   1073741833, 13, 32, 133, 160, 5760, 6158]"

definition kWhiteSpaceTable1 :: "int list" where
  "kWhiteSpaceTable1 = [
   1073741824, 10, 1073741864, 41, 47, 95, 4096]"

definition WhiteSpace_Is :: "nat \<Rightarrow> bool option" where
  "WhiteSpace_Is c =
     (let chunk_index = c div 8192 in
      if chunk_index = 0 then LookupPredicate kWhiteSpaceTable0 7 c
      else if chunk_index = 1 then LookupPredicate kWhiteSpaceTable1 7 c
      else Some False)"

definition kLineTerminatorTable0 :: "int list" where
  "kLineTerminatorTable0 = [
   10, 13]"

definition kLineTerminatorTable1 :: "int list" where
  "kLineTerminatorTable1 = [
   1073741864, 41]"

definition LineTerminator_Is :: "nat \<Rightarrow> bool option" where
  "LineTerminator_Is c =
     (let chunk_index = c div 8192 in
      if chunk_index = 0 then LookupPredicate kLineTerminatorTable0 2 c
      else if chunk_index = 1 then LookupPredicate kLineTerminatorTable1 2 c
      else Some False)"

definition kCombiningMarkTable0 :: "int list" where
  "kCombiningMarkTable0 = [
   1073742592, 879, 1073742979, 1158, 1073743249, 1469, 1471, 1073743297, 1474, 1073743300, 1477,
   1479, 1073743376, 1557, 1073743435, 1630, 1648, 1073743574, 1756, 1073743583, 1764,
   1073743591, 1768, 1073743594, 1773, 1809, 1073743664, 1866, 1073743782, 1968, 1073743851,
   2035, 1073744129, 2307, 2364, 1073744190, 2381, 1073744209, 2388, 1073744226, 2403,
   1073744257, 2435, 2492, 1073744318, 2500, 1073744327, 2504, 1073744331, 2509, 2519,
   1073744354, 2531, 1073744385, 2563, 2620, 1073744446, 2626, 1073744455, 2632, 1073744459,
   2637, 1073744496, 2673, 1073744513, 2691, 2748, 1073744574, 2757, 1073744583, 2761,
   1073744587, 2765, 1073744610, 2787, 1073744641, 2819, 2876, 1073744702, 2883, 1073744711,
   2888, 1073744715, 2893, 1073744726, 2903, 2946, 1073744830, 3010, 1073744838, 3016,
   1073744842, 3021, 3031, 1073744897, 3075, 1073744958, 3140, 1073744966, 3144, 1073744970,
   3149, 1073744981, 3158, 1073745026, 3203, 3260, 1073745086, 3268, 1073745094, 3272,
   1073745098, 3277, 1073745109, 3286, 1073745122, 3299, 1073745154, 3331, 1073745214, 3395,
   1073745222, 3400, 1073745226, 3405, 3415, 1073745282, 3459, 3530, 1073745359, 3540, 3542,
   1073745368, 3551, 1073745394, 3571, 3633, 1073745460, 3642, 1073745479, 3662, 3761,
   1073745588, 3769, 1073745595, 3772, 1073745608, 3789, 1073745688, 3865, 3893, 3895, 3897,
   1073745726, 3903, 1073745777, 3972, 1073745798, 3975, 1073745808, 3991, 1073745817, 4028,
   4038, 1073745964, 4146, 1073745974, 4153, 1073746006, 4185, 4959, 1073747730, 5908,
   1073747762, 5940, 1073747794, 5971, 1073747826, 6003, 1073747894, 6099, 6109, 1073747979,
   6157, 6313, 1073748256, 6443, 1073748272, 6459, 1073748400, 6592, 1073748424, 6601,
   1073748503, 6683, 1073748736, 6916, 1073748788, 6980, 1073748843, 7027, 1073749440, 7626,
   1073749502, 7679]"

definition kCombiningMarkTable1 :: "int list" where
  "kCombiningMarkTable1 = [
   1073742032, 220, 225, 1073742053, 239, 1073745962, 4143, 1073746073, 4250]"

definition kCombiningMarkTable5 :: "int list" where
  "kCombiningMarkTable5 = [
   2050, 2054, 2059, 1073743907, 2087]"

definition kCombiningMarkTable7 :: "int list" where
  "kCombiningMarkTable7 = [
   6942, 1073749504, 7695, 1073749536, 7715]"

definition CombiningMark_Is :: "nat \<Rightarrow> bool option" where
  "CombiningMark_Is c =
     (let chunk_index = c div 8192 in
      if chunk_index = 0 then LookupPredicate kCombiningMarkTable0 205 c
      else if chunk_index = 1 then LookupPredicate kCombiningMarkTable1 9 c
      else if chunk_index = 5 then LookupPredicate kCombiningMarkTable5 5 c
      else if chunk_index = 7 then LookupPredicate kCombiningMarkTable7 5 c
      else Some False)"

definition kConnectorPunctuationTable0 :: "int list" where
  "kConnectorPunctuationTable0 = [
   95]"

definition kConnectorPunctuationTable1 :: "int list" where
  "kConnectorPunctuationTable1 = [
   1073741887, 64, 84]"

definition kConnectorPunctuationTable7 :: "int list" where
  "kConnectorPunctuationTable7 = [
   1073749555, 7732, 1073749581, 7759, 7999]"

definition ConnectorPunctuation_Is :: "nat \<Rightarrow> bool option" where
  "ConnectorPunctuation_Is c =
     (let chunk_index = c div 8192 in
      if chunk_index = 0 then LookupPredicate kConnectorPunctuationTable0 1 c
      else if chunk_index = 1 then LookupPredicate kConnectorPunctuationTable1 3 c
      else if chunk_index = 7 then LookupPredicate kConnectorPunctuationTable7 5 c
      else Some False)"

section \<open>The tables are well formed\<close>

lemma kUppercaseTable0_ok: "table_ok kUppercaseTable0" "length kUppercaseTable0 = 430"
  by (simp_all add: kUppercaseTable0_def GetEntry_def IsStart_def kStartBit_def)

lemma kUppercaseTable1_ok: "table_ok kUppercaseTable1" "length kUppercaseTable1 = 79"
  by (simp_all add: kUppercaseTable1_def GetEntry_def IsStart_def kStartBit_def)

lemma kUppercaseTable7_ok: "table_ok kUppercaseTable7" "length kUppercaseTable7 = 2"
  by (simp_all add: kUppercaseTable7_def GetEntry_def IsStart_def kStartBit_def)

lemma kLowercaseTable0_ok: "table_ok kLowercaseTable0" "length kLowercaseTable0 = 449"
  by (simp_all add: kLowercaseTable0_def GetEntry_def IsStart_def kStartBit_def)

lemma kLowercaseTable1_ok: "table_ok kLowercaseTable1" "length kLowercaseTable1 = 79"
  by (simp_all add: kLowercaseTable1_def GetEntry_def IsStart_def kStartBit_def)

lemma kLowercaseTable7_ok: "table_ok kLowercaseTable7" "length kLowercaseTable7 = 6"
  by (simp_all add: kLowercaseTable7_def GetEntry_def IsStart_def kStartBit_def)

lemma kLetterTable0_ok: "table_ok kLetterTable0" "length kLetterTable0 = 394"
  by (simp_all add: kLetterTable0_def GetEntry_def IsStart_def kStartBit_def)

lemma kLetterTable1_ok: "table_ok kLetterTable1" "length kLetterTable1 = 84"
  by (simp_all add: kLetterTable1_def GetEntry_def IsStart_def kStartBit_def)

lemma kLetterTable2_ok: "table_ok kLetterTable2" "length kLetterTable2 = 4"
  by (simp_all add: kLetterTable2_def GetEntry_def IsStart_def kStartBit_def)

lemma kLetterTable3_ok: "table_ok kLetterTable3" "length kLetterTable3 = 2"
  by (simp_all add: kLetterTable3_def GetEntry_def IsStart_def kStartBit_def)

lemma kLetterTable4_ok: "table_ok kLetterTable4" "length kLetterTable4 = 2"
  by (simp_all add: kLetterTable4_def GetEntry_def IsStart_def kStartBit_def)

lemma kLetterTable5_ok: "table_ok kLetterTable5" "length kLetterTable5 = 16"
  by (simp_all add: kLetterTable5_def GetEntry_def IsStart_def kStartBit_def)

lemma kLetterTable6_ok: "table_ok kLetterTable6" "length kLetterTable6 = 2"
  by (simp_all add: kLetterTable6_def GetEntry_def IsStart_def kStartBit_def)

lemma kLetterTable7_ok: "table_ok kLetterTable7" "length kLetterTable7 = 50"
  by (simp_all add: kLetterTable7_def GetEntry_def IsStart_def kStartBit_def)

lemma kSpaceTable0_ok: "table_ok kSpaceTable0" "length kSpaceTable0 = 4"
  by (simp_all add: kSpaceTable0_def GetEntry_def IsStart_def kStartBit_def)

lemma kSpaceTable1_ok: "table_ok kSpaceTable1" "length kSpaceTable1 = 5"
  by (simp_all add: kSpaceTable1_def GetEntry_def IsStart_def kStartBit_def)

lemma kNumberTable0_ok: "table_ok kNumberTable0" "length kNumberTable0 = 44"
  by (simp_all add: kNumberTable0_def GetEntry_def IsStart_def kStartBit_def)

lemma kNumberTable7_ok: "table_ok kNumberTable7" "length kNumberTable7 = 2"
  by (simp_all add: kNumberTable7_def GetEntry_def IsStart_def kStartBit_def)

lemma kWhiteSpaceTable0_ok: "table_ok kWhiteSpaceTable0" "length kWhiteSpaceTable0 = 7"
  by (simp_all add: kWhiteSpaceTable0_def GetEntry_def IsStart_def kStartBit_def)

lemma kWhiteSpaceTable1_ok: "table_ok kWhiteSpaceTable1" "length kWhiteSpaceTable1 = 7"
  by (simp_all add: kWhiteSpaceTable1_def GetEntry_def IsStart_def kStartBit_def)

lemma kLineTerminatorTable0_ok: "table_ok kLineTerminatorTable0" "length kLineTerminatorTable0 = 2"
  by (simp_all add: kLineTerminatorTable0_def GetEntry_def IsStart_def kStartBit_def)

lemma kLineTerminatorTable1_ok: "table_ok kLineTerminatorTable1" "length kLineTerminatorTable1 = 2"
  by (simp_all add: kLineTerminatorTable1_def GetEntry_def IsStart_def kStartBit_def)

lemma kCombiningMarkTable0_ok: "table_ok kCombiningMarkTable0" "length kCombiningMarkTable0 = 205"
  by (simp_all add: kCombiningMarkTable0_def GetEntry_def IsStart_def kStartBit_def)

lemma kCombiningMarkTable1_ok: "table_ok kCombiningMarkTable1" "length kCombiningMarkTable1 = 9"
  by (simp_all add: kCombiningMarkTable1_def GetEntry_def IsStart_def kStartBit_def)

lemma kCombiningMarkTable5_ok: "table_ok kCombiningMarkTable5" "length kCombiningMarkTable5 = 5"
  by (simp_all add: kCombiningMarkTable5_def GetEntry_def IsStart_def kStartBit_def)

lemma kCombiningMarkTable7_ok: "table_ok kCombiningMarkTable7" "length kCombiningMarkTable7 = 5"
  by (simp_all add: kCombiningMarkTable7_def GetEntry_def IsStart_def kStartBit_def)

lemma kConnectorPunctuationTable0_ok: "table_ok kConnectorPunctuationTable0" "length kConnectorPunctuationTable0 = 1"
  by (simp_all add: kConnectorPunctuationTable0_def GetEntry_def IsStart_def kStartBit_def)

lemma kConnectorPunctuationTable1_ok: "table_ok kConnectorPunctuationTable1" "length kConnectorPunctuationTable1 = 3"
  by (simp_all add: kConnectorPunctuationTable1_def GetEntry_def IsStart_def kStartBit_def)

lemma kConnectorPunctuationTable7_ok: "table_ok kConnectorPunctuationTable7" "length kConnectorPunctuationTable7 = 5"
  by (simp_all add: kConnectorPunctuationTable7_def GetEntry_def IsStart_def kStartBit_def)

lemmas tables_ok =
  kUppercaseTable0_ok
  kUppercaseTable1_ok
  kUppercaseTable7_ok
  kLowercaseTable0_ok
  kLowercaseTable1_ok
  kLowercaseTable7_ok
  kLetterTable0_ok
  kLetterTable1_ok
  kLetterTable2_ok
  kLetterTable3_ok
  kLetterTable4_ok
  kLetterTable5_ok
  kLetterTable6_ok
  kLetterTable7_ok
  kSpaceTable0_ok
  kSpaceTable1_ok
  kNumberTable0_ok
  kNumberTable7_ok
  kWhiteSpaceTable0_ok
  kWhiteSpaceTable1_ok
  kLineTerminatorTable0_ok
  kLineTerminatorTable1_ok
  kCombiningMarkTable0_ok
  kCombiningMarkTable1_ok
  kCombiningMarkTable5_ok
  kCombiningMarkTable7_ok
  kConnectorPunctuationTable0_ok
  kConnectorPunctuationTable1_ok
  kConnectorPunctuationTable7_ok

section \<open>The sets of characters\<close>

text \<open>The characters of a predicate: for each chunk of 8192 code points the ranges of its table.\<close>

definition in_chunks :: "(nat \<times> int list) list \<Rightarrow> nat \<Rightarrow> bool" where
  "in_chunks chunks c \<longleftrightarrow>
     (\<exists>(k, table) \<in> set chunks. c div kChunkBits = k \<and>
        in_ranges (ranges_of table) (c mod kChunkBits))"

lemma in_chunks_Cons:
  "in_chunks ((k, table) # chunks) c \<longleftrightarrow>
     c div kChunkBits = k \<and> in_ranges (ranges_of table) (c mod kChunkBits) \<or> in_chunks chunks c"
  by (auto simp: in_chunks_def)

lemma in_chunks_Nil [simp]: "\<not> in_chunks [] c"
  by (simp add: in_chunks_def)

lemmas chunk_simps = LookupPredicate_correct in_chunks_Cons kChunkBits_def Let_def

definition Uppercase_chunks :: "(nat \<times> int list) list" where
  "Uppercase_chunks = [(0, kUppercaseTable0), (1, kUppercaseTable1), (7, kUppercaseTable7)]"

definition Lowercase_chunks :: "(nat \<times> int list) list" where
  "Lowercase_chunks = [(0, kLowercaseTable0), (1, kLowercaseTable1), (7, kLowercaseTable7)]"

definition Letter_chunks :: "(nat \<times> int list) list" where
  "Letter_chunks = [(0, kLetterTable0), (1, kLetterTable1), (2, kLetterTable2), (3, kLetterTable3), (4, kLetterTable4), (5, kLetterTable5), (6, kLetterTable6), (7, kLetterTable7)]"

definition Space_chunks :: "(nat \<times> int list) list" where
  "Space_chunks = [(0, kSpaceTable0), (1, kSpaceTable1)]"

definition Number_chunks :: "(nat \<times> int list) list" where
  "Number_chunks = [(0, kNumberTable0), (7, kNumberTable7)]"

definition WhiteSpace_chunks :: "(nat \<times> int list) list" where
  "WhiteSpace_chunks = [(0, kWhiteSpaceTable0), (1, kWhiteSpaceTable1)]"

definition LineTerminator_chunks :: "(nat \<times> int list) list" where
  "LineTerminator_chunks = [(0, kLineTerminatorTable0), (1, kLineTerminatorTable1)]"

definition CombiningMark_chunks :: "(nat \<times> int list) list" where
  "CombiningMark_chunks = [(0, kCombiningMarkTable0), (1, kCombiningMarkTable1), (5, kCombiningMarkTable5), (7, kCombiningMarkTable7)]"

definition ConnectorPunctuation_chunks :: "(nat \<times> int list) list" where
  "ConnectorPunctuation_chunks = [(0, kConnectorPunctuationTable0), (1, kConnectorPunctuationTable1), (7, kConnectorPunctuationTable7)]"

lemma Uppercase_Is_correct: "Uppercase_Is c = Some (in_chunks Uppercase_chunks c)"
  by (auto simp: Uppercase_Is_def Uppercase_chunks_def chunk_simps kUppercaseTable0_ok kUppercaseTable1_ok kUppercaseTable7_ok)

lemma Lowercase_Is_correct: "Lowercase_Is c = Some (in_chunks Lowercase_chunks c)"
  by (auto simp: Lowercase_Is_def Lowercase_chunks_def chunk_simps kLowercaseTable0_ok kLowercaseTable1_ok kLowercaseTable7_ok)

lemma Letter_Is_correct: "Letter_Is c = Some (in_chunks Letter_chunks c)"
  by (auto simp: Letter_Is_def Letter_chunks_def chunk_simps kLetterTable0_ok kLetterTable1_ok kLetterTable2_ok kLetterTable3_ok kLetterTable4_ok kLetterTable5_ok kLetterTable6_ok kLetterTable7_ok)

lemma Space_Is_correct: "Space_Is c = Some (in_chunks Space_chunks c)"
  by (auto simp: Space_Is_def Space_chunks_def chunk_simps kSpaceTable0_ok kSpaceTable1_ok)

lemma Number_Is_correct: "Number_Is c = Some (in_chunks Number_chunks c)"
  by (auto simp: Number_Is_def Number_chunks_def chunk_simps kNumberTable0_ok kNumberTable7_ok)

lemma WhiteSpace_Is_correct: "WhiteSpace_Is c = Some (in_chunks WhiteSpace_chunks c)"
  by (auto simp: WhiteSpace_Is_def WhiteSpace_chunks_def chunk_simps kWhiteSpaceTable0_ok kWhiteSpaceTable1_ok)

lemma LineTerminator_Is_correct: "LineTerminator_Is c = Some (in_chunks LineTerminator_chunks c)"
  by (auto simp: LineTerminator_Is_def LineTerminator_chunks_def chunk_simps kLineTerminatorTable0_ok kLineTerminatorTable1_ok)

lemma CombiningMark_Is_correct: "CombiningMark_Is c = Some (in_chunks CombiningMark_chunks c)"
  by (auto simp: CombiningMark_Is_def CombiningMark_chunks_def chunk_simps kCombiningMarkTable0_ok kCombiningMarkTable1_ok kCombiningMarkTable5_ok kCombiningMarkTable7_ok)

lemma ConnectorPunctuation_Is_correct: "ConnectorPunctuation_Is c = Some (in_chunks ConnectorPunctuation_chunks c)"
  by (auto simp: ConnectorPunctuation_Is_def ConnectorPunctuation_chunks_def chunk_simps kConnectorPunctuationTable0_ok kConnectorPunctuationTable1_ok kConnectorPunctuationTable7_ok)

end
