(* ===== verification/CharPredicates.thy ===== *)
theory CharPredicates
  imports UnicodeTables
begin

text \<open>
  The character predicates the scanner uses: \<open>IdentifierStart\<close> and \<open>IdentifierPart\<close> of
  src/src/char-predicates.h, the ASCII predicates of src/src/char-predicates-inl.h, \<open>HexValue\<close> of
  src/src/scanner-base.h and the cached look-ups of \<open>ScannerConstants\<close>. A \<open>uc32\<close> is an
  integer; the end of the input is \<open>-1\<close>, which as an unsigned code point is $2^{32} - 1$.
\<close>

section \<open>Predicates on code points\<close>

definition uchar_of :: "int \<Rightarrow> nat" where
  "uchar_of c = nat (c mod 2 ^ 32)"

definition IdentifierStart_Is :: "int \<Rightarrow> bool" where
  "IdentifierStart_Is c =
     (if c = 36 \<or> c = 95 \<or> c = 92 then True else Letter_Is (uchar_of c) = Some True)"

definition IdentifierPart_Is :: "int \<Rightarrow> bool" where
  "IdentifierPart_Is c =
     (IdentifierStart_Is c \<or> Number_Is (uchar_of c) = Some True \<or>
      CombiningMark_Is (uchar_of c) = Some True \<or> ConnectorPunctuation_Is (uchar_of c) = Some True)"

definition IsLineTerminator :: "int \<Rightarrow> bool" where
  "IsLineTerminator c = (LineTerminator_Is (uchar_of c) = Some True)"

definition IsWhiteSpace :: "int \<Rightarrow> bool" where
  "IsWhiteSpace c = (WhiteSpace_Is (uchar_of c) = Some True)"

definition IsCarriageReturn :: "int \<Rightarrow> bool" where "IsCarriageReturn c = (c = 0x000D)"
definition IsLineFeed :: "int \<Rightarrow> bool" where "IsLineFeed c = (c = 0x000A)"

text \<open>The unsigned comparison of \<open>IsInRange\<close>.\<close>

definition IsInRange :: "int \<Rightarrow> int \<Rightarrow> int \<Rightarrow> bool" where
  "IsInRange v lower_limit higher_limit =
     ((v - lower_limit) mod 2 ^ 32 \<le> (higher_limit - lower_limit) mod 2 ^ 32)"

definition AsciiAlphaToLower :: "int \<Rightarrow> int" where
  "AsciiAlphaToLower c = c OR 0x20"

definition IsDecimalDigit :: "int \<Rightarrow> bool" where
  "IsDecimalDigit c = IsInRange c 48 57"

definition IsHexDigit :: "int \<Rightarrow> bool" where
  "IsHexDigit c = (IsDecimalDigit c \<or> IsInRange (AsciiAlphaToLower c) 97 102)"

definition IsByteOrderMark :: "int \<Rightarrow> bool" where
  "IsByteOrderMark c = (c = 0xFEFF \<or> c = 0xFFFE)"

definition HexValue :: "int \<Rightarrow> int" where
  "HexValue c0 =
     (let c = c0 - 48 in
      if c mod 2 ^ 32 \<le> 9 then c
      else
        (let c = (c OR 0x20) - (97 - 48) in
         if c mod 2 ^ 32 \<le> 5 then c + 10 else -1))"

section \<open>Their values\<close>

lemma IsDecimalDigit_iff:
  "-1 \<le> c \<Longrightarrow> c < 2 ^ 31 \<Longrightarrow> IsDecimalDigit c \<longleftrightarrow> 48 \<le> c \<and> c \<le> 57"
proof -
  assume c: "-1 \<le> c" "c < 2 ^ 31"
  show ?thesis
  proof (cases "48 \<le> c")
    case True
    then have "(c - 48) mod 2 ^ 32 = c - 48" using c by (intro mod_pos_pos_trivial) auto
    with True show ?thesis by (simp add: IsDecimalDigit_def IsInRange_def)
  next
    case False
    have "(c - 48) mod 2 ^ 32 = (c - 48 + 2 ^ 32) mod 2 ^ 32" by (simp only: mod_add_self2)
    also have "\<dots> = c - 48 + 2 ^ 32" using c False by (intro mod_pos_pos_trivial) simp_all
    finally have "(c - 48) mod 2 ^ 32 = c - 48 + 2 ^ 32" .
    with False c show ?thesis by (simp add: IsDecimalDigit_def IsInRange_def)
  qed
qed

lemma uchar_of_nonneg: "0 \<le> c \<Longrightarrow> c < 2 ^ 31 \<Longrightarrow> uchar_of c = nat c"
  by (simp add: uchar_of_def)

lemma uchar_of_eof [simp]: "uchar_of (-1) = 2 ^ 32 - 1"
  by (simp add: uchar_of_def)

lemma in_ranges_Nil [simp]: "\<not> in_ranges [] v"
  by (simp add: in_ranges_def)

text \<open>The ranges of a chunk as ranges of code points.\<close>

definition shift_ranges :: "nat \<Rightarrow> (nat \<times> nat) list \<Rightarrow> (nat \<times> nat) list" where
  "shift_ranges k rs = map (\<lambda>(a, b). (8192 * k + a, 8192 * k + b)) rs"

lemma chunk_range:
  assumes "b < 8192"
  shows "c div 8192 = k \<and> a \<le> c mod 8192 \<and> c mod 8192 \<le> b \<longleftrightarrow>
    8192 * k + a \<le> c \<and> c \<le> 8192 * k + (b::nat)"
proof
  assume "c div 8192 = k \<and> a \<le> c mod 8192 \<and> c mod 8192 \<le> b"
  then show "8192 * k + a \<le> c \<and> c \<le> 8192 * k + b"
    using div_mult_mod_eq [of c 8192] by linarith
next
  assume c: "8192 * k + a \<le> c \<and> c \<le> 8192 * k + b"
  then have "c div 8192 = k" using assms by (intro div_nat_eqI) simp_all
  with c show "c div 8192 = k \<and> a \<le> c mod 8192 \<and> c mod 8192 \<le> b"
    using div_mult_mod_eq [of c 8192] by linarith
qed

lemma in_chunk_shift:
  "\<forall>(a, b) \<in> set rs. b < 8192 \<Longrightarrow>
    c div 8192 = k \<and> in_ranges rs (c mod 8192) \<longleftrightarrow> in_ranges (shift_ranges k rs) c"
proof (induction rs)
  case (Cons x rs)
  obtain a b where x: "x = (a, b)" by (cases x)
  have "b < 8192" using Cons.prems x by simp
  note r = chunk_range [OF this, of c k a]
  have "c div 8192 = k \<and> in_ranges rs (c mod 8192) \<longleftrightarrow> in_ranges (shift_ranges k rs) c"
    using Cons by simp
  with r show ?case unfolding x shift_ranges_def list.map prod.case in_ranges_Cons by blast
qed (simp add: shift_ranges_def)

lemma LineTerminator_ranges:
  "ranges_of kLineTerminatorTable0 = [(10, 10), (13, 13)]"
  "ranges_of kLineTerminatorTable1 = [(40, 41)]"
  by (simp_all add: kLineTerminatorTable0_def kLineTerminatorTable1_def GetEntry_def
      IsStart_def kStartBit_def)

lemma WhiteSpace_ranges:
  "ranges_of kWhiteSpaceTable0 = [(9, 13), (32, 32), (133, 133), (160, 160), (5760, 5760), (6158, 6158)]"
  "ranges_of kWhiteSpaceTable1 = [(0, 10), (40, 41), (47, 47), (95, 95), (4096, 4096)]"
  by (simp_all add: kWhiteSpaceTable0_def kWhiteSpaceTable1_def GetEntry_def
      IsStart_def kStartBit_def)

lemma kChunkBits_eq: "kChunkBits = 8192"
  by (simp add: kChunkBits_def)

lemma LineTerminator_iff:
  "LineTerminator_Is c = Some (c = 10 \<or> c = 13 \<or> c = 8232 \<or> c = 8233)"
proof -
  have 0: "c div 8192 = 0 \<and> in_ranges [(10, 10), (13, 13)] (c mod 8192) \<longleftrightarrow> c = 10 \<or> c = 13"
    by (subst in_chunk_shift) (auto simp: shift_ranges_def in_ranges_Cons)
  have 1: "c div 8192 = 1 \<and> in_ranges [(40, 41)] (c mod 8192) \<longleftrightarrow> c = 8232 \<or> c = 8233"
    by (subst in_chunk_shift) (auto simp: shift_ranges_def in_ranges_Cons)
  show ?thesis
    unfolding LineTerminator_Is_correct LineTerminator_chunks_def in_chunks_Cons
      LineTerminator_ranges kChunkBits_eq 0 1
    by simp
qed

lemma WhiteSpace_iff:
  "WhiteSpace_Is c = Some (9 \<le> c \<and> c \<le> 13 \<or> c \<in> {32, 133, 160, 5760, 6158, 8232, 8233, 8239, 8287, 12288}
     \<or> 8192 \<le> c \<and> c \<le> 8202)"
proof -
  have 0: "c div 8192 = 0 \<and>
      in_ranges [(9, 13), (32, 32), (133, 133), (160, 160), (5760, 5760), (6158, 6158)] (c mod 8192) \<longleftrightarrow>
      9 \<le> c \<and> c \<le> 13 \<or> c = 32 \<or> c = 133 \<or> c = 160 \<or> c = 5760 \<or> c = 6158"
    by (subst in_chunk_shift) (auto simp: shift_ranges_def in_ranges_Cons)
  have 1: "c div 8192 = 1 \<and>
      in_ranges [(0, 10), (40, 41), (47, 47), (95, 95), (4096, 4096)] (c mod 8192) \<longleftrightarrow>
      8192 \<le> c \<and> c \<le> 8202 \<or> c = 8232 \<or> c = 8233 \<or> c = 8239 \<or> c = 8287 \<or> c = 12288"
    by (subst in_chunk_shift) (auto simp: shift_ranges_def in_ranges_Cons)
  show ?thesis
    unfolding WhiteSpace_Is_correct WhiteSpace_chunks_def in_chunks_Cons
      WhiteSpace_ranges kChunkBits_eq 0 1
    by (simp only: option.inject insert_iff empty_iff in_chunks_Nil) blast
qed

lemma uc32_cases:
  assumes "-1 \<le> c" "c < 2 ^ 31"
  obtains (eof) "c = -1" | (char) n where "c = int n" "uchar_of c = n"
proof (cases "c = -1")
  case False
  then have c: "0 \<le> c" using assms(1) by simp
  with char [of "nat c"] uchar_of_nonneg [OF c assms(2)] show thesis by simp
qed (rule eof)

lemma IsLineTerminator_iff:
  assumes "-1 \<le> c" "c < 2 ^ 31"
  shows "IsLineTerminator c \<longleftrightarrow> c \<in> {10, 13, 8232, 8233}"
  using assms by (cases rule: uc32_cases) (simp_all add: IsLineTerminator_def LineTerminator_iff)

lemma IsWhiteSpace_iff:
  assumes "-1 \<le> c" "c < 2 ^ 31"
  shows "IsWhiteSpace c \<longleftrightarrow>
     9 \<le> c \<and> c \<le> 13 \<or> c \<in> {32, 133, 160, 5760, 6158, 8232, 8233, 8239, 8287, 12288} \<or>
     8192 \<le> c \<and> c \<le> 8202"
  using assms by (cases rule: uc32_cases) (simp_all add: IsWhiteSpace_def WhiteSpace_iff disj_assoc)

lemma no_identifier_at_end [simp]:
  "\<not> IdentifierStart_Is (-1)" "\<not> IdentifierPart_Is (-1)"
  by (simp_all add: IdentifierStart_Is_def IdentifierPart_Is_def Letter_Is_def Number_Is_def
      CombiningMark_Is_def ConnectorPunctuation_Is_def Let_def)

section \<open>The cache in front of a predicate\<close>

fun Predicate_gets :: "(nat \<Rightarrow> bool) \<Rightarrow> CacheEntry list \<Rightarrow> nat list \<Rightarrow> bool list" where
  "Predicate_gets Is entries [] = []"
| "Predicate_gets Is entries (c # cs) =
     (let (r, entries') = Predicate_get Is entries c in r # Predicate_gets Is entries' cs)"

definition cache_ok :: "(nat \<Rightarrow> bool) \<Rightarrow> CacheEntry list \<Rightarrow> bool" where
  "cache_ok Is entries \<longleftrightarrow> (\<forall>e \<in> set entries. ce_value e = Is (ce_code_point e))"

lemma Predicate_get_ok:
  assumes "cache_ok Is entries" "entries \<noteq> []" "Is (c mod 2 ^ 21) = Is c"
  shows "fst (Predicate_get Is entries c) = Is c \<and> cache_ok Is (snd (Predicate_get Is entries c)) \<and>
    length (snd (Predicate_get Is entries c)) = length entries"
proof -
  let ?i = "c mod length entries"
  have i: "?i < length entries" using assms(2) by simp
  have v: "ce_value (entries ! ?i) = Is (ce_code_point (entries ! ?i))"
    using assms(1) i by (simp add: cache_ok_def)
  have "cache_ok Is (entries[?i := \<lparr>ce_code_point = c mod 2 ^ 21, ce_value = Is c\<rparr>])"
    using assms(1,3) set_update_subset_insert [of entries ?i] unfolding cache_ok_def by fastforce
  with v assms(1) show ?thesis by (simp add: Predicate_get_def Let_def)
qed

lemma Predicate_gets_ok:
  "cache_ok Is entries \<Longrightarrow> entries \<noteq> [] \<Longrightarrow> \<forall>c \<in> set cs. Is (c mod 2 ^ 21) = Is c \<Longrightarrow>
    Predicate_gets Is entries cs = map Is cs"
proof (induction cs arbitrary: entries)
  case (Cons c cs)
  have "Is (c mod 2 ^ 21) = Is c" using Cons.prems(3) by simp
  note g = Predicate_get_ok [OF Cons.prems(1,2) this]
  then have "snd (Predicate_get Is entries c) \<noteq> []" using Cons.prems(2) by force
  with g Cons show ?case by (simp add: case_prod_beta Let_def)
qed simp

section \<open>Properties\<close>

text \<open>
  C11. The table search is right. For every table that is strictly increasing and pairs each range
  start with an end, \<open>LookupPredicate\<close> ends without leaving the table and returns whether
  the low 13 bits of the code point lie in one of the ranges the table stands for.
\<close>

theorem lookup_predicate_decides:
  assumes "table_ok table" "length table = sz" "0 < sz"
  shows "LookupPredicate table sz c = Some (in_ranges (ranges_of table) (c mod kChunkBits))"
  by (rule LookupPredicate_correct [OF assms])

theorem lookup_predicate_decides_witness:
  "LookupPredicate kWhiteSpaceTable0 7 133 = Some True"
  using lookup_predicate_decides [OF kWhiteSpaceTable0_ok, of 133]
  by (simp add: WhiteSpace_ranges in_ranges_Cons kChunkBits_eq)

text \<open>
  C12. The generated predicates. Each of the nine character classes is decided, for every code point,
  by the ranges of its own tables; white space and line terminators are exactly the listed
  characters.
\<close>

theorem unicode_predicates_decide:
  "Uppercase_Is c = Some (in_chunks Uppercase_chunks c) \<and>
   Lowercase_Is c = Some (in_chunks Lowercase_chunks c) \<and>
   Letter_Is c = Some (in_chunks Letter_chunks c) \<and>
   Space_Is c = Some (in_chunks Space_chunks c) \<and>
   Number_Is c = Some (in_chunks Number_chunks c) \<and>
   CombiningMark_Is c = Some (in_chunks CombiningMark_chunks c) \<and>
   ConnectorPunctuation_Is c = Some (in_chunks ConnectorPunctuation_chunks c) \<and>
   LineTerminator_Is c = Some (c \<in> {10, 13, 8232, 8233}) \<and>
   WhiteSpace_Is c = Some (c \<in> {9..13} \<union> {8192..8202} \<union>
     {32, 133, 160, 5760, 6158, 8232, 8233, 8239, 8287, 12288})"
proof -
  have "WhiteSpace_Is c = Some (c \<in> {9..13} \<union> {8192..8202} \<union>
     {32, 133, 160, 5760, 6158, 8232, 8233, 8239, 8287, 12288})"
    unfolding WhiteSpace_iff by (simp only: Un_iff atLeastAtMost_iff) blast
  then show ?thesis
    by (simp add: Uppercase_Is_correct Lowercase_Is_correct Letter_Is_correct Space_Is_correct
        Number_Is_correct CombiningMark_Is_correct ConnectorPunctuation_Is_correct LineTerminator_iff)
qed

text \<open>
  C13. The cache is transparent. From a fresh cache, any sequence of look-ups of code
  points below $2^{21}$, and of the value the scanner passes at the end of input, gives the
  results of the predicate itself, if that is false for 0, for the end of input and for the code
  point its truncation collides with.
\<close>

theorem predicate_cache_transparent:
  assumes "\<not> Is 0" "\<not> Is (2 ^ 21 - 1)" "\<not> Is (2 ^ 32 - 1)" "0 < sz"
    "\<forall>c \<in> set cs. c < 2 ^ 21 \<or> c = 2 ^ 32 - 1"
  shows "Predicate_gets Is (Predicate_new sz) cs = map Is cs"
proof (rule Predicate_gets_ok)
  show "cache_ok Is (Predicate_new sz)"
    using assms(1) by (simp add: cache_ok_def Predicate_new_def)
  show "Predicate_new sz \<noteq> []" using assms(4) by (simp add: Predicate_new_def)
  show "\<forall>c \<in> set cs. Is (c mod 2 ^ 21) = Is c"
  proof
    fix c
    assume "c \<in> set cs"
    with assms(5) have "c < 2 ^ 21 \<or> c = 2 ^ 32 - 1" by blast
    then show "Is (c mod 2 ^ 21) = Is c"
    proof
      assume "c = 2 ^ 32 - 1"
      then have "c mod 2 ^ 21 = 2 ^ 21 - 1" by simp
      with \<open>c = 2 ^ 32 - 1\<close> assms(2,3) show ?thesis by metis
    qed simp
  qed
qed

theorem predicate_cache_transparent_witness:
  "Predicate_gets (\<lambda>c. WhiteSpace_Is c = Some True) (Predicate_new 128) [32, 160, 2 ^ 32 - 1, 32, 65]
    = [True, True, False, True, False]"
  using predicate_cache_transparent [of "\<lambda>c. WhiteSpace_Is c = Some True" 128
      "[32, 160, 2 ^ 32 - 1, 32, 65]"]
  by (simp add: WhiteSpace_iff)

end
