(* ===== verification/Utf8.thy ===== *)
theory Utf8
  imports V8Prelude
begin

text \<open>
  The UTF-8 coder of src/src/unicode.h, src/src/unicode-inl.h and src/src/unicode.cc. A code
  point is a 32-bit word, encoded text a list of bytes. Decoding returns the code point and the
  number of bytes the cursor advances; an ill-formed sequence decodes to \<open>kBadChar\<close> and the cursor
  advances by one.
\<close>

section \<open>Limits\<close>

definition kBadChar :: uint32 where "kBadChar = 0xFFFD"
definition kMaxOneByteChar :: uint32 where "kMaxOneByteChar = 0x7f"
definition kMaxTwoByteChar :: uint32 where "kMaxTwoByteChar = 0x7ff"
definition kMaxThreeByteChar :: uint32 where "kMaxThreeByteChar = 0xffff"
definition kMaxFourByteChar :: uint32 where "kMaxFourByteChar = 0x1fffff"

section \<open>Encoding\<close>

definition Utf8_Length :: "uint32 \<Rightarrow> nat" where
  "Utf8_Length c =
     (if c \<le> kMaxOneByteChar then 1
      else if c \<le> kMaxTwoByteChar then 2
      else if c \<le> kMaxThreeByteChar then 3
      else 4)"

text \<open>The list of bytes stored at \<open>str\<close>; each assignment to a \<open>char\<close> keeps the low eight bits.\<close>

definition Utf8_Encode :: "uint32 \<Rightarrow> uint8 list" where
  "Utf8_Encode c =
     (let kMask = NOT (push_bit 6 1) in
      if c \<le> kMaxOneByteChar then [ucast c]
      else if c \<le> kMaxTwoByteChar then
        [ucast (0xC0 OR drop_bit 6 c), ucast (0x80 OR (c AND kMask))]
      else if c \<le> kMaxThreeByteChar then
        [ucast (0xE0 OR drop_bit 12 c), ucast (0x80 OR (drop_bit 6 c AND kMask)),
         ucast (0x80 OR (c AND kMask))]
      else
        [ucast (0xF0 OR drop_bit 18 c), ucast (0x80 OR (drop_bit 12 c AND kMask)),
         ucast (0x80 OR (drop_bit 6 c AND kMask)), ucast (0x80 OR (c AND kMask))])"

section \<open>Decoding\<close>

definition CalculateValue :: "uint8 list \<Rightarrow> uint32 \<times> nat" where
  "CalculateValue str =
     (if length str = 1 then (kBadChar, 1)
      else
        (let first = str ! 0; second = (str ! 1) XOR 0x80 in
         if second AND 0xC0 \<noteq> 0 then (kBadChar, 1)
         else if first < 0xE0 then
           (if first < 0xC0 then (kBadChar, 1)
            else
              (let l = (push_bit 6 (ucast first) OR ucast second) AND kMaxTwoByteChar in
               if l \<le> kMaxOneByteChar then (kBadChar, 1) else (l, 2)))
         else if length str = 2 then (kBadChar, 1)
         else
           (let third = (str ! 2) XOR 0x80 in
            if third AND 0xC0 \<noteq> 0 then (kBadChar, 1)
            else if first < 0xF0 then
              (let l = (push_bit 6 (push_bit 6 (ucast first) OR ucast second) OR ucast third)
                       AND kMaxThreeByteChar in
               if l \<le> kMaxTwoByteChar then (kBadChar, 1) else (l, 3))
            else if length str = 3 then (kBadChar, 1)
            else
              (let fourth = (str ! 3) XOR 0x80 in
               if fourth AND 0xC0 \<noteq> 0 then (kBadChar, 1)
               else if first < 0xF8 then
                 (let l = (push_bit 6 (push_bit 6 (push_bit 6 (ucast first) OR ucast second)
                             OR ucast third) OR ucast fourth) AND kMaxFourByteChar in
                  if l \<le> kMaxThreeByteChar then (kBadChar, 1) else (l, 4))
               else (kBadChar, 1)))))"

definition ValueOf :: "uint8 list \<Rightarrow> uint32 \<times> nat" where
  "ValueOf bytes =
     (if length bytes = 0 then (kBadChar, 0)
      else if ucast (bytes ! 0) \<le> kMaxOneByteChar then (ucast (bytes ! 0), 1)
      else CalculateValue bytes)"

section \<open>Round trip\<close>

text \<open>The constants of the coder, by their bits.\<close>

lemma bit_consts:
  "bit (0xC0 :: int) n \<longleftrightarrow> n = 6 \<or> n = 7"
  "bit (0xE0 :: int) n \<longleftrightarrow> n = 5 \<or> n = 6 \<or> n = 7"
  "bit (0xF0 :: int) n \<longleftrightarrow> n = 4 \<or> n = 5 \<or> n = 6 \<or> n = 7"
  "bit (0x80 :: int) n \<longleftrightarrow> n = 7"
  "bit (0x40 :: int) n \<longleftrightarrow> n = 6"
  "bit (-65 :: int) n \<longleftrightarrow> n \<noteq> 6"
proof -
  have c: "(0xC0 :: int) = push_bit 6 (mask 2)" "(0xE0 :: int) = push_bit 5 (mask 3)"
    "(0xF0 :: int) = push_bit 4 (mask 4)" "(-65 :: int) = NOT 64"
    by (simp_all add: mask_eq_exp_minus_1 not_int_def)
  show "bit (0xC0 :: int) n \<longleftrightarrow> n = 6 \<or> n = 7" unfolding c by (auto simp: bit_simps)
  show "bit (0xE0 :: int) n \<longleftrightarrow> n = 5 \<or> n = 6 \<or> n = 7" unfolding c by (auto simp: bit_simps)
  show "bit (0xF0 :: int) n \<longleftrightarrow> n = 4 \<or> n = 5 \<or> n = 6 \<or> n = 7" unfolding c by (auto simp: bit_simps)
  show "bit (0x80 :: int) n \<longleftrightarrow> n = 7" using bit_exp_iff [where 'a = int, of 7 n] by auto
  show six: "bit (0x40 :: int) n \<longleftrightarrow> n = 6" using bit_exp_iff [where 'a = int, of 6 n] by auto
  show "bit (-65 :: int) n \<longleftrightarrow> n \<noteq> 6" unfolding c(4) bit_not_int_iff six ..
qed

lemma max_masks:
  "kMaxOneByteChar = mask 7" "kMaxTwoByteChar = mask 11" "kMaxThreeByteChar = mask 16"
  "kMaxFourByteChar = mask 21"
  by (simp_all add: kMaxOneByteChar_def kMaxTwoByteChar_def kMaxThreeByteChar_def
      kMaxFourByteChar_def mask_eq_exp_minus_1)

lemmas bitops = bit_and_iff bit_or_iff bit_xor_iff bit_not_iff bit_push_bit_iff bit_unsigned_iff
  bit_drop_bit_eq bit_mask_iff

lemma no_high_bits:
  fixes c :: uint32
  assumes "c \<le> mask k" "k \<le> n"
  shows "\<not> bit c n"
proof
  assume b: "bit c n"
  then have n: "n < 32" using bit_imp_le_length [of c n] by simp
  have "uint c \<le> uint (mask k :: uint32)" using assms(1) by (simp add: word_le_def)
  also have "\<dots> = mask k" using n assms(2) by (simp add: uint_mask_eq)
  finally have "uint c < 2 ^ k" by (simp add: mask_eq_exp_minus_1)
  then have "take_bit k (uint c) = uint c" by (simp add: take_bit_int_eq_self)
  moreover have "bit (uint c) n" using b n by (simp add: bit_uint_iff)
  ultimately have "bit (take_bit k (uint c)) n" by simp
  then show False using assms(2) by (simp add: bit_take_bit_iff)
qed

text \<open>A continuation byte carries six bits.\<close>

definition cont :: "uint32 \<Rightarrow> uint8" where
  "cont d = ucast (0x80 OR (d AND NOT (push_bit 6 1)))"

lemma cont_six: "cont d XOR 0x80 = ucast (take_bit 6 d)"
  by (rule bit_word_eqI) (auto simp: cont_def bitops bit_take_bit_iff bit_consts)

lemma cont_tag: "(ucast (take_bit 6 (d :: uint32)) :: uint8) AND 0xC0 = 0"
  by (rule bit_word_eqI) (auto simp: bitops bit_take_bit_iff bit_consts)

text \<open>The bits of the encoded pieces put together again.\<close>

lemma sextet_cases:
  fixes n :: nat
  obtains "n < 6" | m where "n = 6 + m" "m < 6" | m where "n = 12 + m" "m < 6" | m where "n = 18 + m"
proof -
  consider "n < 6" | "6 \<le> n" "n < 12" | "12 \<le> n" "n < 18" | "18 \<le> n" by linarith
  then show thesis
  proof cases
    case 2
    then show ?thesis using that(2) [of "n - 6"] by simp
  next
    case 3
    then show ?thesis using that(3) [of "n - 12"] by simp
  next
    case 4
    then show ?thesis using that(4) [of "n - 18"] by simp
  qed (rule that(1))
qed

lemma two_bytes:
  fixes c :: uint32
  assumes "c \<le> mask 11"
  shows "(push_bit 6 (ucast (ucast (0xC0 OR drop_bit 6 c) :: uint8)) OR
      ucast (ucast (take_bit 6 c) :: uint8)) AND mask 11 = c"
proof (rule bit_word_eqI)
  fix n
  assume "n < LENGTH(32)"
  have up: "bit c n \<Longrightarrow> n < 11" using no_high_bits [OF assms, of n] by (meson not_le)
  show "bit ((push_bit 6 (ucast (ucast (0xC0 OR drop_bit 6 c) :: uint8)) OR
      ucast (ucast (take_bit 6 c) :: uint8)) AND mask 11 :: uint32) n = bit c n"
    by (cases n rule: sextet_cases) (use up in \<open>auto simp: bitops bit_take_bit_iff bit_consts\<close>)
qed

lemma three_bytes:
  fixes c :: uint32
  assumes "c \<le> mask 16"
  shows "(push_bit 6 (push_bit 6 (ucast (ucast (0xE0 OR drop_bit 12 c) :: uint8)) OR
      ucast (ucast (take_bit 6 (drop_bit 6 c)) :: uint8)) OR
      ucast (ucast (take_bit 6 c) :: uint8)) AND mask 16 = c"
proof (rule bit_word_eqI)
  fix n
  assume "n < LENGTH(32)"
  have up: "bit c n \<Longrightarrow> n < 16" using no_high_bits [OF assms, of n] by (meson not_le)
  show "bit ((push_bit 6 (push_bit 6 (ucast (ucast (0xE0 OR drop_bit 12 c) :: uint8)) OR
      ucast (ucast (take_bit 6 (drop_bit 6 c)) :: uint8)) OR
      ucast (ucast (take_bit 6 c) :: uint8)) AND mask 16 :: uint32) n = bit c n"
    by (cases n rule: sextet_cases) (use up in \<open>auto simp: bitops bit_take_bit_iff bit_consts\<close>)
qed

lemma four_bytes:
  fixes c :: uint32
  assumes "c \<le> mask 21"
  shows "(push_bit 6 (push_bit 6 (push_bit 6 (ucast (ucast (0xF0 OR drop_bit 18 c) :: uint8)) OR
      ucast (ucast (take_bit 6 (drop_bit 12 c)) :: uint8)) OR
      ucast (ucast (take_bit 6 (drop_bit 6 c)) :: uint8)) OR
      ucast (ucast (take_bit 6 c) :: uint8)) AND mask 21 = c"
proof (rule bit_word_eqI)
  fix n
  assume "n < LENGTH(32)"
  have up: "bit c n \<Longrightarrow> n < 21" using no_high_bits [OF assms, of n] by (meson not_le)
  show "bit ((push_bit 6 (push_bit 6 (push_bit 6 (ucast (ucast (0xF0 OR drop_bit 18 c) :: uint8)) OR
      ucast (ucast (take_bit 6 (drop_bit 12 c)) :: uint8)) OR
      ucast (ucast (take_bit 6 (drop_bit 6 c)) :: uint8)) OR
      ucast (ucast (take_bit 6 c) :: uint8)) AND mask 21 :: uint32) n = bit c n"
    by (cases n rule: sextet_cases) (use up in \<open>auto simp: bitops bit_take_bit_iff bit_consts\<close>)
qed

text \<open>The lead byte tells the length of the sequence.\<close>

lemma lead_byte:
  fixes a d :: uint32
  assumes "\<And>n. bit d n \<Longrightarrow> \<not> bit a n" "unat a + unat d < 256"
  shows "unat (ucast (a OR d) :: uint8) = unat a + unat d"
proof -
  have "a OR d = a + d"
    using assms(1) by (intro disjunctive_add [symmetric]) blast
  then have "unat (a OR d) = unat a + unat d"
    using assms(2) by (simp add: unat_word_ariths)
  moreover have "unat (ucast (a OR d) :: uint8) = unat (a OR d) mod 256"
    by (simp add: unsigned_ucast_eq take_bit_eq_mod)
  ultimately show ?thesis using assms(2) by simp
qed

lemma le_mask_unat: "(c :: uint32) \<le> mask k \<Longrightarrow> k < 32 \<Longrightarrow> unat c < 2 ^ k"
proof -
  assume "c \<le> mask k" "k < 32"
  then have "uint c \<le> uint (mask k :: uint32)" by (simp add: word_le_def)
  also have "\<dots> = mask k" using \<open>k < 32\<close> by (simp add: uint_mask_eq)
  finally have "uint c < 2 ^ k" by (simp add: mask_eq_exp_minus_1)
  then have "int (unat c) < int (2 ^ k)" by simp
  then show ?thesis by (simp only: of_nat_less_iff)
qed

lemma unat_drop_bit: "unat (drop_bit n (c :: uint32)) = unat c div 2 ^ n"
  by (simp only: unsigned_drop_bit_eq drop_bit_eq_div [where 'a = nat]
      take_bit_nat_eq_self [OF unsigned_less])

lemma lead_2:
  fixes c :: uint32
  assumes "c \<le> mask 11"
  shows "unat (ucast (0xC0 OR drop_bit 6 c) :: uint8) = 192 + unat c div 64"
    and "unat c div 64 < 32"
proof -
  have c: "unat c < 2 ^ 11" using le_mask_unat [OF assms] by simp
  then show "unat c div 64 < 32" by simp
  have "unat (ucast (0xC0 OR drop_bit 6 c) :: uint8) = unat (0xC0 :: uint32) + unat (drop_bit 6 c)"
  proof (rule lead_byte)
    fix n
    assume "bit (drop_bit 6 c) n"
    then show "\<not> bit (0xC0 :: uint32) n"
      using no_high_bits [OF assms, of "6 + n"] by (auto simp: bit_drop_bit_eq bit_consts)
  qed (use c in \<open>simp add: unat_drop_bit\<close>)
  then show "unat (ucast (0xC0 OR drop_bit 6 c) :: uint8) = 192 + unat c div 64"
    by (simp add: unat_drop_bit)
qed

lemma lead_3:
  fixes c :: uint32
  assumes "c \<le> mask 16"
  shows "unat (ucast (0xE0 OR drop_bit 12 c) :: uint8) = 224 + unat c div 4096"
    and "unat c div 4096 < 16"
proof -
  have c: "unat c < 2 ^ 16" using le_mask_unat [OF assms] by simp
  then show "unat c div 4096 < 16" by simp
  have "unat (ucast (0xE0 OR drop_bit 12 c) :: uint8) = unat (0xE0 :: uint32) + unat (drop_bit 12 c)"
  proof (rule lead_byte)
    fix n
    assume "bit (drop_bit 12 c) n"
    then show "\<not> bit (0xE0 :: uint32) n"
      using no_high_bits [OF assms, of "12 + n"] by (auto simp: bit_drop_bit_eq bit_consts)
  qed (use c in \<open>simp add: unat_drop_bit\<close>)
  then show "unat (ucast (0xE0 OR drop_bit 12 c) :: uint8) = 224 + unat c div 4096"
    by (simp add: unat_drop_bit)
qed

lemma lead_4:
  fixes c :: uint32
  assumes "c \<le> mask 21"
  shows "unat (ucast (0xF0 OR drop_bit 18 c) :: uint8) = 240 + unat c div 262144"
    and "unat c div 262144 < 8"
proof -
  have c: "unat c < 2 ^ 21" using le_mask_unat [OF assms] by simp
  then show "unat c div 262144 < 8" by simp
  have "unat (ucast (0xF0 OR drop_bit 18 c) :: uint8) = unat (0xF0 :: uint32) + unat (drop_bit 18 c)"
  proof (rule lead_byte)
    fix n
    assume "bit (drop_bit 18 c) n"
    then show "\<not> bit (0xF0 :: uint32) n"
      using no_high_bits [OF assms, of "18 + n"] by (auto simp: bit_drop_bit_eq bit_consts)
  qed (use c in \<open>simp add: unat_drop_bit\<close>)
  then show "unat (ucast (0xF0 OR drop_bit 18 c) :: uint8) = 240 + unat c div 262144"
    by (simp add: unat_drop_bit)
qed

lemma unat_of_byte: "unat (ucast (x :: uint8) :: uint32) = unat x"
proof -
  have "unat x < 2 ^ 8" using unsigned_less [of x] by simp
  then have "unat x < 2 ^ 32" by simp
  then show ?thesis by (simp add: unsigned_ucast_eq take_bit_nat_eq_self)
qed

lemmas byte_less = word_less_nat_alt word_le_nat_alt

lemma Encode_cases:
  "Utf8_Encode c =
     (if c \<le> mask 7 then [ucast c]
      else if c \<le> mask 11 then [ucast (0xC0 OR drop_bit 6 c), cont c]
      else if c \<le> mask 16 then
        [ucast (0xE0 OR drop_bit 12 c), cont (drop_bit 6 c), cont c]
      else [ucast (0xF0 OR drop_bit 18 c), cont (drop_bit 12 c), cont (drop_bit 6 c), cont c])"
  by (simp add: Utf8_Encode_def cont_def Let_def max_masks)

lemma Length_cases:
  "Utf8_Length c =
     (if c \<le> mask 7 then 1 else if c \<le> mask 11 then 2 else if c \<le> mask 16 then 3 else 4)"
  by (simp add: Utf8_Length_def max_masks)

lemma ValueOf_Encode:
  assumes "c \<le> kMaxFourByteChar"
  shows "ValueOf (Utf8_Encode c @ rest) = (c, Utf8_Length c) \<and>
    length (Utf8_Encode c) = Utf8_Length c"
proof -
  have c21: "c \<le> mask 21" using assms by (simp add: max_masks)
  consider (1) "c \<le> mask 7" | (2) "\<not> c \<le> mask 7" "c \<le> mask 11"
    | (3) "\<not> c \<le> mask 7" "\<not> c \<le> mask 11" "c \<le> mask 16"
    | (4) "\<not> c \<le> mask 7" "\<not> c \<le> mask 11" "\<not> c \<le> mask 16" by blast
  then show ?thesis
  proof cases
    case 1
    have up: "bit c n \<Longrightarrow> n < 7" for n using no_high_bits [OF 1, of n] by (meson not_le)
    have "ucast (ucast c :: uint8) = c"
    proof (rule bit_word_eqI)
      fix n
      assume "n < LENGTH(32)"
      then show "bit (ucast (ucast c :: uint8) :: uint32) n = bit c n"
        using up [of n] by (auto simp: bit_unsigned_iff)
    qed
    with 1 show ?thesis by (simp add: Encode_cases Length_cases ValueOf_def max_masks)
  next
    case 2
    note lead = lead_2 [OF 2(2)]
    let ?first = "ucast (0xC0 OR drop_bit 6 c) :: uint8"
    have f: "\<not> ucast ?first \<le> (mask 7 :: uint32)" "\<not> ?first < 0xC0" "?first < 0xE0"
      using lead by (simp_all add: byte_less mask_eq_exp_minus_1 unat_of_byte)
    show ?thesis
      using 2 f by (simp add: Encode_cases Length_cases ValueOf_def CalculateValue_def max_masks Let_def
          cont_six cont_tag two_bytes)
  next
    case 3
    note lead = lead_3 [OF 3(3)]
    let ?first = "ucast (0xE0 OR drop_bit 12 c) :: uint8"
    have f: "\<not> ucast ?first \<le> (mask 7 :: uint32)" "\<not> ?first < 0xC0" "\<not> ?first < 0xE0"
      "?first < 0xF0"
      using lead by (simp_all add: byte_less mask_eq_exp_minus_1 unat_of_byte)
    show ?thesis
      using 3 f by (simp add: Encode_cases Length_cases ValueOf_def CalculateValue_def max_masks Let_def
          cont_six cont_tag three_bytes del: push_bit_or push_bit_push_bit)
  next
    case 4
    note lead = lead_4 [OF c21]
    let ?first = "ucast (0xF0 OR drop_bit 18 c) :: uint8"
    have f: "\<not> ucast ?first \<le> (mask 7 :: uint32)" "\<not> ?first < 0xC0" "\<not> ?first < 0xE0"
      "\<not> ?first < 0xF0" "?first < 0xF8"
      using lead by (simp_all add: byte_less mask_eq_exp_minus_1 unat_of_byte)
    show ?thesis
      using 4 f by (simp add: Encode_cases Length_cases ValueOf_def CalculateValue_def max_masks Let_def
          cont_six cont_tag four_bytes [OF c21] del: push_bit_or push_bit_push_bit)
  qed
qed

section \<open>Properties\<close>

text \<open>
  C14. UTF-8 round trip. Encoding any code point up to 0x1fffff and decoding the bytes, with
  any text after them, gives the code point back and advances the cursor by the length of the
  encoding, which is what \<open>Length\<close> says.
\<close>

theorem utf8_round_trip:
  assumes "c \<le> kMaxFourByteChar"
  shows "ValueOf (Utf8_Encode c @ rest) = (c, Utf8_Length c) \<and>
    length (Utf8_Encode c) = Utf8_Length c"
  by (rule ValueOf_Encode [OF assms])

theorem utf8_round_trip_witness:
  "ValueOf (Utf8_Encode 0x20AC @ [65]) = (0x20AC, 3)"
  using utf8_round_trip [of "0x20AC" "[65]"]
  by (simp add: Utf8_Length_def kMaxOneByteChar_def kMaxTwoByteChar_def kMaxThreeByteChar_def
      kMaxFourByteChar_def)

lemma and_mask_le: "m \<le> k \<Longrightarrow> (x AND mask m) \<le> (mask k :: uint32)"
proof -
  assume "m \<le> k"
  have "uint (x AND mask m) \<le> mask (min 32 m)"
    using take_bit_int_less_eq_mask [of "min 32 m" "uint x"]
    by (simp add: uint_and uint_mask_eq take_bit_eq_mask)
  also have "\<dots> \<le> mask (min 32 k)"
  proof -
    have "min 32 m \<le> min 32 k" using \<open>m \<le> k\<close> by linarith
    then have "(2 :: int) ^ min 32 m \<le> 2 ^ min 32 k" by (rule power_increasing) simp
    then show ?thesis unfolding mask_eq_exp_minus_1 by (rule diff_right_mono)
  qed
  finally show ?thesis by (simp add: word_le_def uint_mask_eq)
qed

definition decode_ok :: "nat \<Rightarrow> uint32 \<times> nat \<Rightarrow> bool" where
  "decode_ok len r \<longleftrightarrow> 1 \<le> snd r \<and> snd r \<le> len \<and> fst r \<le> mask 21"

lemma decode_ok_if: "(c \<Longrightarrow> decode_ok n a) \<Longrightarrow> (\<not> c \<Longrightarrow> decode_ok n b) \<Longrightarrow> decode_ok n (if c then a else b)"
  by simp

lemma decode_ok_bad: "0 < n \<Longrightarrow> decode_ok n (kBadChar, 1)"
  by (simp add: decode_ok_def kBadChar_def mask_eq_exp_minus_1)

lemma decode_ok_good:
  "m \<le> 21 \<Longrightarrow> 1 \<le> i \<Longrightarrow> i \<le> n \<Longrightarrow> decode_ok n (x AND mask m, i)"
  using and_mask_le [of m 21 x] by (simp add: decode_ok_def)

lemma CalculateValue_ok: "0 < length str \<Longrightarrow> decode_ok (length str) (CalculateValue str)"
  unfolding CalculateValue_def Let_def max_masks
  by (intro decode_ok_if decode_ok_bad decode_ok_good) (linarith | simp)+

lemma ValueOf_ok:
  assumes "bytes \<noteq> []"
  shows "1 \<le> snd (ValueOf bytes) \<and> snd (ValueOf bytes) \<le> length bytes \<and>
    fst (ValueOf bytes) \<le> kMaxFourByteChar"
proof -
  have pos: "0 < length bytes" using assms by simp
  have "decode_ok (length bytes) (ValueOf bytes)"
  proof (cases "ucast (bytes ! 0) \<le> kMaxOneByteChar")
    case True
    have "(mask 7 :: uint32) \<le> mask 21" by (simp add: mask_eq_exp_minus_1)
    then have "ucast (bytes ! 0) \<le> (mask 21 :: uint32)"
      using True unfolding max_masks by (rule order_trans [rotated])
    with True pos assms show ?thesis by (simp add: ValueOf_def decode_ok_def Suc_le_eq)
  next
    case False
    with assms CalculateValue_ok [OF pos] show ?thesis by (simp add: ValueOf_def)
  qed
  then show ?thesis by (simp add: decode_ok_def max_masks)
qed

text \<open>
  C15. Decoding stays inside the text. For any bytes, well-formed or not, the cursor advances by at
  least one byte and never past the end, and the value is a code point of at most four bytes.
\<close>

theorem utf8_decode_in_bounds:
  assumes "bytes \<noteq> []"
  shows "1 \<le> snd (ValueOf bytes) \<and> snd (ValueOf bytes) \<le> length bytes \<and>
    fst (ValueOf bytes) \<le> kMaxFourByteChar"
  by (rule ValueOf_ok [OF assms])

theorem utf8_decode_in_bounds_witness:
  "1 \<le> snd (ValueOf [0xE2, 0x82]) \<and> snd (ValueOf [0xE2, 0x82]) \<le> 2"
  using utf8_decode_in_bounds [of "[0xE2, 0x82]"] by simp

section \<open>A whole text\<close>

text \<open>The characters an input buffer over UTF-8 text returns one after the other.\<close>

function Utf8_ReadAll :: "uint8 list \<Rightarrow> uint32 list" where
  "Utf8_ReadAll bytes =
     (if bytes = [] then [] else fst (ValueOf bytes) # Utf8_ReadAll (drop (snd (ValueOf bytes)) bytes))"
  by pat_completeness auto
termination
proof (relation "measure length", goal_cases)
  case (2 bytes)
  then show ?case using ValueOf_ok [of bytes] by simp
qed simp

declare Utf8_ReadAll.simps [simp del]

lemma Utf8_ReadAll_Nil [simp]: "Utf8_ReadAll [] = []"
  by (subst Utf8_ReadAll.simps) simp

lemma Utf8_Encode_not_Nil: "Utf8_Encode c \<noteq> []"
  by (simp add: Encode_cases)

lemma Utf8_ReadAll_Encode:
  assumes "c \<le> kMaxFourByteChar"
  shows "Utf8_ReadAll (Utf8_Encode c @ rest) = c # Utf8_ReadAll rest"
  using ValueOf_Encode [OF assms, of rest] Utf8_Encode_not_Nil [of c]
  by (subst Utf8_ReadAll.simps) simp

lemma Utf8_ReadAll_text:
  "\<forall>c \<in> set cs. c \<le> kMaxFourByteChar \<Longrightarrow> Utf8_ReadAll (concat (map Utf8_Encode cs)) = cs"
  by (induction cs) (simp_all add: Utf8_ReadAll_Encode)

end
