(* ===== verification/Token.thy ===== *)
theory Token
  imports V8Prelude
begin

text \<open>
  The tokens of src/src/token.h and src/src/token.cc: the entries of \<open>TOKEN_LIST\<close> in order
  without the future reserved words, which \<open>Token\<close> ignores. \<open>OR\<close>, \<open>AND\<close>, \<open>NOT\<close> and
  \<open>CONST\<close> are called \<open>OR_TOK\<close>, \<open>AND_TOK\<close>, \<open>NOT_TOK\<close> and \<open>CONST_TOK\<close> here.
  The predicates of the code compare enum values, so the tokens are ordered by their position.
\<close>

datatype (plugins only: size) Token =
  EOS | LPAREN | RPAREN | LBRACK | RBRACK | LBRACE | RBRACE | COLON
| SEMICOLON | PERIOD | CONDITIONAL | INC | DEC | INIT_VAR | INIT_CONST | ASSIGN
| ASSIGN_BIT_OR | ASSIGN_BIT_XOR | ASSIGN_BIT_AND | ASSIGN_SHL | ASSIGN_SAR | ASSIGN_SHR | ASSIGN_ADD | ASSIGN_SUB
| ASSIGN_MUL | ASSIGN_DIV | ASSIGN_MOD | COMMA | OR_TOK | AND_TOK | BIT_OR | BIT_XOR
| BIT_AND | SHL | SAR | SHR | ADD | SUB | MUL | DIV
| MOD | EQ | NE | EQ_STRICT | NE_STRICT | LT | GT | LTE
| GTE | INSTANCEOF | IN | NOT_TOK | BIT_NOT | DELETE | TYPEOF | VOID
| BREAK | CASE | CATCH | CONTINUE | DEBUGGER | DEFAULT | DO | ELSE
| FINALLY | FOR | FUNCTION | IF | NEW | RETURN | SWITCH | THIS
| THROW | TRY | VAR | WHILE | WITH | CONST_TOK | NATIVE | NULL_LITERAL
| TRUE_LITERAL | FALSE_LITERAL | NUMBER | STRING | IDENTIFIER | ILLEGAL | WHITESPACE

text \<open>The value of a token in the enum.\<close>

primrec token_value :: "Token \<Rightarrow> nat" where
  "token_value EOS = 0"
| "token_value LPAREN = 1"
| "token_value RPAREN = 2"
| "token_value LBRACK = 3"
| "token_value RBRACK = 4"
| "token_value LBRACE = 5"
| "token_value RBRACE = 6"
| "token_value COLON = 7"
| "token_value SEMICOLON = 8"
| "token_value PERIOD = 9"
| "token_value CONDITIONAL = 10"
| "token_value INC = 11"
| "token_value DEC = 12"
| "token_value INIT_VAR = 13"
| "token_value INIT_CONST = 14"
| "token_value ASSIGN = 15"
| "token_value ASSIGN_BIT_OR = 16"
| "token_value ASSIGN_BIT_XOR = 17"
| "token_value ASSIGN_BIT_AND = 18"
| "token_value ASSIGN_SHL = 19"
| "token_value ASSIGN_SAR = 20"
| "token_value ASSIGN_SHR = 21"
| "token_value ASSIGN_ADD = 22"
| "token_value ASSIGN_SUB = 23"
| "token_value ASSIGN_MUL = 24"
| "token_value ASSIGN_DIV = 25"
| "token_value ASSIGN_MOD = 26"
| "token_value COMMA = 27"
| "token_value OR_TOK = 28"
| "token_value AND_TOK = 29"
| "token_value BIT_OR = 30"
| "token_value BIT_XOR = 31"
| "token_value BIT_AND = 32"
| "token_value SHL = 33"
| "token_value SAR = 34"
| "token_value SHR = 35"
| "token_value ADD = 36"
| "token_value SUB = 37"
| "token_value MUL = 38"
| "token_value DIV = 39"
| "token_value MOD = 40"
| "token_value EQ = 41"
| "token_value NE = 42"
| "token_value EQ_STRICT = 43"
| "token_value NE_STRICT = 44"
| "token_value LT = 45"
| "token_value GT = 46"
| "token_value LTE = 47"
| "token_value GTE = 48"
| "token_value INSTANCEOF = 49"
| "token_value IN = 50"
| "token_value NOT_TOK = 51"
| "token_value BIT_NOT = 52"
| "token_value DELETE = 53"
| "token_value TYPEOF = 54"
| "token_value VOID = 55"
| "token_value BREAK = 56"
| "token_value CASE = 57"
| "token_value CATCH = 58"
| "token_value CONTINUE = 59"
| "token_value DEBUGGER = 60"
| "token_value DEFAULT = 61"
| "token_value DO = 62"
| "token_value ELSE = 63"
| "token_value FINALLY = 64"
| "token_value FOR = 65"
| "token_value FUNCTION = 66"
| "token_value IF = 67"
| "token_value NEW = 68"
| "token_value RETURN = 69"
| "token_value SWITCH = 70"
| "token_value THIS = 71"
| "token_value THROW = 72"
| "token_value TRY = 73"
| "token_value VAR = 74"
| "token_value WHILE = 75"
| "token_value WITH = 76"
| "token_value CONST_TOK = 77"
| "token_value NATIVE = 78"
| "token_value NULL_LITERAL = 79"
| "token_value TRUE_LITERAL = 80"
| "token_value FALSE_LITERAL = 81"
| "token_value NUMBER = 82"
| "token_value STRING = 83"
| "token_value IDENTIFIER = 84"
| "token_value ILLEGAL = 85"
| "token_value WHITESPACE = 86"

definition NUM_TOKENS :: nat where "NUM_TOKENS = 87"

definition all_tokens :: "Token list" where
  "all_tokens =
    [EOS, LPAREN, RPAREN, LBRACK, RBRACK, LBRACE, RBRACE, COLON,
     SEMICOLON, PERIOD, CONDITIONAL, INC, DEC, INIT_VAR, INIT_CONST, ASSIGN,
     ASSIGN_BIT_OR, ASSIGN_BIT_XOR, ASSIGN_BIT_AND, ASSIGN_SHL, ASSIGN_SAR, ASSIGN_SHR, ASSIGN_ADD, ASSIGN_SUB,
     ASSIGN_MUL, ASSIGN_DIV, ASSIGN_MOD, COMMA, OR_TOK, AND_TOK, BIT_OR, BIT_XOR,
     BIT_AND, SHL, SAR, SHR, ADD, SUB, MUL, DIV,
     MOD, EQ, NE, EQ_STRICT, NE_STRICT, LT, GT, LTE,
     GTE, INSTANCEOF, IN, NOT_TOK, BIT_NOT, DELETE, TYPEOF, VOID,
     BREAK, CASE, CATCH, CONTINUE, DEBUGGER, DEFAULT, DO, ELSE,
     FINALLY, FOR, FUNCTION, IF, NEW, RETURN, SWITCH, THIS,
     THROW, TRY, VAR, WHILE, WITH, CONST_TOK, NATIVE, NULL_LITERAL,
     TRUE_LITERAL, FALSE_LITERAL, NUMBER, STRING, IDENTIFIER, ILLEGAL, WHITESPACE]"

text \<open>The four tables of token.cc; a token without a string has NULL.\<close>

primrec Token_Name :: "Token \<Rightarrow> string" where
  "Token_Name EOS = ''EOS''"
| "Token_Name LPAREN = ''LPAREN''"
| "Token_Name RPAREN = ''RPAREN''"
| "Token_Name LBRACK = ''LBRACK''"
| "Token_Name RBRACK = ''RBRACK''"
| "Token_Name LBRACE = ''LBRACE''"
| "Token_Name RBRACE = ''RBRACE''"
| "Token_Name COLON = ''COLON''"
| "Token_Name SEMICOLON = ''SEMICOLON''"
| "Token_Name PERIOD = ''PERIOD''"
| "Token_Name CONDITIONAL = ''CONDITIONAL''"
| "Token_Name INC = ''INC''"
| "Token_Name DEC = ''DEC''"
| "Token_Name INIT_VAR = ''INIT_VAR''"
| "Token_Name INIT_CONST = ''INIT_CONST''"
| "Token_Name ASSIGN = ''ASSIGN''"
| "Token_Name ASSIGN_BIT_OR = ''ASSIGN_BIT_OR''"
| "Token_Name ASSIGN_BIT_XOR = ''ASSIGN_BIT_XOR''"
| "Token_Name ASSIGN_BIT_AND = ''ASSIGN_BIT_AND''"
| "Token_Name ASSIGN_SHL = ''ASSIGN_SHL''"
| "Token_Name ASSIGN_SAR = ''ASSIGN_SAR''"
| "Token_Name ASSIGN_SHR = ''ASSIGN_SHR''"
| "Token_Name ASSIGN_ADD = ''ASSIGN_ADD''"
| "Token_Name ASSIGN_SUB = ''ASSIGN_SUB''"
| "Token_Name ASSIGN_MUL = ''ASSIGN_MUL''"
| "Token_Name ASSIGN_DIV = ''ASSIGN_DIV''"
| "Token_Name ASSIGN_MOD = ''ASSIGN_MOD''"
| "Token_Name COMMA = ''COMMA''"
| "Token_Name OR_TOK = ''OR''"
| "Token_Name AND_TOK = ''AND''"
| "Token_Name BIT_OR = ''BIT_OR''"
| "Token_Name BIT_XOR = ''BIT_XOR''"
| "Token_Name BIT_AND = ''BIT_AND''"
| "Token_Name SHL = ''SHL''"
| "Token_Name SAR = ''SAR''"
| "Token_Name SHR = ''SHR''"
| "Token_Name ADD = ''ADD''"
| "Token_Name SUB = ''SUB''"
| "Token_Name MUL = ''MUL''"
| "Token_Name DIV = ''DIV''"
| "Token_Name MOD = ''MOD''"
| "Token_Name EQ = ''EQ''"
| "Token_Name NE = ''NE''"
| "Token_Name EQ_STRICT = ''EQ_STRICT''"
| "Token_Name NE_STRICT = ''NE_STRICT''"
| "Token_Name LT = ''LT''"
| "Token_Name GT = ''GT''"
| "Token_Name LTE = ''LTE''"
| "Token_Name GTE = ''GTE''"
| "Token_Name INSTANCEOF = ''INSTANCEOF''"
| "Token_Name IN = ''IN''"
| "Token_Name NOT_TOK = ''NOT''"
| "Token_Name BIT_NOT = ''BIT_NOT''"
| "Token_Name DELETE = ''DELETE''"
| "Token_Name TYPEOF = ''TYPEOF''"
| "Token_Name VOID = ''VOID''"
| "Token_Name BREAK = ''BREAK''"
| "Token_Name CASE = ''CASE''"
| "Token_Name CATCH = ''CATCH''"
| "Token_Name CONTINUE = ''CONTINUE''"
| "Token_Name DEBUGGER = ''DEBUGGER''"
| "Token_Name DEFAULT = ''DEFAULT''"
| "Token_Name DO = ''DO''"
| "Token_Name ELSE = ''ELSE''"
| "Token_Name FINALLY = ''FINALLY''"
| "Token_Name FOR = ''FOR''"
| "Token_Name FUNCTION = ''FUNCTION''"
| "Token_Name IF = ''IF''"
| "Token_Name NEW = ''NEW''"
| "Token_Name RETURN = ''RETURN''"
| "Token_Name SWITCH = ''SWITCH''"
| "Token_Name THIS = ''THIS''"
| "Token_Name THROW = ''THROW''"
| "Token_Name TRY = ''TRY''"
| "Token_Name VAR = ''VAR''"
| "Token_Name WHILE = ''WHILE''"
| "Token_Name WITH = ''WITH''"
| "Token_Name CONST_TOK = ''CONST''"
| "Token_Name NATIVE = ''NATIVE''"
| "Token_Name NULL_LITERAL = ''NULL_LITERAL''"
| "Token_Name TRUE_LITERAL = ''TRUE_LITERAL''"
| "Token_Name FALSE_LITERAL = ''FALSE_LITERAL''"
| "Token_Name NUMBER = ''NUMBER''"
| "Token_Name STRING = ''STRING''"
| "Token_Name IDENTIFIER = ''IDENTIFIER''"
| "Token_Name ILLEGAL = ''ILLEGAL''"
| "Token_Name WHITESPACE = ''WHITESPACE''"

primrec Token_String :: "Token \<Rightarrow> string option" where
  "Token_String EOS = Some ''EOS''"
| "Token_String LPAREN = Some ''(''"
| "Token_String RPAREN = Some '')''"
| "Token_String LBRACK = Some ''[''"
| "Token_String RBRACK = Some '']''"
| "Token_String LBRACE = Some ''{''"
| "Token_String RBRACE = Some ''}''"
| "Token_String COLON = Some '':''"
| "Token_String SEMICOLON = Some '';''"
| "Token_String PERIOD = Some ''.''"
| "Token_String CONDITIONAL = Some ''?''"
| "Token_String INC = Some ''++''"
| "Token_String DEC = Some ''--''"
| "Token_String INIT_VAR = Some ''=init_var''"
| "Token_String INIT_CONST = Some ''=init_const''"
| "Token_String ASSIGN = Some ''=''"
| "Token_String ASSIGN_BIT_OR = Some ''|=''"
| "Token_String ASSIGN_BIT_XOR = Some ''^=''"
| "Token_String ASSIGN_BIT_AND = Some ''&=''"
| "Token_String ASSIGN_SHL = Some ''<<=''"
| "Token_String ASSIGN_SAR = Some ''>>=''"
| "Token_String ASSIGN_SHR = Some ''>>>=''"
| "Token_String ASSIGN_ADD = Some ''+=''"
| "Token_String ASSIGN_SUB = Some ''-=''"
| "Token_String ASSIGN_MUL = Some ''*=''"
| "Token_String ASSIGN_DIV = Some ''/=''"
| "Token_String ASSIGN_MOD = Some ''%=''"
| "Token_String COMMA = Some '',''"
| "Token_String OR_TOK = Some ''||''"
| "Token_String AND_TOK = Some ''&&''"
| "Token_String BIT_OR = Some ''|''"
| "Token_String BIT_XOR = Some ''^''"
| "Token_String BIT_AND = Some ''&''"
| "Token_String SHL = Some ''<<''"
| "Token_String SAR = Some ''>>''"
| "Token_String SHR = Some ''>>>''"
| "Token_String ADD = Some ''+''"
| "Token_String SUB = Some ''-''"
| "Token_String MUL = Some ''*''"
| "Token_String DIV = Some ''/''"
| "Token_String MOD = Some ''%''"
| "Token_String EQ = Some ''==''"
| "Token_String NE = Some ''!=''"
| "Token_String EQ_STRICT = Some ''===''"
| "Token_String NE_STRICT = Some ''!==''"
| "Token_String LT = Some ''<''"
| "Token_String GT = Some ''>''"
| "Token_String LTE = Some ''<=''"
| "Token_String GTE = Some ''>=''"
| "Token_String INSTANCEOF = Some ''instanceof''"
| "Token_String IN = Some ''in''"
| "Token_String NOT_TOK = Some ''!''"
| "Token_String BIT_NOT = Some ''~''"
| "Token_String DELETE = Some ''delete''"
| "Token_String TYPEOF = Some ''typeof''"
| "Token_String VOID = Some ''void''"
| "Token_String BREAK = Some ''break''"
| "Token_String CASE = Some ''case''"
| "Token_String CATCH = Some ''catch''"
| "Token_String CONTINUE = Some ''continue''"
| "Token_String DEBUGGER = Some ''debugger''"
| "Token_String DEFAULT = Some ''default''"
| "Token_String DO = Some ''do''"
| "Token_String ELSE = Some ''else''"
| "Token_String FINALLY = Some ''finally''"
| "Token_String FOR = Some ''for''"
| "Token_String FUNCTION = Some ''function''"
| "Token_String IF = Some ''if''"
| "Token_String NEW = Some ''new''"
| "Token_String RETURN = Some ''return''"
| "Token_String SWITCH = Some ''switch''"
| "Token_String THIS = Some ''this''"
| "Token_String THROW = Some ''throw''"
| "Token_String TRY = Some ''try''"
| "Token_String VAR = Some ''var''"
| "Token_String WHILE = Some ''while''"
| "Token_String WITH = Some ''with''"
| "Token_String CONST_TOK = Some ''const''"
| "Token_String NATIVE = Some ''native''"
| "Token_String NULL_LITERAL = Some ''null''"
| "Token_String TRUE_LITERAL = Some ''true''"
| "Token_String FALSE_LITERAL = Some ''false''"
| "Token_String NUMBER = None"
| "Token_String STRING = None"
| "Token_String IDENTIFIER = None"
| "Token_String ILLEGAL = Some ''ILLEGAL''"
| "Token_String WHITESPACE = None"

primrec Token_Precedence :: "Token \<Rightarrow> nat" where
  "Token_Precedence EOS = 0"
| "Token_Precedence LPAREN = 0"
| "Token_Precedence RPAREN = 0"
| "Token_Precedence LBRACK = 0"
| "Token_Precedence RBRACK = 0"
| "Token_Precedence LBRACE = 0"
| "Token_Precedence RBRACE = 0"
| "Token_Precedence COLON = 0"
| "Token_Precedence SEMICOLON = 0"
| "Token_Precedence PERIOD = 0"
| "Token_Precedence CONDITIONAL = 3"
| "Token_Precedence INC = 0"
| "Token_Precedence DEC = 0"
| "Token_Precedence INIT_VAR = 2"
| "Token_Precedence INIT_CONST = 2"
| "Token_Precedence ASSIGN = 2"
| "Token_Precedence ASSIGN_BIT_OR = 2"
| "Token_Precedence ASSIGN_BIT_XOR = 2"
| "Token_Precedence ASSIGN_BIT_AND = 2"
| "Token_Precedence ASSIGN_SHL = 2"
| "Token_Precedence ASSIGN_SAR = 2"
| "Token_Precedence ASSIGN_SHR = 2"
| "Token_Precedence ASSIGN_ADD = 2"
| "Token_Precedence ASSIGN_SUB = 2"
| "Token_Precedence ASSIGN_MUL = 2"
| "Token_Precedence ASSIGN_DIV = 2"
| "Token_Precedence ASSIGN_MOD = 2"
| "Token_Precedence COMMA = 1"
| "Token_Precedence OR_TOK = 4"
| "Token_Precedence AND_TOK = 5"
| "Token_Precedence BIT_OR = 6"
| "Token_Precedence BIT_XOR = 7"
| "Token_Precedence BIT_AND = 8"
| "Token_Precedence SHL = 11"
| "Token_Precedence SAR = 11"
| "Token_Precedence SHR = 11"
| "Token_Precedence ADD = 12"
| "Token_Precedence SUB = 12"
| "Token_Precedence MUL = 13"
| "Token_Precedence DIV = 13"
| "Token_Precedence MOD = 13"
| "Token_Precedence EQ = 9"
| "Token_Precedence NE = 9"
| "Token_Precedence EQ_STRICT = 9"
| "Token_Precedence NE_STRICT = 9"
| "Token_Precedence LT = 10"
| "Token_Precedence GT = 10"
| "Token_Precedence LTE = 10"
| "Token_Precedence GTE = 10"
| "Token_Precedence INSTANCEOF = 10"
| "Token_Precedence IN = 10"
| "Token_Precedence NOT_TOK = 0"
| "Token_Precedence BIT_NOT = 0"
| "Token_Precedence DELETE = 0"
| "Token_Precedence TYPEOF = 0"
| "Token_Precedence VOID = 0"
| "Token_Precedence BREAK = 0"
| "Token_Precedence CASE = 0"
| "Token_Precedence CATCH = 0"
| "Token_Precedence CONTINUE = 0"
| "Token_Precedence DEBUGGER = 0"
| "Token_Precedence DEFAULT = 0"
| "Token_Precedence DO = 0"
| "Token_Precedence ELSE = 0"
| "Token_Precedence FINALLY = 0"
| "Token_Precedence FOR = 0"
| "Token_Precedence FUNCTION = 0"
| "Token_Precedence IF = 0"
| "Token_Precedence NEW = 0"
| "Token_Precedence RETURN = 0"
| "Token_Precedence SWITCH = 0"
| "Token_Precedence THIS = 0"
| "Token_Precedence THROW = 0"
| "Token_Precedence TRY = 0"
| "Token_Precedence VAR = 0"
| "Token_Precedence WHILE = 0"
| "Token_Precedence WITH = 0"
| "Token_Precedence CONST_TOK = 0"
| "Token_Precedence NATIVE = 0"
| "Token_Precedence NULL_LITERAL = 0"
| "Token_Precedence TRUE_LITERAL = 0"
| "Token_Precedence FALSE_LITERAL = 0"
| "Token_Precedence NUMBER = 0"
| "Token_Precedence STRING = 0"
| "Token_Precedence IDENTIFIER = 0"
| "Token_Precedence ILLEGAL = 0"
| "Token_Precedence WHITESPACE = 0"

primrec IsKeyword :: "Token \<Rightarrow> bool" where
  "IsKeyword EOS = False"
| "IsKeyword LPAREN = False"
| "IsKeyword RPAREN = False"
| "IsKeyword LBRACK = False"
| "IsKeyword RBRACK = False"
| "IsKeyword LBRACE = False"
| "IsKeyword RBRACE = False"
| "IsKeyword COLON = False"
| "IsKeyword SEMICOLON = False"
| "IsKeyword PERIOD = False"
| "IsKeyword CONDITIONAL = False"
| "IsKeyword INC = False"
| "IsKeyword DEC = False"
| "IsKeyword INIT_VAR = False"
| "IsKeyword INIT_CONST = False"
| "IsKeyword ASSIGN = False"
| "IsKeyword ASSIGN_BIT_OR = False"
| "IsKeyword ASSIGN_BIT_XOR = False"
| "IsKeyword ASSIGN_BIT_AND = False"
| "IsKeyword ASSIGN_SHL = False"
| "IsKeyword ASSIGN_SAR = False"
| "IsKeyword ASSIGN_SHR = False"
| "IsKeyword ASSIGN_ADD = False"
| "IsKeyword ASSIGN_SUB = False"
| "IsKeyword ASSIGN_MUL = False"
| "IsKeyword ASSIGN_DIV = False"
| "IsKeyword ASSIGN_MOD = False"
| "IsKeyword COMMA = False"
| "IsKeyword OR_TOK = False"
| "IsKeyword AND_TOK = False"
| "IsKeyword BIT_OR = False"
| "IsKeyword BIT_XOR = False"
| "IsKeyword BIT_AND = False"
| "IsKeyword SHL = False"
| "IsKeyword SAR = False"
| "IsKeyword SHR = False"
| "IsKeyword ADD = False"
| "IsKeyword SUB = False"
| "IsKeyword MUL = False"
| "IsKeyword DIV = False"
| "IsKeyword MOD = False"
| "IsKeyword EQ = False"
| "IsKeyword NE = False"
| "IsKeyword EQ_STRICT = False"
| "IsKeyword NE_STRICT = False"
| "IsKeyword LT = False"
| "IsKeyword GT = False"
| "IsKeyword LTE = False"
| "IsKeyword GTE = False"
| "IsKeyword INSTANCEOF = True"
| "IsKeyword IN = True"
| "IsKeyword NOT_TOK = False"
| "IsKeyword BIT_NOT = False"
| "IsKeyword DELETE = True"
| "IsKeyword TYPEOF = True"
| "IsKeyword VOID = True"
| "IsKeyword BREAK = True"
| "IsKeyword CASE = True"
| "IsKeyword CATCH = True"
| "IsKeyword CONTINUE = True"
| "IsKeyword DEBUGGER = True"
| "IsKeyword DEFAULT = True"
| "IsKeyword DO = True"
| "IsKeyword ELSE = True"
| "IsKeyword FINALLY = True"
| "IsKeyword FOR = True"
| "IsKeyword FUNCTION = True"
| "IsKeyword IF = True"
| "IsKeyword NEW = True"
| "IsKeyword RETURN = True"
| "IsKeyword SWITCH = True"
| "IsKeyword THIS = True"
| "IsKeyword THROW = True"
| "IsKeyword TRY = True"
| "IsKeyword VAR = True"
| "IsKeyword WHILE = True"
| "IsKeyword WITH = True"
| "IsKeyword CONST_TOK = True"
| "IsKeyword NATIVE = True"
| "IsKeyword NULL_LITERAL = True"
| "IsKeyword TRUE_LITERAL = True"
| "IsKeyword FALSE_LITERAL = True"
| "IsKeyword NUMBER = False"
| "IsKeyword STRING = False"
| "IsKeyword IDENTIFIER = False"
| "IsKeyword ILLEGAL = False"
| "IsKeyword WHITESPACE = False"

section \<open>The order of the enum\<close>

lemma all_tokens_nth: "all_tokens ! token_value t = t"
  by (cases t) (simp_all add: all_tokens_def)

lemma token_value_inj: "token_value a = token_value b \<Longrightarrow> a = b"
  by (metis all_tokens_nth)

instantiation Token :: linorder
begin

definition less_eq_Token :: "Token \<Rightarrow> Token \<Rightarrow> bool" where
  "a \<le> b \<longleftrightarrow> token_value a \<le> token_value b"

definition less_Token :: "Token \<Rightarrow> Token \<Rightarrow> bool" where
  "a < b \<longleftrightarrow> token_value a < token_value b"

instance
  by standard (auto simp: less_eq_Token_def less_Token_def token_value_inj)

end

definition IsAssignmentOp :: "Token \<Rightarrow> bool" where
  "IsAssignmentOp tok = (INIT_VAR \<le> tok \<and> tok \<le> ASSIGN_MOD)"

definition IsBinaryOp :: "Token \<Rightarrow> bool" where
  "IsBinaryOp op = (COMMA \<le> op \<and> op \<le> MOD)"

definition IsCompareOp :: "Token \<Rightarrow> bool" where
  "IsCompareOp op = (EQ \<le> op \<and> op \<le> IN)"

definition IsBitOp :: "Token \<Rightarrow> bool" where
  "IsBitOp op = ((BIT_OR \<le> op \<and> op \<le> SHR) \<or> op = BIT_NOT)"

definition IsUnaryOp :: "Token \<Rightarrow> bool" where
  "IsUnaryOp op = ((NOT_TOK \<le> op \<and> op \<le> VOID) \<or> op = ADD \<or> op = SUB)"

definition IsCountOp :: "Token \<Rightarrow> bool" where
  "IsCountOp op = (op = INC \<or> op = DEC)"

definition IsShiftOp :: "Token \<Rightarrow> bool" where
  "IsShiftOp op = (SHL \<le> op \<and> op \<le> SHR)"

lemmas token_order = less_eq_Token_def less_Token_def

end
