(* ===== verification/KeywordMatcher.thy ===== *)
theory KeywordMatcher
  imports Token
begin

text \<open>
  The keyword state machine of src/src/scanner-base.h and src/src/scanner-base.cc. The states of
  the code carry the prefix \<open>ST\<close>, which keeps their names apart from the tokens. Characters are
  the code's 32-bit \<open>unibrow::uchar\<close>. The proofs assign every state the keywords it can still
  complete, as a map from the rest of the input to the token.
\<close>

type_synonym uchar = "32 word"

section \<open>State and operations\<close>

datatype State =
  ST_UNMATCHABLE | ST_INITIAL | ST_KEYWORD_PREFIX | ST_KEYWORD_MATCHED
| ST_C | ST_CA | ST_CO | ST_CON | ST_D | ST_DE | ST_F | ST_I | ST_IN | ST_N
| ST_T | ST_TH | ST_TR | ST_V | ST_W

text \<open>\<open>km_keyword\<close> is None for the NULL pointer of the constructor.\<close>

record KeywordMatcher =
  km_state :: State
  km_token :: Token
  km_keyword :: "string option"
  km_counter :: nat
  km_keyword_token :: Token

definition KeywordMatcher_new :: KeywordMatcher where
  "KeywordMatcher_new = \<lparr>km_state = ST_INITIAL, km_token = IDENTIFIER, km_keyword = None,
     km_counter = 0, km_keyword_token = ILLEGAL\<rparr>"

definition uchar_of_char :: "char \<Rightarrow> uchar" where
  "uchar_of_char c = of_char c"

text \<open>\<open>keyword[i]\<close>, with the terminating zero of a C string; reading beyond it or through NULL is
excluded by the invariant \<open>km_wf\<close> below.\<close>

definition keyword_at :: "string option \<Rightarrow> nat \<Rightarrow> uchar" where
  "keyword_at k i =
     (case k of None \<Rightarrow> 0 | Some s \<Rightarrow> if i < length s then uchar_of_char (s ! i) else 0)"

definition kFirstCharRangeMin :: uchar where "kFirstCharRangeMin = 98"
definition kFirstCharRangeMax :: uchar where "kFirstCharRangeMax = 119"
definition kFirstCharRangeLength :: uchar where
  "kFirstCharRangeLength = kFirstCharRangeMax - kFirstCharRangeMin + 1"

definition first_states :: "(string option \<times> State \<times> Token) list" where
  "first_states =
    [(Some ''break'', ST_KEYWORD_PREFIX, BREAK),
     (None, ST_C, ILLEGAL),
     (None, ST_D, ILLEGAL),
     (Some ''else'', ST_KEYWORD_PREFIX, ELSE),
     (None, ST_F, ILLEGAL),
     (None, ST_UNMATCHABLE, ILLEGAL),
     (None, ST_UNMATCHABLE, ILLEGAL),
     (None, ST_I, ILLEGAL),
     (None, ST_UNMATCHABLE, ILLEGAL),
     (None, ST_UNMATCHABLE, ILLEGAL),
     (None, ST_UNMATCHABLE, ILLEGAL),
     (None, ST_UNMATCHABLE, ILLEGAL),
     (None, ST_N, ILLEGAL),
     (None, ST_UNMATCHABLE, ILLEGAL),
     (None, ST_UNMATCHABLE, ILLEGAL),
     (None, ST_UNMATCHABLE, ILLEGAL),
     (Some ''return'', ST_KEYWORD_PREFIX, RETURN),
     (Some ''switch'', ST_KEYWORD_PREFIX, SWITCH),
     (None, ST_T, ILLEGAL),
     (None, ST_UNMATCHABLE, ILLEGAL),
     (None, ST_V, ILLEGAL),
     (None, ST_W, ILLEGAL)]"

text \<open>The three matching helpers return None where the code returns false, and the changed matcher
where it returns true.\<close>

definition MatchKeywordStart ::
    "uchar \<Rightarrow> string \<Rightarrow> nat \<Rightarrow> Token \<Rightarrow> KeywordMatcher \<Rightarrow> KeywordMatcher option" where
  "MatchKeywordStart input keyword position token_if_match m =
     (if input \<noteq> keyword_at (Some keyword) position then None
      else Some (m\<lparr>km_state := ST_KEYWORD_PREFIX, km_keyword := Some keyword,
                   km_counter := position + 1, km_keyword_token := token_if_match\<rparr>))"

definition MatchState :: "uchar \<Rightarrow> char \<Rightarrow> State \<Rightarrow> KeywordMatcher \<Rightarrow> KeywordMatcher option" where
  "MatchState input match new_state m =
     (if input \<noteq> uchar_of_char match then None else Some (m\<lparr>km_state := new_state\<rparr>))"

definition MatchKeyword ::
    "uchar \<Rightarrow> char \<Rightarrow> State \<Rightarrow> Token \<Rightarrow> KeywordMatcher \<Rightarrow> KeywordMatcher option" where
  "MatchKeyword input match new_state keyword_token m =
     (if input \<noteq> uchar_of_char match then None
      else Some (m\<lparr>km_state := new_state, km_token := keyword_token\<rparr>))"

text \<open>The chains \<open>if (Match...) return;\<close>: the first match wins, and the end of the switch fails.\<close>

fun first_match ::
    "(KeywordMatcher \<Rightarrow> KeywordMatcher option) list \<Rightarrow> KeywordMatcher \<Rightarrow> KeywordMatcher" where
  "first_match [] m = m\<lparr>km_state := ST_UNMATCHABLE\<rparr>"
| "first_match (f # fs) m = (case f m of Some m' \<Rightarrow> m' | None \<Rightarrow> first_match fs m)"

definition KeywordMatcher_Step :: "uchar \<Rightarrow> KeywordMatcher \<Rightarrow> KeywordMatcher" where
  "KeywordMatcher_Step input m =
     (case km_state m of
        ST_INITIAL \<Rightarrow>
          (let offset = input - kFirstCharRangeMin in
           if offset < kFirstCharRangeLength then
             (case first_states ! unat offset of (keyword, st, tok) \<Rightarrow>
                let m1 = m\<lparr>km_state := st\<rparr> in
                if st = ST_KEYWORD_PREFIX
                then m1\<lparr>km_keyword := keyword, km_counter := 1, km_keyword_token := tok\<rparr>
                else m1)
           else m\<lparr>km_state := ST_UNMATCHABLE\<rparr>)
      | ST_KEYWORD_PREFIX \<Rightarrow>
          (if keyword_at (km_keyword m) (km_counter m) = input then
             (let m1 = m\<lparr>km_counter := km_counter m + 1\<rparr> in
              if keyword_at (km_keyword m1) (km_counter m1) = 0
              then m1\<lparr>km_state := ST_KEYWORD_MATCHED, km_token := km_keyword_token m1\<rparr>
              else m1)
           else m\<lparr>km_state := ST_UNMATCHABLE\<rparr>)
      | ST_KEYWORD_MATCHED \<Rightarrow> m\<lparr>km_token := IDENTIFIER, km_state := ST_UNMATCHABLE\<rparr>
      | ST_C \<Rightarrow> first_match
          [MatchState input (CHR ''a'') ST_CA, MatchState input (CHR ''o'') ST_CO] m
      | ST_CA \<Rightarrow> first_match
          [MatchKeywordStart input ''case'' 2 CASE, MatchKeywordStart input ''catch'' 2 CATCH] m
      | ST_CO \<Rightarrow> first_match [MatchState input (CHR ''n'') ST_CON] m
      | ST_CON \<Rightarrow> first_match
          [MatchKeywordStart input ''const'' 3 CONST_TOK,
           MatchKeywordStart input ''continue'' 3 CONTINUE] m
      | ST_D \<Rightarrow> first_match
          [MatchState input (CHR ''e'') ST_DE,
           MatchKeyword input (CHR ''o'') ST_KEYWORD_MATCHED DO] m
      | ST_DE \<Rightarrow> first_match
          [MatchKeywordStart input ''debugger'' 2 DEBUGGER,
           MatchKeywordStart input ''default'' 2 DEFAULT,
           MatchKeywordStart input ''delete'' 2 DELETE] m
      | ST_F \<Rightarrow> first_match
          [MatchKeywordStart input ''false'' 1 FALSE_LITERAL,
           MatchKeywordStart input ''finally'' 1 FINALLY,
           MatchKeywordStart input ''for'' 1 FOR,
           MatchKeywordStart input ''function'' 1 FUNCTION] m
      | ST_I \<Rightarrow> first_match
          [MatchKeyword input (CHR ''f'') ST_KEYWORD_MATCHED IF,
           MatchKeyword input (CHR ''n'') ST_IN IN] m
      | ST_IN \<Rightarrow> first_match
          [MatchKeywordStart input ''instanceof'' 2 INSTANCEOF] (m\<lparr>km_token := IDENTIFIER\<rparr>)
      | ST_N \<Rightarrow> first_match
          [MatchKeywordStart input ''native'' 1 NATIVE,
           MatchKeywordStart input ''new'' 1 NEW,
           MatchKeywordStart input ''null'' 1 NULL_LITERAL] m
      | ST_T \<Rightarrow> first_match
          [MatchState input (CHR ''h'') ST_TH, MatchState input (CHR ''r'') ST_TR,
           MatchKeywordStart input ''typeof'' 1 TYPEOF] m
      | ST_TH \<Rightarrow> first_match
          [MatchKeywordStart input ''this'' 2 THIS, MatchKeywordStart input ''throw'' 2 THROW] m
      | ST_TR \<Rightarrow> first_match
          [MatchKeywordStart input ''true'' 2 TRUE_LITERAL,
           MatchKeyword input (CHR ''y'') ST_KEYWORD_MATCHED TRY] m
      | ST_V \<Rightarrow> first_match
          [MatchKeywordStart input ''var'' 1 VAR, MatchKeywordStart input ''void'' 1 VOID] m
      | ST_W \<Rightarrow> first_match
          [MatchKeywordStart input ''while'' 1 WHILE, MatchKeywordStart input ''with'' 1 WITH] m
      | ST_UNMATCHABLE \<Rightarrow> m\<lparr>km_state := ST_UNMATCHABLE\<rparr>)"

text \<open>\<open>AddChar\<close> also returns whether the matcher can still match.\<close>

definition KeywordMatcher_AddChar :: "uchar \<Rightarrow> KeywordMatcher \<Rightarrow> bool \<times> KeywordMatcher" where
  "KeywordMatcher_AddChar input m =
     (let m' = (if km_state m \<noteq> ST_UNMATCHABLE then KeywordMatcher_Step input m else m)
      in (km_state m' \<noteq> ST_UNMATCHABLE, m'))"

definition KeywordMatcher_Fail :: "KeywordMatcher \<Rightarrow> KeywordMatcher" where
  "KeywordMatcher_Fail m = m\<lparr>km_token := IDENTIFIER, km_state := ST_UNMATCHABLE\<rparr>"

definition AddChars :: "uchar list \<Rightarrow> KeywordMatcher \<Rightarrow> KeywordMatcher" where
  "AddChars w m = foldl (\<lambda>m c. snd (KeywordMatcher_AddChar c m)) m w"

text \<open>What the machine has to compute: the keyword token of token.h with this spelling.\<close>

definition uchars :: "string \<Rightarrow> uchar list" where
  "uchars s = map uchar_of_char s"

definition keyword_token :: "uchar list \<Rightarrow> Token" where
  "keyword_token w =
     (case find (\<lambda>t. IsKeyword t \<and> map_option uchars (Token_String t) = Some w) all_tokens of
        Some t \<Rightarrow> t | None \<Rightarrow> IDENTIFIER)"

section \<open>The keywords a state can still complete\<close>

definition keyword_pairs :: "(string \<times> Token) list" where
  "keyword_pairs =
    [(''instanceof'', INSTANCEOF), (''in'', IN), (''delete'', DELETE), (''typeof'', TYPEOF),
     (''void'', VOID), (''break'', BREAK), (''case'', CASE), (''catch'', CATCH),
     (''continue'', CONTINUE), (''debugger'', DEBUGGER), (''default'', DEFAULT), (''do'', DO),
     (''else'', ELSE), (''finally'', FINALLY), (''for'', FOR), (''function'', FUNCTION),
     (''if'', IF), (''new'', NEW), (''return'', RETURN), (''switch'', SWITCH), (''this'', THIS),
     (''throw'', THROW), (''try'', TRY), (''var'', VAR), (''while'', WHILE), (''with'', WITH),
     (''const'', CONST_TOK), (''native'', NATIVE), (''null'', NULL_LITERAL),
     (''true'', TRUE_LITERAL), (''false'', FALSE_LITERAL)]"

fun residual :: "State \<Rightarrow> KeywordMatcher \<Rightarrow> (string \<times> Token) list" where
  "residual ST_INITIAL m = keyword_pairs"
| "residual ST_KEYWORD_PREFIX m =
     (case km_keyword m of None \<Rightarrow> [] | Some s \<Rightarrow> [(drop (km_counter m) s, km_keyword_token m)])"
| "residual ST_KEYWORD_MATCHED m = [([], km_token m)]"
| "residual ST_C m = [(''ase'', CASE), (''atch'', CATCH), (''ontinue'', CONTINUE), (''onst'', CONST_TOK)]"
| "residual ST_CA m = [(''se'', CASE), (''tch'', CATCH)]"
| "residual ST_CO m = [(''ntinue'', CONTINUE), (''nst'', CONST_TOK)]"
| "residual ST_CON m = [(''tinue'', CONTINUE), (''st'', CONST_TOK)]"
| "residual ST_D m = [(''elete'', DELETE), (''ebugger'', DEBUGGER), (''efault'', DEFAULT), (''o'', DO)]"
| "residual ST_DE m = [(''lete'', DELETE), (''bugger'', DEBUGGER), (''fault'', DEFAULT)]"
| "residual ST_F m = [(''inally'', FINALLY), (''or'', FOR), (''unction'', FUNCTION), (''alse'', FALSE_LITERAL)]"
| "residual ST_I m = [(''nstanceof'', INSTANCEOF), (''n'', IN), (''f'', IF)]"
| "residual ST_IN m = [(''stanceof'', INSTANCEOF), ([], IN)]"
| "residual ST_N m = [(''ew'', NEW), (''ative'', NATIVE), (''ull'', NULL_LITERAL)]"
| "residual ST_T m = [(''ypeof'', TYPEOF), (''his'', THIS), (''hrow'', THROW), (''ry'', TRY), (''rue'', TRUE_LITERAL)]"
| "residual ST_TH m = [(''is'', THIS), (''row'', THROW)]"
| "residual ST_TR m = [(''y'', TRY), (''ue'', TRUE_LITERAL)]"
| "residual ST_V m = [(''oid'', VOID), (''ar'', VAR)]"
| "residual ST_W m = [(''hile'', WHILE), (''ith'', WITH)]"
| "residual ST_UNMATCHABLE m = []"

definition completes :: "KeywordMatcher \<Rightarrow> uchar list \<Rightarrow> Token option" where
  "completes m w = map_of (map (\<lambda>(s, t). (uchars s, t)) (residual (km_state m) m)) w"

definition km_wf :: "KeywordMatcher \<Rightarrow> bool" where
  "km_wf m \<longleftrightarrow>
     (km_state m = ST_KEYWORD_PREFIX \<longrightarrow>
        (\<exists>s. km_keyword m = Some s \<and> km_counter m < length s \<and> CHR 0x00 \<notin> set s)) \<and>
     (km_state m = ST_KEYWORD_MATCHED \<or> km_state m = ST_IN \<longrightarrow> km_token m = the (completes m [])) \<and>
     (km_state m \<noteq> ST_KEYWORD_MATCHED \<and> km_state m \<noteq> ST_IN \<longrightarrow> km_token m = IDENTIFIER)"

lemma uchars_simps [simp]:
  "uchars [] = []" "uchars (c # s) = uchar_of_char c # uchars s"
  by (simp_all add: uchars_def)

lemma uchar_of_char_inj: "uchar_of_char c = uchar_of_char d \<longleftrightarrow> c = d"
proof -
  have *: "uint (uchar_of_char c) = of_char c" for c
  proof -
    have "(of_char c :: int) < 256" "(0::int) \<le> of_char c"
      by (simp_all add: of_char_def)
    then show ?thesis
      unfolding uchar_of_char_def by (simp add: of_char_def)
  qed
  show ?thesis using *[of c] *[of d] by (metis of_char_eq_iff)
qed

lemma uchars_Nil [simp]: "uchars s = [] \<longleftrightarrow> s = []" "[] = uchars s \<longleftrightarrow> s = []"
  by (auto simp: uchars_def)

lemma uchars_inj: "uchars s = uchars t \<longleftrightarrow> s = t"
  unfolding uchars_def using uchar_of_char_inj by (metis injI inj_map_eq_map)

lemma uchar_of_char_zero: "uchar_of_char c = 0 \<longleftrightarrow> c = CHR 0x00"
proof -
  have "uchar_of_char (CHR 0x00) = 0" by (simp add: uchar_of_char_def)
  then show ?thesis using uchar_of_char_inj by metis
qed

lemma keyword_token_table:
  "keyword_token w = (case map_of (map (\<lambda>(s, t). (uchars s, t)) keyword_pairs) w of
     Some t \<Rightarrow> t | None \<Rightarrow> IDENTIFIER)"
  by (simp add: keyword_token_def all_tokens_def keyword_pairs_def del: uchars_simps)

lemma step_prefix:
  assumes "km_wf m" "km_state m = ST_KEYWORD_PREFIX"
  shows "km_wf (KeywordMatcher_Step c m) \<and>
         completes (KeywordMatcher_Step c m) w = completes m (c # w)"
proof -
  obtain s where s: "km_keyword m = Some s" "km_counter m < length s" "CHR 0x00 \<notin> set s"
    and tok: "km_token m = IDENTIFIER"
    using assms by (auto simp: km_wf_def)
  obtain d r where d: "drop (km_counter m) s = d # r" "s ! km_counter m = d"
    using s(2) by (metis Cons_nth_drop_Suc)
  have r: "drop (Suc (km_counter m)) s = r" using d(1) by (simp add: drop_Suc tl_drop[symmetric])
  have z: "keyword_at (Some s) (Suc (km_counter m)) = 0 \<longleftrightarrow> r = []"
  proof (cases "Suc (km_counter m) < length s")
    case True
    then have "r = s ! Suc (km_counter m) # drop (Suc (Suc (km_counter m))) s"
      using r by (metis Cons_nth_drop_Suc)
    moreover have "s ! Suc (km_counter m) \<noteq> CHR 0x00" using s(3) True by (metis nth_mem)
    ultimately show ?thesis using True by (simp add: keyword_at_def uchar_of_char_zero)
  next
    case False
    then show ?thesis using r by (auto simp: keyword_at_def)
  qed
  have l: "r \<noteq> [] \<Longrightarrow> Suc (km_counter m) < length s" using r by auto
  show ?thesis
    using assms(2) s tok d r z l
    by (auto simp: KeywordMatcher_Step_def Let_def completes_def km_wf_def keyword_at_def[of _ "km_counter m"])
qed

lemma step_initial:
  assumes "km_wf m" "km_state m = ST_INITIAL"
  shows "km_wf (KeywordMatcher_Step c m) \<and>
         completes (KeywordMatcher_Step c m) w = completes m (c # w)"
proof (cases "c - 98 < (22::uchar)")
  case True
  have "\<exists>i\<in>{..<22}. c = 98 + word_of_nat i"
    using True by (intro bexI[of _ "unat (c - 98)"]) (auto simp: word_less_nat_alt)
  then obtain i where i: "i < 22" "c = 98 + word_of_nat i" by auto
  have tok: "km_token m = IDENTIFIER" using assms by (simp add: km_wf_def)
  from i(1) have "i \<in> {0,1,2,3,4,5,6,7,8,9,10,11,12,13,14,15,16,17,18,19,20,21}"
    by (simp only: insert_iff empty_iff simp_thms) presburger
  then show ?thesis using assms(2) i(2) tok
    by (elim insertE emptyE; hypsubst)
       (simp_all add: KeywordMatcher_Step_def Let_def completes_def km_wf_def first_states_def
          kFirstCharRangeMin_def kFirstCharRangeMax_def kFirstCharRangeLength_def
          keyword_pairs_def uchar_of_char_def numeral_eq_Suc[of "num.One"])
next
  case False
  have tok: "km_token m = IDENTIFIER" using assms by (simp add: km_wf_def)
  have "c \<noteq> 98" "c \<noteq> 99" "c \<noteq> 100" "c \<noteq> 101" "c \<noteq> 102" "c \<noteq> 105" "c \<noteq> 110" "c \<noteq> 114" "c \<noteq> 115"
    "c \<noteq> 116" "c \<noteq> 118" "c \<noteq> 119" using False by auto
  then show ?thesis using assms(2) tok False
    by (simp add: KeywordMatcher_Step_def Let_def completes_def km_wf_def
          kFirstCharRangeMin_def kFirstCharRangeMax_def kFirstCharRangeLength_def
          keyword_pairs_def uchar_of_char_def)
qed

lemma step_other:
  assumes "km_wf m" "km_state m \<noteq> ST_INITIAL" "km_state m \<noteq> ST_KEYWORD_PREFIX"
  shows "km_wf (KeywordMatcher_Step c m) \<and>
         completes (KeywordMatcher_Step c m) w = completes m (c # w)"
  using assms
  by (cases "km_state m")
     (auto simp: KeywordMatcher_Step_def completes_def km_wf_def MatchState_def MatchKeyword_def
        MatchKeywordStart_def keyword_at_def uchar_of_char_def)

lemma km_wf_AddChar:
  assumes "km_wf m"
  shows "km_wf (snd (KeywordMatcher_AddChar c m)) \<and>
         completes (snd (KeywordMatcher_AddChar c m)) w = completes m (c # w)"
proof (cases "km_state m = ST_UNMATCHABLE")
  case True
  then show ?thesis by (simp add: KeywordMatcher_AddChar_def Let_def completes_def assms)
next
  case False
  have "km_wf (KeywordMatcher_Step c m) \<and> completes (KeywordMatcher_Step c m) w = completes m (c # w)"
    using step_prefix[OF assms] step_initial[OF assms] step_other[OF assms] by metis
  then show ?thesis using False by (simp add: KeywordMatcher_AddChar_def Let_def)
qed

lemma km_wf_new: "km_wf KeywordMatcher_new"
  by (simp add: km_wf_def KeywordMatcher_new_def)

lemma km_wf_token:
  assumes "km_wf m"
  shows "km_token m = (case completes m [] of Some t \<Rightarrow> t | None \<Rightarrow> IDENTIFIER)"
  using assms
  by (cases "km_state m") (auto simp: km_wf_def completes_def keyword_pairs_def)

lemma AddChars_wf:
  assumes "km_wf m"
  shows "km_wf (AddChars w m) \<and> completes (AddChars w m) v = completes m (w @ v)"
  using assms
proof (induction w arbitrary: m)
  case (Cons c w)
  then show ?case using km_wf_AddChar[OF Cons.prems, of c "w @ v"]
    by (simp add: AddChars_def)
qed (simp add: AddChars_def)

section \<open>The machine recognises exactly the keywords\<close>

lemma find_all_tokens:
  "find P all_tokens = Some t \<Longrightarrow> P t" "find P all_tokens = None \<Longrightarrow> \<not> P t"
proof -
  show "find P all_tokens = Some t \<Longrightarrow> P t" by (auto simp: find_Some_iff)
  have "t \<in> set all_tokens" by (cases t) (simp_all add: all_tokens_def)
  then show "find P all_tokens = None \<Longrightarrow> \<not> P t" by (auto simp: find_None_iff)
qed

lemma AddChars_token: "km_token (AddChars w KeywordMatcher_new) = keyword_token w"
proof -
  let ?m = "AddChars w KeywordMatcher_new"
  have "completes ?m [] = completes KeywordMatcher_new w"
    using AddChars_wf[OF km_wf_new, of w "[]"] by simp
  also have "\<dots> = map_of (map (\<lambda>(s, t). (uchars s, t)) keyword_pairs) w"
    by (simp add: completes_def KeywordMatcher_new_def)
  finally show ?thesis
    using km_wf_token[of ?m] AddChars_wf[OF km_wf_new, of w "[]"] by (simp add: keyword_token_table)
qed

lemma keyword_token_cases:
  "keyword_token w = IDENTIFIER \<or>
   IsKeyword (keyword_token w) \<and> map_option uchars (Token_String (keyword_token w)) = Some w"
proof (cases "find (\<lambda>t. IsKeyword t \<and> map_option uchars (Token_String t) = Some w) all_tokens")
  case None
  then show ?thesis by (simp add: keyword_token_def)
next
  case (Some t)
  then have "keyword_token w = t" by (simp add: keyword_token_def)
  then show ?thesis using find_all_tokens(1)[OF Some] by simp
qed

lemma map_of_uchars: "map_of (map (\<lambda>(s, t). (uchars s, t)) ps) (uchars s) = map_of ps s"
  by (induction ps) (auto simp: uchars_inj)

lemma keyword_token_spelling:
  assumes "IsKeyword t \<and> Token_String t = Some s"
  shows "keyword_token (uchars s) = t"
proof -
  have "(s, t) \<in> set keyword_pairs" using assms by (cases t) (auto simp: keyword_pairs_def)
  moreover have "distinct (map fst keyword_pairs)" by (simp add: keyword_pairs_def)
  ultimately show ?thesis by (simp add: keyword_token_table map_of_uchars)
qed

text \<open>
  C16. The keyword machine recognises exactly the keywords of token.h. After any sequence of
  characters the token is the keyword token whose spelling is the sequence, and IDENTIFIER when no
  keyword has that spelling; a keyword's own spelling gives that keyword; \<open>Fail\<close> gives IDENTIFIER
  whatever follows; and while a keyword is being matched the position read in it lies within it.
\<close>

theorem keyword_matcher_decides:
  "(\<forall>w. km_token (AddChars w KeywordMatcher_new) = keyword_token w) \<and>
   (\<forall>w t. keyword_token w = t \<longrightarrow> t = IDENTIFIER \<or> IsKeyword t \<and> map_option uchars (Token_String t) = Some w) \<and>
   (\<forall>t s. IsKeyword t \<and> Token_String t = Some s \<longrightarrow> keyword_token (uchars s) = t) \<and>
   (\<forall>m w. km_token (AddChars w (KeywordMatcher_Fail m)) = IDENTIFIER) \<and>
   (\<forall>w m. m = AddChars w KeywordMatcher_new \<and> km_state m = ST_KEYWORD_PREFIX \<longrightarrow>
      (\<exists>s. km_keyword m = Some s \<and> km_counter m < length s))"
proof (intro conjI allI impI)
  fix w t assume "keyword_token w = t"
  then show "t = IDENTIFIER \<or> IsKeyword t \<and> map_option uchars (Token_String t) = Some w"
    using keyword_token_cases[of w] by simp
next
  fix t s assume "IsKeyword t \<and> Token_String t = Some s"
  then show "keyword_token (uchars s) = t"
    by (rule keyword_token_spelling[rule_format])
next
  fix m w
  have "km_wf (KeywordMatcher_Fail m)" by (simp add: km_wf_def KeywordMatcher_Fail_def)
  from AddChars_wf[OF this, of w "[]"]
  have "km_wf (AddChars w (KeywordMatcher_Fail m))" "completes (AddChars w (KeywordMatcher_Fail m)) [] = None"
    by (simp_all add: completes_def KeywordMatcher_Fail_def)
  then show "km_token (AddChars w (KeywordMatcher_Fail m)) = IDENTIFIER" by (simp add: km_wf_token)
next
  fix w m assume "m = AddChars w KeywordMatcher_new \<and> km_state m = ST_KEYWORD_PREFIX"
  then show "\<exists>s. km_keyword m = Some s \<and> km_counter m < length s"
    using AddChars_wf[OF km_wf_new, of w "[]"] by (auto simp: km_wf_def)
qed (simp add: AddChars_token)

text \<open>The machine on the word \<open>in\<close> and its extension to \<open>instanceof\<close>.\<close>

theorem keyword_matcher_decides_witness:
  "km_token (AddChars (uchars ''in'') KeywordMatcher_new) = IN \<and>
   km_token (AddChars (uchars ''int'') KeywordMatcher_new) = IDENTIFIER \<and>
   keyword_token (uchars ''instanceof'') = INSTANCEOF"
proof -
  note c = keyword_matcher_decides
  have "km_token (AddChars w KeywordMatcher_new) = keyword_token w" for w
    using c by (elim conjE) (rule spec)
  moreover have "keyword_token (uchars ''instanceof'') = INSTANCEOF"
  proof -
    have "IsKeyword INSTANCEOF \<and> Token_String INSTANCEOF = Some ''instanceof''" by simp
    then show ?thesis using c by blast
  qed
  ultimately show ?thesis
    by (simp add: keyword_token_table keyword_pairs_def uchar_of_char_def)
qed

end
