(* ===== verification/CaseMapping.thy ===== *)
theory CaseMapping
  imports UnicodeTables
begin

text \<open>
  The search in the generated mapping tables of src/src/unicode.cc, \<open>LookupMapping\<close>, and the cache
  in front of it, \<open>Mapping\<close> of src/src/unicode.h and src/src/unicode-inl.h. A mapping table holds an
  entry and a value in turn. The characters written to the result buffer are returned as a list,
  with the flag that says whether they may be cached.
\<close>

section \<open>The lookup\<close>

definition TableGet :: "nat \<Rightarrow> int list \<Rightarrow> nat \<Rightarrow> int" where
  "TableGet D table index = table ! (D * index)"

text \<open>The loop of \<open>LookupMapping\<close> is the loop of \<open>LookupPredicate\<close> with two table cells per entry.\<close>

definition key_column :: "int list \<Rightarrow> int list" where
  "key_column table = map (TableGet 2 table) [0..<length table div 2]"

text \<open>A special case is the list of its initialisers; the rest of its \<open>kW\<close> characters is zero.\<close>

definition mcs_at :: "int list \<Rightarrow> nat \<Rightarrow> nat" where
  "mcs_at chars i = nat ((if i < length chars then chars ! i else 0) mod 2 ^ 32)"

definition kNoUchar :: nat where "kNoUchar = 2 ^ 32 - 1"

text \<open>The \<open>for\<close> loop over a special case; \<open>n\<close> characters are left and \<open>off\<close> is \<open>key - entry\<close>.\<close>

primrec special_chars :: "bool \<Rightarrow> int list \<Rightarrow> nat \<Rightarrow> nat \<Rightarrow> nat \<Rightarrow> nat list" where
  "special_chars ranges_are_linear chars off 0 i = []"
| "special_chars ranges_are_linear chars off (Suc n) i =
     (let mapped = mcs_at chars i in
      if mapped = kNoUchar then []
      else (if ranges_are_linear then (mapped + off) mod 2 ^ 32 else mapped)
           # special_chars ranges_are_linear chars off n (Suc i))"

text \<open>None stands for a search that goes wrong, as in \<open>lookup_loop\<close>, or a read behind
\<open>multi_chars\<close>.\<close>

definition LookupMapping ::
    "bool \<Rightarrow> nat \<Rightarrow> int list \<Rightarrow> nat \<Rightarrow> int list list \<Rightarrow> nat \<Rightarrow> nat \<Rightarrow> bool \<Rightarrow> (nat list \<times> bool) option" where
  "LookupMapping ranges_are_linear kW table sz multi_chars chr next allow_caching =
     (let key = chr mod kChunkBits; chunk_start = (chr - key) mod 2 ^ 16 in
      case lookup_loop (key_column table) sz key 0 (sz - 1) of
        None \<Rightarrow> None
      | Some low \<Rightarrow>
          (let field = TableGet 2 table low; entry = GetEntry field; is_start = IsStart field in
           if entry = key \<or> (entry < key \<and> is_start) then
             (let value = table ! (2 * low + 1) in
              if value = 0 then Some ([], allow_caching)
              else if value mod 4 = 0 then
                Some ([nat ((int (if ranges_are_linear then chr else entry + chunk_start) + value div 4)
                        mod 2 ^ 32)], allow_caching)
              else if value mod 4 = 1 then
                (if 0 \<le> value \<and> nat (value div 4) < length multi_chars then
                   Some (special_chars ranges_are_linear (multi_chars ! nat (value div 4))
                     (key - entry) kW 0, False)
                 else None)
              else if value div 4 = 1 then
                (if next \<noteq> 0 then
                   (case Letter_Is next of
                      None \<Rightarrow> None
                    | Some letter \<Rightarrow> Some ([if letter then 0x03C3 else 0x03C2], False))
                 else Some ([0x03C2], False))
              else Some ([], False))
           else Some ([], allow_caching)))"

section \<open>The cache\<close>

text \<open>\<open>Mapping<T, size>\<close>; the conversion \<open>T::Convert\<close> is the parameter.\<close>

record MapCacheEntry =
  mc_code_point :: nat
  mc_offset :: int

definition kNoChar :: nat where "kNoChar = 2 ^ 21 - 1"

definition Mapping_new :: "nat \<Rightarrow> MapCacheEntry list" where
  "Mapping_new sz = replicate sz \<lparr>mc_code_point = kNoChar, mc_offset = 0\<rparr>"

text \<open>\<open>result[0] - c\<close> as a signed 32-bit value.\<close>

definition signed_offset :: "nat \<Rightarrow> nat \<Rightarrow> int" where
  "signed_offset a b = (int a - int b + 2 ^ 31) mod 2 ^ 32 - 2 ^ 31"

type_synonym conversion = "nat \<Rightarrow> nat \<Rightarrow> bool \<Rightarrow> (nat list \<times> bool) option"

definition Mapping_CalculateValue ::
    "conversion \<Rightarrow> MapCacheEntry list \<Rightarrow> nat \<Rightarrow> nat \<Rightarrow> (nat list \<times> MapCacheEntry list) option" where
  "Mapping_CalculateValue Convert entries c n =
     (case Convert c n True of
        None \<Rightarrow> None
      | Some (result, allow_caching) \<Rightarrow>
          (let i = c mod length entries in
           if allow_caching then
             (if length result = 1
              then Some ([result ! 0],
                entries[i := \<lparr>mc_code_point = c, mc_offset = signed_offset (result ! 0) c\<rparr>])
              else Some ([], entries[i := \<lparr>mc_code_point = c, mc_offset = 0\<rparr>]))
           else Some (result, entries)))"

definition Mapping_get ::
    "conversion \<Rightarrow> MapCacheEntry list \<Rightarrow> nat \<Rightarrow> nat \<Rightarrow> (nat list \<times> MapCacheEntry list) option" where
  "Mapping_get Convert entries c n =
     (let entry = entries ! (c mod length entries) in
      if mc_code_point entry = c then
        (if mc_offset entry = 0 then Some ([], entries)
         else Some ([nat ((int c + mc_offset entry) mod 2 ^ 32)], entries))
      else Mapping_CalculateValue Convert entries c n)"

section \<open>A reference search\<close>

text \<open>The entry for a key by a scan from the front of the table, and the mapping it gives.\<close>

fun scan_entry :: "int list \<Rightarrow> nat \<Rightarrow> (nat \<times> int) option" where
  "scan_entry (x # v # table) key =
     (if GetEntry x = key \<or> GetEntry x < key \<and> IsStart x \<and> (table = [] \<or> key < GetEntry (hd table))
      then Some (GetEntry x, v) else scan_entry table key)"
| "scan_entry table key = None"

definition map_value ::
    "bool \<Rightarrow> nat \<Rightarrow> int list list \<Rightarrow> nat \<Rightarrow> nat \<Rightarrow> nat \<times> int \<Rightarrow> (nat list \<times> bool)" where
  "map_value linear kW multi_chars chr next = (\<lambda>(entry, value).
     if value = 0 then ([], True)
     else if value mod 4 = 0 then
       ([nat ((int (if linear then chr else entry + chr div kChunkBits * kChunkBits) + value div 4)
          mod 2 ^ 32)], True)
     else if value mod 4 = 1 then
       (special_chars linear (multi_chars ! nat (value div 4)) (chr mod kChunkBits - entry) kW 0, False)
     else if value div 4 = 1 then
       ([if in_chunks Letter_chunks next \<and> next \<noteq> 0 then 0x03C3 else 0x03C2], False)
     else ([], False))"

fun value_column :: "int list \<Rightarrow> int list" where
  "value_column (x # v # table) = v # value_column table"
| "value_column table = []"

definition mapping_ok :: "int list list \<Rightarrow> int list \<Rightarrow> bool" where
  "mapping_ok multi_chars table \<longleftrightarrow>
     even (length table) \<and> table \<noteq> [] \<and> table_ok (key_column table) \<and>
     list_all (\<lambda>v. v mod 4 = 1 \<longrightarrow> 0 \<le> v \<and> nat (v div 4) < length multi_chars) (value_column table)"

lemma key_column_simps [simp]:
  "key_column [] = []" "key_column [x] = []"
  "key_column (x # v # table) = x # key_column table"
proof -
  have *: "[0..<Suc n] = 0 # map Suc [0..<n]" for n
    by (simp add: map_Suc_upt upt_conv_Cons)
  show "key_column (x # v # table) = x # key_column table"
    by (simp add: key_column_def TableGet_def * del: upt_Suc map_Suc_upt)
qed (simp_all add: key_column_def)

lemma length_key_column [simp]: "length (key_column table) = length table div 2"
  by (simp add: key_column_def)

lemma key_column_nth: "i < length table div 2 \<Longrightarrow> key_column table ! i = TableGet 2 table i"
  by (simp add: key_column_def)

lemma key_column_hd: "even (length table) \<Longrightarrow> table \<noteq> [] \<Longrightarrow> hd table = key_column table ! 0"
  by (induction table rule: value_column.induct) auto

lemma value_column_nth: "i < length table div 2 \<Longrightarrow> table ! (2 * i + 1) \<in> set (value_column table)"
proof (induction table arbitrary: i rule: value_column.induct)
  case (1 x v table)
  then show ?case by (cases i) auto
qed auto

lemma table_ok_tl: "table_ok (x # t) \<Longrightarrow> table_ok t"
  by (cases t) auto

lemma scan_above:
  "even (length table) \<Longrightarrow> table_ok (key_column table) \<Longrightarrow>
   table \<noteq> [] \<Longrightarrow> key < GetEntry (key_column table ! 0) \<Longrightarrow> scan_entry table key = None"
proof (induction table key rule: scan_entry.induct)
  case (1 x v table key)
  show ?case
  proof (cases "table = []")
    case False
    have "0 < length (key_column table)" using False "1.prems"(1) by (cases table) auto
    then have "GetEntry x < GetEntry (key_column table ! 0)"
      using table_ok_less[OF "1.prems"(2), of 1 0] by simp
    then show ?thesis using 1 False table_ok_tl by auto
  qed (use 1 in auto)
qed auto

lemma scan_floor:
  "even (length table) \<Longrightarrow> table_ok (key_column table) \<Longrightarrow> i < length table div 2 \<Longrightarrow>
   GetEntry (key_column table ! i) \<le> key \<Longrightarrow>
   (i + 1 < length table div 2 \<longrightarrow> key < GetEntry (key_column table ! (i + 1))) \<Longrightarrow>
   scan_entry table key =
     (if hit (key_column table ! i) key
      then Some (GetEntry (key_column table ! i), table ! (2 * i + 1)) else None)"
proof (induction table key arbitrary: i rule: scan_entry.induct)
  case (1 x v table key)
  note ok = table_ok_tl[OF "1.prems"(2)[simplified]]
  show ?case
  proof (cases i)
    case 0
    have l: "table \<noteq> [] \<Longrightarrow> 0 < length table div 2" using "1.prems"(1) by (cases table) auto
    have k: "table \<noteq> [] \<Longrightarrow> key < GetEntry (key_column table ! 0) \<and> hd table = key_column table ! 0"
      using "1.prems"(1,5) 0 l key_column_hd by simp
    have n: "table \<noteq> [] \<Longrightarrow> scan_entry table key = None"
      using scan_above[OF _ ok] k "1.prems"(1) by simp
    show ?thesis using 0 k n "1.prems"(4) by (cases "table = []") (auto simp: hit_def)
  next
    case (Suc j)
    have j: "j < length table div 2" using "1.prems"(3) Suc by simp
    have t: "table \<noteq> []" using j by auto
    have h: "hd table = key_column table ! 0" using key_column_hd t "1.prems"(1) by simp
    have "GetEntry x < GetEntry (key_column table ! j)"
      using table_ok_less[OF "1.prems"(2), of "Suc j" 0] j by simp
    moreover have "GetEntry (key_column table ! 0) \<le> GetEntry (key_column table ! j)"
      using table_ok_less[OF ok, of j 0] j by (cases "j = 0") auto
    ultimately have nc: "\<not> (GetEntry x = key \<or> GetEntry x < key \<and> IsStart x \<and> (table = [] \<or> key < GetEntry (hd table)))"
      using "1.prems"(4) Suc t h by simp
    then have "scan_entry (x # v # table) key = scan_entry table key"
      by (simp only: scan_entry.simps if_False)
    then show ?thesis using "1.IH"[OF nc _ ok j] "1.prems" Suc by simp
  qed
qed auto

lemma LookupMapping_scan:
  assumes ok: "mapping_ok multi_chars table" and sz: "length table = 2 * sz" and c: "chr < 2 ^ 16"
  shows "LookupMapping linear kW table sz multi_chars chr next allow_caching =
    Some (case scan_entry table (chr mod kChunkBits) of
            None \<Rightarrow> ([], allow_caching)
          | Some ev \<Rightarrow> map_prod id (\<lambda>b. b \<and> allow_caching) (map_value linear kW multi_chars chr next ev))"
proof -
  let ?k = "chr mod kChunkBits" and ?t = "key_column table"
  have t: "even (length table)" "table \<noteq> []" "table_ok ?t" using ok by (auto simp: mapping_ok_def)
  have s0: "0 < sz" using t sz by (cases sz) auto
  obtain i where i: "i < sz" "lookup_loop ?t sz ?k 0 (sz - 1) = Some i"
    and fl: "GetEntry (?t ! i) \<le> ?k \<and> (i + 1 < sz \<longrightarrow> ?k < GetEntry (?t ! (i + 1))) \<or>
     i = 0 \<and> ?k < GetEntry (?t ! 0)"
    using lookup_loop_floor [OF t(3), of sz 0 "sz - 1" ?k] s0 sz by auto
  have ti: "TableGet 2 table i = ?t ! i" using i(1) sz by (simp add: key_column_nth)
  have sc: "scan_entry table ?k = (if hit (?t ! i) ?k then Some (GetEntry (?t ! i), table ! (2 * i + 1)) else None)"
  proof (cases "GetEntry (?t ! i) \<le> ?k")
    case True
    then show ?thesis using scan_floor[OF t(1,3), of i ?k] fl i sz by auto
  next
    case False
    then show ?thesis using fl scan_above[OF t(1,3,2)] by (auto simp: hit_def)
  qed
  have v: "table ! (2 * i + 1) mod 4 = 1 \<Longrightarrow>
      0 \<le> table ! (2 * i + 1) \<and> nat (table ! (2 * i + 1) div 4) < length multi_chars"
    using value_column_nth[of i table] i sz ok by (auto simp: mapping_ok_def list_all_iff)
  have st: "(chr - ?k) mod 65536 = chr div kChunkBits * kChunkBits"
    using c by (simp add: minus_mod_eq_div_mult kChunkBits_def) 
  note i2 = i(2)[unfolded One_nat_def]
  let ?v = "table ! (2 * i + 1)" and ?e = "GetEntry (?t ! i)"
  show ?thesis
  proof (cases "hit (?t ! i) ?k")
    case False
    then have "scan_entry table ?k = None" "?e \<noteq> ?k" "?e < ?k \<Longrightarrow> \<not> IsStart (?t ! i)"
      using sc by (auto simp: hit_def)
    then show ?thesis by (cases "?e < ?k") (simp_all add: LookupMapping_def Let_def i2 ti)
  next
    case True
    then have h: "?e = ?k \<or> ?e < ?k \<and> IsStart (?t ! i)" by (simp add: hit_def)
    consider "?v = 0" | "?v \<noteq> 0" "?v mod 4 = 0" | "?v mod 4 = 1"
      | "?v mod 4 \<noteq> 0" "?v mod 4 \<noteq> 1" "?v div 4 = 1" | "?v mod 4 \<noteq> 0" "?v mod 4 \<noteq> 1" "?v div 4 \<noteq> 1"
      by blast
    then show ?thesis
    proof cases
      case 3
      then have "?v \<noteq> 0" by auto
      then show ?thesis using 3 v by (simp add: LookupMapping_def Let_def i2 ti h sc True map_value_def)
    next
      case 4
      then have "?v \<noteq> 0" by auto
      then show ?thesis using 4
        by (simp add: LookupMapping_def Let_def i2 ti h sc True map_value_def Letter_Is_correct)
    qed (use st in \<open>simp_all add: LookupMapping_def Let_def i2 ti h sc True map_value_def\<close>)
  qed
qed

section \<open>What the cache relies on\<close>

lemma signed_offset_inverse:
  assumes "a < 2 ^ 32" "b < 2 ^ 32"
  shows "nat ((int b + signed_offset a b) mod 2 ^ 32) = a" "signed_offset a b = 0 \<longleftrightarrow> a = b"
proof -
  let ?d = "int a - int b + 2 ^ 31"
  have "(int b + signed_offset a b) mod 2 ^ 32 = (int b - 2 ^ 31 + ?d mod 2 ^ 32) mod 2 ^ 32"
    by (simp add: signed_offset_def algebra_simps)
  also have "\<dots> = (int b - 2 ^ 31 + ?d) mod 2 ^ 32" by (rule mod_add_right_eq)
  also have "\<dots> = int a" using assms by simp
  finally show *: "nat ((int b + signed_offset a b) mod 2 ^ 32) = a" by simp
  show "signed_offset a b = 0 \<longleftrightarrow> a = b"
  proof
    assume "signed_offset a b = 0"
    then show "a = b" using * assms by simp
  qed (simp add: signed_offset_def)
qed

text \<open>
  The contract of a conversion: it is total, a result that may be cached does not depend on the
  next character and is at most one character, never the character itself, and the code point
  that marks a free cache entry has no mapping.
\<close>

locale conversion_fun =
  fixes Convert :: conversion
  assumes total: "\<exists>r ac. Convert c n True = Some (r, ac)"
    and cacheable: "Convert c n True = Some (r, True) \<Longrightarrow>
      Convert c n' True = Some (r, True) \<and> (r = [] \<or> (\<exists>x. r = [x] \<and> x < 2 ^ 32 \<and> x \<noteq> c))"
    and free_entry: "Convert kNoChar n True = Some ([], True)"
begin

definition entry_ok :: "MapCacheEntry \<Rightarrow> bool" where
  "entry_ok e \<longleftrightarrow> (\<exists>r. (\<forall>n. Convert (mc_code_point e) n True = Some (r, True)) \<and>
     (if mc_offset e = 0 then r = []
      else r = [nat ((int (mc_code_point e) + mc_offset e) mod 2 ^ 32)]))"

lemma entry_ok_new: "list_all entry_ok (Mapping_new sz)"
  by (auto simp: Mapping_new_def list_all_iff entry_ok_def free_entry)

lemma Mapping_get_ok:
  assumes ok: "list_all entry_ok entries" and len: "0 < length entries" and c: "c < 2 ^ 32"
  shows "\<exists>r ac entries'. Convert c n True = Some (r, ac) \<and>
    Mapping_get Convert entries c n = Some (r, entries') \<and> list_all entry_ok entries' \<and>
    length entries' = length entries"
proof -
  let ?i = "c mod length entries" and ?e = "entries ! (c mod length entries)"
  have i: "?i < length entries" using len by simp
  have e: "entry_ok ?e" using ok i by (simp add: list_all_length)
  obtain r ac where r: "Convert c n True = Some (r, ac)" using total by blast
  show ?thesis
  proof (cases "mc_code_point ?e = c")
    case True
    then show ?thesis using e ok by (auto simp: entry_ok_def Mapping_get_def Let_def split: if_splits)
  next
    case False
    note get = False r Mapping_get_def Mapping_CalculateValue_def Let_def
    show ?thesis
    proof (cases ac)
      case False
      then show ?thesis using ok
        by (intro exI [of _ r] exI [of _ ac] exI [of _ entries]) (simp add: get)
    next
      case True
      have all: "Convert c n' True = Some (r, True)" for n' using cacheable [of c n r n'] r True by simp
      consider "r = []" | x where "r = [x]" "x < 2 ^ 32" "x \<noteq> c" using cacheable [of c n r n] r True by auto
      then show ?thesis
      proof cases
        case 1
        then have "entry_ok \<lparr>mc_code_point = c, mc_offset = 0\<rparr>" using all by (simp add: entry_ok_def)
        then show ?thesis using 1 ok i True
          by (intro exI [of _ r] exI [of _ True]) (simp add: get list_all_length nth_list_update)
      next
        case (2 x)
        then have "entry_ok \<lparr>mc_code_point = c, mc_offset = signed_offset x c\<rparr>"
          using all signed_offset_inverse[OF _ c, of x] by (simp add: entry_ok_def)
        then show ?thesis using 2 ok i True
          by (intro exI [of _ r] exI [of _ True]) (simp add: get list_all_length nth_list_update)
      qed
    qed
  qed
qed

end

text \<open>A sequence of lookups through one cache.\<close>

fun Mapping_gets ::
    "conversion \<Rightarrow> MapCacheEntry list \<Rightarrow> (nat \<times> nat) list \<Rightarrow> nat list option list" where
  "Mapping_gets Convert entries [] = []"
| "Mapping_gets Convert entries ((c, n) # qs) =
     (case Mapping_get Convert entries c n of
        None \<Rightarrow> [None]
      | Some (r, entries') \<Rightarrow> Some r # Mapping_gets Convert entries' qs)"

context conversion_fun begin

lemma Mapping_gets_ok:
  "list_all entry_ok entries \<Longrightarrow> 0 < length entries \<Longrightarrow> \<forall>(c, n) \<in> set qs. c < 2 ^ 32 \<Longrightarrow>
   Mapping_gets Convert entries qs = map (\<lambda>(c, n). map_option fst (Convert c n True)) qs"
proof (induction qs arbitrary: entries)
  case (Cons q qs)
  obtain c n where q: "q = (c, n)" by (cases q)
  obtain r ac entries' where r: "Convert c n True = Some (r, ac)"
      "Mapping_get Convert entries c n = Some (r, entries')" "list_all entry_ok entries'"
      "length entries' = length entries"
    using Mapping_get_ok[of entries c n] Cons.prems q by auto
  then show ?case using Cons.IH[of entries'] Cons.prems q by simp
qed simp

end

section \<open>A conversion by its chunks\<close>

type_synonym chunk = "nat \<times> nat \<times> int list list \<times> int list"

text \<open>What a conversion computes: the tables of the chunk, scanned from the front.\<close>

definition convert_spec :: "bool \<Rightarrow> chunk list \<Rightarrow> nat \<Rightarrow> nat \<Rightarrow> nat list \<times> bool" where
  "convert_spec linear chunks c n =
     (case map_of chunks (c div kChunkBits) of
        None \<Rightarrow> ([], True)
      | Some (kW, multi_chars, table) \<Rightarrow>
          (case scan_entry table (c mod kChunkBits) of
             None \<Rightarrow> ([], True)
           | Some ev \<Rightarrow> map_value linear kW multi_chars c n ev))"

text \<open>Values are 32-bit integers; where ranges are not linear, a value leads out of its range.\<close>

fun values_ok :: "bool \<Rightarrow> int list \<Rightarrow> bool" where
  "values_ok linear (x # v # table) =
     (- (2 ^ 31) \<le> v \<and> v < 2 ^ 31 \<and>
      (linear \<or> v = 0 \<or> v mod 4 \<noteq> 0 \<or>
        (IsStart x \<and> table \<noteq> [] \<and> int (GetEntry (hd table)) \<le> int (GetEntry x) + v div 4)) \<and>
      values_ok linear table)"
| "values_ok linear table = True"

definition chunk_ok :: "bool \<Rightarrow> chunk \<Rightarrow> bool" where
  "chunk_ok linear = (\<lambda>(k, kW, multi_chars, table).
     k < 8 \<and> mapping_ok multi_chars table \<and> values_ok linear table)"

lemma scan_entry_value:
  assumes "values_ok linear table" "scan_entry table key = Some (e, v)" "table_ok (key_column table)"
    "even (length table)"
  shows "- (2 ^ 31) \<le> v \<and> v < 2 ^ 31 \<and> e \<le> key \<and>
    (\<not> linear \<and> v \<noteq> 0 \<and> v mod 4 = 0 \<longrightarrow> int key < int e + v div 4)"
  using assms
proof (induction table key rule: scan_entry.induct)
  case (1 x w table key)
  have ok: "table_ok (key_column table)" "even (length table)"
    using "1.prems"(3,4) table_ok_tl by auto
  show ?case
  proof (cases "GetEntry x = key \<or> GetEntry x < key \<and> IsStart x \<and> (table = [] \<or> key < GetEntry (hd table))")
    case True
    then have ev: "e = GetEntry x" "v = w" using "1.prems"(2) by auto
    have lt: "table \<noteq> [] \<Longrightarrow> GetEntry x < GetEntry (hd table)"
    proof -
      assume t: "table \<noteq> []"
      then have "0 < length (key_column table)" using ok(2) by (cases table) auto
      then show "GetEntry x < GetEntry (hd table)"
        using table_ok_less[OF "1.prems"(3), of 1 0] key_column_hd[OF ok(2) t] by simp
    qed
    show ?thesis using True ev lt "1.prems"(1) by auto
  next
    case False
    then have "scan_entry table key = Some (e, v)"
      using "1.prems"(2) by (simp only: scan_entry.simps if_False)
    then show ?thesis using "1.IH"[OF False] "1.prems"(1) ok by simp
  qed
qed auto

lemma convert_spec_contract:
  assumes ok: "list_all (chunk_ok linear) chunks"
    and r: "convert_spec linear chunks c n = (r, True)"
  shows "convert_spec linear chunks c n' = (r, True) \<and> (r = [] \<or> (\<exists>x. r = [x] \<and> x < 2 ^ 32 \<and> x \<noteq> c))"
proof (cases "map_of chunks (c div kChunkBits)")
  case None
  then show ?thesis using r by (simp add: convert_spec_def)
next
  case (Some ch)
  obtain kW ms t where ch: "ch = (kW, ms, t)" by (cases ch)
  have "chunk_ok linear (c div kChunkBits, ch)"
    using ok Some by (auto simp: list_all_iff dest: map_of_SomeD)
  then have t: "c div kChunkBits < 8" "values_ok linear t" "table_ok (key_column t)" "even (length t)"
    by (auto simp: chunk_ok_def ch mapping_ok_def)
  have c: "c < 2 ^ 16" "c = c div kChunkBits * kChunkBits + c mod kChunkBits"
    using t(1) by (auto simp: kChunkBits_def)
  show ?thesis
  proof (cases "scan_entry t (c mod kChunkBits)")
    case None
    then show ?thesis using Some ch r by (simp add: convert_spec_def)
  next
    case (Some ev)
    obtain e v where ev: "ev = (e, v)" by (cases ev)
    have s: "convert_spec linear chunks c m = map_value linear kW ms c m (e, v)" for m
      using Some ev ch \<open>map_of chunks _ = Some ch\<close> by (simp add: convert_spec_def)
    note b = scan_entry_value[OF t(2) Some[unfolded ev] t(3,4)]
    show ?thesis
    proof (cases "v = 0 \<or> v mod 4 \<noteq> 0")
      case True
      then show ?thesis using r by (auto simp: s map_value_def split: if_splits)
    next
      case False
      let ?s = "int (if linear then c else e + c div kChunkBits * kChunkBits) + v div 4"
      have x: "map_value linear kW ms c m (e, v) = ([nat (?s mod 2 ^ 32)], True)" for m
        using False by (simp add: map_value_def)
      have d: "- (2 ^ 29) \<le> v div 4" "v div 4 < 2 ^ 29" "v div 4 \<noteq> 0" using b False by auto
      have k: "c mod kChunkBits < 2 ^ 13" by (simp add: kChunkBits_def)
      have e: "e \<le> c mod kChunkBits" using b by simp
      have ci: "int c = int (c div kChunkBits) * int kChunkBits + int (c mod kChunkBits)"
        by (metis c(2) of_nat_add of_nat_mult)
      have "?s - int c \<noteq> 0 \<and> \<bar>?s - int c\<bar> < 2 ^ 32"
      proof (cases linear)
        case True
        then show ?thesis using d by auto
      next
        case False
        have "?s - int c = int e + v div 4 - int (c mod kChunkBits)"
          using False ci by simp
        then show ?thesis using b False d k e \<open>\<not> (v = 0 \<or> v mod 4 \<noteq> 0)\<close> by auto
      qed
      then have "\<not> (2 ^ 32 :: int) dvd ?s - int c"
        using dvd_imp_le_int[of "?s - int c" "2 ^ 32"] by auto
      then have "?s mod 2 ^ 32 \<noteq> int c mod 2 ^ 32" by (simp add: mod_eq_dvd_iff)
      moreover have "int c mod 2 ^ 32 = int c" using c(1) by simp
      ultimately have "?s mod 2 ^ 32 \<noteq> int c" by simp
      moreover have "0 \<le> ?s mod 2 ^ 32" "?s mod 2 ^ 32 < 2 ^ 32" by simp_all
      moreover have "nat z < 2 ^ 32 \<and> nat z \<noteq> c"
        if "z \<noteq> int c" "0 \<le> z" "z < 2 ^ 32" for z using that by auto
      ultimately have "nat (?s mod 2 ^ 32) < 2 ^ 32 \<and> nat (?s mod 2 ^ 32) \<noteq> c" by blast
      then show ?thesis using r by (auto simp: s x)
    qed
  qed
qed

lemma length_special_chars: "length (special_chars linear chars off kW i) \<le> kW"
  by (induction kW arbitrary: i) (auto simp: Let_def)

lemma length_map_value: "length (fst (map_value linear kW ms c n ev)) \<le> max 1 kW"
  using length_special_chars[of linear] by (cases ev) (simp add: map_value_def le_max_iff_disj)

lemma length_convert_spec:
  assumes "list_all (\<lambda>(k, kW, ms, t). kW \<le> w) chunks" "1 \<le> w"
  shows "length (fst (convert_spec linear chunks c n)) \<le> w"
proof (cases "map_of chunks (c div kChunkBits)")
  case (Some ch)
  obtain kW ms t where ch: "ch = (kW, ms, t)" by (cases ch)
  have "kW \<le> w" using assms Some ch by (auto simp: list_all_iff dest: map_of_SomeD)
  then show ?thesis using Some ch length_map_value assms(2)
    by (auto simp: convert_spec_def split: option.splits) (meson le_trans max.bounded_iff)
qed (simp add: convert_spec_def)

text \<open>The characters of a special case before the end mark, and their order.\<close>

lemma special_chars_linear:
  "special_chars True chars off kW i = map (\<lambda>m. (m + off) mod 2 ^ 32) (special_chars False chars 0 kW i)"
  by (induction kW arbitrary: i) (auto simp: Let_def)

definition ascending_case :: "nat \<Rightarrow> int list \<Rightarrow> bool" where
  "ascending_case kW chars \<longleftrightarrow>
     (let cs = special_chars False chars 0 kW 0 in sorted_wrt (<) cs \<and> list_all (\<lambda>m. m < 2 ^ 16) cs)"

lemma special_chars_ascending:
  assumes "ascending_case kW chars" "off < kChunkBits"
  shows "sorted_wrt (<) (special_chars True chars off kW 0)"
proof -
  let ?cs = "special_chars False chars 0 kW 0"
  have "sorted_wrt (<) ?cs" and lt: "\<And>m. m \<in> set ?cs \<Longrightarrow> m < 2 ^ 16"
    using assms(1) by (simp_all add: ascending_case_def Let_def list_all_iff)
  moreover have "(m + off) mod 2 ^ 32 = m + off" if "m \<in> set ?cs" for m
    using lt[OF that] assms(2) by (simp add: kChunkBits_def)
  ultimately have "sorted_wrt (\<lambda>x y. (x + off) mod 2 ^ 32 < (y + off) mod 2 ^ 32) ?cs"
    by (auto elim!: sorted_wrt_mono_rel[rotated])
  then show ?thesis by (simp add: special_chars_linear sorted_wrt_map)
qed

lemma convert_spec_ascending:
  assumes ok: "list_all (\<lambda>(k, kW, ms, t). mapping_ok ms t \<and> list_all (ascending_case kW) ms) chunks"
  shows "sorted_wrt (<) (fst (convert_spec True chunks c n))"
proof (cases "map_of chunks (c div kChunkBits)")
  case (Some ch)
  obtain kW ms t where ch: "ch = (kW, ms, t)" by (cases ch)
  have k: "mapping_ok ms t" "list_all (ascending_case kW) ms"
    using ok map_of_SomeD[OF Some] unfolding ch list_all_iff by blast+
  show ?thesis
  proof (cases "scan_entry t (c mod kChunkBits)")
    case None
    then show ?thesis using Some ch by (simp add: convert_spec_def)
  next
    case ev: (Some ev)
    obtain e v where e: "ev = (e, v)" by (cases ev)
    have v: "v \<in> set (value_column t)"
      using ev e by (induction t "c mod kChunkBits" rule: scan_entry.induct) (auto split: if_splits)
    have "c mod kChunkBits - e < kChunkBits" by (simp add: kChunkBits_def less_imp_diff_less)
    then show ?thesis
      using Some ch ev e v k
      by (auto simp: convert_spec_def map_value_def mapping_ok_def list_all_iff intro!: special_chars_ascending)
  qed
qed (simp add: convert_spec_def)

end
