(* ===== verification/CaseTables.thy ===== *)
theory CaseTables
  imports CaseMapping
begin

text \<open>
  The mapping tables of src/src/unicode.cc as they are there, and the conversions that search them:
  \<open>ToLowercase\<close>, \<open>ToUppercase\<close>, \<open>Ecma262Canonicalize\<close>, \<open>Ecma262UnCanonicalize\<close> and
  \<open>CanonicalizationRange\<close>. A conversion returns the characters it writes and the caching flag.
\<close>

section \<open>Tables and conversions\<close>

definition kToLowercaseMultiStrings0 :: "int list list" where
  "kToLowercaseMultiStrings0 = [
   [105, 775], [-1]]"

definition kToLowercaseTable0Size :: nat where "kToLowercaseTable0Size = 463"

definition kToLowercaseTable0 :: "int list" where
  "kToLowercaseTable0 = [
   1073741889, 128, 90, 128, 1073742016, 128, 214, 128, 1073742040, 128, 222, 128, 256, 4, 258,
   4, 260, 4, 262, 4, 264, 4, 266, 4, 268, 4, 270, 4, 272, 4, 274, 4, 276, 4, 278, 4, 280, 4,
   282, 4, 284, 4, 286, 4, 288, 4, 290, 4, 292, 4, 294, 4, 296, 4, 298, 4, 300, 4, 302, 4, 304,
   1, 306, 4, 308, 4, 310, 4, 313, 4, 315, 4, 317, 4, 319, 4, 321, 4, 323, 4, 325, 4, 327, 4,
   330, 4, 332, 4, 334, 4, 336, 4, 338, 4, 340, 4, 342, 4, 344, 4, 346, 4, 348, 4, 350, 4, 352,
   4, 354, 4, 356, 4, 358, 4, 360, 4, 362, 4, 364, 4, 366, 4, 368, 4, 370, 4, 372, 4, 374, 4,
   376, -484, 377, 4, 379, 4, 381, 4, 385, 840, 386, 4, 388, 4, 390, 824, 391, 4, 1073742217,
   820, 394, 820, 395, 4, 398, 316, 399, 808, 400, 812, 401, 4, 403, 820, 404, 828, 406, 844,
   407, 836, 408, 4, 412, 844, 413, 852, 415, 856, 416, 4, 418, 4, 420, 4, 422, 872, 423, 4, 425,
   872, 428, 4, 430, 872, 431, 4, 1073742257, 868, 434, 868, 435, 4, 437, 4, 439, 876, 440, 4,
   444, 4, 452, 8, 453, 4, 455, 8, 456, 4, 458, 8, 459, 4, 461, 4, 463, 4, 465, 4, 467, 4, 469,
   4, 471, 4, 473, 4, 475, 4, 478, 4, 480, 4, 482, 4, 484, 4, 486, 4, 488, 4, 490, 4, 492, 4,
   494, 4, 497, 8, 498, 4, 500, 4, 502, -388, 503, -224, 504, 4, 506, 4, 508, 4, 510, 4, 512, 4,
   514, 4, 516, 4, 518, 4, 520, 4, 522, 4, 524, 4, 526, 4, 528, 4, 530, 4, 532, 4, 534, 4, 536,
   4, 538, 4, 540, 4, 542, 4, 544, -520, 546, 4, 548, 4, 550, 4, 552, 4, 554, 4, 556, 4, 558, 4,
   560, 4, 562, 4, 570, 43180, 571, 4, 573, -652, 574, 43168, 577, 4, 579, -780, 580, 276, 581,
   284, 582, 4, 584, 4, 586, 4, 588, 4, 590, 4, 902, 152, 1073742728, 148, 906, 148, 908, 256,
   1073742734, 252, 911, 252, 1073742737, 128, 929, 128, 931, 6, 1073742756, 128, 939, 128, 984,
   4, 986, 4, 988, 4, 990, 4, 992, 4, 994, 4, 996, 4, 998, 4, 1000, 4, 1002, 4, 1004, 4, 1006, 4,
   1012, -240, 1015, 4, 1017, -28, 1018, 4, 1073742845, -520, 1023, -520, 1073742848, 320, 1039,
   320, 1073742864, 128, 1071, 128, 1120, 4, 1122, 4, 1124, 4, 1126, 4, 1128, 4, 1130, 4, 1132,
   4, 1134, 4, 1136, 4, 1138, 4, 1140, 4, 1142, 4, 1144, 4, 1146, 4, 1148, 4, 1150, 4, 1152, 4,
   1162, 4, 1164, 4, 1166, 4, 1168, 4, 1170, 4, 1172, 4, 1174, 4, 1176, 4, 1178, 4, 1180, 4,
   1182, 4, 1184, 4, 1186, 4, 1188, 4, 1190, 4, 1192, 4, 1194, 4, 1196, 4, 1198, 4, 1200, 4,
   1202, 4, 1204, 4, 1206, 4, 1208, 4, 1210, 4, 1212, 4, 1214, 4, 1216, 60, 1217, 4, 1219, 4,
   1221, 4, 1223, 4, 1225, 4, 1227, 4, 1229, 4, 1232, 4, 1234, 4, 1236, 4, 1238, 4, 1240, 4,
   1242, 4, 1244, 4, 1246, 4, 1248, 4, 1250, 4, 1252, 4, 1254, 4, 1256, 4, 1258, 4, 1260, 4,
   1262, 4, 1264, 4, 1266, 4, 1268, 4, 1270, 4, 1272, 4, 1274, 4, 1276, 4, 1278, 4, 1280, 4,
   1282, 4, 1284, 4, 1286, 4, 1288, 4, 1290, 4, 1292, 4, 1294, 4, 1296, 4, 1298, 4, 1073743153,
   192, 1366, 192, 1073746080, 29056, 4293, 29056, 7680, 4, 7682, 4, 7684, 4, 7686, 4, 7688, 4,
   7690, 4, 7692, 4, 7694, 4, 7696, 4, 7698, 4, 7700, 4, 7702, 4, 7704, 4, 7706, 4, 7708, 4,
   7710, 4, 7712, 4, 7714, 4, 7716, 4, 7718, 4, 7720, 4, 7722, 4, 7724, 4, 7726, 4, 7728, 4,
   7730, 4, 7732, 4, 7734, 4, 7736, 4, 7738, 4, 7740, 4, 7742, 4, 7744, 4, 7746, 4, 7748, 4,
   7750, 4, 7752, 4, 7754, 4, 7756, 4, 7758, 4, 7760, 4, 7762, 4, 7764, 4, 7766, 4, 7768, 4,
   7770, 4, 7772, 4, 7774, 4, 7776, 4, 7778, 4, 7780, 4, 7782, 4, 7784, 4, 7786, 4, 7788, 4,
   7790, 4, 7792, 4, 7794, 4, 7796, 4, 7798, 4, 7800, 4, 7802, 4, 7804, 4, 7806, 4, 7808, 4,
   7810, 4, 7812, 4, 7814, 4, 7816, 4, 7818, 4, 7820, 4, 7822, 4, 7824, 4, 7826, 4, 7828, 4,
   7840, 4, 7842, 4, 7844, 4, 7846, 4, 7848, 4, 7850, 4, 7852, 4, 7854, 4, 7856, 4, 7858, 4,
   7860, 4, 7862, 4, 7864, 4, 7866, 4, 7868, 4, 7870, 4, 7872, 4, 7874, 4, 7876, 4, 7878, 4,
   7880, 4, 7882, 4, 7884, 4, 7886, 4, 7888, 4, 7890, 4, 7892, 4, 7894, 4, 7896, 4, 7898, 4,
   7900, 4, 7902, 4, 7904, 4, 7906, 4, 7908, 4, 7910, 4, 7912, 4, 7914, 4, 7916, 4, 7918, 4,
   7920, 4, 7922, 4, 7924, 4, 7926, 4, 7928, 4, 1073749768, -32, 7951, -32, 1073749784, -32,
   7965, -32, 1073749800, -32, 7983, -32, 1073749816, -32, 7999, -32, 1073749832, -32, 8013, -32,
   8025, -32, 8027, -32, 8029, -32, 8031, -32, 1073749864, -32, 8047, -32, 1073749896, -32, 8079,
   -32, 1073749912, -32, 8095, -32, 1073749928, -32, 8111, -32, 1073749944, -32, 8121, -32,
   1073749946, -296, 8123, -296, 8124, -36, 1073749960, -344, 8139, -344, 8140, -36, 1073749976,
   -32, 8153, -32, 1073749978, -400, 8155, -400, 1073749992, -32, 8169, -32, 1073749994, -448,
   8171, -448, 8172, -28, 1073750008, -512, 8185, -512, 1073750010, -504, 8187, -504, 8188, -36]"

definition kToLowercaseMultiStrings1 :: "int list list" where
  "kToLowercaseMultiStrings1 = [
   [-1]]"

definition kToLowercaseTable1Size :: nat where "kToLowercaseTable1Size = 69"

definition kToLowercaseTable1 :: "int list" where
  "kToLowercaseTable1 = [
   294, -30068, 298, -33532, 299, -33048, 306, 112, 1073742176, 64, 367, 64, 387, 4, 1073743030,
   104, 1231, 104, 1073744896, 192, 3118, 192, 3168, 4, 3170, -42972, 3171, -15256, 3172, -42908,
   3175, 4, 3177, 4, 3179, 4, 3189, 4, 3200, 4, 3202, 4, 3204, 4, 3206, 4, 3208, 4, 3210, 4,
   3212, 4, 3214, 4, 3216, 4, 3218, 4, 3220, 4, 3222, 4, 3224, 4, 3226, 4, 3228, 4, 3230, 4,
   3232, 4, 3234, 4, 3236, 4, 3238, 4, 3240, 4, 3242, 4, 3244, 4, 3246, 4, 3248, 4, 3250, 4,
   3252, 4, 3254, 4, 3256, 4, 3258, 4, 3260, 4, 3262, 4, 3264, 4, 3266, 4, 3268, 4, 3270, 4,
   3272, 4, 3274, 4, 3276, 4, 3278, 4, 3280, 4, 3282, 4, 3284, 4, 3286, 4, 3288, 4, 3290, 4,
   3292, 4, 3294, 4, 3296, 4, 3298, 4]"

definition kToLowercaseMultiStrings7 :: "int list list" where
  "kToLowercaseMultiStrings7 = [
   [-1]]"

definition kToLowercaseTable7Size :: nat where "kToLowercaseTable7Size = 2"

definition kToLowercaseTable7 :: "int list" where
  "kToLowercaseTable7 = [
   1073749793, 128, 7994, 128]"

definition ToLowercase_Convert :: "nat \<Rightarrow> nat \<Rightarrow> bool \<Rightarrow> (nat list \<times> bool) option" where
  "ToLowercase_Convert c n allow_caching =
     (let chunk_index = c div 8192 in
      if chunk_index = 0 then
        LookupMapping True 2 kToLowercaseTable0 kToLowercaseTable0Size kToLowercaseMultiStrings0 c n allow_caching
      else if chunk_index = 1 then
        LookupMapping True 1 kToLowercaseTable1 kToLowercaseTable1Size kToLowercaseMultiStrings1 c n allow_caching
      else if chunk_index = 7 then
        LookupMapping True 1 kToLowercaseTable7 kToLowercaseTable7Size kToLowercaseMultiStrings7 c n allow_caching
      else Some ([], allow_caching))"

definition kToUppercaseMultiStrings0 :: "int list list" where
  "kToUppercaseMultiStrings0 = [
   [83, 83, -1], [700, 78, -1], [74, 780, -1], [921, 776, 769], [933, 776, 769],
   [1333, 1362, -1], [72, 817, -1], [84, 776, -1], [87, 778, -1], [89, 778, -1], [65, 702, -1],
   [933, 787, -1], [933, 787, 768], [933, 787, 769], [933, 787, 834], [7944, 921, -1],
   [7945, 921, -1], [7946, 921, -1], [7947, 921, -1], [7948, 921, -1], [7949, 921, -1],
   [7950, 921, -1], [7951, 921, -1], [7976, 921, -1], [7977, 921, -1], [7978, 921, -1],
   [7979, 921, -1], [7980, 921, -1], [7981, 921, -1], [7982, 921, -1], [7983, 921, -1],
   [8040, 921, -1], [8041, 921, -1], [8042, 921, -1], [8043, 921, -1], [8044, 921, -1],
   [8045, 921, -1], [8046, 921, -1], [8047, 921, -1], [8122, 921, -1], [913, 921, -1],
   [902, 921, -1], [913, 834, -1], [913, 834, 921], [8138, 921, -1], [919, 921, -1],
   [905, 921, -1], [919, 834, -1], [919, 834, 921], [921, 776, 768], [921, 834, -1],
   [921, 776, 834], [933, 776, 768], [929, 787, -1], [933, 834, -1], [933, 776, 834],
   [8186, 921, -1], [937, 921, -1], [911, 921, -1], [937, 834, -1], [937, 834, 921], [-1]]"

definition kToUppercaseTable0Size :: nat where "kToUppercaseTable0Size = 554"

definition kToUppercaseTable0 :: "int list" where
  "kToUppercaseTable0 = [
   1073741921, -128, 122, -128, 181, 2972, 223, 1, 1073742048, -128, 246, -128, 1073742072, -128,
   254, -128, 255, 484, 257, -4, 259, -4, 261, -4, 263, -4, 265, -4, 267, -4, 269, -4, 271, -4,
   273, -4, 275, -4, 277, -4, 279, -4, 281, -4, 283, -4, 285, -4, 287, -4, 289, -4, 291, -4, 293,
   -4, 295, -4, 297, -4, 299, -4, 301, -4, 303, -4, 305, -928, 307, -4, 309, -4, 311, -4, 314,
   -4, 316, -4, 318, -4, 320, -4, 322, -4, 324, -4, 326, -4, 328, -4, 329, 5, 331, -4, 333, -4,
   335, -4, 337, -4, 339, -4, 341, -4, 343, -4, 345, -4, 347, -4, 349, -4, 351, -4, 353, -4, 355,
   -4, 357, -4, 359, -4, 361, -4, 363, -4, 365, -4, 367, -4, 369, -4, 371, -4, 373, -4, 375, -4,
   378, -4, 380, -4, 382, -4, 383, -1200, 384, 780, 387, -4, 389, -4, 392, -4, 396, -4, 402, -4,
   405, 388, 409, -4, 410, 652, 414, 520, 417, -4, 419, -4, 421, -4, 424, -4, 429, -4, 432, -4,
   436, -4, 438, -4, 441, -4, 445, -4, 447, 224, 453, -4, 454, -8, 456, -4, 457, -8, 459, -4,
   460, -8, 462, -4, 464, -4, 466, -4, 468, -4, 470, -4, 472, -4, 474, -4, 476, -4, 477, -316,
   479, -4, 481, -4, 483, -4, 485, -4, 487, -4, 489, -4, 491, -4, 493, -4, 495, -4, 496, 9, 498,
   -4, 499, -8, 501, -4, 505, -4, 507, -4, 509, -4, 511, -4, 513, -4, 515, -4, 517, -4, 519, -4,
   521, -4, 523, -4, 525, -4, 527, -4, 529, -4, 531, -4, 533, -4, 535, -4, 537, -4, 539, -4, 541,
   -4, 543, -4, 547, -4, 549, -4, 551, -4, 553, -4, 555, -4, 557, -4, 559, -4, 561, -4, 563, -4,
   572, -4, 578, -4, 583, -4, 585, -4, 587, -4, 589, -4, 591, -4, 595, -840, 596, -824,
   1073742422, -820, 599, -820, 601, -808, 603, -812, 608, -820, 611, -828, 616, -836, 617, -844,
   619, 42972, 623, -844, 626, -852, 629, -856, 637, 42908, 640, -872, 643, -872, 648, -872, 649,
   -276, 1073742474, -868, 651, -868, 652, -284, 658, -876, 837, 336, 1073742715, 520, 893, 520,
   912, 13, 940, -152, 1073742765, -148, 943, -148, 944, 17, 1073742769, -128, 961, -128, 962,
   -124, 1073742787, -128, 971, -128, 972, -256, 1073742797, -252, 974, -252, 976, -248, 977,
   -228, 981, -188, 982, -216, 985, -4, 987, -4, 989, -4, 991, -4, 993, -4, 995, -4, 997, -4,
   999, -4, 1001, -4, 1003, -4, 1005, -4, 1007, -4, 1008, -344, 1009, -320, 1010, 28, 1013, -384,
   1016, -4, 1019, -4, 1073742896, -128, 1103, -128, 1073742928, -320, 1119, -320, 1121, -4,
   1123, -4, 1125, -4, 1127, -4, 1129, -4, 1131, -4, 1133, -4, 1135, -4, 1137, -4, 1139, -4,
   1141, -4, 1143, -4, 1145, -4, 1147, -4, 1149, -4, 1151, -4, 1153, -4, 1163, -4, 1165, -4,
   1167, -4, 1169, -4, 1171, -4, 1173, -4, 1175, -4, 1177, -4, 1179, -4, 1181, -4, 1183, -4,
   1185, -4, 1187, -4, 1189, -4, 1191, -4, 1193, -4, 1195, -4, 1197, -4, 1199, -4, 1201, -4,
   1203, -4, 1205, -4, 1207, -4, 1209, -4, 1211, -4, 1213, -4, 1215, -4, 1218, -4, 1220, -4,
   1222, -4, 1224, -4, 1226, -4, 1228, -4, 1230, -4, 1231, -60, 1233, -4, 1235, -4, 1237, -4,
   1239, -4, 1241, -4, 1243, -4, 1245, -4, 1247, -4, 1249, -4, 1251, -4, 1253, -4, 1255, -4,
   1257, -4, 1259, -4, 1261, -4, 1263, -4, 1265, -4, 1267, -4, 1269, -4, 1271, -4, 1273, -4,
   1275, -4, 1277, -4, 1279, -4, 1281, -4, 1283, -4, 1285, -4, 1287, -4, 1289, -4, 1291, -4,
   1293, -4, 1295, -4, 1297, -4, 1299, -4, 1073743201, -192, 1414, -192, 1415, 21, 7549, 15256,
   7681, -4, 7683, -4, 7685, -4, 7687, -4, 7689, -4, 7691, -4, 7693, -4, 7695, -4, 7697, -4,
   7699, -4, 7701, -4, 7703, -4, 7705, -4, 7707, -4, 7709, -4, 7711, -4, 7713, -4, 7715, -4,
   7717, -4, 7719, -4, 7721, -4, 7723, -4, 7725, -4, 7727, -4, 7729, -4, 7731, -4, 7733, -4,
   7735, -4, 7737, -4, 7739, -4, 7741, -4, 7743, -4, 7745, -4, 7747, -4, 7749, -4, 7751, -4,
   7753, -4, 7755, -4, 7757, -4, 7759, -4, 7761, -4, 7763, -4, 7765, -4, 7767, -4, 7769, -4,
   7771, -4, 7773, -4, 7775, -4, 7777, -4, 7779, -4, 7781, -4, 7783, -4, 7785, -4, 7787, -4,
   7789, -4, 7791, -4, 7793, -4, 7795, -4, 7797, -4, 7799, -4, 7801, -4, 7803, -4, 7805, -4,
   7807, -4, 7809, -4, 7811, -4, 7813, -4, 7815, -4, 7817, -4, 7819, -4, 7821, -4, 7823, -4,
   7825, -4, 7827, -4, 7829, -4, 7830, 25, 7831, 29, 7832, 33, 7833, 37, 7834, 41, 7835, -236,
   7841, -4, 7843, -4, 7845, -4, 7847, -4, 7849, -4, 7851, -4, 7853, -4, 7855, -4, 7857, -4,
   7859, -4, 7861, -4, 7863, -4, 7865, -4, 7867, -4, 7869, -4, 7871, -4, 7873, -4, 7875, -4,
   7877, -4, 7879, -4, 7881, -4, 7883, -4, 7885, -4, 7887, -4, 7889, -4, 7891, -4, 7893, -4,
   7895, -4, 7897, -4, 7899, -4, 7901, -4, 7903, -4, 7905, -4, 7907, -4, 7909, -4, 7911, -4,
   7913, -4, 7915, -4, 7917, -4, 7919, -4, 7921, -4, 7923, -4, 7925, -4, 7927, -4, 7929, -4,
   1073749760, 32, 7943, 32, 1073749776, 32, 7957, 32, 1073749792, 32, 7975, 32, 1073749808, 32,
   7991, 32, 1073749824, 32, 8005, 32, 8016, 45, 8017, 32, 8018, 49, 8019, 32, 8020, 53, 8021,
   32, 8022, 57, 8023, 32, 1073749856, 32, 8039, 32, 1073749872, 296, 8049, 296, 1073749874, 344,
   8053, 344, 1073749878, 400, 8055, 400, 1073749880, 512, 8057, 512, 1073749882, 448, 8059, 448,
   1073749884, 504, 8061, 504, 8064, 61, 8065, 65, 8066, 69, 8067, 73, 8068, 77, 8069, 81, 8070,
   85, 8071, 89, 8072, 61, 8073, 65, 8074, 69, 8075, 73, 8076, 77, 8077, 81, 8078, 85, 8079, 89,
   8080, 93, 8081, 97, 8082, 101, 8083, 105, 8084, 109, 8085, 113, 8086, 117, 8087, 121, 8088,
   93, 8089, 97, 8090, 101, 8091, 105, 8092, 109, 8093, 113, 8094, 117, 8095, 121, 8096, 125,
   8097, 129, 8098, 133, 8099, 137, 8100, 141, 8101, 145, 8102, 149, 8103, 153, 8104, 125, 8105,
   129, 8106, 133, 8107, 137, 8108, 141, 8109, 145, 8110, 149, 8111, 153, 1073749936, 32, 8113,
   32, 8114, 157, 8115, 161, 8116, 165, 8118, 169, 8119, 173, 8124, 161, 8126, -28820, 8130, 177,
   8131, 181, 8132, 185, 8134, 189, 8135, 193, 8140, 181, 1073749968, 32, 8145, 32, 8146, 197,
   8147, 13, 8150, 201, 8151, 205, 1073749984, 32, 8161, 32, 8162, 209, 8163, 17, 8164, 213,
   8165, 28, 8166, 217, 8167, 221, 8178, 225, 8179, 229, 8180, 233, 8182, 237, 8183, 241, 8188,
   229]"

definition kToUppercaseMultiStrings1 :: "int list list" where
  "kToUppercaseMultiStrings1 = [
   [-1]]"

definition kToUppercaseTable1Size :: nat where "kToUppercaseTable1Size = 67"

definition kToUppercaseTable1 :: "int list" where
  "kToUppercaseTable1 = [
   334, -112, 1073742192, -64, 383, -64, 388, -4, 1073743056, -104, 1257, -104, 1073744944, -192,
   3166, -192, 3169, -4, 3173, -43180, 3174, -43168, 3176, -4, 3178, -4, 3180, -4, 3190, -4,
   3201, -4, 3203, -4, 3205, -4, 3207, -4, 3209, -4, 3211, -4, 3213, -4, 3215, -4, 3217, -4,
   3219, -4, 3221, -4, 3223, -4, 3225, -4, 3227, -4, 3229, -4, 3231, -4, 3233, -4, 3235, -4,
   3237, -4, 3239, -4, 3241, -4, 3243, -4, 3245, -4, 3247, -4, 3249, -4, 3251, -4, 3253, -4,
   3255, -4, 3257, -4, 3259, -4, 3261, -4, 3263, -4, 3265, -4, 3267, -4, 3269, -4, 3271, -4,
   3273, -4, 3275, -4, 3277, -4, 3279, -4, 3281, -4, 3283, -4, 3285, -4, 3287, -4, 3289, -4,
   3291, -4, 3293, -4, 3295, -4, 3297, -4, 3299, -4, 1073745152, -29056, 3365, -29056]"

definition kToUppercaseMultiStrings7 :: "int list list" where
  "kToUppercaseMultiStrings7 = [
   [70, 70, -1], [70, 73, -1], [70, 76, -1], [70, 70, 73], [70, 70, 76], [83, 84, -1],
   [1348, 1350, -1], [1348, 1333, -1], [1348, 1339, -1], [1358, 1350, -1], [1348, 1341, -1], [-1]]"

definition kToUppercaseTable7Size :: nat where "kToUppercaseTable7Size = 14"

definition kToUppercaseTable7 :: "int list" where
  "kToUppercaseTable7 = [
   6912, 1, 6913, 5, 6914, 9, 6915, 13, 6916, 17, 6917, 21, 6918, 21, 6931, 25, 6932, 29, 6933,
   33, 6934, 37, 6935, 41, 1073749825, -128, 8026, -128]"

definition ToUppercase_Convert :: "nat \<Rightarrow> nat \<Rightarrow> bool \<Rightarrow> (nat list \<times> bool) option" where
  "ToUppercase_Convert c n allow_caching =
     (let chunk_index = c div 8192 in
      if chunk_index = 0 then
        LookupMapping True 3 kToUppercaseTable0 kToUppercaseTable0Size kToUppercaseMultiStrings0 c n allow_caching
      else if chunk_index = 1 then
        LookupMapping True 1 kToUppercaseTable1 kToUppercaseTable1Size kToUppercaseMultiStrings1 c n allow_caching
      else if chunk_index = 7 then
        LookupMapping True 3 kToUppercaseTable7 kToUppercaseTable7Size kToUppercaseMultiStrings7 c n allow_caching
      else Some ([], allow_caching))"

definition kEcma262CanonicalizeMultiStrings0 :: "int list list" where
  "kEcma262CanonicalizeMultiStrings0 = [
   [-1]]"

definition kEcma262CanonicalizeTable0Size :: nat where "kEcma262CanonicalizeTable0Size = 462"

definition kEcma262CanonicalizeTable0 :: "int list" where
  "kEcma262CanonicalizeTable0 = [
   1073741921, -128, 122, -128, 181, 2972, 1073742048, -128, 246, -128, 1073742072, -128, 254,
   -128, 255, 484, 257, -4, 259, -4, 261, -4, 263, -4, 265, -4, 267, -4, 269, -4, 271, -4, 273,
   -4, 275, -4, 277, -4, 279, -4, 281, -4, 283, -4, 285, -4, 287, -4, 289, -4, 291, -4, 293, -4,
   295, -4, 297, -4, 299, -4, 301, -4, 303, -4, 307, -4, 309, -4, 311, -4, 314, -4, 316, -4, 318,
   -4, 320, -4, 322, -4, 324, -4, 326, -4, 328, -4, 331, -4, 333, -4, 335, -4, 337, -4, 339, -4,
   341, -4, 343, -4, 345, -4, 347, -4, 349, -4, 351, -4, 353, -4, 355, -4, 357, -4, 359, -4, 361,
   -4, 363, -4, 365, -4, 367, -4, 369, -4, 371, -4, 373, -4, 375, -4, 378, -4, 380, -4, 382, -4,
   384, 780, 387, -4, 389, -4, 392, -4, 396, -4, 402, -4, 405, 388, 409, -4, 410, 652, 414, 520,
   417, -4, 419, -4, 421, -4, 424, -4, 429, -4, 432, -4, 436, -4, 438, -4, 441, -4, 445, -4, 447,
   224, 453, -4, 454, -8, 456, -4, 457, -8, 459, -4, 460, -8, 462, -4, 464, -4, 466, -4, 468, -4,
   470, -4, 472, -4, 474, -4, 476, -4, 477, -316, 479, -4, 481, -4, 483, -4, 485, -4, 487, -4,
   489, -4, 491, -4, 493, -4, 495, -4, 498, -4, 499, -8, 501, -4, 505, -4, 507, -4, 509, -4, 511,
   -4, 513, -4, 515, -4, 517, -4, 519, -4, 521, -4, 523, -4, 525, -4, 527, -4, 529, -4, 531, -4,
   533, -4, 535, -4, 537, -4, 539, -4, 541, -4, 543, -4, 547, -4, 549, -4, 551, -4, 553, -4, 555,
   -4, 557, -4, 559, -4, 561, -4, 563, -4, 572, -4, 578, -4, 583, -4, 585, -4, 587, -4, 589, -4,
   591, -4, 595, -840, 596, -824, 1073742422, -820, 599, -820, 601, -808, 603, -812, 608, -820,
   611, -828, 616, -836, 617, -844, 619, 42972, 623, -844, 626, -852, 629, -856, 637, 42908, 640,
   -872, 643, -872, 648, -872, 649, -276, 1073742474, -868, 651, -868, 652, -284, 658, -876, 837,
   336, 1073742715, 520, 893, 520, 940, -152, 1073742765, -148, 943, -148, 1073742769, -128, 961,
   -128, 962, -124, 1073742787, -128, 971, -128, 972, -256, 1073742797, -252, 974, -252, 976,
   -248, 977, -228, 981, -188, 982, -216, 985, -4, 987, -4, 989, -4, 991, -4, 993, -4, 995, -4,
   997, -4, 999, -4, 1001, -4, 1003, -4, 1005, -4, 1007, -4, 1008, -344, 1009, -320, 1010, 28,
   1013, -384, 1016, -4, 1019, -4, 1073742896, -128, 1103, -128, 1073742928, -320, 1119, -320,
   1121, -4, 1123, -4, 1125, -4, 1127, -4, 1129, -4, 1131, -4, 1133, -4, 1135, -4, 1137, -4,
   1139, -4, 1141, -4, 1143, -4, 1145, -4, 1147, -4, 1149, -4, 1151, -4, 1153, -4, 1163, -4,
   1165, -4, 1167, -4, 1169, -4, 1171, -4, 1173, -4, 1175, -4, 1177, -4, 1179, -4, 1181, -4,
   1183, -4, 1185, -4, 1187, -4, 1189, -4, 1191, -4, 1193, -4, 1195, -4, 1197, -4, 1199, -4,
   1201, -4, 1203, -4, 1205, -4, 1207, -4, 1209, -4, 1211, -4, 1213, -4, 1215, -4, 1218, -4,
   1220, -4, 1222, -4, 1224, -4, 1226, -4, 1228, -4, 1230, -4, 1231, -60, 1233, -4, 1235, -4,
   1237, -4, 1239, -4, 1241, -4, 1243, -4, 1245, -4, 1247, -4, 1249, -4, 1251, -4, 1253, -4,
   1255, -4, 1257, -4, 1259, -4, 1261, -4, 1263, -4, 1265, -4, 1267, -4, 1269, -4, 1271, -4,
   1273, -4, 1275, -4, 1277, -4, 1279, -4, 1281, -4, 1283, -4, 1285, -4, 1287, -4, 1289, -4,
   1291, -4, 1293, -4, 1295, -4, 1297, -4, 1299, -4, 1073743201, -192, 1414, -192, 7549, 15256,
   7681, -4, 7683, -4, 7685, -4, 7687, -4, 7689, -4, 7691, -4, 7693, -4, 7695, -4, 7697, -4,
   7699, -4, 7701, -4, 7703, -4, 7705, -4, 7707, -4, 7709, -4, 7711, -4, 7713, -4, 7715, -4,
   7717, -4, 7719, -4, 7721, -4, 7723, -4, 7725, -4, 7727, -4, 7729, -4, 7731, -4, 7733, -4,
   7735, -4, 7737, -4, 7739, -4, 7741, -4, 7743, -4, 7745, -4, 7747, -4, 7749, -4, 7751, -4,
   7753, -4, 7755, -4, 7757, -4, 7759, -4, 7761, -4, 7763, -4, 7765, -4, 7767, -4, 7769, -4,
   7771, -4, 7773, -4, 7775, -4, 7777, -4, 7779, -4, 7781, -4, 7783, -4, 7785, -4, 7787, -4,
   7789, -4, 7791, -4, 7793, -4, 7795, -4, 7797, -4, 7799, -4, 7801, -4, 7803, -4, 7805, -4,
   7807, -4, 7809, -4, 7811, -4, 7813, -4, 7815, -4, 7817, -4, 7819, -4, 7821, -4, 7823, -4,
   7825, -4, 7827, -4, 7829, -4, 7835, -236, 7841, -4, 7843, -4, 7845, -4, 7847, -4, 7849, -4,
   7851, -4, 7853, -4, 7855, -4, 7857, -4, 7859, -4, 7861, -4, 7863, -4, 7865, -4, 7867, -4,
   7869, -4, 7871, -4, 7873, -4, 7875, -4, 7877, -4, 7879, -4, 7881, -4, 7883, -4, 7885, -4,
   7887, -4, 7889, -4, 7891, -4, 7893, -4, 7895, -4, 7897, -4, 7899, -4, 7901, -4, 7903, -4,
   7905, -4, 7907, -4, 7909, -4, 7911, -4, 7913, -4, 7915, -4, 7917, -4, 7919, -4, 7921, -4,
   7923, -4, 7925, -4, 7927, -4, 7929, -4, 1073749760, 32, 7943, 32, 1073749776, 32, 7957, 32,
   1073749792, 32, 7975, 32, 1073749808, 32, 7991, 32, 1073749824, 32, 8005, 32, 8017, 32, 8019,
   32, 8021, 32, 8023, 32, 1073749856, 32, 8039, 32, 1073749872, 296, 8049, 296, 1073749874, 344,
   8053, 344, 1073749878, 400, 8055, 400, 1073749880, 512, 8057, 512, 1073749882, 448, 8059, 448,
   1073749884, 504, 8061, 504, 1073749936, 32, 8113, 32, 8126, -28820, 1073749968, 32, 8145, 32,
   1073749984, 32, 8161, 32, 8165, 28]"

definition kEcma262CanonicalizeMultiStrings1 :: "int list list" where
  "kEcma262CanonicalizeMultiStrings1 = [
   [-1]]"

definition kEcma262CanonicalizeTable1Size :: nat where "kEcma262CanonicalizeTable1Size = 67"

definition kEcma262CanonicalizeTable1 :: "int list" where
  "kEcma262CanonicalizeTable1 = [
   334, -112, 1073742192, -64, 383, -64, 388, -4, 1073743056, -104, 1257, -104, 1073744944, -192,
   3166, -192, 3169, -4, 3173, -43180, 3174, -43168, 3176, -4, 3178, -4, 3180, -4, 3190, -4,
   3201, -4, 3203, -4, 3205, -4, 3207, -4, 3209, -4, 3211, -4, 3213, -4, 3215, -4, 3217, -4,
   3219, -4, 3221, -4, 3223, -4, 3225, -4, 3227, -4, 3229, -4, 3231, -4, 3233, -4, 3235, -4,
   3237, -4, 3239, -4, 3241, -4, 3243, -4, 3245, -4, 3247, -4, 3249, -4, 3251, -4, 3253, -4,
   3255, -4, 3257, -4, 3259, -4, 3261, -4, 3263, -4, 3265, -4, 3267, -4, 3269, -4, 3271, -4,
   3273, -4, 3275, -4, 3277, -4, 3279, -4, 3281, -4, 3283, -4, 3285, -4, 3287, -4, 3289, -4,
   3291, -4, 3293, -4, 3295, -4, 3297, -4, 3299, -4, 1073745152, -29056, 3365, -29056]"

definition kEcma262CanonicalizeMultiStrings7 :: "int list list" where
  "kEcma262CanonicalizeMultiStrings7 = [
   [-1]]"

definition kEcma262CanonicalizeTable7Size :: nat where "kEcma262CanonicalizeTable7Size = 2"

definition kEcma262CanonicalizeTable7 :: "int list" where
  "kEcma262CanonicalizeTable7 = [
   1073749825, -128, 8026, -128]"

definition Ecma262Canonicalize_Convert :: "nat \<Rightarrow> nat \<Rightarrow> bool \<Rightarrow> (nat list \<times> bool) option" where
  "Ecma262Canonicalize_Convert c n allow_caching =
     (let chunk_index = c div 8192 in
      if chunk_index = 0 then
        LookupMapping True 1 kEcma262CanonicalizeTable0 kEcma262CanonicalizeTable0Size kEcma262CanonicalizeMultiStrings0 c n allow_caching
      else if chunk_index = 1 then
        LookupMapping True 1 kEcma262CanonicalizeTable1 kEcma262CanonicalizeTable1Size kEcma262CanonicalizeMultiStrings1 c n allow_caching
      else if chunk_index = 7 then
        LookupMapping True 1 kEcma262CanonicalizeTable7 kEcma262CanonicalizeTable7Size kEcma262CanonicalizeMultiStrings7 c n allow_caching
      else Some ([], allow_caching))"

definition kEcma262UnCanonicalizeMultiStrings0 :: "int list list" where
  "kEcma262UnCanonicalizeMultiStrings0 = [
   [65, 97, -1], [90, 122, -1], [181, 924, 956, -1], [192, 224, -1], [214, 246, -1],
   [216, 248, -1], [222, 254, -1], [255, 376, -1], [256, 257, -1], [258, 259, -1],
   [260, 261, -1], [262, 263, -1], [264, 265, -1], [266, 267, -1], [268, 269, -1],
   [270, 271, -1], [272, 273, -1], [274, 275, -1], [276, 277, -1], [278, 279, -1],
   [280, 281, -1], [282, 283, -1], [284, 285, -1], [286, 287, -1], [288, 289, -1],
   [290, 291, -1], [292, 293, -1], [294, 295, -1], [296, 297, -1], [298, 299, -1],
   [300, 301, -1], [302, 303, -1], [306, 307, -1], [308, 309, -1], [310, 311, -1],
   [313, 314, -1], [315, 316, -1], [317, 318, -1], [319, 320, -1], [321, 322, -1],
   [323, 324, -1], [325, 326, -1], [327, 328, -1], [330, 331, -1], [332, 333, -1],
   [334, 335, -1], [336, 337, -1], [338, 339, -1], [340, 341, -1], [342, 343, -1],
   [344, 345, -1], [346, 347, -1], [348, 349, -1], [350, 351, -1], [352, 353, -1],
   [354, 355, -1], [356, 357, -1], [358, 359, -1], [360, 361, -1], [362, 363, -1],
   [364, 365, -1], [366, 367, -1], [368, 369, -1], [370, 371, -1], [372, 373, -1],
   [374, 375, -1], [377, 378, -1], [379, 380, -1], [381, 382, -1], [384, 579, -1],
   [385, 595, -1], [386, 387, -1], [388, 389, -1], [390, 596, -1], [391, 392, -1],
   [393, 598, -1], [394, 599, -1], [395, 396, -1], [398, 477, -1], [399, 601, -1],
   [400, 603, -1], [401, 402, -1], [403, 608, -1], [404, 611, -1], [405, 502, -1],
   [406, 617, -1], [407, 616, -1], [408, 409, -1], [410, 573, -1], [412, 623, -1],
   [413, 626, -1], [414, 544, -1], [415, 629, -1], [416, 417, -1], [418, 419, -1],
   [420, 421, -1], [422, 640, -1], [423, 424, -1], [425, 643, -1], [428, 429, -1],
   [430, 648, -1], [431, 432, -1], [433, 650, -1], [434, 651, -1], [435, 436, -1],
   [437, 438, -1], [439, 658, -1], [440, 441, -1], [444, 445, -1], [447, 503, -1],
   [452, 453, 454, -1], [455, 456, 457, -1], [458, 459, 460, -1], [461, 462, -1], [463, 464, -1],
   [465, 466, -1], [467, 468, -1], [469, 470, -1], [471, 472, -1], [473, 474, -1],
   [475, 476, -1], [478, 479, -1], [480, 481, -1], [482, 483, -1], [484, 485, -1],
   [486, 487, -1], [488, 489, -1], [490, 491, -1], [492, 493, -1], [494, 495, -1],
   [497, 498, 499, -1], [500, 501, -1], [504, 505, -1], [506, 507, -1], [508, 509, -1],
   [510, 511, -1], [512, 513, -1], [514, 515, -1], [516, 517, -1], [518, 519, -1],
   [520, 521, -1], [522, 523, -1], [524, 525, -1], [526, 527, -1], [528, 529, -1],
   [530, 531, -1], [532, 533, -1], [534, 535, -1], [536, 537, -1], [538, 539, -1],
   [540, 541, -1], [542, 543, -1], [546, 547, -1], [548, 549, -1], [550, 551, -1],
   [552, 553, -1], [554, 555, -1], [556, 557, -1], [558, 559, -1], [560, 561, -1],
   [562, 563, -1], [570, 11365, -1], [571, 572, -1], [574, 11366, -1], [577, 578, -1],
   [580, 649, -1], [581, 652, -1], [582, 583, -1], [584, 585, -1], [586, 587, -1],
   [588, 589, -1], [590, 591, -1], [619, 11362, -1], [637, 11364, -1], [837, 921, 953, 8126],
   [891, 1021, -1], [893, 1023, -1], [902, 940, -1], [904, 941, -1], [906, 943, -1],
   [908, 972, -1], [910, 973, -1], [911, 974, -1], [913, 945, -1], [914, 946, 976, -1],
   [915, 947, -1], [916, 948, -1], [917, 949, 1013, -1], [918, 950, -1], [919, 951, -1],
   [920, 952, 977, -1], [922, 954, 1008, -1], [923, 955, -1], [925, 957, -1], [927, 959, -1],
   [928, 960, 982, -1], [929, 961, 1009, -1], [931, 962, 963, -1], [932, 964, -1],
   [933, 965, -1], [934, 966, 981, -1], [935, 967, -1], [939, 971, -1], [984, 985, -1],
   [986, 987, -1], [988, 989, -1], [990, 991, -1], [992, 993, -1], [994, 995, -1],
   [996, 997, -1], [998, 999, -1], [1000, 1001, -1], [1002, 1003, -1], [1004, 1005, -1],
   [1006, 1007, -1], [1010, 1017, -1], [1015, 1016, -1], [1018, 1019, -1], [1024, 1104, -1],
   [1039, 1119, -1], [1040, 1072, -1], [1071, 1103, -1], [1120, 1121, -1], [1122, 1123, -1],
   [1124, 1125, -1], [1126, 1127, -1], [1128, 1129, -1], [1130, 1131, -1], [1132, 1133, -1],
   [1134, 1135, -1], [1136, 1137, -1], [1138, 1139, -1], [1140, 1141, -1], [1142, 1143, -1],
   [1144, 1145, -1], [1146, 1147, -1], [1148, 1149, -1], [1150, 1151, -1], [1152, 1153, -1],
   [1162, 1163, -1], [1164, 1165, -1], [1166, 1167, -1], [1168, 1169, -1], [1170, 1171, -1],
   [1172, 1173, -1], [1174, 1175, -1], [1176, 1177, -1], [1178, 1179, -1], [1180, 1181, -1],
   [1182, 1183, -1], [1184, 1185, -1], [1186, 1187, -1], [1188, 1189, -1], [1190, 1191, -1],
   [1192, 1193, -1], [1194, 1195, -1], [1196, 1197, -1], [1198, 1199, -1], [1200, 1201, -1],
   [1202, 1203, -1], [1204, 1205, -1], [1206, 1207, -1], [1208, 1209, -1], [1210, 1211, -1],
   [1212, 1213, -1], [1214, 1215, -1], [1216, 1231, -1], [1217, 1218, -1], [1219, 1220, -1],
   [1221, 1222, -1], [1223, 1224, -1], [1225, 1226, -1], [1227, 1228, -1], [1229, 1230, -1],
   [1232, 1233, -1], [1234, 1235, -1], [1236, 1237, -1], [1238, 1239, -1], [1240, 1241, -1],
   [1242, 1243, -1], [1244, 1245, -1], [1246, 1247, -1], [1248, 1249, -1], [1250, 1251, -1],
   [1252, 1253, -1], [1254, 1255, -1], [1256, 1257, -1], [1258, 1259, -1], [1260, 1261, -1],
   [1262, 1263, -1], [1264, 1265, -1], [1266, 1267, -1], [1268, 1269, -1], [1270, 1271, -1],
   [1272, 1273, -1], [1274, 1275, -1], [1276, 1277, -1], [1278, 1279, -1], [1280, 1281, -1],
   [1282, 1283, -1], [1284, 1285, -1], [1286, 1287, -1], [1288, 1289, -1], [1290, 1291, -1],
   [1292, 1293, -1], [1294, 1295, -1], [1296, 1297, -1], [1298, 1299, -1], [1329, 1377, -1],
   [1366, 1414, -1], [4256, 11520, -1], [4293, 11557, -1], [7549, 11363, -1], [7680, 7681, -1],
   [7682, 7683, -1], [7684, 7685, -1], [7686, 7687, -1], [7688, 7689, -1], [7690, 7691, -1],
   [7692, 7693, -1], [7694, 7695, -1], [7696, 7697, -1], [7698, 7699, -1], [7700, 7701, -1],
   [7702, 7703, -1], [7704, 7705, -1], [7706, 7707, -1], [7708, 7709, -1], [7710, 7711, -1],
   [7712, 7713, -1], [7714, 7715, -1], [7716, 7717, -1], [7718, 7719, -1], [7720, 7721, -1],
   [7722, 7723, -1], [7724, 7725, -1], [7726, 7727, -1], [7728, 7729, -1], [7730, 7731, -1],
   [7732, 7733, -1], [7734, 7735, -1], [7736, 7737, -1], [7738, 7739, -1], [7740, 7741, -1],
   [7742, 7743, -1], [7744, 7745, -1], [7746, 7747, -1], [7748, 7749, -1], [7750, 7751, -1],
   [7752, 7753, -1], [7754, 7755, -1], [7756, 7757, -1], [7758, 7759, -1], [7760, 7761, -1],
   [7762, 7763, -1], [7764, 7765, -1], [7766, 7767, -1], [7768, 7769, -1], [7770, 7771, -1],
   [7772, 7773, -1], [7774, 7775, -1], [7776, 7777, 7835, -1], [7778, 7779, -1],
   [7780, 7781, -1], [7782, 7783, -1], [7784, 7785, -1], [7786, 7787, -1], [7788, 7789, -1],
   [7790, 7791, -1], [7792, 7793, -1], [7794, 7795, -1], [7796, 7797, -1], [7798, 7799, -1],
   [7800, 7801, -1], [7802, 7803, -1], [7804, 7805, -1], [7806, 7807, -1], [7808, 7809, -1],
   [7810, 7811, -1], [7812, 7813, -1], [7814, 7815, -1], [7816, 7817, -1], [7818, 7819, -1],
   [7820, 7821, -1], [7822, 7823, -1], [7824, 7825, -1], [7826, 7827, -1], [7828, 7829, -1],
   [7840, 7841, -1], [7842, 7843, -1], [7844, 7845, -1], [7846, 7847, -1], [7848, 7849, -1],
   [7850, 7851, -1], [7852, 7853, -1], [7854, 7855, -1], [7856, 7857, -1], [7858, 7859, -1],
   [7860, 7861, -1], [7862, 7863, -1], [7864, 7865, -1], [7866, 7867, -1], [7868, 7869, -1],
   [7870, 7871, -1], [7872, 7873, -1], [7874, 7875, -1], [7876, 7877, -1], [7878, 7879, -1],
   [7880, 7881, -1], [7882, 7883, -1], [7884, 7885, -1], [7886, 7887, -1], [7888, 7889, -1],
   [7890, 7891, -1], [7892, 7893, -1], [7894, 7895, -1], [7896, 7897, -1], [7898, 7899, -1],
   [7900, 7901, -1], [7902, 7903, -1], [7904, 7905, -1], [7906, 7907, -1], [7908, 7909, -1],
   [7910, 7911, -1], [7912, 7913, -1], [7914, 7915, -1], [7916, 7917, -1], [7918, 7919, -1],
   [7920, 7921, -1], [7922, 7923, -1], [7924, 7925, -1], [7926, 7927, -1], [7928, 7929, -1],
   [7936, 7944, -1], [7943, 7951, -1], [7952, 7960, -1], [7957, 7965, -1], [7968, 7976, -1],
   [7975, 7983, -1], [7984, 7992, -1], [7991, 7999, -1], [8000, 8008, -1], [8005, 8013, -1],
   [8017, 8025, -1], [8019, 8027, -1], [8021, 8029, -1], [8023, 8031, -1], [8032, 8040, -1],
   [8039, 8047, -1], [8048, 8122, -1], [8049, 8123, -1], [8050, 8136, -1], [8053, 8139, -1],
   [8054, 8154, -1], [8055, 8155, -1], [8056, 8184, -1], [8057, 8185, -1], [8058, 8170, -1],
   [8059, 8171, -1], [8060, 8186, -1], [8061, 8187, -1], [8112, 8120, -1], [8113, 8121, -1],
   [8144, 8152, -1], [8145, 8153, -1], [8160, 8168, -1], [8161, 8169, -1], [8165, 8172, -1], [-1]]"

definition kEcma262UnCanonicalizeTable0Size :: nat where "kEcma262UnCanonicalizeTable0Size = 945"

definition kEcma262UnCanonicalizeTable0 :: "int list" where
  "kEcma262UnCanonicalizeTable0 = [
   1073741889, 1, 90, 5, 1073741921, 1, 122, 5, 181, 9, 1073742016, 13, 214, 17, 1073742040, 21,
   222, 25, 1073742048, 13, 246, 17, 1073742072, 21, 254, 25, 255, 29, 256, 33, 257, 33, 258, 37,
   259, 37, 260, 41, 261, 41, 262, 45, 263, 45, 264, 49, 265, 49, 266, 53, 267, 53, 268, 57, 269,
   57, 270, 61, 271, 61, 272, 65, 273, 65, 274, 69, 275, 69, 276, 73, 277, 73, 278, 77, 279, 77,
   280, 81, 281, 81, 282, 85, 283, 85, 284, 89, 285, 89, 286, 93, 287, 93, 288, 97, 289, 97, 290,
   101, 291, 101, 292, 105, 293, 105, 294, 109, 295, 109, 296, 113, 297, 113, 298, 117, 299, 117,
   300, 121, 301, 121, 302, 125, 303, 125, 306, 129, 307, 129, 308, 133, 309, 133, 310, 137, 311,
   137, 313, 141, 314, 141, 315, 145, 316, 145, 317, 149, 318, 149, 319, 153, 320, 153, 321, 157,
   322, 157, 323, 161, 324, 161, 325, 165, 326, 165, 327, 169, 328, 169, 330, 173, 331, 173, 332,
   177, 333, 177, 334, 181, 335, 181, 336, 185, 337, 185, 338, 189, 339, 189, 340, 193, 341, 193,
   342, 197, 343, 197, 344, 201, 345, 201, 346, 205, 347, 205, 348, 209, 349, 209, 350, 213, 351,
   213, 352, 217, 353, 217, 354, 221, 355, 221, 356, 225, 357, 225, 358, 229, 359, 229, 360, 233,
   361, 233, 362, 237, 363, 237, 364, 241, 365, 241, 366, 245, 367, 245, 368, 249, 369, 249, 370,
   253, 371, 253, 372, 257, 373, 257, 374, 261, 375, 261, 376, 29, 377, 265, 378, 265, 379, 269,
   380, 269, 381, 273, 382, 273, 384, 277, 385, 281, 386, 285, 387, 285, 388, 289, 389, 289, 390,
   293, 391, 297, 392, 297, 1073742217, 301, 394, 305, 395, 309, 396, 309, 398, 313, 399, 317,
   400, 321, 401, 325, 402, 325, 403, 329, 404, 333, 405, 337, 406, 341, 407, 345, 408, 349, 409,
   349, 410, 353, 412, 357, 413, 361, 414, 365, 415, 369, 416, 373, 417, 373, 418, 377, 419, 377,
   420, 381, 421, 381, 422, 385, 423, 389, 424, 389, 425, 393, 428, 397, 429, 397, 430, 401, 431,
   405, 432, 405, 1073742257, 409, 434, 413, 435, 417, 436, 417, 437, 421, 438, 421, 439, 425,
   440, 429, 441, 429, 444, 433, 445, 433, 447, 437, 452, 441, 453, 441, 454, 441, 455, 445, 456,
   445, 457, 445, 458, 449, 459, 449, 460, 449, 461, 453, 462, 453, 463, 457, 464, 457, 465, 461,
   466, 461, 467, 465, 468, 465, 469, 469, 470, 469, 471, 473, 472, 473, 473, 477, 474, 477, 475,
   481, 476, 481, 477, 313, 478, 485, 479, 485, 480, 489, 481, 489, 482, 493, 483, 493, 484, 497,
   485, 497, 486, 501, 487, 501, 488, 505, 489, 505, 490, 509, 491, 509, 492, 513, 493, 513, 494,
   517, 495, 517, 497, 521, 498, 521, 499, 521, 500, 525, 501, 525, 502, 337, 503, 437, 504, 529,
   505, 529, 506, 533, 507, 533, 508, 537, 509, 537, 510, 541, 511, 541, 512, 545, 513, 545, 514,
   549, 515, 549, 516, 553, 517, 553, 518, 557, 519, 557, 520, 561, 521, 561, 522, 565, 523, 565,
   524, 569, 525, 569, 526, 573, 527, 573, 528, 577, 529, 577, 530, 581, 531, 581, 532, 585, 533,
   585, 534, 589, 535, 589, 536, 593, 537, 593, 538, 597, 539, 597, 540, 601, 541, 601, 542, 605,
   543, 605, 544, 365, 546, 609, 547, 609, 548, 613, 549, 613, 550, 617, 551, 617, 552, 621, 553,
   621, 554, 625, 555, 625, 556, 629, 557, 629, 558, 633, 559, 633, 560, 637, 561, 637, 562, 641,
   563, 641, 570, 645, 571, 649, 572, 649, 573, 353, 574, 653, 577, 657, 578, 657, 579, 277, 580,
   661, 581, 665, 582, 669, 583, 669, 584, 673, 585, 673, 586, 677, 587, 677, 588, 681, 589, 681,
   590, 685, 591, 685, 595, 281, 596, 293, 1073742422, 301, 599, 305, 601, 317, 603, 321, 608,
   329, 611, 333, 616, 345, 617, 341, 619, 689, 623, 357, 626, 361, 629, 369, 637, 693, 640, 385,
   643, 393, 648, 401, 649, 661, 1073742474, 409, 651, 413, 652, 665, 658, 425, 837, 697,
   1073742715, 701, 893, 705, 902, 709, 1073742728, 713, 906, 717, 908, 721, 1073742734, 725,
   911, 729, 913, 733, 914, 737, 1073742739, 741, 916, 745, 917, 749, 1073742742, 753, 919, 757,
   920, 761, 921, 697, 922, 765, 923, 769, 924, 9, 1073742749, 773, 927, 777, 928, 781, 929, 785,
   931, 789, 1073742756, 793, 933, 797, 934, 801, 1073742759, 805, 939, 809, 940, 709,
   1073742765, 713, 943, 717, 945, 733, 946, 737, 1073742771, 741, 948, 745, 949, 749,
   1073742774, 753, 951, 757, 952, 761, 953, 697, 954, 765, 955, 769, 956, 9, 1073742781, 773,
   959, 777, 960, 781, 961, 785, 962, 789, 963, 789, 1073742788, 793, 965, 797, 966, 801,
   1073742791, 805, 971, 809, 972, 721, 1073742797, 725, 974, 729, 976, 737, 977, 761, 981, 801,
   982, 781, 984, 813, 985, 813, 986, 817, 987, 817, 988, 821, 989, 821, 990, 825, 991, 825, 992,
   829, 993, 829, 994, 833, 995, 833, 996, 837, 997, 837, 998, 841, 999, 841, 1000, 845, 1001,
   845, 1002, 849, 1003, 849, 1004, 853, 1005, 853, 1006, 857, 1007, 857, 1008, 765, 1009, 785,
   1010, 861, 1013, 749, 1015, 865, 1016, 865, 1017, 861, 1018, 869, 1019, 869, 1073742845, 701,
   1023, 705, 1073742848, 873, 1039, 877, 1073742864, 881, 1071, 885, 1073742896, 881, 1103, 885,
   1073742928, 873, 1119, 877, 1120, 889, 1121, 889, 1122, 893, 1123, 893, 1124, 897, 1125, 897,
   1126, 901, 1127, 901, 1128, 905, 1129, 905, 1130, 909, 1131, 909, 1132, 913, 1133, 913, 1134,
   917, 1135, 917, 1136, 921, 1137, 921, 1138, 925, 1139, 925, 1140, 929, 1141, 929, 1142, 933,
   1143, 933, 1144, 937, 1145, 937, 1146, 941, 1147, 941, 1148, 945, 1149, 945, 1150, 949, 1151,
   949, 1152, 953, 1153, 953, 1162, 957, 1163, 957, 1164, 961, 1165, 961, 1166, 965, 1167, 965,
   1168, 969, 1169, 969, 1170, 973, 1171, 973, 1172, 977, 1173, 977, 1174, 981, 1175, 981, 1176,
   985, 1177, 985, 1178, 989, 1179, 989, 1180, 993, 1181, 993, 1182, 997, 1183, 997, 1184, 1001,
   1185, 1001, 1186, 1005, 1187, 1005, 1188, 1009, 1189, 1009, 1190, 1013, 1191, 1013, 1192,
   1017, 1193, 1017, 1194, 1021, 1195, 1021, 1196, 1025, 1197, 1025, 1198, 1029, 1199, 1029,
   1200, 1033, 1201, 1033, 1202, 1037, 1203, 1037, 1204, 1041, 1205, 1041, 1206, 1045, 1207,
   1045, 1208, 1049, 1209, 1049, 1210, 1053, 1211, 1053, 1212, 1057, 1213, 1057, 1214, 1061,
   1215, 1061, 1216, 1065, 1217, 1069, 1218, 1069, 1219, 1073, 1220, 1073, 1221, 1077, 1222,
   1077, 1223, 1081, 1224, 1081, 1225, 1085, 1226, 1085, 1227, 1089, 1228, 1089, 1229, 1093,
   1230, 1093, 1231, 1065, 1232, 1097, 1233, 1097, 1234, 1101, 1235, 1101, 1236, 1105, 1237,
   1105, 1238, 1109, 1239, 1109, 1240, 1113, 1241, 1113, 1242, 1117, 1243, 1117, 1244, 1121,
   1245, 1121, 1246, 1125, 1247, 1125, 1248, 1129, 1249, 1129, 1250, 1133, 1251, 1133, 1252,
   1137, 1253, 1137, 1254, 1141, 1255, 1141, 1256, 1145, 1257, 1145, 1258, 1149, 1259, 1149,
   1260, 1153, 1261, 1153, 1262, 1157, 1263, 1157, 1264, 1161, 1265, 1161, 1266, 1165, 1267,
   1165, 1268, 1169, 1269, 1169, 1270, 1173, 1271, 1173, 1272, 1177, 1273, 1177, 1274, 1181,
   1275, 1181, 1276, 1185, 1277, 1185, 1278, 1189, 1279, 1189, 1280, 1193, 1281, 1193, 1282,
   1197, 1283, 1197, 1284, 1201, 1285, 1201, 1286, 1205, 1287, 1205, 1288, 1209, 1289, 1209,
   1290, 1213, 1291, 1213, 1292, 1217, 1293, 1217, 1294, 1221, 1295, 1221, 1296, 1225, 1297,
   1225, 1298, 1229, 1299, 1229, 1073743153, 1233, 1366, 1237, 1073743201, 1233, 1414, 1237,
   1073746080, 1241, 4293, 1245, 7549, 1249, 7680, 1253, 7681, 1253, 7682, 1257, 7683, 1257,
   7684, 1261, 7685, 1261, 7686, 1265, 7687, 1265, 7688, 1269, 7689, 1269, 7690, 1273, 7691,
   1273, 7692, 1277, 7693, 1277, 7694, 1281, 7695, 1281, 7696, 1285, 7697, 1285, 7698, 1289,
   7699, 1289, 7700, 1293, 7701, 1293, 7702, 1297, 7703, 1297, 7704, 1301, 7705, 1301, 7706,
   1305, 7707, 1305, 7708, 1309, 7709, 1309, 7710, 1313, 7711, 1313, 7712, 1317, 7713, 1317,
   7714, 1321, 7715, 1321, 7716, 1325, 7717, 1325, 7718, 1329, 7719, 1329, 7720, 1333, 7721,
   1333, 7722, 1337, 7723, 1337, 7724, 1341, 7725, 1341, 7726, 1345, 7727, 1345, 7728, 1349,
   7729, 1349, 7730, 1353, 7731, 1353, 7732, 1357, 7733, 1357, 7734, 1361, 7735, 1361, 7736,
   1365, 7737, 1365, 7738, 1369, 7739, 1369, 7740, 1373, 7741, 1373, 7742, 1377, 7743, 1377,
   7744, 1381, 7745, 1381, 7746, 1385, 7747, 1385, 7748, 1389, 7749, 1389, 7750, 1393, 7751,
   1393, 7752, 1397, 7753, 1397, 7754, 1401, 7755, 1401, 7756, 1405, 7757, 1405, 7758, 1409,
   7759, 1409, 7760, 1413, 7761, 1413, 7762, 1417, 7763, 1417, 7764, 1421, 7765, 1421, 7766,
   1425, 7767, 1425, 7768, 1429, 7769, 1429, 7770, 1433, 7771, 1433, 7772, 1437, 7773, 1437,
   7774, 1441, 7775, 1441, 7776, 1445, 7777, 1445, 7778, 1449, 7779, 1449, 7780, 1453, 7781,
   1453, 7782, 1457, 7783, 1457, 7784, 1461, 7785, 1461, 7786, 1465, 7787, 1465, 7788, 1469,
   7789, 1469, 7790, 1473, 7791, 1473, 7792, 1477, 7793, 1477, 7794, 1481, 7795, 1481, 7796,
   1485, 7797, 1485, 7798, 1489, 7799, 1489, 7800, 1493, 7801, 1493, 7802, 1497, 7803, 1497,
   7804, 1501, 7805, 1501, 7806, 1505, 7807, 1505, 7808, 1509, 7809, 1509, 7810, 1513, 7811,
   1513, 7812, 1517, 7813, 1517, 7814, 1521, 7815, 1521, 7816, 1525, 7817, 1525, 7818, 1529,
   7819, 1529, 7820, 1533, 7821, 1533, 7822, 1537, 7823, 1537, 7824, 1541, 7825, 1541, 7826,
   1545, 7827, 1545, 7828, 1549, 7829, 1549, 7835, 1445, 7840, 1553, 7841, 1553, 7842, 1557,
   7843, 1557, 7844, 1561, 7845, 1561, 7846, 1565, 7847, 1565, 7848, 1569, 7849, 1569, 7850,
   1573, 7851, 1573, 7852, 1577, 7853, 1577, 7854, 1581, 7855, 1581, 7856, 1585, 7857, 1585,
   7858, 1589, 7859, 1589, 7860, 1593, 7861, 1593, 7862, 1597, 7863, 1597, 7864, 1601, 7865,
   1601, 7866, 1605, 7867, 1605, 7868, 1609, 7869, 1609, 7870, 1613, 7871, 1613, 7872, 1617,
   7873, 1617, 7874, 1621, 7875, 1621, 7876, 1625, 7877, 1625, 7878, 1629, 7879, 1629, 7880,
   1633, 7881, 1633, 7882, 1637, 7883, 1637, 7884, 1641, 7885, 1641, 7886, 1645, 7887, 1645,
   7888, 1649, 7889, 1649, 7890, 1653, 7891, 1653, 7892, 1657, 7893, 1657, 7894, 1661, 7895,
   1661, 7896, 1665, 7897, 1665, 7898, 1669, 7899, 1669, 7900, 1673, 7901, 1673, 7902, 1677,
   7903, 1677, 7904, 1681, 7905, 1681, 7906, 1685, 7907, 1685, 7908, 1689, 7909, 1689, 7910,
   1693, 7911, 1693, 7912, 1697, 7913, 1697, 7914, 1701, 7915, 1701, 7916, 1705, 7917, 1705,
   7918, 1709, 7919, 1709, 7920, 1713, 7921, 1713, 7922, 1717, 7923, 1717, 7924, 1721, 7925,
   1721, 7926, 1725, 7927, 1725, 7928, 1729, 7929, 1729, 1073749760, 1733, 7943, 1737,
   1073749768, 1733, 7951, 1737, 1073749776, 1741, 7957, 1745, 1073749784, 1741, 7965, 1745,
   1073749792, 1749, 7975, 1753, 1073749800, 1749, 7983, 1753, 1073749808, 1757, 7991, 1761,
   1073749816, 1757, 7999, 1761, 1073749824, 1765, 8005, 1769, 1073749832, 1765, 8013, 1769,
   8017, 1773, 8019, 1777, 8021, 1781, 8023, 1785, 8025, 1773, 8027, 1777, 8029, 1781, 8031,
   1785, 1073749856, 1789, 8039, 1793, 1073749864, 1789, 8047, 1793, 1073749872, 1797, 8049,
   1801, 1073749874, 1805, 8053, 1809, 1073749878, 1813, 8055, 1817, 1073749880, 1821, 8057,
   1825, 1073749882, 1829, 8059, 1833, 1073749884, 1837, 8061, 1841, 1073749936, 1845, 8113,
   1849, 1073749944, 1845, 8121, 1849, 1073749946, 1797, 8123, 1801, 8126, 697, 1073749960, 1805,
   8139, 1809, 1073749968, 1853, 8145, 1857, 1073749976, 1853, 8153, 1857, 1073749978, 1813,
   8155, 1817, 1073749984, 1861, 8161, 1865, 8165, 1869, 1073749992, 1861, 8169, 1865,
   1073749994, 1829, 8171, 1833, 8172, 1869, 1073750008, 1821, 8185, 1825, 1073750010, 1837,
   8187, 1841]"

definition kEcma262UnCanonicalizeMultiStrings1 :: "int list list" where
  "kEcma262UnCanonicalizeMultiStrings1 = [
   [8498, 8526], [8544, 8560], [8559, 8575], [8579, 8580], [9398, 9424], [9423, 9449],
   [11264, 11312], [11310, 11358], [11360, 11361], [619, 11362], [7549, 11363], [637, 11364],
   [570, 11365], [574, 11366], [11367, 11368], [11369, 11370], [11371, 11372], [11381, 11382],
   [11392, 11393], [11394, 11395], [11396, 11397], [11398, 11399], [11400, 11401],
   [11402, 11403], [11404, 11405], [11406, 11407], [11408, 11409], [11410, 11411],
   [11412, 11413], [11414, 11415], [11416, 11417], [11418, 11419], [11420, 11421],
   [11422, 11423], [11424, 11425], [11426, 11427], [11428, 11429], [11430, 11431],
   [11432, 11433], [11434, 11435], [11436, 11437], [11438, 11439], [11440, 11441],
   [11442, 11443], [11444, 11445], [11446, 11447], [11448, 11449], [11450, 11451],
   [11452, 11453], [11454, 11455], [11456, 11457], [11458, 11459], [11460, 11461],
   [11462, 11463], [11464, 11465], [11466, 11467], [11468, 11469], [11470, 11471],
   [11472, 11473], [11474, 11475], [11476, 11477], [11478, 11479], [11480, 11481],
   [11482, 11483], [11484, 11485], [11486, 11487], [11488, 11489], [11490, 11491], [4256, 11520],
   [4293, 11557], [-1]]"

definition kEcma262UnCanonicalizeTable1Size :: nat where "kEcma262UnCanonicalizeTable1Size = 133"

definition kEcma262UnCanonicalizeTable1 :: "int list" where
  "kEcma262UnCanonicalizeTable1 = [
   306, 1, 334, 1, 1073742176, 5, 367, 9, 1073742192, 5, 383, 9, 387, 13, 388, 13, 1073743030,
   17, 1231, 21, 1073743056, 17, 1257, 21, 1073744896, 25, 3118, 29, 1073744944, 25, 3166, 29,
   3168, 33, 3169, 33, 3170, 37, 3171, 41, 3172, 45, 3173, 49, 3174, 53, 3175, 57, 3176, 57,
   3177, 61, 3178, 61, 3179, 65, 3180, 65, 3189, 69, 3190, 69, 3200, 73, 3201, 73, 3202, 77,
   3203, 77, 3204, 81, 3205, 81, 3206, 85, 3207, 85, 3208, 89, 3209, 89, 3210, 93, 3211, 93,
   3212, 97, 3213, 97, 3214, 101, 3215, 101, 3216, 105, 3217, 105, 3218, 109, 3219, 109, 3220,
   113, 3221, 113, 3222, 117, 3223, 117, 3224, 121, 3225, 121, 3226, 125, 3227, 125, 3228, 129,
   3229, 129, 3230, 133, 3231, 133, 3232, 137, 3233, 137, 3234, 141, 3235, 141, 3236, 145, 3237,
   145, 3238, 149, 3239, 149, 3240, 153, 3241, 153, 3242, 157, 3243, 157, 3244, 161, 3245, 161,
   3246, 165, 3247, 165, 3248, 169, 3249, 169, 3250, 173, 3251, 173, 3252, 177, 3253, 177, 3254,
   181, 3255, 181, 3256, 185, 3257, 185, 3258, 189, 3259, 189, 3260, 193, 3261, 193, 3262, 197,
   3263, 197, 3264, 201, 3265, 201, 3266, 205, 3267, 205, 3268, 209, 3269, 209, 3270, 213, 3271,
   213, 3272, 217, 3273, 217, 3274, 221, 3275, 221, 3276, 225, 3277, 225, 3278, 229, 3279, 229,
   3280, 233, 3281, 233, 3282, 237, 3283, 237, 3284, 241, 3285, 241, 3286, 245, 3287, 245, 3288,
   249, 3289, 249, 3290, 253, 3291, 253, 3292, 257, 3293, 257, 3294, 261, 3295, 261, 3296, 265,
   3297, 265, 3298, 269, 3299, 269, 1073745152, 273, 3365, 277]"

definition kEcma262UnCanonicalizeMultiStrings7 :: "int list list" where
  "kEcma262UnCanonicalizeMultiStrings7 = [
   [65313, 65345], [65338, 65370], [-1]]"

definition kEcma262UnCanonicalizeTable7Size :: nat where "kEcma262UnCanonicalizeTable7Size = 4"

definition kEcma262UnCanonicalizeTable7 :: "int list" where
  "kEcma262UnCanonicalizeTable7 = [
   1073749793, 1, 7994, 5, 1073749825, 1, 8026, 5]"

definition Ecma262UnCanonicalize_Convert :: "nat \<Rightarrow> nat \<Rightarrow> bool \<Rightarrow> (nat list \<times> bool) option" where
  "Ecma262UnCanonicalize_Convert c n allow_caching =
     (let chunk_index = c div 8192 in
      if chunk_index = 0 then
        LookupMapping True 4 kEcma262UnCanonicalizeTable0 kEcma262UnCanonicalizeTable0Size kEcma262UnCanonicalizeMultiStrings0 c n allow_caching
      else if chunk_index = 1 then
        LookupMapping True 2 kEcma262UnCanonicalizeTable1 kEcma262UnCanonicalizeTable1Size kEcma262UnCanonicalizeMultiStrings1 c n allow_caching
      else if chunk_index = 7 then
        LookupMapping True 2 kEcma262UnCanonicalizeTable7 kEcma262UnCanonicalizeTable7Size kEcma262UnCanonicalizeMultiStrings7 c n allow_caching
      else Some ([], allow_caching))"

definition kCanonicalizationRangeMultiStrings0 :: "int list list" where
  "kCanonicalizationRangeMultiStrings0 = [
   [-1]]"

definition kCanonicalizationRangeTable0Size :: nat where "kCanonicalizationRangeTable0Size = 70"

definition kCanonicalizationRangeTable0 :: "int list" where
  "kCanonicalizationRangeTable0 = [
   1073741889, 100, 90, 0, 1073741921, 100, 122, 0, 1073742016, 88, 214, 0, 1073742040, 24, 222,
   0, 1073742048, 88, 246, 0, 1073742072, 24, 254, 0, 1073742715, 8, 893, 0, 1073742728, 8, 906,
   0, 1073742749, 8, 927, 0, 1073742759, 16, 939, 0, 1073742765, 8, 943, 0, 1073742781, 8, 959,
   0, 1073742791, 16, 971, 0, 1073742845, 8, 1023, 0, 1073742848, 60, 1039, 0, 1073742864, 124,
   1071, 0, 1073742896, 124, 1103, 0, 1073742928, 60, 1119, 0, 1073743153, 148, 1366, 0,
   1073743201, 148, 1414, 0, 1073746080, 148, 4293, 0, 1073749760, 28, 7943, 0, 1073749768, 28,
   7951, 0, 1073749776, 20, 7957, 0, 1073749784, 20, 7965, 0, 1073749792, 28, 7975, 0,
   1073749800, 28, 7983, 0, 1073749808, 28, 7991, 0, 1073749816, 28, 7999, 0, 1073749824, 20,
   8005, 0, 1073749832, 20, 8013, 0, 1073749856, 28, 8039, 0, 1073749864, 28, 8047, 0,
   1073749874, 12, 8053, 0, 1073749960, 12, 8139, 0]"

definition kCanonicalizationRangeMultiStrings1 :: "int list list" where
  "kCanonicalizationRangeMultiStrings1 = [
   [-1]]"

definition kCanonicalizationRangeTable1Size :: nat where "kCanonicalizationRangeTable1Size = 14"

definition kCanonicalizationRangeTable1 :: "int list" where
  "kCanonicalizationRangeTable1 = [
   1073742176, 60, 367, 0, 1073742192, 60, 383, 0, 1073743030, 100, 1231, 0, 1073743056, 100,
   1257, 0, 1073744896, 184, 3118, 0, 1073744944, 184, 3166, 0, 1073745152, 148, 3365, 0]"

definition kCanonicalizationRangeMultiStrings7 :: "int list list" where
  "kCanonicalizationRangeMultiStrings7 = [
   [-1]]"

definition kCanonicalizationRangeTable7Size :: nat where "kCanonicalizationRangeTable7Size = 4"

definition kCanonicalizationRangeTable7 :: "int list" where
  "kCanonicalizationRangeTable7 = [
   1073749793, 100, 7994, 0, 1073749825, 100, 8026, 0]"

definition CanonicalizationRange_Convert :: "nat \<Rightarrow> nat \<Rightarrow> bool \<Rightarrow> (nat list \<times> bool) option" where
  "CanonicalizationRange_Convert c n allow_caching =
     (let chunk_index = c div 8192 in
      if chunk_index = 0 then
        LookupMapping False 1 kCanonicalizationRangeTable0 kCanonicalizationRangeTable0Size kCanonicalizationRangeMultiStrings0 c n allow_caching
      else if chunk_index = 1 then
        LookupMapping False 1 kCanonicalizationRangeTable1 kCanonicalizationRangeTable1Size kCanonicalizationRangeMultiStrings1 c n allow_caching
      else if chunk_index = 7 then
        LookupMapping False 1 kCanonicalizationRangeTable7 kCanonicalizationRangeTable7Size kCanonicalizationRangeMultiStrings7 c n allow_caching
      else Some ([], allow_caching))"

section \<open>The tables are well formed\<close>

lemmas table_check = chunk_ok_def mapping_ok_def
lemmas entry_check = GetEntry_def IsStart_def kStartBit_def

lemma kToLowercaseTable0_length: "length kToLowercaseMultiStrings0 = 2" "length kToLowercaseTable0 = 2 * kToLowercaseTable0Size"
  by (simp_all add: kToLowercaseMultiStrings0_def kToLowercaseTable0_def kToLowercaseTable0Size_def)

lemma kToLowercaseTable0_ok: "chunk_ok True (0, 2, kToLowercaseMultiStrings0, kToLowercaseTable0)"
  by (simp add: table_check kToLowercaseTable0_length(1)) (simp add: kToLowercaseTable0_def entry_check)

lemma kToLowercaseTable1_length: "length kToLowercaseMultiStrings1 = 1" "length kToLowercaseTable1 = 2 * kToLowercaseTable1Size"
  by (simp_all add: kToLowercaseMultiStrings1_def kToLowercaseTable1_def kToLowercaseTable1Size_def)

lemma kToLowercaseTable1_ok: "chunk_ok True (1, 1, kToLowercaseMultiStrings1, kToLowercaseTable1)"
  by (simp add: table_check kToLowercaseTable1_length(1)) (simp add: kToLowercaseTable1_def entry_check)

lemma kToLowercaseTable7_length: "length kToLowercaseMultiStrings7 = 1" "length kToLowercaseTable7 = 2 * kToLowercaseTable7Size"
  by (simp_all add: kToLowercaseMultiStrings7_def kToLowercaseTable7_def kToLowercaseTable7Size_def)

lemma kToLowercaseTable7_ok: "chunk_ok True (7, 1, kToLowercaseMultiStrings7, kToLowercaseTable7)"
  by (simp add: table_check kToLowercaseTable7_length(1)) (simp add: kToLowercaseTable7_def entry_check)

lemma kToUppercaseTable0_length: "length kToUppercaseMultiStrings0 = 62" "length kToUppercaseTable0 = 2 * kToUppercaseTable0Size"
  by (simp_all add: kToUppercaseMultiStrings0_def kToUppercaseTable0_def kToUppercaseTable0Size_def)

lemma kToUppercaseTable0_ok: "chunk_ok True (0, 3, kToUppercaseMultiStrings0, kToUppercaseTable0)"
  by (simp add: table_check kToUppercaseTable0_length(1)) (simp add: kToUppercaseTable0_def entry_check)

lemma kToUppercaseTable1_length: "length kToUppercaseMultiStrings1 = 1" "length kToUppercaseTable1 = 2 * kToUppercaseTable1Size"
  by (simp_all add: kToUppercaseMultiStrings1_def kToUppercaseTable1_def kToUppercaseTable1Size_def)

lemma kToUppercaseTable1_ok: "chunk_ok True (1, 1, kToUppercaseMultiStrings1, kToUppercaseTable1)"
  by (simp add: table_check kToUppercaseTable1_length(1)) (simp add: kToUppercaseTable1_def entry_check)

lemma kToUppercaseTable7_length: "length kToUppercaseMultiStrings7 = 12" "length kToUppercaseTable7 = 2 * kToUppercaseTable7Size"
  by (simp_all add: kToUppercaseMultiStrings7_def kToUppercaseTable7_def kToUppercaseTable7Size_def)

lemma kToUppercaseTable7_ok: "chunk_ok True (7, 3, kToUppercaseMultiStrings7, kToUppercaseTable7)"
  by (simp add: table_check kToUppercaseTable7_length(1)) (simp add: kToUppercaseTable7_def entry_check)

lemma kEcma262CanonicalizeTable0_length: "length kEcma262CanonicalizeMultiStrings0 = 1" "length kEcma262CanonicalizeTable0 = 2 * kEcma262CanonicalizeTable0Size"
  by (simp_all add: kEcma262CanonicalizeMultiStrings0_def kEcma262CanonicalizeTable0_def kEcma262CanonicalizeTable0Size_def)

lemma kEcma262CanonicalizeTable0_ok: "chunk_ok True (0, 1, kEcma262CanonicalizeMultiStrings0, kEcma262CanonicalizeTable0)"
  by (simp add: table_check kEcma262CanonicalizeTable0_length(1)) (simp add: kEcma262CanonicalizeTable0_def entry_check)

lemma kEcma262CanonicalizeTable1_length: "length kEcma262CanonicalizeMultiStrings1 = 1" "length kEcma262CanonicalizeTable1 = 2 * kEcma262CanonicalizeTable1Size"
  by (simp_all add: kEcma262CanonicalizeMultiStrings1_def kEcma262CanonicalizeTable1_def kEcma262CanonicalizeTable1Size_def)

lemma kEcma262CanonicalizeTable1_ok: "chunk_ok True (1, 1, kEcma262CanonicalizeMultiStrings1, kEcma262CanonicalizeTable1)"
  by (simp add: table_check kEcma262CanonicalizeTable1_length(1)) (simp add: kEcma262CanonicalizeTable1_def entry_check)

lemma kEcma262CanonicalizeTable7_length: "length kEcma262CanonicalizeMultiStrings7 = 1" "length kEcma262CanonicalizeTable7 = 2 * kEcma262CanonicalizeTable7Size"
  by (simp_all add: kEcma262CanonicalizeMultiStrings7_def kEcma262CanonicalizeTable7_def kEcma262CanonicalizeTable7Size_def)

lemma kEcma262CanonicalizeTable7_ok: "chunk_ok True (7, 1, kEcma262CanonicalizeMultiStrings7, kEcma262CanonicalizeTable7)"
  by (simp add: table_check kEcma262CanonicalizeTable7_length(1)) (simp add: kEcma262CanonicalizeTable7_def entry_check)

lemma kEcma262UnCanonicalizeTable0_length: "length kEcma262UnCanonicalizeMultiStrings0 = 469" "length kEcma262UnCanonicalizeTable0 = 2 * kEcma262UnCanonicalizeTable0Size"
  by (simp_all add: kEcma262UnCanonicalizeMultiStrings0_def kEcma262UnCanonicalizeTable0_def kEcma262UnCanonicalizeTable0Size_def)

lemma kEcma262UnCanonicalizeTable0_ok: "chunk_ok True (0, 4, kEcma262UnCanonicalizeMultiStrings0, kEcma262UnCanonicalizeTable0)"
  by (simp add: table_check kEcma262UnCanonicalizeTable0_length(1)) (simp add: kEcma262UnCanonicalizeTable0_def entry_check)

lemma kEcma262UnCanonicalizeTable1_length: "length kEcma262UnCanonicalizeMultiStrings1 = 71" "length kEcma262UnCanonicalizeTable1 = 2 * kEcma262UnCanonicalizeTable1Size"
  by (simp_all add: kEcma262UnCanonicalizeMultiStrings1_def kEcma262UnCanonicalizeTable1_def kEcma262UnCanonicalizeTable1Size_def)

lemma kEcma262UnCanonicalizeTable1_ok: "chunk_ok True (1, 2, kEcma262UnCanonicalizeMultiStrings1, kEcma262UnCanonicalizeTable1)"
  by (simp add: table_check kEcma262UnCanonicalizeTable1_length(1)) (simp add: kEcma262UnCanonicalizeTable1_def entry_check)

lemma kEcma262UnCanonicalizeTable7_length: "length kEcma262UnCanonicalizeMultiStrings7 = 3" "length kEcma262UnCanonicalizeTable7 = 2 * kEcma262UnCanonicalizeTable7Size"
  by (simp_all add: kEcma262UnCanonicalizeMultiStrings7_def kEcma262UnCanonicalizeTable7_def kEcma262UnCanonicalizeTable7Size_def)

lemma kEcma262UnCanonicalizeTable7_ok: "chunk_ok True (7, 2, kEcma262UnCanonicalizeMultiStrings7, kEcma262UnCanonicalizeTable7)"
  by (simp add: table_check kEcma262UnCanonicalizeTable7_length(1)) (simp add: kEcma262UnCanonicalizeTable7_def entry_check)

lemma kCanonicalizationRangeTable0_length: "length kCanonicalizationRangeMultiStrings0 = 1" "length kCanonicalizationRangeTable0 = 2 * kCanonicalizationRangeTable0Size"
  by (simp_all add: kCanonicalizationRangeMultiStrings0_def kCanonicalizationRangeTable0_def kCanonicalizationRangeTable0Size_def)

lemma kCanonicalizationRangeTable0_ok: "chunk_ok False (0, 1, kCanonicalizationRangeMultiStrings0, kCanonicalizationRangeTable0)"
  by (simp add: table_check kCanonicalizationRangeTable0_length(1)) (simp add: kCanonicalizationRangeTable0_def entry_check)

lemma kCanonicalizationRangeTable1_length: "length kCanonicalizationRangeMultiStrings1 = 1" "length kCanonicalizationRangeTable1 = 2 * kCanonicalizationRangeTable1Size"
  by (simp_all add: kCanonicalizationRangeMultiStrings1_def kCanonicalizationRangeTable1_def kCanonicalizationRangeTable1Size_def)

lemma kCanonicalizationRangeTable1_ok: "chunk_ok False (1, 1, kCanonicalizationRangeMultiStrings1, kCanonicalizationRangeTable1)"
  by (simp add: table_check kCanonicalizationRangeTable1_length(1)) (simp add: kCanonicalizationRangeTable1_def entry_check)

lemma kCanonicalizationRangeTable7_length: "length kCanonicalizationRangeMultiStrings7 = 1" "length kCanonicalizationRangeTable7 = 2 * kCanonicalizationRangeTable7Size"
  by (simp_all add: kCanonicalizationRangeMultiStrings7_def kCanonicalizationRangeTable7_def kCanonicalizationRangeTable7Size_def)

lemma kCanonicalizationRangeTable7_ok: "chunk_ok False (7, 1, kCanonicalizationRangeMultiStrings7, kCanonicalizationRangeTable7)"
  by (simp add: table_check kCanonicalizationRangeTable7_length(1)) (simp add: kCanonicalizationRangeTable7_def entry_check)

definition ToLowercase_chunks :: "chunk list" where
  "ToLowercase_chunks =
    [(0, 2, kToLowercaseMultiStrings0, kToLowercaseTable0),
     (1, 1, kToLowercaseMultiStrings1, kToLowercaseTable1),
     (7, 1, kToLowercaseMultiStrings7, kToLowercaseTable7)]"

definition ToUppercase_chunks :: "chunk list" where
  "ToUppercase_chunks =
    [(0, 3, kToUppercaseMultiStrings0, kToUppercaseTable0),
     (1, 1, kToUppercaseMultiStrings1, kToUppercaseTable1),
     (7, 3, kToUppercaseMultiStrings7, kToUppercaseTable7)]"

definition Ecma262Canonicalize_chunks :: "chunk list" where
  "Ecma262Canonicalize_chunks =
    [(0, 1, kEcma262CanonicalizeMultiStrings0, kEcma262CanonicalizeTable0),
     (1, 1, kEcma262CanonicalizeMultiStrings1, kEcma262CanonicalizeTable1),
     (7, 1, kEcma262CanonicalizeMultiStrings7, kEcma262CanonicalizeTable7)]"

definition Ecma262UnCanonicalize_chunks :: "chunk list" where
  "Ecma262UnCanonicalize_chunks =
    [(0, 4, kEcma262UnCanonicalizeMultiStrings0, kEcma262UnCanonicalizeTable0),
     (1, 2, kEcma262UnCanonicalizeMultiStrings1, kEcma262UnCanonicalizeTable1),
     (7, 2, kEcma262UnCanonicalizeMultiStrings7, kEcma262UnCanonicalizeTable7)]"

definition CanonicalizationRange_chunks :: "chunk list" where
  "CanonicalizationRange_chunks =
    [(0, 1, kCanonicalizationRangeMultiStrings0, kCanonicalizationRangeTable0),
     (1, 1, kCanonicalizationRangeMultiStrings1, kCanonicalizationRangeTable1),
     (7, 1, kCanonicalizationRangeMultiStrings7, kCanonicalizationRangeTable7)]"

end
