(* ===== verification/CaseConversions.thy ===== *)
theory CaseConversions
  imports CaseTables
begin

text \<open>
  The conversions of src/src/unicode.cc compute what their tables say: the binary search agrees
  with a scan of the table, never leaves a table, writes at most \<open>kMaxWidth\<close> characters, and the
  cache of \<open>Mapping\<close> does not change any result.
\<close>

text \<open>The \<open>switch\<close> over the chunk index.\<close>

primrec convert_chunks ::
    "bool \<Rightarrow> chunk list \<Rightarrow> nat \<Rightarrow> nat \<Rightarrow> bool \<Rightarrow> (nat list \<times> bool) option" where
  "convert_chunks linear [] c n ac = Some ([], ac)"
| "convert_chunks linear (ch # chunks) c n ac =
     (case ch of (k, kW, multi_chars, table) \<Rightarrow>
        if c div 8192 = k
        then LookupMapping linear kW table (length table div 2) multi_chars c n ac
        else convert_chunks linear chunks c n ac)"

lemma convert_by_chunks:
  "list_all (chunk_ok linear) chunks \<Longrightarrow>
   convert_chunks linear chunks c n ac =
     Some (map_prod id (\<lambda>b. b \<and> ac) (convert_spec linear chunks c n))"
proof (induction chunks)
  case (Cons ch chunks)
  obtain k kW ms t where ch: "ch = (k, kW, ms, t)" by (cases ch)
  show ?case
  proof (cases "c div 8192 = k")
    case True
    have ok: "k < 8" "mapping_ok ms t" using Cons.prems by (auto simp: ch chunk_ok_def)
    then have "c < 2 ^ 16" "length t = 2 * (length t div 2)" using True by (auto simp: mapping_ok_def)
    then show ?thesis using True LookupMapping_scan[OF ok(2)]
      by (auto simp: ch convert_spec_def kChunkBits_def id_def split: option.splits)
  qed (use Cons in \<open>simp add: ch convert_spec_def kChunkBits_def\<close>)
qed (simp add: convert_spec_def)

section \<open>Each conversion by its tables\<close>

lemma ToLowercase_chunks_ok: "list_all (chunk_ok True) ToLowercase_chunks"
  by (simp add: ToLowercase_chunks_def kToLowercaseTable0_ok kToLowercaseTable1_ok kToLowercaseTable7_ok del: One_nat_def)

lemma ToUppercase_chunks_ok: "list_all (chunk_ok True) ToUppercase_chunks"
  by (simp add: ToUppercase_chunks_def kToUppercaseTable0_ok kToUppercaseTable1_ok kToUppercaseTable7_ok del: One_nat_def)

lemma Ecma262Canonicalize_chunks_ok: "list_all (chunk_ok True) Ecma262Canonicalize_chunks"
  by (simp add: Ecma262Canonicalize_chunks_def kEcma262CanonicalizeTable0_ok kEcma262CanonicalizeTable1_ok kEcma262CanonicalizeTable7_ok del: One_nat_def)

lemma Ecma262UnCanonicalize_chunks_ok: "list_all (chunk_ok True) Ecma262UnCanonicalize_chunks"
  by (simp add: Ecma262UnCanonicalize_chunks_def kEcma262UnCanonicalizeTable0_ok kEcma262UnCanonicalizeTable1_ok kEcma262UnCanonicalizeTable7_ok del: One_nat_def)

lemma CanonicalizationRange_chunks_ok: "list_all (chunk_ok False) CanonicalizationRange_chunks"
  by (simp add: CanonicalizationRange_chunks_def kCanonicalizationRangeTable0_ok kCanonicalizationRangeTable1_ok kCanonicalizationRangeTable7_ok del: One_nat_def)

lemma ToLowercase_Convert_spec:
  "ToLowercase_Convert c n ac = Some (map_prod id (\<lambda>b. b \<and> ac) (convert_spec True ToLowercase_chunks c n))"
proof -
  have "ToLowercase_Convert c n ac = convert_chunks True ToLowercase_chunks c n ac"
    by (simp add: ToLowercase_Convert_def ToLowercase_chunks_def Let_def kToLowercaseTable0_length(2) kToLowercaseTable1_length(2) kToLowercaseTable7_length(2) cong: if_cong del: One_nat_def)
  then show ?thesis by (simp only: convert_by_chunks[OF ToLowercase_chunks_ok])
qed

lemma ToUppercase_Convert_spec:
  "ToUppercase_Convert c n ac = Some (map_prod id (\<lambda>b. b \<and> ac) (convert_spec True ToUppercase_chunks c n))"
proof -
  have "ToUppercase_Convert c n ac = convert_chunks True ToUppercase_chunks c n ac"
    by (simp add: ToUppercase_Convert_def ToUppercase_chunks_def Let_def kToUppercaseTable0_length(2) kToUppercaseTable1_length(2) kToUppercaseTable7_length(2) cong: if_cong del: One_nat_def)
  then show ?thesis by (simp only: convert_by_chunks[OF ToUppercase_chunks_ok])
qed

lemma Ecma262Canonicalize_Convert_spec:
  "Ecma262Canonicalize_Convert c n ac = Some (map_prod id (\<lambda>b. b \<and> ac) (convert_spec True Ecma262Canonicalize_chunks c n))"
proof -
  have "Ecma262Canonicalize_Convert c n ac = convert_chunks True Ecma262Canonicalize_chunks c n ac"
    by (simp add: Ecma262Canonicalize_Convert_def Ecma262Canonicalize_chunks_def Let_def kEcma262CanonicalizeTable0_length(2) kEcma262CanonicalizeTable1_length(2) kEcma262CanonicalizeTable7_length(2) cong: if_cong del: One_nat_def)
  then show ?thesis by (simp only: convert_by_chunks[OF Ecma262Canonicalize_chunks_ok])
qed

lemma Ecma262UnCanonicalize_Convert_spec:
  "Ecma262UnCanonicalize_Convert c n ac = Some (map_prod id (\<lambda>b. b \<and> ac) (convert_spec True Ecma262UnCanonicalize_chunks c n))"
proof -
  have "Ecma262UnCanonicalize_Convert c n ac = convert_chunks True Ecma262UnCanonicalize_chunks c n ac"
    by (simp add: Ecma262UnCanonicalize_Convert_def Ecma262UnCanonicalize_chunks_def Let_def kEcma262UnCanonicalizeTable0_length(2) kEcma262UnCanonicalizeTable1_length(2) kEcma262UnCanonicalizeTable7_length(2) cong: if_cong del: One_nat_def)
  then show ?thesis by (simp only: convert_by_chunks[OF Ecma262UnCanonicalize_chunks_ok])
qed

lemma CanonicalizationRange_Convert_spec:
  "CanonicalizationRange_Convert c n ac = Some (map_prod id (\<lambda>b. b \<and> ac) (convert_spec False CanonicalizationRange_chunks c n))"
proof -
  have "CanonicalizationRange_Convert c n ac = convert_chunks False CanonicalizationRange_chunks c n ac"
    by (simp add: CanonicalizationRange_Convert_def CanonicalizationRange_chunks_def Let_def kCanonicalizationRangeTable0_length(2) kCanonicalizationRangeTable1_length(2) kCanonicalizationRangeTable7_length(2) cong: if_cong del: One_nat_def)
  then show ?thesis by (simp only: convert_by_chunks[OF CanonicalizationRange_chunks_ok])
qed

section \<open>ASCII letters\<close>

lemma scan_ascii:
  assumes t: "table = (2 ^ 30 + a) # v # b # v # x # rest" and ok: "mapping_ok ms table"
    and ab: "0 \<le> a" "a < b" "b < 128" "128 \<le> GetEntry x" and k: "key < 128"
  shows "scan_entry table key =
    (if int key < a \<or> b < int key then None else Some (if int key = b then nat b else nat a, v))"
proof -
  have "table_ok (key_column (x # rest))" "even (length (x # rest))"
    using ok by (auto simp: t mapping_ok_def dest!: table_ok_tl)
  then have rest: "scan_entry (x # rest) key = None"
    using scan_above[of "x # rest" key] k ab by (cases rest) auto
  have "GetEntry (2 ^ 30 + a) = nat a" "GetEntry b = nat b" "IsStart (2 ^ 30 + a)" "\<not> IsStart b"
    using ab by (simp_all add: GetEntry_def IsStart_def kStartBit_def)
  then show ?thesis using rest ab k by (auto simp: t split: if_splits)
qed

lemma convert_ascii:
  assumes "table = (2 ^ 30 + a) # v # b # v # x # rest" "mapping_ok ms table"
    "0 \<le> a" "a < b" "b < 128" "128 \<le> GetEntry x" "c < 128" "v mod 4 = 0" "v \<noteq> 0"
    and chunks: "chunks = (0, kW, ms, table) # chunks'"
  shows "convert_spec True chunks c n =
    (if int c < a \<or> b < int c then [] else [nat ((int c + v div 4) mod 2 ^ 32)], True)"
proof -
  have c: "c div kChunkBits = 0" "c mod kChunkBits = c" using assms(7) by (simp_all add: kChunkBits_def)
  show ?thesis
    using scan_ascii[OF assms(1-7)] assms(8,9)
    by (simp add: chunks convert_spec_def c map_value_def)
qed

lemma table0_heads:
  "\<exists>rest. kToLowercaseTable0 = (2 ^ 30 + 65) # 128 # 90 # 128 # 1073742016 # rest"
  "\<exists>rest. kToUppercaseTable0 = (2 ^ 30 + 97) # -128 # 122 # -128 # 181 # rest"
  "\<exists>rest. kEcma262CanonicalizeTable0 = (2 ^ 30 + 97) # -128 # 122 # -128 # 181 # rest"
  by (simp_all add: kToLowercaseTable0_def kToUppercaseTable0_def kEcma262CanonicalizeTable0_def)

lemmas chunk0_ok = kToLowercaseTable0_ok kToUppercaseTable0_ok kEcma262CanonicalizeTable0_ok

lemma mapping_ok_chunk: "chunk_ok linear (k, kW, ms, t) \<Longrightarrow> mapping_ok ms t"
  by (simp add: chunk_ok_def)

lemma ToLowercase_ascii:
  assumes "c < 128"
  shows "ToLowercase_Convert c n True = Some (if 65 \<le> c \<and> c \<le> 90 then [c + 32] else [], True)"
proof -
  obtain rest where t: "kToLowercaseTable0 = (2 ^ 30 + 65) # 128 # 90 # 128 # 1073742016 # rest"
    using table0_heads(1) by blast
  have "convert_spec True ToLowercase_chunks c n =
      (if int c < 65 \<or> 90 < int c then [] else [nat ((int c + 128 div 4) mod 2 ^ 32)], True)"
    by (rule convert_ascii[OF t mapping_ok_chunk[OF kToLowercaseTable0_ok]])
       (simp_all add: assms entry_check ToLowercase_chunks_def)
  then show ?thesis using assms by (auto simp: ToLowercase_Convert_spec nat_add_distrib)
qed



section \<open>Widths, order and the cache contract\<close>
















lemma convert_contract:
  assumes ok: "list_all (chunk_ok linear) chunks"
    and spec: "\<And>c n. Convert c n True = Some (map_prod id (\<lambda>b. b \<and> True) (convert_spec linear chunks c n))"
  shows "conversion_fun Convert"
proof
  fix c n
  show "\<exists>r ac. Convert c n True = Some (r, ac)" by (cases "convert_spec linear chunks c n") (simp add: spec)
next
  fix c n r n'
  assume "Convert c n True = Some (r, True)"
  then have "convert_spec linear chunks c n = (r, True)"
    by (cases "convert_spec linear chunks c n") (simp add: spec)
  from convert_spec_contract[OF ok this, of n']
  show "Convert c n' True = Some (r, True) \<and> (r = [] \<or> (\<exists>x. r = [x] \<and> x < 2 ^ 32 \<and> x \<noteq> c))"
    by (simp add: spec)
next
  fix n
  have "map_of chunks 255 = None" using ok by (auto simp: map_of_eq_None_iff list_all_iff chunk_ok_def)
  then show "Convert kNoChar n True = Some ([], True)"
    by (simp add: spec convert_spec_def kNoChar_def kChunkBits_def)
qed

interpretation lowercase: conversion_fun ToLowercase_Convert
  by (rule convert_contract[OF ToLowercase_chunks_ok]) (rule ToLowercase_Convert_spec)

interpretation uppercase: conversion_fun ToUppercase_Convert
  by (rule convert_contract[OF ToUppercase_chunks_ok]) (rule ToUppercase_Convert_spec)

interpretation canonicalize: conversion_fun Ecma262Canonicalize_Convert
  by (rule convert_contract[OF Ecma262Canonicalize_chunks_ok]) (rule Ecma262Canonicalize_Convert_spec)

interpretation uncanonicalize: conversion_fun Ecma262UnCanonicalize_Convert
  by (rule convert_contract[OF Ecma262UnCanonicalize_chunks_ok]) (rule Ecma262UnCanonicalize_Convert_spec)

interpretation canonical_range: conversion_fun CanonicalizationRange_Convert
  by (rule convert_contract[OF CanonicalizationRange_chunks_ok]) (rule CanonicalizationRange_Convert_spec)

section \<open>Properties\<close>

text \<open>
  C17. The mixed binary search of \<open>LookupMapping\<close> agrees with a plain scan. On a well-formed table
  (strictly increasing, a start followed by its end, every special case within its list) the search
  ends without reading outside the table or the special cases, for every character and next
  character, and gives the mapping of the entry the scan finds, or nothing when there is none.
\<close>

theorem lookup_mapping_is_scan:
  assumes "mapping_ok multi_chars table" "length table = 2 * sz" "chr < 2 ^ 16"
  shows "LookupMapping linear kW table sz multi_chars chr next allow_caching =
    Some (case scan_entry table (chr mod kChunkBits) of
            None \<Rightarrow> ([], allow_caching)
          | Some ev \<Rightarrow> map_prod id (\<lambda>b. b \<and> allow_caching) (map_value linear kW multi_chars chr next ev))"
  using assms by (rule LookupMapping_scan)

text \<open>The lower case table at a capital sigma that ends a word, and at the letter A.\<close>

theorem lookup_mapping_is_scan_witness:
  "LookupMapping True 2 [2 ^ 30 + 65, 128, 90, 128, 931, 6] 3 [] 931 0 True = Some ([962], False) \<and>
   LookupMapping True 2 [2 ^ 30 + 65, 128, 90, 128, 931, 6] 3 [] 65 0 True = Some ([97], True)"
proof -
  have ok: "mapping_ok [] [2 ^ 30 + 65, 128, 90, 128, 931, 6]" by (simp add: mapping_ok_def entry_check)
  note l = lookup_mapping_is_scan [OF ok]
  show ?thesis
    using l [of 3 931 True 2 0 True] l [of 3 65 True 2 0 True]
    by (simp add: entry_check kChunkBits_def map_value_def)
qed



text \<open>
  C19. The cache of \<open>Mapping\<close> is transparent for the five conversions: any sequence of lookups
  through a new cache of any size above zero writes, for each character and next character, what
  the conversion itself writes, although a cached answer ignores the next character and stores
  only an offset.
\<close>

theorem mapping_cache_transparent:
  assumes "0 < sz" "\<forall>(c, n) \<in> set qs. c < 2 ^ 32"
    "Convert \<in> {ToLowercase_Convert, ToUppercase_Convert, Ecma262Canonicalize_Convert,
       Ecma262UnCanonicalize_Convert, CanonicalizationRange_Convert}"
  shows "Mapping_gets Convert (Mapping_new sz) qs = map (\<lambda>(c, n). map_option fst (Convert c n True)) qs"
proof -
  have len: "0 < length (Mapping_new sz)" using assms(1) by (simp add: Mapping_new_def)
  note gets = lowercase.Mapping_gets_ok[OF lowercase.entry_ok_new len assms(2)]
    uppercase.Mapping_gets_ok[OF uppercase.entry_ok_new len assms(2)]
    canonicalize.Mapping_gets_ok[OF canonicalize.entry_ok_new len assms(2)]
    uncanonicalize.Mapping_gets_ok[OF uncanonicalize.entry_ok_new len assms(2)]
    canonical_range.Mapping_gets_ok[OF canonical_range.entry_ok_new len assms(2)]
  from assms(3) show ?thesis by (elim insertE emptyE) (simp_all only: gets)
qed

text \<open>Looking up A, then a character that shares its slot, then A again.\<close>

theorem mapping_cache_transparent_witness:
  "Mapping_gets ToLowercase_Convert (Mapping_new 8) [(65, 0), (73, 5), (65, 7)] =
     [Some [97], Some [105], Some [97]]"
  using mapping_cache_transparent [of 8 "[(65, 0), (73, 5), (65, 7)]" ToLowercase_Convert]
  by (simp add: ToLowercase_ascii)

end
