(* ===== verification/UTF16Buffer.thy ===== *)
theory UTF16Buffer
  imports Utf8
begin

text \<open>
  The input sources of the scanner: \<open>ExternalStringUTF16Buffer\<close> of src/src/scanner.h,
  \<open>CharacterStreamUTF16Buffer\<close> of src/src/scanner.cc, and the \<open>InputStreamUTF16Buffer\<close> of
  src/src/preparser-api.cc over the UTF-8 stream of src/preparser/preparser-process.cc. A source
  returns the next character and itself changed; the end of the input is \<open>-1\<close>. The scanner pushes
  back with the character that becomes its current one, the one before the character that the
  source returns next; the locale \<open>utf16_source\<close> states that contract.
\<close>

definition kNoEndPosition :: int where "kNoEndPosition = 1"
definition kMaxInt :: int where "kMaxInt = 0x7FFFFFFF"

section \<open>External strings\<close>

record ExternalBuffer =
  eb_raw_data :: "uint16 list"
  eb_pos :: int
  eb_end :: int

definition ExternalBuffer_new :: ExternalBuffer where
  "ExternalBuffer_new = \<lparr>eb_raw_data = [], eb_pos = 0, eb_end = kNoEndPosition\<rparr>"

definition ExternalBuffer_SeekForward :: "int \<Rightarrow> ExternalBuffer \<Rightarrow> ExternalBuffer" where
  "ExternalBuffer_SeekForward pos b = b\<lparr>eb_pos := pos\<rparr>"

definition ExternalBuffer_Initialize ::
    "uint16 list \<Rightarrow> int \<Rightarrow> int \<Rightarrow> ExternalBuffer \<Rightarrow> ExternalBuffer" where
  "ExternalBuffer_Initialize data start_position end_position b =
     (let b = b\<lparr>eb_raw_data := data\<rparr>;
          b = (if start_position > 0 then ExternalBuffer_SeekForward start_position b else b)
      in b\<lparr>eb_end := (if end_position \<noteq> kNoEndPosition then end_position else int (length data))\<rparr>)"

definition ExternalBuffer_Advance :: "ExternalBuffer \<Rightarrow> int \<times> ExternalBuffer" where
  "ExternalBuffer_Advance b =
     (if eb_pos b < eb_end b
      then (uint (eb_raw_data b ! nat (eb_pos b)), b\<lparr>eb_pos := eb_pos b + 1\<rparr>)
      else (-1, b\<lparr>eb_pos := eb_pos b + 1\<rparr>))"

definition ExternalBuffer_PushBack :: "int \<Rightarrow> ExternalBuffer \<Rightarrow> ExternalBuffer" where
  "ExternalBuffer_PushBack ch b = b\<lparr>eb_pos := eb_pos b - 1\<rparr>"

section \<open>Character streams\<close>

text \<open>A \<open>unibrow::CharacterStream\<close> by the characters it returns and its position in them.\<close>

record CharacterStream =
  cs_text :: "uint32 list"
  cs_cursor :: nat

definition has_more :: "CharacterStream \<Rightarrow> bool" where
  "has_more s = (cs_cursor s < length (cs_text s))"

definition GetNext :: "CharacterStream \<Rightarrow> uint32 \<times> CharacterStream" where
  "GetNext s = (cs_text s ! cs_cursor s, s\<lparr>cs_cursor := cs_cursor s + 1\<rparr>)"

definition Stream_Seek :: "int \<Rightarrow> CharacterStream \<Rightarrow> CharacterStream" where
  "Stream_Seek pos s = s\<lparr>cs_cursor := nat pos\<rparr>"

record StreamBuffer =
  sb_pushback_buffer :: "int list"
  sb_last :: int
  sb_stream :: CharacterStream
  sb_pos :: int
  sb_end :: int

definition StreamBuffer_new :: StreamBuffer where
  "StreamBuffer_new = \<lparr>sb_pushback_buffer = [], sb_last = 0,
     sb_stream = \<lparr>cs_text = [], cs_cursor = 0\<rparr>, sb_pos = 0, sb_end = kNoEndPosition\<rparr>"

definition StreamBuffer_SeekForward :: "int \<Rightarrow> StreamBuffer \<Rightarrow> StreamBuffer" where
  "StreamBuffer_SeekForward pos b = b\<lparr>sb_pos := pos, sb_stream := Stream_Seek pos (sb_stream b)\<rparr>"

definition StreamBuffer_Initialize ::
    "CharacterStream \<Rightarrow> int \<Rightarrow> int \<Rightarrow> StreamBuffer \<Rightarrow> StreamBuffer" where
  "StreamBuffer_Initialize input start_position end_position b =
     (let b = b\<lparr>sb_stream := input\<rparr>;
          b = (if start_position > 0 then StreamBuffer_SeekForward start_position b else b)
      in b\<lparr>sb_end := (if end_position \<noteq> kNoEndPosition then end_position else kMaxInt)\<rparr>)"

definition StreamBuffer_PushBack :: "int \<Rightarrow> StreamBuffer \<Rightarrow> StreamBuffer" where
  "StreamBuffer_PushBack ch b =
     b\<lparr>sb_pushback_buffer := sb_pushback_buffer b @ [sb_last b], sb_last := ch, sb_pos := sb_pos b - 1\<rparr>"

definition StreamBuffer_Advance :: "StreamBuffer \<Rightarrow> int \<times> StreamBuffer" where
  "StreamBuffer_Advance b =
     (if sb_pushback_buffer b \<noteq> [] then
        (let c = last (sb_pushback_buffer b) in
         (c, b\<lparr>sb_pos := sb_pos b + 1, sb_pushback_buffer := butlast (sb_pushback_buffer b), sb_last := c\<rparr>))
      else if has_more (sb_stream b) \<and> sb_pos b < sb_end b then
        (case GetNext (sb_stream b) of (n, s) \<Rightarrow>
           (sint n, b\<lparr>sb_pos := sb_pos b + 1, sb_stream := s, sb_last := sint n\<rparr>))
      else (-1, b\<lparr>sb_pos := sb_pos b + 1, sb_last := -1\<rparr>))"

section \<open>The UTF-8 input of the stand-alone preparser\<close>








section \<open>The contract of a source\<close>

definition char_at :: "int list \<Rightarrow> int \<Rightarrow> int" where
  "char_at t p = (if 0 \<le> p \<and> p < int (length t) then t ! nat p else -1)"

datatype SourceOp = Adv | Push

text \<open>Advancing and pushing back; the character pushed is given by what was read so far.\<close>

fun run_source ::
    "('b \<Rightarrow> int \<times> 'b) \<Rightarrow> (int \<Rightarrow> 'b \<Rightarrow> 'b) \<Rightarrow> (int \<Rightarrow> int) \<Rightarrow> SourceOp list \<Rightarrow> int \<Rightarrow> 'b \<Rightarrow> int list" where
  "run_source advance push_back chr [] p b = []"
| "run_source advance push_back chr (Adv # ops) p b =
     (case advance b of (c, b') \<Rightarrow> c # run_source advance push_back chr ops (p + 1) b')"
| "run_source advance push_back chr (Push # ops) p b =
     run_source advance push_back chr ops (p - 1) (push_back (chr (p - 2)) b)"

text \<open>A push is legal when a character before the current one has been read.\<close>

fun legal_ops :: "int \<Rightarrow> int \<Rightarrow> SourceOp list \<Rightarrow> bool" where
  "legal_ops start p [] = True"
| "legal_ops start p (Adv # ops) = legal_ops start (p + 1) ops"
| "legal_ops start p (Push # ops) = (start + 2 \<le> p \<and> legal_ops start (p - 1) ops)"

fun spec_source :: "(int \<Rightarrow> int) \<Rightarrow> SourceOp list \<Rightarrow> int \<Rightarrow> int list" where
  "spec_source chr [] p = []"
| "spec_source chr (Adv # ops) p = chr p # spec_source chr ops (p + 1)"
| "spec_source chr (Push # ops) p = spec_source chr ops (p - 1)"

locale utf16_source =
  fixes advance :: "'b \<Rightarrow> int \<times> 'b"
    and push_back :: "int \<Rightarrow> 'b \<Rightarrow> 'b"
    and text_of :: "'b \<Rightarrow> int list"
    and position :: "'b \<Rightarrow> int"
    and source_inv :: "int \<Rightarrow> 'b \<Rightarrow> bool"
  assumes advance_next: "source_inv start b \<Longrightarrow> advance b = (c, b') \<Longrightarrow>
      c = char_at (text_of b) (position b) \<and> source_inv start b' \<and>
      text_of b' = text_of b \<and> position b' = position b + 1"
    and push_previous: "source_inv start b \<Longrightarrow> start + 2 \<le> position b \<Longrightarrow>
      ch = char_at (text_of b) (position b - 2) \<Longrightarrow>
      source_inv start (push_back ch b) \<and> text_of (push_back ch b) = text_of b \<and>
      position (push_back ch b) = position b - 1"
begin

lemma run_source_spec:
  "source_inv start b \<Longrightarrow> legal_ops start (position b) ops \<Longrightarrow>
   run_source advance push_back (char_at (text_of b)) ops (position b) b =
     spec_source (char_at (text_of b)) ops (position b)"
proof (induction ops arbitrary: b)
  case (Cons op ops)
  show ?case
  proof (cases op)
    case Adv
    obtain c b' where a: "advance b = (c, b')" by (cases "advance b")
    show ?thesis using advance_next[OF Cons.prems(1) a] Cons.IH[of b'] Cons.prems(2) a Adv by simp
  next
    case Push
    then have l: "start + 2 \<le> position b" "legal_ops start (position b - 1) ops" using Cons.prems(2) by auto
    show ?thesis
      using push_previous[OF Cons.prems(1) l(1) refl] l
        Cons.IH[of "push_back (char_at (text_of b) (position b - 2)) b"] Push by simp
  qed
qed simp

end

section \<open>External strings and character streams meet the contract\<close>

definition external_text :: "ExternalBuffer \<Rightarrow> int list" where
  "external_text b = map uint (take (nat (eb_end b)) (eb_raw_data b))"

definition external_inv :: "int \<Rightarrow> ExternalBuffer \<Rightarrow> bool" where
  "external_inv start b \<longleftrightarrow> 0 \<le> start \<and> start \<le> eb_pos b \<and> eb_end b \<le> int (length (eb_raw_data b))"

interpretation external: utf16_source ExternalBuffer_Advance ExternalBuffer_PushBack
  external_text eb_pos external_inv
  by unfold_locales
     (auto simp: ExternalBuffer_Advance_def ExternalBuffer_PushBack_def external_text_def external_inv_def
        char_at_def min_def split: if_splits)

definition stream_text :: "StreamBuffer \<Rightarrow> int list" where
  "stream_text b = map sint (take (nat (sb_end b)) (cs_text (sb_stream b)))"

text \<open>
  The characters pushed back are those from the position on, and the stream continues behind them.
\<close>

definition stream_inv :: "int \<Rightarrow> StreamBuffer \<Rightarrow> bool" where
  "stream_inv start b \<longleftrightarrow>
     (let t = stream_text b; k = length (sb_pushback_buffer b); p = sb_pos b in
      0 \<le> start \<and> start \<le> p \<and> 0 \<le> sb_end b \<and>
      (if p + int k < int (length t) then int (cs_cursor (sb_stream b)) = p + int k
       else length t \<le> cs_cursor (sb_stream b)) \<and>
      (start < p \<longrightarrow> sb_last b = char_at t (p - 1)) \<and>
      (\<forall>i < k. sb_pushback_buffer b ! (k - 1 - i) = char_at t (p + int i)) \<and>
      (k \<noteq> 0 \<longrightarrow> start < p))"

lemma stream_text_Advance: "StreamBuffer_Advance b = (c, b') \<Longrightarrow>
    stream_text b' = stream_text b \<and> sb_pos b' = sb_pos b + 1 \<and> sb_end b' = sb_end b \<and> sb_last b' = c"
  by (auto simp: StreamBuffer_Advance_def stream_text_def GetNext_def Let_def split: if_splits)

lemma stream_inv_Advance:
  assumes inv: "stream_inv start b" and a: "StreamBuffer_Advance b = (c, b')"
  shows "c = char_at (stream_text b) (sb_pos b) \<and> stream_inv start b' \<and>
      stream_text b' = stream_text b \<and> sb_pos b' = sb_pos b + 1"
proof -
  let ?t = "stream_text b" and ?p = "sb_pos b" and ?k = "length (sb_pushback_buffer b)"
  let ?cur = "cs_cursor (sb_stream b)"
  have i: "0 \<le> start" "start \<le> ?p" "0 \<le> sb_end b"
    "if ?p + int ?k < int (length ?t) then int ?cur = ?p + int ?k else length ?t \<le> ?cur"
    and nth: "\<And>i. i < ?k \<Longrightarrow> sb_pushback_buffer b ! (?k - 1 - i) = char_at ?t (?p + int i)"
    using inv by (simp_all add: stream_inv_def Let_def)
  note s = stream_text_Advance[OF a]
  have *: "c = char_at ?t ?p \<and> length (sb_pushback_buffer b') = ?k - 1 \<and>
      (\<forall>i < ?k - 1. sb_pushback_buffer b' ! (?k - 2 - i) = char_at ?t (?p + 1 + int i)) \<and>
      (if ?p + 1 + int (?k - 1) < int (length ?t) then int (cs_cursor (sb_stream b')) = ?p + 1 + int (?k - 1)
       else length ?t \<le> cs_cursor (sb_stream b'))"
  proof (cases "sb_pushback_buffer b = []")
    case True
    have l: "length ?t = min (nat (sb_end b)) (length (cs_text (sb_stream b)))"
      by (simp add: stream_text_def min_def)
    show ?thesis
    proof (cases "?p < int (length ?t)")
      case lt: True
      then have cur: "int ?cur = ?p" "?cur = nat ?p" using i(4) True by auto
      have "?cur < length (cs_text (sb_stream b))" "?p < sb_end b" using lt l cur by linarith+
      then have "b' = b\<lparr>sb_pos := ?p + 1, sb_stream := (sb_stream b)\<lparr>cs_cursor := ?cur + 1\<rparr>, sb_last := c\<rparr>"
        "c = sint (cs_text (sb_stream b) ! ?cur)"
        using a True by (auto simp: StreamBuffer_Advance_def has_more_def GetNext_def)
      moreover have "sint (cs_text (sb_stream b) ! ?cur) = char_at ?t ?p"
      proof -
        have "nat ?p < length (take (nat (sb_end b)) (cs_text (sb_stream b)))"
        proof -
          have "nat ?p < length ?t" using lt i(1,2) by linarith
          then show ?thesis unfolding stream_text_def by (simp only: length_map)
        qed
        then show ?thesis using lt cur i(1,2) by (simp add: char_at_def stream_text_def)
      qed
      moreover have "if ?p + 1 < int (length ?t) then int (?cur + 1) = ?p + 1 else length ?t \<le> ?cur + 1"
        using cur by auto
      ultimately show ?thesis using True by (auto split: if_splits)
    next
      case False
      then have "length ?t \<le> ?cur" using i(4) True by simp
      then have "\<not> (has_more (sb_stream b) \<and> ?p < sb_end b)"
        using False l i(3) by (auto simp: has_more_def min_def split: if_splits)
      then show ?thesis using a True False \<open>length ?t \<le> ?cur\<close>
        by (auto simp: StreamBuffer_Advance_def char_at_def)
    qed
  next
    case False
    then have k: "0 < ?k" by simp
    have "last (sb_pushback_buffer b) = char_at ?t ?p" using nth[OF k] False by (simp add: last_conv_nth)
    moreover have "butlast (sb_pushback_buffer b) ! (?k - 2 - i) = char_at ?t (?p + 1 + int i)"
      if "i < ?k - 1" for i
    proof -
      have "?k - 2 - i < ?k - 1" "?k - 2 - i = ?k - 1 - Suc i" using that by simp_all
      then show ?thesis using nth[of "Suc i"] that by (simp add: nth_butlast algebra_simps)
    qed
    moreover have "?p + 1 + int (?k - 1) = ?p + int ?k" using k by linarith
    ultimately show ?thesis using a False i(4)
      by (auto simp: StreamBuffer_Advance_def Let_def)
  qed
  have "stream_inv start b'"
    unfolding stream_inv_def Let_def
    using * s i(1-3) by (simp add: numeral_2_eq_2)
  then show ?thesis using * s by simp
qed

lemma stream_inv_PushBack:
  assumes inv: "stream_inv start b" and p: "start + 2 \<le> sb_pos b"
    and ch: "ch = char_at (stream_text b) (sb_pos b - 2)"
  shows "stream_inv start (StreamBuffer_PushBack ch b) \<and>
      stream_text (StreamBuffer_PushBack ch b) = stream_text b \<and>
      sb_pos (StreamBuffer_PushBack ch b) = sb_pos b - 1"
proof -
  let ?t = "stream_text b" and ?p = "sb_pos b" and ?k = "length (sb_pushback_buffer b)"
  have t: "stream_text (StreamBuffer_PushBack ch b) = ?t"
    by (simp add: stream_text_def StreamBuffer_PushBack_def)
  have "(sb_pushback_buffer b @ [sb_last b]) ! (?k - i) = char_at ?t (?p - 1 + int i)" if "i < Suc ?k" for i
  proof (cases i)
    case 0
    then show ?thesis using inv p by (simp add: stream_inv_def Let_def)
  next
    case (Suc j)
    then have "j < ?k" "?k - i = ?k - 1 - j" "?k - 1 - j < ?k" using that by simp_all
    then show ?thesis using inv Suc by (simp add: stream_inv_def Let_def nth_append)
  qed
  then show ?thesis
    using inv p ch t by (simp add: stream_inv_def Let_def StreamBuffer_PushBack_def)
qed

interpretation stream: utf16_source StreamBuffer_Advance StreamBuffer_PushBack
  stream_text sb_pos stream_inv
  by unfold_locales (use stream_inv_Advance stream_inv_PushBack in blast)+

section \<open>Properties\<close>

lemma external_start:
  assumes "0 \<le> start" "start < int (length data)" "start < end_pos" "end_pos \<le> int (length data)" "end_pos \<noteq> 1"
  shows "external_inv start (ExternalBuffer_Initialize data start end_pos ExternalBuffer_new) \<and>
    external_text (ExternalBuffer_Initialize data start end_pos ExternalBuffer_new) =
      map uint (take (nat end_pos) data) \<and>
    eb_pos (ExternalBuffer_Initialize data start end_pos ExternalBuffer_new) = start"
  using assms
  by (auto simp: ExternalBuffer_Initialize_def ExternalBuffer_SeekForward_def ExternalBuffer_new_def
      external_inv_def external_text_def kNoEndPosition_def Let_def)

lemma stream_start:
  assumes "0 \<le> start" "start < int (length data)" "start < end_pos" "end_pos \<le> int (length data)" "end_pos \<noteq> 1"
  shows "stream_inv start (StreamBuffer_Initialize \<lparr>cs_text = map ucast data, cs_cursor = 0\<rparr> start end_pos StreamBuffer_new) \<and>
    stream_text (StreamBuffer_Initialize \<lparr>cs_text = map ucast data, cs_cursor = 0\<rparr> start end_pos StreamBuffer_new) =
      map uint (take (nat end_pos) (data :: uint16 list)) \<and>
    sb_pos (StreamBuffer_Initialize \<lparr>cs_text = map ucast data, cs_cursor = 0\<rparr> start end_pos StreamBuffer_new) = start"
proof -
  have "sint (ucast w :: uint32) = uint w" for w :: uint16
  proof -
    have "uint (ucast w :: uint32) = uint w" by (simp add: uint_up_ucast is_up)
    moreover have "uint w < 2 ^ 16" using uint_lt2p[of w] by simp
    moreover have "- (2 ^ 31) \<le> uint w" by (rule order_trans [of _ 0]) simp_all
    ultimately have "signed_take_bit 31 (uint w) = uint w"
      by (intro signed_take_bit_int_eq_self) simp_all
    then show ?thesis using \<open>uint (ucast w :: uint32) = uint w\<close> by (simp add: sint_uint)
  qed
  then have m: "map sint (take n (map ucast data :: uint32 list)) = map uint (take n data)" for n
    by (simp add: take_map)
  show ?thesis
    using assms
    by (auto simp: StreamBuffer_Initialize_def StreamBuffer_SeekForward_def StreamBuffer_new_def
        Stream_Seek_def stream_inv_def stream_text_def kNoEndPosition_def Let_def m)
qed

text \<open>
  C20. The scanner cannot tell an external string from a character stream. Over the same characters
  and range, any sequence of advances and push-backs reads the same characters from both buffers,
  at and behind the end of the range too, as long as no push-back goes before the second character
  read and each pushes the character in front of the current one.
\<close>

theorem buffers_agree:
  assumes "0 \<le> start" "start < end_pos" "end_pos \<le> int (length data)" "end_pos \<noteq> 1" "legal_ops start start ops"
  shows "run_source ExternalBuffer_Advance ExternalBuffer_PushBack
      (char_at (map uint (take (nat end_pos) data))) ops start
      (ExternalBuffer_Initialize data start end_pos ExternalBuffer_new) =
    run_source StreamBuffer_Advance StreamBuffer_PushBack
      (char_at (map uint (take (nat end_pos) data))) ops start
      (StreamBuffer_Initialize \<lparr>cs_text = map ucast data, cs_cursor = 0\<rparr> start end_pos StreamBuffer_new)"
proof -
  have "start < int (length data)" using assms by simp
  note e = external_start[OF assms(1) this assms(2-4)] and s = stream_start[OF assms(1) this assms(2-4)]
  show ?thesis
    using external.run_source_spec[of start "ExternalBuffer_Initialize data start end_pos ExternalBuffer_new" ops]
      stream.run_source_spec[of start
        "StreamBuffer_Initialize \<lparr>cs_text = map ucast data, cs_cursor = 0\<rparr> start end_pos StreamBuffer_new" ops]
      e s assms(5) by simp
qed

text \<open>Reading two of three characters, going back once, and reading to the end.\<close>

theorem buffers_agree_witness:
  "run_source StreamBuffer_Advance StreamBuffer_PushBack (char_at [97, 98])
     [Adv, Adv, Push, Adv, Adv, Adv] 0
     (StreamBuffer_Initialize \<lparr>cs_text = [97, 98, 99], cs_cursor = 0\<rparr> 0 2 StreamBuffer_new) =
   [97, 98, 98, -1, -1]"
  using buffers_agree [of 0 2 "[97, 98, 99]" "[Adv, Adv, Push, Adv, Adv, Adv]"]
  by (simp add: ExternalBuffer_Initialize_def ExternalBuffer_new_def ExternalBuffer_Advance_def
      ExternalBuffer_PushBack_def kNoEndPosition_def Let_def)


end
