(* ===== verification/ScannerBase.thy ===== *)
theory ScannerBase
  imports UTF16Buffer KeywordMatcher CharPredicates
begin

text \<open>
  The part of the scanner JavaScript and JSON share: \<open>LiteralCollector\<close> and \<open>Scanner\<close> of
  src/src/scanner-base.h and src/src/scanner-base.cc. The state is one record; an operation maps it
  to its result and the changed state. The source is the external string buffer, which any other
  source of characters agrees with (theory \<open>UTF16Buffer\<close>). The current sequence of the literal
  buffer is a list of bytes; the collector below it is the subject of its own theory. Every loop
  ends because it advances; \<open>scan_left\<close> counts the characters left.
\<close>

text \<open>The code of a character of the source text of the scanner.\<close>

abbreviation chr :: "char \<Rightarrow> int" where "chr c \<equiv> of_char c"

section \<open>Literals\<close>

record LiteralCollector =
  lc_buffer :: "uint8 list"
  lc_recording :: bool

definition LiteralCollector_new :: LiteralCollector where
  "LiteralCollector_new = \<lparr>lc_buffer = [], lc_recording = False\<rparr>"

definition kEndMarker :: uint8 where "kEndMarker = 0"

definition AddCharSlow :: "int \<Rightarrow> LiteralCollector \<Rightarrow> LiteralCollector" where
  "AddCharSlow c l = l\<lparr>lc_buffer := lc_buffer l @ Utf8_Encode (word_of_int c)\<rparr>"

definition LiteralCollector_AddChar :: "int \<Rightarrow> LiteralCollector \<Rightarrow> LiteralCollector" where
  "LiteralCollector_AddChar c l =
     (if lc_recording l then
        (if word_of_int c \<le> kMaxOneByteChar then l\<lparr>lc_buffer := lc_buffer l @ [word_of_int c]\<rparr>
         else AddCharSlow c l)
      else l)"

definition LiteralCollector_StartLiteral :: "LiteralCollector \<Rightarrow> LiteralCollector" where
  "LiteralCollector_StartLiteral l = l\<lparr>lc_buffer := [], lc_recording := True\<rparr>"

text \<open>None is the empty vector, whose start is NULL.\<close>

definition EndLiteral :: "LiteralCollector \<Rightarrow> uint8 list option \<times> LiteralCollector" where
  "EndLiteral l =
     (if lc_recording l
      then (Some (lc_buffer l @ [kEndMarker]), l\<lparr>lc_recording := False, lc_buffer := []\<rparr>)
      else (None, l))"

definition LiteralCollector_DropLiteral :: "LiteralCollector \<Rightarrow> LiteralCollector" where
  "LiteralCollector_DropLiteral l =
     (if lc_recording l then l\<lparr>lc_recording := False, lc_buffer := []\<rparr> else l)"

section \<open>The scanner's state\<close>

record TokenDesc =
  td_token :: Token
  td_beg_pos :: int
  td_end_pos :: int
  td_literal_chars :: "uint8 list option"

definition TokenDesc_new :: TokenDesc where
  "TokenDesc_new = \<lparr>td_token = EOS, td_beg_pos = 0, td_end_pos = 0, td_literal_chars = None\<rparr>"

record Scanner =
  current_desc :: TokenDesc
  next_desc :: TokenDesc
  source :: ExternalBuffer
  literal_buffer :: LiteralCollector
  c0 :: int

definition Advance :: "'a Scanner_scheme \<Rightarrow> 'a Scanner_scheme" where
  "Advance s = (case ExternalBuffer_Advance (source s) of (c, b) \<Rightarrow> s\<lparr>source := b, c0 := c\<rparr>)"

definition PushBack :: "int \<Rightarrow> 'a Scanner_scheme \<Rightarrow> 'a Scanner_scheme" where
  "PushBack ch s = s\<lparr>source := ExternalBuffer_PushBack ch (source s), c0 := ch\<rparr>"

definition kCharacterLookaheadBufferSize :: int where "kCharacterLookaheadBufferSize = 1"

definition source_pos :: "'a Scanner_scheme \<Rightarrow> int" where
  "source_pos s = eb_pos (source s) - kCharacterLookaheadBufferSize"

definition StartLiteral :: "'a Scanner_scheme \<Rightarrow> 'a Scanner_scheme" where
  "StartLiteral s = s\<lparr>literal_buffer := LiteralCollector_StartLiteral (literal_buffer s)\<rparr>"

definition AddLiteralChar :: "int \<Rightarrow> 'a Scanner_scheme \<Rightarrow> 'a Scanner_scheme" where
  "AddLiteralChar c s = s\<lparr>literal_buffer := LiteralCollector_AddChar c (literal_buffer s)\<rparr>"

definition TerminateLiteral :: "'a Scanner_scheme \<Rightarrow> 'a Scanner_scheme" where
  "TerminateLiteral s =
     (case EndLiteral (literal_buffer s) of (chars, l) \<Rightarrow>
        s\<lparr>next_desc := (next_desc s)\<lparr>td_literal_chars := chars\<rparr>, literal_buffer := l\<rparr>)"

definition DropLiteral :: "'a Scanner_scheme \<Rightarrow> 'a Scanner_scheme" where
  "DropLiteral s = s\<lparr>literal_buffer := LiteralCollector_DropLiteral (literal_buffer s)\<rparr>"

definition AddLiteralCharAdvance :: "'a Scanner_scheme \<Rightarrow> 'a Scanner_scheme" where
  "AddLiteralCharAdvance s = Advance (AddLiteralChar (c0 s) s)"

definition Select :: "Token \<Rightarrow> 'a Scanner_scheme \<Rightarrow> Token \<times> 'a Scanner_scheme" where
  "Select tok s = (tok, Advance s)"

definition Select_next ::
    "int \<Rightarrow> Token \<Rightarrow> Token \<Rightarrow> 'a Scanner_scheme \<Rightarrow> Token \<times> 'a Scanner_scheme" where
  "Select_next nxt then_tok else_tok s =
     (let s = Advance s in
      if c0 s = nxt then (then_tok, Advance s) else (else_tok, s))"

definition Scanner_Init :: "'a Scanner_scheme \<Rightarrow> 'a Scanner_scheme" where
  "Scanner_Init s =
     (let s = Advance s in
      s\<lparr>current_desc := (current_desc s)\<lparr>td_literal_chars := None\<rparr>, literal_buffer := LiteralCollector_new\<rparr>)"

text \<open>
  A literal scope runs its body between the start of a literal and its end; the destructor drops
  the literal when the body has returned without \<open>Complete\<close>. The body returns a flag for that.
\<close>

definition literal_scope ::
    "bool \<Rightarrow> ('a Scanner_scheme \<Rightarrow> 'r \<times> bool \<times> 'a Scanner_scheme) \<Rightarrow> 'a Scanner_scheme \<Rightarrow> 'r \<times> 'a Scanner_scheme" where
  "literal_scope record body s =
     (case body (if record then StartLiteral s else s) of (r, complete, s') \<Rightarrow>
        (r, if complete then s' else DropLiteral s'))"

section \<open>Escapes\<close>

text \<open>The \<open>for\<close> loop that pushes back the digits read before the current one, last first.\<close>

fun push_back_digits :: "int list \<Rightarrow> 'a Scanner_scheme \<Rightarrow> 'a Scanner_scheme" where
  "push_back_digits [] s = s"
| "push_back_digits (d # ds) s = push_back_digits ds (PushBack d s)"

text \<open>\<open>digits\<close> holds the digits read so far, the last one first; \<open>n\<close> digits are still to be read.\<close>

primrec hex_escape_loop ::
    "int \<Rightarrow> nat \<Rightarrow> int list \<Rightarrow> int \<Rightarrow> 'a Scanner_scheme \<Rightarrow> int \<times> 'a Scanner_scheme" where
  "hex_escape_loop c 0 digits x s = (x, s)"
| "hex_escape_loop c (Suc n) digits x s =
     (let d = HexValue (c0 s) in
      if d < 0 then (c, push_back_digits digits s)
      else hex_escape_loop c n (c0 s # digits) (x * 16 + d) (Advance s))"

definition ScanHexEscape :: "int \<Rightarrow> nat \<Rightarrow> 'a Scanner_scheme \<Rightarrow> int \<times> 'a Scanner_scheme" where
  "ScanHexEscape c len s = hex_escape_loop c len [] 0 s"

primrec octal_escape_loop :: "nat \<Rightarrow> int \<Rightarrow> 'a Scanner_scheme \<Rightarrow> int \<times> 'a Scanner_scheme" where
  "octal_escape_loop 0 x s = (x, s)"
| "octal_escape_loop (Suc n) x s =
     (let d = c0 s - 48 in
      if d < 0 \<or> d > 7 then (x, s)
      else
        (let nx = x * 8 + d in
         if nx \<ge> 256 then (x, s) else octal_escape_loop n nx (Advance s)))"

definition ScanOctalEscape :: "int \<Rightarrow> nat \<Rightarrow> 'a Scanner_scheme \<Rightarrow> int \<times> 'a Scanner_scheme" where
  "ScanOctalEscape c len s = octal_escape_loop len (c - 48) s"

section \<open>Progress\<close>

definition scan_left :: "'a Scanner_scheme \<Rightarrow> nat" where
  "scan_left s = nat (eb_end (source s) - eb_pos (source s)) + (if 0 \<le> c0 s then 1 else 0)"

lemma PushBack_Advance: "c0 s = ch \<Longrightarrow> PushBack ch (Advance s) = s"
  by (cases "ExternalBuffer_Advance (source s)")
     (auto simp: Advance_def PushBack_def ExternalBuffer_Advance_def ExternalBuffer_PushBack_def split: if_splits)

text \<open>The literal operations leave the input alone.\<close>

named_theorems literal_simps

lemma literal_input [literal_simps, simp]:
  "source (StartLiteral s) = source s" "c0 (StartLiteral s) = c0 s"
  "source (AddLiteralChar c s) = source s" "c0 (AddLiteralChar c s) = c0 s"
  "source (TerminateLiteral s) = source s" "c0 (TerminateLiteral s) = c0 s"
  "source (DropLiteral s) = source s" "c0 (DropLiteral s) = c0 s"
  by (simp_all add: StartLiteral_def AddLiteralChar_def TerminateLiteral_def DropLiteral_def split: prod.split)

lemma scan_left_literal [simp]:
  "scan_left (StartLiteral s) = scan_left s" "scan_left (AddLiteralChar c s) = scan_left s"
  "scan_left (TerminateLiteral s) = scan_left s" "scan_left (DropLiteral s) = scan_left s"
  by (simp_all add: scan_left_def)

text \<open>
  \<open>moved s t\<close>: the scanner \<open>t\<close> is \<open>s\<close> later on: the source is the same and not further back, and
  once it has moved, the current character tells whether the source is at its end.
\<close>

abbreviation spos :: "'a Scanner_scheme \<Rightarrow> int" where "spos s \<equiv> eb_pos (source s)"

definition moved :: "'a Scanner_scheme \<Rightarrow> 'a Scanner_scheme \<Rightarrow> bool" where
  "moved s t \<longleftrightarrow> eb_raw_data (source t) = eb_raw_data (source s) \<and> eb_end (source t) = eb_end (source s) \<and>
     spos s \<le> spos t \<and> (spos s = spos t \<longrightarrow> c0 t = c0 s) \<and>
     (spos s < spos t \<longrightarrow> (0 \<le> c0 t \<longleftrightarrow> spos t \<le> eb_end (source t)) \<and> -1 \<le> c0 t \<and> c0 t < 65536)"

definition farther :: "'a Scanner_scheme \<Rightarrow> 'a Scanner_scheme \<Rightarrow> bool" where
  "farther s t \<longleftrightarrow> moved s t \<and> spos s < spos t"

lemma moved_refl [simp, intro]: "moved s s"
  by (simp add: moved_def)

lemma moved_trans [trans]: "moved s t \<Longrightarrow> moved t u \<Longrightarrow> moved s u"
  by (auto simp: moved_def)

lemma farther_moved [trans]: "farther s t \<Longrightarrow> moved t u \<Longrightarrow> farther s u"
  by (auto simp: farther_def intro: moved_trans) (simp add: moved_def)

lemma moved_farther [trans]: "moved s t \<Longrightarrow> farther t u \<Longrightarrow> farther s u"
  by (auto simp: farther_def intro: moved_trans) (simp add: moved_def)

lemma farther_imp_moved: "farther s t \<Longrightarrow> moved s t"
  by (simp add: farther_def)

lemma farther_Advance: "farther s (Advance s)"
  using uint_lt2p [of "eb_raw_data (source s) ! nat (spos s)"]
  by (auto simp: farther_def moved_def Advance_def ExternalBuffer_Advance_def)
     (rule order_trans [of _ 0], simp_all)

lemma moved_Advance: "moved s (Advance s)"
  by (rule farther_imp_moved [OF farther_Advance])

lemma moved_cong:
  "source t' = source t \<Longrightarrow> c0 t' = c0 t \<Longrightarrow> source s' = source s \<Longrightarrow> c0 s' = c0 s \<Longrightarrow>
   moved s' t' = moved s t"
  by (simp add: moved_def)

lemma moved_literal [simp]:
  "moved s (StartLiteral t) = moved s t" "moved (StartLiteral s) t = moved s t"
  "moved s (AddLiteralChar c t) = moved s t" "moved (AddLiteralChar c s) t = moved s t"
  "moved s (TerminateLiteral t) = moved s t" "moved (TerminateLiteral s) t = moved s t"
  "moved s (DropLiteral t) = moved s t" "moved (DropLiteral s) t = moved s t"
  by (simp_all add: moved_def)

lemma farther_literal [simp]:
  "farther s (StartLiteral t) = farther s t" "farther (StartLiteral s) t = farther s t"
  "farther s (AddLiteralChar c t) = farther s t" "farther (AddLiteralChar c s) t = farther s t"
  "farther s (TerminateLiteral t) = farther s t" "farther (TerminateLiteral s) t = farther s t"
  "farther s (DropLiteral t) = farther s t" "farther (DropLiteral s) t = farther s t"
  by (simp_all add: farther_def)

lemma farther_AddLiteralCharAdvance: "farther s (AddLiteralCharAdvance s)"
  using farther_Advance [of "AddLiteralChar (c0 s) s"] by (simp add: AddLiteralCharAdvance_def)

lemma moved_AddLiteralCharAdvance: "moved s (AddLiteralCharAdvance s)"
  by (rule farther_imp_moved [OF farther_AddLiteralCharAdvance])

lemma moved_scan_left: "moved s t \<Longrightarrow> scan_left t \<le> scan_left s"
  by (auto simp: moved_def scan_left_def)

lemma farther_scan_left: "farther s t \<Longrightarrow> 0 \<le> c0 s \<Longrightarrow> scan_left t < scan_left s"
  by (auto simp: farther_def moved_def scan_left_def)

lemma scan_left_Advance_less: "0 \<le> c0 s \<Longrightarrow> scan_left (Advance s) < scan_left s"
  by (rule farther_scan_left [OF farther_Advance])

lemma scan_left_AddLiteralCharAdvance_less:
  "0 \<le> c0 s \<Longrightarrow> scan_left (AddLiteralCharAdvance s) < scan_left s"
  by (rule farther_scan_left [OF farther_AddLiteralCharAdvance])

text \<open>A hexadecimal escape that fails leaves the scanner as it was.\<close>

fun advance_n :: "nat \<Rightarrow> 'a Scanner_scheme \<Rightarrow> 'a Scanner_scheme" where
  "advance_n 0 s = s"
| "advance_n (Suc n) s = advance_n n (Advance s)"

lemma advance_n_Suc: "advance_n (Suc n) s = Advance (advance_n n s)"
  by (induction n arbitrary: s) auto

lemma push_back_digits_undo:
  "length ds = n \<Longrightarrow> (\<forall>i < n. ds ! (n - 1 - i) = c0 (advance_n i s)) \<Longrightarrow>
   push_back_digits ds (advance_n n s) = s"
proof (induction n arbitrary: ds)
  case (Suc n)
  then obtain d ds' where ds: "ds = d # ds'" by (cases ds) auto
  have d: "c0 (advance_n n s) = d" using Suc.prems(2) ds by (metis diff_Suc_1 diff_self_eq_0 lessI nth_Cons_0)
  have "\<forall>i < n. ds' ! (n - 1 - i) = c0 (advance_n i s)"
  proof (intro allI impI)
    fix i assume i: "i < n"
    then have "ds ! (Suc n - 1 - i) = ds' ! (n - 1 - i)" by (simp add: ds Suc_diff_le[symmetric])
    then show "ds' ! (n - 1 - i) = c0 (advance_n i s)" using Suc.prems(2) i by (metis less_SucI)
  qed
  then show ?case using Suc.IH[of ds'] Suc.prems(1) ds d by (simp add: advance_n_Suc PushBack_Advance del: advance_n.simps)
qed simp

lemma hex_escape_loop_cases:
  assumes "length ds = k" "\<forall>i < k. ds ! (k - 1 - i) = c0 (advance_n i s)"
  shows "hex_escape_loop c n ds x (advance_n k s) = (c, s) \<or>
    (\<exists>y. hex_escape_loop c n ds x (advance_n k s) = (y, advance_n (k + n) s) \<and>
      (\<forall>i < k + n. k \<le> i \<longrightarrow> 0 \<le> HexValue (c0 (advance_n i s))))"
  using assms
proof (induction n arbitrary: ds x k)
  case (Suc n)
  show ?case
  proof (cases "HexValue (c0 (advance_n k s)) < 0")
    case True
    then show ?thesis using push_back_digits_undo[OF Suc.prems] by (simp add: Let_def)
  next
    case False
    let ?ds = "c0 (advance_n k s) # ds"
    have "\<forall>i < Suc k. ?ds ! (Suc k - 1 - i) = c0 (advance_n i s)"
    proof (intro allI impI)
      fix i assume "i < Suc k"
      then consider "i = k" | "i < k" by linarith
      then show "?ds ! (Suc k - 1 - i) = c0 (advance_n i s)"
      proof cases
        case 2
        then have "Suc k - 1 - i = Suc (k - 1 - i)" by simp
        then show ?thesis using Suc.prems(2) 2 by simp
      qed simp
    qed
    note IH = Suc.IH[of ?ds "Suc k" "x * 16 + HexValue (c0 (advance_n k s))", OF _ this]
    have step: "hex_escape_loop c (Suc n) ds x (advance_n k s) =
        hex_escape_loop c n ?ds (x * 16 + HexValue (c0 (advance_n k s))) (advance_n (Suc k) s)"
      using False by (simp add: Let_def advance_n_Suc del: advance_n.simps)
    have all: "(\<forall>i < Suc k + n. Suc k \<le> i \<longrightarrow> P i) \<Longrightarrow> P k \<Longrightarrow> (\<forall>i < k + Suc n. k \<le> i \<longrightarrow> P i)" for P
      by (metis add_Suc_shift le_antisym not_less_eq_eq)
    show ?thesis using IH False Suc.prems(1) all[of "\<lambda>i. 0 \<le> HexValue (c0 (advance_n i s))"]
      unfolding step by (auto simp del: advance_n.simps)
  qed
qed simp

lemma ScanHexEscape_cases:
  "ScanHexEscape c n s = (c, s) \<or>
   (\<exists>y. ScanHexEscape c n s = (y, advance_n n s) \<and> (\<forall>i < n. 0 \<le> HexValue (c0 (advance_n i s))))"
  using hex_escape_loop_cases[of "[]" 0 s c n 0] by (simp add: ScanHexEscape_def)

lemma moved_advance_n: "moved s (advance_n n s)"
  by (induction n arbitrary: s) (auto intro: moved_trans moved_Advance)

lemma moved_ScanHexEscape: "moved s (snd (ScanHexEscape c n s))"
  using ScanHexEscape_cases[of c n s] moved_advance_n by auto

lemma moved_ScanOctalEscape: "moved s (snd (ScanOctalEscape c n s))"
proof -
  have "moved s (snd (octal_escape_loop n x s))" for x
    by (induction n arbitrary: x s) (auto simp: Let_def intro: moved_trans moved_Advance)
  then show ?thesis by (simp add: ScanOctalEscape_def)
qed

end
