(* ===== verification/JavaScriptScanner.thy ===== *)
theory JavaScriptScanner
  imports ScannerBase
begin

text \<open>
  \<open>JavaScriptScanner\<close> of src/src/scanner-base.h and src/src/scanner-base.cc and the initialisation
  of \<open>V8JavaScriptScanner\<close> in src/src/scanner.cc. An operation keeps the name of the code; a loop of
  it is a function of its own, with a termination proof by the characters left.
\<close>

section \<open>State\<close>

record JsScanner = Scanner +
  literal_flags :: nat
  has_line_terminator_before_next :: bool

definition kLiteralNumber :: nat where "kLiteralNumber = 1"
definition kLiteralIdentifier :: nat where "kLiteralIdentifier = 2"
definition kLiteralString :: nat where "kLiteralString = 4"
definition kLiteralRegExp :: nat where "kLiteralRegExp = 8"
definition kLiteralRegExpFlags :: nat where "kLiteralRegExpFlags = 16"
definition kAllLiterals :: nat where "kAllLiterals = 31"

definition RecordsLiteral :: "nat \<Rightarrow> JsScanner \<Rightarrow> bool" where
  "RecordsLiteral type s = (literal_flags s AND type \<noteq> 0)"

definition js_literal_scope ::
    "nat \<Rightarrow> (JsScanner \<Rightarrow> 'r \<times> bool \<times> JsScanner) \<Rightarrow> JsScanner \<Rightarrow> 'r \<times> JsScanner" where
  "js_literal_scope type body s = literal_scope (RecordsLiteral type s) body s"

section \<open>White space and comments\<close>

lemma IsWhiteSpace_eof [simp]: "\<not> IsWhiteSpace (-1)"
  by (simp add: IsWhiteSpace_iff)

lemma scan_left_set_lt [simp]: "scan_left (s\<lparr>has_line_terminator_before_next := b\<rparr>) = scan_left s"
  by (simp add: scan_left_def)

lemma moved_set_lt [simp]:
  "moved s (t\<lparr>has_line_terminator_before_next := b\<rparr>) = moved s t"
  "moved (s\<lparr>has_line_terminator_before_next := b\<rparr>) t = moved s t"
  "farther s (t\<lparr>has_line_terminator_before_next := b\<rparr>) = farther s t"
  "farther (s\<lparr>has_line_terminator_before_next := b\<rparr>) t = farther s t"
  by (simp_all add: moved_def farther_def)

text \<open>The inner \<open>while\<close> of \<open>SkipWhiteSpace\<close>; the end of the input, the only negative
character a source returns, is not white space.\<close>

function skip_white :: "JsScanner \<Rightarrow> JsScanner" where
  "skip_white s =
     (if 0 \<le> c0 s \<and> (IsWhiteSpace (c0 s) \<or> IsByteOrderMark (c0 s)) then
        skip_white (Advance (if IsLineTerminator (c0 s)
                             then s\<lparr>has_line_terminator_before_next := True\<rparr> else s))
      else s)"
  by pat_completeness auto
termination
proof (relation "measure scan_left", goal_cases)
  case (2 s)
  let ?s = "if IsLineTerminator (c0 s) then s\<lparr>has_line_terminator_before_next := True\<rparr> else s"
  have "scan_left (Advance ?s) < scan_left ?s" using 2 by (intro scan_left_Advance_less) simp
  then show ?case by (simp add: scan_left_set_lt split: if_splits)
qed simp

declare skip_white.simps [simp del]

function skip_line :: "JsScanner \<Rightarrow> JsScanner" where
  "skip_line s =
     (if c0 s \<ge> 0 \<and> \<not> IsLineTerminator (c0 s) then skip_line (Advance s) else s)"
  by pat_completeness auto
termination
  by (relation "measure scan_left") (simp_all add: scan_left_Advance_less)

declare skip_line.simps [simp del]

definition SkipSingleLineComment :: "JsScanner \<Rightarrow> Token \<times> JsScanner" where
  "SkipSingleLineComment s = (WHITESPACE, skip_line (Advance s))"

text \<open>\<open>char ch = c0_\<close> keeps the low eight bits of the character.\<close>

function skip_block :: "JsScanner \<Rightarrow> Token \<times> JsScanner" where
  "skip_block s =
     (if c0 s \<ge> 0 then
        (let ch = word_of_int (c0 s) :: uint8; s' = Advance s in
         if ch = word_of_int (chr (CHR ''*'')) \<and> c0 s' = chr (CHR ''/'')
         then (WHITESPACE, s'\<lparr>c0 := chr (CHR '' '')\<rparr>)
         else skip_block s')
      else (ILLEGAL, s))"
  by pat_completeness auto
termination
  by (relation "measure scan_left") (simp_all add: scan_left_Advance_less)

declare skip_block.simps [simp del]

definition SkipMultiLineComment :: "JsScanner \<Rightarrow> Token \<times> JsScanner" where
  "SkipMultiLineComment s = skip_block (Advance s)"

lemma skip_white_step:
  assumes "0 \<le> c0 s \<and> (IsWhiteSpace (c0 s) \<or> IsByteOrderMark (c0 s))"
  obtains u where "farther s u" "skip_white s = skip_white u"
proof -
  let ?s = "if IsLineTerminator (c0 s) then s\<lparr>has_line_terminator_before_next := True\<rparr> else s"
  have "skip_white s = skip_white (Advance ?s)" using assms by (subst skip_white.simps) simp
  moreover have "farther s (Advance ?s)"
    using farther_Advance [of "s\<lparr>has_line_terminator_before_next := True\<rparr>"] farther_Advance [of s] by simp
  ultimately show thesis using that by blast
qed

lemma moved_skip_white: "moved s (skip_white s)"
proof (induction s rule: measure_induct_rule [of scan_left])
  case (less s)
  show ?case
  proof (cases "0 \<le> c0 s \<and> (IsWhiteSpace (c0 s) \<or> IsByteOrderMark (c0 s))")
    case True
    then obtain u where u: "farther s u" "skip_white s = skip_white u" by (rule skip_white_step)
    then have "moved u (skip_white u)" using less True farther_scan_left by blast
    then show ?thesis using u by (metis farther_imp_moved moved_trans)
  next
    case False
    then have "skip_white s = s" by (subst skip_white.simps) (rule if_not_P)
    then show ?thesis by simp
  qed
qed

lemma moved_skip_line: "moved s (skip_line s)"
proof (induction s rule: skip_line.induct)
  case (1 s)
  show ?case
  proof (cases "c0 s \<ge> 0 \<and> \<not> IsLineTerminator (c0 s)")
    case True
    then have "moved (Advance s) (skip_line s)" using 1 by (subst skip_line.simps) simp
    then show ?thesis using moved_Advance moved_trans by blast
  next
    case False
    then have "skip_line s = s" by (subst skip_line.simps) (rule if_not_P)
    then show ?thesis by simp
  qed
qed

lemma farther_SkipSingleLineComment: "farther s (snd (SkipSingleLineComment s))"
  using farther_moved [OF farther_Advance moved_skip_line] by (simp add: SkipSingleLineComment_def)

lemma moved_skip_block: "moved s (snd (skip_block s))"
proof (induction s rule: skip_block.induct)
  case (1 s)
  have a: "moved s (Advance s)" by (rule moved_Advance)
  show ?case
  proof (cases "c0 s \<ge> 0")
    case False
    then show ?thesis by (subst skip_block.simps) simp
  next
    case True
    show ?thesis
    proof (cases "(word_of_int (c0 s) :: uint8) = word_of_int (chr (CHR ''*'')) \<and> c0 (Advance s) = chr (CHR ''/'')")
      case m: True
      then have "moved s ((Advance s)\<lparr>c0 := chr (CHR '' '')\<rparr>)"
        using farther_Advance[of s] by (auto simp: moved_def farther_def)
      then show ?thesis using True m by (subst skip_block.simps) (simp add: Let_def)
    next
      case False
      then have "moved (Advance s) (snd (skip_block s))"
        using 1 True by (subst skip_block.simps) (auto simp: Let_def)
      then show ?thesis using a moved_trans by blast
    qed
  qed
qed

lemma farther_SkipMultiLineComment: "farther s (snd (SkipMultiLineComment s))"
  using farther_moved [OF farther_Advance moved_skip_block] by (simp add: SkipMultiLineComment_def)

text \<open>The outer loop of \<open>SkipWhiteSpace\<close> runs again only after a comment.\<close>

function skip_white_space_loop :: "JsScanner \<Rightarrow> JsScanner" where
  "skip_white_space_loop s0 =
     (let s = skip_white s0 in
      if c0 s = chr (CHR ''-'') \<and> has_line_terminator_before_next s then
        (let s1 = Advance s in
         if c0 s1 = chr (CHR ''-'') then
           (let s2 = Advance s1 in
            if c0 s2 = chr (CHR ''>'') then skip_white_space_loop (snd (SkipSingleLineComment s2))
            else PushBack (chr (CHR ''-'')) (PushBack (chr (CHR ''-'')) s2))
         else PushBack (chr (CHR ''-'')) s1)
      else s)"
  by pat_completeness auto
termination
proof (relation "measure scan_left", goal_cases)
  case (2 s0 s s1 s2)
  have "moved s0 s" unfolding 2(1) by (rule moved_skip_white)
  also have "moved s s1" unfolding 2(3) by (rule moved_Advance)
  also have "moved s1 s2" unfolding 2(5) by (rule moved_Advance)
  finally have "moved s0 s2" .
  moreover have "farther s2 (snd (SkipSingleLineComment s2))" by (rule farther_SkipSingleLineComment)
  moreover have "0 \<le> c0 s2" using 2 by simp
  ultimately have "scan_left (snd (SkipSingleLineComment s2)) < scan_left s2" "scan_left s2 \<le> scan_left s0"
    by (simp_all add: farther_scan_left moved_scan_left)
  then show ?case by simp
qed simp

declare skip_white_space_loop.simps [simp del]

definition SkipWhiteSpace :: "JsScanner \<Rightarrow> bool \<times> JsScanner" where
  "SkipWhiteSpace s =
     (let start_position = source_pos s; s' = skip_white_space_loop s
      in (source_pos s' \<noteq> start_position, s'))"

definition ScanHtmlComment :: "JsScanner \<Rightarrow> Token \<times> JsScanner" where
  "ScanHtmlComment s =
     (let s = Advance s in
      if c0 s = chr (CHR ''-'') then
        (let s = Advance s in
         if c0 s = chr (CHR ''-'') then SkipSingleLineComment s
         else (LT, PushBack (chr (CHR ''!'')) (PushBack (chr (CHR ''-'')) s)))
      else (LT, PushBack (chr (CHR ''!'')) s))"

lemma skip_white_progress: "skip_white s = s \<or> farther s (skip_white s)"
proof (cases "0 \<le> c0 s \<and> (IsWhiteSpace (c0 s) \<or> IsByteOrderMark (c0 s))")
  case True
  then obtain u where "farther s u" "skip_white s = skip_white u" by (rule skip_white_step)
  then show ?thesis using moved_skip_white farther_moved by metis
next
  case False
  then have "skip_white s = s" by (subst skip_white.simps) (rule if_not_P)
  then show ?thesis ..
qed

lemma skip_white_space_loop_progress:
  "skip_white_space_loop s = s \<or> farther s (skip_white_space_loop s)"
proof (induction s rule: skip_white_space_loop.induct)
  case (1 s0)
  let ?s = "skip_white s0" and ?s1 = "Advance (skip_white s0)" and ?s2 = "Advance (Advance (skip_white s0))"
  note eq = skip_white_space_loop.simps [of s0]
  have m: "moved s0 ?s" by (rule moved_skip_white)
  show ?case
  proof (cases "c0 ?s = chr (CHR ''-'') \<and> has_line_terminator_before_next ?s")
    case minus: True
    then have p1: "PushBack (chr (CHR ''-'')) ?s1 = ?s" by (simp add: PushBack_Advance)
    show ?thesis
    proof (cases "c0 ?s1 = chr (CHR ''-'')")
      case minus2: True
      then have p2: "PushBack (chr (CHR ''-'')) ?s2 = ?s1" by (simp add: PushBack_Advance)
      show ?thesis
      proof (cases "c0 ?s2 = chr (CHR ''>'')")
        case True
        let ?s3 = "snd (SkipSingleLineComment ?s2)"
        have e: "skip_white_space_loop s0 = skip_white_space_loop ?s3"
          using minus minus2 True by (subst eq) (simp add: Let_def)
        have "farther s0 ?s1" using m farther_Advance by (rule moved_farther)
        also have "moved ?s1 ?s2" by (rule moved_Advance)
        also have "moved ?s2 ?s3" by (rule farther_imp_moved [OF farther_SkipSingleLineComment])
        finally have "farther s0 ?s3" .
        moreover have "skip_white_space_loop ?s3 = ?s3 \<or> farther ?s3 (skip_white_space_loop ?s3)"
          using 1 minus minus2 True by simp
        ultimately show ?thesis using e farther_moved farther_imp_moved by metis
      next
        case False
        then have "skip_white_space_loop s0 = ?s"
          using minus minus2 p1 p2 by (subst eq) (simp add: Let_def)
        then show ?thesis using skip_white_progress [of s0] by simp
      qed
    next
      case False
      then have "skip_white_space_loop s0 = ?s" using minus p1 by (subst eq) (simp add: Let_def)
      then show ?thesis using skip_white_progress [of s0] by simp
    qed
  next
    case False
    have "skip_white_space_loop s0 = ?s" by (subst eq) (simp only: Let_def False if_False)
    then show ?thesis using skip_white_progress [of s0] by simp
  qed
qed

lemma SkipWhiteSpace_progress:
  "if fst (SkipWhiteSpace s) then farther s (snd (SkipWhiteSpace s)) else snd (SkipWhiteSpace s) = s"
  using skip_white_space_loop_progress [of s]
  by (auto simp: SkipWhiteSpace_def Let_def source_pos_def farther_def)

lemma ScanHtmlComment_progress:
  assumes "c0 s = chr (CHR ''!'')"
  shows "ScanHtmlComment s = (LT, s) \<or>
    (fst (ScanHtmlComment s) = WHITESPACE \<and> farther s (snd (ScanHtmlComment s)))"
proof -
  let ?s1 = "Advance s" and ?s2 = "Advance (Advance s)"
  have p: "PushBack (chr (CHR ''!'')) ?s1 = s" using assms by (simp add: PushBack_Advance)
  show ?thesis
  proof (cases "c0 ?s1 = chr (CHR ''-'')")
    case minus: True
    then have p2: "PushBack (chr (CHR ''-'')) ?s2 = ?s1" by (simp add: PushBack_Advance)
    have "farther s ?s1" by (rule farther_Advance)
    also have "moved ?s1 ?s2" by (rule moved_Advance)
    also have "moved ?s2 (snd (SkipSingleLineComment ?s2))"
      by (rule farther_imp_moved [OF farther_SkipSingleLineComment])
    finally show ?thesis using minus p p2
      by (simp add: ScanHtmlComment_def Let_def SkipSingleLineComment_def)
  qed (use p in \<open>simp add: ScanHtmlComment_def Let_def\<close>)
qed

section \<open>Strings\<close>

definition ScanEscape :: "JsScanner \<Rightarrow> JsScanner" where
  "ScanEscape s0 =
     (let c = c0 s0; s = Advance s0 in
      if IsLineTerminator c then
        (let s = (if IsCarriageReturn c \<and> IsLineFeed (c0 s) then Advance s else s);
             s = (if IsLineFeed c \<and> IsCarriageReturn (c0 s) then Advance s else s)
         in s)
      else
        (let (c, s) =
           (if c = chr (CHR 0x27) \<or> c = chr (CHR 0x22) \<or> c = chr (CHR 0x5C) then (c, s)
            else if c = chr (CHR ''b'') then (8, s)
            else if c = chr (CHR ''f'') then (12, s)
            else if c = chr (CHR ''n'') then (10, s)
            else if c = chr (CHR ''r'') then (13, s)
            else if c = chr (CHR ''t'') then (9, s)
            else if c = chr (CHR ''u'') then ScanHexEscape c 4 s
            else if c = chr (CHR ''v'') then (11, s)
            else if c = chr (CHR ''x'') then ScanHexEscape c 2 s
            else if chr (CHR ''0'') \<le> c \<and> c \<le> chr (CHR ''7'') then ScanOctalEscape c 2 s
            else (c, s))
         in AddLiteralChar c s))"

lemma moved_ScanEscape: "moved s (ScanEscape s)"
proof -
  let ?a = "Advance s"
  have a: "moved s ?a" by (rule moved_Advance)
  have h: "moved s (snd (ScanHexEscape c n ?a))" "moved s (snd (ScanOctalEscape c n ?a))" for c n
    using moved_ScanHexEscape moved_ScanOctalEscape a moved_trans by blast+
  have b: "moved s (Advance ?a)" "moved s (Advance (Advance ?a))"
    using a moved_Advance moved_trans by blast+
  have u: "moved s (case p of (c, t) \<Rightarrow> AddLiteralChar c t) = moved s (snd p)" for p :: "int \<times> JsScanner"
    by (simp split: prod.split)
  show ?thesis using a b h by (simp add: ScanEscape_def Let_def u)
qed

text \<open>The loop of \<open>ScanString\<close>; true when it returns ILLEGAL from inside.\<close>

function string_loop :: "int \<Rightarrow> JsScanner \<Rightarrow> bool \<times> JsScanner" where
  "string_loop quote s =
     (if c0 s \<noteq> quote \<and> c0 s \<ge> 0 \<and> \<not> IsLineTerminator (c0 s) then
        (let c = c0 s; s' = Advance s in
         if c = chr (CHR 0x5C) then
           (if c0 s' < 0 then (True, s') else string_loop quote (ScanEscape s'))
         else string_loop quote (AddLiteralChar c s'))
      else (False, s))"
  by pat_completeness auto
termination
proof (relation "measure (\<lambda>(quote, s). scan_left s)", goal_cases)
  case (2 quote s c s')
  then have "scan_left (ScanEscape s') \<le> scan_left s'" "scan_left s' < scan_left s"
    by (simp_all add: moved_scan_left moved_ScanEscape scan_left_Advance_less)
  then show ?case by simp
qed (simp_all add: scan_left_Advance_less)

declare string_loop.simps [simp del]

definition string_body :: "int \<Rightarrow> JsScanner \<Rightarrow> Token \<times> bool \<times> JsScanner" where
  "string_body quote s =
     (case string_loop quote s of (illegal, s) \<Rightarrow>
        if illegal \<or> c0 s \<noteq> quote then (ILLEGAL, False, s)
        else (STRING, True, Advance (TerminateLiteral s)))"

definition ScanString :: "JsScanner \<Rightarrow> Token \<times> JsScanner" where
  "ScanString s =
     (let quote = c0 s in js_literal_scope kLiteralString (string_body quote) (Advance s))"

section \<open>Numbers\<close>

text \<open>The loops that add characters to the literal while they satisfy a predicate; as before, the end
of the input satisfies none of the predicates used.\<close>

function add_while :: "(int \<Rightarrow> bool) \<Rightarrow> JsScanner \<Rightarrow> JsScanner" where
  "add_while P s = (if 0 \<le> c0 s \<and> P (c0 s) then add_while P (AddLiteralCharAdvance s) else s)"
  by pat_completeness auto
termination
  by (relation "measure (\<lambda>(P, s). scan_left s)") (simp_all add: scan_left_AddLiteralCharAdvance_less)

declare add_while.simps [simp del]

definition ScanDecimalDigits :: "JsScanner \<Rightarrow> JsScanner" where
  "ScanDecimalDigits s = add_while IsDecimalDigit s"

datatype NumberKind = DECIMAL | HEX | OCTAL

text \<open>The loop over the digits of a possible octal number.\<close>

function octal_loop :: "JsScanner \<Rightarrow> NumberKind \<times> JsScanner" where
  "octal_loop s =
     (if c0 s = chr (CHR ''8'') \<or> c0 s = chr (CHR ''9'') then (DECIMAL, s)
      else if c0 s < chr (CHR ''0'') \<or> chr (CHR ''7'') < c0 s then (OCTAL, s)
      else octal_loop (AddLiteralCharAdvance s))"
  by pat_completeness auto
termination
  by (relation "measure scan_left") (simp_all add: scan_left_AddLiteralCharAdvance_less)

declare octal_loop.simps [simp del]

text \<open>The integer part after a first zero: None when the code returns ILLEGAL.\<close>

definition number_after_zero :: "JsScanner \<Rightarrow> NumberKind option \<times> JsScanner" where
  "number_after_zero s =
     (if c0 s = chr (CHR ''x'') \<or> c0 s = chr (CHR ''X'') then
        (let s = AddLiteralCharAdvance s in
         if \<not> IsHexDigit (c0 s) then (None, s) else (Some HEX, add_while IsHexDigit s))
      else if chr (CHR ''0'') \<le> c0 s \<and> c0 s \<le> chr (CHR ''7'') then
        (case octal_loop s of (kind, s) \<Rightarrow> (Some kind, s))
      else (Some DECIMAL, s))"

definition number_integer :: "bool \<Rightarrow> JsScanner \<Rightarrow> NumberKind option \<times> JsScanner" where
  "number_integer seen_period s =
     (if seen_period then (Some DECIMAL, ScanDecimalDigits (AddLiteralChar (chr (CHR ''.'')) s))
      else
        (case (if c0 s = chr (CHR ''0'') then number_after_zero (AddLiteralCharAdvance s)
               else (Some DECIMAL, s)) of
           (Some DECIMAL, s) \<Rightarrow>
             (let s = ScanDecimalDigits s in
              (Some DECIMAL,
               if c0 s = chr (CHR ''.'') then ScanDecimalDigits (AddLiteralCharAdvance s) else s))
         | r \<Rightarrow> r))"

text \<open>The exponent: false when the code returns ILLEGAL.\<close>

definition number_exponent :: "NumberKind \<Rightarrow> JsScanner \<Rightarrow> bool \<times> JsScanner" where
  "number_exponent kind s =
     (if c0 s = chr (CHR ''e'') \<or> c0 s = chr (CHR ''E'') then
        (if kind = OCTAL then (False, s)
         else
           (let s = AddLiteralCharAdvance s;
                s = (if c0 s = chr (CHR ''+'') \<or> c0 s = chr (CHR ''-'') then AddLiteralCharAdvance s else s)
            in if \<not> IsDecimalDigit (c0 s) then (False, s) else (True, ScanDecimalDigits s)))
      else (True, s))"

definition number_body :: "bool \<Rightarrow> JsScanner \<Rightarrow> Token \<times> bool \<times> JsScanner" where
  "number_body seen_period s =
     (case number_integer seen_period s of
        (None, s) \<Rightarrow> (ILLEGAL, False, s)
      | (Some kind, s) \<Rightarrow>
          (case number_exponent kind s of
             (False, s) \<Rightarrow> (ILLEGAL, False, s)
           | (True, s) \<Rightarrow>
               if IsDecimalDigit (c0 s) \<or> IdentifierStart_Is (c0 s) then (ILLEGAL, False, s)
               else (NUMBER, True, TerminateLiteral s)))"

definition ScanNumber :: "bool \<Rightarrow> JsScanner \<Rightarrow> Token \<times> JsScanner" where
  "ScanNumber seen_period s = js_literal_scope kLiteralNumber (number_body seen_period) s"

section \<open>Identifiers\<close>

definition ScanIdentifierUnicodeEscape :: "JsScanner \<Rightarrow> int \<times> JsScanner" where
  "ScanIdentifierUnicodeEscape s =
     (let s = Advance s in
      if c0 s \<noteq> chr (CHR ''u'') then (uint kBadChar, s)
      else
        (case ScanHexEscape (chr (CHR ''u'')) 4 (Advance s) of (c, s) \<Rightarrow>
           if c = chr (CHR 0x5C) then (uint kBadChar, s) else (c, s)))"

lemma farther_ScanIdentifierUnicodeEscape: "farther s (snd (ScanIdentifierUnicodeEscape s))"
proof -
  have "farther s (Advance s)" by (rule farther_Advance)
  moreover have "moved (Advance s) (Advance (Advance s))" by (rule moved_Advance)
  moreover have "moved (Advance (Advance s)) (snd (ScanHexEscape c n (Advance (Advance s))))" for c n
    by (rule moved_ScanHexEscape)
  ultimately have "farther s (snd (ScanHexEscape c n (Advance (Advance s))))" for c n
    using farther_moved by metis
  moreover have "snd (case p of (c, t) \<Rightarrow> if P c then (k, t) else (c, t)) = snd p"
    for p :: "int \<times> JsScanner" and P k by (simp split: prod.split)
  ultimately show ?thesis using farther_Advance [of s] by (simp add: ScanIdentifierUnicodeEscape_def Let_def)
qed

lemma scan_left_ScanIdentifierUnicodeEscape:
  "0 \<le> c0 s \<Longrightarrow> scan_left (snd (ScanIdentifierUnicodeEscape s)) < scan_left s"
  by (rule farther_scan_left [OF farther_ScanIdentifierUnicodeEscape])

text \<open>The loop of \<open>ScanIdentifierSuffix\<close>; true when it returns ILLEGAL.\<close>

function suffix_loop :: "JsScanner \<Rightarrow> bool \<times> JsScanner" where
  "suffix_loop s =
     (if 0 \<le> c0 s \<and> IdentifierPart_Is (c0 s) then
        (if c0 s = chr (CHR 0x5C) then
           (let r = ScanIdentifierUnicodeEscape s in
            if \<not> IdentifierPart_Is (fst r) then (True, snd r)
            else suffix_loop (AddLiteralChar (fst r) (snd r)))
         else suffix_loop (AddLiteralCharAdvance s))
      else (False, s))"
  by pat_completeness auto
termination
  by (relation "measure scan_left")
     (simp_all add: scan_left_AddLiteralCharAdvance_less scan_left_ScanIdentifierUnicodeEscape)

declare suffix_loop.simps [simp del]

definition ScanIdentifierSuffix :: "JsScanner \<Rightarrow> Token \<times> bool \<times> JsScanner" where
  "ScanIdentifierSuffix s =
     (case suffix_loop s of
        (True, s) \<Rightarrow> (ILLEGAL, False, s)
      | (False, s) \<Rightarrow> (IDENTIFIER, True, TerminateLiteral s))"

text \<open>The loop over the rest of an identifier while it may still be a keyword.\<close>

function keyword_loop :: "KeywordMatcher \<Rightarrow> JsScanner \<Rightarrow> Token \<times> bool \<times> JsScanner" where
  "keyword_loop m s =
     (if 0 \<le> c0 s \<and> IdentifierPart_Is (c0 s) then
        (if c0 s \<noteq> chr (CHR 0x5C) then
           (let next_char = c0 s; s = AddLiteralChar next_char (Advance s);
                r = KeywordMatcher_AddChar (word_of_int next_char) m
            in if fst r then keyword_loop (snd r) s else ScanIdentifierSuffix s)
         else ScanIdentifierSuffix s)
      else (km_token m, True, TerminateLiteral s))"
  by pat_completeness auto
termination
  by (relation "measure (\<lambda>(m, s). scan_left s)") (simp_all add: scan_left_Advance_less)

declare keyword_loop.simps [simp del]

definition identifier_body :: "JsScanner \<Rightarrow> Token \<times> bool \<times> JsScanner" where
  "identifier_body s =
     (if c0 s = chr (CHR 0x5C) then
        (case ScanIdentifierUnicodeEscape s of (c, s) \<Rightarrow>
           if \<not> IdentifierStart_Is c then (ILLEGAL, False, s)
           else ScanIdentifierSuffix (AddLiteralChar c s))
      else
        (let first_char = c0 s; s = AddLiteralChar first_char (Advance s);
             r = KeywordMatcher_AddChar (word_of_int first_char) KeywordMatcher_new
         in if \<not> fst r then ScanIdentifierSuffix s else keyword_loop (snd r) s))"

definition ScanIdentifierOrKeyword :: "JsScanner \<Rightarrow> Token \<times> JsScanner" where
  "ScanIdentifierOrKeyword s = js_literal_scope kLiteralIdentifier identifier_body s"

section \<open>Regular expressions\<close>

definition set_next_pos :: "int \<Rightarrow> int \<Rightarrow> JsScanner \<Rightarrow> JsScanner" where
  "set_next_pos b e s = s\<lparr>next_desc := (next_desc s)\<lparr>td_beg_pos := b, td_end_pos := e\<rparr>\<rparr>"

text \<open>The loop over the body of a regular expression; false when the code returns false.\<close>

function pattern_loop :: "bool \<Rightarrow> JsScanner \<Rightarrow> bool \<times> JsScanner" where
  "pattern_loop in_character_class s =
     (if c0 s \<noteq> chr (CHR ''/'') \<or> in_character_class then
        (if IsLineTerminator (c0 s) \<or> c0 s < 0 then (False, s)
         else if c0 s = chr (CHR 0x5C) then
           (let s' = AddLiteralCharAdvance s in
            if IsLineTerminator (c0 s') \<or> c0 s' < 0 then (False, s')
            else pattern_loop in_character_class (AddLiteralCharAdvance s'))
         else
           (let in_class = (if c0 s = chr (CHR ''['') then True else in_character_class);
                in_class = (if c0 s = chr (CHR '']'') then False else in_class)
            in pattern_loop in_class (AddLiteralCharAdvance s)))
      else (True, s))"
  by pat_completeness auto
termination
proof (relation "measure (\<lambda>(b, s). scan_left s)", goal_cases)
  case (2 b s s')
  then have "scan_left (AddLiteralCharAdvance s') \<le> scan_left s'" "scan_left s' < scan_left s"
    by (simp_all add: moved_scan_left moved_AddLiteralCharAdvance
        scan_left_AddLiteralCharAdvance_less)
  then show ?case by simp
qed (simp_all add: scan_left_AddLiteralCharAdvance_less)

declare pattern_loop.simps [simp del]

definition pattern_body :: "bool \<Rightarrow> JsScanner \<Rightarrow> bool \<times> bool \<times> JsScanner" where
  "pattern_body seen_equal s =
     (case pattern_loop False (if seen_equal then AddLiteralChar (chr (CHR ''='')) s else s) of
        (False, s) \<Rightarrow> (False, False, s)
      | (True, s) \<Rightarrow> (True, True, TerminateLiteral (Advance s)))"

definition ScanRegExpPattern :: "bool \<Rightarrow> JsScanner \<Rightarrow> bool \<times> JsScanner" where
  "ScanRegExpPattern seen_equal s =
     js_literal_scope kLiteralRegExp (pattern_body seen_equal)
       (set_next_pos (source_pos s - (if seen_equal then 2 else 1))
                     (source_pos s - (if seen_equal then 1 else 0)) s)"

function flags_loop :: "JsScanner \<Rightarrow> JsScanner" where
  "flags_loop s =
     (if 0 \<le> c0 s \<and> IdentifierPart_Is (c0 s) then
        (if c0 s = chr (CHR 0x5C) then
           (let r = ScanIdentifierUnicodeEscape s in
            if fst r \<noteq> uint kBadChar then flags_loop (AddLiteralChar (fst r) (snd r))
            else flags_loop (AddLiteralCharAdvance (snd r)))
         else flags_loop (AddLiteralCharAdvance s))
      else s)"
  by pat_completeness auto
termination
proof (relation "measure scan_left", goal_cases)
  case (3 s r)
  then have "scan_left (AddLiteralCharAdvance (snd r)) \<le> scan_left (snd r)" "scan_left (snd r) < scan_left s"
    by (simp_all add: moved_scan_left moved_AddLiteralCharAdvance
        scan_left_ScanIdentifierUnicodeEscape)
  then show ?case by simp
qed (simp_all add: scan_left_AddLiteralCharAdvance_less scan_left_ScanIdentifierUnicodeEscape)

declare flags_loop.simps [simp del]

definition ScanRegExpFlags :: "JsScanner \<Rightarrow> bool \<times> JsScanner" where
  "ScanRegExpFlags s =
     (case js_literal_scope kLiteralRegExpFlags (\<lambda>s. (True, True, TerminateLiteral (flags_loop s))) s of
        (r, s) \<Rightarrow> (True, s\<lparr>next_desc := (next_desc s)\<lparr>td_end_pos := source_pos s - 1\<rparr>\<rparr>))"

section \<open>Scanning one token\<close>

text \<open>The \<open>switch\<close> of \<open>Scan\<close>: the token and the scanner behind it.\<close>

definition scan_token :: "JsScanner \<Rightarrow> Token \<times> JsScanner" where
  "scan_token s =
     (let c = c0 s in
      if c = chr (CHR '' '') \<or> c = 9 then (WHITESPACE, Advance s)
      else if c = 10 then (WHITESPACE, (Advance s)\<lparr>has_line_terminator_before_next := True\<rparr>)
      else if c = chr (CHR 0x22) \<or> c = chr (CHR 0x27) then ScanString s
      else if c = chr (CHR ''<'') then
        (let s = Advance s in
         if c0 s = chr (CHR ''='') then Select LTE s
         else if c0 s = chr (CHR ''<'') then Select_next (chr (CHR ''='')) ASSIGN_SHL SHL s
         else if c0 s = chr (CHR ''!'') then ScanHtmlComment s
         else (LT, s))
      else if c = chr (CHR ''>'') then
        (let s = Advance s in
         if c0 s = chr (CHR ''='') then Select GTE s
         else if c0 s = chr (CHR ''>'') then
           (let s = Advance s in
            if c0 s = chr (CHR ''='') then Select ASSIGN_SAR s
            else if c0 s = chr (CHR ''>'') then Select_next (chr (CHR ''='')) ASSIGN_SHR SHR s
            else (SAR, s))
         else (GT, s))
      else if c = chr (CHR ''='') then
        (let s = Advance s in
         if c0 s = chr (CHR ''='') then Select_next (chr (CHR ''='')) EQ_STRICT EQ s
         else (ASSIGN, s))
      else if c = chr (CHR ''!'') then
        (let s = Advance s in
         if c0 s = chr (CHR ''='') then Select_next (chr (CHR ''='')) NE_STRICT NE s
         else (NOT_TOK, s))
      else if c = chr (CHR ''+'') then
        (let s = Advance s in
         if c0 s = chr (CHR ''+'') then Select INC s
         else if c0 s = chr (CHR ''='') then Select ASSIGN_ADD s
         else (ADD, s))
      else if c = chr (CHR ''-'') then
        (let s = Advance s in
         if c0 s = chr (CHR ''-'') then
           (let s = Advance s in
            if c0 s = chr (CHR ''>'') \<and> has_line_terminator_before_next s
            then SkipSingleLineComment s else (DEC, s))
         else if c0 s = chr (CHR ''='') then Select ASSIGN_SUB s
         else (SUB, s))
      else if c = chr (CHR ''*'') then Select_next (chr (CHR ''='')) ASSIGN_MUL MUL s
      else if c = chr (CHR ''%'') then Select_next (chr (CHR ''='')) ASSIGN_MOD MOD s
      else if c = chr (CHR ''/'') then
        (let s = Advance s in
         if c0 s = chr (CHR ''/'') then SkipSingleLineComment s
         else if c0 s = chr (CHR ''*'') then SkipMultiLineComment s
         else if c0 s = chr (CHR ''='') then Select ASSIGN_DIV s
         else (DIV, s))
      else if c = chr (CHR ''&'') then
        (let s = Advance s in
         if c0 s = chr (CHR ''&'') then Select AND_TOK s
         else if c0 s = chr (CHR ''='') then Select ASSIGN_BIT_AND s
         else (BIT_AND, s))
      else if c = chr (CHR ''|'') then
        (let s = Advance s in
         if c0 s = chr (CHR ''|'') then Select OR_TOK s
         else if c0 s = chr (CHR ''='') then Select ASSIGN_BIT_OR s
         else (BIT_OR, s))
      else if c = chr (CHR ''^'') then Select_next (chr (CHR ''='')) ASSIGN_BIT_XOR BIT_XOR s
      else if c = chr (CHR ''.'') then
        (let s = Advance s in
         if IsDecimalDigit (c0 s) then ScanNumber True s else (PERIOD, s))
      else if c = chr (CHR '':'') then Select COLON s
      else if c = chr (CHR '';'') then Select SEMICOLON s
      else if c = chr (CHR '','') then Select COMMA s
      else if c = chr (CHR ''('') then Select LPAREN s
      else if c = chr (CHR '')'') then Select RPAREN s
      else if c = chr (CHR ''['') then Select LBRACK s
      else if c = chr (CHR '']'') then Select RBRACK s
      else if c = chr (CHR ''{'') then Select LBRACE s
      else if c = chr (CHR ''}'') then Select RBRACE s
      else if c = chr (CHR ''?'') then Select CONDITIONAL s
      else if c = chr (CHR ''~'') then Select BIT_NOT s
      else if IdentifierStart_Is c then ScanIdentifierOrKeyword s
      else if IsDecimalDigit c then ScanNumber False s
      else
        (let r = SkipWhiteSpace s in
         if fst r then (WHITESPACE, snd r)
         else if c0 (snd r) < 0 then (EOS, snd r)
         else Select ILLEGAL (snd r)))"

subsection \<open>Progress of the parts\<close>

lemma js_literal_scope_body:
  obtains t r c u where "source t = source s" "c0 t = c0 s" "body t = (r, c, u)"
    "fst (js_literal_scope type body s) = r"
    "source (snd (js_literal_scope type body s)) = source u" "c0 (snd (js_literal_scope type body s)) = c0 u"
proof -
  let ?t = "if RecordsLiteral type s then StartLiteral s else s"
  obtain r c u where "body ?t = (r, c, u)" by (cases "body ?t")
  then show thesis using that [of ?t r c u] by (simp add: js_literal_scope_def literal_scope_def)
qed

lemma moved_literal_scope:
  assumes "\<And>t. moved t (snd (snd (body t)))"
  shows "moved s (snd (js_literal_scope type body s))"
proof -
  obtain t r c u where b: "source t = source s" "c0 t = c0 s" "body t = (r, c, u)"
    "source (snd (js_literal_scope type body s)) = source u" "c0 (snd (js_literal_scope type body s)) = c0 u"
    using js_literal_scope_body .
  have "moved t u" using assms [of t] b(3) by simp
  then show ?thesis using moved_cong b by metis
qed

lemma farther_literal_scope:
  assumes "\<And>t. source t = source s \<Longrightarrow> c0 t = c0 s \<Longrightarrow> farther t (snd (snd (body t)))"
  shows "farther s (snd (js_literal_scope type body s))"
proof -
  obtain t r c u where b: "source t = source s" "c0 t = c0 s" "body t = (r, c, u)"
    "source (snd (js_literal_scope type body s)) = source u" "c0 (snd (js_literal_scope type body s)) = c0 u"
    using js_literal_scope_body .
  have "farther t u" using assms [OF b(1,2)] b(3) by simp
  then show ?thesis using b by (simp add: farther_def moved_def)
qed

lemma literal_scope_result:
  assumes "\<And>t. P (fst (body t))"
  shows "P (fst (js_literal_scope type body s))"
proof -
  obtain t r c u where "body t = (r, c, u)" "fst (js_literal_scope type body s) = r"
    using js_literal_scope_body .
  then show ?thesis using assms [of t] by simp
qed

lemma moved_string_loop: "moved s (snd (string_loop quote s))"
proof (induction quote s rule: string_loop.induct)
  case (1 quote s)
  have a: "moved s (Advance s)" by (rule moved_Advance)
  have b: "moved s (ScanEscape (Advance s))" using a moved_ScanEscape by (rule moved_trans)
  show ?case
  proof (cases "c0 s \<noteq> quote \<and> c0 s \<ge> 0 \<and> \<not> IsLineTerminator (c0 s)")
    case True
    show ?thesis
    proof (cases "c0 s = chr (CHR 0x5C)")
      case slash: True
      show ?thesis
      proof (cases "c0 (Advance s) < 0")
        case False
        then have "moved (ScanEscape (Advance s)) (snd (string_loop quote (ScanEscape (Advance s))))"
          using 1(1) True slash by simp
        then show ?thesis using True slash False b
          by (subst string_loop.simps) (simp, blast intro: moved_trans)
      qed (use True slash a in \<open>subst string_loop.simps, simp\<close>)
    next
      case False
      then have "moved (Advance s) (snd (string_loop quote (AddLiteralChar (c0 s) (Advance s))))"
        using 1(2)[OF True refl refl] by simp
      then show ?thesis using True False a by (subst string_loop.simps) (simp, blast intro: moved_trans)
    qed
  next
    case False
    then have "string_loop quote s = (False, s)" by (subst string_loop.simps) (rule if_not_P)
    then show ?thesis by simp
  qed
qed

lemma string_body_result:
  "moved s (snd (snd (string_body quote s))) \<and> fst (string_body quote s) \<in> {ILLEGAL, STRING}"
proof -
  obtain b t where e: "string_loop quote s = (b, t)" by (cases "string_loop quote s")
  have "moved s t" using moved_string_loop [of s quote] e by simp
  moreover have "moved t (Advance (TerminateLiteral t))" using moved_Advance [of "TerminateLiteral t"] by simp
  ultimately show ?thesis using moved_trans by (auto simp: string_body_def e)
qed

lemma ScanString_result:
  "farther s (snd (ScanString s)) \<and> fst (ScanString s) \<in> {ILLEGAL, STRING}"
proof -
  have "moved (Advance s) (snd (ScanString s))" "fst (ScanString s) \<in> {ILLEGAL, STRING}"
    unfolding ScanString_def Let_def
    by (rule moved_literal_scope, simp add: string_body_result)
       (rule literal_scope_result [where P = "\<lambda>t. t \<in> {ILLEGAL, STRING}"], rule string_body_result [THEN conjunct2])
  then show ?thesis using farther_moved [OF farther_Advance] by blast
qed

lemma moved_add_while: "moved s (add_while P s)"
proof (induction P s rule: add_while.induct)
  case (1 P s)
  show ?case
  proof (cases "0 \<le> c0 s \<and> P (c0 s)")
    case True
    then have "moved (AddLiteralCharAdvance s) (add_while P s)"
      using 1 by (subst add_while.simps) simp
    then show ?thesis using moved_AddLiteralCharAdvance moved_trans by blast
  next
    case False
    then have "add_while P s = s" by (subst add_while.simps) (rule if_not_P)
    then show ?thesis by simp
  qed
qed

lemma farther_add_while:
  "0 \<le> c0 s \<Longrightarrow> P (c0 s) \<Longrightarrow> farther s (add_while P s)"
  using farther_moved [OF farther_AddLiteralCharAdvance moved_add_while]
  by (subst add_while.simps) simp

lemma moved_octal_loop: "moved s (snd (octal_loop s))"
proof (induction s rule: octal_loop.induct)
  case (1 s)
  show ?case
    using 1 moved_trans [OF moved_AddLiteralCharAdvance]
    by (subst octal_loop.simps) auto
qed

lemma moved_number_after_zero: "moved s (snd (number_after_zero s))"
  using moved_octal_loop [of s] moved_AddLiteralCharAdvance [of s]
    moved_trans [OF moved_AddLiteralCharAdvance moved_add_while, of s]
  by (auto simp: number_after_zero_def Let_def split: prod.split)

lemma moved_digits: "moved s (ScanDecimalDigits s)"
  by (simp add: ScanDecimalDigits_def moved_add_while)

lemma moved_fraction:
  "moved (ScanDecimalDigits s)
    (if c0 (ScanDecimalDigits s) = chr (CHR ''.'')
     then ScanDecimalDigits (AddLiteralCharAdvance (ScanDecimalDigits s)) else ScanDecimalDigits s)"
  using moved_trans [OF moved_AddLiteralCharAdvance moved_digits] by simp

lemma number_integer_cases:
  "snd (number_integer seen_period s) =
     (if seen_period then ScanDecimalDigits (AddLiteralChar (chr (CHR ''.'')) s)
      else
        (let r = (if c0 s = chr (CHR ''0'') then number_after_zero (AddLiteralCharAdvance s) else (Some DECIMAL, s)) in
         if fst r = Some DECIMAL
         then (if c0 (ScanDecimalDigits (snd r)) = chr (CHR ''.'')
               then ScanDecimalDigits (AddLiteralCharAdvance (ScanDecimalDigits (snd r)))
               else ScanDecimalDigits (snd r))
         else snd r))"
  by (auto simp: number_integer_def Let_def split: prod.splits option.splits NumberKind.splits)

lemma moved_number_integer: "moved s (snd (number_integer seen_period s))"
proof -
  let ?r = "if c0 s = chr (CHR ''0'') then number_after_zero (AddLiteralCharAdvance s) else (Some DECIMAL, s)"
  have r: "moved s (snd ?r)"
    using moved_trans [OF moved_AddLiteralCharAdvance moved_number_after_zero] by simp
  have "moved (snd ?r) (ScanDecimalDigits (snd ?r))" by (rule moved_digits)
  then show ?thesis
    using r moved_fraction [of "snd ?r"] moved_digits [of "AddLiteralChar (chr (CHR ''.'')) s"]
    unfolding number_integer_cases Let_def by (simp split: if_splits) (meson moved_trans)+
qed

lemma farther_number_integer:
  assumes "0 \<le> c0 s" "IsDecimalDigit (c0 s)"
  shows "farther s (snd (number_integer False s))"
proof (cases "c0 s = chr (CHR ''0'')")
  case True
  let ?r = "number_after_zero (AddLiteralCharAdvance s)"
  have r: "farther s (snd ?r)" by (rule farther_moved [OF farther_AddLiteralCharAdvance moved_number_after_zero])
  have d: "farther s (ScanDecimalDigits (snd ?r))" using r moved_digits by (rule farther_moved)
  show ?thesis using r d farther_moved [OF d moved_fraction] True
    unfolding number_integer_cases Let_def by (simp split: if_splits)
next
  case False
  have d: "farther s (ScanDecimalDigits s)"
    unfolding ScanDecimalDigits_def using assms by (rule farther_add_while)
  then show ?thesis using farther_moved [OF d moved_fraction] False
    unfolding number_integer_cases Let_def by (simp split: if_splits)
qed

lemma moved_number_exponent: "moved s (snd (number_exponent kind s))"
proof -
  let ?a = "AddLiteralCharAdvance s"
  let ?b = "if c0 ?a = chr (CHR ''+'') \<or> c0 ?a = chr (CHR ''-'') then AddLiteralCharAdvance ?a else ?a"
  have "moved ?a ?b" "moved s ?a" "moved ?b (ScanDecimalDigits ?b)"
    using moved_AddLiteralCharAdvance moved_digits by auto
  then have "moved s ?b" "moved s (ScanDecimalDigits ?b)" using moved_trans by blast+
  then show ?thesis by (simp add: number_exponent_def Let_def)
qed

lemma number_body_result:
  "moved (snd (number_integer p s)) (snd (snd (number_body p s))) \<and> fst (number_body p s) \<in> {ILLEGAL, NUMBER}"
proof -
  obtain k t where i: "number_integer p s = (k, t)" by (cases "number_integer p s")
  show ?thesis
  proof (cases k)
    case (Some kind)
    obtain b u where e: "number_exponent kind t = (b, u)" by (cases "number_exponent kind t")
    have "moved t u" using moved_number_exponent [of t kind] e by simp
    then show ?thesis using i Some e by (simp add: number_body_def split: bool.splits)
  qed (simp add: number_body_def i)
qed

lemma ScanNumber_result:
  "moved s (snd (ScanNumber p s)) \<and> fst (ScanNumber p s) \<in> {ILLEGAL, NUMBER}"
proof
  show "moved s (snd (ScanNumber p s))"
    unfolding ScanNumber_def
    by (rule moved_literal_scope, rule moved_trans [OF moved_number_integer], rule number_body_result [THEN conjunct1])
  show "fst (ScanNumber p s) \<in> {ILLEGAL, NUMBER}"
    unfolding ScanNumber_def
    by (rule literal_scope_result [where P = "\<lambda>t. t \<in> {ILLEGAL, NUMBER}"], rule number_body_result [THEN conjunct2])
qed

lemma farther_ScanNumber:
  assumes "0 \<le> c0 s" "IsDecimalDigit (c0 s)"
  shows "farther s (snd (ScanNumber False s))"
  unfolding ScanNumber_def
proof (rule farther_literal_scope)
  fix t :: JsScanner assume "source t = source s" "c0 t = c0 s"
  then have "farther t (snd (number_integer False t))" using farther_number_integer [of t] assms by simp
  then show "farther t (snd (snd (number_body False t)))"
    using number_body_result farther_moved by blast
qed

lemma moved_suffix_loop: "moved s (snd (suffix_loop s))"
proof (induction s rule: suffix_loop.induct)
  case (1 s)
  let ?r = "ScanIdentifierUnicodeEscape s"
  have r: "moved s (snd ?r)" by (rule farther_imp_moved [OF farther_ScanIdentifierUnicodeEscape])
  show ?case
  proof (cases "0 \<le> c0 s \<and> IdentifierPart_Is (c0 s)")
    case True
    show ?thesis
    proof (cases "c0 s = chr (CHR 0x5C)")
      case slash: True
      show ?thesis
      proof (cases "IdentifierPart_Is (fst ?r)")
        case False
        then show ?thesis using True slash r by (subst suffix_loop.simps) (simp add: Let_def)
      next
        case part: True
        have "moved (snd ?r) (snd (suffix_loop (AddLiteralChar (fst ?r) (snd ?r))))"
          using 1(1)[OF True slash refl] part by simp
        then show ?thesis using True slash part moved_trans [OF r]
          by (subst suffix_loop.simps) (simp add: Let_def)
      qed
    next
      case False
      have "moved (AddLiteralCharAdvance s) (snd (suffix_loop (AddLiteralCharAdvance s)))"
        using 1(2)[OF True False] .
      then show ?thesis using True False moved_trans [OF moved_AddLiteralCharAdvance]
        by (subst suffix_loop.simps) simp
    qed
  next
    case False
    then have "suffix_loop s = (False, s)" by (subst suffix_loop.simps) (rule if_not_P)
    then show ?thesis by simp
  qed
qed

lemma ScanIdentifierSuffix_result:
  "moved s (snd (snd (ScanIdentifierSuffix s))) \<and> fst (ScanIdentifierSuffix s) \<in> {ILLEGAL, IDENTIFIER}"
  using moved_suffix_loop [of s] by (auto simp: ScanIdentifierSuffix_def split: prod.splits bool.splits)

definition identifier_token :: "Token \<Rightarrow> bool" where
  "identifier_token t \<longleftrightarrow> t = ILLEGAL \<or> t = IDENTIFIER \<or> IsKeyword t"

lemma identifier_token_not [simp]:
  "\<not> identifier_token WHITESPACE" "\<not> identifier_token EOS"
  by (simp_all add: identifier_token_def)

lemma AddChars_snoc: "AddChars (w @ [c]) m = snd (KeywordMatcher_AddChar c (AddChars w m))"
  by (simp add: AddChars_def)

lemma keyword_loop_result:
  "m = AddChars w KeywordMatcher_new \<Longrightarrow>
   moved s (snd (snd (keyword_loop m s))) \<and> identifier_token (fst (keyword_loop m s))"
proof (induction m s arbitrary: w rule: keyword_loop.induct)
  case (1 m s)
  show ?case
  proof (cases "0 \<le> c0 s \<and> IdentifierPart_Is (c0 s)")
    case True
    show ?thesis
    proof (cases "c0 s = chr (CHR 0x5C)")
      case True': True
      then show ?thesis using True ScanIdentifierSuffix_result [of s]
        by (subst (1 2) keyword_loop.simps) (auto simp: identifier_token_def)
    next
      case False
      let ?s = "AddLiteralChar (c0 s) (Advance s)"
      let ?r = "KeywordMatcher_AddChar (word_of_int (c0 s)) m"
      have le: "moved s ?s" by (simp add: moved_Advance)
      have eq: "keyword_loop m s = (if fst ?r then keyword_loop (snd ?r) ?s else ScanIdentifierSuffix ?s)"
        using True False by (subst keyword_loop.simps) (simp add: Let_def)
      show ?thesis
      proof (cases "fst ?r")
        case cont: True
        have "snd ?r = AddChars (w @ [word_of_int (c0 s)]) KeywordMatcher_new"
          using "1.prems" by (simp add: AddChars_snoc)
        with "1.IH"[OF True False refl refl refl cont] show ?thesis using eq cont moved_trans [OF le]
          by simp
      next
        case False
        then show ?thesis using eq moved_trans [OF le] ScanIdentifierSuffix_result [of ?s]
          by (auto simp: identifier_token_def)
      qed
    qed
  next
    case False
    then have "keyword_loop m s = (km_token m, True, TerminateLiteral s)"
      by (subst keyword_loop.simps) (rule if_not_P)
    then show ?thesis using AddChars_token [of w] keyword_token_cases [of w] "1.prems"
      by (auto simp: identifier_token_def)
  qed
qed

lemma identifier_body_result:
  "identifier_token (fst (identifier_body s)) \<and> farther s (snd (snd (identifier_body s)))"
proof (cases "c0 s = chr (CHR 0x5C)")
  case True
  obtain c t where e: "ScanIdentifierUnicodeEscape s = (c, t)" by (cases "ScanIdentifierUnicodeEscape s")
  have "farther s t" using farther_ScanIdentifierUnicodeEscape [of s] e by simp
  then show ?thesis using True e ScanIdentifierSuffix_result [of "AddLiteralChar c t"] farther_moved
    by (auto simp: identifier_body_def identifier_token_def)
next
  case False
  let ?s = "AddLiteralChar (c0 s) (Advance s)"
  let ?r = "KeywordMatcher_AddChar (word_of_int (c0 s)) KeywordMatcher_new"
  have r: "snd ?r = AddChars [word_of_int (c0 s)] KeywordMatcher_new" by (simp add: AddChars_def)
  have l: "farther s ?s" by (simp add: farther_Advance)
  have eq: "identifier_body s = (if \<not> fst ?r then ScanIdentifierSuffix ?s else keyword_loop (snd ?r) ?s)"
    using False by (simp add: identifier_body_def Let_def)
  show ?thesis
  proof (cases "fst ?r")
    case True
    then show ?thesis using eq farther_moved [OF l] keyword_loop_result [OF r, of ?s] by auto
  next
    case False
    then show ?thesis using eq farther_moved [OF l] ScanIdentifierSuffix_result [of ?s]
      by (auto simp: identifier_token_def)
  qed
qed

lemma ScanIdentifierOrKeyword_result:
  "identifier_token (fst (ScanIdentifierOrKeyword s)) \<and> farther s (snd (ScanIdentifierOrKeyword s))"
  unfolding ScanIdentifierOrKeyword_def
  by (rule conjI, rule literal_scope_result [where P = identifier_token], simp add: identifier_body_result)
     (rule farther_literal_scope, simp add: identifier_body_result)

text \<open>
  The result of a token: the scanner has moved, and farther unless it is at the end of its input.
\<close>

definition token_ok :: "JsScanner \<Rightarrow> Token \<times> JsScanner \<Rightarrow> bool" where
  "token_ok s r \<longleftrightarrow> farther s (snd r) \<and> fst r \<noteq> EOS"

lemma token_ok_if: "(b \<Longrightarrow> token_ok s p) \<Longrightarrow> (\<not> b \<Longrightarrow> token_ok s q) \<Longrightarrow> token_ok s (if b then p else q)"
  by simp

lemma token_ok_moved: "moved s t \<Longrightarrow> token_ok t r \<Longrightarrow> token_ok s r"
  using moved_farther by (auto simp: token_ok_def)

lemma token_ok_farther: "farther s t \<Longrightarrow> moved t (snd r) \<Longrightarrow> fst r \<noteq> EOS \<Longrightarrow> token_ok s r"
  using farther_moved by (auto simp: token_ok_def)

lemma token_ok_Select: "tok \<noteq> EOS \<Longrightarrow> token_ok s (Select tok s)"
  by (simp add: token_ok_def Select_def farther_Advance)

lemma token_ok_Select_next: "t1 \<noteq> EOS \<Longrightarrow> t2 \<noteq> EOS \<Longrightarrow> token_ok s (Select_next c t1 t2 s)"
  using farther_moved [OF farther_Advance moved_Advance, of s]
  by (simp add: token_ok_def Select_next_def Let_def farther_Advance)

lemma token_ok_Advance: "tok \<noteq> EOS \<Longrightarrow> token_ok s (tok, Advance s)"
  by (simp add: token_ok_def farther_Advance)

lemma token_ok_parts:
  "token_ok s (ScanString s)" "token_ok s (SkipSingleLineComment s)" "token_ok s (SkipMultiLineComment s)"
  "token_ok s (ScanIdentifierOrKeyword s)"
proof -
  show "token_ok s (ScanString s)" using ScanString_result [of s] by (auto simp: token_ok_def)
  show "token_ok s (SkipSingleLineComment s)"
    using farther_SkipSingleLineComment [of s] by (simp add: token_ok_def SkipSingleLineComment_def)
  have "fst (skip_block t) \<noteq> EOS" for t
  proof (induction t rule: skip_block.induct)
    case (1 t) then show ?case by (subst skip_block.simps) (auto simp: Let_def)
  qed
  then show "token_ok s (SkipMultiLineComment s)"
    using farther_SkipMultiLineComment [of s] by (simp add: token_ok_def SkipMultiLineComment_def)
  show "token_ok s (ScanIdentifierOrKeyword s)"
    using ScanIdentifierOrKeyword_result [of s] by (auto simp: token_ok_def)
qed

lemma token_ok_ScanHtmlComment:
  "c0 s = chr (CHR ''!'') \<Longrightarrow> farther t s \<Longrightarrow> token_ok t (ScanHtmlComment s)"
proof -
  assume "c0 s = chr (CHR ''!'')" and f: "farther t s"
  then consider "ScanHtmlComment s = (LT, s)"
    | "fst (ScanHtmlComment s) = WHITESPACE" "farther s (snd (ScanHtmlComment s))"
    using ScanHtmlComment_progress by blast
  then show ?thesis
    by cases (use f farther_moved [OF f farther_imp_moved] in \<open>simp_all add: token_ok_def\<close>)
qed

lemma token_ok_ScanNumber: "farther t s \<Longrightarrow> token_ok t (ScanNumber p s)"
  using ScanNumber_result [of s p] farther_moved by (auto simp: token_ok_def)

lemma token_ok_digits: "0 \<le> c0 s \<Longrightarrow> IsDecimalDigit (c0 s) \<Longrightarrow> token_ok s (ScanNumber False s)"
  using ScanNumber_result [of s False] farther_ScanNumber [of s] by (auto simp: token_ok_def)

lemma token_ok_SkipWhiteSpace: "fst (SkipWhiteSpace s) \<Longrightarrow> token_ok s (WHITESPACE, snd (SkipWhiteSpace s))"
  using SkipWhiteSpace_progress [of s] by (simp add: token_ok_def)

lemma SkipWhiteSpace_none: "\<not> fst (SkipWhiteSpace s) \<Longrightarrow> snd (SkipWhiteSpace s) = s"
  using SkipWhiteSpace_progress [of s] by simp

lemmas token_ok_intros = token_ok_if token_ok_Select token_ok_Select_next token_ok_Advance token_ok_parts
  token_ok_digits token_ok_SkipWhiteSpace

lemma token_ok_after:
  "token_ok (Advance s) r \<Longrightarrow> token_ok s r"
  by (rule token_ok_moved [OF moved_Advance])

lemma scan_token_progress:
  assumes "0 \<le> c0 s"
  shows "token_ok s (scan_token s)"
proof -
  have n: "token_ok s (tok, Advance s)" if "tok \<noteq> EOS" for tok using that by (rule token_ok_Advance)
  have n2: "token_ok s (tok, Advance (Advance s))" if "tok \<noteq> EOS" for tok
    using token_ok_after [OF token_ok_Advance [OF that]] .
  have nl: "token_ok s (WHITESPACE, (Advance s)\<lparr>has_line_terminator_before_next := True\<rparr>)"
    by (simp add: token_ok_def farther_Advance)
  have pos: "\<not> c0 s < 0" using assms by simp
  show ?thesis
    unfolding scan_token_def Let_def
    by (intro token_ok_if)
       (simp_all add: n n2 nl assms pos token_ok_intros token_ok_after token_ok_ScanHtmlComment token_ok_ScanNumber
          farther_Advance SkipWhiteSpace_none)
qed

lemma SkipWhiteSpace_at_end:
  assumes "c0 s < 0"
  shows "SkipWhiteSpace s = (False, s)"
proof -
  have w: "skip_white s = s" using assms by (subst skip_white.simps) simp
  have "skip_white_space_loop s = s"
    using assms by (subst skip_white_space_loop.simps) (simp add: w)
  then show ?thesis by (simp add: SkipWhiteSpace_def)
qed

lemma scan_token_white:
  assumes "fst (scan_token s) = WHITESPACE"
  shows "0 \<le> c0 s"
proof (rule ccontr)
  assume "\<not> 0 \<le> c0 s"
  then have neg: "c0 s < 0" by simp
  then have "scan_token s =
      (if IdentifierStart_Is (c0 s) then ScanIdentifierOrKeyword s
       else if IsDecimalDigit (c0 s) then ScanNumber False s else (EOS, s))"
    by (simp add: scan_token_def SkipWhiteSpace_at_end Let_def)
  then show False
    using assms ScanIdentifierOrKeyword_result [of s] ScanNumber_result [of s False]
    by (auto split: if_splits)
qed

lemma scan_token_white_less:
  "fst (scan_token s) = WHITESPACE \<Longrightarrow> scan_left (snd (scan_token s)) < scan_left s"
  using scan_token_white [of s] scan_token_progress [of s] farther_scan_left by (auto simp: token_ok_def)

text \<open>The \<open>do\<close> loop of \<open>Scan\<close>, which sets the start of the token before each turn.\<close>

definition set_beg_pos :: "int \<Rightarrow> JsScanner \<Rightarrow> JsScanner" where
  "set_beg_pos b s = s\<lparr>next_desc := (next_desc s)\<lparr>td_beg_pos := b\<rparr>\<rparr>"

lemma set_beg_pos_input [simp]:
  "source (set_beg_pos b s) = source s" "c0 (set_beg_pos b s) = c0 s"
  "scan_left (set_beg_pos b s) = scan_left s" "source_pos (set_beg_pos b s) = source_pos s"
  by (simp_all add: set_beg_pos_def scan_left_def source_pos_def)

function scan_loop :: "JsScanner \<Rightarrow> Token \<times> JsScanner" where
  "scan_loop s =
     (let r = scan_token (set_beg_pos (source_pos s) s)
      in if fst r = WHITESPACE then scan_loop (snd r) else r)"
  by pat_completeness auto
termination
proof (relation "measure scan_left", goal_cases)
  case (2 s r)
  then have "scan_left (snd r) < scan_left (set_beg_pos (source_pos s) s)"
    using scan_token_white_less [of "set_beg_pos (source_pos s) s"] by (simp only:)
  then show ?case by (simp only: in_measure set_beg_pos_input)
qed simp

declare scan_loop.simps [simp del]

definition Scan :: "JsScanner \<Rightarrow> JsScanner" where
  "Scan s =
     (case scan_loop (s\<lparr>next_desc := (next_desc s)\<lparr>td_literal_chars := None\<rparr>\<rparr>) of (token, s) \<Rightarrow>
        s\<lparr>next_desc := (next_desc s)\<lparr>td_end_pos := source_pos s, td_token := token\<rparr>\<rparr>)"

definition Next :: "JsScanner \<Rightarrow> Token \<times> JsScanner" where
  "Next s =
     (let s = Scan (s\<lparr>current_desc := next_desc s, has_line_terminator_before_next := False\<rparr>)
      in (td_token (current_desc s), s))"

definition SeekForward :: "int \<Rightarrow> JsScanner \<Rightarrow> JsScanner" where
  "SeekForward pos s =
     Scan ((Advance (s\<lparr>source := ExternalBuffer_SeekForward (pos - 1) (source s)\<rparr>))
             \<lparr>has_line_terminator_before_next := False\<rparr>)"

text \<open>A new scanner and \<open>V8JavaScriptScanner::Initialize\<close> on an external string.\<close>

definition JsScanner_new :: JsScanner where
  "JsScanner_new = \<lparr>current_desc = TokenDesc_new, next_desc = TokenDesc_new,
     source = ExternalBuffer_new, literal_buffer = LiteralCollector_new, c0 = 0,
     literal_flags = 0, has_line_terminator_before_next = False\<rparr>"

definition JsScanner_Initialize :: "uint16 list \<Rightarrow> int \<Rightarrow> int \<Rightarrow> nat \<Rightarrow> JsScanner" where
  "JsScanner_Initialize data start_position end_position flags =
     (let s = JsScanner_new\<lparr>source := ExternalBuffer_Initialize data start_position end_position ExternalBuffer_new,
                literal_flags := flags OR kLiteralIdentifier\<rparr>;
          s = Scanner_Init s
      in Scan (snd (SkipWhiteSpace (s\<lparr>has_line_terminator_before_next := True\<rparr>))))"

end
