(* ===== verification/AsciiChars.thy ===== *)
theory AsciiChars
  imports CharPredicates
begin

text \<open>
  The identifier predicates of theory \<open>CharPredicates\<close> on ASCII characters: which of them start an
  identifier and which continue one, read off the first entries of the generated tables. The
  scanner's \<open>switch\<close> relies on them: no character it tests before is an identifier start.
\<close>

lemma GetEntry_consts:
  "GetEntry 1073741889 = 65" "GetEntry 1073741921 = 97" "IsStart 1073741889" "IsStart 1073741921"
  "GetEntry 1073741872 = 48" "IsStart 1073741872" "GetEntry 1073743456 = 1632" "GetEntry 1073742592 = 768"
  "GetEntry 90 = 90" "GetEntry 122 = 122" "GetEntry 170 = 170" "GetEntry 57 = 57" "GetEntry 95 = 95"
  by (simp_all add: GetEntry_def IsStart_def kStartBit_def)

lemma lookup_table_tl: "table_ok (x # xs) \<Longrightarrow> table_ok xs"
  by (cases xs) auto

lemma letter_ascii_ranges:
  assumes "v < 128"
  shows "in_ranges (ranges_of kLetterTable0) v \<longleftrightarrow> 65 \<le> v \<and> v \<le> 90 \<or> 97 \<le> v \<and> v \<le> 122"
proof -
  obtain xs where t: "kLetterTable0 = 1073741889 # 90 # 1073741921 # 122 # 170 # xs"
    by (simp add: kLetterTable0_def)
  have "table_ok (170 # xs)" using kLetterTable0_ok(1) unfolding t by (blast dest: lookup_table_tl)
  then have "\<not> in_ranges (ranges_of (170 # xs)) v"
    using assms by (intro ranges_below) (simp_all add: GetEntry_consts)
  then show ?thesis unfolding t by (simp add: in_ranges_Cons GetEntry_consts)
qed

lemma number_ascii_ranges:
  assumes "v < 128"
  shows "in_ranges (ranges_of kNumberTable0) v \<longleftrightarrow> 48 \<le> v \<and> v \<le> 57"
proof -
  obtain xs where t: "kNumberTable0 = 1073741872 # 57 # 1073743456 # xs"
    by (simp add: kNumberTable0_def)
  have "table_ok (1073743456 # xs)" using kNumberTable0_ok(1) unfolding t by (blast dest: lookup_table_tl)
  then have "\<not> in_ranges (ranges_of (1073743456 # xs)) v"
    using assms by (intro ranges_below) (simp_all add: GetEntry_consts)
  then show ?thesis unfolding t by (simp add: in_ranges_Cons GetEntry_consts)
qed

lemma mark_ascii_ranges: "v < 128 \<Longrightarrow> \<not> in_ranges (ranges_of kCombiningMarkTable0) v"
  by (intro ranges_below kCombiningMarkTable0_ok)
     (simp_all add: kCombiningMarkTable0_def GetEntry_consts)

lemma chunk_ascii:
  assumes "v < 128"
  shows "in_chunks ((k, t) # ts) v \<longleftrightarrow> k = 0 \<and> in_ranges (ranges_of t) v \<or> in_chunks ts v"
  using assms by (auto simp: in_chunks_Cons kChunkBits_eq)

lemma identifier_start_ascii:
  assumes "0 \<le> c" "c < 128"
  shows "IdentifierStart_Is c \<longleftrightarrow> c \<in> {36, 92, 95} \<or> 65 \<le> c \<and> c \<le> 90 \<or> 97 \<le> c \<and> c \<le> 122"
proof -
  have v: "nat c < 128" "uchar_of c = nat c" using assms uchar_of_nonneg by simp_all
  have "Letter_Is (uchar_of c) = Some (65 \<le> c \<and> c \<le> 90 \<or> 97 \<le> c \<and> c \<le> 122)"
    using assms v
    by (simp add: Letter_Is_correct Letter_chunks_def chunk_ascii letter_ascii_ranges nat_le_iff le_nat_iff)
  then show ?thesis by (simp add: IdentifierStart_Is_def) 
qed

lemma identifier_part_ascii:
  assumes "0 \<le> c" "c < 128"
  shows "IdentifierPart_Is c \<longleftrightarrow> IdentifierStart_Is c \<or> 48 \<le> c \<and> c \<le> 57"
proof -
  have v: "nat c < 128" "uchar_of c = nat c" using assms uchar_of_nonneg by simp_all
  have "Number_Is (uchar_of c) = Some (48 \<le> c \<and> c \<le> 57)"
    using assms v
    by (simp add: Number_Is_correct Number_chunks_def chunk_ascii number_ascii_ranges nat_le_iff le_nat_iff)
  moreover have "CombiningMark_Is (uchar_of c) = Some False"
    using v by (simp add: CombiningMark_Is_correct CombiningMark_chunks_def chunk_ascii mark_ascii_ranges)
  moreover have "ConnectorPunctuation_Is (uchar_of c) = Some (c = 95)"
    using v assms by (auto simp: ConnectorPunctuation_Is_correct ConnectorPunctuation_chunks_def chunk_ascii
        kConnectorPunctuationTable0_def in_ranges_Cons GetEntry_consts)
  ultimately show ?thesis by (auto simp: IdentifierPart_Is_def IdentifierStart_Is_def)
qed

end
