(* ===== verification/ScannerReads.thy ===== *)
theory ScannerReads
  imports ScannerBase
begin

text \<open>
  Reading the input of a scanner as a list of characters, the current one first, for the scanners of
  both languages. \<open>reads s xs l u\<close> says that \<open>u\<close> is the scanner \<open>s\<close> later on, with input \<open>xs\<close>
  left and the bytes \<open>l\<close> recorded; what a scanner adds to the base class is unchanged.
\<close>

section \<open>The input of a scanner\<close>

definition scan_ok :: "'a Scanner_scheme \<Rightarrow> bool" where
  "scan_ok s \<longleftrightarrow> 0 \<le> spos s \<and> eb_end (source s) \<le> int (length (eb_raw_data (source s))) \<and>
     (c0 s = -1 \<and> spos s = eb_end (source s) + 1 \<or> 0 \<le> c0 s \<and> c0 s < 65536 \<and> spos s \<le> eb_end (source s))"

definition scan_input :: "'a Scanner_scheme \<Rightarrow> int list" where
  "scan_input s =
     (if c0 s < 0 then []
      else c0 s # map uint (drop (nat (spos s)) (take (nat (eb_end (source s))) (eb_raw_data (source s)))))"

definition recorded :: "'a Scanner_scheme \<Rightarrow> uint8 list option" where
  "recorded s = (if lc_recording (literal_buffer s) then Some (lc_buffer (literal_buffer s)) else None)"

text \<open>The bytes one character adds to a literal.\<close>

definition char_bytes :: "int \<Rightarrow> uint8 list" where
  "char_bytes c = Utf8_Encode (word_of_int c)"

definition frame :: "'a Scanner_scheme \<Rightarrow> 'a Scanner_scheme \<Rightarrow> bool" where
  "frame s u \<longleftrightarrow> current_desc u = current_desc s \<and> next_desc u = next_desc s \<and>
     Scanner.more u = Scanner.more s \<and> eb_raw_data (source u) = eb_raw_data (source s) \<and>
     eb_end (source u) = eb_end (source s)"

definition reads :: "'a Scanner_scheme \<Rightarrow> int list \<Rightarrow> uint8 list option \<Rightarrow> 'a Scanner_scheme \<Rightarrow> bool" where
  "reads s xs l u \<longleftrightarrow> scan_ok u \<and> scan_input u = xs \<and> recorded u = l \<and> frame s u"

lemma frame_refl [simp]: "frame s s"
  by (simp add: frame_def)

lemma reads_trans: "reads s xs l t \<Longrightarrow> reads t ys m u \<Longrightarrow> reads s ys m u"
  by (simp add: reads_def frame_def)

lemma reads_self: "reads s xs l u \<Longrightarrow> reads u xs l u"
  by (simp add: reads_def)

lemma reads_start: "scan_ok s \<Longrightarrow> reads s (scan_input s) (recorded s) s"
  by (simp add: reads_def)

lemma recorded_Advance [simp]: "recorded (Advance s) = recorded s"
  by (simp add: recorded_def Advance_def split: prod.split)

lemma frame_Advance [simp]: "frame s (Advance u) = frame s u"
  by (simp add: frame_def Advance_def ExternalBuffer_Advance_def)

lemma scan_input_Advance:
  assumes "scan_ok s" "0 \<le> c0 s"
  shows "scan_ok (Advance s) \<and> scan_input (Advance s) = tl (scan_input s)"
proof -
  let ?b = "source s"
  have p: "0 \<le> eb_pos ?b" "eb_end ?b \<le> int (length (eb_raw_data ?b))" "eb_pos ?b \<le> eb_end ?b"
    using assms by (auto simp: scan_ok_def)
  show ?thesis
  proof (cases "eb_pos ?b < eb_end ?b")
    case True
    let ?n = "nat (eb_pos ?b)" and ?xs = "take (nat (eb_end ?b)) (eb_raw_data ?b)"
    have l: "?n < length ?xs" using True p by simp
    have c: "uint (eb_raw_data ?b ! ?n) < 65536" using uint_lt2p [of "eb_raw_data ?b ! ?n"] by simp
    have n: "nat (eb_pos ?b + 1) = Suc ?n" using p by simp
    have "drop ?n ?xs = eb_raw_data ?b ! ?n # drop (Suc ?n) ?xs"
      using Cons_nth_drop_Suc [OF l] l by simp
    then show ?thesis
      using True assms p c by (simp add: Advance_def ExternalBuffer_Advance_def scan_ok_def scan_input_def n)
  next
    case False
    then show ?thesis
      using assms p by (simp add: Advance_def ExternalBuffer_Advance_def scan_ok_def scan_input_def)
  qed
qed

lemma reads_Cons:
  assumes "reads s (c # xs) l u"
  shows "c0 u = c" "0 \<le> c" "c < 65536" "reads s xs l (Advance u)"
proof -
  have u: "scan_ok u" "scan_input u = c # xs" "recorded u = l" "frame s u"
    using assms by (simp_all add: reads_def)
  then show c: "c0 u = c" and "0 \<le> c" by (auto simp: scan_input_def split: if_splits)
  then show "c < 65536" using u by (auto simp: scan_ok_def)
  show "reads s xs l (Advance u)"
    using scan_input_Advance [OF u(1)] u c \<open>0 \<le> c\<close> by (simp add: reads_def)
qed

lemma reads_Nil: "reads s [] l u \<Longrightarrow> c0 u = -1"
  by (auto simp: reads_def scan_input_def scan_ok_def split: if_splits)

text \<open>The current character, when only its not being in a set is known.\<close>

definition follows :: "(int \<Rightarrow> bool) \<Rightarrow> int list \<Rightarrow> bool" where
  "follows P xs \<longleftrightarrow> (case xs of [] \<Rightarrow> True | c # _ \<Rightarrow> P c)"

lemma follows_simps [simp]: "follows P []" "follows P (c # xs) = P c"
  by (simp_all add: follows_def)

lemma reads_c0:
  "reads s xs l u \<Longrightarrow> c0 u = (case xs of [] \<Rightarrow> -1 | c # _ \<Rightarrow> c)"
  by (cases xs) (auto simp: reads_Nil dest: reads_Cons(1))

lemma reads_c0_range: "reads s xs l u \<Longrightarrow> -1 \<le> c0 u \<and> c0 u < 65536"
  by (auto simp: reads_def scan_ok_def)

lemma reads_follows: "reads s xs l u \<Longrightarrow> follows P xs \<Longrightarrow> P (-1) \<Longrightarrow> P (c0 u)"
  by (cases xs) (auto simp: reads_Nil dest: reads_Cons(1))

lemma source_pos_input:
  "scan_ok s \<Longrightarrow> source_pos s = eb_end (source s) - int (length (scan_input s))"
  by (auto simp: scan_ok_def scan_input_def source_pos_def kCharacterLookaheadBufferSize_def)

text \<open>The literal operations.\<close>

lemma ucast_char: "(ucast (word_of_int c :: uint32) :: uint8) = word_of_int c"
  by transfer (simp add: take_bit_take_bit)

lemma recorded_StartLiteral [simp]: "recorded (StartLiteral u) = Some []"
  by (simp add: recorded_def StartLiteral_def LiteralCollector_StartLiteral_def)

lemma recorded_AddLiteralChar [simp]:
  "recorded (AddLiteralChar c u) = map_option (\<lambda>b. b @ char_bytes c) (recorded u)"
  by (simp add: recorded_def AddLiteralChar_def LiteralCollector_AddChar_def AddCharSlow_def
      char_bytes_def Utf8_Encode_def ucast_char)

lemma recorded_DropLiteral [simp]: "recorded (DropLiteral u) = None"
  by (simp add: recorded_def DropLiteral_def LiteralCollector_DropLiteral_def)

lemma recorded_TerminateLiteral [simp]: "recorded (TerminateLiteral u) = None"
  by (simp add: recorded_def TerminateLiteral_def EndLiteral_def)

lemma frame_literal [simp]:
  "frame s (StartLiteral u) = frame s u" "frame s (AddLiteralChar c u) = frame s u"
  "frame s (DropLiteral u) = frame s u"
  by (simp_all add: frame_def StartLiteral_def AddLiteralChar_def DropLiteral_def)

lemma scan_input_literal [simp]:
  "scan_input (StartLiteral u) = scan_input u" "scan_input (AddLiteralChar c u) = scan_input u"
  "scan_input (DropLiteral u) = scan_input u" "scan_input (TerminateLiteral u) = scan_input u"
  "scan_ok (StartLiteral u) = scan_ok u" "scan_ok (AddLiteralChar c u) = scan_ok u"
  "scan_ok (DropLiteral u) = scan_ok u" "scan_ok (TerminateLiteral u) = scan_ok u"
  by (simp_all add: scan_input_def scan_ok_def)

lemma reads_literal:
  "reads s xs l u \<Longrightarrow> reads s xs (Some []) (StartLiteral u)"
  "reads s xs l u \<Longrightarrow> reads s xs (map_option (\<lambda>b. b @ char_bytes c) l) (AddLiteralChar c u)"
  "reads s xs l u \<Longrightarrow> reads s xs None (DropLiteral u)"
  by (auto simp: reads_def)

lemma reads_AddLiteralCharAdvance:
  "reads s (c # xs) l u \<Longrightarrow> reads s xs (map_option (\<lambda>b. b @ char_bytes c) l) (AddLiteralCharAdvance u)"
  using reads_Cons(4) [OF reads_literal(2)] reads_Cons(1) [of s c xs l u]
  by (simp add: AddLiteralCharAdvance_def)

text \<open>The end of a literal: the bytes go to the next token with a zero behind them.\<close>

definition literal_end :: "'a Scanner_scheme \<Rightarrow> int list \<Rightarrow> uint8 list option \<Rightarrow> 'a Scanner_scheme \<Rightarrow> bool" where
  "literal_end s xs l u \<longleftrightarrow> scan_ok u \<and> scan_input u = xs \<and> recorded u = None \<and>
     frame (s\<lparr>next_desc := (next_desc s)\<lparr>td_literal_chars := l\<rparr>\<rparr>) u"

lemma TerminateLiteral_desc:
  "next_desc (TerminateLiteral u) =
     (next_desc u)\<lparr>td_literal_chars := map_option (\<lambda>b. b @ [0]) (recorded u)\<rparr>"
  "current_desc (TerminateLiteral u) = current_desc u"
  "Scanner.more (TerminateLiteral u) = Scanner.more u"
  by (simp_all add: TerminateLiteral_def EndLiteral_def recorded_def kEndMarker_def)

lemma literal_end_Terminate:
  "reads s xs l u \<Longrightarrow> literal_end s xs (map_option (\<lambda>b. b @ [0]) l) (TerminateLiteral u)"
  by (simp add: reads_def literal_end_def frame_def TerminateLiteral_desc)

lemma literal_end_Advance:
  assumes "literal_end s (c # xs) l u"
  shows "literal_end s xs l (Advance u)"
  using assms reads_Cons(4) [of "s\<lparr>next_desc := (next_desc s)\<lparr>td_literal_chars := l\<rparr>\<rparr>" c xs None u]
  by (simp add: literal_end_def reads_def)

lemma follows_part: "(f = [] \<Longrightarrow> follows P ys) \<Longrightarrow> (f \<noteq> [] \<Longrightarrow> P (hd f)) \<Longrightarrow> follows P (f @ ys)"
  by (cases f) auto

lemma follows_mono: "follows P xs \<Longrightarrow> (\<And>c. P c \<Longrightarrow> Q c) \<Longrightarrow> follows Q xs"
  by (cases xs) auto

lemma follows_append: "follows P xs \<Longrightarrow> P q \<Longrightarrow> follows P (xs @ q # ys)"
  by (cases xs) simp_all

lemma reads_set_c0: "reads s (c # xs) l u \<Longrightarrow> 0 \<le> d \<Longrightarrow> d < 65536 \<Longrightarrow> reads s (d # xs) l (u\<lparr>c0 := d\<rparr>)"
  by (auto simp: reads_def frame_def scan_ok_def scan_input_def recorded_def split: if_splits)

lemma reads_advance_n: "reads s (ys @ xs) l u \<Longrightarrow> reads s xs l (advance_n (length ys) u)"
proof (induction ys arbitrary: u)
  case (Cons y ys)
  then show ?case using reads_Cons(4) [of s y "ys @ xs" l u] by simp
qed simp

lemma reads_nth: "reads s ys l u \<Longrightarrow> i < length ys \<Longrightarrow> c0 (advance_n i u) = ys ! i"
  using reads_advance_n [of s "take i ys" "drop i ys" l u]
    reads_Cons(1) [of s "ys ! i" "drop (Suc i) ys" l "advance_n i u"] by (simp add: Cons_nth_drop_Suc min_def)

section \<open>The bytes of a text\<close>

definition text_bytes :: "int list \<Rightarrow> uint8 list" where
  "text_bytes w = concat (map char_bytes w)"

lemma text_bytes_simps [simp]:
  "text_bytes [] = []" "text_bytes (c # w) = char_bytes c @ text_bytes w"
  "text_bytes (v @ w) = text_bytes v @ text_bytes w"
  by (simp_all add: text_bytes_def)

end
