(* ===== verification/ScannerSpec.thy ===== *)
theory ScannerSpec
  imports JavaScriptScanner AsciiChars ScannerReads
begin

text \<open>
  What the JavaScript scanner promises. The input left to a scanner is a list of characters, the
  current one first; \<open>reads s xs l u\<close> says that \<open>u\<close> is the scanner \<open>s\<close> later on, with input \<open>xs\<close>
  left and the bytes \<open>l\<close> recorded. On these lists stand the lexical grammar, an inductive
  relation, and the theorem that \<open>Scan\<close> implements it; then progress and the order of the tokens.
\<close>

section \<open>Literal scopes\<close>

text \<open>The fields of \<open>JavaScriptScanner\<close> are part of the frame.\<close>

lemma more_eqD:
  "Scanner.more u = Scanner.more s \<Longrightarrow> literal_flags u = literal_flags (s :: JsScanner)"
  "Scanner.more u = Scanner.more s \<Longrightarrow>
     has_line_terminator_before_next u = has_line_terminator_before_next (s :: JsScanner)"
  by (cases u; cases s; simp)+

lemma frame_js:
  "frame s u \<Longrightarrow> literal_flags u = literal_flags (s :: JsScanner) \<and>
     has_line_terminator_before_next u = has_line_terminator_before_next s"
  by (auto simp: frame_def dest: more_eqD)

text \<open>A literal scope around a body that completes.\<close>

definition literal_of :: "nat \<Rightarrow> JsScanner \<Rightarrow> uint8 list \<Rightarrow> uint8 list option" where
  "literal_of k s b = (if RecordsLiteral k s then Some b else None)"

lemma map_literal_of [simp]: "map_option f (literal_of k s b) = literal_of k s (f b)"
  by (simp add: literal_of_def)

lemma scope_reads:
  assumes "reads s xs None u"
    "\<And>t. reads s xs (literal_of k s []) t \<Longrightarrow> \<exists>v. body t = (r, True, v) \<and> Q v"
  shows "\<exists>v. js_literal_scope k body u = (r, v) \<and> Q v"
proof -
  let ?t = "if RecordsLiteral k u then StartLiteral u else u"
  have "RecordsLiteral k u = RecordsLiteral k s"
    using assms(1) frame_js by (auto simp: reads_def RecordsLiteral_def)
  then have "reads s xs (literal_of k s []) ?t"
    using assms(1) reads_literal(1) [OF assms(1)] by (simp add: literal_of_def)
  then obtain v where "body ?t = (r, True, v)" "Q v" using assms(2) by blast
  then show ?thesis by (simp add: js_literal_scope_def literal_scope_def)
qed

section \<open>Identifiers\<close>

definition plain_part :: "int \<Rightarrow> bool" where
  "plain_part c \<longleftrightarrow> IdentifierPart_Is c \<and> c \<noteq> chr (CHR 0x5C)"

abbreviation no_part :: "int list \<Rightarrow> bool" where
  "no_part xs \<equiv> follows (\<lambda>c. \<not> IdentifierPart_Is c) xs"

lemma reads_no_part: "reads s xs l u \<Longrightarrow> no_part xs \<Longrightarrow> \<not> IdentifierPart_Is (c0 u)"
  by (rule reads_follows [where P = "\<lambda>c. \<not> IdentifierPart_Is c"]) simp_all

lemma suffix_loop_reads:
  "reads s (w @ xs) (literal_of k s b) u \<Longrightarrow> list_all plain_part w \<Longrightarrow> no_part xs \<Longrightarrow>
   \<exists>v. suffix_loop u = (False, v) \<and> reads s xs (literal_of k s (b @ text_bytes w)) v"
proof (induction w arbitrary: u b)
  case Nil
  then have "\<not> IdentifierPart_Is (c0 u)" using reads_no_part [of s xs _ u] by simp
  then have "suffix_loop u = (False, u)" by (subst suffix_loop.simps) simp
  then show ?case using Nil by simp
next
  case (Cons c w)
  have c: "c0 u = c" "0 \<le> c" using reads_Cons(1,2) Cons.prems(1) by simp_all
  then have "suffix_loop u = suffix_loop (AddLiteralCharAdvance u)"
    using Cons.prems(2) by (subst suffix_loop.simps) (simp add: plain_part_def)
  moreover have "reads s (w @ xs) (literal_of k s (b @ char_bytes c)) (AddLiteralCharAdvance u)"
    using reads_AddLiteralCharAdvance Cons.prems(1) by fastforce
  ultimately show ?case using Cons.IH [of "b @ char_bytes c"] Cons.prems(2,3) by simp
qed

lemma ScanIdentifierSuffix_reads:
  assumes "reads s (w @ xs) (literal_of k s b) u" "list_all plain_part w" "no_part xs"
  shows "\<exists>v. ScanIdentifierSuffix u = (IDENTIFIER, True, v) \<and>
    literal_end s xs (literal_of k s (b @ text_bytes w @ [0])) v"
proof -
  obtain v where v: "suffix_loop u = (False, v)" "reads s xs (literal_of k s (b @ text_bytes w)) v"
    using suffix_loop_reads [OF assms] by blast
  then show ?thesis using literal_end_Terminate [OF v(2)] by (simp add: ScanIdentifierSuffix_def)
qed

lemma unmatchable_token:
  assumes "\<not> fst (KeywordMatcher_AddChar c (AddChars p KeywordMatcher_new))"
  shows "keyword_token (p @ c # w) = IDENTIFIER"
proof -
  let ?m = "AddChars (p @ [c]) KeywordMatcher_new"
  have "km_state ?m = ST_UNMATCHABLE"
    using assms by (simp add: AddChars_snoc KeywordMatcher_AddChar_def Let_def split: if_splits)
  moreover have "km_wf ?m" using AddChars_wf [OF km_wf_new] by blast
  ultimately have "completes ?m w = None" by (simp add: completes_def)
  moreover have "completes ?m w = completes (AddChars (p @ c # w) KeywordMatcher_new) []"
    using AddChars_wf [OF km_wf_new, of "p @ [c]" w] AddChars_wf [OF km_wf_new, of "p @ c # w" "[]"]
    by simp
  ultimately show ?thesis
    using km_wf_token [of "AddChars (p @ c # w) KeywordMatcher_new"] AddChars_wf [OF km_wf_new]
      AddChars_token [of "p @ c # w"] by simp
qed

lemma keyword_loop_reads:
  "reads s (w @ xs) (literal_of k s b) u \<Longrightarrow> list_all plain_part w \<Longrightarrow> no_part xs \<Longrightarrow>
   m = AddChars p KeywordMatcher_new \<Longrightarrow>
   \<exists>v. keyword_loop m u = (keyword_token (p @ map word_of_int w), True, v) \<and>
     literal_end s xs (literal_of k s (b @ text_bytes w @ [0])) v"
proof (induction w arbitrary: u b p m)
  case Nil
  then have "\<not> IdentifierPart_Is (c0 u)" using reads_no_part [of s xs _ u] by simp
  then have "keyword_loop m u = (km_token m, True, TerminateLiteral u)" by (subst keyword_loop.simps) simp
  then show ?case using literal_end_Terminate [OF Nil(1)[unfolded append_Nil]] Nil(4) by (simp add: AddChars_token)
next
  case (Cons c w)
  let ?u = "AddLiteralChar c (Advance u)" and ?r = "KeywordMatcher_AddChar (word_of_int c) m"
  have c: "c0 u = c" "0 \<le> c" "reads s (w @ xs) (literal_of k s b) (Advance u)"
    using reads_Cons Cons.prems(1) by simp_all
  have r: "reads s (w @ xs) (literal_of k s (b @ char_bytes c)) ?u" using reads_literal(2) [OF c(3), of c] by simp
  have eq: "keyword_loop m u = (if fst ?r then keyword_loop (snd ?r) ?u else ScanIdentifierSuffix ?u)"
    using Cons.prems(2) c by (subst keyword_loop.simps) (simp add: plain_part_def Let_def)
  show ?case
  proof (cases "fst ?r")
    case True
    have "snd ?r = AddChars (p @ [word_of_int c]) KeywordMatcher_new"
      using Cons.prems(4) by (simp add: AddChars_snoc)
    from Cons.IH [OF r _ Cons.prems(3) this] show ?thesis using Cons.prems(2) eq True by simp
  next
    case False
    then have "keyword_token (p @ map word_of_int (c # w)) = IDENTIFIER"
      using unmatchable_token Cons.prems(4) by simp
    then show ?thesis
      using ScanIdentifierSuffix_reads [OF r _ Cons.prems(3)] Cons.prems(2) eq False by simp
  qed
qed

definition identifier_name :: "int list \<Rightarrow> bool" where
  "identifier_name w \<longleftrightarrow> (case w of [] \<Rightarrow> False
     | c # cs \<Rightarrow> IdentifierStart_Is c \<and> c \<noteq> chr (CHR 0x5C) \<and> list_all plain_part cs)"

definition word_token :: "int list \<Rightarrow> Token" where
  "word_token w = keyword_token (map word_of_int w)"

lemma ScanIdentifierOrKeyword_reads:
  assumes "reads s (w @ xs) None u" "identifier_name w" "no_part xs"
  shows "\<exists>v. ScanIdentifierOrKeyword u = (word_token w, v) \<and>
    literal_end s xs (literal_of kLiteralIdentifier s (text_bytes w @ [0])) v"
  unfolding ScanIdentifierOrKeyword_def
proof (rule scope_reads [OF assms(1)])
  fix t assume t: "reads s (w @ xs) (literal_of kLiteralIdentifier s []) t"
  obtain c cs where w: "w = c # cs" "c \<noteq> chr (CHR 0x5C)" "list_all plain_part cs"
    using assms(2) by (auto simp: identifier_name_def split: list.splits)
  let ?t = "AddLiteralChar c (Advance t)"
  let ?r = "KeywordMatcher_AddChar (word_of_int c) (AddChars [] KeywordMatcher_new)"
  have c: "c0 t = c" "reads s (cs @ xs) (literal_of kLiteralIdentifier s []) (Advance t)"
    using reads_Cons(1,4) t w(1) by simp_all
  have r: "reads s (cs @ xs) (literal_of kLiteralIdentifier s (char_bytes c)) ?t"
    using reads_literal(2) [OF c(2), of c] by simp
  have eq: "identifier_body t = (if fst ?r then keyword_loop (snd ?r) ?t else ScanIdentifierSuffix ?t)"
    using c w(2) by (simp add: identifier_body_def AddChars_def)
  show "\<exists>v. identifier_body t = (word_token w, True, v) \<and>
      literal_end s xs (literal_of kLiteralIdentifier s (text_bytes w @ [0])) v"
  proof (cases "fst ?r")
    case True
    have "snd ?r = AddChars [word_of_int c] KeywordMatcher_new" by (simp add: AddChars_def)
    from keyword_loop_reads [OF r w(3) assms(3) this] show ?thesis
      using eq True w(1) by (simp add: word_token_def)
  next
    case False
    then have "word_token w = IDENTIFIER"
      using unmatchable_token [of _ "[]"] by (simp add: word_token_def w(1))
    then show ?thesis using ScanIdentifierSuffix_reads [OF r w(3) assms(3)] eq False w(1) by simp
  qed
qed

section \<open>String literals\<close>

definition hex_number :: "int list \<Rightarrow> int" where
  "hex_number hs = foldl (\<lambda>x h. x * 16 + HexValue h) 0 hs"

definition hex_digits :: "nat \<Rightarrow> int list \<Rightarrow> bool" where
  "hex_digits n xs \<longleftrightarrow> n \<le> length xs \<and> list_all (\<lambda>h. 0 \<le> HexValue h) (take n xs)"

text \<open>The number of hexadecimal digits an escape asks for.\<close>

definition escape_length :: "int \<Rightarrow> nat option" where
  "escape_length c = (if c = chr (CHR ''x'') then Some 2 else if c = chr (CHR ''u'') then Some 4 else None)"

definition octal_digit :: "int \<Rightarrow> bool" where
  "octal_digit c \<longleftrightarrow> chr (CHR ''0'') \<le> c \<and> c \<le> chr (CHR ''7'')"

definition single_escape :: "int \<Rightarrow> int option" where
  "single_escape c =
     (if IsLineTerminator c \<or> octal_digit c \<or> escape_length c \<noteq> None then None
      else Some (if c = chr (CHR ''b'') then 8 else if c = chr (CHR ''f'') then 12
        else if c = chr (CHR ''n'') then 10 else if c = chr (CHR ''r'') then 13
        else if c = chr (CHR ''t'') then 9 else if c = chr (CHR ''v'') then 11 else c))"

text \<open>
  The body of a string literal between two quotes \<open>q\<close> and the characters it stands for. A line
  terminator behind a backslash continues the line; two of them that form a pair count as one.
\<close>

inductive string_text :: "int \<Rightarrow> int list \<Rightarrow> int list \<Rightarrow> bool" for q :: int where
  st_Nil: "string_text q [] []"
| st_plain: "c \<noteq> q \<Longrightarrow> c \<noteq> chr (CHR 0x5C) \<Longrightarrow> \<not> IsLineTerminator c \<Longrightarrow> string_text q xs vs \<Longrightarrow>
    string_text q (c # xs) (c # vs)"
| st_single: "single_escape c = Some v \<Longrightarrow> string_text q xs vs \<Longrightarrow>
    string_text q (chr (CHR 0x5C) # c # xs) (v # vs)"
| st_hex: "escape_length c = Some (length hs) \<Longrightarrow> hex_digits (length hs) hs \<Longrightarrow> string_text q xs vs \<Longrightarrow>
    string_text q (chr (CHR 0x5C) # c # hs @ xs) (hex_number hs # vs)"
| st_no_hex: "escape_length c = Some n \<Longrightarrow> \<not> hex_digits n xs \<Longrightarrow> string_text q xs vs \<Longrightarrow>
    string_text q (chr (CHR 0x5C) # c # xs) (c # vs)"
| st_octal1: "octal_digit c \<Longrightarrow> follows (\<lambda>d. \<not> octal_digit d) xs \<Longrightarrow> string_text q xs vs \<Longrightarrow>
    string_text q (chr (CHR 0x5C) # c # xs) ((c - 48) # vs)"
| st_octal2: "octal_digit c \<Longrightarrow> octal_digit d \<Longrightarrow>
    follows (\<lambda>e. \<not> octal_digit e \<or> 256 \<le> ((c - 48) * 8 + (d - 48)) * 8 + (e - 48)) xs \<Longrightarrow> string_text q xs vs \<Longrightarrow>
    string_text q (chr (CHR 0x5C) # c # d # xs) (((c - 48) * 8 + (d - 48)) # vs)"
| st_octal3: "octal_digit c \<Longrightarrow> octal_digit d \<Longrightarrow> octal_digit e \<Longrightarrow>
    ((c - 48) * 8 + (d - 48)) * 8 + (e - 48) < 256 \<Longrightarrow> string_text q xs vs \<Longrightarrow>
    string_text q (chr (CHR 0x5C) # c # d # e # xs) ((((c - 48) * 8 + (d - 48)) * 8 + (e - 48)) # vs)"
| st_line: "IsLineTerminator c \<Longrightarrow> follows (\<lambda>d. (c, d) \<notin> {(13, 10), (10, 13)}) xs \<Longrightarrow> string_text q xs vs \<Longrightarrow>
    string_text q (chr (CHR 0x5C) # c # xs) vs"
| st_line2: "(c, d) \<in> {(13, 10), (10, 13)} \<Longrightarrow> string_text q xs vs \<Longrightarrow>
    string_text q (chr (CHR 0x5C) # c # d # xs) vs"

lemma hex_escape_loop_reads:
  "reads s (hs @ xs) l u \<Longrightarrow> list_all (\<lambda>h. 0 \<le> HexValue h) hs \<Longrightarrow>
   \<exists>v. hex_escape_loop c (length hs) ds x u = (foldl (\<lambda>x h. x * 16 + HexValue h) x hs, v) \<and> reads s xs l v"
proof (induction hs arbitrary: u ds x)
  case (Cons h hs)
  have "c0 u = h" "reads s (hs @ xs) l (Advance u)" using reads_Cons(1,4) Cons.prems(1) by simp_all
  then show ?case using Cons.IH [of "Advance u" "h # ds" "x * 16 + HexValue h"] Cons.prems(2)
    by (simp add: Let_def)
qed simp

lemma ScanHexEscape_reads:
  assumes "reads s (hs @ xs) l u" "hex_digits (length hs) hs"
  shows "\<exists>v. ScanHexEscape c (length hs) u = (hex_number hs, v) \<and> reads s xs l v"
  using hex_escape_loop_reads [OF assms(1)] assms(2)
  by (simp add: ScanHexEscape_def hex_number_def hex_digits_def)

lemma ScanHexEscape_fails:
  assumes "reads s (xs @ q # ys) l u" "\<not> hex_digits n xs" "HexValue q < 0"
  shows "ScanHexEscape c n u = (c, u)"
proof (rule ccontr)
  assume "ScanHexEscape c n u \<noteq> (c, u)"
  then have hex: "\<forall>i < n. 0 \<le> HexValue (c0 (advance_n i u))" using ScanHexEscape_cases by blast
  obtain i where i: "i < n" "i \<le> length xs" "HexValue ((xs @ q # ys) ! i) < 0"
  proof (cases "n \<le> length xs")
    case True
    then obtain i where "i < n" "HexValue (xs ! i) < 0"
      using assms(2) by (auto simp: hex_digits_def list_all_length not_le)
    then show thesis using that [of i] True by (simp add: nth_append)
  next
    case False
    then show thesis using that [of "length xs"] assms(3) by simp
  qed
  then have "c0 (advance_n i u) = (xs @ q # ys) ! i" using reads_nth [OF assms(1)] by simp
  then show False using hex i by auto
qed

lemma ScanOctalEscape_two: "ScanOctalEscape c 2 u =
   (let d = c0 u - 48; x = (c - 48) * 8 + d in
    if d < 0 \<or> d > 7 \<or> x \<ge> 256 then (c - 48, u)
    else (let e = c0 (Advance u) - 48; y = x * 8 + e in
          if e < 0 \<or> e > 7 \<or> y \<ge> 256 then (x, Advance u) else (y, Advance (Advance u))))"
  by (auto simp: ScanOctalEscape_def numeral_2_eq_2 Let_def)

lemma ScanEscape_char:
  assumes "reads s (c # xs) l u" "\<not> IsLineTerminator c"
  shows "ScanEscape u =
    (case (if octal_digit c then ScanOctalEscape c 2 (Advance u)
           else case escape_length c of Some n \<Rightarrow> ScanHexEscape c n (Advance u)
           | None \<Rightarrow> (the (single_escape c), Advance u)) of (c, t) \<Rightarrow> AddLiteralChar c t)"
proof -
  have c: "c0 u = c" using reads_Cons(1) [OF assms(1)] .
  note eq = ScanEscape_def [of u, folded octal_digit_def, unfolded c Let_def]
  consider (octal) "octal_digit c" | (u) "c = chr (CHR ''u'')" | (x) "c = chr (CHR ''x'')"
    | (other) "\<not> octal_digit c" "c \<noteq> chr (CHR ''u'')" "c \<noteq> chr (CHR ''x'')" by blast
  then show ?thesis
  proof cases
    case octal
    then have "c \<noteq> 39 \<and> c \<noteq> 34 \<and> c \<noteq> 92 \<and> c \<noteq> 98 \<and> c \<noteq> 102 \<and> c \<noteq> 110 \<and> c \<noteq> 114 \<and>
        c \<noteq> 116 \<and> c \<noteq> 117 \<and> c \<noteq> 118 \<and> c \<noteq> 120"
      by (auto simp: octal_digit_def)
    then show ?thesis using octal assms(2) unfolding eq by simp
  next
    case other
    have n: "escape_length c = None" using other by (simp add: escape_length_def)
    show ?thesis
    proof (cases "c = 39 \<or> c = 34 \<or> c = 92")
      case True
      then show ?thesis using other n assms(2) unfolding eq by (auto simp: single_escape_def)
    next
      case False
      then show ?thesis using other n assms(2) unfolding eq by (simp add: single_escape_def cong: if_cong)
    qed
  next
    case u
    then have "\<not> octal_digit c" by (simp add: octal_digit_def)
    then show ?thesis using u assms(2) unfolding eq by (simp add: escape_length_def)
  next
    case x
    then have "\<not> octal_digit c" by (simp add: octal_digit_def)
    then show ?thesis using x assms(2) unfolding eq by (simp add: escape_length_def)
  qed
qed

lemma ScanEscape_line:
  assumes "reads s (c # xs) l u" "IsLineTerminator c" "follows (\<lambda>d. (c, d) \<notin> {(13, 10), (10, 13)}) xs"
  shows "reads s xs l (ScanEscape u)"
proof -
  have a: "c0 u = c" "reads s xs l (Advance u)" using reads_Cons(1,4) [OF assms(1)] .
  have "(c, c0 (Advance u)) \<notin> {(13, 10), (10, 13)}" using reads_follows [OF a(2) assms(3)] by simp
  then show ?thesis using a assms(2) by (auto simp: ScanEscape_def Let_def IsCarriageReturn_def IsLineFeed_def)
qed

lemma ScanEscape_line2:
  assumes "reads s (c # d # xs) l u" "(c, d) \<in> {(13, 10), (10, 13)}"
  shows "reads s xs l (ScanEscape u)"
proof -
  have a: "c0 u = c" "reads s (d # xs) l (Advance u)" using reads_Cons(1,4) [OF assms(1)] .
  have b: "c0 (Advance u) = d" "reads s xs l (Advance (Advance u))" using reads_Cons(1,4) [OF a(2)] .
  have "IsLineTerminator c" using assms(2) by (auto simp: IsLineTerminator_iff)
  then show ?thesis using a b assms(2) by (auto simp: ScanEscape_def Let_def IsCarriageReturn_def IsLineFeed_def)
qed

lemma string_loop_plain:
  assumes "reads s (c # xs) l u" "c \<noteq> q" "c \<noteq> chr (CHR 0x5C)" "\<not> IsLineTerminator c"
  shows "string_loop q u = string_loop q (AddLiteralChar c (Advance u))"
  using assms reads_Cons(1,2) [OF assms(1)] by (subst string_loop.simps) (simp add: Let_def)

lemma string_loop_escape:
  assumes "reads s (chr (CHR 0x5C) # c # xs) l u" "q \<noteq> chr (CHR 0x5C)"
  shows "string_loop q u = string_loop q (ScanEscape (Advance u))"
  using assms(2) reads_Cons(1) [OF assms(1)] reads_Cons(1,2) [OF reads_Cons(4) [OF assms(1)]]
  by (subst string_loop.simps) (simp add: Let_def IsLineTerminator_iff)

lemma string_loop_quote: "c0 u = q \<Longrightarrow> string_loop q u = (False, u)"
  by (subst string_loop.simps) simp

text \<open>What one escape leaves: the input behind it and the value it adds.\<close>

lemma escape_step:
  assumes "reads s (chr (CHR 0x5C) # c # ys) (literal_of k s b) u" "\<not> IsLineTerminator c" "q \<noteq> chr (CHR 0x5C)"
    "(if octal_digit c then ScanOctalEscape c 2 (Advance (Advance u))
      else case escape_length c of Some n \<Rightarrow> ScanHexEscape c n (Advance (Advance u))
      | None \<Rightarrow> (the (single_escape c), Advance (Advance u))) = (x, t)"
    "reads s zs (literal_of k s b) t"
  shows "\<exists>t. string_loop q u = string_loop q t \<and> reads s zs (literal_of k s (b @ char_bytes x)) t"
proof -
  have "reads s (c # ys) (literal_of k s b) (Advance u)" using reads_Cons(4) [OF assms(1)] .
  then have "ScanEscape (Advance u) = AddLiteralChar x t" using ScanEscape_char assms(2,4) by simp
  moreover have "reads s zs (literal_of k s (b @ char_bytes x)) (AddLiteralChar x t)"
    using reads_literal(2) [OF assms(5), of x] by simp
  ultimately show ?thesis using string_loop_escape [OF assms(1,3)] by metis
qed

lemma octal_not_line: "octal_digit c \<Longrightarrow> \<not> IsLineTerminator c"
  by (simp add: octal_digit_def IsLineTerminator_iff)

lemma escape_length_cases:
  assumes "escape_length c = Some n"
  shows "\<not> IsLineTerminator c" "\<not> octal_digit c"
  using assms by (auto simp: escape_length_def octal_digit_def IsLineTerminator_iff split: if_splits)

definition quote_char :: "int \<Rightarrow> bool" where
  "quote_char q \<longleftrightarrow> q = chr (CHR 0x22) \<or> q = chr (CHR 0x27)"

lemma quote_char_facts:
  assumes "quote_char q"
  shows "q \<noteq> chr (CHR 0x5C)" "HexValue q < 0" "\<not> octal_digit q" "q \<noteq> 10" "q \<noteq> 13" "0 \<le> q"
proof -
  have "HexValue 34 = -1" "HexValue 39 = -1" by (simp_all add: HexValue_def Let_def)
  then show "HexValue q < 0" using assms by (auto simp: quote_char_def)
qed (use assms in \<open>auto simp: quote_char_def octal_digit_def\<close>)

lemma octal_reads:
  assumes "reads s (c # d # e # ys) l u"
  shows "c0 u = c" "c0 (Advance u) = d" "c0 (Advance (Advance u)) = e" "reads s (d # e # ys) l (Advance u)"
    "reads s (e # ys) l (Advance (Advance u))" "reads s ys l (Advance (Advance (Advance u)))"
proof -
  have r: "reads s (d # e # ys) l (Advance u)" using reads_Cons(4) [OF assms] .
  have r2: "reads s (e # ys) l (Advance (Advance u))" using reads_Cons(4) [OF r] .
  show "c0 u = c" "c0 (Advance u) = d" "c0 (Advance (Advance u)) = e" "reads s (d # e # ys) l (Advance u)"
    "reads s (e # ys) l (Advance (Advance u))" "reads s ys l (Advance (Advance (Advance u)))"
    using reads_Cons(1) [OF assms] reads_Cons(1) [OF r] reads_Cons(1,4) [OF r2] r r2 by simp_all
qed

lemma string_loop_reads:
  assumes "string_text q body vs" "quote_char q"
  shows "reads s (body @ q # ys) (literal_of k s b) u \<Longrightarrow>
    \<exists>t. string_loop q u = (False, t) \<and> reads s (q # ys) (literal_of k s (b @ text_bytes vs)) t"
  using assms
proof (induction arbitrary: u b rule: string_text.induct)
  case st_Nil
  then show ?case using reads_Cons(1) [of s q ys _ u] string_loop_quote by fastforce
next
  case (st_plain c xs vs)
  have r: "reads s (c # xs @ q # ys) (literal_of k s b) u" using st_plain.prems by simp
  have "reads s (xs @ q # ys) (literal_of k s (b @ char_bytes c)) (AddLiteralChar c (Advance u))"
    using reads_literal(2) [OF reads_Cons(4) [OF r], of c] by simp
  then show ?case using st_plain.IH [of "b @ char_bytes c"] string_loop_plain [OF r] st_plain by simp
next
  case (st_single c v xs vs)
  note q = quote_char_facts [OF st_single.prems(2)]
  have c: "\<not> octal_digit c" "escape_length c = None" "\<not> IsLineTerminator c"
    using st_single(1) by (auto simp: single_escape_def split: if_splits)
  have r: "reads s (chr (CHR 0x5C) # c # xs @ q # ys) (literal_of k s b) u" using st_single.prems by simp
  have r2: "reads s (xs @ q # ys) (literal_of k s b) (Advance (Advance u))"
    using reads_Cons(4) [OF reads_Cons(4) [OF r]] .
  obtain t where "string_loop q u = string_loop q t"
      "reads s (xs @ q # ys) (literal_of k s (b @ char_bytes v)) t"
    using escape_step [OF r c(3) q(1) _ r2, of v] c st_single(1) by auto
  then show ?case using st_single.IH [of "b @ char_bytes v"] st_single.prems(2) by simp
next
  case (st_hex c hs xs vs)
  note q = quote_char_facts [OF st_hex.prems(2)]
  note c = escape_length_cases [OF st_hex(1)]
  have r: "reads s (chr (CHR 0x5C) # c # hs @ xs @ q # ys) (literal_of k s b) u" using st_hex.prems by simp
  obtain v where v: "ScanHexEscape c (length hs) (Advance (Advance u)) = (hex_number hs, v)"
      "reads s (xs @ q # ys) (literal_of k s b) v"
    using ScanHexEscape_reads [OF reads_Cons(4) [OF reads_Cons(4) [OF r]] st_hex(2)] by blast
  obtain t where "string_loop q u = string_loop q t"
      "reads s (xs @ q # ys) (literal_of k s (b @ char_bytes (hex_number hs))) t"
    using escape_step [OF r c(1) q(1) _ v(2), of "hex_number hs"] c st_hex(1) v(1) by auto
  then show ?case using st_hex.IH [of "b @ char_bytes (hex_number hs)"] st_hex.prems(2) by simp
next
  case (st_no_hex c n xs vs)
  note q = quote_char_facts [OF st_no_hex.prems(2)]
  note c = escape_length_cases [OF st_no_hex(1)]
  have r: "reads s (chr (CHR 0x5C) # c # xs @ q # ys) (literal_of k s b) u" using st_no_hex.prems by simp
  have r2: "reads s (xs @ q # ys) (literal_of k s b) (Advance (Advance u))"
    using reads_Cons(4) [OF reads_Cons(4) [OF r]] .
  have v: "ScanHexEscape c n (Advance (Advance u)) = (c, Advance (Advance u))"
    by (rule ScanHexEscape_fails [OF r2 st_no_hex(2) q(2)])
  obtain t where "string_loop q u = string_loop q t"
      "reads s (xs @ q # ys) (literal_of k s (b @ char_bytes c)) t"
    using escape_step [OF r c(1) q(1) _ r2, of c] c st_no_hex(1) v by auto
  then show ?case using st_no_hex.IH [of "b @ char_bytes c"] st_no_hex.prems(2) by simp
next
  case (st_octal1 c xs vs)
  note q = quote_char_facts [OF st_octal1.prems(2)]
  have r: "reads s (chr (CHR 0x5C) # c # xs @ q # ys) (literal_of k s b) u" using st_octal1.prems by simp
  have r2: "reads s (xs @ q # ys) (literal_of k s b) (Advance (Advance u))"
    using reads_Cons(4) [OF reads_Cons(4) [OF r]] .
  have "\<not> octal_digit (c0 (Advance (Advance u)))"
    using reads_follows [OF r2 follows_append, of "\<lambda>d. \<not> octal_digit d"] q(3) st_octal1(2)
    by (simp add: octal_digit_def)
  then have "ScanOctalEscape c 2 (Advance (Advance u)) = (c - 48, Advance (Advance u))"
    by (auto simp: ScanOctalEscape_two octal_digit_def Let_def)
  then obtain t where "string_loop q u = string_loop q t"
      "reads s (xs @ q # ys) (literal_of k s (b @ char_bytes (c - 48))) t"
    using escape_step [OF r octal_not_line [OF st_octal1(1)] q(1) _ r2, of "c - 48"] st_octal1(1) by auto
  then show ?case using st_octal1.IH [of "b @ char_bytes (c - 48)"] st_octal1.prems(2) by simp
next
  case (st_octal2 c d xs vs)
  note q = quote_char_facts [OF st_octal2.prems(2)]
  let ?v = "(c - 48) * 8 + (d - 48)"
  have r: "reads s (chr (CHR 0x5C) # c # d # xs @ q # ys) (literal_of k s b) u" using st_octal2.prems by simp
  note o = octal_reads [OF r]
  have "\<not> octal_digit (c0 (Advance (Advance (Advance u)))) \<or> 256 \<le> ?v * 8 + (c0 (Advance (Advance (Advance u))) - 48)"
    using reads_follows [OF o(6) follows_append, of "\<lambda>e. \<not> octal_digit e \<or> 256 \<le> ?v * 8 + (e - 48)"] q(3) st_octal2(3)
    by (simp add: octal_digit_def)
  then have "ScanOctalEscape c 2 (Advance (Advance u)) = (?v, Advance (Advance (Advance u)))"
    using st_octal2(1,2) o(3) by (auto simp: ScanOctalEscape_two octal_digit_def Let_def)
  then obtain t where "string_loop q u = string_loop q t"
      "reads s (xs @ q # ys) (literal_of k s (b @ char_bytes ?v)) t"
    using escape_step [OF r octal_not_line [OF st_octal2(1)] q(1) _ o(6), of ?v] st_octal2(1) by auto
  then show ?case using st_octal2.IH [of "b @ char_bytes ?v"] st_octal2.prems(2) by simp
next
  case (st_octal3 c d e xs vs)
  note q = quote_char_facts [OF st_octal3.prems(2)]
  let ?v = "((c - 48) * 8 + (d - 48)) * 8 + (e - 48)"
  have r: "reads s (chr (CHR 0x5C) # c # d # e # xs @ q # ys) (literal_of k s b) u" using st_octal3.prems by simp
  note o = octal_reads [OF reads_Cons(4) [OF r]]
  have "ScanOctalEscape c 2 (Advance (Advance u)) = (?v, Advance (Advance (Advance (Advance u))))"
    using st_octal3(1-4) o(2,3) by (auto simp: ScanOctalEscape_two octal_digit_def Let_def)
  then obtain t where "string_loop q u = string_loop q t"
      "reads s (xs @ q # ys) (literal_of k s (b @ char_bytes ?v)) t"
    using escape_step [OF r octal_not_line [OF st_octal3(1)] q(1) _ o(6), of ?v] st_octal3(1) by auto
  then show ?case using st_octal3.IH [of "b @ char_bytes ?v"] st_octal3.prems(2) by simp
next
  case (st_line c xs vs)
  note q = quote_char_facts [OF st_line.prems(2)]
  have r: "reads s (chr (CHR 0x5C) # c # xs @ q # ys) (literal_of k s b) u" using st_line.prems by simp
  have "follows (\<lambda>d. (c, d) \<notin> {(13, 10), (10, 13)}) (xs @ q # ys)"
    using st_line(2) q(4,5) by (intro follows_append) auto
  from ScanEscape_line [OF reads_Cons(4) [OF r] st_line(1) this]
  show ?case using st_line.IH string_loop_escape [OF r q(1)] st_line.prems(2) by simp
next
  case (st_line2 c d xs vs)
  note q = quote_char_facts [OF st_line2.prems(2)]
  have r: "reads s (chr (CHR 0x5C) # c # d # xs @ q # ys) (literal_of k s b) u" using st_line2.prems by simp
  from ScanEscape_line2 [OF reads_Cons(4) [OF r] st_line2(1)]
  show ?case using st_line2.IH string_loop_escape [OF r q(1)] st_line2.prems(2) by simp
qed

lemma ScanString_reads:
  assumes "reads s (q # body @ q # ys) None u" "quote_char q" "string_text q body vs"
  shows "\<exists>v. ScanString u = (STRING, v) \<and>
    literal_end s ys (literal_of kLiteralString s (text_bytes vs @ [0])) v"
proof -
  have q: "c0 u = q" "reads s (body @ q # ys) None (Advance u)" using reads_Cons(1,4) [OF assms(1)] .
  have "\<exists>v. js_literal_scope kLiteralString (string_body q) (Advance u) = (STRING, v) \<and>
      literal_end s ys (literal_of kLiteralString s (text_bytes vs @ [0])) v"
  proof (rule scope_reads [OF q(2)])
    fix t assume "reads s (body @ q # ys) (literal_of kLiteralString s []) t"
    then obtain w where w: "string_loop q t = (False, w)"
        "reads s (q # ys) (literal_of kLiteralString s (text_bytes vs)) w"
      using string_loop_reads [OF assms(3,2)] by fastforce
    have "literal_end s ys (literal_of kLiteralString s (text_bytes vs @ [0])) (Advance (TerminateLiteral w))"
      using literal_end_Advance [OF literal_end_Terminate [OF w(2)]] by simp
    then show "\<exists>v. string_body q t = (STRING, True, v) \<and>
        literal_end s ys (literal_of kLiteralString s (text_bytes vs @ [0])) v"
      using w reads_Cons(1) [OF w(2)] by (simp add: string_body_def)
  qed
  then show ?thesis by (simp add: ScanString_def Let_def q(1))
qed

section \<open>Numbers\<close>

lemma add_while_reads:
  "reads s (w @ xs) (literal_of k s b) u \<Longrightarrow> list_all P w \<Longrightarrow> follows (\<lambda>c. \<not> P c) xs \<Longrightarrow> \<not> P (-1) \<Longrightarrow>
   reads s xs (literal_of k s (b @ text_bytes w)) (add_while P u)"
proof (induction w arbitrary: u b)
  case Nil
  have "\<not> P (c0 u)"
    using reads_follows [of s xs _ u "\<lambda>c. \<not> P c"] Nil by simp
  then have "add_while P u = u" by (subst add_while.simps) simp
  then show ?case using Nil by simp
next
  case (Cons c w)
  have "c0 u = c" "0 \<le> c" using reads_Cons(1,2) Cons.prems(1) by simp_all
  then have "add_while P u = add_while P (AddLiteralCharAdvance u)"
    using Cons.prems(2) by (subst add_while.simps) simp
  moreover have "reads s (w @ xs) (literal_of k s (b @ char_bytes c)) (AddLiteralCharAdvance u)"
    using reads_AddLiteralCharAdvance Cons.prems(1) by fastforce
  ultimately show ?case using Cons.IH [of "b @ char_bytes c"] Cons.prems(2-4) by simp
qed

definition decimal_digit :: "int \<Rightarrow> bool" where
  "decimal_digit c \<longleftrightarrow> chr (CHR ''0'') \<le> c \<and> c \<le> chr (CHR ''9'')"

lemma IsDecimalDigit_eof [simp]: "\<not> IsDecimalDigit (-1)"
  by (simp add: IsDecimalDigit_iff)

lemma reads_digit: "reads s xs l u \<Longrightarrow> IsDecimalDigit (c0 u) = decimal_digit (c0 u)"
  using reads_c0_range [of s xs l u] by (simp add: IsDecimalDigit_iff decimal_digit_def)

text \<open>The decimal literals: an integer part, or a period alone, a fraction and an exponent.\<close>

definition digits :: "int list \<Rightarrow> bool" where
  "digits w \<longleftrightarrow> list_all decimal_digit w"

definition fraction :: "int list \<Rightarrow> bool" where
  "fraction f \<longleftrightarrow> f = [] \<or> (\<exists>ds. f = chr (CHR ''.'') # ds \<and> digits ds)"

definition exponent :: "int list \<Rightarrow> bool" where
  "exponent e \<longleftrightarrow> e = [] \<or> (\<exists>x sg ds. e = x # sg @ ds \<and> x \<in> {chr (CHR ''e''), chr (CHR ''E'')} \<and>
     sg \<in> {[], [chr (CHR ''+'')], [chr (CHR ''-'')]} \<and> digits ds \<and> ds \<noteq> [])"

definition number_follow :: "int \<Rightarrow> bool" where
  "number_follow c \<longleftrightarrow> \<not> IsDecimalDigit c \<and> \<not> IdentifierStart_Is c"

lemma number_follow_eof [simp]: "number_follow (-1)"
  by (simp add: number_follow_def)

lemma ScanDecimalDigits_reads:
  assumes "reads s (ds @ xs) (literal_of k s b) u" "digits ds" "follows (\<lambda>c. \<not> IsDecimalDigit c) xs"
  shows "reads s xs (literal_of k s (b @ text_bytes ds)) (ScanDecimalDigits u)"
  unfolding ScanDecimalDigits_def
proof (rule add_while_reads [OF assms(1) _ assms(3)])
  show "list_all IsDecimalDigit ds"
    using assms(2) by (auto simp: digits_def list_all_iff decimal_digit_def IsDecimalDigit_iff)
qed simp

lemma number_follow_facts:
  assumes "number_follow c"
  shows "\<not> IsDecimalDigit c" "c \<noteq> chr (CHR ''e'')" "c \<noteq> chr (CHR ''E'')" "c \<noteq> chr (CHR ''x'')"
    "c \<noteq> chr (CHR ''X'')" "\<not> decimal_digit c"
proof -
  have "IdentifierStart_Is 101" "IdentifierStart_Is 69" "IdentifierStart_Is 120" "IdentifierStart_Is 88"
    by (simp_all add: identifier_start_ascii)
  then show "c \<noteq> chr (CHR ''e'')" "c \<noteq> chr (CHR ''E'')" "c \<noteq> chr (CHR ''x'')" "c \<noteq> chr (CHR ''X'')"
    using assms by (auto simp: number_follow_def)
  show "\<not> IsDecimalDigit c" using assms by (simp add: number_follow_def)
  then show "\<not> decimal_digit c" by (auto simp: decimal_digit_def IsDecimalDigit_iff)
qed

lemma no_digit_ahead:
  assumes "follows number_follow xs" "exponent e" "fraction f"
  shows "follows (\<lambda>c. \<not> IsDecimalDigit c) xs" "follows (\<lambda>c. \<not> IsDecimalDigit c) (e @ xs)"
    "follows (\<lambda>c. \<not> IsDecimalDigit c) (f @ e @ xs)"
    "follows (\<lambda>c. c \<noteq> 120 \<and> c \<noteq> 88 \<and> \<not> decimal_digit c) (f @ e @ xs)"
proof -
  show x: "follows (\<lambda>c. \<not> IsDecimalDigit c) xs"
    using assms(1) number_follow_facts(1) by (rule follows_mono)
  show e: "follows (\<lambda>c. \<not> IsDecimalDigit c) (e @ xs)"
    by (rule follows_part, rule x) (use assms(2) in \<open>auto simp: exponent_def IsDecimalDigit_iff\<close>)
  show "follows (\<lambda>c. \<not> IsDecimalDigit c) (f @ e @ xs)"
    by (rule follows_part, rule e) (use assms(3) in \<open>auto simp: fraction_def IsDecimalDigit_iff\<close>)
  have "follows (\<lambda>c. c \<noteq> 120 \<and> c \<noteq> 88 \<and> \<not> decimal_digit c) xs"
    using assms(1) by (rule follows_mono) (use number_follow_facts in auto)
  then show "follows (\<lambda>c. c \<noteq> 120 \<and> c \<noteq> 88 \<and> \<not> decimal_digit c) (f @ e @ xs)"
    using assms(2,3) by (intro follows_part) (auto simp: exponent_def fraction_def decimal_digit_def)
qed

lemma number_exponent_reads:
  assumes "reads s (e @ xs) (literal_of k s b) u" "exponent e" "follows number_follow xs"
  shows "\<exists>v. number_exponent DECIMAL u = (True, v) \<and> reads s xs (literal_of k s (b @ text_bytes e)) v"
proof (cases "e = []")
  case True
  then have "number_follow (c0 u)" using reads_follows [of s xs _ u number_follow] assms(1,3) by simp
  from number_follow_facts [OF this] show ?thesis using True assms(1) by (simp add: number_exponent_def)
next
  case False
  then obtain x sg ds where e: "e = x # sg @ ds" "x = 101 \<or> x = 69" "sg = [] \<or> sg = [43] \<or> sg = [45]"
      "digits ds" "ds \<noteq> []"
    using assms(2) by (auto simp: exponent_def)
  obtain d ds' where d: "ds = d # ds'" "decimal_digit d" using e(4,5) by (cases ds) (auto simp: digits_def)
  let ?u = "AddLiteralCharAdvance u"
  let ?v = "if c0 ?u = 43 \<or> c0 ?u = 45 then AddLiteralCharAdvance ?u else ?u"
  have r: "reads s (x # sg @ ds @ xs) (literal_of k s b) u" using assms(1) e(1) by simp
  have r1: "reads s (sg @ ds @ xs) (literal_of k s (b @ char_bytes x)) ?u"
    using reads_AddLiteralCharAdvance [OF r] by simp
  have r2: "reads s (ds @ xs) (literal_of k s (b @ char_bytes x @ text_bytes sg)) ?v"
  proof (cases "sg = []")
    case True
    then have "c0 ?u = d" using r1 d(1) reads_Cons(1) [of s d "ds' @ xs" _ ?u] by simp
    then have "?v = ?u" using d(2) by (auto simp: decimal_digit_def)
    then show ?thesis using r1 True by simp
  next
    case False
    then obtain g where g: "sg = [g]" "g = 43 \<or> g = 45" using e(3) by auto
    have r1': "reads s (g # ds @ xs) (literal_of k s (b @ char_bytes x)) ?u" using r1 g(1) by simp
    have "?v = AddLiteralCharAdvance ?u" using reads_Cons(1) [OF r1'] g(2) by simp
    then show ?thesis using reads_AddLiteralCharAdvance [OF r1'] g(1) by simp
  qed
  have "c0 ?v = d" using r2 reads_Cons(1) [of s d "ds' @ xs" _ ?v] d(1) by simp
  then have "IsDecimalDigit (c0 ?v)" using d(2) by (simp add: IsDecimalDigit_iff decimal_digit_def)
  moreover have "reads s xs (literal_of k s ((b @ char_bytes x @ text_bytes sg) @ text_bytes ds)) (ScanDecimalDigits ?v)"
    by (rule ScanDecimalDigits_reads [OF r2 e(4) follows_mono [OF assms(3)]]) (rule number_follow_facts)
  moreover have "c0 u = 101 \<or> c0 u = 69" using reads_Cons(1) [OF r] e(2) by simp
  ultimately show ?thesis using e(1) by (simp add: number_exponent_def Let_def)
qed

lemma fraction_reads:
  assumes "reads s (f @ ys) (literal_of k s b) u" "fraction f" "follows (\<lambda>c. \<not> IsDecimalDigit c) ys"
    "f = [] \<Longrightarrow> follows (\<lambda>c. c \<noteq> chr (CHR ''.'')) ys"
  shows "reads s ys (literal_of k s (b @ text_bytes f))
    (if c0 u = chr (CHR ''.'') then ScanDecimalDigits (AddLiteralCharAdvance u) else u)"
proof (cases "f = []")
  case True
  then have "c0 u \<noteq> chr (CHR ''.'')"
    using reads_follows [of s ys _ u "\<lambda>c. c \<noteq> chr (CHR ''.'')"] assms by simp
  then show ?thesis using True assms(1) by simp
next
  case False
  then obtain ds where f: "f = chr (CHR ''.'') # ds" "digits ds" using assms(2) by (auto simp: fraction_def)
  have r: "reads s (chr (CHR ''.'') # ds @ ys) (literal_of k s b) u" using assms(1) f(1) by simp
  then have c: "c0 u = chr (CHR ''.'')" by (rule reads_Cons)
  have "reads s (ds @ ys) (literal_of k s (b @ char_bytes (chr (CHR ''.'')))) (AddLiteralCharAdvance u)"
    using reads_AddLiteralCharAdvance [OF r] by simp
  from ScanDecimalDigits_reads [OF this f(2) assms(3)] show ?thesis using c f(1) by simp
qed

definition integer_part :: "int list \<Rightarrow> bool" where
  "integer_part i \<longleftrightarrow> i = [chr (CHR ''0'')] \<or> i \<noteq> [] \<and> hd i \<noteq> chr (CHR ''0'') \<and> digits i"

lemma integer_reads:
  assumes "reads s (i @ ys) (literal_of k s b) u" "integer_part i"
    "follows (\<lambda>c. \<not> IsDecimalDigit c) ys" "follows (\<lambda>c. c \<noteq> 120 \<and> c \<noteq> 88 \<and> \<not> decimal_digit c) ys"
  obtains t where "reads s ys (literal_of k s (b @ text_bytes i)) (ScanDecimalDigits t)"
    "(if c0 u = chr (CHR ''0'') then number_after_zero (AddLiteralCharAdvance u) else (Some DECIMAL, u)) = (Some DECIMAL, t)"
proof (cases "i = [chr (CHR ''0'')]")
  case True
  have r: "reads s (chr (CHR ''0'') # ys) (literal_of k s b) u" using assms(1) True by simp
  let ?t = "AddLiteralCharAdvance u"
  have t: "reads s ys (literal_of k s (b @ text_bytes i)) ?t"
    using reads_AddLiteralCharAdvance [OF r] True by simp
  have "c0 ?t \<noteq> 120 \<and> c0 ?t \<noteq> 88 \<and> \<not> decimal_digit (c0 ?t)"
    using reads_follows [OF t assms(4)] by (simp add: decimal_digit_def)
  then have "number_after_zero ?t = (Some DECIMAL, ?t)"
    by (auto simp: number_after_zero_def decimal_digit_def)
  moreover have "reads s ys (literal_of k s ((b @ text_bytes i) @ text_bytes [])) (ScanDecimalDigits ?t)"
    by (rule ScanDecimalDigits_reads [OF _ _ assms(3)]) (simp_all add: t digits_def)
  ultimately show thesis using that [of ?t] reads_Cons(1) [OF r] by simp
next
  case False
  then obtain c cs where i: "i = c # cs" "c \<noteq> 48" "digits i"
    using assms(2) by (cases i) (auto simp: integer_part_def)
  then have "c0 u = c" using reads_Cons(1) [of s c "cs @ ys" _ u] assms(1) by simp
  then show thesis using that [of u] i(2) ScanDecimalDigits_reads [OF assms(1) i(3) assms(3)] by simp
qed

text \<open>What follows a number: no digit and no identifier, and no period that would continue it.\<close>

definition after_number :: "int list \<Rightarrow> int list \<Rightarrow> bool" where
  "after_number fe xs \<longleftrightarrow> follows number_follow xs \<and> (fe = [] \<longrightarrow> follows (\<lambda>c. c \<noteq> chr (CHR ''.'')) xs)"

lemma number_integer_reads:
  assumes "reads s (i @ f @ e @ xs) (literal_of k s b) u" "integer_part i" "fraction f" "exponent e"
    "after_number (f @ e) xs"
  shows "\<exists>v. number_integer False u = (Some DECIMAL, v) \<and>
    reads s (e @ xs) (literal_of k s (b @ text_bytes (i @ f))) v"
proof -
  have x: "follows number_follow xs" using assms(5) by (simp add: after_number_def)
  note ahead = no_digit_ahead [OF x assms(4,3)]
  have dot: "follows (\<lambda>c. c \<noteq> chr (CHR ''.'')) (e @ xs)" if "f = []"
    by (rule follows_part) (use assms(4,5) that in \<open>auto simp: after_number_def exponent_def\<close>)
  obtain t where t: "reads s (f @ e @ xs) (literal_of k s (b @ text_bytes i)) (ScanDecimalDigits t)"
      "(if c0 u = chr (CHR ''0'') then number_after_zero (AddLiteralCharAdvance u) else (Some DECIMAL, u)) = (Some DECIMAL, t)"
    using integer_reads [OF assms(1,2) ahead(3,4)] .
  show ?thesis using fraction_reads [OF t(1) assms(3) ahead(2) dot] t(2)
    by (simp add: number_integer_def Let_def)
qed

lemma number_body_reads:
  assumes "number_integer p u = (Some DECIMAL, v)" "reads s (e @ xs) (literal_of k s b) v" "exponent e"
    "follows number_follow xs"
  shows "\<exists>w. number_body p u = (NUMBER, True, w) \<and> literal_end s xs (literal_of k s (b @ text_bytes e @ [0])) w"
proof -
  obtain w where w: "number_exponent DECIMAL v = (True, w)" "reads s xs (literal_of k s (b @ text_bytes e)) w"
    using number_exponent_reads [OF assms(2-4)] by blast
  have "number_follow (c0 w)" using reads_follows [OF w(2) assms(4)] by simp
  then show ?thesis using assms(1) w(1) literal_end_Terminate [OF w(2)]
    by (simp add: number_body_def number_follow_def)
qed

lemma ScanNumber_reads:
  assumes "reads s (i @ f @ e @ xs) None u" "integer_part i" "fraction f" "exponent e" "after_number (f @ e) xs"
  shows "\<exists>v. ScanNumber False u = (NUMBER, v) \<and>
    literal_end s xs (literal_of kLiteralNumber s (text_bytes (i @ f @ e) @ [0])) v"
  unfolding ScanNumber_def
proof (rule scope_reads [OF assms(1)])
  fix t assume "reads s (i @ f @ e @ xs) (literal_of kLiteralNumber s []) t"
  then obtain v where "number_integer False t = (Some DECIMAL, v)"
      "reads s (e @ xs) (literal_of kLiteralNumber s (text_bytes (i @ f))) v"
    using number_integer_reads [OF _ assms(2-5)] by fastforce
  from number_body_reads [OF this assms(4)] assms(5)
  show "\<exists>v. number_body False t = (NUMBER, True, v) \<and>
      literal_end s xs (literal_of kLiteralNumber s (text_bytes (i @ f @ e) @ [0])) v"
    by (simp add: after_number_def)
qed

lemma ScanNumber_period_reads:
  assumes "reads s (ds @ e @ xs) None u" "digits ds" "exponent e" "follows number_follow xs"
  shows "\<exists>v. ScanNumber True u = (NUMBER, v) \<and>
    literal_end s xs (literal_of kLiteralNumber s (text_bytes (chr (CHR ''.'') # ds @ e) @ [0])) v"
  unfolding ScanNumber_def
proof (rule scope_reads [OF assms(1)])
  fix t assume t: "reads s (ds @ e @ xs) (literal_of kLiteralNumber s []) t"
  have "reads s (ds @ e @ xs) (literal_of kLiteralNumber s (char_bytes (chr (CHR ''.'')))) (AddLiteralChar (chr (CHR ''.'')) t)"
    using reads_literal(2) [OF t] by simp
  from ScanDecimalDigits_reads [OF this assms(2) no_digit_ahead(2) [OF assms(4,3), of "[]"]]
  have "reads s (e @ xs) (literal_of kLiteralNumber s (text_bytes (chr (CHR ''.'') # ds)))
      (ScanDecimalDigits (AddLiteralChar (chr (CHR ''.'')) t))"
    by (simp add: fraction_def)
  from number_body_reads [OF _ this assms(3,4), of True t]
  show "\<exists>v. number_body True t = (NUMBER, True, v) \<and>
      literal_end s xs (literal_of kLiteralNumber s (text_bytes (chr (CHR ''.'') # ds @ e) @ [0])) v"
    by (simp add: number_integer_def)
qed

section \<open>Punctuators\<close>

definition punctuators :: "Token list" where
  "punctuators = [LPAREN, RPAREN, LBRACK, RBRACK, LBRACE, RBRACE, COLON, SEMICOLON, PERIOD, CONDITIONAL, INC, DEC,
     ASSIGN, ASSIGN_BIT_OR, ASSIGN_BIT_XOR, ASSIGN_BIT_AND, ASSIGN_SHL, ASSIGN_SAR, ASSIGN_SHR, ASSIGN_ADD,
     ASSIGN_SUB, ASSIGN_MUL, ASSIGN_DIV, ASSIGN_MOD, COMMA, OR_TOK, AND_TOK, BIT_OR, BIT_XOR, BIT_AND, SHL, SAR,
     SHR, ADD, SUB, MUL, DIV, MOD, EQ, NE, EQ_STRICT, NE_STRICT, LT, GT, LTE, GTE, NOT_TOK, BIT_NOT]"

text \<open>A character that cannot extend a punctuator.\<close>

definition punctuator_follow :: "Token \<Rightarrow> int \<Rightarrow> bool" where
  "punctuator_follow t c \<longleftrightarrow> c \<notin> {chr (CHR ''=''), chr (CHR ''<''), chr (CHR ''>''), chr (CHR ''!''), chr (CHR ''+''),
     chr (CHR ''-''), chr (CHR ''*''), chr (CHR ''/''), chr (CHR ''&''), chr (CHR ''|'')} \<and> \<not> (t = PERIOD \<and> IsDecimalDigit c)"

definition spelling :: "Token \<Rightarrow> int list" where
  "spelling t = (case Token_String t of Some w \<Rightarrow> map chr w | None \<Rightarrow> [])"

text \<open>The scanner before the characters \<open>w\<close> and the scanner behind them.\<close>

fun chars_at :: "Token \<Rightarrow> int list \<Rightarrow> JsScanner \<Rightarrow> JsScanner \<Rightarrow> bool" where
  "chars_at t [] u v \<longleftrightarrow> v = u \<and> punctuator_follow t (c0 u)"
| "chars_at t (c # w) u v \<longleftrightarrow> c0 u = c \<and> chars_at t w (Advance u) v"

lemma reads_chars:
  "reads s (w @ xs) l u \<Longrightarrow> follows (punctuator_follow t) xs \<Longrightarrow> \<exists>v. chars_at t w u v \<and> reads s xs l v"
proof (induction w arbitrary: u)
  case Nil
  have "punctuator_follow t (-1)" by (simp add: punctuator_follow_def)
  then show ?case using reads_follows [of s xs l u "punctuator_follow t"] Nil by simp
next
  case (Cons c w)
  have "c0 u = c" "reads s (w @ xs) l (Advance u)" using reads_Cons(1,4) Cons.prems(1) by simp_all
  then show ?case using Cons.IH Cons.prems(2) by simp
qed

lemma punctuator_token:
  "t \<in> set punctuators \<Longrightarrow> chars_at t (spelling t) u v \<Longrightarrow> scan_token u = (t, v)"
  unfolding punctuators_def list.set
  by (elim insertE emptyE)
     (simp_all add: spelling_def scan_token_def Let_def Select_def Select_next_def punctuator_follow_def)

section \<open>White space and comments\<close>

text \<open>The text of a comment between its delimiters. The scanner compares a character with a star
after cutting it to eight bits.\<close>

fun comment_text :: "int list \<Rightarrow> bool" where
  "comment_text [] = True"
| "comment_text (c # cs) = (\<not> (c mod 256 = 42 \<and> hd (cs @ [42]) = chr (CHR ''/'')) \<and> comment_text cs)"

text \<open>\<open>blank w xs n\<close>: \<open>w\<close> before \<open>xs\<close> is white space or a comment; \<open>n\<close> tells whether it counts as a
line terminator.\<close>

inductive blank :: "int list \<Rightarrow> int list \<Rightarrow> bool \<Rightarrow> bool" where
  b_space: "c \<in> {chr (CHR '' ''), 9} \<Longrightarrow> blank [c] xs False"
| b_newline: "blank [10] xs True"
| b_line: "list_all (\<lambda>c. \<not> IsLineTerminator c) cs \<Longrightarrow> follows IsLineTerminator xs \<Longrightarrow>
    blank (chr (CHR ''/'') # chr (CHR ''/'') # cs) xs False"
| b_block: "comment_text cs \<Longrightarrow>
    blank (chr (CHR ''/'') # chr (CHR ''*'') # cs @ [chr (CHR ''*''), chr (CHR ''/'')]) xs False"

inductive blanks :: "int list \<Rightarrow> int list \<Rightarrow> bool \<Rightarrow> bool" where
  bs_Nil: "blanks [] xs False"
| bs_Cons: "blank w (ws @ xs) n \<Longrightarrow> blanks ws xs m \<Longrightarrow> blanks (w @ ws) xs (n \<or> m)"

lemma skip_line_reads:
  "reads s (cs @ xs) l u \<Longrightarrow> list_all (\<lambda>c. \<not> IsLineTerminator c) cs \<Longrightarrow> follows IsLineTerminator xs \<Longrightarrow>
   reads s xs l (skip_line u)"
proof (induction cs arbitrary: u)
  case Nil
  then have "\<not> (c0 u \<ge> 0 \<and> \<not> IsLineTerminator (c0 u))"
    using reads_follows [of s xs l u "\<lambda>c. c = -1 \<or> IsLineTerminator c"] by (cases xs) auto
  then have "skip_line u = u" by (subst skip_line.simps) (rule if_not_P)
  then show ?case using Nil by simp
next
  case (Cons c cs)
  have "c0 u = c" "0 \<le> c" "reads s (cs @ xs) l (Advance u)" using reads_Cons(1,2,4) Cons.prems(1) by simp_all
  then show ?case using Cons.IH Cons.prems(2,3) by (subst skip_line.simps) simp
qed

lemma star_byte: "(word_of_int c :: uint8) = 42 \<longleftrightarrow> c mod 256 = 42"
proof -
  have "(word_of_int c :: uint8) = word_of_int 42 \<longleftrightarrow> take_bit 8 c = take_bit 8 42"
    by (rule word_of_int_eq_iff [where 'a = 8, simplified])
  then show ?thesis by (simp add: take_bit_eq_mod)
qed

lemma skip_block_reads:
  "reads s (cs @ [42, 47] @ xs) l u \<Longrightarrow> comment_text cs \<Longrightarrow>
   \<exists>v. skip_block u = (WHITESPACE, v) \<and> reads s (32 # xs) l v"
proof (induction cs arbitrary: u)
  case Nil
  have c: "c0 u = 42" "reads s (47 # xs) l (Advance u)" using reads_Cons(1,4) [of s 42 "47 # xs" l u] Nil(1) by simp_all
  have d: "c0 (Advance u) = 47" using reads_Cons(1) [OF c(2)] .
  have "reads s (32 # xs) l ((Advance u)\<lparr>c0 := 32\<rparr>)" using reads_set_c0 [OF c(2)] by simp
  with c(1) d show ?case by (subst skip_block.simps) (simp add: Let_def)
next
  case (Cons c cs)
  have c: "c0 u = c" "0 \<le> c" "reads s (cs @ [42, 47] @ xs) l (Advance u)"
    using reads_Cons(1,2,4) Cons.prems(1) by simp_all
  have "c0 (Advance u) = hd (cs @ [42])" using reads_c0 [OF c(3)] by (cases cs) simp_all
  then have "skip_block u = skip_block (Advance u)"
    using c(1,2) Cons.prems(2) by (subst skip_block.simps) (auto simp: Let_def star_byte)
  then show ?case using Cons.IH [OF c(3)] Cons.prems(2) by simp
qed

section \<open>Lexemes\<close>

text \<open>
  \<open>lexeme w xs t l\<close>: the characters \<open>w\<close> before \<open>xs\<close> are the token \<open>t\<close>, with the kind and the bytes of
  its literal in \<open>l\<close>.
\<close>

inductive lexeme :: "int list \<Rightarrow> int list \<Rightarrow> Token \<Rightarrow> (nat \<times> uint8 list) option \<Rightarrow> bool" where
  lx_punctuator: "t \<in> set punctuators \<Longrightarrow> follows (punctuator_follow t) xs \<Longrightarrow> lexeme (spelling t) xs t None"
| lx_word: "identifier_name w \<Longrightarrow> no_part xs \<Longrightarrow> lexeme w xs (word_token w) (Some (kLiteralIdentifier, text_bytes w))"
| lx_string: "quote_char q \<Longrightarrow> string_text q body vs \<Longrightarrow>
    lexeme (q # body @ [q]) xs STRING (Some (kLiteralString, text_bytes vs))"
| lx_number: "integer_part i \<Longrightarrow> fraction f \<Longrightarrow> exponent e \<Longrightarrow> after_number (f @ e) xs \<Longrightarrow>
    lexeme (i @ f @ e) xs NUMBER (Some (kLiteralNumber, text_bytes (i @ f @ e)))"
| lx_period: "digits ds \<Longrightarrow> ds \<noteq> [] \<Longrightarrow> exponent e \<Longrightarrow> follows number_follow xs \<Longrightarrow>
    lexeme (chr (CHR ''.'') # ds @ e) xs NUMBER (Some (kLiteralNumber, text_bytes (chr (CHR ''.'') # ds @ e)))"

definition literal_result :: "JsScanner \<Rightarrow> (nat \<times> uint8 list) option \<Rightarrow> uint8 list option" where
  "literal_result s l = (case l of None \<Rightarrow> None | Some (k, b) \<Rightarrow> literal_of k s (b @ [0]))"

lemma identifier_start_no_switch:
  assumes "IdentifierStart_Is c" "0 \<le> c"
  shows "c \<notin> {32, 9, 10, 34, 39, 60, 62, 61, 33, 43, 45, 42, 37, 47, 38, 124, 94, 46, 58, 59, 44, 40, 41, 91, 93,
    123, 125, 63, 126}"
  using assms by (auto simp: identifier_start_ascii)

lemma scan_token_identifier:
  assumes "IdentifierStart_Is (c0 u)" "0 \<le> c0 u"
  shows "scan_token u = ScanIdentifierOrKeyword u"
  using identifier_start_no_switch [OF assms] assms(1) by (simp add: scan_token_def Let_def)

lemma scan_token_digit:
  assumes "decimal_digit (c0 u)"
  shows "scan_token u = ScanNumber False u"
proof -
  have "c0 u \<notin> {32, 9, 10, 34, 39, 60, 62, 61, 33, 43, 45, 42, 37, 47, 38, 124, 94, 46, 58, 59, 44, 40, 41, 91, 93,
    123, 125, 63, 126}" using assms by (auto simp: decimal_digit_def)
  moreover have "\<not> IdentifierStart_Is (c0 u)" "IsDecimalDigit (c0 u)"
    using assms by (auto simp: decimal_digit_def identifier_start_ascii IsDecimalDigit_iff)
  ultimately show ?thesis by (simp add: scan_token_def Let_def)
qed

lemma scan_token_string: "quote_char (c0 u) \<Longrightarrow> scan_token u = ScanString u"
  by (auto simp: scan_token_def quote_char_def Let_def)

lemma scan_token_period:
  "c0 u = chr (CHR ''.'') \<Longrightarrow> IsDecimalDigit (c0 (Advance u)) \<Longrightarrow> scan_token u = ScanNumber True (Advance u)"
  by (simp add: scan_token_def Let_def)

lemma scan_token_end: "c0 u = -1 \<Longrightarrow> scan_token u = (EOS, u)"
  by (simp add: scan_token_def Let_def SkipWhiteSpace_at_end)

text \<open>One turn of the loop of \<open>Scan\<close>, on a lexeme.\<close>

lemma literal_end_none: "reads s xs None u \<Longrightarrow> literal_end s xs (td_literal_chars (next_desc s)) u"
  by (simp add: reads_def literal_end_def)

lemma scan_token_lexeme:
  assumes "lexeme w xs t l" "reads s (w @ xs) None u" "td_literal_chars (next_desc s) = None"
  shows "\<exists>v. scan_token u = (t, v) \<and> literal_end s xs (literal_result s l) v"
  using assms(1,2)
proof cases
  case lx_punctuator
  then obtain v where "chars_at t w u v" "reads s xs None v" using reads_chars assms(2) by blast
  then show ?thesis using punctuator_token lx_punctuator literal_end_none [of s xs v] assms(3)
    by (auto simp: literal_result_def)
next
  case lx_word
  then obtain c cs where w: "w = c # cs" "IdentifierStart_Is c" by (auto simp: identifier_name_def split: list.splits)
  then have "c0 u = c" "0 \<le> c" using reads_Cons(1,2) [of s c "cs @ xs" None u] assms(2) by simp_all
  then have "scan_token u = ScanIdentifierOrKeyword u" using scan_token_identifier w(2) by simp
  then show ?thesis using ScanIdentifierOrKeyword_reads [OF assms(2)] lx_word by (simp add: literal_result_def)
next
  case (lx_string q body vs)
  have r: "reads s (q # body @ q # xs) None u" using assms(2) lx_string(1) by simp
  then have "scan_token u = ScanString u"
    using scan_token_string reads_Cons(1) lx_string(4) by metis
  then show ?thesis using ScanString_reads [OF r lx_string(4,5)] lx_string by (simp add: literal_result_def)
next
  case (lx_number i f e)
  have r: "reads s (i @ f @ e @ xs) None u" using assms(2) lx_number(1) by simp
  obtain c cs where i: "i = c # cs" "decimal_digit c"
    using lx_number(4) by (cases i) (auto simp: integer_part_def digits_def decimal_digit_def)
  then have "scan_token u = ScanNumber False u"
    using scan_token_digit [of u] reads_Cons(1) [of s c "cs @ f @ e @ xs" None u] r by simp
  then show ?thesis using ScanNumber_reads [OF r lx_number(4-7)] lx_number(1-3) by (simp add: literal_result_def)
next
  case (lx_period ds e)
  have r: "reads s (chr (CHR ''.'') # ds @ e @ xs) None u" using assms(2) lx_period(1) by simp
  note c = reads_Cons(1,4) [OF r]
  obtain d ds' where d: "ds = d # ds'" "decimal_digit d" using lx_period(4,5) by (cases ds) (auto simp: digits_def)
  then have "c0 (Advance u) = d" using reads_Cons(1) [of s d "ds' @ e @ xs" None "Advance u"] c(2) by simp
  then have "scan_token u = ScanNumber True (Advance u)"
    using scan_token_period [OF c(1)] d(2) by (simp add: decimal_digit_def IsDecimalDigit_iff)
  then show ?thesis using ScanNumber_period_reads [OF c(2) lx_period(4,6,7)] lx_period(1-3)
    by (simp add: literal_result_def)
qed

section \<open>Scanning\<close>

text \<open>The scanner inside the loop of \<open>Scan\<close>: all but the input, the start of the next token and the
line terminator flag is as at its start.\<close>

definition in_loop :: "JsScanner \<Rightarrow> int list \<Rightarrow> bool \<Rightarrow> JsScanner \<Rightarrow> bool" where
  "in_loop s xs n u \<longleftrightarrow> reads u xs None u \<and> current_desc u = current_desc s \<and>
     td_literal_chars (next_desc u) = None \<and> literal_flags u = literal_flags s \<and>
     eb_raw_data (source u) = eb_raw_data (source s) \<and> eb_end (source u) = eb_end (source s) \<and>
     has_line_terminator_before_next u = n"

lemma input_update [simp]:
  "scan_ok (u\<lparr>has_line_terminator_before_next := n\<rparr>) = scan_ok u"
  "scan_input (u\<lparr>has_line_terminator_before_next := n\<rparr>) = scan_input u"
  "recorded (u\<lparr>has_line_terminator_before_next := n\<rparr>) = recorded u"
  "scan_ok (v\<lparr>next_desc := d\<rparr>) = scan_ok v" "scan_input (v\<lparr>next_desc := d\<rparr>) = scan_input v"
  "recorded (v\<lparr>next_desc := d\<rparr>) = recorded v"
  by (simp_all add: scan_ok_def scan_input_def recorded_def)

lemma in_loop_set_beg_pos: "in_loop s xs n u \<Longrightarrow> in_loop s xs n (set_beg_pos b u)"
  by (simp add: in_loop_def reads_def set_beg_pos_def)

lemma in_loop_reads: "in_loop s xs n u \<Longrightarrow> reads u ys None v \<Longrightarrow> in_loop s ys n v"
  by (simp add: in_loop_def reads_def frame_def more_eqD [of v u])

lemma in_loop_pos: "in_loop s xs n u \<Longrightarrow> source_pos u = eb_end (source s) - int (length xs)"
  using source_pos_input [of u] by (simp add: in_loop_def reads_def)

lemma scan_loop_white:
  "scan_token (set_beg_pos (source_pos u) u) = (WHITESPACE, v) \<Longrightarrow> scan_loop u = scan_loop v"
  by (subst scan_loop.simps) (simp add: Let_def)

lemma scan_loop_space:
  assumes "in_loop s (c # xs) n u" "c \<in> {32, 9, 10}"
  shows "\<exists>v. scan_loop u = scan_loop v \<and> in_loop s xs (n \<or> c = 10) v"
proof -
  let ?u = "set_beg_pos (source_pos u) u"
  have u: "in_loop s (c # xs) n ?u" using in_loop_set_beg_pos [OF assms(1)] .
  then have r: "reads ?u (c # xs) None ?u" by (simp add: in_loop_def)
  note a = in_loop_reads [OF u reads_Cons(4) [OF r]]
  let ?v = "if c = 10 then (Advance ?u)\<lparr>has_line_terminator_before_next := True\<rparr> else Advance ?u"
  have "in_loop s xs True ((Advance ?u)\<lparr>has_line_terminator_before_next := True\<rparr>)"
    using a by (simp add: in_loop_def reads_def)
  with a have v: "in_loop s xs (n \<or> c = 10) ?v" by simp
  have "c0 ?u = c" using reads_Cons(1) [OF r] .
  then have "scan_token ?u = (WHITESPACE, ?v)"
    using assms(2) by (elim insertE emptyE) (simp_all add: scan_token_def Let_def del: set_beg_pos_input)
  then show ?thesis using scan_loop_white v by blast
qed

lemma scan_loop_blank:
  assumes "blank w xs m" "in_loop s (w @ xs) n u"
  shows "\<exists>v. scan_loop u = scan_loop v \<and> in_loop s xs (n \<or> m) v"
  using assms
proof cases
  case (b_space c)
  then show ?thesis using scan_loop_space [of s c xs n u] assms(2) by auto
next
  case b_newline
  then show ?thesis using scan_loop_space [of s 10 xs n u] assms(2) by auto
next
  case (b_line cs)
  let ?u = "set_beg_pos (source_pos u) u"
  have u: "in_loop s (47 # 47 # cs @ xs) n ?u" using in_loop_set_beg_pos assms(2) b_line(1) by simp
  then have r: "reads ?u (47 # 47 # cs @ xs) None ?u" by (simp add: in_loop_def)
  note r2 = reads_Cons(4) [OF r]
  have "scan_token ?u = (WHITESPACE, skip_line (Advance (Advance ?u)))"
    using reads_Cons(1) [OF r] reads_Cons(1) [OF r2] by (simp add: scan_token_def Let_def SkipSingleLineComment_def)
  moreover have "reads ?u xs None (skip_line (Advance (Advance ?u)))"
    using skip_line_reads [OF reads_Cons(4) [OF r2]] b_line by simp
  ultimately show ?thesis using scan_loop_white in_loop_reads [OF u] b_line(2) by fastforce
next
  case (b_block cs)
  let ?u = "set_beg_pos (source_pos u) u"
  have u: "in_loop s (47 # 42 # cs @ [42, 47] @ xs) n ?u" using in_loop_set_beg_pos assms(2) b_block(1) by simp
  then have r: "reads ?u (47 # 42 # cs @ [42, 47] @ xs) None ?u" by (simp add: in_loop_def)
  note r2 = reads_Cons(4) [OF r]
  obtain v where v: "skip_block (Advance (Advance ?u)) = (WHITESPACE, v)" "reads ?u (32 # xs) None v"
    using skip_block_reads [OF reads_Cons(4) [OF r2] b_block(3)] by blast
  have "scan_token ?u = (WHITESPACE, v)"
    using reads_Cons(1) [OF r] reads_Cons(1) [OF r2] v(1) by (simp add: scan_token_def Let_def SkipMultiLineComment_def)
  then have "scan_loop u = scan_loop v" by (rule scan_loop_white)
  then show ?thesis using scan_loop_space [OF in_loop_reads [OF u v(2)]] b_block(2) by auto
qed

lemma scan_loop_blanks:
  "blanks ws xs m \<Longrightarrow> in_loop s (ws @ xs) n u \<Longrightarrow> \<exists>v. scan_loop u = scan_loop v \<and> in_loop s xs (n \<or> m) v"
proof (induction arbitrary: n u rule: blanks.induct)
  case (bs_Cons w ws xs n' m)
  from bs_Cons.prems have "in_loop s (w @ ws @ xs) n u" by simp
  from scan_loop_blank [OF bs_Cons(1) this] obtain v where "scan_loop u = scan_loop v"
      "in_loop s (ws @ xs) (n \<or> n') v" by blast
  then show ?case using bs_Cons.IH [of "n \<or> n'" v] by (auto simp: disj_assoc)
qed auto

text \<open>What one token of the text leaves in the description of the next token.\<close>

definition token_desc :: "Token \<Rightarrow> int \<Rightarrow> int \<Rightarrow> uint8 list option \<Rightarrow> TokenDesc" where
  "token_desc t b e l = \<lparr>td_token = t, td_beg_pos = b, td_end_pos = e, td_literal_chars = l\<rparr>"

definition ready :: "JsScanner \<Rightarrow> int list \<Rightarrow> bool" where
  "ready s xs \<longleftrightarrow> scan_ok s \<and> scan_input s = xs \<and> recorded s = None"

lemma in_loop_start: "ready s xs \<Longrightarrow>
    in_loop s xs (has_line_terminator_before_next s) (s\<lparr>next_desc := (next_desc s)\<lparr>td_literal_chars := None\<rparr>\<rparr>)"
  by (simp add: ready_def in_loop_def reads_def)

lemma scan_loop_token:
  assumes "scan_token (set_beg_pos (source_pos u) u) = (t, v)" "t \<noteq> WHITESPACE"
  shows "scan_loop u = (t, v)"
  using assms by (subst scan_loop.simps) (simp add: Let_def)

lemma word_token_not_white: "word_token w \<noteq> WHITESPACE" "word_token w \<noteq> EOS"
  using keyword_token_cases [of "map word_of_int w"] by (auto simp: word_token_def)

lemma scan_loop_lexeme:
  assumes "in_loop s (w @ xs) n u" "lexeme w xs t l"
  shows "\<exists>v. scan_loop u = (t, v) \<and> in_loop s xs n (v\<lparr>next_desc := (next_desc v)\<lparr>td_literal_chars := None\<rparr>\<rparr>) \<and>
    td_beg_pos (next_desc v) = eb_end (source s) - int (length (w @ xs)) \<and>
    td_literal_chars (next_desc v) = literal_result s l"
proof -
  let ?u = "set_beg_pos (source_pos u) u"
  have i: "in_loop s (w @ xs) n ?u" using in_loop_set_beg_pos [OF assms(1)] .
  obtain v where v: "scan_token ?u = (t, v)" "literal_end ?u xs (literal_result ?u l) v"
    using scan_token_lexeme [OF assms(2), of ?u ?u] i by (auto simp: in_loop_def)
  have "t \<noteq> WHITESPACE"
    using assms(2) word_token_not_white by cases (auto simp: punctuators_def)
  then have "scan_loop u = (t, v)" by (rule scan_loop_token [OF v(1)])
  moreover have "literal_result ?u l = literal_result s l"
    using i by (simp add: literal_result_def literal_of_def RecordsLiteral_def in_loop_def split: option.split)
  moreover have "td_beg_pos (next_desc ?u) = eb_end (source s) - int (length (w @ xs))"
    using in_loop_pos [OF assms(1)] by (simp add: set_beg_pos_def)
  ultimately show ?thesis using v(2) i
    by (simp add: literal_end_def in_loop_def reads_def frame_def more_eqD [of v ?u])
qed

lemma Scan_lexeme:
  assumes "ready s (ws @ w @ xs)" "blanks ws (w @ xs) n" "lexeme w xs t l"
  shows "ready (Scan s) xs \<and> current_desc (Scan s) = current_desc s \<and>
    next_desc (Scan s) = token_desc t (eb_end (source s) - int (length (w @ xs)))
      (eb_end (source s) - int (length xs)) (literal_result s l) \<and>
    has_line_terminator_before_next (Scan s) = (has_line_terminator_before_next s \<or> n) \<and>
    literal_flags (Scan s) = literal_flags s \<and> eb_end (source (Scan s)) = eb_end (source s)"
proof -
  let ?s = "s\<lparr>next_desc := (next_desc s)\<lparr>td_literal_chars := None\<rparr>\<rparr>"
  obtain u where u: "scan_loop ?s = scan_loop u" "in_loop s (w @ xs) (has_line_terminator_before_next s \<or> n) u"
    using scan_loop_blanks [OF assms(2) in_loop_start [OF assms(1)]] by blast
  obtain v where v: "scan_loop u = (t, v)"
      "in_loop s xs (has_line_terminator_before_next s \<or> n) (v\<lparr>next_desc := (next_desc v)\<lparr>td_literal_chars := None\<rparr>\<rparr>)"
      "td_beg_pos (next_desc v) = eb_end (source s) - int (length (w @ xs))"
      "td_literal_chars (next_desc v) = literal_result s l"
    using scan_loop_lexeme [OF u(2) assms(3)] by blast
  have "Scan s = v\<lparr>next_desc := (next_desc v)\<lparr>td_end_pos := source_pos v, td_token := t\<rparr>\<rparr>"
    using u(1) v(1) by (simp add: Scan_def)
  then show ?thesis using v(2-4) in_loop_pos [OF v(2)]
    by (simp add: ready_def in_loop_def reads_def token_desc_def source_pos_def)
qed

lemma Scan_end:
  assumes "ready s ws" "blanks ws [] n"
  shows "ready (Scan s) [] \<and> current_desc (Scan s) = current_desc s \<and>
    next_desc (Scan s) = token_desc EOS (eb_end (source s)) (eb_end (source s)) None \<and>
    has_line_terminator_before_next (Scan s) = (has_line_terminator_before_next s \<or> n) \<and>
    literal_flags (Scan s) = literal_flags s \<and> eb_end (source (Scan s)) = eb_end (source s)"
proof -
  let ?s = "s\<lparr>next_desc := (next_desc s)\<lparr>td_literal_chars := None\<rparr>\<rparr>"
  have "in_loop s (ws @ []) (has_line_terminator_before_next s) ?s" using in_loop_start [OF assms(1)] by simp
  from scan_loop_blanks [OF assms(2) this] obtain u where u: "scan_loop ?s = scan_loop u"
      "in_loop s [] (has_line_terminator_before_next s \<or> n) u" by auto
  let ?u = "set_beg_pos (source_pos u) u"
  have i: "in_loop s [] (has_line_terminator_before_next s \<or> n) ?u" using in_loop_set_beg_pos [OF u(2)] .
  then have "c0 ?u = -1" unfolding in_loop_def by (blast intro: reads_Nil)
  then have "scan_loop u = (EOS, ?u)" by (intro scan_loop_token scan_token_end) simp_all
  then have "Scan s = ?u\<lparr>next_desc := (next_desc ?u)\<lparr>td_end_pos := source_pos ?u, td_token := EOS\<rparr>\<rparr>"
    using u(1) by (simp add: Scan_def)
  then show ?thesis using i in_loop_pos [OF u(2)]
    by (simp add: ready_def in_loop_def reads_def token_desc_def set_beg_pos_def source_pos_def)
qed

section \<open>A whole text\<close>

text \<open>The lexical analysis of a text that ends at position \<open>E\<close>: for every token its start and end, its
literal and whether a line terminator comes before it.\<close>

inductive lexes :: "int \<Rightarrow> int list \<Rightarrow> (Token \<times> int \<times> int \<times> (nat \<times> uint8 list) option \<times> bool) list \<Rightarrow> bool"
  for E :: int where
  ls_end: "blanks ws [] n \<Longrightarrow> lexes E ws [(EOS, E, E, None, n)]"
| ls_token: "blanks ws (w @ xs) n \<Longrightarrow> lexeme w xs t l \<Longrightarrow> lexes E xs ts \<Longrightarrow>
    lexes E (ws @ w @ xs) ((t, E - int (length (w @ xs)), E - int (length xs), l, n) # ts)"

primrec Next_n :: "nat \<Rightarrow> JsScanner \<Rightarrow> (TokenDesc \<times> bool) list \<times> JsScanner" where
  "Next_n 0 s = ([], s)"
| "Next_n (Suc n) s =
     (let s' = snd (Next s); r = Next_n n s'
      in ((next_desc s', has_line_terminator_before_next s') # fst r, snd r))"

definition desc_of :: "JsScanner \<Rightarrow> Token \<times> int \<times> int \<times> (nat \<times> uint8 list) option \<times> bool \<Rightarrow> TokenDesc \<times> bool" where
  "desc_of s d = (case d of (t, b, e, l, n) \<Rightarrow> (token_desc t b e (literal_result s l), n))"

lemma ready_current [simp]: "ready (s\<lparr>current_desc := d, has_line_terminator_before_next := n\<rparr>) xs = ready s xs"
  by (simp add: ready_def scan_ok_def scan_input_def recorded_def)

lemma literal_result_cong: "literal_flags s = literal_flags u \<Longrightarrow> literal_result s = literal_result u"
  by (simp add: fun_eq_iff literal_result_def literal_of_def RecordsLiteral_def split: option.split)

lemma desc_of_cong: "literal_flags s = literal_flags u \<Longrightarrow> desc_of s = desc_of u"
  using literal_result_cong [of s u] by (simp add: fun_eq_iff desc_of_def)

lemma Next_n_lexes:
  assumes "lexes E xs ts"
  shows "ready s xs \<Longrightarrow> eb_end (source s) = E \<Longrightarrow> fst (Next_n (length ts) s) = map (desc_of s) ts"
  using assms
proof (induction arbitrary: s rule: lexes.induct)
  case (ls_end ws n)
  let ?s = "s\<lparr>current_desc := next_desc s, has_line_terminator_before_next := False\<rparr>"
  have "snd (Next s) = Scan ?s" by (simp add: Next_def Let_def)
  then show ?case using Scan_end [of ?s ws n] ls_end by (simp add: desc_of_def literal_result_def)
next
  case (ls_token ws w xs n t l ts)
  let ?s = "s\<lparr>current_desc := next_desc s, has_line_terminator_before_next := False\<rparr>"
  have eq: "snd (Next s) = Scan ?s" by (simp add: Next_def Let_def)
  have "ready ?s (ws @ w @ xs)" using ls_token.prems by simp
  note r = Scan_lexeme [OF this ls_token(1,2)]
  have "desc_of (Scan ?s) = desc_of s" using r by (intro desc_of_cong) simp
  moreover have "literal_result ?s = literal_result s" by (rule literal_result_cong) simp
  ultimately show ?case using r ls_token.IH [of "Scan ?s"] ls_token.prems
    by (simp add: eq Let_def desc_of_def [of _ "(t, _)"])
qed

end
