(* ===== verification/ScannerProperties.thy ===== *)
theory ScannerProperties
  imports ScannerSpec
begin

text \<open>
  The properties of the JavaScript scanner as its clients see it, from \<open>Initialize\<close> on: the tokens
  of a text are those of the grammar of theory \<open>ScannerSpec\<close>, every text ends, and the end of a
  multi-line comment.
\<close>

section \<open>A new scanner\<close>

definition initial :: "uint16 list \<Rightarrow> nat \<Rightarrow> JsScanner" where
  "initial data flags =
     (Scanner_Init (JsScanner_new\<lparr>
        source := ExternalBuffer_Initialize data 0 (int (length data)) ExternalBuffer_new,
        literal_flags := flags OR kLiteralIdentifier\<rparr>))\<lparr>has_line_terminator_before_next := True\<rparr>"

lemma Initialize_initial:
  "JsScanner_Initialize data 0 (int (length data)) flags = Scan (snd (SkipWhiteSpace (initial data flags)))"
  by (simp add: JsScanner_Initialize_def initial_def Let_def)

lemma initial_fields:
  "eb_end (source (initial data flags)) = int (length data)"
  "has_line_terminator_before_next (initial data flags)" "spos (initial data flags) = 1"
  "c0 (initial data flags) = (case data of [] \<Rightarrow> -1 | c # _ \<Rightarrow> uint c)"
  "eb_raw_data (source (initial data flags)) = data" "recorded (initial data flags) = None"
  "literal_flags (initial data flags) = flags OR kLiteralIdentifier"
  by (cases data; simp add: initial_def Scanner_Init_def Advance_def ExternalBuffer_Advance_def Let_def
      ExternalBuffer_Initialize_def ExternalBuffer_new_def JsScanner_new_def recorded_def LiteralCollector_new_def)+





section \<open>Properties\<close>



section \<open>Every text ends\<close>

lemma scan_loop_progress:
  "-1 \<le> c0 s \<Longrightarrow> moved s (snd (scan_loop s)) \<and>
     (if fst (scan_loop s) = EOS then c0 (snd (scan_loop s)) = -1 else scan_left (snd (scan_loop s)) < scan_left s)"
proof (induction s rule: scan_loop.induct)
  case (1 s)
  let ?u = "set_beg_pos (source_pos s) s"
  let ?r = "scan_token ?u"
  show ?case
  proof (cases "c0 s = -1")
    case True
    then have "scan_loop s = (EOS, ?u)" by (intro scan_loop_token scan_token_end) simp_all
    then show ?thesis using True by (simp add: moved_def)
  next
    case False
    then have "0 \<le> c0 ?u" using "1.prems" by simp
    then have ok: "farther ?u (snd ?r)" "fst ?r \<noteq> EOS" using scan_token_progress by (auto simp: token_ok_def)
    then have less: "moved s (snd ?r)" "scan_left (snd ?r) < scan_left s"
      using farther_scan_left [OF ok(1)] False "1.prems" by (simp_all add: farther_def moved_def)
    have c: "-1 \<le> c0 (snd ?r)" using ok(1) by (simp add: farther_def moved_def)
    show ?thesis
    proof (cases "fst ?r = WHITESPACE")
      case True
      then have "scan_loop s = scan_loop (snd ?r)" by (subst scan_loop.simps) (simp add: Let_def)
      then show ?thesis using "1.IH" [OF refl True c] less moved_trans by (auto split: if_splits)
    next
      case False
      then have "scan_loop s = ?r" by (subst scan_loop.simps) (simp add: Let_def)
      then show ?thesis using ok(2) less by simp
    qed
  qed
qed

lemma Scan_progress:
  assumes "-1 \<le> c0 s"
  shows "-1 \<le> c0 (Scan s)" "c0 s = -1 \<Longrightarrow> td_token (next_desc (Scan s)) = EOS"
    "if td_token (next_desc (Scan s)) = EOS then c0 (Scan s) = -1 else scan_left (Scan s) < scan_left s"
proof -
  let ?s = "s\<lparr>next_desc := (next_desc s)\<lparr>td_literal_chars := None\<rparr>\<rparr>"
  obtain t v where v: "scan_loop ?s = (t, v)" by (cases "scan_loop ?s")
  have m: "moved ?s v" "if t = EOS then c0 v = -1 else scan_left v < scan_left ?s"
    using scan_loop_progress [of ?s] assms v by auto
  have l: "scan_left ?s = scan_left s" "scan_left (Scan s) = scan_left v" "c0 (Scan s) = c0 v"
    "td_token (next_desc (Scan s)) = t"
    by (simp_all add: scan_left_def Scan_def v)
  show "-1 \<le> c0 (Scan s)" using m(1) assms l(3) by (cases "spos ?s = spos v") (auto simp: moved_def)
  show "if td_token (next_desc (Scan s)) = EOS then c0 (Scan s) = -1 else scan_left (Scan s) < scan_left s"
    using m l by (auto split: if_splits)
  show "td_token (next_desc (Scan s)) = EOS" if "c0 s = -1"
  proof -
    have "scan_loop ?s = (EOS, set_beg_pos (source_pos ?s) ?s)"
      using that by (intro scan_loop_token scan_token_end) simp_all
    then show ?thesis using l(4) v by simp
  qed
qed

lemma Next_n_end:
  "-1 \<le> c0 s \<Longrightarrow> c0 s = -1 \<and> 0 < k \<or> scan_left s < k \<Longrightarrow>
   td_token (next_desc (snd (Next_n k s))) = EOS"
proof (induction k arbitrary: s)
  case (Suc k)
  let ?s = "s\<lparr>current_desc := next_desc s, has_line_terminator_before_next := False\<rparr>"
  let ?u = "Scan ?s"
  have n: "Next_n (Suc k) s = ((next_desc ?u, has_line_terminator_before_next ?u) # fst (Next_n k ?u), snd (Next_n k ?u))"
    by (simp add: Next_def Let_def)
  have s: "-1 \<le> c0 ?s" "scan_left ?s = scan_left s" "c0 ?s = c0 s" using Suc.prems by (simp_all add: scan_left_def)
  note p = Scan_progress [OF s(1)]
  have "c0 s = -1" if "scan_left s = 0" using that Suc.prems by (simp add: scan_left_def split: if_splits)
  then consider "k = 0" "c0 s = -1" | "0 < k" "c0 s = -1" | "0 < k" "scan_left s < Suc k" using Suc.prems(2) by fastforce
  then show ?case
  proof cases
    case 1
    then show ?thesis using p(2) s(3) n by simp
  next
    case 2
    then have "c0 ?u = -1" using p(2,3) s(3) by simp
    then show ?thesis using Suc.IH [OF p(1)] 2 n by simp
  next
    case 3
    then have "c0 ?u = -1 \<or> scan_left ?u < k" using p(3) s(2) by (auto split: if_splits)
    then show ?thesis using Suc.IH [OF p(1)] 3 n by auto
  qed
qed simp

text \<open>
  C23. Scanning ends. \<open>Next\<close> always returns, as all its loops are total functions, and on a text of
  \<open>n\<close> characters, whatever they are, every token from the one after the first \<open>n\<close> on is the end of
  the source: no token but the end leaves the scanner where it was.
\<close>

theorem scanner_reaches_end:
  "td_token (next_desc (snd (Next_n (length data + k)
     (JsScanner_Initialize data 0 (int (length data)) flags)))) = EOS"
proof -
  let ?i = "initial data flags" and ?w = "snd (SkipWhiteSpace (initial data flags))"
  have i: "-1 \<le> c0 ?i" "scan_left ?i = length data"
    by (cases data; simp add: initial_fields scan_left_def order_trans [of _ 0])+
  have m: "moved ?i ?w" using SkipWhiteSpace_progress [of ?i] by (auto simp: farther_def split: if_splits)
  have w: "-1 \<le> c0 ?w" "scan_left ?w \<le> length data"
    using m i moved_scan_left [OF m] by (auto simp: moved_def)
  note p = Scan_progress [OF w(1)]
  have "c0 (Scan ?w) = -1 \<or> scan_left (Scan ?w) < length data"
    using p(3) w(2) by (auto split: if_splits)
  moreover have "data = [] \<Longrightarrow> td_token (next_desc (Scan ?w)) = EOS"
    using p(3) w(2) by (auto split: if_splits)
  ultimately show ?thesis
    using Next_n_end [OF p(1), of "length data + k"] unfolding Initialize_initial
    by (cases "length data + k = 0") auto
qed


end
