(* ===== verification/JsonScanner.thy ===== *)
theory JsonScanner
  imports ScannerBase
begin

text \<open>
  \<open>JsonScanner\<close> of src/src/scanner.h and src/src/scanner.cc over the base class of theory
  \<open>ScannerBase\<close>. Its literal scope always records. The loops end because they advance while
  characters are left.
\<close>

type_synonym JsonScanner = Scanner

section \<open>White space and words\<close>

definition json_white :: "int \<Rightarrow> bool" where
  "json_white c \<longleftrightarrow> c = chr (CHR '' '') \<or> c = 10 \<or> c = 13 \<or> c = 9"

function json_skip :: "JsonScanner \<Rightarrow> JsonScanner" where
  "json_skip s = (if json_white (c0 s) then json_skip (Advance s) else s)"
  by pat_completeness auto
termination
  by (relation "measure scan_left") (auto simp: json_white_def intro!: scan_left_Advance_less)

declare json_skip.simps [simp del]

definition SkipJsonWhiteSpace :: "JsonScanner \<Rightarrow> bool \<times> JsonScanner" where
  "SkipJsonWhiteSpace s =
     (let start_position = source_pos s; s' = json_skip s in (source_pos s' \<noteq> start_position, s'))"

text \<open>The loop over the characters of \<open>text\<close>: false when it returns ILLEGAL.\<close>

fun json_text_loop :: "string \<Rightarrow> JsonScanner \<Rightarrow> bool \<times> JsonScanner" where
  "json_text_loop [] s = (True, s)"
| "json_text_loop (c # text) s =
     (if c0 s \<noteq> chr c then (False, s) else json_text_loop text (Advance s))"

definition ScanJsonIdentifier :: "string \<Rightarrow> Token \<Rightarrow> JsonScanner \<Rightarrow> Token \<times> JsonScanner" where
  "ScanJsonIdentifier text token =
     literal_scope True (\<lambda>s.
       case json_text_loop text s of
         (False, s) \<Rightarrow> (ILLEGAL, False, s)
       | (True, s) \<Rightarrow>
           if IdentifierPart_Is (c0 s) then (ILLEGAL, False, s) else (token, True, TerminateLiteral s))"

section \<open>Strings\<close>

text \<open>The four digits of an escape \<open>u\<close>: None when one of them is no hexadecimal digit.\<close>

primrec json_hex :: "nat \<Rightarrow> int \<Rightarrow> JsonScanner \<Rightarrow> int option \<times> JsonScanner" where
  "json_hex 0 x s = (Some x, s)"
| "json_hex (Suc n) x s =
     (let s = Advance s; digit = HexValue (c0 s) in
      if digit < 0 then (None, s) else json_hex n (x * 16 + digit) s)"

text \<open>The \<open>switch\<close> on the character behind a backslash: false when it returns ILLEGAL.\<close>

definition json_escape :: "JsonScanner \<Rightarrow> bool \<times> JsonScanner" where
  "json_escape s =
     (let c = c0 s in
      if c = chr (CHR 0x22) \<or> c = chr (CHR 0x5C) \<or> c = chr (CHR ''/'') then (True, AddLiteralChar c s)
      else if c = chr (CHR ''b'') then (True, AddLiteralChar 8 s)
      else if c = chr (CHR ''f'') then (True, AddLiteralChar 12 s)
      else if c = chr (CHR ''n'') then (True, AddLiteralChar 10 s)
      else if c = chr (CHR ''r'') then (True, AddLiteralChar 13 s)
      else if c = chr (CHR ''t'') then (True, AddLiteralChar 9 s)
      else if c = chr (CHR ''u'') then
        (case json_hex 4 0 s of
           (None, s) \<Rightarrow> (False, s)
         | (Some v, s) \<Rightarrow> (True, AddLiteralChar v s))
      else (False, s))"

lemma moved_json_hex: "moved s (snd (json_hex n x s))"
proof (induction n arbitrary: x s)
  case (Suc n)
  then show ?case using moved_trans [OF moved_Advance Suc.IH] by (simp add: Let_def moved_Advance)
qed simp

lemma moved_json_escape: "moved s (snd (json_escape s))"
  using moved_json_hex [of s 4 0] by (auto simp: json_escape_def Let_def split: prod.split option.split)

text \<open>The loop of \<open>ScanJsonString\<close>: false when it returns ILLEGAL from inside.\<close>

function json_string_loop :: "JsonScanner \<Rightarrow> bool \<times> JsonScanner" where
  "json_string_loop s =
     (if c0 s \<noteq> chr (CHR 0x22) \<and> c0 s > 0 then
        (if c0 s < 0x20 then (False, s)
         else if c0 s \<noteq> chr (CHR 0x5C) then json_string_loop (AddLiteralCharAdvance s)
         else
           (let r = json_escape (Advance s) in
            if fst r then json_string_loop (Advance (snd r)) else r))
      else (True, s))"
  by pat_completeness auto
termination
proof (relation "measure scan_left", goal_cases)
  case (3 s r)
  have "farther s (Advance s)" by (rule farther_Advance)
  also have "moved (Advance s) (snd r)" unfolding 3(4) by (rule moved_json_escape)
  also have "moved (snd r) (Advance (snd r))" by (rule moved_Advance)
  finally have "farther s (Advance (snd r))" .
  then show ?case using 3 by (simp only: in_measure) (rule farther_scan_left, simp_all)
qed (simp_all add: scan_left_AddLiteralCharAdvance_less)

declare json_string_loop.simps [simp del]

definition json_string_body :: "JsonScanner \<Rightarrow> Token \<times> bool \<times> JsonScanner" where
  "json_string_body s =
     (case json_string_loop s of (ok, s) \<Rightarrow>
        if \<not> ok then (ILLEGAL, False, s)
        else if c0 s \<noteq> chr (CHR 0x22) then (ILLEGAL, False, s)
        else (STRING, True, Advance (TerminateLiteral s)))"

definition ScanJsonString :: "JsonScanner \<Rightarrow> Token \<times> JsonScanner" where
  "ScanJsonString s = literal_scope True json_string_body (Advance s)"

section \<open>Numbers\<close>

definition json_digit :: "int \<Rightarrow> bool" where
  "json_digit c \<longleftrightarrow> chr (CHR ''0'') \<le> c \<and> c \<le> chr (CHR ''9'')"

text \<open>The \<open>do\<close> loops: one character at least, then as long as digits follow.\<close>

function json_digits :: "JsonScanner \<Rightarrow> JsonScanner" where
  "json_digits s = (if json_digit (c0 s) then json_digits (AddLiteralCharAdvance s) else s)"
  by pat_completeness auto
termination
  by (relation "measure scan_left")
     (auto simp: json_digit_def intro!: scan_left_AddLiteralCharAdvance_less)

declare json_digits.simps [simp del]

definition json_do_digits :: "JsonScanner \<Rightarrow> JsonScanner" where
  "json_do_digits s = json_digits (AddLiteralCharAdvance s)"

text \<open>The three parts of a number: false when the code returns ILLEGAL.\<close>

definition json_integer :: "JsonScanner \<Rightarrow> bool \<times> JsonScanner" where
  "json_integer s =
     (let s = (if c0 s = chr (CHR ''-'') then AddLiteralCharAdvance s else s) in
      if c0 s = chr (CHR ''0'') then
        (let s = AddLiteralCharAdvance s in (\<not> json_digit (c0 s), s))
      else if c0 s < chr (CHR ''1'') \<or> c0 s > chr (CHR ''9'') then (False, s)
      else (True, json_do_digits s))"

definition json_fraction :: "JsonScanner \<Rightarrow> bool \<times> JsonScanner" where
  "json_fraction s =
     (if c0 s = chr (CHR ''.'') then
        (let s = AddLiteralCharAdvance s in
         if \<not> json_digit (c0 s) then (False, s) else (True, json_do_digits s))
      else (True, s))"

definition json_exponent :: "JsonScanner \<Rightarrow> bool \<times> JsonScanner" where
  "json_exponent s =
     (if AsciiAlphaToLower (c0 s) = chr (CHR ''e'') then
        (let s = AddLiteralCharAdvance s;
             s = (if c0 s = chr (CHR ''-'') \<or> c0 s = chr (CHR ''+'') then AddLiteralCharAdvance s else s)
         in if \<not> json_digit (c0 s) then (False, s) else (True, json_do_digits s))
      else (True, s))"

definition json_number_body :: "JsonScanner \<Rightarrow> Token \<times> bool \<times> JsonScanner" where
  "json_number_body s =
     (case json_integer s of
        (False, s) \<Rightarrow> (ILLEGAL, False, s)
      | (True, s) \<Rightarrow>
          (case json_fraction s of
             (False, s) \<Rightarrow> (ILLEGAL, False, s)
           | (True, s) \<Rightarrow>
               (case json_exponent s of
                  (False, s) \<Rightarrow> (ILLEGAL, False, s)
                | (True, s) \<Rightarrow> (NUMBER, True, TerminateLiteral s))))"

definition ScanJsonNumber :: "JsonScanner \<Rightarrow> Token \<times> JsonScanner" where
  "ScanJsonNumber s = literal_scope True json_number_body s"

section \<open>Scanning\<close>

text \<open>The \<open>switch\<close> of \<open>ScanJson\<close>.\<close>

definition json_token :: "JsonScanner \<Rightarrow> Token \<times> JsonScanner" where
  "json_token s =
     (let c = c0 s in
      if json_white c then (WHITESPACE, Advance s)
      else if c = chr (CHR ''{'') then (LBRACE, Advance s)
      else if c = chr (CHR ''}'') then (RBRACE, Advance s)
      else if c = chr (CHR ''['') then (LBRACK, Advance s)
      else if c = chr (CHR '']'') then (RBRACK, Advance s)
      else if c = chr (CHR '':'') then (COLON, Advance s)
      else if c = chr (CHR '','') then (COMMA, Advance s)
      else if c = chr (CHR 0x22) then ScanJsonString s
      else if c = chr (CHR ''-'') \<or> json_digit c then ScanJsonNumber s
      else if c = chr (CHR ''t'') then ScanJsonIdentifier ''true'' TRUE_LITERAL s
      else if c = chr (CHR ''f'') then ScanJsonIdentifier ''false'' FALSE_LITERAL s
      else if c = chr (CHR ''n'') then ScanJsonIdentifier ''null'' NULL_LITERAL s
      else if c < 0 then (EOS, Advance s)
      else Select ILLEGAL (Advance s))"

definition json_set_beg :: "int \<Rightarrow> JsonScanner \<Rightarrow> JsonScanner" where
  "json_set_beg b s = s\<lparr>next_desc := (next_desc s)\<lparr>td_beg_pos := b\<rparr>\<rparr>"

lemma json_set_beg_input [simp]:
  "source (json_set_beg b s) = source s" "c0 (json_set_beg b s) = c0 s"
  "scan_left (json_set_beg b s) = scan_left s"
  by (simp_all add: json_set_beg_def scan_left_def)

text \<open>A turn that finds white space has seen one of the four characters and advanced over it.\<close>

lemma json_body_token:
  "fst (json_string_body s) \<noteq> WHITESPACE" "fst (json_number_body s) \<noteq> WHITESPACE"
  by (auto simp: json_string_body_def json_number_body_def split: prod.split bool.split)

lemma fst_literal_scope: "fst (literal_scope True body s) = fst (body (StartLiteral s))"
  by (simp add: literal_scope_def split: prod.split)

lemma scope_token:
  "(\<And>s. fst (body s) \<noteq> WHITESPACE) \<Longrightarrow> fst (literal_scope True body s) \<noteq> WHITESPACE"
  by (metis (no_types, lifting) fst_literal_scope)

lemma identifier_scope_token: "token \<noteq> WHITESPACE \<Longrightarrow> fst (ScanJsonIdentifier text token s) \<noteq> WHITESPACE"
  unfolding ScanJsonIdentifier_def by (rule scope_token) (auto split: prod.split bool.split)

lemma json_token_white:
  "fst (json_token s) = WHITESPACE \<longleftrightarrow> json_white (c0 s)"
  using scope_token [of json_string_body "Advance s"] scope_token [of json_number_body s]
    identifier_scope_token [of TRUE_LITERAL "''true''" s]
    identifier_scope_token [of FALSE_LITERAL "''false''" s]
    identifier_scope_token [of NULL_LITERAL "''null''" s]
  by (simp add: json_token_def Let_def Select_def ScanJsonString_def ScanJsonNumber_def json_body_token)

lemma json_token_white_step: "json_white (c0 s) \<Longrightarrow> json_token s = (WHITESPACE, Advance s)"
  by (simp add: json_token_def)

function json_scan_loop :: "JsonScanner \<Rightarrow> Token \<times> JsonScanner" where
  "json_scan_loop s =
     (let r = json_token (json_set_beg (source_pos s) s)
      in if fst r = WHITESPACE then json_scan_loop (snd r) else r)"
  by pat_completeness auto
termination
proof (relation "measure scan_left", goal_cases)
  case (2 s r)
  let ?s = "json_set_beg (source_pos s) s"
  have w: "json_white (c0 ?s)" using 2 json_token_white by blast
  then have "snd r = Advance ?s" using 2(1) json_token_white_step by simp
  moreover have "0 \<le> c0 ?s" using w by (auto simp: json_white_def)
  ultimately show ?case using scan_left_Advance_less [of ?s] by (simp only: in_measure json_set_beg_input)
qed simp

declare json_scan_loop.simps [simp del]

definition ScanJson :: "JsonScanner \<Rightarrow> JsonScanner" where
  "ScanJson s =
     (case json_scan_loop (s\<lparr>next_desc := (next_desc s)\<lparr>td_literal_chars := None\<rparr>\<rparr>) of (token, s) \<Rightarrow>
        s\<lparr>next_desc := (next_desc s)\<lparr>td_end_pos := source_pos s, td_token := token\<rparr>\<rparr>)"

definition JsonScanner_Next :: "JsonScanner \<Rightarrow> Token \<times> JsonScanner" where
  "JsonScanner_Next s = (let s = ScanJson (s\<lparr>current_desc := next_desc s\<rparr>) in (td_token (current_desc s), s))"

definition JsonScanner_new :: JsonScanner where
  "JsonScanner_new = \<lparr>current_desc = TokenDesc_new, next_desc = TokenDesc_new,
     source = ExternalBuffer_new, literal_buffer = LiteralCollector_new, c0 = 0\<rparr>"

definition JsonScanner_Initialize :: "uint16 list \<Rightarrow> JsonScanner" where
  "JsonScanner_Initialize data =
     ScanJson (snd (SkipJsonWhiteSpace (Scanner_Init (JsonScanner_new\<lparr>
        source := ExternalBuffer_Initialize data 0 (int (length data)) ExternalBuffer_new\<rparr>))))"

end
