(* ===== verification/JsonParser.thy ===== *)
theory JsonParser
  imports JsonScanner
begin

text \<open>
  \<open>JsonParser\<close> of src/src/parser.h and src/src/parser.cc. The values it builds on the heap are trees
  here: a number is the text of its literal, which the code gives to \<open>StringToDouble\<close>, a string the
  list of its 16-bit characters, an object the sequence of its property definitions. The check of the
  native stack before the elements of an array or object is a bound on the nesting depth. The
  recursion has fuel; the properties show that the length of the source is always enough.
\<close>

section \<open>State and results\<close>

datatype Json =
  JNull | JTrue | JFalse | JNumber "uint8 list" | JString "uint16 list"
| JObject "(uint16 list \<times> Json) list" | JArray "Json list"

record JsonParser =
  jp_scanner :: JsonScanner
  jp_stack_overflow :: bool

text \<open>\<open>NewStringFromUtf8\<close> on the current literal.\<close>

definition kMaxSupportedChar :: uint32 where "kMaxSupportedChar = 0xFFFF"

definition AllocateStringFromUtf8 :: "uint8 list \<Rightarrow> uint16 list" where
  "AllocateStringFromUtf8 bytes =
     map (\<lambda>r. ucast (if r > kMaxSupportedChar then kBadChar else r)) (Utf8_ReadAll bytes)"

text \<open>The current literal without its end marker.\<close>

definition literal :: "JsonScanner \<Rightarrow> uint8 list" where
  "literal s = (case td_literal_chars (current_desc s) of None \<Rightarrow> [] | Some b \<Rightarrow> butlast b)"

definition GetString :: "JsonParser \<Rightarrow> uint16 list" where
  "GetString p = AllocateStringFromUtf8 (literal (jp_scanner p))"

definition jp_next :: "JsonParser \<Rightarrow> Token \<times> JsonParser" where
  "jp_next p = (case JsonScanner_Next (jp_scanner p) of (t, s) \<Rightarrow> (t, p\<lparr>jp_scanner := s\<rparr>))"

definition jp_peek :: "JsonParser \<Rightarrow> Token" where
  "jp_peek p = td_token (next_desc (jp_scanner p))"

definition jp_current_token :: "JsonParser \<Rightarrow> Token" where
  "jp_current_token p = td_token (current_desc (jp_scanner p))"

section \<open>Values\<close>

text \<open>
  A result None means that the fuel \<open>n\<close> is used up; \<open>Some (None, p)\<close> is the null handle of a
  failed parse. \<open>d\<close> is the nesting depth the stack still allows. \<open>json_members\<close> and
  \<open>json_elements\<close> are the \<open>do\<close> loops with the properties and elements collected so far.
\<close>

fun ParseJsonValue :: "nat \<Rightarrow> nat \<Rightarrow> JsonParser \<Rightarrow> (Json option \<times> JsonParser) option"
and json_members :: "nat \<Rightarrow> nat \<Rightarrow> (uint16 list \<times> Json) list \<Rightarrow> JsonParser \<Rightarrow> (Json option \<times> JsonParser) option"
and json_elements :: "nat \<Rightarrow> nat \<Rightarrow> Json list \<Rightarrow> JsonParser \<Rightarrow> (Json option \<times> JsonParser) option" where
  "ParseJsonValue 0 d p = None"
| "ParseJsonValue (Suc n) d p =
     (let (token, p) = jp_next p in
      if token = STRING then Some (Some (JString (GetString p)), p)
      else if token = NUMBER then Some (Some (JNumber (literal (jp_scanner p))), p)
      else if token = FALSE_LITERAL then Some (Some JFalse, p)
      else if token = TRUE_LITERAL then Some (Some JTrue, p)
      else if token = NULL_LITERAL then Some (Some JNull, p)
      else if token = LBRACE then
        (if jp_peek p = RBRACE then Some (Some (JObject []), snd (jp_next p))
         else if d = 0 then Some (None, p\<lparr>jp_stack_overflow := True\<rparr>)
         else json_members n (d - 1) [] p)
      else if token = LBRACK then
        (if jp_peek p = RBRACK then Some (Some (JArray []), snd (jp_next p))
         else if d = 0 then Some (None, p\<lparr>jp_stack_overflow := True\<rparr>)
         else json_elements n (d - 1) [] p)
      else Some (None, p))"
| "json_members 0 d ms p = None"
| "json_members (Suc n) d ms p =
     (let (token, p) = jp_next p in
      if token \<noteq> STRING then Some (None, p)
      else
        (let key = GetString p; (token, p) = jp_next p in
         if token \<noteq> COLON then Some (None, p)
         else
           (case ParseJsonValue n d p of
              None \<Rightarrow> None
            | Some (None, p) \<Rightarrow> Some (None, p)
            | Some (Some v, p) \<Rightarrow>
                (let (token, p) = jp_next p; ms = ms @ [(key, v)] in
                 if token = COMMA then json_members n d ms p
                 else if jp_current_token p \<noteq> RBRACE then Some (None, p)
                 else Some (Some (JObject ms), p)))))"
| "json_elements 0 d vs p = None"
| "json_elements (Suc n) d vs p =
     (case ParseJsonValue n d p of
        None \<Rightarrow> None
      | Some (None, p) \<Rightarrow> Some (None, p)
      | Some (Some v, p) \<Rightarrow>
          (let (token, p) = jp_next p; vs = vs @ [v] in
           if token = COMMA then json_elements n d vs p
           else if token \<noteq> RBRACK then Some (None, p)
           else Some (Some (JArray vs), p)))"

section \<open>A whole text\<close>

text \<open>The thrown exceptions: the message, its argument and the position of the unexpected token.\<close>

datatype JsonError = StackOverflow | SyntaxError string "string option" int int

definition unexpected_message :: "Token \<Rightarrow> string \<times> string option" where
  "unexpected_message token =
     (if token = EOS then (''unexpected_eos'', None)
      else if token = NUMBER then (''unexpected_token_number'', None)
      else if token = STRING then (''unexpected_token_string'', None)
      else if token = IDENTIFIER then (''unexpected_token_identifier'', None)
      else (''unexpected_token'', Token_String token))"

definition ParseJson :: "nat \<Rightarrow> nat \<Rightarrow> uint16 list \<Rightarrow> (JsonError + Json) option" where
  "ParseJson n d data =
     (let p = \<lparr>jp_scanner = JsonScanner_Initialize data, jp_stack_overflow = False\<rparr> in
      case ParseJsonValue n d p of
        None \<Rightarrow> None
      | Some (result, p) \<Rightarrow>
          (let (failed, p) =
             (case result of None \<Rightarrow> (True, p) | Some v \<Rightarrow> (case jp_next p of (t, p) \<Rightarrow> (t \<noteq> EOS, p)))
           in if failed then
                (if jp_stack_overflow p then Some (Inl StackOverflow)
                 else
                   (let desc = current_desc (jp_scanner p); (message, name_opt) = unexpected_message (td_token desc)
                    in Some (Inl (SyntaxError message name_opt (td_beg_pos desc) (td_end_pos desc)))))
              else Some (Inr (the result))))"

end
