(* ===== verification/JsonLexer.thy ===== *)
theory JsonLexer
  imports JsonScanner ScannerReads AsciiChars
begin

text \<open>
  The lexical grammar of JSON and the proof that \<open>JsonScanner\<close> decides it: a token is scanned
  exactly when the input starts with a lexeme of it.
\<close>

section \<open>Lexemes\<close>

definition json_escape_char :: "int \<Rightarrow> int option" where
  "json_escape_char c =
     (if c = chr (CHR 0x22) \<or> c = chr (CHR 0x5C) \<or> c = chr (CHR ''/'') then Some c
      else if c = chr (CHR ''b'') then Some 8 else if c = chr (CHR ''f'') then Some 12
      else if c = chr (CHR ''n'') then Some 10 else if c = chr (CHR ''r'') then Some 13
      else if c = chr (CHR ''t'') then Some 9 else None)"

definition hex_char :: "int \<Rightarrow> bool" where
  "hex_char h \<longleftrightarrow> chr (CHR ''0'') \<le> h \<and> h \<le> chr (CHR ''9'') \<or> chr (CHR ''A'') \<le> h \<and> h \<le> chr (CHR ''F'') \<or>
     chr (CHR ''a'') \<le> h \<and> h \<le> chr (CHR ''f'')"

definition hex_char_value :: "int \<Rightarrow> int" where
  "hex_char_value h =
     (if h \<le> chr (CHR ''9'') then h - chr (CHR ''0'')
      else if h \<le> chr (CHR ''F'') then h - chr (CHR ''A'') + 10 else h - chr (CHR ''a'') + 10)"

definition json_hex_number :: "int list \<Rightarrow> int" where
  "json_hex_number hs = foldl (\<lambda>x h. x * 16 + hex_char_value h) 0 hs"

text \<open>The text between the quotes of a string and the characters it stands for.\<close>

inductive json_chars :: "int list \<Rightarrow> int list \<Rightarrow> bool" where
  jc_Nil: "json_chars [] []"
| jc_plain: "0x20 \<le> c \<Longrightarrow> c < 65536 \<Longrightarrow> c \<noteq> chr (CHR 0x22) \<Longrightarrow> c \<noteq> chr (CHR 0x5C) \<Longrightarrow> json_chars xs vs \<Longrightarrow>
    json_chars (c # xs) (c # vs)"
| jc_escape: "json_escape_char c = Some v \<Longrightarrow> json_chars xs vs \<Longrightarrow>
    json_chars (chr (CHR 0x5C) # c # xs) (v # vs)"
| jc_hex: "length hs = 4 \<Longrightarrow> list_all hex_char hs \<Longrightarrow> json_chars xs vs \<Longrightarrow>
    json_chars (chr (CHR 0x5C) # chr (CHR ''u'') # hs @ xs) (json_hex_number hs # vs)"

definition json_int_part :: "int list \<Rightarrow> bool" where
  "json_int_part i \<longleftrightarrow> i = [chr (CHR ''0'')] \<or> (i \<noteq> [] \<and> hd i \<noteq> chr (CHR ''0'') \<and> list_all json_digit i)"

definition json_frac_part :: "int list \<Rightarrow> bool" where
  "json_frac_part f \<longleftrightarrow> f = [] \<or> (\<exists>ds. f = chr (CHR ''.'') # ds \<and> ds \<noteq> [] \<and> list_all json_digit ds)"

definition json_exp_part :: "int list \<Rightarrow> bool" where
  "json_exp_part e \<longleftrightarrow> e = [] \<or> (\<exists>x sg ds. e = x # sg @ ds \<and> (x = chr (CHR ''e'') \<or> x = chr (CHR ''E'')) \<and>
     (sg = [] \<or> sg = [chr (CHR ''-'')] \<or> sg = [chr (CHR ''+'')]) \<and> ds \<noteq> [] \<and> list_all json_digit ds)"

definition json_number :: "int list \<Rightarrow> bool" where
  "json_number w \<longleftrightarrow> (\<exists>m i f e. w = m @ i @ f @ e \<and> (m = [] \<or> m = [chr (CHR ''-'')]) \<and>
     json_int_part i \<and> json_frac_part f \<and> json_exp_part e)"

text \<open>The one-character tokens and the words.\<close>

definition json_punctuators :: "(int \<times> Token) list" where
  "json_punctuators = [(chr (CHR ''{''), LBRACE), (chr (CHR ''}''), RBRACE), (chr (CHR ''[''), LBRACK),
     (chr (CHR '']''), RBRACK), (chr (CHR '':''), COLON), (chr (CHR '',''), COMMA)]"

definition json_words :: "(string \<times> Token) list" where
  "json_words = [(''true'', TRUE_LITERAL), (''false'', FALSE_LITERAL), (''null'', NULL_LITERAL)]"

text \<open>\<open>json_lexeme w t l\<close>: \<open>w\<close> is a token \<open>t\<close> with the literal bytes \<open>l\<close>.\<close>

inductive json_lexeme :: "int list \<Rightarrow> Token \<Rightarrow> uint8 list option \<Rightarrow> bool" where
  jl_punctuator: "(c, t) \<in> set json_punctuators \<Longrightarrow> json_lexeme [c] t None"
| jl_word: "(w, t) \<in> set json_words \<Longrightarrow> json_lexeme (map chr w) t (Some [0])"
| jl_string: "json_chars body vs \<Longrightarrow>
    json_lexeme (chr (CHR 0x22) # body @ [chr (CHR 0x22)]) STRING (Some (text_bytes vs @ [0]))"
| jl_number: "json_number w \<Longrightarrow> json_lexeme w NUMBER (Some (text_bytes w @ [0]))"

text \<open>Numbers and words end where a separator or the end of the input follows.\<close>

definition json_end :: "int \<Rightarrow> bool" where
  "json_end c \<longleftrightarrow> json_white c \<or> c = chr (CHR '','') \<or> c = chr (CHR '']'') \<or> c = chr (CHR ''}'')"

definition json_after :: "Token \<Rightarrow> int list \<Rightarrow> bool" where
  "json_after t xs \<longleftrightarrow> t = STRING \<or> t \<in> snd ` set json_punctuators \<or> follows json_end xs"

lemma json_end_facts:
  assumes "json_end c"
  shows "\<not> json_digit c" "c \<noteq> chr (CHR ''.'')" "AsciiAlphaToLower c \<noteq> chr (CHR ''e'')" "\<not> IdentifierPart_Is c"
proof -
  have c: "c \<in> {32, 10, 13, 9, 44, 93, 125}" using assms by (auto simp: json_end_def json_white_def)
  then show "\<not> json_digit c" "c \<noteq> chr (CHR ''.'')" "\<not> IdentifierPart_Is c"
    by (auto simp: json_digit_def identifier_part_ascii identifier_start_ascii)
  show "AsciiAlphaToLower c \<noteq> chr (CHR ''e'')" using c by (elim insertE emptyE) (simp_all add: AsciiAlphaToLower_def)
qed

section \<open>The scopes\<close>

lemma json_scope_reads:
  assumes "reads s xs None u" "\<And>t. reads s xs (Some []) t \<Longrightarrow> \<exists>v. body t = (r, True, v) \<and> Q v"
  shows "\<exists>v. literal_scope True body u = (r, v) \<and> Q v"
proof -
  have "reads s xs (Some []) (StartLiteral u)" using reads_literal(1) [OF assms(1)] .
  then obtain v where "body (StartLiteral u) = (r, True, v)" "Q v" using assms(2) by blast
  then show ?thesis by (simp add: literal_scope_def)
qed

section \<open>Words\<close>

lemma json_text_reads:
  "reads s (map chr w @ xs) l u \<Longrightarrow> \<exists>v. json_text_loop w u = (True, v) \<and> reads s xs l v"
proof (induction w arbitrary: u)
  case (Cons c w)
  then have "c0 u = chr c" "reads s (map chr w @ xs) l (Advance u)"
    using reads_Cons(1,4) [of s "chr c" "map chr w @ xs" l u] by simp_all
  then show ?case using Cons.IH by simp
qed simp

lemma ScanJsonIdentifier_reads:
  assumes "reads s (map chr w @ xs) None u" "follows (\<lambda>c. \<not> IdentifierPart_Is c) xs"
  shows "\<exists>v. ScanJsonIdentifier w t u = (t, v) \<and> literal_end s xs (Some [0]) v"
  unfolding ScanJsonIdentifier_def
proof (rule json_scope_reads [OF assms(1)])
  fix t' assume "reads s (map chr w @ xs) (Some []) t'"
  then obtain v where v: "json_text_loop w t' = (True, v)" "reads s xs (Some []) v" using json_text_reads by blast
  have "\<not> IdentifierPart_Is (c0 v)"
    by (rule reads_follows [OF v(2) assms(2)]) simp
  then show "\<exists>v. (case json_text_loop w t' of
        (True, s) \<Rightarrow> if IdentifierPart_Is (c0 s) then (ILLEGAL, False, s) else (t, True, TerminateLiteral s)
      | (False, s) \<Rightarrow> (ILLEGAL, False, s)) = (t, True, v) \<and> literal_end s xs (Some [0]) v"
    using v literal_end_Terminate [OF v(2)] by simp
qed

section \<open>Strings\<close>

text \<open>\<open>HexValue\<close> decides the hexadecimal digits and gives their values.\<close>

lemma or_32:
  assumes "a OR 32 = (k :: int)"
  shows "a = k \<or> a = k - 32"
proof -
  have b: "bit (32 :: int) n \<longleftrightarrow> n = 5" for n using bit_exp_iff [where 'a = int, of 5 n] by auto
  show ?thesis
  proof (cases "bit a 5")
    case True
    then have "a OR 32 = a" by (intro bit_eqI) (auto simp: bit_or_iff b)
    then show ?thesis using assms by simp
  next
    case False
    then have "a + 32 = a OR 32" by (intro disjunctive_add) (auto simp: b)
    then show ?thesis using assms by simp
  qed
qed

lemma mod_small: "-(2 ^ 31) \<le> a \<Longrightarrow> a < 2 ^ 31 \<Longrightarrow> 0 \<le> k \<Longrightarrow> k < 2 ^ 31 \<Longrightarrow> (a :: int) mod 2 ^ 32 \<le> k \<Longrightarrow> 0 \<le> a"
proof (rule ccontr)
  assume a: "-(2 ^ 31) \<le> a" "a < 2 ^ 31" "k < 2 ^ 31" "a mod 2 ^ 32 \<le> k" "\<not> 0 \<le> a"
  have "a mod 2 ^ 32 = (a + 2 ^ 32) mod 2 ^ 32" by (simp only: mod_add_self2)
  also have "\<dots> = a + 2 ^ 32" using a by (intro mod_pos_pos_trivial) simp_all
  finally show False using a by simp
qed

lemma HexValue_hex_char:
  assumes "hex_char h"
  shows "HexValue h = hex_char_value h" "0 \<le> HexValue h" "hex_char_value h \<le> 15"
proof -
  have "48 \<le> h \<and> h \<le> 57 \<or> 65 \<le> h \<and> h \<le> 70 \<or> 97 \<le> h \<and> h \<le> 102" using assms by (simp add: hex_char_def)
  then have "h = 48 \<or> h = 49 \<or> h = 50 \<or> h = 51 \<or> h = 52 \<or> h = 53 \<or> h = 54 \<or> h = 55 \<or> h = 56 \<or> h = 57 \<or>
      h = 65 \<or> h = 66 \<or> h = 67 \<or> h = 68 \<or> h = 69 \<or> h = 70 \<or>
      h = 97 \<or> h = 98 \<or> h = 99 \<or> h = 100 \<or> h = 101 \<or> h = 102" by presburger
  then show "HexValue h = hex_char_value h" "0 \<le> HexValue h" "hex_char_value h \<le> 15"
    by (elim disjE; simp add: HexValue_def hex_char_value_def Let_def)+
qed

lemma HexValue_nonneg:
  assumes "0 \<le> HexValue h" "0 \<le> h" "h < 65536"
  shows "hex_char h"
proof (cases "(h - 48) mod 2 ^ 32 \<le> 9")
  case True
  then have "0 \<le> h - 48" using assms by (intro mod_small [of "h - 48" 9]) simp_all
  moreover from this have "(h - 48) mod 2 ^ 32 = h - 48" using assms by (intro mod_pos_pos_trivial) simp_all
  ultimately show ?thesis using True by (simp add: hex_char_def)
next
  case False
  obtain v where v: "v = (h - 48) OR 32" by simp
  have e: "HexValue h = (if (v - 49) mod 2 ^ 32 \<le> 5 then v - 49 + 10 else -1)"
    using False by (simp add: HexValue_def Let_def v)
  have m: "(v - 49) mod 2 ^ 32 \<le> 5"
  proof (rule ccontr)
    assume "\<not> (v - 49) mod 2 ^ 32 \<le> 5"
    then have "HexValue h = -1" unfolding e by (rule if_not_P)
    then show False using assms(1) by simp
  qed
  have o: "h - 48 = v \<or> h - 48 = v - 32" by (rule or_32) (simp add: v)
  then have w: "-48 \<le> v" "v < 65536" using assms(2,3) by auto
  then have n: "0 \<le> v - 49" using m by (intro mod_small [of "v - 49" 5]) simp_all
  then have "(v - 49) mod 2 ^ 32 = v - 49" using w by (intro mod_pos_pos_trivial) simp_all
  then have "v - 49 \<le> 5" using m by simp
  then show ?thesis using o n by (auto simp: hex_char_def)
qed

lemma hex_chars_HexValue:
  assumes "list_all hex_char hs"
  shows "list_all (\<lambda>h. 0 \<le> HexValue h) hs"
    "foldl (\<lambda>x h. x * 16 + HexValue h) x hs = foldl (\<lambda>x h. x * 16 + hex_char_value h) x hs"
proof -
  show "list_all (\<lambda>h. 0 \<le> HexValue h) hs" using assms HexValue_hex_char(2) by (auto simp: list_all_iff)
  show "foldl (\<lambda>x h. x * 16 + HexValue h) x hs = foldl (\<lambda>x h. x * 16 + hex_char_value h) x hs"
    using assms by (induction hs arbitrary: x) (simp_all add: HexValue_hex_char(1))
qed

lemma json_hex_reads:
  "reads s (c # hs @ xs) l u \<Longrightarrow> list_all (\<lambda>h. 0 \<le> HexValue h) hs \<Longrightarrow>
   \<exists>v c'. json_hex (length hs) x u = (Some (foldl (\<lambda>x h. x * 16 + HexValue h) x hs), v) \<and> reads s (c' # xs) l v"
proof (induction hs arbitrary: u c x)
  case (Cons h hs)
  have r: "reads s (h # hs @ xs) l (Advance u)" using reads_Cons(4) Cons.prems(1) by fastforce
  then have "c0 (Advance u) = h" by (rule reads_Cons)
  then show ?case using Cons.IH [OF r, of "x * 16 + HexValue h"] Cons.prems(2) by (simp add: Let_def)
qed auto

lemma json_string_step:
  assumes "reads s (chr (CHR 0x5C) # ys) l u"
  shows "json_string_loop u =
    (let r = json_escape (Advance u) in if fst r then json_string_loop (Advance (snd r)) else r)"
  using reads_Cons(1) [OF assms] by (subst json_string_loop.simps) simp

lemma json_string_loop_reads:
  "json_chars body vs \<Longrightarrow> reads s (body @ chr (CHR 0x22) # ys) (Some b) u \<Longrightarrow>
   \<exists>v. json_string_loop u = (True, v) \<and> reads s (chr (CHR 0x22) # ys) (Some (b @ text_bytes vs)) v"
proof (induction arbitrary: b u rule: json_chars.induct)
  case jc_Nil
  then have "json_string_loop u = (True, u)"
    using reads_Cons(1) [of s "chr (CHR 0x22)" ys _ u] by (subst json_string_loop.simps) simp
  then show ?case using jc_Nil by simp
next
  case (jc_plain c xs vs)
  have r: "reads s (c # xs @ chr (CHR 0x22) # ys) (Some b) u" using jc_plain.prems by simp
  have "json_string_loop u = json_string_loop (AddLiteralCharAdvance u)"
    using jc_plain(1-4) reads_Cons(1) [OF r] by (subst json_string_loop.simps) simp
  moreover have "reads s (xs @ chr (CHR 0x22) # ys) (Some (b @ char_bytes c)) (AddLiteralCharAdvance u)"
    using reads_AddLiteralCharAdvance [OF r] by simp
  ultimately show ?case using jc_plain.IH by fastforce
next
  case (jc_escape c v xs vs)
  have r: "reads s (chr (CHR 0x5C) # c # xs @ chr (CHR 0x22) # ys) (Some b) u" using jc_escape.prems by simp
  note r2 = reads_Cons(4) [OF r]
  have e: "json_escape (Advance u) = (True, AddLiteralChar v (Advance u))"
    using jc_escape(1) reads_Cons(1) [OF r2]
    by (auto simp: json_escape_def json_escape_char_def Let_def split: if_splits)
  have "reads s (xs @ chr (CHR 0x22) # ys) (Some (b @ char_bytes v)) (Advance (AddLiteralChar v (Advance u)))"
    using reads_Cons(4) [OF reads_literal(2) [OF r2, of v]] by simp
  then show ?case using jc_escape.IH json_string_step [OF r] e by fastforce
next
  case (jc_hex hs xs vs)
  have r: "reads s (chr (CHR 0x5C) # chr (CHR ''u'') # hs @ xs @ chr (CHR 0x22) # ys) (Some b) u"
    using jc_hex.prems by simp
  note r2 = reads_Cons(4) [OF r]
  obtain v c' where v: "json_hex 4 0 (Advance u) = (Some (json_hex_number hs), v)"
      "reads s (c' # xs @ chr (CHR 0x22) # ys) (Some b) v"
    using json_hex_reads [OF r2 hex_chars_HexValue(1) [OF jc_hex(2)], of 0] jc_hex(1)
      hex_chars_HexValue(2) [OF jc_hex(2)] by (auto simp: json_hex_number_def)
  have e: "json_escape (Advance u) = (True, AddLiteralChar (json_hex_number hs) v)"
    using v(1) reads_Cons(1) [OF r2] by (simp add: json_escape_def Let_def)
  have "reads s (xs @ chr (CHR 0x22) # ys) (Some (b @ char_bytes (json_hex_number hs)))
      (Advance (AddLiteralChar (json_hex_number hs) v))"
    using reads_Cons(4) [OF reads_literal(2) [OF v(2), of "json_hex_number hs"]] by simp
  then show ?case using jc_hex.IH json_string_step [OF r] e by fastforce
qed

lemma ScanJsonString_reads:
  assumes "reads s (chr (CHR 0x22) # body @ chr (CHR 0x22) # ys) None u" "json_chars body vs"
  shows "\<exists>v. ScanJsonString u = (STRING, v) \<and> literal_end s ys (Some (text_bytes vs @ [0])) v"
  unfolding ScanJsonString_def
proof (rule json_scope_reads [OF reads_Cons(4) [OF assms(1)]])
  fix t assume "reads s (body @ chr (CHR 0x22) # ys) (Some []) t"
  then obtain w where w: "json_string_loop t = (True, w)"
      "reads s (chr (CHR 0x22) # ys) (Some (text_bytes vs)) w"
    using json_string_loop_reads [OF assms(2)] by fastforce
  have "literal_end s ys (Some (text_bytes vs @ [0])) (Advance (TerminateLiteral w))"
    using literal_end_Advance [OF literal_end_Terminate [OF w(2)]] by simp
  then show "\<exists>v. json_string_body t = (STRING, True, v) \<and> literal_end s ys (Some (text_bytes vs @ [0])) v"
    using w reads_Cons(1) [OF w(2)] by (simp add: json_string_body_def)
qed

section \<open>Numbers\<close>

lemma json_digits_reads:
  "reads s (ds @ xs) (Some b) u \<Longrightarrow> list_all json_digit ds \<Longrightarrow> follows (\<lambda>c. \<not> json_digit c) xs \<Longrightarrow>
   reads s xs (Some (b @ text_bytes ds)) (json_digits u)"
proof (induction ds arbitrary: u b)
  case Nil
  have "\<not> json_digit (-1)" by (simp add: json_digit_def)
  then have "\<not> json_digit (c0 u)"
    using reads_follows [of s xs "Some b" u "\<lambda>c. \<not> json_digit c"] Nil by simp
  then have "json_digits u = u" by (subst json_digits.simps) simp
  then show ?case using Nil by simp
next
  case (Cons c ds)
  have r: "reads s (c # ds @ xs) (Some b) u" using Cons.prems(1) by simp
  have "json_digits u = json_digits (AddLiteralCharAdvance u)"
    using reads_Cons(1) [OF r] Cons.prems(2) by (subst json_digits.simps) simp
  moreover have "reads s (ds @ xs) (Some (b @ char_bytes c)) (AddLiteralCharAdvance u)"
    using reads_AddLiteralCharAdvance [OF r] by simp
  ultimately show ?case using Cons.IH [of "b @ char_bytes c"] Cons.prems(2,3) by simp
qed

lemma json_do_digits_reads:
  assumes "reads s (c # ds @ xs) (Some b) u" "list_all json_digit ds" "follows (\<lambda>c. \<not> json_digit c) xs"
  shows "reads s xs (Some (b @ text_bytes (c # ds))) (json_do_digits u)"
  using json_digits_reads [of s ds xs "b @ char_bytes c"] reads_AddLiteralCharAdvance [OF assms(1)] assms(2,3)
  by (simp add: json_do_digits_def)

lemma json_integer_reads:
  assumes "reads s (m @ i @ xs) (Some b) u" "m = [] \<or> m = [chr (CHR ''-'')]" "json_int_part i"
    "follows (\<lambda>c. \<not> json_digit c) xs"
  shows "\<exists>v. json_integer u = (True, v) \<and> reads s xs (Some (b @ text_bytes (m @ i))) v"
proof -
  obtain c ds where i: "i = c # ds" using assms(3) by (cases i) (auto simp: json_int_part_def)
  have c: "json_digit c" "c = 48 \<Longrightarrow> ds = []" "list_all json_digit ds"
    using assms(3) i by (auto simp: json_int_part_def json_digit_def)
  let ?u = "if c0 u = chr (CHR ''-'') then AddLiteralCharAdvance u else u"
  have r: "reads s (c # ds @ xs) (Some (b @ text_bytes m)) ?u"
  proof (cases "m = []")
    case True
    then have r: "reads s (c # ds @ xs) (Some b) u" using assms(1) i by simp
    then show ?thesis using True c(1) reads_Cons(1) [OF r] by (simp add: json_digit_def)
  next
    case False
    then have m: "m = [chr (CHR ''-'')]" using assms(2) by simp
    then have r: "reads s (chr (CHR ''-'') # c # ds @ xs) (Some b) u" using assms(1) i by simp
    show ?thesis using reads_AddLiteralCharAdvance [OF r] reads_Cons(1) [OF r] m by simp
  qed
  note c0 = reads_Cons(1) [OF r]
  show ?thesis
  proof (cases "c = 48")
    case True
    then have r': "reads s xs (Some (b @ text_bytes (m @ i))) (AddLiteralCharAdvance ?u)"
      using reads_AddLiteralCharAdvance [OF r] c(2) i by simp
    have "\<not> json_digit (c0 (AddLiteralCharAdvance ?u))"
      by (rule reads_follows [OF r' assms(4)]) (simp add: json_digit_def)
    then show ?thesis using True c0 r' by (simp add: json_integer_def Let_def)
  next
    case False
    then show ?thesis using json_do_digits_reads [OF r c(3) assms(4)] c0 c(1) i
      by (simp add: json_integer_def Let_def json_digit_def)
  qed
qed

lemma json_fraction_reads:
  assumes "reads s (f @ xs) (Some b) u" "json_frac_part f" "follows (\<lambda>c. \<not> json_digit c \<and> c \<noteq> chr (CHR ''.'')) xs"
  shows "\<exists>v. json_fraction u = (True, v) \<and> reads s xs (Some (b @ text_bytes f)) v"
proof (cases "f = []")
  case True
  have "\<not> json_digit (c0 u) \<and> c0 u \<noteq> chr (CHR ''.'')"
    by (rule reads_follows [OF _ assms(3)]) (use assms(1) True in \<open>simp_all add: json_digit_def\<close>)
  then show ?thesis using True assms(1) by (simp add: json_fraction_def)
next
  case False
  then obtain d ds where f: "f = chr (CHR ''.'') # d # ds" "json_digit d" "list_all json_digit ds"
    using assms(2) by (auto simp: json_frac_part_def neq_Nil_conv)
  have r: "reads s (chr (CHR ''.'') # d # ds @ xs) (Some b) u" using assms(1) f(1) by simp
  have r2: "reads s (d # ds @ xs) (Some (b @ char_bytes (chr (CHR ''.'')))) (AddLiteralCharAdvance u)"
    using reads_AddLiteralCharAdvance [OF r] by simp
  have "follows (\<lambda>c. \<not> json_digit c) xs" using assms(3) by (rule follows_mono) simp
  from json_do_digits_reads [OF r2 f(3) this] show ?thesis
    using reads_Cons(1) [OF r] reads_Cons(1) [OF r2] f by (simp add: json_fraction_def Let_def)
qed

lemma json_exponent_reads:
  assumes "reads s (e @ xs) (Some b) u" "json_exp_part e"
    "follows (\<lambda>c. \<not> json_digit c \<and> AsciiAlphaToLower c \<noteq> chr (CHR ''e'')) xs"
  shows "\<exists>v. json_exponent u = (True, v) \<and> reads s xs (Some (b @ text_bytes e)) v"
proof (cases "e = []")
  case True
  have "\<not> json_digit (c0 u) \<and> AsciiAlphaToLower (c0 u) \<noteq> chr (CHR ''e'')"
    by (rule reads_follows [OF _ assms(3)]) (use assms(1) True in \<open>simp_all add: json_digit_def AsciiAlphaToLower_def\<close>)
  then show ?thesis using True assms(1) by (simp add: json_exponent_def)
next
  case False
  then obtain x sg es where es: "e = x # sg @ es" "x = chr (CHR ''e'') \<or> x = chr (CHR ''E'')"
      "sg = [] \<or> sg = [chr (CHR ''-'')] \<or> sg = [chr (CHR ''+'')]" "es \<noteq> []" "list_all json_digit es"
    using assms(2) unfolding json_exp_part_def by blast
  then obtain d ds where "es = d # ds" by (cases es) auto
  with es have e: "e = x # sg @ d # ds" "x = 101 \<or> x = 69" "sg = [] \<or> sg = [45] \<or> sg = [43]"
      "json_digit d" "list_all json_digit ds" by simp_all
  let ?u = "AddLiteralCharAdvance u"
  let ?v = "if c0 ?u = 45 \<or> c0 ?u = 43 then AddLiteralCharAdvance ?u else ?u"
  have r: "reads s (x # sg @ d # ds @ xs) (Some b) u" using assms(1) e(1) by simp
  have r1: "reads s (sg @ d # ds @ xs) (Some (b @ char_bytes x)) ?u"
    using reads_AddLiteralCharAdvance [OF r] by simp
  have r2: "reads s (d # ds @ xs) (Some (b @ char_bytes x @ text_bytes sg)) ?v"
  proof (cases "sg = []")
    case True
    then have r1': "reads s (d # ds @ xs) (Some (b @ char_bytes x)) ?u" using r1 by simp
    then have "?v = ?u" using reads_Cons(1) [OF r1'] e(4) by (auto simp: json_digit_def)
    then show ?thesis using r1' True by simp
  next
    case False
    then obtain g where g: "sg = [g]" "g = 45 \<or> g = 43" using e(3) by auto
    then have r1': "reads s (g # d # ds @ xs) (Some (b @ char_bytes x)) ?u" using r1 by simp
    have "?v = AddLiteralCharAdvance ?u" using reads_Cons(1) [OF r1'] g(2) by simp
    then show ?thesis using reads_AddLiteralCharAdvance [OF r1'] g(1) by simp
  qed
  have "AsciiAlphaToLower x = chr (CHR ''e'')" using e(2) by (auto simp: AsciiAlphaToLower_def)
  moreover have "follows (\<lambda>c. \<not> json_digit c) xs" using assms(3) by (rule follows_mono) simp
  ultimately show ?thesis using reads_Cons(1) [OF r] reads_Cons(1) [OF r2] json_do_digits_reads [OF r2 e(5)] e(1,4)
    by (simp add: json_exponent_def Let_def)
qed

lemma ScanJsonNumber_reads:
  assumes "reads s (w @ xs) None u" "json_number w" "follows json_end xs"
  shows "\<exists>v. ScanJsonNumber u = (NUMBER, v) \<and> literal_end s xs (Some (text_bytes w @ [0])) v"
  unfolding ScanJsonNumber_def
proof (rule json_scope_reads [OF assms(1)])
  fix t assume t: "reads s (w @ xs) (Some []) t"
  obtain m i f e where w: "w = m @ i @ f @ e" "m = [] \<or> m = [chr (CHR ''-'')]"
      "json_int_part i" "json_frac_part f" "json_exp_part e"
    using assms(2) unfolding json_number_def by blast
  have x: "follows (\<lambda>c. \<not> json_digit c \<and> AsciiAlphaToLower c \<noteq> chr (CHR ''e'')) xs"
    "follows (\<lambda>c. \<not> json_digit c \<and> c \<noteq> chr (CHR ''.'')) xs"
    using assms(3) by (rule follows_mono; use json_end_facts in blast)+
  have e: "follows (\<lambda>c. \<not> json_digit c \<and> c \<noteq> chr (CHR ''.'')) (e @ xs)"
    by (rule follows_part, rule x) (use w(5) in \<open>auto simp: json_exp_part_def json_digit_def\<close>)
  then have "follows (\<lambda>c. \<not> json_digit c) (e @ xs)" by (rule follows_mono) simp
  then have f: "follows (\<lambda>c. \<not> json_digit c) (f @ e @ xs)"
    by (rule follows_part) (use w(4) in \<open>auto simp: json_frac_part_def json_digit_def\<close>)
  have "reads s (m @ i @ f @ e @ xs) (Some []) t" using t w(1) by simp
  from json_integer_reads [OF this w(2,3) f] obtain a where a: "json_integer t = (True, a)"
      "reads s (f @ e @ xs) (Some (text_bytes (m @ i))) a" by auto
  from json_fraction_reads [OF a(2) w(4) e] obtain b where b: "json_fraction a = (True, b)"
      "reads s (e @ xs) (Some (text_bytes (m @ i) @ text_bytes f)) b" by blast
  from json_exponent_reads [OF b(2) w(5) x(1)] obtain c where c: "json_exponent b = (True, c)"
      "reads s xs (Some ((text_bytes (m @ i) @ text_bytes f) @ text_bytes e)) c" by blast
  show "\<exists>v. json_number_body t = (NUMBER, True, v) \<and> literal_end s xs (Some (text_bytes w @ [0])) v"
    using a(1) b(1) c(1) literal_end_Terminate [OF c(2)] w(1) by (simp add: json_number_body_def)
qed

section \<open>A token\<close>

lemma literal_end_none': "reads s xs None u \<Longrightarrow> literal_end s xs (td_literal_chars (next_desc s)) u"
  by (simp add: reads_def literal_end_def)

lemma json_number_head:
  assumes "json_number w"
  obtains c cs where "w = c # cs" "c = chr (CHR ''-'') \<or> json_digit c"
proof -
  obtain m i f e where w: "w = m @ i @ f @ e" "m = [] \<or> m = [chr (CHR ''-'')]" "json_int_part i"
    using assms unfolding json_number_def by blast
  obtain d ds where i: "i = d # ds" "json_digit d" using w(3) by (cases i) (auto simp: json_int_part_def json_digit_def)
  show thesis using w(2) that w(1) i by auto
qed

lemma json_token_number: "c0 u = chr (CHR ''-'') \<or> json_digit (c0 u) \<Longrightarrow> json_token u = ScanJsonNumber u"
  by (auto simp: json_token_def json_digit_def json_white_def Let_def)

lemma json_token_punctuator:
  "(c0 u, t) \<in> set json_punctuators \<Longrightarrow> json_token u = (t, Advance u)"
  by (auto simp: json_punctuators_def json_token_def json_white_def)

lemma json_token_word:
  "(w, t) \<in> set json_words \<Longrightarrow> c0 u = chr (hd w) \<Longrightarrow> json_token u = ScanJsonIdentifier w t u"
  by (auto simp: json_words_def json_token_def json_white_def json_digit_def)

lemma json_token_string: "c0 u = chr (CHR 0x22) \<Longrightarrow> json_token u = ScanJsonString u"
  by (simp add: json_token_def json_white_def)

lemma json_words_tokens: "(w, t) \<in> set json_words \<Longrightarrow> t \<noteq> STRING \<and> t \<notin> snd ` set json_punctuators \<and> w \<noteq> []"
  by (auto simp: json_words_def json_punctuators_def)

lemma json_token_lexeme:
  assumes "json_lexeme w t l" "json_after t xs" "reads s (w @ xs) None u" "td_literal_chars (next_desc s) = None"
  shows "\<exists>v. json_token u = (t, v) \<and> literal_end s xs l v"
  using assms(1)
proof cases
  case (jl_punctuator c)
  have r: "reads s (c # xs) None u" using assms(3) jl_punctuator(1) by simp
  show ?thesis
    using json_token_punctuator [of u t] reads_Cons(1) [OF r] literal_end_none' [OF reads_Cons(4) [OF r]]
      jl_punctuator assms(4) by simp
next
  case (jl_word v)
  have "follows json_end xs"
    using assms(2) json_words_tokens [OF jl_word(3)] by (auto simp: json_after_def)
  then have f: "follows (\<lambda>c. \<not> IdentifierPart_Is c) xs" by (rule follows_mono) (rule json_end_facts)
  obtain c cs where v: "v = c # cs" using json_words_tokens [OF jl_word(3)] by (cases v) auto
  then have "c0 u = chr (hd v)"
    using reads_Cons(1) [of s "chr c" "map chr cs @ xs" None u] assms(3) jl_word(1) by simp
  then show ?thesis using json_token_word [OF jl_word(3)] ScanJsonIdentifier_reads [OF _ f] assms(3) jl_word(1,2) by simp
next
  case (jl_string body vs)
  have r: "reads s (chr (CHR 0x22) # body @ chr (CHR 0x22) # xs) None u" using assms(3) jl_string(1) by simp
  show ?thesis using json_token_string [OF reads_Cons(1) [OF r]] ScanJsonString_reads [OF r jl_string(4)] jl_string(2,3)
    by simp
next
  case jl_number
  then have f: "follows json_end xs" using assms(2) by (auto simp: json_after_def json_punctuators_def)
  obtain c cs where w: "w = c # cs" "c = chr (CHR ''-'') \<or> json_digit c" using json_number_head [OF jl_number(3)] .
  then have "json_token u = ScanJsonNumber u"
    using json_token_number [of u] reads_Cons(1) [of s c "cs @ xs" None u] assms(3) by simp
  then show ?thesis using ScanJsonNumber_reads [OF assms(3) jl_number(3) f] jl_number(1,2) by simp
qed

section \<open>Every scanned token is a lexeme\<close>

lemma reads_split:
  assumes "reads s xs l u" "0 \<le> c0 u"
  shows "\<exists>ys. xs = c0 u # ys \<and> reads s ys l (Advance u)"
  using assms reads_Nil [of s l u] reads_Cons(1,4) [of s "hd xs" "tl xs" l u] by (cases xs) auto

lemma reads_split_add:
  assumes "reads s xs (Some b) u" "0 \<le> c0 u"
  shows "\<exists>ys. xs = c0 u # ys \<and> reads s ys (Some (b @ char_bytes (c0 u))) (AddLiteralCharAdvance u)"
  using reads_split [OF assms] assms(1) reads_AddLiteralCharAdvance [of s "c0 u" _ "Some b" u] by auto

lemma chr_nonneg: "0 \<le> chr c"
proof -
  have "chr c = int (of_char c)" by (rule of_nat_of_char [symmetric])
  then show ?thesis by (simp only: of_nat_0_le_iff)
qed

lemma json_text_inv:
  "reads s xs l u \<Longrightarrow> json_text_loop w u = (True, v) \<Longrightarrow> \<exists>ys. xs = map chr w @ ys \<and> reads s ys l v"
proof (induction w arbitrary: u xs)
  case (Cons c w)
  then have "c0 u = chr c" "json_text_loop w (Advance u) = (True, v)" by (auto split: if_splits)
  moreover obtain ys where "xs = c0 u # ys" "reads s ys l (Advance u)"
    using reads_split [OF Cons.prems(1)] \<open>c0 u = chr c\<close> chr_nonneg [of c] by auto
  ultimately show ?case using Cons.IH by fastforce
qed simp

lemma json_digits_inv:
  "reads s xs (Some b) u \<Longrightarrow>
   \<exists>ds ys. xs = ds @ ys \<and> list_all json_digit ds \<and> reads s ys (Some (b @ text_bytes ds)) (json_digits u)"
proof (induction xs arbitrary: b u)
  case Nil
  then have "json_digits u = u" using reads_Nil [of s "Some b" u] by (subst json_digits.simps) (simp add: json_digit_def)
  then show ?case using Nil by simp
next
  case (Cons c xs)
  note r = reads_Cons(1) [OF Cons.prems] reads_AddLiteralCharAdvance [OF Cons.prems]
  show ?case
  proof (cases "json_digit c")
    case True
    then have e: "json_digits u = json_digits (AddLiteralCharAdvance u)" using r(1) by (subst json_digits.simps) simp
    obtain ds ys where "xs = ds @ ys" "list_all json_digit ds"
        "reads s ys (Some ((b @ char_bytes c) @ text_bytes ds)) (json_digits (AddLiteralCharAdvance u))"
      using Cons.IH [of "b @ char_bytes c" "AddLiteralCharAdvance u"] r(2) by auto
    then show ?thesis using True e by (intro exI [of _ "c # ds"] exI [of _ ys]) simp
  next
    case False
    then have "json_digits u = u" using r(1) by (subst json_digits.simps) simp
    then show ?thesis using Cons.prems by (intro exI [of _ "[]"] exI [of _ "c # xs"]) simp
  qed
qed

lemma json_do_digits_inv:
  assumes "reads s xs (Some b) u" "json_digit (c0 u)"
  shows "\<exists>ds ys. xs = c0 u # ds @ ys \<and> list_all json_digit ds \<and>
    reads s ys (Some (b @ text_bytes (c0 u # ds))) (json_do_digits u)"
proof -
  obtain ys where ys: "xs = c0 u # ys" "reads s ys (Some (b @ char_bytes (c0 u))) (AddLiteralCharAdvance u)"
    using reads_split_add [OF assms(1)] assms(2) by (auto simp: json_digit_def)
  show ?thesis using json_digits_inv [OF ys(2)] ys(1) by (auto simp: json_do_digits_def)
qed

lemma json_integer_inv:
  assumes "reads s xs (Some b) u" "json_integer u = (True, v)"
  shows "\<exists>m i ys. xs = m @ i @ ys \<and> (m = [] \<or> m = [chr (CHR ''-'')]) \<and> json_int_part i \<and>
    reads s ys (Some (b @ text_bytes (m @ i))) v"
proof -
  let ?u = "if c0 u = chr (CHR ''-'') then AddLiteralCharAdvance u else u"
  obtain m zs where m: "xs = m @ zs" "m = [] \<or> m = [chr (CHR ''-'')]" "reads s zs (Some (b @ text_bytes m)) ?u"
  proof (cases "c0 u = chr (CHR ''-'')")
    case True
    then show thesis using reads_split_add [OF assms(1)] that [of "[chr (CHR ''-'')]"] by auto
  next
    case False
    then show thesis using that [of "[]" xs] assms(1) by simp
  qed
  have "\<exists>i ys. zs = i @ ys \<and> json_int_part i \<and> reads s ys (Some (b @ text_bytes (m @ i))) v"
  proof (cases "c0 ?u = chr (CHR ''0'')")
    case True
    then have "v = AddLiteralCharAdvance ?u" using assms(2) by (simp add: json_integer_def Let_def)
    moreover obtain ys where "zs = chr (CHR ''0'') # ys" "reads s ys (Some ((b @ text_bytes m) @ char_bytes (chr (CHR ''0'')))) (AddLiteralCharAdvance ?u)"
      using reads_split_add [OF m(3)] True by auto
    ultimately show ?thesis
      by (intro exI [of _ "[chr (CHR ''0'')]"] exI [of _ ys]) (simp add: json_int_part_def)
  next
    case False
    then have d: "json_digit (c0 ?u)" "v = json_do_digits ?u"
      using assms(2) by (auto simp: json_integer_def Let_def json_digit_def split: if_splits)
    obtain ds ys where "zs = c0 ?u # ds @ ys" "list_all json_digit ds"
        "reads s ys (Some ((b @ text_bytes m) @ text_bytes (c0 ?u # ds))) v"
      using json_do_digits_inv [OF m(3) d(1)] d(2) by blast
    then show ?thesis using False d(1)
      by (intro exI [of _ "c0 ?u # ds"] exI [of _ ys]) (simp add: json_int_part_def)
  qed
  then show ?thesis using m by blast
qed

lemma json_fraction_inv:
  assumes "reads s xs (Some b) u" "json_fraction u = (True, v)"
  shows "\<exists>f ys. xs = f @ ys \<and> json_frac_part f \<and> reads s ys (Some (b @ text_bytes f)) v"
proof (cases "c0 u = chr (CHR ''.'')")
  case True
  let ?u = "AddLiteralCharAdvance u"
  obtain zs where z: "xs = chr (CHR ''.'') # zs" "reads s zs (Some (b @ char_bytes (chr (CHR ''.'')))) ?u"
    using reads_split_add [OF assms(1)] True by auto
  have d: "json_digit (c0 ?u)" "v = json_do_digits ?u"
    using assms(2) True by (auto simp: json_fraction_def Let_def split: if_splits)
  obtain ds ys where "zs = c0 ?u # ds @ ys" "list_all json_digit ds"
      "reads s ys (Some ((b @ char_bytes (chr (CHR ''.''))) @ text_bytes (c0 ?u # ds))) v"
    using json_do_digits_inv [OF z(2) d(1)] d(2) by blast
  then show ?thesis using z(1) d(1)
    by (intro exI [of _ "chr (CHR ''.'') # c0 ?u # ds"] exI [of _ ys]) (simp add: json_frac_part_def)
next
  case False
  then show ?thesis using assms by (intro exI [of _ "[]"] exI [of _ xs]) (simp add: json_fraction_def json_frac_part_def)
qed

lemma lower_e:
  assumes "AsciiAlphaToLower c = chr (CHR ''e'')"
  shows "c = chr (CHR ''e'') \<or> c = chr (CHR ''E'')"
  using or_32 [of c 101] assms by (simp add: AsciiAlphaToLower_def)

lemma json_exponent_inv:
  assumes "reads s xs (Some b) u" "json_exponent u = (True, v)"
  shows "\<exists>e ys. xs = e @ ys \<and> json_exp_part e \<and> reads s ys (Some (b @ text_bytes e)) v"
proof (cases "AsciiAlphaToLower (c0 u) = chr (CHR ''e'')")
  case True
  let ?x = "c0 u" and ?u = "AddLiteralCharAdvance u"
  let ?v = "if c0 ?u = chr (CHR ''-'') \<or> c0 ?u = chr (CHR ''+'') then AddLiteralCharAdvance ?u else ?u"
  have x: "?x = chr (CHR ''e'') \<or> ?x = chr (CHR ''E'')" using lower_e [OF True] .
  then obtain zs where z: "xs = ?x # zs" "reads s zs (Some (b @ char_bytes ?x)) ?u"
    using reads_split_add [OF assms(1)] by auto
  obtain sg as where sg: "zs = sg @ as" "sg = [] \<or> sg = [chr (CHR ''-'')] \<or> sg = [chr (CHR ''+'')]"
      "reads s as (Some ((b @ char_bytes ?x) @ text_bytes sg)) ?v"
  proof (cases "c0 ?u = chr (CHR ''-'') \<or> c0 ?u = chr (CHR ''+'')")
    case True
    then show thesis using reads_split_add [OF z(2)] that [of "[c0 ?u]"] by auto
  next
    case False
    then show thesis using that [of "[]" zs] z(2) by simp
  qed
  have d: "json_digit (c0 ?v)" "v = json_do_digits ?v"
    using assms(2) True by (auto simp: json_exponent_def Let_def split: if_splits)
  obtain ds ys where ys: "as = c0 ?v # ds @ ys" "list_all json_digit ds"
      "reads s ys (Some (((b @ char_bytes ?x) @ text_bytes sg) @ text_bytes (c0 ?v # ds))) v"
    using json_do_digits_inv [OF sg(3) d(1)] d(2) by metis
  let ?e = "?x # sg @ c0 ?v # ds"
  have "json_exp_part ?e" using x sg(2) d(1) ys(2) unfolding json_exp_part_def
    by (intro disjI2 exI [of _ ?x] exI [of _ sg] exI [of _ "c0 ?v # ds"]) simp
  then show ?thesis using z(1) sg(1) ys by (intro exI [of _ ?e] exI [of _ ys]) simp
next
  case False
  then show ?thesis using assms by (intro exI [of _ "[]"] exI [of _ xs]) (simp add: json_exponent_def json_exp_part_def)
qed

lemma json_scope_inv:
  assumes "reads s xs None u" "literal_scope True body u = (r, v)"
    "\<And>t w c. reads s xs (Some []) t \<Longrightarrow> body t = (r, c, w) \<Longrightarrow> c \<and> (\<exists>p ys. xs = p @ ys \<and> P p \<and> literal_end s ys (L p) w)"
  shows "\<exists>p ys. xs = p @ ys \<and> P p \<and> literal_end s ys (L p) v"
proof -
  obtain r' c w where b: "body (StartLiteral u) = (r', c, w)" by (cases "body (StartLiteral u)")
  then have "r' = r" "v = (if c then w else DropLiteral w)" using assms(2) by (auto simp: literal_scope_def)
  then show ?thesis using assms(3) [OF reads_literal(1) [OF assms(1)], of c w] b by auto
qed

lemma ScanJsonNumber_inv:
  assumes "reads s xs None u" "ScanJsonNumber u = (NUMBER, v)"
  shows "\<exists>w ys. xs = w @ ys \<and> json_number w \<and> literal_end s ys (Some (text_bytes w @ [0])) v"
  using assms unfolding ScanJsonNumber_def
proof (rule json_scope_inv)
  fix t w c assume t: "reads s xs (Some []) t" and b: "json_number_body t = (NUMBER, c, w)"
  obtain x y z where n: "json_integer t = (True, x)" "json_fraction x = (True, y)" "json_exponent y = (True, z)"
      "c" "w = TerminateLiteral z"
    using b by (auto simp: json_number_body_def split: prod.splits bool.splits)
  obtain m i ys where 1: "xs = m @ i @ ys" "m = [] \<or> m = [chr (CHR ''-'')]" "json_int_part i"
      "reads s ys (Some (text_bytes (m @ i))) x"
    using json_integer_inv [OF t n(1)] by auto
  obtain f zs where 2: "ys = f @ zs" "json_frac_part f" "reads s zs (Some (text_bytes (m @ i) @ text_bytes f)) y"
    using json_fraction_inv [OF 1(4) n(2)] by blast
  obtain e us where 3: "zs = e @ us" "json_exp_part e"
      "reads s us (Some ((text_bytes (m @ i) @ text_bytes f) @ text_bytes e)) z"
    using json_exponent_inv [OF 2(3) n(3)] by blast
  have "json_number (m @ i @ f @ e)" unfolding json_number_def using 1 2 3 by blast
  moreover have "literal_end s us (Some (text_bytes (m @ i @ f @ e) @ [0])) w"
    using literal_end_Terminate [OF 3(3)] n(5) by simp
  ultimately show "c \<and> (\<exists>p ys. xs = p @ ys \<and> json_number p \<and> literal_end s ys (Some (text_bytes p @ [0])) w)"
    using n(4) 1 2 3 by (intro conjI exI [of _ "m @ i @ f @ e"] exI [of _ us]) simp_all
qed

lemma ScanJsonIdentifier_inv:
  assumes "reads s xs None u" "ScanJsonIdentifier w t u = (t, v)" "t \<noteq> ILLEGAL"
  shows "\<exists>ys. xs = map chr w @ ys \<and> literal_end s ys (Some [0]) v"
proof -
  have "\<exists>p ys. xs = p @ ys \<and> p = map chr w \<and> literal_end s ys (Some [0]) v"
    using assms(1,2) unfolding ScanJsonIdentifier_def
  proof (rule json_scope_inv)
    fix a z c assume a: "reads s xs (Some []) a" and b: "(case json_text_loop w a of
        (True, s) \<Rightarrow> if IdentifierPart_Is (c0 s) then (ILLEGAL, False, s) else (t, True, TerminateLiteral s)
      | (False, s) \<Rightarrow> (ILLEGAL, False, s)) = (t, c, z)"
    obtain y where y: "json_text_loop w a = (True, y)" "c" "z = TerminateLiteral y"
      using b assms(3) by (auto split: prod.splits bool.splits if_splits)
    obtain ys where "xs = map chr w @ ys" "reads s ys (Some []) y" using json_text_inv [OF a y(1)] by blast
    then show "c \<and> (\<exists>p ys. xs = p @ ys \<and> p = map chr w \<and> literal_end s ys (Some [0]) z)"
      using literal_end_Terminate [of s ys "Some []" y] y(2,3) by auto
  qed
  then show ?thesis by blast
qed

lemma HexValue_eof: "HexValue (-1) < 0"
  by (simp add: HexValue_def Let_def)

lemma reads_hex_nonneg: "reads s xs l u \<Longrightarrow> 0 \<le> HexValue (c0 u) \<Longrightarrow> 0 \<le> c0 u"
  using reads_c0_range [of s xs l u] HexValue_eof by (cases "c0 u = -1") auto

lemma json_hex_inv:
  "reads s (c # xs) l u \<Longrightarrow> json_hex n x u = (Some y, v) \<Longrightarrow>
   \<exists>hs c' ys. length hs = n \<and> list_all hex_char hs \<and> xs = hs @ ys \<and>
     y = foldl (\<lambda>x h. x * 16 + HexValue h) x hs \<and> reads s (c' # ys) l v"
proof (induction n arbitrary: u c x xs)
  case (Suc n)
  let ?u = "Advance u"
  have h: "0 \<le> HexValue (c0 ?u)" "json_hex n (x * 16 + HexValue (c0 ?u)) ?u = (Some y, v)"
    using Suc.prems(2) by (auto simp: Let_def split: if_splits)
  have r: "reads s xs l ?u" using reads_Cons(4) [OF Suc.prems(1)] .
  obtain ys where ys: "xs = c0 ?u # ys" using reads_split [OF r reads_hex_nonneg [OF r h(1)]] by blast
  then have "reads s (c0 ?u # ys) l ?u" using r by simp
  from Suc.IH [OF this h(2)] obtain hs c' zs where "length hs = n" "list_all hex_char hs" "ys = hs @ zs"
      "y = foldl (\<lambda>x h. x * 16 + HexValue h) (x * 16 + HexValue (c0 ?u)) hs" "reads s (c' # zs) l v" by blast
  moreover have "hex_char (c0 ?u)"
    using HexValue_nonneg [OF h(1) reads_hex_nonneg [OF r h(1)]] reads_c0_range [OF r] by simp
  ultimately show ?case using ys
    by (intro exI [of _ "c0 ?u # hs"] exI [of _ c'] exI [of _ zs]) simp
qed auto

text \<open>One escape of a string: its text, its value and the scanner at its last character.\<close>

lemma json_escape_inv:
  assumes "reads s xs (Some b) u" "json_escape u = (True, v)"
  shows "\<exists>w x c ys. xs = w @ ys \<and> reads s (c # ys) (Some (b @ char_bytes x)) v \<and>
    (\<forall>zs vs. json_chars zs vs \<longrightarrow> json_chars (chr (CHR 0x5C) # w @ zs) (x # vs))"
proof -
  have c0: "0 \<le> c0 u"
    using reads_c0_range [OF assms(1)] assms(2) by (auto simp: json_escape_def Let_def split: if_splits)
  then obtain ys where ys: "xs = c0 u # ys" using reads_split [OF assms(1)] by blast
  then have r: "reads s (c0 u # ys) (Some b) u" using assms(1) by simp
  show ?thesis
  proof (cases "c0 u = chr (CHR ''u'')")
    case True
    obtain x t where x: "json_hex 4 0 u = (Some x, t)" "v = AddLiteralChar x t"
      using assms(2) True by (auto simp: json_escape_def Let_def split: prod.splits option.splits)
    from json_hex_inv [OF r x(1)] obtain hs c' zs where h: "length hs = 4" "list_all hex_char hs"
        "ys = hs @ zs" "x = json_hex_number hs" "reads s (c' # zs) (Some b) t"
      using hex_chars_HexValue(2) by (auto simp: json_hex_number_def)
    have "reads s (c' # zs) (Some (b @ char_bytes x)) v" using reads_literal(2) [OF h(5), of x] x(2) by simp
    then show ?thesis using ys h True jc_hex [OF h(1,2)]
      by (intro exI [of _ "c0 u # hs"] exI [of _ x] exI [of _ c'] exI [of _ zs]) simp
  next
    case False
    then obtain x where x: "json_escape_char (c0 u) = Some x" "v = AddLiteralChar x u"
      using assms(2) by (auto simp: json_escape_def json_escape_char_def Let_def split: if_splits)
    have "reads s (c0 u # ys) (Some (b @ char_bytes x)) v" using reads_literal(2) [OF r, of x] x(2) by simp
    then show ?thesis using ys jc_escape [OF x(1)]
      by (intro exI [of _ "[c0 u]"] exI [of _ x] exI [of _ "c0 u"] exI [of _ ys]) simp
  qed
qed

lemma json_string_loop_inv:
  "reads s xs (Some b) u \<Longrightarrow> json_string_loop u = (True, v) \<Longrightarrow> c0 v = chr (CHR 0x22) \<Longrightarrow>
   \<exists>body vs ys. xs = body @ chr (CHR 0x22) # ys \<and> json_chars body vs \<and>
     reads s (chr (CHR 0x22) # ys) (Some (b @ text_bytes vs)) v"
proof (induction u arbitrary: b xs rule: json_string_loop.induct)
  case (1 u)
  note r = "1.prems"(1)
  show ?case
  proof (cases "c0 u \<noteq> chr (CHR 0x22) \<and> c0 u > 0")
    case False
    then have "v = u" using "1.prems"(2) by (subst (asm) json_string_loop.simps) (simp split: if_splits)
    then obtain ys where "xs = chr (CHR 0x22) # ys" using reads_split [OF r] "1.prems"(3) by auto
    then show ?thesis using r \<open>v = u\<close> jc_Nil by (intro exI [of _ "[]"] exI [of _ ys]) simp
  next
    case True
    have big: "\<not> c0 u < 0x20" using "1.prems"(2) True by (subst (asm) json_string_loop.simps) (simp split: if_splits)
    show ?thesis
    proof (cases "c0 u = chr (CHR 0x5C)")
      case False
      obtain zs where z: "xs = c0 u # zs" "reads s zs (Some (b @ char_bytes (c0 u))) (AddLiteralCharAdvance u)"
        using reads_split_add [OF r] True by auto
      have "json_string_loop (AddLiteralCharAdvance u) = (True, v)"
        using "1.prems"(2) True big False by (subst (asm) json_string_loop.simps) simp
      from "1.IH"(1) [OF True big False z(2) this "1.prems"(3)] obtain body vs ys where
        "zs = body @ chr (CHR 0x22) # ys" "json_chars body vs"
        "reads s (chr (CHR 0x22) # ys) (Some ((b @ char_bytes (c0 u)) @ text_bytes vs)) v" by blast
      then show ?thesis using z(1) jc_plain [of "c0 u"] big True False reads_c0_range [OF r]
        by (intro exI [of _ "c0 u # body"] exI [of _ "c0 u # vs"] exI [of _ ys]) simp
    next
      case slash: True
      let ?r = "json_escape (Advance u)"
      obtain zs where z: "xs = chr (CHR 0x5C) # zs" "reads s zs (Some b) (Advance u)"
        using reads_split [OF r] slash by auto
      have e: "fst ?r" "json_string_loop (Advance (snd ?r)) = (True, v)"
        using "1.prems"(2) True big slash by (subst (asm) json_string_loop.simps; simp add: Let_def split: if_splits)+
      then have "?r = (True, snd ?r)" by (simp add: prod_eq_iff)
      from json_escape_inv [OF z(2) this] obtain w x c ys where w: "zs = w @ ys"
          "reads s (c # ys) (Some (b @ char_bytes x)) (snd ?r)"
          "\<And>zs vs. json_chars zs vs \<Longrightarrow> json_chars (chr (CHR 0x5C) # w @ zs) (x # vs)" by blast
      have ns: "\<not> c0 u \<noteq> chr (CHR 0x5C)" using slash by simp
      from "1.IH"(2) [OF True big ns refl e(1) reads_Cons(4) [OF w(2)] e(2) "1.prems"(3)] obtain body vs us where
        "ys = body @ chr (CHR 0x22) # us" "json_chars body vs"
        "reads s (chr (CHR 0x22) # us) (Some ((b @ char_bytes x) @ text_bytes vs)) v" by blast
      then show ?thesis using z(1) w(1,3)
        by (intro exI [of _ "chr (CHR 0x5C) # w @ body"] exI [of _ "x # vs"] exI [of _ us]) simp
    qed
  qed
qed

lemma ScanJsonString_inv:
  assumes "reads s xs None u" "c0 u = chr (CHR 0x22)" "ScanJsonString u = (STRING, v)"
  shows "\<exists>body vs ys. xs = chr (CHR 0x22) # body @ chr (CHR 0x22) # ys \<and> json_chars body vs \<and>
    literal_end s ys (Some (text_bytes vs @ [0])) v"
proof -
  obtain zs where z: "xs = chr (CHR 0x22) # zs" "reads s zs None (Advance u)"
    using reads_split [OF assms(1)] assms(2) by auto
  obtain r c w where b: "json_string_body (StartLiteral (Advance u)) = (r, c, w)"
    by (cases "json_string_body (StartLiteral (Advance u))")
  then have rv: "r = STRING" "v = (if c then w else DropLiteral w)"
    using assms(3) by (auto simp: ScanJsonString_def literal_scope_def)
  obtain y where y: "json_string_loop (StartLiteral (Advance u)) = (True, y)" "c0 y = chr (CHR 0x22)" "c"
      "w = Advance (TerminateLiteral y)"
    using b rv(1) by (auto simp: json_string_body_def split: prod.splits if_splits)
  obtain body vs ys where s: "zs = body @ chr (CHR 0x22) # ys" "json_chars body vs"
      "reads s (chr (CHR 0x22) # ys) (Some ([] @ text_bytes vs)) y"
    using json_string_loop_inv [OF reads_literal(1) [OF z(2)] y(1,2)] by blast
  have "literal_end s ys (Some (text_bytes vs @ [0])) v"
    using literal_end_Advance [OF literal_end_Terminate [OF s(3)]] rv(2) y(3,4) by simp
  then show ?thesis using s(1,2) z(1) by blast
qed

lemma json_token_other:
  assumes "c0 u \<notin> fst ` set json_punctuators" "c0 u \<notin> (\<lambda>(w, t). chr (hd w)) ` set json_words"
    "c0 u \<noteq> chr (CHR 0x22)" "\<not> (c0 u = chr (CHR ''-'') \<or> json_digit (c0 u))"
  shows "fst (json_token u) \<in> {WHITESPACE, EOS, ILLEGAL}"
proof -
  have c: "c0 u \<noteq> 123 \<and> c0 u \<noteq> 125 \<and> c0 u \<noteq> 91 \<and> c0 u \<noteq> 93 \<and> c0 u \<noteq> 58 \<and> c0 u \<noteq> 44"
    using assms(1) by (simp add: json_punctuators_def)
  have w: "c0 u \<noteq> 116 \<and> c0 u \<noteq> 102 \<and> c0 u \<noteq> 110"
    using assms(2) by (simp add: json_words_def)
  show ?thesis using c w assms(3,4) by (simp add: json_token_def Let_def Select_def)
qed

lemma json_token_inv:
  assumes "reads s xs None u" "json_token u = (t, v)" "t \<noteq> ILLEGAL" "t \<noteq> EOS" "t \<noteq> WHITESPACE"
    "td_literal_chars (next_desc s) = None"
  shows "\<exists>w l ys. xs = w @ ys \<and> json_lexeme w t l \<and> literal_end s ys l v"
proof -
  consider (punctuator) "(c0 u, t) \<in> set json_punctuators" "v = Advance u"
    | (word) w where "(w, t) \<in> set json_words" "ScanJsonIdentifier w t u = (t, v)"
    | (string) "c0 u = chr (CHR 0x22)" "ScanJsonString u = (t, v)"
    | (number) "ScanJsonNumber u = (t, v)"
  proof -
    have w: "x = t" if "ScanJsonIdentifier w x u = (t, v)" for w x
      using that assms(3)
      by (auto simp: ScanJsonIdentifier_def literal_scope_def split: prod.splits bool.splits if_splits)
    consider (p) t' where "(c0 u, t') \<in> set json_punctuators" | (w) w t' where "(w, t') \<in> set json_words" "c0 u = chr (hd w)"
      | (s) "c0 u = chr (CHR 0x22)" | (n) "c0 u = chr (CHR ''-'') \<or> json_digit (c0 u)"
      | (o) "fst (json_token u) \<in> {WHITESPACE, EOS, ILLEGAL}"
      using json_token_other [of u] by force
    then show thesis
    proof cases
      case p
      then show thesis using json_token_punctuator [OF p] punctuator assms(2) by simp
    next
      case w': w
      then show thesis using json_token_word [OF w'] word w assms(2) by metis
    next
      case s
      then show thesis using json_token_string string assms(2) by simp
    next
      case n
      then show thesis using json_token_number number assms(2) by simp
    qed (use assms(2-5) in simp)
  qed
  then show ?thesis
  proof cases
    case punctuator
    then have "0 \<le> c0 u" by (auto simp: json_punctuators_def)
    then obtain ys where ys: "xs = c0 u # ys" "reads s ys None v" using reads_split [OF assms(1)] punctuator(2) by blast
    then show ?thesis using literal_end_none' [OF ys(2)] jl_punctuator [OF punctuator(1)] assms(6)
      by (intro exI [of _ "[c0 u]"] exI [of _ None] exI [of _ ys]) simp
  next
    case (word w)
    then show ?thesis using ScanJsonIdentifier_inv [OF assms(1) word(2) assms(3)] jl_word [OF word(1)] by blast
  next
    case string
    have t: "t = STRING"
      using string(2) assms(3) by (auto simp: ScanJsonString_def literal_scope_def json_string_body_def split: prod.splits if_splits)
    obtain body vs ys where "xs = chr (CHR 0x22) # body @ chr (CHR 0x22) # ys" "json_chars body vs"
        "literal_end s ys (Some (text_bytes vs @ [0])) v"
      using ScanJsonString_inv [OF assms(1) string(1)] string(2) t by blast
    then show ?thesis using jl_string [of body vs] t
      by (intro exI [of _ "chr (CHR 0x22) # body @ [chr (CHR 0x22)]"] exI [of _ "Some (text_bytes vs @ [0])"] exI [of _ ys]) simp
  next
    case number
    have t: "t = NUMBER"
      using number assms(3) by (auto simp: ScanJsonNumber_def literal_scope_def json_number_body_def split: prod.splits bool.splits)
    then show ?thesis using ScanJsonNumber_inv [OF assms(1)] number jl_number by blast
  qed
qed

end
