(* ===== verification/JsonTokens.thy ===== *)
theory JsonTokens
  imports JsonLexer
begin

text \<open>
  The token stream of \<open>JsonScanner\<close>: what \<open>ScanJson\<close> and \<open>Next\<close> do on an input, in both directions.
  \<open>ahead s xs\<close> says that the look-ahead token of \<open>s\<close> is the first one of \<open>xs\<close>.
\<close>

section \<open>One token\<close>

definition json_ready :: "JsonScanner \<Rightarrow> int list \<Rightarrow> bool" where
  "json_ready s xs \<longleftrightarrow> scan_ok s \<and> scan_input s = xs \<and> recorded s = None"

definition json_loop :: "JsonScanner \<Rightarrow> int list \<Rightarrow> JsonScanner \<Rightarrow> bool" where
  "json_loop s xs u \<longleftrightarrow> reads u xs None u \<and> current_desc u = current_desc s \<and> td_literal_chars (next_desc u) = None"

definition json_blank :: "int list \<Rightarrow> bool" where
  "json_blank ws \<longleftrightarrow> list_all json_white ws"

lemma json_blank_simps [simp]:
  "json_blank []" "json_blank (c # ws) = (json_white c \<and> json_blank ws)"
  "json_blank (v @ w) = (json_blank v \<and> json_blank w)"
  by (simp_all add: json_blank_def)

lemma json_update [simp]:
  "scan_ok (u\<lparr>next_desc := d\<rparr>) = scan_ok u" "scan_input (u\<lparr>next_desc := d\<rparr>) = scan_input u"
  "recorded (u\<lparr>next_desc := d\<rparr>) = recorded u"
  "scan_ok (u\<lparr>current_desc := d\<rparr>) = scan_ok u" "scan_input (u\<lparr>current_desc := d\<rparr>) = scan_input u"
  "recorded (u\<lparr>current_desc := d\<rparr>) = recorded u"
  by (simp_all add: scan_ok_def scan_input_def recorded_def)

lemma json_ready_current [simp]: "json_ready (s\<lparr>current_desc := d\<rparr>) xs = json_ready s xs"
  by (simp add: json_ready_def)

lemma json_loop_set_beg: "json_loop s xs u \<Longrightarrow> json_loop s xs (json_set_beg b u)"
  by (simp add: json_loop_def reads_def json_set_beg_def)

lemma json_loop_start:
  "json_ready s xs \<Longrightarrow> json_loop s xs (s\<lparr>next_desc := (next_desc s)\<lparr>td_literal_chars := None\<rparr>\<rparr>)"
  by (simp add: json_ready_def json_loop_def reads_def)

lemma json_loop_Advance:
  assumes "json_loop s (c # xs) u"
  shows "json_loop s xs (Advance u)" "c0 u = c"
proof -
  have r: "reads u (c # xs) None u" using assms by (simp add: json_loop_def)
  show "c0 u = c" by (rule reads_Cons(1) [OF r])
  show "json_loop s xs (Advance u)"
    using reads_Cons(4) [OF r] assms by (simp add: json_loop_def reads_def frame_def)
qed

lemma json_scan_loop_white:
  assumes "json_loop s (c # xs) u" "json_white c"
  shows "\<exists>v. json_scan_loop u = json_scan_loop v \<and> json_loop s xs v"
proof -
  let ?u = "json_set_beg (source_pos u) u"
  have l: "json_loop s (c # xs) ?u" using json_loop_set_beg [OF assms(1)] .
  have "json_token ?u = (WHITESPACE, Advance ?u)"
    using json_token_white_step json_loop_Advance(2) [OF l] assms(2) by blast
  then have "json_scan_loop u = json_scan_loop (Advance ?u)"
    by (subst json_scan_loop.simps) (simp add: Let_def)
  then show ?thesis using json_loop_Advance(1) [OF l] by blast
qed

lemma json_scan_loop_blank:
  "json_blank ws \<Longrightarrow> json_loop s (ws @ xs) u \<Longrightarrow> \<exists>v. json_scan_loop u = json_scan_loop v \<and> json_loop s xs v"
proof (induction ws arbitrary: u)
  case (Cons c ws)
  have "json_loop s (c # ws @ xs) u" using Cons.prems(2) by simp
  from json_scan_loop_white [OF this] obtain v where "json_scan_loop u = json_scan_loop v" "json_loop s (ws @ xs) v"
    using Cons.prems(1) by auto
  then show ?case using Cons.IH Cons.prems(1) by fastforce
qed auto

lemma json_scan_loop_token:
  "json_token (json_set_beg (source_pos u) u) = (t, v) \<Longrightarrow> t \<noteq> WHITESPACE \<Longrightarrow> json_scan_loop u = (t, v)"
  by (subst json_scan_loop.simps) (simp add: Let_def)

text \<open>The result of \<open>ScanJson\<close>: the token and its literal, and the input behind it.\<close>

definition scanned :: "JsonScanner \<Rightarrow> Token \<Rightarrow> uint8 list option \<Rightarrow> int list \<Rightarrow> bool" where
  "scanned s t l xs \<longleftrightarrow> json_ready s xs \<and> td_token (next_desc s) = t \<and> td_literal_chars (next_desc s) = l"

lemma scanned_result:
  assumes "json_scan_loop (s\<lparr>next_desc := (next_desc s)\<lparr>td_literal_chars := None\<rparr>\<rparr>) = (t, v)"
    "literal_end u xs l v" "current_desc u = current_desc s"
  shows "scanned (ScanJson s) t l xs" "current_desc (ScanJson s) = current_desc s"
proof -
  have "ScanJson s = v\<lparr>next_desc := (next_desc v)\<lparr>td_end_pos := source_pos v, td_token := t\<rparr>\<rparr>"
    using assms(1) by (simp add: ScanJson_def)
  then show "scanned (ScanJson s) t l xs" "current_desc (ScanJson s) = current_desc s"
    using assms(2,3) by (simp_all add: scanned_def json_ready_def literal_end_def frame_def)
qed

lemma json_lexeme_token: "json_lexeme w t l \<Longrightarrow> t \<noteq> WHITESPACE \<and> t \<noteq> EOS \<and> t \<noteq> ILLEGAL"
  by (cases rule: json_lexeme.cases) (auto simp: json_punctuators_def json_words_def)

lemma ScanJson_lexeme:
  assumes "json_ready s (ws @ w @ xs)" "json_blank ws" "json_lexeme w t l" "json_after t xs"
  shows "scanned (ScanJson s) t l xs \<and> current_desc (ScanJson s) = current_desc s"
proof -
  obtain u where u: "json_scan_loop (s\<lparr>next_desc := (next_desc s)\<lparr>td_literal_chars := None\<rparr>\<rparr>) = json_scan_loop u"
      "json_loop s (w @ xs) u"
    using json_scan_loop_blank [OF assms(2) json_loop_start [OF assms(1)]] by blast
  let ?u = "json_set_beg (source_pos u) u"
  have l: "json_loop s (w @ xs) ?u" using json_loop_set_beg [OF u(2)] .
  obtain v where v: "json_token ?u = (t, v)" "literal_end ?u xs l v"
    using json_token_lexeme [OF assms(3,4), of ?u ?u] l by (auto simp: json_loop_def)
  have "json_scan_loop u = (t, v)"
    using json_scan_loop_token [OF v(1)] json_lexeme_token [OF assms(3)] by simp
  then show ?thesis using scanned_result [of s t v ?u xs l] u(1) v(2) l by (simp add: json_loop_def)
qed

lemma json_scan_loop_cases:
  "json_loop s xs u \<Longrightarrow> \<exists>ws ys v. xs = ws @ ys \<and> json_blank ws \<and> json_loop s ys v \<and>
     json_scan_loop u = json_token (json_set_beg (source_pos v) v) \<and> follows (\<lambda>c. \<not> json_white c) ys"
proof (induction xs arbitrary: u)
  case Nil
  have "c0 u = -1" using Nil reads_Nil by (auto simp: json_loop_def)
  then have "fst (json_token (json_set_beg (source_pos u) u)) \<noteq> WHITESPACE"
    by (simp add: json_token_white json_white_def)
  then have "json_scan_loop u = json_token (json_set_beg (source_pos u) u)"
    by (subst json_scan_loop.simps) (simp add: Let_def)
  then show ?case using Nil by (intro exI [of _ "[]"] exI [of _ u]) simp
next
  case (Cons c xs)
  show ?case
  proof (cases "json_white c")
    case True
    obtain v where "json_scan_loop u = json_scan_loop v" "json_loop s xs v"
      using json_scan_loop_white [OF Cons.prems True] by blast
    then obtain ws ys v where "xs = ws @ ys" "json_blank ws" "json_loop s ys v"
        "json_scan_loop u = json_token (json_set_beg (source_pos v) v)" "follows (\<lambda>c. \<not> json_white c) ys"
      using Cons.IH by metis
    then show ?thesis using True by (intro exI [of _ "c # ws"] exI [of _ ys] exI [of _ v]) simp
  next
    case False
    have "c0 u = c" using json_loop_Advance(2) [OF Cons.prems] .
    then have "json_scan_loop u = json_token (json_set_beg (source_pos u) u)"
      using False by (subst json_scan_loop.simps) (simp add: Let_def json_token_white)
    then show ?thesis using Cons.prems False by (intro exI [of _ "[]"] exI [of _ "c # xs"] exI [of _ u]) simp
  qed
qed

lemma ScanJson_inv:
  assumes "json_ready s xs" "td_token (next_desc (ScanJson s)) = t" "t \<noteq> ILLEGAL" "t \<noteq> EOS"
  shows "\<exists>ws w l ys. xs = ws @ w @ ys \<and> json_blank ws \<and> json_lexeme w t l \<and> scanned (ScanJson s) t l ys \<and>
    current_desc (ScanJson s) = current_desc s"
proof -
  let ?s = "s\<lparr>next_desc := (next_desc s)\<lparr>td_literal_chars := None\<rparr>\<rparr>"
  obtain ws ys v where v: "xs = ws @ ys" "json_blank ws" "json_loop s ys v"
      "json_scan_loop ?s = json_token (json_set_beg (source_pos v) v)" "follows (\<lambda>c. \<not> json_white c) ys"
    using json_scan_loop_cases [OF json_loop_start [OF assms(1)]] by blast
  let ?v = "json_set_beg (source_pos v) v"
  have l: "json_loop s ys ?v" using json_loop_set_beg [OF v(3)] .
  obtain t' z where z: "json_token ?v = (t', z)" by (cases "json_token ?v")
  have t: "t' = t" using assms(2) v(4) z by (simp add: ScanJson_def)
  have "\<not> json_white (c0 ?v)"
    by (rule reads_follows [OF _ v(5), of ?v None]) (use l in \<open>simp_all add: json_loop_def json_white_def\<close>)
  then have "t \<noteq> WHITESPACE" using json_token_white [of ?v] z t by simp
  then obtain w l' us where w: "ys = w @ us" "json_lexeme w t l'" "literal_end ?v us l' z"
    using json_token_inv [of ?v ys ?v t z] l z t assms(3,4) by (auto simp: json_loop_def)
  have "scanned (ScanJson s) t l' us" "current_desc (ScanJson s) = current_desc s"
    using scanned_result [of s t z ?v us l'] v(4) z t w(3) l by (simp_all add: json_loop_def)
  then show ?thesis using v(1,2) w(1,2) by blast
qed

text \<open>The end of the source.\<close>

lemma scope_not_EOS: "(\<And>s. fst (body s) \<noteq> EOS) \<Longrightarrow> fst (literal_scope True body s) \<noteq> EOS"
  by (simp add: fst_literal_scope)

lemma json_token_EOS:
  assumes "fst (json_token u) = EOS"
  shows "c0 u < 0"
proof (rule ccontr)
  assume n: "\<not> c0 u < 0"
  have b: "fst (json_string_body s) \<noteq> EOS" "fst (json_number_body s) \<noteq> EOS" for s
    by (auto simp: json_string_body_def json_number_body_def split: prod.split bool.split)
  have w: "fst (ScanJsonIdentifier x t s) \<noteq> EOS" if "t \<noteq> EOS" for x t s
    unfolding ScanJsonIdentifier_def using that by (intro scope_not_EOS) (auto split: prod.split bool.split)
  have "fst (ScanJsonString u) \<noteq> EOS" "fst (ScanJsonNumber u) \<noteq> EOS"
    unfolding ScanJsonString_def ScanJsonNumber_def by (intro scope_not_EOS b)+
  then show False using assms n w [of TRUE_LITERAL "''true''" u] w [of FALSE_LITERAL "''false''" u]
      w [of NULL_LITERAL "''null''" u]
    by (simp add: json_token_def Let_def Select_def split: if_splits)
qed

lemma ScanJson_end:
  assumes "json_ready s ws" "json_blank ws"
  shows "td_token (next_desc (ScanJson s)) = EOS \<and> current_desc (ScanJson s) = current_desc s"
proof -
  have "json_ready s (ws @ [])" using assms(1) by simp
  from json_scan_loop_blank [OF assms(2) json_loop_start [OF this]] obtain u where
    u: "json_scan_loop (s\<lparr>next_desc := (next_desc s)\<lparr>td_literal_chars := None\<rparr>\<rparr>) = json_scan_loop u" "json_loop s [] u"
    by blast
  let ?u = "json_set_beg (source_pos u) u"
  have "reads ?u [] None ?u" using json_loop_set_beg [OF u(2)] unfolding json_loop_def by blast
  then have "c0 ?u = -1" by (rule reads_Nil)
  then have "json_token ?u = (EOS, Advance ?u)" by (simp add: json_token_def json_white_def json_digit_def)
  then have "json_scan_loop u = (EOS, Advance ?u)" by (rule json_scan_loop_token) simp
  then show ?thesis using u by (simp add: ScanJson_def json_loop_def json_set_beg_def Advance_def split: prod.split)
qed

lemma ScanJson_end_inv:
  assumes "json_ready s xs" "td_token (next_desc (ScanJson s)) = EOS"
  shows "json_blank xs"
proof -
  let ?s = "s\<lparr>next_desc := (next_desc s)\<lparr>td_literal_chars := None\<rparr>\<rparr>"
  obtain ws ys v where v: "xs = ws @ ys" "json_blank ws" "json_loop s ys v"
      "json_scan_loop ?s = json_token (json_set_beg (source_pos v) v)"
    using json_scan_loop_cases [OF json_loop_start [OF assms(1)]] by blast
  let ?v = "json_set_beg (source_pos v) v"
  have "fst (json_token ?v) = EOS" using assms(2) v(4) by (simp add: ScanJson_def split: prod.splits)
  then have "c0 ?v < 0"
    by (rule json_token_EOS)
  moreover have "reads ?v ys None ?v" using json_loop_set_beg [OF v(3)] unfolding json_loop_def by blast
  ultimately have "ys = []" using reads_Cons(1,2) [of ?v "hd ys" "tl ys" None ?v] by (cases ys) auto
  then show ?thesis using v by simp
qed

section \<open>The current token is left alone\<close>

lemma current_literal [simp]:
  "current_desc (Advance s) = current_desc s" "current_desc (StartLiteral s) = current_desc s"
  "current_desc (AddLiteralChar c s) = current_desc s" "current_desc (TerminateLiteral s) = current_desc s"
  "current_desc (DropLiteral s) = current_desc s" "current_desc (AddLiteralCharAdvance s) = current_desc s"
  "current_desc (json_set_beg b u) = current_desc u"
  by (simp_all add: Advance_def StartLiteral_def AddLiteralChar_def TerminateLiteral_def DropLiteral_def
      AddLiteralCharAdvance_def json_set_beg_def split: prod.split)

lemma current_json_text_loop [simp]: "current_desc (snd (json_text_loop w s)) = current_desc s"
  by (induction w s rule: json_text_loop.induct) simp_all

lemma current_json_hex [simp]: "current_desc (snd (json_hex n x s)) = current_desc s"
  by (induction n arbitrary: x s) (simp_all add: Let_def)

lemma current_json_escape [simp]: "current_desc (snd (json_escape s)) = current_desc s"
  using current_json_hex [of 4 0 s]
  by (cases "json_hex 4 0 s") (simp add: json_escape_def Let_def split: option.split)

lemma current_json_string_loop [simp]: "current_desc (snd (json_string_loop s)) = current_desc s"
proof (induction s rule: json_string_loop.induct)
  case (1 s)
  show ?case
  proof (cases "c0 s \<noteq> chr (CHR 0x22) \<and> c0 s > 0 \<and> \<not> c0 s < 0x20")
    case True
    then show ?thesis using 1 by (subst json_string_loop.simps) (simp add: Let_def)
  next
    case False
    then show ?thesis by (subst json_string_loop.simps) auto
  qed
qed

lemma current_json_digits [simp]: "current_desc (json_digits s) = current_desc s"
proof (induction s rule: json_digits.induct)
  case (1 s)
  then show ?case by (subst json_digits.simps) simp
qed

lemma current_scope:
  "(\<And>s. current_desc (snd (snd (body s))) = current_desc s) \<Longrightarrow>
   current_desc (snd (literal_scope True body s)) = current_desc s"
  by (simp add: literal_scope_def split: prod.split) (metis current_literal(2) snd_conv)

lemma current_json_parts:
  "current_desc (snd (json_integer s)) = current_desc s" "current_desc (snd (json_fraction s)) = current_desc s"
  "current_desc (snd (json_exponent s)) = current_desc s"
  by (simp_all add: json_integer_def json_fraction_def json_exponent_def json_do_digits_def Let_def)

lemma current_json_bodies:
  "current_desc (snd (snd (json_number_body s))) = current_desc s"
  "current_desc (snd (snd (json_string_body s))) = current_desc s"
proof -
  show "current_desc (snd (snd (json_string_body s))) = current_desc s"
    using current_json_string_loop [of s] by (cases "json_string_loop s") (auto simp: json_string_body_def)
  obtain b t c u d v where e: "json_integer s = (b, t)" "json_fraction t = (c, u)" "json_exponent u = (d, v)"
    by (cases "json_integer s"; cases "json_fraction (snd (json_integer s))";
        cases "json_exponent (snd (json_fraction (snd (json_integer s))))") auto
  then have "current_desc t = current_desc s" "current_desc u = current_desc t" "current_desc v = current_desc u"
    using current_json_parts(1) [of s] current_json_parts(2) [of t] current_json_parts(3) [of u] by simp_all
  then show "current_desc (snd (snd (json_number_body s))) = current_desc s"
    by (simp add: json_number_body_def e split: bool.split)
qed

lemma current_json_token: "current_desc (snd (json_token s)) = current_desc s"
proof -
  have w: "current_desc (snd (ScanJsonIdentifier w t s)) = current_desc s" for w t s
    unfolding ScanJsonIdentifier_def
  proof (rule current_scope)
    fix s :: JsonScanner
    show "current_desc (snd (snd (case json_text_loop w s of
        (True, s) \<Rightarrow> if IdentifierPart_Is (c0 s) then (ILLEGAL, False, s) else (t, True, TerminateLiteral s)
      | (False, s) \<Rightarrow> (ILLEGAL, False, s)))) = current_desc s"
      using current_json_text_loop [of w s] by (cases "json_text_loop w s") (auto split: bool.split)
  qed
  have "current_desc (snd (ScanJsonString s)) = current_desc s" "current_desc (snd (ScanJsonNumber s)) = current_desc s"
    unfolding ScanJsonString_def ScanJsonNumber_def by (simp_all add: current_scope current_json_bodies)
  then show ?thesis using w by (simp add: json_token_def Let_def Select_def)
qed

lemma current_json_scan_loop: "current_desc (snd (json_scan_loop s)) = current_desc s"
proof (induction s rule: json_scan_loop.induct)
  case (1 s)
  then show ?case using current_json_token [of "json_set_beg (source_pos s) s"]
    by (subst json_scan_loop.simps) (simp add: Let_def)
qed

lemma current_ScanJson [simp]: "current_desc (ScanJson s) = current_desc s"
  using current_json_scan_loop [of "s\<lparr>next_desc := (next_desc s)\<lparr>td_literal_chars := None\<rparr>\<rparr>"]
  by (cases "json_scan_loop (s\<lparr>next_desc := (next_desc s)\<lparr>td_literal_chars := None\<rparr>\<rparr>)")
    (simp add: ScanJson_def)

section \<open>The stream of tokens\<close>

definition ahead :: "JsonScanner \<Rightarrow> int list \<Rightarrow> bool" where
  "ahead s xs \<longleftrightarrow> (\<exists>s0. json_ready s0 xs \<and> s = ScanJson s0)"

end
