(* ===== verification/JsonGrammar.thy ===== *)
theory JsonGrammar
  imports JsonParser JsonTokens
begin

text \<open>
  The grammar of JSON over the lexemes of theory \<open>JsonLexer\<close>, and the proof that \<open>JsonParser\<close>
  accepts exactly its texts and builds the value the grammar gives them. A text of the grammar starts
  with the blanks in front of its first token and ends with its last token.
\<close>

section \<open>The grammar\<close>

text \<open>
  \<open>json_value d w v\<close>: the text \<open>w\<close> denotes \<open>v\<close> and nests non-empty objects and arrays at most
  \<open>d\<close> deep. \<open>json_pairs\<close> and \<open>json_items\<close> are the rest of an object and of an array behind the
  opening bracket, with the closing bracket.
\<close>

inductive json_value :: "nat \<Rightarrow> int list \<Rightarrow> Json \<Rightarrow> bool"
and json_pairs :: "nat \<Rightarrow> int list \<Rightarrow> (uint16 list \<times> Json) list \<Rightarrow> bool"
and json_items :: "nat \<Rightarrow> int list \<Rightarrow> Json list \<Rightarrow> bool" where
  jv_string: "json_blank b \<Longrightarrow> json_chars body vs \<Longrightarrow>
    json_value d (b @ chr (CHR 0x22) # body @ [chr (CHR 0x22)]) (JString (map word_of_int vs))"
| jv_number: "json_blank b \<Longrightarrow> json_number w \<Longrightarrow> json_value d (b @ w) (JNumber (map word_of_int w))"
| jv_word: "json_blank b \<Longrightarrow> (w, v) \<in> {(''true'', JTrue), (''false'', JFalse), (''null'', JNull)} \<Longrightarrow>
    json_value d (b @ map chr w) v"
| jv_no_pairs: "json_blank b \<Longrightarrow> json_blank c \<Longrightarrow>
    json_value d (b @ chr (CHR ''{'') # c @ [chr (CHR ''}'')]) (JObject [])"
| jv_no_items: "json_blank b \<Longrightarrow> json_blank c \<Longrightarrow>
    json_value d (b @ chr (CHR ''['') # c @ [chr (CHR '']'')]) (JArray [])"
| jv_object: "json_blank b \<Longrightarrow> json_pairs d w ms \<Longrightarrow> json_value (Suc d) (b @ chr (CHR ''{'') # w) (JObject ms)"
| jv_array: "json_blank b \<Longrightarrow> json_items d w vs \<Longrightarrow> json_value (Suc d) (b @ chr (CHR ''['') # w) (JArray vs)"
| jp_last: "json_blank b \<Longrightarrow> json_chars body key \<Longrightarrow> json_blank c \<Longrightarrow> json_value d w v \<Longrightarrow> json_blank e \<Longrightarrow>
    json_pairs d (b @ chr (CHR 0x22) # body @ chr (CHR 0x22) # c @ chr (CHR '':'') # w @ e @ [chr (CHR ''}'')])
      [(map word_of_int key, v)]"
| jp_more: "json_blank b \<Longrightarrow> json_chars body key \<Longrightarrow> json_blank c \<Longrightarrow> json_value d w v \<Longrightarrow> json_blank e \<Longrightarrow>
    json_pairs d rest ms \<Longrightarrow>
    json_pairs d (b @ chr (CHR 0x22) # body @ chr (CHR 0x22) # c @ chr (CHR '':'') # w @ e @ chr (CHR '','') # rest)
      ((map word_of_int key, v) # ms)"
| ji_last: "json_value d w v \<Longrightarrow> json_blank e \<Longrightarrow> json_items d (w @ e @ [chr (CHR '']'')]) [v]"
| ji_more: "json_value d w v \<Longrightarrow> json_blank e \<Longrightarrow> json_items d rest vs \<Longrightarrow>
    json_items d (w @ e @ chr (CHR '','') # rest) (v # vs)"

text \<open>A text of the grammar with blanks behind it.\<close>

definition json_text :: "nat \<Rightarrow> int list \<Rightarrow> Json \<Rightarrow> bool" where
  "json_text d xs v \<longleftrightarrow> (\<exists>w e. xs = w @ e \<and> json_value d w v \<and> json_blank e)"

section \<open>Literals\<close>

lemma hex_char_value_bounds: "hex_char h \<Longrightarrow> 0 \<le> hex_char_value h \<and> hex_char_value h < 16"
  by (auto simp: hex_char_def hex_char_value_def)

lemma json_hex_number_bounds:
  assumes "length hs = 4" "list_all hex_char hs"
  shows "0 \<le> json_hex_number hs \<and> json_hex_number hs < 65536"
proof -
  obtain a b c d where "hs = [a, b, c, d]"
    using assms(1) by (auto simp: length_Suc_conv numeral_eq_Suc)
  then show ?thesis
    using assms(2) hex_char_value_bounds [of a] hex_char_value_bounds [of b] hex_char_value_bounds [of c]
      hex_char_value_bounds [of d]
    by (auto simp: json_hex_number_def)
qed

lemma json_chars_bounds: "json_chars body vs \<Longrightarrow> list_all (\<lambda>v. 0 \<le> v \<and> v < 65536) vs"
proof (induction rule: json_chars.induct)
  case (jc_escape c v xs vs)
  then show ?case by (auto simp: json_escape_char_def split: if_splits)
qed (auto simp: json_hex_number_bounds)

lemma Allocate_text:
  assumes "list_all (\<lambda>v. 0 \<le> v \<and> v < 65536) vs"
  shows "AllocateStringFromUtf8 (text_bytes vs) = map word_of_int vs"
proof -
  have u: "uint (word_of_int v :: uint32) = v" if "0 \<le> v" "v < 65536" for v
    using that by (simp add: uint_word_of_int)
  have "text_bytes vs = concat (map Utf8_Encode (map word_of_int vs))"
    by (simp add: text_bytes_def char_bytes_def [abs_def] comp_def)
  moreover have "Utf8_ReadAll (concat (map Utf8_Encode (map word_of_int vs))) = map word_of_int vs"
    using assms by (intro Utf8_ReadAll_text) (auto simp: list_all_iff kMaxFourByteChar_def word_le_def u)
  moreover have "ucast (if word_of_int v > kMaxSupportedChar then kBadChar else word_of_int v) = (word_of_int v :: uint16)"
    if "v \<in> set vs" for v
  proof -
    have v: "0 \<le> v" "v < 65536" using assms that by (simp_all add: list_all_iff)
    then have "\<not> (word_of_int v > kMaxSupportedChar)"
      using u [OF v] by (simp add: kMaxSupportedChar_def word_less_def)
    then show ?thesis using u [OF v] by (simp add: ucast_eq)
  qed
  ultimately show ?thesis by (simp add: AllocateStringFromUtf8_def)
qed

lemma char_bytes_ascii:
  assumes "0 \<le> c" "c < 128"
  shows "char_bytes c = [word_of_int c]"
proof -
  have "uint (word_of_int c :: uint32) = c" "uint (word_of_int c :: uint8) = c"
    using assms by (simp_all add: uint_word_of_int)
  then have "(word_of_int c :: uint32) \<le> mask 7" "ucast (word_of_int c :: uint32) = (word_of_int c :: uint8)"
    using assms by (simp_all add: word_le_def uint_mask_eq mask_eq_exp_minus_1 ucast_eq)
  then show ?thesis by (simp add: char_bytes_def Encode_cases)
qed

lemma json_number_ascii:
  assumes "json_number w"
  shows "list_all (\<lambda>c. 0 \<le> c \<and> c < 128) w"
proof -
  have d: "list_all (\<lambda>c. 0 \<le> c \<and> c < 128) ds" if "list_all json_digit ds" for ds
    using that by (auto simp: list_all_iff json_digit_def)
  obtain m i f e where w: "w = m @ i @ f @ e" "m = [] \<or> m = [chr (CHR ''-'')]" "json_int_part i"
      "json_frac_part f" "json_exp_part e"
    using assms by (auto simp: json_number_def)
  have "list_all (\<lambda>c. 0 \<le> c \<and> c < 128) i" "list_all (\<lambda>c. 0 \<le> c \<and> c < 128) f"
    using w(3,4) d by (auto simp: json_int_part_def json_frac_part_def)
  moreover have "list_all (\<lambda>c. 0 \<le> c \<and> c < 128) e"
    using w(5) d by (auto simp: json_exp_part_def)
  ultimately show ?thesis using w(1,2) by auto
qed

lemma text_bytes_ascii: "list_all (\<lambda>c. 0 \<le> c \<and> c < 128) w \<Longrightarrow> text_bytes w = map word_of_int w"
  by (induction w) (simp_all add: char_bytes_ascii)

section \<open>Tokens of the parser\<close>

definition jp_shift :: "JsonParser \<Rightarrow> JsonParser" where
  "jp_shift p = snd (jp_next p)"

definition jp_ahead :: "JsonParser \<Rightarrow> int list \<Rightarrow> bool" where
  "jp_ahead p xs \<longleftrightarrow> ahead (jp_scanner p) xs"

text \<open>The next token is \<open>t\<close> with the literal \<open>l\<close>, and the input behind it \<open>xs\<close>.\<close>

definition jp_token :: "JsonParser \<Rightarrow> Token \<Rightarrow> uint8 list option \<Rightarrow> int list \<Rightarrow> bool" where
  "jp_token p t l xs \<longleftrightarrow> jp_peek p = t \<and> td_literal_chars (next_desc (jp_scanner p)) = l \<and> jp_ahead (jp_shift p) xs"

lemma JsonScanner_Next_unfold:
  "JsonScanner_Next s = (td_token (next_desc s), ScanJson (s\<lparr>current_desc := next_desc s\<rparr>))"
  by (simp add: JsonScanner_Next_def Let_def)

lemma jp_next_eq: "jp_next p = (jp_peek p, jp_shift p)"
  by (simp add: jp_next_def jp_peek_def jp_shift_def JsonScanner_Next_unfold)

lemma jp_shift_scanner:
  "jp_scanner (jp_shift p) = ScanJson ((jp_scanner p)\<lparr>current_desc := next_desc (jp_scanner p)\<rparr>)"
  by (simp add: jp_next_def jp_shift_def JsonScanner_Next_unfold)

lemma jp_shift_simps [simp]:
  "jp_current_token (jp_shift p) = jp_peek p"
  "current_desc (jp_scanner (jp_shift p)) = next_desc (jp_scanner p)"
  "jp_stack_overflow (jp_shift p) = jp_stack_overflow p"
  by (simp_all add: jp_current_token_def jp_peek_def jp_shift_scanner)
    (simp add: jp_shift_def jp_next_def JsonScanner_Next_unfold)

lemma literal_jp_shift:
  "jp_token p t (Some (b @ [0])) xs \<Longrightarrow> literal (jp_scanner (jp_shift p)) = b"
  by (simp add: jp_token_def literal_def)

lemma GetString_jp_shift:
  "jp_token p t (Some (text_bytes vs @ [0])) xs \<Longrightarrow> json_chars body vs \<Longrightarrow> GetString (jp_shift p) = map word_of_int vs"
  by (simp add: GetString_def literal_jp_shift Allocate_text json_chars_bounds)

lemma ahead_scanned:
  assumes "scanned s t l xs"
  shows "ahead (ScanJson (s\<lparr>current_desc := next_desc s\<rparr>)) xs"
  unfolding ahead_def by (rule exI [of _ "s\<lparr>current_desc := next_desc s\<rparr>"]) (use assms in \<open>simp add: scanned_def\<close>)

lemma jp_token_scanned: "scanned (jp_scanner p) t l xs \<Longrightarrow> jp_token p t l xs"
  using ahead_scanned [of "jp_scanner p" t l xs]
  by (simp add: jp_token_def jp_ahead_def jp_shift_scanner jp_peek_def scanned_def)

lemma jp_lexeme:
  assumes "jp_ahead p (b @ w @ xs)" "json_blank b" "json_lexeme w t l" "json_after t xs"
  shows "jp_token p t l xs"
proof -
  obtain s where "json_ready s (b @ w @ xs)" "jp_scanner p = ScanJson s"
    using assms(1) by (auto simp: jp_ahead_def ahead_def)
  then show ?thesis using ScanJson_lexeme [OF _ assms(2-4)] by (metis jp_token_scanned)
qed

lemma jp_lexeme_inv:
  assumes "jp_ahead p xs" "jp_peek p = t" "t \<noteq> ILLEGAL" "t \<noteq> EOS"
  obtains b w l ys where "xs = b @ w @ ys" "json_blank b" "json_lexeme w t l" "jp_token p t l ys"
proof -
  obtain s where s: "json_ready s xs" "jp_scanner p = ScanJson s"
    using assms(1) by (auto simp: jp_ahead_def ahead_def)
  then show ?thesis
    using ScanJson_inv [OF s(1), of t] assms(2-4) jp_token_scanned [of p t] that by (auto simp: jp_peek_def)
qed

lemma jp_end: "jp_ahead p xs \<Longrightarrow> jp_peek p = EOS \<longleftrightarrow> json_blank xs"
  using ScanJson_end ScanJson_end_inv by (auto simp: jp_ahead_def ahead_def jp_peek_def)

section \<open>The parser reads the texts of the grammar\<close>

lemma json_after_punctuator: "(c, t) \<in> set json_punctuators \<Longrightarrow> json_after t xs"
  by (force simp: json_after_def)

lemma jp_punctuator:
  assumes "jp_ahead p (b @ c # xs)" "json_blank b" "(c, t) \<in> set json_punctuators"
  shows "jp_peek p = t" "jp_ahead (jp_shift p) xs"
  using jp_lexeme [of p b "[c]" xs t None] assms jl_punctuator [OF assms(3)] json_after_punctuator [OF assms(3)]
  by (simp_all add: jp_token_def)

lemma jp_string:
  assumes "jp_ahead p (b @ chr (CHR 0x22) # body @ chr (CHR 0x22) # xs)" "json_blank b" "json_chars body vs"
  shows "jp_peek p = STRING" "GetString (jp_shift p) = map word_of_int vs" "jp_ahead (jp_shift p) xs"
proof -
  have "jp_token p STRING (Some (text_bytes vs @ [0])) xs"
    by (rule jp_lexeme [OF _ assms(2) jl_string [OF assms(3)]]) (use assms(1) in \<open>simp_all add: json_after_def\<close>)
  then show "jp_peek p = STRING" "GetString (jp_shift p) = map word_of_int vs" "jp_ahead (jp_shift p) xs"
    using GetString_jp_shift [OF _ assms(3)] by (auto simp: jp_token_def)
qed

lemma jp_number:
  assumes "jp_ahead p (b @ w @ xs)" "json_blank b" "json_number w" "follows json_end xs"
  shows "jp_peek p = NUMBER" "literal (jp_scanner (jp_shift p)) = map word_of_int w" "jp_ahead (jp_shift p) xs"
proof -
  have t: "jp_token p NUMBER (Some (text_bytes w @ [0])) xs"
    by (rule jp_lexeme [OF _ assms(2) jl_number [OF assms(3)]]) (use assms in \<open>simp_all add: json_after_def\<close>)
  then show "jp_peek p = NUMBER" "jp_ahead (jp_shift p) xs" by (simp_all add: jp_token_def)
  show "literal (jp_scanner (jp_shift p)) = map word_of_int w"
    using literal_jp_shift [OF t] text_bytes_ascii [OF json_number_ascii [OF assms(3)]] by simp
qed

lemma jp_word:
  assumes "jp_ahead p (b @ map chr w @ xs)" "json_blank b" "(w, t) \<in> set json_words" "follows json_end xs"
  shows "jp_peek p = t" "jp_ahead (jp_shift p) xs"
  using jp_lexeme [OF assms(1,2) jl_word [OF assms(3)]] assms(4) by (simp_all add: json_after_def jp_token_def)

text \<open>\<open>delivers r v xs\<close>: the call has returned \<open>v\<close> and the input left is \<open>xs\<close>.\<close>

definition delivers :: "(Json option \<times> JsonParser) option \<Rightarrow> Json \<Rightarrow> int list \<Rightarrow> bool" where
  "delivers r v xs \<longleftrightarrow> (\<exists>q. r = Some (Some v, q) \<and> jp_ahead q xs)"

lemma delivers_Some: "delivers (Some (Some v, q)) v xs \<longleftrightarrow> jp_ahead q xs"
  by (simp add: delivers_def)

lemma json_punctuator_simps [simp]:
  "(123, LBRACE) \<in> set json_punctuators" "(125, RBRACE) \<in> set json_punctuators"
  "(91, LBRACK) \<in> set json_punctuators" "(93, RBRACK) \<in> set json_punctuators"
  "(58, COLON) \<in> set json_punctuators" "(44, COMMA) \<in> set json_punctuators"
  by (simp_all add: json_punctuators_def)

lemma follows_json_end:
  "json_blank e \<Longrightarrow> json_end c \<Longrightarrow> follows json_end (e @ c # xs)"
  "json_blank e \<Longrightarrow> follows json_end e"
  by (cases e; simp add: json_end_def)+

lemma json_end_simps [simp]:
  "json_end 44" "json_end 93" "json_end 125"
  by (simp_all add: json_end_def)

text \<open>The loops of an object and of an array over the value of one turn.\<close>

definition members_rest ::
    "nat \<Rightarrow> nat \<Rightarrow> (uint16 list \<times> Json) list \<Rightarrow> uint16 list \<Rightarrow> Json \<times> JsonParser \<Rightarrow> (Json option \<times> JsonParser) option" where
  "members_rest n d ms key r = (case r of (v, q) \<Rightarrow>
     if jp_peek q = COMMA then json_members n d (ms @ [(key, v)]) (jp_shift q)
     else if jp_peek q \<noteq> RBRACE then Some (None, jp_shift q)
     else Some (Some (JObject (ms @ [(key, v)])), jp_shift q))"

definition elements_rest ::
    "nat \<Rightarrow> nat \<Rightarrow> Json list \<Rightarrow> Json \<times> JsonParser \<Rightarrow> (Json option \<times> JsonParser) option" where
  "elements_rest n d vs r = (case r of (v, q) \<Rightarrow>
     if jp_peek q = COMMA then json_elements n d (vs @ [v]) (jp_shift q)
     else if jp_peek q \<noteq> RBRACK then Some (None, jp_shift q)
     else Some (Some (JArray (vs @ [v])), jp_shift q))"

definition on_value ::
    "(Json option \<times> JsonParser) option \<Rightarrow> (Json \<times> JsonParser \<Rightarrow> (Json option \<times> JsonParser) option) \<Rightarrow>
     (Json option \<times> JsonParser) option" where
  "on_value r f = (case r of None \<Rightarrow> None | Some (None, p) \<Rightarrow> Some (None, p) | Some (Some v, p) \<Rightarrow> f (v, p))"

lemma on_value_delivers:
  "delivers r v xs \<Longrightarrow> (\<And>q. jp_ahead q xs \<Longrightarrow> delivers (f (v, q)) v' ys) \<Longrightarrow> delivers (on_value r f) v' ys"
  by (auto simp: delivers_def on_value_def)

lemma json_elements_turn:
  "json_elements (Suc n) d vs p = on_value (ParseJsonValue n d p) (elements_rest n d vs)"
  by (simp add: on_value_def elements_rest_def jp_next_eq Let_def split: option.split prod.split)

lemma json_members_turn:
  "json_members (Suc n) d ms p =
     (if jp_peek p \<noteq> STRING then Some (None, jp_shift p)
      else if jp_peek (jp_shift p) \<noteq> COLON then Some (None, jp_shift (jp_shift p))
      else on_value (ParseJsonValue n d (jp_shift (jp_shift p))) (members_rest n d ms (GetString (jp_shift p))))"
  by (simp add: on_value_def members_rest_def jp_next_eq Let_def split: option.split prod.split)

lemma ParseJsonValue_turn:
  "ParseJsonValue (Suc n) d p =
     (let q = jp_shift p; t = jp_peek p in
      if t = STRING then Some (Some (JString (GetString q)), q)
      else if t = NUMBER then Some (Some (JNumber (literal (jp_scanner q))), q)
      else if t = FALSE_LITERAL then Some (Some JFalse, q)
      else if t = TRUE_LITERAL then Some (Some JTrue, q)
      else if t = NULL_LITERAL then Some (Some JNull, q)
      else if t = LBRACE then
        (if jp_peek q = RBRACE then Some (Some (JObject []), jp_shift q)
         else if d = 0 then Some (None, q\<lparr>jp_stack_overflow := True\<rparr>)
         else json_members n (d - 1) [] q)
      else if t = LBRACK then
        (if jp_peek q = RBRACK then Some (Some (JArray []), jp_shift q)
         else if d = 0 then Some (None, q\<lparr>jp_stack_overflow := True\<rparr>)
         else json_elements n (d - 1) [] q)
      else Some (None, q))"
  by (simp add: jp_next_eq Let_def)

lemmas ParseJsonValue_cases = ParseJsonValue_turn [unfolded Let_def]

declare ParseJsonValue.simps(2) [simp del] json_members.simps(2) [simp del] json_elements.simps(2) [simp del]

lemma object_turn:
  assumes "jp_ahead p (b @ chr (CHR ''{'') # xs)" "json_blank b"
  shows "ParseJsonValue (Suc n) d p =
     (if jp_peek (jp_shift p) = RBRACE then Some (Some (JObject []), jp_shift (jp_shift p))
      else if d = 0 then Some (None, (jp_shift p)\<lparr>jp_stack_overflow := True\<rparr>)
      else json_members n (d - 1) [] (jp_shift p))" "jp_ahead (jp_shift p) xs"
  using jp_punctuator [OF assms, of LBRACE] by (simp_all add: ParseJsonValue_cases)

lemma array_turn:
  assumes "jp_ahead p (b @ chr (CHR ''['') # xs)" "json_blank b"
  shows "ParseJsonValue (Suc n) d p =
     (if jp_peek (jp_shift p) = RBRACK then Some (Some (JArray []), jp_shift (jp_shift p))
      else if d = 0 then Some (None, (jp_shift p)\<lparr>jp_stack_overflow := True\<rparr>)
      else json_elements n (d - 1) [] (jp_shift p))" "jp_ahead (jp_shift p) xs"
  using jp_punctuator [OF assms, of LBRACK] by (simp_all add: ParseJsonValue_cases)

lemma json_pairs_string: "json_pairs d w ms \<Longrightarrow> jp_ahead p (w @ xs) \<Longrightarrow> jp_peek p = STRING"
  by (cases rule: json_pairs.cases) (auto intro: jp_string(1))

text \<open>The first token of a value is never a closing bracket.\<close>

lemma json_value_peek:
  assumes "json_value d w v" "jp_ahead p (w @ xs)" "follows json_end xs"
  shows "jp_peek p \<notin> {RBRACE, RBRACK}"
  using assms(1)
proof (cases rule: json_value.cases)
  case (jv_string b body vs)
  then have "jp_peek p = STRING" using assms(2) by (intro jp_string(1) [where xs = xs]) simp_all
  then show ?thesis by simp
next
  case (jv_number b w')
  then have "jp_peek p = NUMBER" using assms(2,3) by (intro jp_number(1) [where xs = xs]) simp_all
  then show ?thesis by simp
next
  case (jv_word b w' )
  then obtain t where t: "(w', t) \<in> set json_words" by (auto simp: json_words_def)
  then have "jp_peek p = t" using assms(2,3) jv_word by (intro jp_word(1) [where xs = xs]) simp_all
  then show ?thesis using t by (auto simp: json_words_def)
next
  case (jv_no_pairs b c)
  then have "jp_peek p = LBRACE"
    using assms(2) jp_punctuator(1) [of p b "chr (CHR ''{'')" "c @ chr (CHR ''}'') # xs" LBRACE] by simp
  then show ?thesis by simp
next
  case (jv_no_items b c)
  then have "jp_peek p = LBRACK"
    using assms(2) jp_punctuator(1) [of p b "chr (CHR ''['')" "c @ chr (CHR '']'') # xs" LBRACK] by simp
  then show ?thesis by simp
next
  case (jv_object b d' w' ms)
  then have "jp_peek p = LBRACE"
    using assms(2) jp_punctuator(1) [of p b "chr (CHR ''{'')" "w' @ xs" LBRACE] by simp
  then show ?thesis by simp
next
  case (jv_array b d' w' vs)
  then have "jp_peek p = LBRACK"
    using assms(2) jp_punctuator(1) [of p b "chr (CHR ''['')" "w' @ xs" LBRACK] by simp
  then show ?thesis by simp
qed

lemma json_items_peek:
  assumes "json_items d w vs" "jp_ahead p (w @ xs)"
  shows "jp_peek p \<noteq> RBRACK"
  using assms(1)
proof (cases rule: json_items.cases)
  case (ji_last w' v e)
  then show ?thesis using json_value_peek [of d w' v p "e @ chr (CHR '']'') # xs"] assms(2) follows_json_end(1)
    by simp
next
  case (ji_more w' v e rest vs')
  then show ?thesis using json_value_peek [of d w' v p "e @ chr (CHR '','') # rest @ xs"] assms(2) follows_json_end(1)
    by simp
qed

text \<open>One property of an object: what is left is its value and the rest of the loop.\<close>

lemma member_turn:
  assumes "jp_ahead p (b @ chr (CHR 0x22) # body @ chr (CHR 0x22) # c @ chr (CHR '':'') # xs)"
    "json_blank b" "json_chars body key" "json_blank c"
  obtains q where "jp_ahead q xs" "\<And>n d ms. json_members (Suc n) d ms p =
    on_value (ParseJsonValue n d q) (members_rest n d ms (map word_of_int key))"
proof
  note s = jp_string [OF assms(1-3)]
  have c: "jp_peek (jp_shift p) = COLON" "jp_ahead (jp_shift (jp_shift p)) xs"
    using jp_punctuator [OF s(3) assms(4), of COLON] by simp_all
  show "jp_ahead (jp_shift (jp_shift p)) xs" by (rule c)
  show "json_members (Suc n) d ms p =
      on_value (ParseJsonValue n d (jp_shift (jp_shift p))) (members_rest n d ms (map word_of_int key))" for n d ms
    by (simp add: json_members_turn s c)
qed

lemma value_length: "json_value d w v \<Longrightarrow> 0 < length w"
  by (cases rule: json_value.cases) (auto simp: json_number_def json_int_part_def)

lemma parse_grammar:
  "json_value d w v \<Longrightarrow> \<forall>n p xs. length w \<le> n \<longrightarrow> jp_ahead p (w @ xs) \<longrightarrow> follows json_end xs \<longrightarrow>
     delivers (ParseJsonValue n d p) v xs"
  "json_pairs d w ms \<Longrightarrow> \<forall>n p xs acc. length w \<le> n \<longrightarrow> jp_ahead p (w @ xs) \<longrightarrow>
     delivers (json_members n d acc p) (JObject (acc @ ms)) xs"
  "json_items d w vs \<Longrightarrow> \<forall>n p xs acc. length w \<le> n \<longrightarrow> jp_ahead p (w @ xs) \<longrightarrow>
     delivers (json_elements n d acc p) (JArray (acc @ vs)) xs"
proof (induction rule: json_value_json_pairs_json_items.inducts)
  case (jv_string b body vs d)
  show ?case
  proof (intro allI impI, goal_cases)
    case (1 n p xs)
    then obtain m where "n = Suc m" by (cases n) auto
    moreover have "jp_ahead p (b @ chr (CHR 0x22) # body @ chr (CHR 0x22) # xs)" using 1 by simp
    ultimately show ?case using jp_string [OF _ jv_string] by (simp add: ParseJsonValue_cases delivers_Some)
  qed
next
  case (jv_number b w d)
  show ?case
  proof (intro allI impI, goal_cases)
    case (1 n p xs)
    then obtain m where "n = Suc m" using value_length [OF json_value_json_pairs_json_items.jv_number [OF jv_number]] by (cases n) auto
    moreover have "jp_ahead p (b @ w @ xs)" using 1 by simp
    ultimately show ?case using jp_number [OF _ jv_number 1(3)] by (simp add: ParseJsonValue_cases delivers_Some)
  qed
next
  case (jv_word b w v d)
  show ?case
  proof (intro allI impI, goal_cases)
    case (1 n p xs)
    then obtain m where n: "n = Suc m" using value_length [OF json_value_json_pairs_json_items.jv_word [OF jv_word]] by (cases n) auto
    have a: "jp_ahead p (b @ map chr w @ xs)" using 1 by simp
    have w: "(w, t) \<in> set json_words \<Longrightarrow> jp_peek p = t \<and> jp_ahead (jp_shift p) xs" for t
      using jp_word [OF a jv_word(1) _ 1(3)] by simp
    from jv_word(2) show ?case unfolding n using w [of TRUE_LITERAL] w [of FALSE_LITERAL] w [of NULL_LITERAL]
      by (auto simp: ParseJsonValue_cases delivers_Some json_words_def)
  qed
next
  case (jv_no_pairs b c d)
  show ?case
  proof (intro allI impI, goal_cases)
    case (1 n p xs)
    then obtain m where n: "n = Suc m" by (cases n) auto
    have a: "jp_ahead p (b @ chr (CHR ''{'') # c @ chr (CHR ''}'') # xs)" using 1 by simp
    note o = object_turn [OF a jv_no_pairs(1)]
    show ?case unfolding n o(1) using jp_punctuator [OF o(2) jv_no_pairs(2), of RBRACE] by (simp add: delivers_Some)
  qed
next
  case (jv_no_items b c d)
  show ?case
  proof (intro allI impI, goal_cases)
    case (1 n p xs)
    then obtain m where n: "n = Suc m" by (cases n) auto
    have a: "jp_ahead p (b @ chr (CHR ''['') # c @ chr (CHR '']'') # xs)" using 1 by simp
    note o = array_turn [OF a jv_no_items(1)]
    show ?case unfolding n o(1) using jp_punctuator [OF o(2) jv_no_items(2), of RBRACK] by (simp add: delivers_Some)
  qed
next
  case (jv_object b d w ms)
  show ?case
  proof (intro allI impI, goal_cases)
    case (1 n p xs)
    then obtain m where n: "n = Suc m" by (cases n) auto
    have a: "jp_ahead p (b @ chr (CHR ''{'') # w @ xs)" using 1 by simp
    note o = object_turn [OF a jv_object(1)]
    have l: "length w \<le> m" using 1(1) n by simp
    have "delivers (json_members m d [] (jp_shift p)) (JObject ([] @ ms)) xs"
      using jv_object(3) o(2) l by blast
    then show ?case unfolding n o(1) using json_pairs_string [OF jv_object(2) o(2)] by simp
  qed
next
  case (jv_array b d w vs)
  show ?case
  proof (intro allI impI, goal_cases)
    case (1 n p xs)
    then obtain m where n: "n = Suc m" by (cases n) auto
    have a: "jp_ahead p (b @ chr (CHR ''['') # w @ xs)" using 1 by simp
    note o = array_turn [OF a jv_array(1)]
    have l: "length w \<le> m" using 1(1) n by simp
    have "delivers (json_elements m d [] (jp_shift p)) (JArray ([] @ vs)) xs"
      using jv_array(3) o(2) l by blast
    then show ?case unfolding n o(1) using json_items_peek [OF jv_array(2) o(2)] by simp
  qed
next
  case (jp_last b body key c d w v e)
  show ?case
  proof (intro allI impI, goal_cases)
    case (1 n p xs acc)
    then obtain m where n: "n = Suc m" by (cases n) auto
    obtain q where q: "jp_ahead q (w @ e @ chr (CHR ''}'') # xs)" "\<And>n d ms. json_members (Suc n) d ms p =
        on_value (ParseJsonValue n d q) (members_rest n d ms (map word_of_int key))"
      using member_turn [of p b body c "w @ e @ chr (CHR ''}'') # xs" key] 1(2) jp_last(1-3) by auto
    show ?case unfolding n q(2)
    proof (rule on_value_delivers)
      show "delivers (ParseJsonValue m d q) v (e @ chr (CHR ''}'') # xs)"
        using jp_last(6) q(1) 1(1) n follows_json_end(1) [OF jp_last(5)] by simp
      show "delivers (members_rest m d acc (map word_of_int key) (v, r)) (JObject (acc @ [(map word_of_int key, v)])) xs"
        if "jp_ahead r (e @ chr (CHR ''}'') # xs)" for r
        using jp_punctuator [OF that jp_last(5), of RBRACE] by (simp add: members_rest_def delivers_Some)
    qed
  qed
next
  case (jp_more b body key c d w v e rest ms)
  show ?case
  proof (intro allI impI, goal_cases)
    case (1 n p xs acc)
    then obtain m where n: "n = Suc m" by (cases n) auto
    obtain q where q: "jp_ahead q (w @ e @ chr (CHR '','') # rest @ xs)" "\<And>n d ms. json_members (Suc n) d ms p =
        on_value (ParseJsonValue n d q) (members_rest n d ms (map word_of_int key))"
      using member_turn [of p b body c "w @ e @ chr (CHR '','') # rest @ xs" key] 1(2) jp_more(1-3) by auto
    show ?case unfolding n q(2)
    proof (rule on_value_delivers)
      show "delivers (ParseJsonValue m d q) v (e @ chr (CHR '','') # rest @ xs)"
        using jp_more(7) q(1) 1(1) n follows_json_end(1) [OF jp_more(5)] by simp
      show "delivers (members_rest m d acc (map word_of_int key) (v, r)) (JObject (acc @ (map word_of_int key, v) # ms)) xs"
        if "jp_ahead r (e @ chr (CHR '','') # rest @ xs)" for r
      proof -
        have l: "length rest \<le> m" using 1(1) n by simp
        note t = jp_punctuator [OF that jp_more(5), of COMMA, simplified]
        have "delivers (json_members m d (acc @ [(map word_of_int key, v)]) (jp_shift r))
            (JObject ((acc @ [(map word_of_int key, v)]) @ ms)) xs"
          using jp_more(8) t(2) l by blast
        then show ?thesis using t(1) by (simp add: members_rest_def)
      qed
    qed
  qed
next
  case (ji_last d w v e)
  show ?case
  proof (intro allI impI, goal_cases)
    case (1 n p xs acc)
    then obtain m where n: "n = Suc m" by (cases n) auto
    show ?case unfolding n json_elements_turn
    proof (rule on_value_delivers)
      show "delivers (ParseJsonValue m d p) v (e @ chr (CHR '']'') # xs)"
        using ji_last(3) 1 n follows_json_end(1) [OF ji_last(2)] by simp
      show "delivers (elements_rest m d acc (v, r)) (JArray (acc @ [v])) xs"
        if "jp_ahead r (e @ chr (CHR '']'') # xs)" for r
        using jp_punctuator [OF that ji_last(2), of RBRACK] by (simp add: elements_rest_def delivers_Some)
    qed
  qed
next
  case (ji_more d w v e rest vs)
  show ?case
  proof (intro allI impI, goal_cases)
    case (1 n p xs acc)
    then obtain m where n: "n = Suc m" by (cases n) auto
    show ?case unfolding n json_elements_turn
    proof (rule on_value_delivers)
      show "delivers (ParseJsonValue m d p) v (e @ chr (CHR '','') # rest @ xs)"
        using ji_more(4) 1 n follows_json_end(1) [OF ji_more(2)] by simp
      show "delivers (elements_rest m d acc (v, r)) (JArray (acc @ v # vs)) xs"
        if "jp_ahead r (e @ chr (CHR '','') # rest @ xs)" for r
      proof -
        have l: "length rest \<le> m" using 1(1) n by simp
        note t = jp_punctuator [OF that ji_more(2), of COMMA, simplified]
        have "delivers (json_elements m d (acc @ [v]) (jp_shift r)) (JArray ((acc @ [v]) @ vs)) xs"
          using ji_more(5) t(2) l by blast
        then show ?thesis using t(1) by (simp add: elements_rest_def)
      qed
    qed
  qed
qed

section \<open>What the parser accepts is in the grammar\<close>

lemma jp_punctuator_inv:
  assumes "jp_ahead p xs" "jp_peek p = t" "(c, t) \<in> set json_punctuators"
  obtains b ys where "xs = b @ c # ys" "json_blank b" "jp_ahead (jp_shift p) ys"
proof -
  have t: "t \<noteq> ILLEGAL" "t \<noteq> EOS" using assms(3) by (auto simp: json_punctuators_def)
  obtain b w l ys where l: "xs = b @ w @ ys" "json_blank b" "json_lexeme w t l" "jp_token p t l ys"
    using jp_lexeme_inv [OF assms(1,2) t] .
  have "w = [c]" using l(3) assms(3) by cases (auto simp: json_punctuators_def json_words_def)
  then show ?thesis using that l by (simp add: jp_token_def)
qed

lemma jp_string_inv:
  assumes "jp_ahead p xs" "jp_peek p = STRING"
  obtains b body vs ys where "xs = b @ chr (CHR 0x22) # body @ chr (CHR 0x22) # ys" "json_blank b"
    "json_chars body vs" "GetString (jp_shift p) = map word_of_int vs" "jp_ahead (jp_shift p) ys"
proof -
  obtain b w l ys where l: "xs = b @ w @ ys" "json_blank b" "json_lexeme w STRING l" "jp_token p STRING l ys"
    by (rule jp_lexeme_inv [OF assms]) simp_all
  obtain body vs where w: "w = chr (CHR 0x22) # body @ [chr (CHR 0x22)]" "json_chars body vs" "l = Some (text_bytes vs @ [0])"
    using l(3) by cases (auto simp: json_punctuators_def json_words_def)
  then show ?thesis using that l GetString_jp_shift [of p STRING vs ys body] by (simp add: jp_token_def)
qed

lemma jp_number_inv:
  assumes "jp_ahead p xs" "jp_peek p = NUMBER"
  obtains b w ys where "xs = b @ w @ ys" "json_blank b" "json_number w"
    "literal (jp_scanner (jp_shift p)) = map word_of_int w" "jp_ahead (jp_shift p) ys"
proof -
  obtain b w l ys where l: "xs = b @ w @ ys" "json_blank b" "json_lexeme w NUMBER l" "jp_token p NUMBER l ys"
    by (rule jp_lexeme_inv [OF assms]) simp_all
  have w: "json_number w" "l = Some (text_bytes w @ [0])"
    using l(3) by (cases; auto simp: json_punctuators_def json_words_def)+
  have t: "jp_token p NUMBER (Some (text_bytes w @ [0])) ys" using l(4) w(2) by simp
  show ?thesis
    using that [OF l(1,2) w(1)] literal_jp_shift [OF t] text_bytes_ascii [OF json_number_ascii [OF w(1)]] l(4)
    by (simp add: jp_token_def)
qed

lemma jp_word_inv:
  assumes "jp_ahead p xs" "jp_peek p = t" "(w, t) \<in> set json_words"
  obtains b ys where "xs = b @ map chr w @ ys" "json_blank b" "jp_ahead (jp_shift p) ys"
proof -
  have t: "t \<noteq> ILLEGAL" "t \<noteq> EOS" using assms(3) by (auto simp: json_words_def)
  obtain b v l ys where l: "xs = b @ v @ ys" "json_blank b" "json_lexeme v t l" "jp_token p t l ys"
    using jp_lexeme_inv [OF assms(1,2) t] .
  have "v = map chr w" using l(3) assms(3) by cases (auto simp: json_punctuators_def json_words_def)
  then show ?thesis using that l by (simp add: jp_token_def)
qed

definition value_found :: "nat \<Rightarrow> int list \<Rightarrow> Json \<Rightarrow> JsonParser \<Rightarrow> bool" where
  "value_found d xs v q \<longleftrightarrow> (\<exists>w ys. xs = w @ ys \<and> json_value d w v \<and> jp_ahead q ys)"

definition pairs_found :: "nat \<Rightarrow> (uint16 list \<times> Json) list \<Rightarrow> int list \<Rightarrow> Json \<Rightarrow> JsonParser \<Rightarrow> bool" where
  "pairs_found d acc xs v q \<longleftrightarrow>
     (\<exists>w ys ms. xs = w @ ys \<and> json_pairs d w ms \<and> v = JObject (acc @ ms) \<and> jp_ahead q ys)"

definition items_found :: "nat \<Rightarrow> Json list \<Rightarrow> int list \<Rightarrow> Json \<Rightarrow> JsonParser \<Rightarrow> bool" where
  "items_found d acc xs v q \<longleftrightarrow>
     (\<exists>w ys vs. xs = w @ ys \<and> json_items d w vs \<and> v = JArray (acc @ vs) \<and> jp_ahead q ys)"

lemma value_found_shift:
  "json_value d (b @ w) v \<Longrightarrow> jp_ahead q ys \<Longrightarrow> xs = b @ w @ ys \<Longrightarrow> value_found d xs v q"
  unfolding value_found_def by (intro exI [of _ "b @ w"] exI [of _ ys]) simp

text \<open>One turn of each of the three functions, given what the calls below it have found.\<close>

lemma word_turn_inv:
  assumes "jp_ahead p xs" "(w, jp_peek p) \<in> set json_words"
    "(w, v) \<in> {(''true'', JTrue), (''false'', JFalse), (''null'', JNull)}"
  shows "value_found d xs v (jp_shift p)"
proof -
  obtain b ys where s: "xs = b @ map chr w @ ys" "json_blank b" "jp_ahead (jp_shift p) ys"
    by (rule jp_word_inv [OF assms(1) refl assms(2)])
  show ?thesis by (rule value_found_shift [OF jv_word [OF s(2) assms(3)] s(3,1)])
qed

lemma scalar_turn_inv:
  assumes "jp_ahead p xs" "ParseJsonValue (Suc n) d p = Some (Some v, q)" "jp_peek p \<noteq> LBRACE" "jp_peek p \<noteq> LBRACK"
  shows "value_found d xs v q"
proof -
  note r = assms(2) [unfolded ParseJsonValue_cases]
  consider "jp_peek p = STRING" | "jp_peek p = NUMBER" | "jp_peek p = FALSE_LITERAL" | "jp_peek p = TRUE_LITERAL"
    | "jp_peek p = NULL_LITERAL"
    using r assms(3,4) by (simp split: if_splits)
  then show ?thesis
  proof cases
    case 1
    then obtain b body vs ys where s: "xs = b @ chr (CHR 0x22) # body @ chr (CHR 0x22) # ys" "json_blank b"
        "json_chars body vs" "GetString (jp_shift p) = map word_of_int vs" "jp_ahead (jp_shift p) ys"
      by (rule jp_string_inv [OF assms(1)])
    show ?thesis using value_found_shift [OF jv_string [OF s(2,3)] s(5)] s(1,4) r 1 by simp
  next
    case 2
    then obtain b w ys where s: "xs = b @ w @ ys" "json_blank b" "json_number w"
        "literal (jp_scanner (jp_shift p)) = map word_of_int w" "jp_ahead (jp_shift p) ys"
      by (rule jp_number_inv [OF assms(1)])
    show ?thesis using value_found_shift [OF jv_number [OF s(2,3)] s(5,1)] s(4) r 2 by simp
  next
    case 3
    then show ?thesis using r word_turn_inv [OF assms(1), of "''false''"] by (simp add: json_words_def)
  next
    case 4
    then show ?thesis using r word_turn_inv [OF assms(1), of "''true''"] by (simp add: json_words_def)
  next
    case 5
    then show ?thesis using r word_turn_inv [OF assms(1), of "''null''"] by (simp add: json_words_def)
  qed
qed

lemma object_turn_inv:
  assumes "jp_ahead p xs" "ParseJsonValue (Suc n) d p = Some (Some v, q)" "jp_peek p = LBRACE"
    "\<And>d p xs v q acc. jp_ahead p xs \<Longrightarrow> json_members n d acc p = Some (Some v, q) \<Longrightarrow> pairs_found d acc xs v q"
  shows "value_found d xs v q"
proof -
  obtain b ys where s: "xs = b @ 123 # ys" "json_blank b" "jp_ahead (jp_shift p) ys"
    by (rule jp_punctuator_inv [OF assms(1,3), of 123]) simp_all
  note r = assms(2) [unfolded ParseJsonValue_cases]
  show ?thesis
  proof (cases "jp_peek (jp_shift p) = RBRACE")
    case True
    then obtain c zs where c: "ys = c @ 125 # zs" "json_blank c" "jp_ahead (jp_shift (jp_shift p)) zs"
      by (rule jp_punctuator_inv [OF s(3), of _ 125]) simp_all
    then show ?thesis using value_found_shift [OF jv_no_pairs [OF s(2) c(2)] c(3)] s(1) r assms(3) True by simp
  next
    case False
    then obtain e where e: "d = Suc e" "json_members n e [] (jp_shift p) = Some (Some v, q)"
      using r assms(3) by (cases d) simp_all
    obtain w zs ms where w: "ys = w @ zs" "json_pairs e w ms" "v = JObject ms" "jp_ahead q zs"
      using assms(4) [OF s(3) e(2)] by (auto simp: pairs_found_def)
    show ?thesis using value_found_shift [OF jv_object [OF s(2) w(2)] w(4)] s(1) e(1) w(1,3) by simp
  qed
qed

lemma array_turn_inv:
  assumes "jp_ahead p xs" "ParseJsonValue (Suc n) d p = Some (Some v, q)" "jp_peek p = LBRACK"
    "\<And>d p xs v q acc. jp_ahead p xs \<Longrightarrow> json_elements n d acc p = Some (Some v, q) \<Longrightarrow> items_found d acc xs v q"
  shows "value_found d xs v q"
proof -
  obtain b ys where s: "xs = b @ 91 # ys" "json_blank b" "jp_ahead (jp_shift p) ys"
    by (rule jp_punctuator_inv [OF assms(1,3), of 91]) simp_all
  note r = assms(2) [unfolded ParseJsonValue_cases]
  show ?thesis
  proof (cases "jp_peek (jp_shift p) = RBRACK")
    case True
    then obtain c zs where c: "ys = c @ 93 # zs" "json_blank c" "jp_ahead (jp_shift (jp_shift p)) zs"
      by (rule jp_punctuator_inv [OF s(3), of _ 93]) simp_all
    then show ?thesis using value_found_shift [OF jv_no_items [OF s(2) c(2)] c(3)] s(1) r assms(3) True by simp
  next
    case False
    then obtain e where e: "d = Suc e" "json_elements n e [] (jp_shift p) = Some (Some v, q)"
      using r assms(3) by (cases d) simp_all
    obtain w zs vs where w: "ys = w @ zs" "json_items e w vs" "v = JArray vs" "jp_ahead q zs"
      using assms(4) [OF s(3) e(2)] by (auto simp: items_found_def)
    show ?thesis using value_found_shift [OF jv_array [OF s(2) w(2)] w(4)] s(1) e(1) w(1,3) by simp
  qed
qed

lemma on_value_Some:
  "on_value r f = Some (Some v, q) \<longleftrightarrow> (\<exists>u a. r = Some (Some u, a) \<and> f (u, a) = Some (Some v, q))"
  by (auto simp: on_value_def split: option.splits)

lemma pairs_found_I:
  "json_pairs d w ms \<Longrightarrow> jp_ahead q ys \<Longrightarrow> xs = w @ ys \<Longrightarrow> v = JObject (acc @ ms) \<Longrightarrow> pairs_found d acc xs v q"
  by (auto simp: pairs_found_def)

lemma items_found_I:
  "json_items d w vs \<Longrightarrow> jp_ahead q ys \<Longrightarrow> xs = w @ ys \<Longrightarrow> v = JArray (acc @ vs) \<Longrightarrow> items_found d acc xs v q"
  by (auto simp: items_found_def)

lemma members_turn_inv:
  assumes "jp_ahead p xs" "json_members (Suc n) d acc p = Some (Some v, q)"
    "\<And>d p xs v q. jp_ahead p xs \<Longrightarrow> ParseJsonValue n d p = Some (Some v, q) \<Longrightarrow> value_found d xs v q"
    "\<And>d p xs v q acc. jp_ahead p xs \<Longrightarrow> json_members n d acc p = Some (Some v, q) \<Longrightarrow> pairs_found d acc xs v q"
  shows "pairs_found d acc xs v q"
proof -
  note r = assms(2) [unfolded json_members_turn]
  have t: "jp_peek p = STRING" "jp_peek (jp_shift p) = COLON" using r by (auto split: if_splits)
  obtain b body key ys where s: "xs = b @ chr (CHR 0x22) # body @ chr (CHR 0x22) # ys" "json_blank b"
      "json_chars body key" "GetString (jp_shift p) = map word_of_int key" "jp_ahead (jp_shift p) ys"
    by (rule jp_string_inv [OF assms(1) t(1)])
  obtain c zs where c: "ys = c @ 58 # zs" "json_blank c" "jp_ahead (jp_shift (jp_shift p)) zs"
    by (rule jp_punctuator_inv [OF s(5) t(2), of 58]) simp_all
  obtain u a where u: "ParseJsonValue n d (jp_shift (jp_shift p)) = Some (Some u, a)"
      "members_rest n d acc (map word_of_int key) (u, a) = Some (Some v, q)"
    using r t s(4) by (auto simp: on_value_Some)
  obtain w es where w: "zs = w @ es" "json_value d w u" "jp_ahead a es"
    using assms(3) [OF c(3) u(1)] by (auto simp: value_found_def)
  show ?thesis
  proof (cases "jp_peek a = COMMA")
    case True
    obtain e fs where e: "es = e @ 44 # fs" "json_blank e" "jp_ahead (jp_shift a) fs"
      by (rule jp_punctuator_inv [OF w(3) True, of 44]) simp_all
    have j: "json_members n d (acc @ [(map word_of_int key, u)]) (jp_shift a) = Some (Some v, q)"
      using u(2) True by (simp add: members_rest_def)
    obtain rest gs ms where m: "fs = rest @ gs" "json_pairs d rest ms"
        "v = JObject (acc @ (map word_of_int key, u) # ms)" "jp_ahead q gs"
      using assms(4) [OF e(3) j] by (auto simp: pairs_found_def)
    show ?thesis
      by (rule pairs_found_I [OF jp_more [OF s(2,3) c(2) w(2) e(2) m(2)] m(4)])
        (use s(1) c(1) w(1) e(1) m(1,3) in simp_all)
  next
    case False
    then have f: "jp_peek a = RBRACE" "v = JObject (acc @ [(map word_of_int key, u)])" "q = jp_shift a"
      using u(2) by (auto simp: members_rest_def split: if_splits)
    obtain e fs where e: "es = e @ 125 # fs" "json_blank e" "jp_ahead (jp_shift a) fs"
      by (rule jp_punctuator_inv [OF w(3) f(1), of 125]) simp_all
    show ?thesis unfolding f(3)
      by (rule pairs_found_I [OF jp_last [OF s(2,3) c(2) w(2) e(2)] e(3)]) (use s(1) c(1) w(1) e(1) f(2) in simp_all)
  qed
qed

lemma elements_turn_inv:
  assumes "jp_ahead p xs" "json_elements (Suc n) d acc p = Some (Some v, q)"
    "\<And>d p xs v q. jp_ahead p xs \<Longrightarrow> ParseJsonValue n d p = Some (Some v, q) \<Longrightarrow> value_found d xs v q"
    "\<And>d p xs v q acc. jp_ahead p xs \<Longrightarrow> json_elements n d acc p = Some (Some v, q) \<Longrightarrow> items_found d acc xs v q"
  shows "items_found d acc xs v q"
proof -
  obtain u a where u: "ParseJsonValue n d p = Some (Some u, a)" "elements_rest n d acc (u, a) = Some (Some v, q)"
    using assms(2) by (auto simp: json_elements_turn on_value_Some)
  obtain w es where w: "xs = w @ es" "json_value d w u" "jp_ahead a es"
    using assms(3) [OF assms(1) u(1)] by (auto simp: value_found_def)
  show ?thesis
  proof (cases "jp_peek a = COMMA")
    case True
    obtain e fs where e: "es = e @ 44 # fs" "json_blank e" "jp_ahead (jp_shift a) fs"
      by (rule jp_punctuator_inv [OF w(3) True, of 44]) simp_all
    have j: "json_elements n d (acc @ [u]) (jp_shift a) = Some (Some v, q)"
      using u(2) True by (simp add: elements_rest_def)
    obtain rest gs vs where m: "fs = rest @ gs" "json_items d rest vs" "v = JArray (acc @ u # vs)" "jp_ahead q gs"
      using assms(4) [OF e(3) j] by (auto simp: items_found_def)
    show ?thesis
      by (rule items_found_I [OF ji_more [OF w(2) e(2) m(2)] m(4)]) (use w(1) e(1) m(1,3) in simp_all)
  next
    case False
    then have f: "jp_peek a = RBRACK" "v = JArray (acc @ [u])" "q = jp_shift a"
      using u(2) by (auto simp: elements_rest_def split: if_splits)
    obtain e fs where e: "es = e @ 93 # fs" "json_blank e" "jp_ahead (jp_shift a) fs"
      by (rule jp_punctuator_inv [OF w(3) f(1), of 93]) simp_all
    show ?thesis unfolding f(3)
      by (rule items_found_I [OF ji_last [OF w(2) e(2)] e(3)]) (use w(1) e(1) f(2) in simp_all)
  qed
qed

lemma parse_grammar_inv:
  "(\<forall>d p xs v q. jp_ahead p xs \<longrightarrow> ParseJsonValue n d p = Some (Some v, q) \<longrightarrow> value_found d xs v q) \<and>
   (\<forall>d p xs v q acc. jp_ahead p xs \<longrightarrow> json_members n d acc p = Some (Some v, q) \<longrightarrow> pairs_found d acc xs v q) \<and>
   (\<forall>d p xs v q acc. jp_ahead p xs \<longrightarrow> json_elements n d acc p = Some (Some v, q) \<longrightarrow> items_found d acc xs v q)"
proof (induction n)
  case (Suc n)
  have v: "value_found d xs v q" if "jp_ahead p xs" "ParseJsonValue (Suc n) d p = Some (Some v, q)" for d p xs v q
    using scalar_turn_inv [OF that] object_turn_inv [OF that] array_turn_inv [OF that] Suc by blast
  moreover have "pairs_found d acc xs v q"
    if "jp_ahead p xs" "json_members (Suc n) d acc p = Some (Some v, q)" for d p xs v q acc
    using members_turn_inv [OF that] Suc by blast
  moreover have "items_found d acc xs v q"
    if "jp_ahead p xs" "json_elements (Suc n) d acc p = Some (Some v, q)" for d p xs v q acc
    using elements_turn_inv [OF that] Suc by blast
  ultimately show ?case by blast
qed simp

lemma value_progress:
  assumes "jp_ahead p xs" "ParseJsonValue n d p = Some (Some v, q)"
  shows "\<exists>ys. jp_ahead q ys \<and> length ys < length xs"
proof -
  have "value_found d xs v q" using parse_grammar_inv [of n] assms by blast
  then obtain w ys where "xs = w @ ys" "json_value d w v" "jp_ahead q ys"
    by (auto simp: value_found_def)
  then show ?thesis using value_length [of d w v] by (intro exI [of _ ys]) simp
qed

section \<open>The fuel\<close>

lemma punctuator_progress:
  assumes "jp_ahead p xs" "jp_peek p = t" "t \<noteq> ILLEGAL" "t \<noteq> EOS"
  shows "\<exists>ys. jp_ahead (jp_shift p) ys \<and> length ys < length xs"
proof -
  obtain b w l ys where l: "xs = b @ w @ ys" "json_lexeme w t l" "jp_token p t l ys"
    by (rule jp_lexeme_inv [OF assms])
  have "w \<noteq> []"
    using l(2) by cases (auto simp: json_words_def json_number_def json_int_part_def)
  then show ?thesis using l(1,3) by (intro exI [of _ ys]) (simp add: jp_token_def)
qed

lemma fuel_enough:
  "(\<forall>d p xs. jp_ahead p xs \<longrightarrow> 2 * length xs < n \<longrightarrow> ParseJsonValue n d p \<noteq> None) \<and>
   (\<forall>d p xs acc. jp_ahead p xs \<longrightarrow> 2 * length xs + 1 < n \<longrightarrow> json_members n d acc p \<noteq> None) \<and>
   (\<forall>d p xs acc. jp_ahead p xs \<longrightarrow> 2 * length xs + 1 < n \<longrightarrow> json_elements n d acc p \<noteq> None)"
proof (induction n)
  case (Suc n)
  have v: "ParseJsonValue (Suc n) d p \<noteq> None" if a: "jp_ahead p xs" "2 * length xs < Suc n" for d p xs
  proof (cases "jp_peek p \<in> {LBRACE, LBRACK}")
    case True
    then obtain ys where "jp_ahead (jp_shift p) ys" "length ys < length xs"
      using punctuator_progress [OF a(1) refl] by auto
    moreover from this have "2 * length ys + 1 < n" using a(2) by simp
    ultimately have "json_members n e [] (jp_shift p) \<noteq> None" "json_elements n e [] (jp_shift p) \<noteq> None" for e
      using Suc by blast+
    then show ?thesis using True by (auto simp: ParseJsonValue_cases)
  next
    case False
    then show ?thesis by (simp add: ParseJsonValue_cases)
  qed
  moreover have "json_members (Suc n) d acc p \<noteq> None" if a: "jp_ahead p xs" "2 * length xs + 1 < Suc n" for d p xs acc
  proof (cases "jp_peek p = STRING \<and> jp_peek (jp_shift p) = COLON")
    case True
    obtain ys where y: "jp_ahead (jp_shift p) ys" "length ys < length xs"
      using True punctuator_progress [OF a(1) refl] by auto
    obtain zs where z: "jp_ahead (jp_shift (jp_shift p)) zs" "length zs < length ys"
      using True punctuator_progress [OF y(1) refl] by auto
    let ?r = "ParseJsonValue n d (jp_shift (jp_shift p))"
    have r: "?r \<noteq> None" using Suc z y(2) a(2) by auto
    show ?thesis
    proof (cases "\<exists>u q. ?r = Some (Some u, q) \<and> jp_peek q = COMMA")
      case c: True
      then obtain u q where u: "?r = Some (Some u, q)" "jp_peek q = COMMA" by blast
      obtain us where us: "jp_ahead q us" "length us < length zs" using value_progress [OF z(1) u(1)] by blast
      obtain vs where vs: "jp_ahead (jp_shift q) vs" "length vs < length us"
        using u(2) punctuator_progress [OF us(1) refl] by auto
      have "2 * length vs + 1 < n" using vs(2) us(2) z(2) y(2) a(2) by simp
      then have "json_members n d ms (jp_shift q) \<noteq> None" for ms using Suc vs(1) by blast
      then show ?thesis using True u by (simp add: json_members_turn on_value_def members_rest_def)
    next
      case False
      then show ?thesis using True r
        by (auto simp: json_members_turn on_value_def members_rest_def split: option.split)
    qed
  qed (auto simp: json_members_turn)
  moreover have "json_elements (Suc n) d acc p \<noteq> None" if a: "jp_ahead p xs" "2 * length xs + 1 < Suc n" for d p xs acc
  proof -
    let ?r = "ParseJsonValue n d p"
    have r: "?r \<noteq> None" using Suc a by auto
    show ?thesis
    proof (cases "\<exists>u q. ?r = Some (Some u, q) \<and> jp_peek q = COMMA")
      case c: True
      then obtain u q where u: "?r = Some (Some u, q)" "jp_peek q = COMMA" by blast
      obtain us where us: "jp_ahead q us" "length us < length xs" using value_progress [OF a(1) u(1)] by blast
      obtain vs where vs: "jp_ahead (jp_shift q) vs" "length vs < length us"
        using u(2) punctuator_progress [OF us(1) refl] by auto
      have "2 * length vs + 1 < n" using vs(2) us(2) a(2) by simp
      then have "json_elements n d ms (jp_shift q) \<noteq> None" for ms using Suc vs(1) by blast
      then show ?thesis using u by (simp add: json_elements_turn on_value_def elements_rest_def)
    next
      case False
      then show ?thesis using r
        by (auto simp: json_elements_turn on_value_def elements_rest_def split: option.split)
    qed
  qed
  ultimately show ?case by blast
qed simp

end
