(* ===== verification/JsonProperties.thy ===== *)
theory JsonProperties
  imports JsonGrammar
begin

text \<open>
  The properties of the JSON parser from \<open>Initialize\<close> on: it accepts exactly the texts of the
  grammar, with the value the grammar gives them, and it always ends.
\<close>

section \<open>The first token\<close>

lemma json_skip_next_desc: "next_desc (json_skip s) = next_desc s"
proof (induction s rule: json_skip.induct)
  case (1 s)
  then show ?case by (subst json_skip.simps) (simp add: Advance_def split: prod.split)
qed

lemma json_skip_update: "json_skip (s\<lparr>next_desc := t\<rparr>) = (json_skip s)\<lparr>next_desc := t\<rparr>"
proof (induction s rule: json_skip.induct)
  case (1 s)
  have "Advance (s\<lparr>next_desc := t\<rparr>) = (Advance s)\<lparr>next_desc := t\<rparr>" by (simp add: Advance_def split: prod.split)
  then show ?case using 1 by (subst (1 2) json_skip.simps) simp
qed

lemma json_scan_loop_set_beg: "json_scan_loop (json_set_beg b u) = json_scan_loop u"
proof -
  have "json_set_beg (source_pos (json_set_beg b u)) (json_set_beg b u) = json_set_beg (source_pos u) u"
    by (simp add: json_set_beg_def source_pos_def)
  then show ?thesis by (subst (1 2) json_scan_loop.simps) simp
qed

lemma json_scan_loop_skip: "json_scan_loop (json_skip u) = json_scan_loop u"
proof (induction u rule: json_skip.induct)
  case (1 u)
  show ?case
  proof (cases "json_white (c0 u)")
    case True
    let ?u = "json_set_beg (source_pos u) u"
    have "json_scan_loop u = json_scan_loop (Advance ?u)"
      using True json_token_white_step [of ?u] by (subst json_scan_loop.simps) (simp add: Let_def)
    also have "Advance ?u = json_set_beg (source_pos u) (Advance u)"
      by (simp add: Advance_def json_set_beg_def split: prod.split)
    finally show ?thesis using 1 True json_scan_loop_set_beg by (subst json_skip.simps) simp
  qed (subst json_skip.simps, simp)
qed

lemma ScanJson_skip: "ScanJson (json_skip s) = ScanJson s"
  by (simp add: ScanJson_def json_skip_next_desc json_skip_update [symmetric] json_scan_loop_skip)

lemma Initialize_ahead: "ahead (JsonScanner_Initialize data) (map uint data)"
proof -
  let ?s = "Scanner_Init (JsonScanner_new\<lparr>source := ExternalBuffer_Initialize data 0 (int (length data)) ExternalBuffer_new\<rparr>)"
  have "json_ready ?s (map uint data)"
  proof (cases data)
    case (Cons c cs)
    have "uint c < 65536" using uint_lt2p [of c] by simp
    then show ?thesis using Cons
      by (simp add: json_ready_def scan_ok_def scan_input_def recorded_def Scanner_Init_def Advance_def Let_def
          ExternalBuffer_Advance_def ExternalBuffer_Initialize_def ExternalBuffer_new_def JsonScanner_new_def
          LiteralCollector_new_def)
  qed (simp add: json_ready_def scan_ok_def scan_input_def recorded_def Scanner_Init_def Advance_def Let_def
          ExternalBuffer_Advance_def ExternalBuffer_Initialize_def ExternalBuffer_new_def JsonScanner_new_def
          LiteralCollector_new_def)
  then show ?thesis
    by (auto simp: ahead_def JsonScanner_Initialize_def SkipJsonWhiteSpace_def Let_def ScanJson_skip)
qed

section \<open>Whole texts\<close>

definition json_start :: "uint16 list \<Rightarrow> JsonParser" where
  "json_start data = \<lparr>jp_scanner = JsonScanner_Initialize data, jp_stack_overflow = False\<rparr>"

lemma json_start_ahead: "jp_ahead (json_start data) (map uint data)"
  by (simp add: json_start_def jp_ahead_def Initialize_ahead)

definition json_error :: "JsonParser \<Rightarrow> JsonError" where
  "json_error p =
     (if jp_stack_overflow p then StackOverflow
      else let desc = current_desc (jp_scanner p); m = unexpected_message (td_token desc)
        in SyntaxError (fst m) (snd m) (td_beg_pos desc) (td_end_pos desc))"

lemma ParseJson_cases:
  "ParseJson n d data =
     (case ParseJsonValue n d (json_start data) of
        None \<Rightarrow> None
      | Some (None, q) \<Rightarrow> Some (Inl (json_error q))
      | Some (Some v, q) \<Rightarrow> Some (if jp_peek q = EOS then Inr v else Inl (json_error (jp_shift q))))"
  by (simp add: ParseJson_def json_start_def json_error_def jp_next_eq Let_def split: option.split prod.split)

lemma ParseJson_ends: "2 * length data < n \<Longrightarrow> ParseJson n d data \<noteq> None"
  using fuel_enough [of n] json_start_ahead [of data]
  by (auto simp: ParseJson_cases split: option.split)

lemma ParseJson_iff:
  assumes "2 * length data < n"
  shows "ParseJson n d data = Some (Inr v) \<longleftrightarrow> json_text d (map uint data) v"
proof
  assume "ParseJson n d data = Some (Inr v)"
  then obtain q where q: "ParseJsonValue n d (json_start data) = Some (Some v, q)" "jp_peek q = EOS"
    by (auto simp: ParseJson_cases split: option.splits if_splits)
  have "value_found d (map uint data) v q"
    using parse_grammar_inv [of n] json_start_ahead q(1) by blast
  then show "json_text d (map uint data) v"
    using q(2) jp_end by (fastforce simp: value_found_def json_text_def)
next
  assume "json_text d (map uint data) v"
  then obtain w e where w: "map uint data = w @ e" "json_value d w v" "json_blank e"
    by (auto simp: json_text_def)
  have "length w + length e = length data" using arg_cong [OF w(1), of length] by simp
  then have "delivers (ParseJsonValue n d (json_start data)) v e"
    using parse_grammar(1) [OF w(2)] json_start_ahead [of data] follows_json_end(2) [OF w(3)] w(1) assms by simp
  then show "ParseJson n d data = Some (Inr v)"
    using jp_end w(3) by (auto simp: delivers_def ParseJson_cases)
qed

text \<open>The stack only matters when the overflow is noted.\<close>

lemma value_calls:
  "ParseJsonValue (Suc n) d p = Some (r, q) \<Longrightarrow>
     json_members n (d - 1) [] (jp_shift p) = Some (r, q) \<or> json_elements n (d - 1) [] (jp_shift p) = Some (r, q) \<or>
     jp_stack_overflow q = jp_stack_overflow p \<or> jp_stack_overflow q"
  by (simp only: ParseJsonValue_cases split: if_splits) auto

lemma members_calls:
  "json_members (Suc n) d acc p = Some (r, q) \<Longrightarrow>
     jp_stack_overflow q = jp_stack_overflow p \<or>
     (\<exists>u a. ParseJsonValue n d (jp_shift (jp_shift p)) = Some (u, a) \<and>
       (jp_stack_overflow q = jp_stack_overflow a \<or> (\<exists>ms. json_members n d ms (jp_shift a) = Some (r, q))))"
  by (simp only: json_members_turn on_value_def members_rest_def split: if_splits option.splits prod.splits) auto

lemma elements_calls:
  "json_elements (Suc n) d acc p = Some (r, q) \<Longrightarrow>
     \<exists>u a. ParseJsonValue n d p = Some (u, a) \<and>
       (jp_stack_overflow q = jp_stack_overflow a \<or> (\<exists>vs. json_elements n d vs (jp_shift a) = Some (r, q)))"
  by (simp only: json_elements_turn on_value_def elements_rest_def split: if_splits option.splits prod.splits) auto

lemma overflow_sticks:
  "(\<forall>d p r q. jp_stack_overflow p \<longrightarrow> ParseJsonValue n d p = Some (r, q) \<longrightarrow> jp_stack_overflow q) \<and>
   (\<forall>d p r q acc. jp_stack_overflow p \<longrightarrow> json_members n d acc p = Some (r, q) \<longrightarrow> jp_stack_overflow q) \<and>
   (\<forall>d p r q acc. jp_stack_overflow p \<longrightarrow> json_elements n d acc p = Some (r, q) \<longrightarrow> jp_stack_overflow q)"
proof (induction n)
  case (Suc n)
  have "jp_stack_overflow q" if "jp_stack_overflow p" "ParseJsonValue (Suc n) d p = Some (r, q)" for d p r q
  proof -
    have "jp_stack_overflow (jp_shift p)" using that(1) by simp
    then show ?thesis using value_calls [OF that(2)] Suc that(1) by blast
  qed
  moreover have "jp_stack_overflow q"
    if "jp_stack_overflow p" "json_members (Suc n) d acc p = Some (r, q)" for d p r q acc
  proof -
    have "jp_stack_overflow (jp_shift (jp_shift p))" using that(1) by simp
    then show ?thesis using members_calls [OF that(2)] Suc that(1) by (metis jp_shift_simps(3))
  qed
  moreover have "jp_stack_overflow q"
    if "jp_stack_overflow p" "json_elements (Suc n) d acc p = Some (r, q)" for d p r q acc
    using elements_calls [OF that(2)] Suc that(1) by (metis jp_shift_simps(3))
  ultimately show ?case by blast
qed simp

lemma more_stack:
  "(\<forall>d p r q. ParseJsonValue n d p = Some (r, q) \<longrightarrow> \<not> jp_stack_overflow q \<longrightarrow> ParseJsonValue n (Suc d) p = Some (r, q)) \<and>
   (\<forall>d p r q acc. json_members n d acc p = Some (r, q) \<longrightarrow> \<not> jp_stack_overflow q \<longrightarrow> json_members n (Suc d) acc p = Some (r, q)) \<and>
   (\<forall>d p r q acc. json_elements n d acc p = Some (r, q) \<longrightarrow> \<not> jp_stack_overflow q \<longrightarrow> json_elements n (Suc d) acc p = Some (r, q))"
proof (induction n)
  case (Suc n)
  have "ParseJsonValue (Suc n) (Suc d) p = Some (r, q)"
    if v: "ParseJsonValue (Suc n) d p = Some (r, q)" "\<not> jp_stack_overflow q" for d p r q
  proof (cases d)
    case 0
    then show ?thesis using v by (auto simp: ParseJsonValue_cases split: if_split_asm)
  next
    case (Suc e)
    have "json_members n e [] (jp_shift p) = Some (r, q) \<Longrightarrow> json_members n d [] (jp_shift p) = Some (r, q)"
      "json_elements n e [] (jp_shift p) = Some (r, q) \<Longrightarrow> json_elements n d [] (jp_shift p) = Some (r, q)"
      using Suc.IH v(2) Suc by blast+
    then show ?thesis using v(1) Suc by (auto simp: ParseJsonValue_cases split: if_split_asm)
  qed
  moreover have "json_members (Suc n) (Suc d) acc p = Some (r, q)"
    if m: "json_members (Suc n) d acc p = Some (r, q)" "\<not> jp_stack_overflow q" for d p r q acc
  proof (cases "jp_peek p = STRING \<and> jp_peek (jp_shift p) = COLON")
    case True
    let ?r = "ParseJsonValue n d (jp_shift (jp_shift p))"
    obtain u a where u: "?r = Some (u, a)"
      using m(1) True by (cases ?r) (auto simp: json_members_turn on_value_def)
    have a: "\<not> jp_stack_overflow a"
    proof
      assume f: "jp_stack_overflow a"
      have "jp_stack_overflow (jp_shift a)" using f by simp
      then have "json_members n d ms (jp_shift a) = Some (r, q) \<Longrightarrow> False" for ms
        using overflow_sticks [of n] m(2) by blast
      then show False using m f True u
        by (auto simp: json_members_turn on_value_def members_rest_def split: option.splits if_splits)
    qed
    have "ParseJsonValue n (Suc d) (jp_shift (jp_shift p)) = Some (u, a)" using Suc.IH u a by blast
    then show ?thesis using m True u Suc.IH
      by (auto simp: json_members_turn on_value_def members_rest_def split: option.splits if_splits)
  qed (use m in \<open>auto simp: json_members_turn split: if_splits\<close>)
  moreover have "json_elements (Suc n) (Suc d) acc p = Some (r, q)"
    if m: "json_elements (Suc n) d acc p = Some (r, q)" "\<not> jp_stack_overflow q" for d p r q acc
  proof -
    let ?r = "ParseJsonValue n d p"
    obtain u a where u: "?r = Some (u, a)"
      using m(1) by (cases ?r) (auto simp: json_elements_turn on_value_def)
    have a: "\<not> jp_stack_overflow a"
    proof
      assume f: "jp_stack_overflow a"
      have "jp_stack_overflow (jp_shift a)" using f by simp
      then have "json_elements n d vs (jp_shift a) = Some (r, q) \<Longrightarrow> False" for vs
        using overflow_sticks [of n] m(2) by blast
      then show False using m f u
        by (auto simp: json_elements_turn on_value_def elements_rest_def split: option.splits if_splits)
    qed
    have "ParseJsonValue n (Suc d) p = Some (u, a)" using Suc.IH u a by blast
    then show ?thesis using m u Suc.IH
      by (auto simp: json_elements_turn on_value_def elements_rest_def split: option.splits if_splits)
  qed
  ultimately show ?case by blast
qed simp

lemma enough_stack:
  "ParseJsonValue n d p = Some (r, q) \<Longrightarrow> \<not> jp_stack_overflow q \<Longrightarrow> ParseJsonValue n (d + k) p = Some (r, q)"
proof (induction k)
  case (Suc k)
  then show ?case using more_stack [of n] by (metis add_Suc_right)
qed simp

lemma json_value_mono:
  "json_value d w v \<Longrightarrow> d \<le> d' \<Longrightarrow> json_value d' w v"
  "json_pairs d w ms \<Longrightarrow> d \<le> d' \<Longrightarrow> json_pairs d' w ms"
  "json_items d w vs \<Longrightarrow> d \<le> d' \<Longrightarrow> json_items d' w vs"
proof (induction arbitrary: d' and d' and d' rule: json_value_json_pairs_json_items.inducts)
  case (jv_object b d w ms)
  then show ?case by (cases d') (auto intro: json_value_json_pairs_json_items.jv_object [simplified])
next
  case (jv_array b d w vs)
  then show ?case by (cases d') (auto intro: json_value_json_pairs_json_items.jv_array [simplified])
qed (auto intro: json_value_json_pairs_json_items.intros [simplified])

text \<open>More fuel does not change a result.\<close>

lemma value_more_fuel:
  assumes "ParseJsonValue (Suc n) d p = Some r"
    "\<And>e q. json_members n e [] q = Some r \<Longrightarrow> json_members m e [] q = Some r"
    "\<And>e q. json_elements n e [] q = Some r \<Longrightarrow> json_elements m e [] q = Some r"
  shows "ParseJsonValue (Suc m) d p = Some r"
proof -
  consider "jp_peek p = LBRACE" | "jp_peek p = LBRACK" | "jp_peek p \<noteq> LBRACE" "jp_peek p \<noteq> LBRACK" by blast
  then show ?thesis
  proof cases
    case 1
    then show ?thesis using assms(1,2) by (simp add: ParseJsonValue_cases split: if_splits)
  next
    case 2
    then show ?thesis using assms(1,3) by (simp add: ParseJsonValue_cases split: if_splits)
  next
    case 3
    then show ?thesis using assms(1) by (auto simp: ParseJsonValue_cases split: if_splits)
  qed
qed

lemma members_more_fuel:
  assumes "json_members (Suc n) d acc p = Some r"
    "\<And>q u. ParseJsonValue n d q = Some u \<Longrightarrow> ParseJsonValue m d q = Some u"
    "\<And>ms q. json_members n d ms q = Some r \<Longrightarrow> json_members m d ms q = Some r"
  shows "json_members (Suc m) d acc p = Some r"
proof (cases "jp_peek p = STRING \<and> jp_peek (jp_shift p) = COLON")
  case True
  let ?p = "jp_shift (jp_shift p)"
  obtain w a where u: "ParseJsonValue n d ?p = Some (w, a)"
    using assms(1) True by (cases "ParseJsonValue n d ?p") (auto simp: json_members_turn on_value_def)
  show ?thesis using assms(1,3) True u assms(2) [OF u]
    by (auto simp: json_members_turn on_value_def members_rest_def split: option.splits if_splits)
qed (use assms(1) in \<open>auto simp: json_members_turn split: if_splits\<close>)

lemma elements_more_fuel:
  assumes "json_elements (Suc n) d acc p = Some r"
    "\<And>q u. ParseJsonValue n d q = Some u \<Longrightarrow> ParseJsonValue m d q = Some u"
    "\<And>vs q. json_elements n d vs q = Some r \<Longrightarrow> json_elements m d vs q = Some r"
  shows "json_elements (Suc m) d acc p = Some r"
proof -
  obtain w a where u: "ParseJsonValue n d p = Some (w, a)"
    using assms(1) by (cases "ParseJsonValue n d p") (auto simp: json_elements_turn on_value_def)
  show ?thesis using assms(1,3) u assms(2) [OF u]
    by (auto simp: json_elements_turn on_value_def elements_rest_def split: option.splits if_splits)
qed

lemma more_fuel:
  "(\<forall>d p r. ParseJsonValue n d p = Some r \<longrightarrow> ParseJsonValue (Suc n) d p = Some r) \<and>
   (\<forall>d p r acc. json_members n d acc p = Some r \<longrightarrow> json_members (Suc n) d acc p = Some r) \<and>
   (\<forall>d p r acc. json_elements n d acc p = Some r \<longrightarrow> json_elements (Suc n) d acc p = Some r)"
proof (induction n)
  case (Suc n)
  have "ParseJsonValue (Suc (Suc n)) d p = Some r" if "ParseJsonValue (Suc n) d p = Some r" for d p r
    by (rule value_more_fuel [OF that]) (use Suc in blast)+
  moreover have "json_members (Suc (Suc n)) d acc p = Some r" if "json_members (Suc n) d acc p = Some r" for d p r acc
    by (rule members_more_fuel [OF that]) (use Suc in blast)+
  moreover have "json_elements (Suc (Suc n)) d acc p = Some r" if "json_elements (Suc n) d acc p = Some r" for d p r acc
    by (rule elements_more_fuel [OF that]) (use Suc in blast)+
  ultimately show ?case by blast
qed simp

lemma ParseJson_more_fuel:
  assumes "2 * length data < n" "n \<le> m"
  shows "ParseJson m d data = ParseJson n d data"
  using assms(2)
proof (induction rule: dec_induct)
  case (step m)
  have "2 * length data < m" using assms(1) step by simp
  then obtain r where "ParseJsonValue m d (json_start data) = Some r"
    using fuel_enough [of m] json_start_ahead [of data] by fastforce
  moreover from this have "ParseJsonValue (Suc m) d (json_start data) = Some r" using more_fuel by blast
  ultimately have "ParseJson (Suc m) d data = ParseJson m d data" by (simp add: ParseJson_cases)
  then show ?case using step by simp
qed simp

lemma ParseJson_error_stack:
  assumes "ParseJson n d data = Some (Inl (SyntaxError m a b e))"
  shows "ParseJson n (d + k) data = ParseJson n d data"
proof -
  obtain r q where q: "ParseJsonValue n d (json_start data) = Some (r, q)" "\<not> jp_stack_overflow q"
    using assms by (auto simp: ParseJson_cases json_error_def split: option.splits if_splits)
  then show ?thesis using enough_stack [OF q, of k] by (simp add: ParseJson_cases)
qed

section \<open>Properties\<close>

text \<open>
  C25. The JSON parser decides the JSON grammar. With fuel for twice the length of the text and a
  stack for \<open>d\<close> open brackets, \<open>ParseJson\<close> returns the value \<open>v\<close> exactly when the text, read as
  16-bit characters, denotes \<open>v\<close> by the grammar with at most \<open>d\<close> nested non-empty objects and arrays:
  strings with their escapes, numbers, words, members in their order, and blanks between the tokens.
\<close>

theorem json_parser_decides_grammar:
  assumes "2 * length data < n"
  shows "ParseJson n d data = Some (Inr v) \<longleftrightarrow> json_text d (map uint data) v"
  using assms by (rule ParseJson_iff)

theorem json_parser_decides_grammar_witness:
  "json_text 1 [91, 49, 93] (JArray [JNumber [49]]) \<and> ParseJson 7 1 [91, 49, 93] = Some (Inr (JArray [JNumber [49]]))"
proof -
  have "json_number [49]"
    unfolding json_number_def
    by (intro exI [of _ "[]"] exI [of _ "[49]"]) (simp add: json_int_part_def json_frac_part_def json_exp_part_def json_digit_def)
  then have "json_value 0 [49] (JNumber [49])" using jv_number [of "[]" "[49]" 0] by simp
  then have "json_items 0 [49, 93] [JNumber [49]]" using ji_last [of 0 "[49]" "JNumber [49]" "[]"] by simp
  then have "json_value 1 [91, 49, 93] (JArray [JNumber [49]])" using jv_array [of "[]" 0 "[49, 93]"] by simp
  then have "json_text 1 [91, 49, 93] (JArray [JNumber [49]])"
    unfolding json_text_def by (intro exI [of _ "[91, 49, 93]"] exI [of _ "[]"]) simp
  then show ?thesis using json_parser_decides_grammar [of "[91, 49, 93]" 7 1 "JArray [JNumber [49]]"] by simp
qed

text \<open>
  C26. Parsing always ends. For every text and every stack there is one result that \<open>ParseJson\<close>
  returns with every fuel above twice the length of the text.
\<close>

theorem json_parser_terminates:
  "\<exists>r. ParseJson (2 * length data + 1 + k) d data = Some r \<and> ParseJson (2 * length data + 1) d data = Some r"
  using ParseJson_ends [of data "2 * length data + 1" d]
    ParseJson_more_fuel [of data "2 * length data + 1" "2 * length data + 1 + k" d] by auto

text \<open>
  C27. A syntax error is never due to the stack: when \<open>ParseJson\<close> throws one, no stack however large
  would make the text a value.
\<close>

theorem json_syntax_error_final:
  assumes "2 * length data < n" "ParseJson n d data = Some (Inl (SyntaxError m a b e))"
  shows "\<not> json_text d' (map uint data) v"
proof
  assume "json_text d' (map uint data) v"
  then have "json_text (d + d') (map uint data) v"
    using json_value_mono(1) [of d' _ v "d + d'"] by (auto simp: json_text_def)
  then have "ParseJson n (d + d') data = Some (Inr v)" using ParseJson_iff [OF assms(1)] by blast
  then show False using ParseJson_error_stack [OF assms(2)] assms(2) by simp
qed

theorem json_syntax_error_final_witness: "\<not> json_text 5 [44] JNull"
proof -
  have "ParseJson 3 0 [44] = Some (Inl (SyntaxError ''unexpected_token'' (Some '','') 0 1))"
    by (simp add: ParseJson_cases ParseJsonValue_cases json_start_def jp_peek_def numeral_3_eq_3 JsonScanner_Initialize_def
        SkipJsonWhiteSpace_def json_skip.simps json_scan_loop.simps ScanJson_def Scanner_Init_def Advance_def Let_def
        ExternalBuffer_Advance_def ExternalBuffer_Initialize_def ExternalBuffer_new_def JsonScanner_new_def
        LiteralCollector_new_def json_token_def json_set_beg_def json_white_def json_error_def jp_shift_scanner
        json_digit_def unexpected_message_def source_pos_def kCharacterLookaheadBufferSize_def kNoEndPosition_def TokenDesc_new_def)
  then show ?thesis using json_syntax_error_final [of "[44]" 3 0 _ _ _ _ 5 JNull] by simp
qed

end
