(* ===== verification/Bignum.thy ===== *)
theory Bignum
  imports V8Prelude
begin

text \<open>
  \<open>Bignum\<close> of src/src/bignum.h and src/src/bignum.cc: natural numbers of up to 128 digits of 28 bits in
  32-bit chunks, scaled by a power of \<open>2 ^ 28\<close>. The array of chunks is a list, a \<open>for\<close> loop a fold over
  its range of indices, and chunk arithmetic is that of 32-bit and 64-bit words. \<open>EnsureCapacity\<close> is
  the one of a build whose UNREACHABLE stops the program; the stop is an error value. The counters of
  the code, of type \<open>int\<close>, are natural numbers: the capacity keeps them small.
\<close>

section \<open>State\<close>

definition kMaxSignificantBits :: nat where "kMaxSignificantBits = 3584"
definition kBigitSize :: nat where "kBigitSize = 28"
definition kBigitMask :: uint32 where "kBigitMask = 0xFFFFFFF"
definition kChunkSize :: nat where "kChunkSize = 32"
definition kBigitCapacity :: nat where "kBigitCapacity = kMaxSignificantBits div kBigitSize"

record Bignum =
  bn_bigits :: "uint32 list"
  bn_used :: nat
  bn_exponent :: nat

text \<open>
  The ways an operation stops: no room for a digit, an array access behind the end, more digits than
  the product can accumulate, and the loop over the factors two of a base zero, which never ends.
\<close>

datatype bignum_error = CapacityExceeded | OutOfBounds | TooManyDigits | EndlessLoop

definition bn_then :: "bignum_error + 'a \<Rightarrow> ('a \<Rightarrow> bignum_error + 'b) \<Rightarrow> bignum_error + 'b" where
  "bn_then r f = (case r of Inl e \<Rightarrow> Inl e | Inr x \<Rightarrow> f x)"

lemma bn_then_simps [simp]: "bn_then (Inl e) f = Inl e" "bn_then (Inr x) f = f x"
  by (simp_all add: bn_then_def)

lemma bn_then_cong [fundef_cong]:
  "r = r' \<Longrightarrow> (\<And>x. r' = Inr x \<Longrightarrow> f x = g x) \<Longrightarrow> bn_then r f = bn_then r' g"
  by (cases r') simp_all

definition EnsureCapacity :: "nat \<Rightarrow> bignum_error + 'a \<Rightarrow> bignum_error + 'a" where
  "EnsureCapacity needed r = (if kBigitCapacity < needed then Inl CapacityExceeded else r)"

definition Bignum_new :: Bignum where
  "Bignum_new = \<lparr>bn_bigits = replicate kBigitCapacity 0, bn_used = 0, bn_exponent = 0\<rparr>"

definition BigitLength :: "Bignum \<Rightarrow> nat" where
  "BigitLength b = bn_used b + bn_exponent b"

definition BigitAt :: "Bignum \<Rightarrow> nat \<Rightarrow> uint32" where
  "BigitAt b index =
     (if BigitLength b \<le> index then 0 else if index < bn_exponent b then 0 else bn_bigits b ! (index - bn_exponent b))"

fun clamp_digits :: "uint32 list \<Rightarrow> nat \<Rightarrow> nat" where
  "clamp_digits ds 0 = 0"
| "clamp_digits ds (Suc n) = (if ds ! n = 0 then clamp_digits ds n else Suc n)"

definition Clamp :: "Bignum \<Rightarrow> Bignum" where
  "Clamp b =
     (let n = clamp_digits (bn_bigits b) (bn_used b) in
      b\<lparr>bn_used := n, bn_exponent := (if n = 0 then 0 else bn_exponent b)\<rparr>)"

definition IsClamped :: "Bignum \<Rightarrow> bool" where
  "IsClamped b \<longleftrightarrow> bn_used b = 0 \<or> bn_bigits b ! (bn_used b - 1) \<noteq> 0"

definition Zero :: "Bignum \<Rightarrow> Bignum" where
  "Zero b = b\<lparr>bn_bigits := fold (\<lambda>i ds. ds[i := 0]) [0..<bn_used b] (bn_bigits b), bn_used := 0, bn_exponent := 0\<rparr>"

definition Align :: "Bignum \<Rightarrow> Bignum \<Rightarrow> bignum_error + Bignum" where
  "Align other b =
     (if bn_exponent b > bn_exponent other then
        (let zero_digits = bn_exponent b - bn_exponent other in
         EnsureCapacity (bn_used b + zero_digits)
           (let ds = fold (\<lambda>i ds. ds[i + zero_digits := ds ! i]) (rev [0..<bn_used b]) (bn_bigits b);
                ds = fold (\<lambda>i ds. ds[i := 0]) [0..<zero_digits] ds
            in Inr (b\<lparr>bn_bigits := ds, bn_used := bn_used b + zero_digits,
                      bn_exponent := bn_exponent b - zero_digits\<rparr>)))
      else Inr b)"

section \<open>Assignments\<close>

definition AssignUInt16 :: "uint16 \<Rightarrow> Bignum \<Rightarrow> bignum_error + Bignum" where
  "AssignUInt16 v b =
     (let b = Zero b in
      if v = 0 then Inr b
      else EnsureCapacity 1 (Inr (b\<lparr>bn_bigits := (bn_bigits b)[0 := ucast v], bn_used := 1\<rparr>)))"

definition AssignUInt64 :: "uint64 \<Rightarrow> Bignum \<Rightarrow> bignum_error + Bignum" where
  "AssignUInt64 v b =
     (let b = Zero b in
      if v = 0 then Inr b
      else
        (let needed_bigits = 64 div kBigitSize + 1 in
         EnsureCapacity needed_bigits
           (let (ds, _) = fold (\<lambda>i (ds, value). (ds[i := ucast (value AND ucast kBigitMask)], drop_bit kBigitSize value))
                  [0..<needed_bigits] (bn_bigits b, v)
            in Inr (Clamp (b\<lparr>bn_bigits := ds, bn_used := needed_bigits\<rparr>)))))"

definition AssignBignum :: "Bignum \<Rightarrow> Bignum \<Rightarrow> Bignum" where
  "AssignBignum other b =
     (let ds = fold (\<lambda>i ds. ds[i := bn_bigits other ! i]) [0..<bn_used other] (bn_bigits b);
          ds = fold (\<lambda>i ds. ds[i := 0]) [bn_used other..<bn_used b] ds
      in b\<lparr>bn_exponent := bn_exponent other, bn_bigits := ds, bn_used := bn_used other\<rparr>)"

section \<open>Sums and differences\<close>

text \<open>The loop that carries into the digits behind the second operand.\<close>

function add_carry :: "uint32 list \<Rightarrow> nat \<Rightarrow> uint32 \<Rightarrow> bignum_error + (uint32 list \<times> nat)" where
  "add_carry ds pos carry =
     (if carry = 0 then Inr (ds, pos)
      else if length ds \<le> pos then Inl OutOfBounds
      else (let sum = ds ! pos + carry
            in add_carry (ds[pos := sum AND kBigitMask]) (pos + 1) (drop_bit kBigitSize sum)))"
  by pat_completeness auto
termination by (relation "measure (\<lambda>(ds, pos, c). length ds - pos)") auto

declare add_carry.simps [simp del]

definition add_digits :: "Bignum \<Rightarrow> nat \<Rightarrow> uint32 list \<Rightarrow> uint32 list \<times> uint32" where
  "add_digits other offset ds =
     fold (\<lambda>i (ds, carry).
         let sum = ds ! (offset + i) + bn_bigits other ! i + carry
         in (ds[offset + i := sum AND kBigitMask], drop_bit kBigitSize sum))
       [0..<bn_used other] (ds, 0)"

definition AddBignum :: "Bignum \<Rightarrow> Bignum \<Rightarrow> bignum_error + Bignum" where
  "AddBignum other b =
     bn_then (Align other b) (\<lambda>b.
       EnsureCapacity (1 + max (BigitLength b) (BigitLength other) - bn_exponent b)
         (let offset = bn_exponent other - bn_exponent b;
              (ds, carry) = add_digits other offset (bn_bigits b)
          in bn_then (add_carry ds (offset + bn_used other) carry) (\<lambda>(ds, pos).
               Inr (b\<lparr>bn_bigits := ds, bn_used := max pos (bn_used b)\<rparr>))))"

definition AddUInt64 :: "uint64 \<Rightarrow> Bignum \<Rightarrow> bignum_error + Bignum" where
  "AddUInt64 operand b =
     (if operand = 0 then Inr b
      else bn_then (AssignUInt64 operand Bignum_new) (\<lambda>other. AddBignum other b))"

function subtract_borrow :: "uint32 list \<Rightarrow> nat \<Rightarrow> uint32 \<Rightarrow> bignum_error + uint32 list" where
  "subtract_borrow ds pos borrow =
     (if borrow = 0 then Inr ds
      else if length ds \<le> pos then Inl OutOfBounds
      else (let difference = ds ! pos - borrow
            in subtract_borrow (ds[pos := difference AND kBigitMask]) (pos + 1)
                 (drop_bit (kChunkSize - 1) difference)))"
  by pat_completeness auto
termination by (relation "measure (\<lambda>(ds, pos, c). length ds - pos)") auto

declare subtract_borrow.simps [simp del]

definition subtract_digits :: "Bignum \<Rightarrow> nat \<Rightarrow> uint32 list \<Rightarrow> uint32 list \<times> uint32" where
  "subtract_digits other offset ds =
     fold (\<lambda>i (ds, borrow).
         let difference = ds ! (i + offset) - bn_bigits other ! i - borrow
         in (ds[i + offset := difference AND kBigitMask], drop_bit (kChunkSize - 1) difference))
       [0..<bn_used other] (ds, 0)"

definition SubtractBignum :: "Bignum \<Rightarrow> Bignum \<Rightarrow> bignum_error + Bignum" where
  "SubtractBignum other b =
     bn_then (Align other b) (\<lambda>b.
       let offset = bn_exponent other - bn_exponent b;
           (ds, borrow) = subtract_digits other offset (bn_bigits b)
       in bn_then (subtract_borrow ds (bn_used other + offset) borrow) (\<lambda>ds.
            Inr (Clamp (b\<lparr>bn_bigits := ds\<rparr>))))"

section \<open>Shifts and products\<close>

definition shift_digits :: "nat \<Rightarrow> nat \<Rightarrow> uint32 list \<Rightarrow> uint32 list \<times> uint32" where
  "shift_digits shift_amount n ds =
     fold (\<lambda>i (ds, carry).
         (ds[i := (push_bit shift_amount (ds ! i) + carry) AND kBigitMask], drop_bit (kBigitSize - shift_amount) (ds ! i)))
       [0..<n] (ds, 0)"

definition BigitsShiftLeft :: "nat \<Rightarrow> Bignum \<Rightarrow> Bignum" where
  "BigitsShiftLeft shift_amount b =
     (let (ds, carry) = shift_digits shift_amount (bn_used b) (bn_bigits b)
      in if carry \<noteq> 0 then b\<lparr>bn_bigits := ds[bn_used b := carry], bn_used := bn_used b + 1\<rparr>
         else b\<lparr>bn_bigits := ds\<rparr>)"

definition ShiftLeft :: "nat \<Rightarrow> Bignum \<Rightarrow> bignum_error + Bignum" where
  "ShiftLeft shift_amount b =
     (if bn_used b = 0 then Inr b
      else EnsureCapacity (bn_used b + 1)
        (Inr (BigitsShiftLeft (shift_amount mod kBigitSize)
           (b\<lparr>bn_exponent := bn_exponent b + shift_amount div kBigitSize\<rparr>))))"

text \<open>The loop that appends the digits of the carry, with the capacity it checks.\<close>

function push_carry :: "uint32 list \<Rightarrow> nat \<Rightarrow> uint64 \<Rightarrow> bignum_error + (uint32 list \<times> nat)" where
  "push_carry ds n carry =
     (if carry = 0 then Inr (ds, n)
      else EnsureCapacity (n + 1)
        (push_carry (ds[n := ucast (carry AND ucast kBigitMask)]) (n + 1) (drop_bit kBigitSize carry)))"
  by pat_completeness auto
termination
proof (relation "measure (\<lambda>(ds, n, c). unat c)", goal_cases)
  case (2 ds n carry)
  then have "0 < unat carry" by (simp add: unat_gt_0)
  then have "unat (drop_bit kBigitSize carry) < unat carry"
    by (simp only: unsigned_drop_bit_eq drop_bit_eq_div kBigitSize_def)
      (simp add: take_bit_eq_mod unat_div div_less_dividend)
  then show ?case by simp
qed simp

declare push_carry.simps [simp del]

definition multiply_digits :: "uint32 \<Rightarrow> nat \<Rightarrow> uint32 list \<Rightarrow> uint32 list \<times> uint64" where
  "multiply_digits factor n ds =
     fold (\<lambda>i (ds, carry).
         let product = ucast factor * ucast (ds ! i) + carry
         in (ds[i := ucast (product AND ucast kBigitMask)], drop_bit kBigitSize product))
       [0..<n] (ds, 0)"

definition MultiplyByUInt32 :: "uint32 \<Rightarrow> Bignum \<Rightarrow> bignum_error + Bignum" where
  "MultiplyByUInt32 factor b =
     (if factor = 1 then Inr b
      else if factor = 0 then Inr (Zero b)
      else if bn_used b = 0 then Inr b
      else
        (let (ds, carry) = multiply_digits factor (bn_used b) (bn_bigits b)
         in bn_then (push_carry ds (bn_used b) carry) (\<lambda>(ds, n). Inr (b\<lparr>bn_bigits := ds, bn_used := n\<rparr>))))"

definition multiply_digits_64 :: "uint64 \<Rightarrow> nat \<Rightarrow> uint32 list \<Rightarrow> uint32 list \<times> uint64" where
  "multiply_digits_64 factor n ds =
     (let low = factor AND 0xFFFFFFFF;
          high = drop_bit 32 factor
      in fold (\<lambda>i (ds, carry).
             let product_low = low * ucast (ds ! i);
                 product_high = high * ucast (ds ! i);
                 tmp = (carry AND ucast kBigitMask) + product_low
             in (ds[i := ucast (tmp AND ucast kBigitMask)],
                 drop_bit kBigitSize carry + drop_bit kBigitSize tmp + push_bit (32 - kBigitSize) product_high))
           [0..<n] (ds, 0))"

definition MultiplyByUInt64 :: "uint64 \<Rightarrow> Bignum \<Rightarrow> bignum_error + Bignum" where
  "MultiplyByUInt64 factor b =
     (if factor = 1 then Inr b
      else if factor = 0 then Inr (Zero b)
      else
        (let (ds, carry) = multiply_digits_64 factor (bn_used b) (bn_bigits b)
         in bn_then (push_carry ds (bn_used b) carry) (\<lambda>(ds, n). Inr (b\<lparr>bn_bigits := ds, bn_used := n\<rparr>))))"

definition kFive27 :: uint64 where "kFive27 = 0x6765c793fa10079d"
definition kFive13 :: uint32 where "kFive13 = 1220703125"

definition kFive1_to_12 :: "uint32 list" where
  "kFive1_to_12 = [5, 25, 125, 625, 3125, 15625, 78125, 390625, 1953125, 9765625, 48828125, 244140625]"

text \<open>The two \<open>while\<close> loops take 27 and 13 off the exponent as long as it lasts.\<close>

function five27_loop :: "nat \<Rightarrow> Bignum \<Rightarrow> bignum_error + (nat \<times> Bignum)" where
  "five27_loop remaining_exponent b =
     (if remaining_exponent \<ge> 27 then bn_then (MultiplyByUInt64 kFive27 b) (five27_loop (remaining_exponent - 27))
      else Inr (remaining_exponent, b))"
  by pat_completeness auto
termination by (relation "measure fst") auto

function five13_loop :: "nat \<Rightarrow> Bignum \<Rightarrow> bignum_error + (nat \<times> Bignum)" where
  "five13_loop remaining_exponent b =
     (if remaining_exponent \<ge> 13 then bn_then (MultiplyByUInt32 kFive13 b) (five13_loop (remaining_exponent - 13))
      else Inr (remaining_exponent, b))"
  by pat_completeness auto
termination by (relation "measure fst") auto

declare five27_loop.simps [simp del] five13_loop.simps [simp del]

definition MultiplyByPowerOfTen :: "nat \<Rightarrow> Bignum \<Rightarrow> bignum_error + Bignum" where
  "MultiplyByPowerOfTen e b =
     (if e = 0 then Inr b
      else if bn_used b = 0 then Inr b
      else
        bn_then (five27_loop e b) (\<lambda>(remaining_exponent, b).
        bn_then (five13_loop remaining_exponent b) (\<lambda>(remaining_exponent, b).
        bn_then (if remaining_exponent > 0 then MultiplyByUInt32 (kFive1_to_12 ! (remaining_exponent - 1)) b else Inr b)
          (ShiftLeft e))))"

definition Times10 :: "Bignum \<Rightarrow> bignum_error + Bignum" where
  "Times10 = MultiplyByUInt32 10"

end
