(* ===== verification/BignumDigits.thy ===== *)
theory BignumDigits
  imports Bignum
begin

text \<open>
  What the digits of a \<open>Bignum\<close> stand for: the number of an array of digits, how it changes when one
  digit is stored, the invariant of a \<open>Bignum\<close> and its value, and the arithmetic of one digit with a
  carry or a borrow.
\<close>

section \<open>Loops over indices\<close>

lemma fold_upt_induct [consumes 1, case_names start step]:
  assumes "a \<le> n" "P a s" "\<And>i s. a \<le> i \<Longrightarrow> i < n \<Longrightarrow> P i s \<Longrightarrow> P (Suc i) (f i s)"
  shows "P n (fold f [a..<n] s)"
  using assms(1,3) by (induction n rule: dec_induct) (simp_all add: assms(2))

section \<open>The number of an array\<close>

abbreviation digit_base :: nat where "digit_base \<equiv> 268435456"

definition digits_value :: "uint32 list \<Rightarrow> nat" where
  "digits_value ds = (\<Sum>i<length ds. unat (ds ! i) * digit_base ^ i)"

lemma digits_value_Nil [simp]: "digits_value [] = 0"
  by (simp add: digits_value_def)

lemma digits_value_Cons [simp]: "digits_value (d # ds) = unat d + digit_base * digits_value ds"
  by (simp add: digits_value_def sum.lessThan_Suc_shift sum_distrib_left mult.assoc mult.left_commute del: sum.lessThan_Suc)

lemma digits_value_append:
  "digits_value (xs @ ys) = digits_value xs + digit_base ^ length xs * digits_value ys"
  by (induction xs) (simp_all add: distrib_left mult.assoc)

lemma digits_value_zeros: "\<forall>d \<in> set ds. d = 0 \<Longrightarrow> digits_value ds = 0"
  by (induction ds) simp_all

lemma digits_value_update:
  "p < length ds \<Longrightarrow>
   digits_value (ds[p := x]) + unat (ds ! p) * digit_base ^ p = digits_value ds + unat x * digit_base ^ p"
proof (induction ds arbitrary: p)
  case (Cons d ds)
  show ?case
  proof (cases p)
    case (Suc q)
    then have "digits_value (ds[q := x]) + unat (ds ! q) * digit_base ^ q = digits_value ds + unat x * digit_base ^ q"
      using Cons by simp
    then have "digit_base * (digits_value (ds[q := x]) + unat (ds ! q) * digit_base ^ q) =
        digit_base * (digits_value ds + unat x * digit_base ^ q)"
      by simp
    then show ?thesis using Suc by (simp add: algebra_simps)
  qed simp
qed simp

lemma digits_value_take_Suc:
  "n < length ds \<Longrightarrow> digits_value (take (Suc n) ds) = digits_value (take n ds) + unat (ds ! n) * digit_base ^ n"
  by (simp add: take_Suc_conv_app_nth digits_value_append)

text \<open>Digits in range.\<close>

definition small_digits :: "uint32 list \<Rightarrow> bool" where
  "small_digits ds \<longleftrightarrow> (\<forall>d \<in> set ds. unat d < digit_base)"

lemma small_digits_nth: "small_digits ds \<Longrightarrow> i < length ds \<Longrightarrow> unat (ds ! i) < digit_base"
  by (simp add: small_digits_def)

lemma small_digits_update: "small_digits ds \<Longrightarrow> unat x < digit_base \<Longrightarrow> small_digits (ds[i := x])"
  using set_update_subset_insert [of ds i x] by (auto simp: small_digits_def)

lemma digits_value_less: "small_digits ds \<Longrightarrow> digits_value ds < digit_base ^ length ds"
proof (induction ds)
  case (Cons d ds)
  then have "digits_value ds + 1 \<le> digit_base ^ length ds" "unat d < digit_base"
    by (simp_all add: small_digits_def Suc_le_eq)
  then have "unat d + digit_base * digits_value ds < digit_base * (digits_value ds + 1)" by simp
  also have "\<dots> \<le> digit_base * digit_base ^ length ds"
    using \<open>digits_value ds + 1 \<le> digit_base ^ length ds\<close> by (rule mult_le_mono2)
  finally show ?case by simp
qed simp

section \<open>The invariant and the value\<close>

definition bignum_ok :: "Bignum \<Rightarrow> bool" where
  "bignum_ok b \<longleftrightarrow> length (bn_bigits b) = kBigitCapacity \<and> bn_used b \<le> kBigitCapacity \<and> small_digits (bn_bigits b) \<and>
     (\<forall>i. bn_used b \<le> i \<longrightarrow> i < kBigitCapacity \<longrightarrow> bn_bigits b ! i = 0) \<and>
     (bn_used b = 0 \<longrightarrow> bn_exponent b = 0)"

definition bn_value :: "Bignum \<Rightarrow> nat" where
  "bn_value b = digits_value (take (bn_used b) (bn_bigits b)) * digit_base ^ bn_exponent b"

lemma capacity [simp]: "kBigitCapacity = 128"
  by (simp add: kBigitCapacity_def kMaxSignificantBits_def kBigitSize_def)

lemma bignum_okI:
  assumes "length (bn_bigits b) = 128" "bn_used b \<le> 128" "small_digits (bn_bigits b)"
    "\<And>i. bn_used b \<le> i \<Longrightarrow> i < 128 \<Longrightarrow> bn_bigits b ! i = 0" "bn_used b = 0 \<Longrightarrow> bn_exponent b = 0"
  shows "bignum_ok b"
  using assms by (simp add: bignum_ok_def)

lemma bignum_okD:
  assumes "bignum_ok b"
  shows "length (bn_bigits b) = 128" "bn_used b \<le> 128" "small_digits (bn_bigits b)"
    "bn_used b \<le> i \<Longrightarrow> i < 128 \<Longrightarrow> bn_bigits b ! i = 0" "i < 128 \<Longrightarrow> unat (bn_bigits b ! i) < digit_base"
    "bn_used b = 0 \<Longrightarrow> bn_exponent b = 0"
  using assms by (simp_all add: bignum_ok_def small_digits_nth)

lemma digits_value_take:
  assumes "\<And>i. n \<le> i \<Longrightarrow> i < length ds \<Longrightarrow> ds ! i = 0"
  shows "digits_value (take n ds) = digits_value ds"
proof -
  have "d = 0" if "d \<in> set (drop n ds)" for d
    using that assms by (auto simp: in_set_conv_nth)
  then have "digits_value (drop n ds) = 0" by (intro digits_value_zeros) blast
  then show ?thesis using digits_value_append [of "take n ds" "drop n ds"] by simp
qed

lemma bn_value_all: "bignum_ok b \<Longrightarrow> bn_value b = digits_value (bn_bigits b) * digit_base ^ bn_exponent b"
  by (simp add: bn_value_def bignum_ok_def digits_value_take)

section \<open>One digit\<close>

lemma unat_bigit_mask [simp]: "unat (x AND kBigitMask) = unat x mod digit_base"
proof -
  have m: "kBigitMask = mask 28" by (simp add: kBigitMask_def mask_eq_exp_minus_1)
  show ?thesis unfolding m take_bit_eq_mask [symmetric] unsigned_take_bit_eq by (simp add: take_bit_eq_mod)
qed

lemma unat_drop_bit_word: "unat (drop_bit n x) = unat x div 2 ^ n" for x :: "'a::len word"
  by (simp only: unsigned_drop_bit_eq) (simp add: drop_bit_eq_div take_bit_eq_mod)


lemma unat_bigit_mask_64 [simp]: "unat (x AND ucast kBigitMask) = unat x mod digit_base" for x :: uint64
proof -
  have m: "ucast kBigitMask = (mask 28 :: uint64)" by (simp add: kBigitMask_def mask_eq_exp_minus_1)
  show ?thesis unfolding m take_bit_eq_mask [symmetric] unsigned_take_bit_eq by (simp add: take_bit_eq_mod)
qed

lemma unat_low_chunk [simp]: "unat (ucast (x AND ucast kBigitMask) :: uint32) = unat x mod digit_base" for x :: uint64
proof -
  have "unat (x AND ucast kBigitMask) < 2 ^ 32" by (simp add: less_trans [OF mod_less_divisor])
  then show ?thesis by (simp add: unsigned_ucast_eq take_bit_eq_mod)
qed

lemma unat_carry [simp]: "unat (drop_bit kBigitSize x) = unat x div digit_base" for x :: "'a::len word"
  by (simp only: unat_drop_bit_word kBigitSize_def) simp

lemma unat_add3:
  fixes a b c :: "'a::len word"
  assumes "unat a + unat b + unat c < 2 ^ LENGTH('a)"
  shows "unat (a + b + c) = unat a + unat b + unat c"
proof -
  have "unat (a + b) = unat a + unat b" using assms by (simp add: unat_add_lem [THEN iffD1])
  then show ?thesis using assms by (simp add: unat_add_lem [THEN iffD1])
qed

text \<open>A difference with a borrow of 0 or 1: the top bit of the chunk is the next borrow.\<close>

lemma unat_difference:
  fixes a b c :: uint32
  assumes "unat a < digit_base" "unat b < digit_base" "unat c \<le> 1"
  defines "r \<equiv> a - b - c"
  shows "unat (r AND kBigitMask) + unat b + unat c = unat a + digit_base * unat (drop_bit (kChunkSize - 1) r)"
    "unat (drop_bit (kChunkSize - 1) r) \<le> 1"
proof -
  have top: "unat (drop_bit (kChunkSize - 1) r) = unat r div 2 ^ 31"
    by (simp only: unat_drop_bit_word kChunkSize_def) simp
  have "if unat b + unat c \<le> unat a then unat r = unat a - (unat b + unat c)
      else unat r + unat b + unat c = unat a + 2 ^ 32"
    using assms(1-3) by (auto simp: r_def unat_sub_if' split: if_splits)
  note r = this
  have "unat (drop_bit (kChunkSize - 1) r) \<le> 1 \<and>
    unat (r AND kBigitMask) + unat b + unat c = unat a + digit_base * unat (drop_bit (kChunkSize - 1) r)"
  proof (cases "unat b + unat c \<le> unat a")
    case True
    then have "unat r < digit_base" "unat r + (unat b + unat c) = unat a" using r assms(1) by simp_all
    then show ?thesis unfolding top by simp
  next
    case False
    define k where "k = unat a + digit_base - (unat b + unat c)"
    have k: "unat r = 15 * digit_base + k" "k < digit_base" "k + (unat b + unat c) = unat a + digit_base"
      using r False assms(1-3) by (simp_all add: k_def)
    have "unat r mod digit_base = (k + 15 * digit_base) mod digit_base" by (simp only: k(1) add.commute)
    also have "\<dots> = k" by (simp only: mod_mult_self1) (simp add: k(2))
    finally have "unat r mod digit_base = k" .
    moreover have "unat r div 2 ^ 31 = 1" using k(1,2) by simp
    ultimately have "unat r div 2 ^ 31 = 1" "unat r mod digit_base = k" by simp_all
    then show ?thesis unfolding top using k(3) by simp
  qed
  then show "unat (drop_bit (kChunkSize - 1) r) \<le> 1"
    "unat (r AND kBigitMask) + unat b + unat c = unat a + digit_base * unat (drop_bit (kChunkSize - 1) r)"
    by simp_all
qed

end
