(* ===== verification/BignumArith.thy ===== *)
theory BignumArith
  imports BignumDigits
begin

text \<open>
  The arithmetic of \<open>Bignum\<close>: every operation keeps the invariant and computes the number it should,
  or stops with \<open>CapacityExceeded\<close>.
\<close>

section \<open>Clearing and clamping\<close>

lemma fold_zeros:
  "n \<le> length ds \<Longrightarrow> fold (\<lambda>i ds. ds[i := (0 :: uint32)]) [0..<n] ds = replicate n 0 @ drop n ds"
proof (induction n)
  case (Suc n)
  then have "drop n ds = ds ! n # drop (Suc n) ds" by (simp add: Cons_nth_drop_Suc)
  then show ?case using Suc by (simp add: list_update_append replicate_append_same [symmetric])
qed simp

lemma fold_shift:
  "n + z \<le> length ds \<Longrightarrow>
   fold (\<lambda>i ds. ds[i + z := ds ! i]) (rev [0..<n]) ds = take z ds @ take n ds @ drop (n + z) ds"
proof (induction n arbitrary: ds)
  case (Suc n)
  let ?ds = "ds[n + z := ds ! n]"
  have "drop (n + z) ?ds = ds ! n # drop (Suc n + z) ds"
    using Suc.prems by (simp add: drop_update_swap Cons_nth_drop_Suc [symmetric])
  then show ?case using Suc by (simp add: take_Suc_conv_app_nth)
qed (simp add: append_take_drop_id)

lemma clamp_digits_le: "clamp_digits ds n \<le> n"
  by (induction n) (simp_all add: le_Suc_eq)

lemma clamp_digits_zero: "clamp_digits ds n \<le> i \<Longrightarrow> i < n \<Longrightarrow> ds ! i = 0"
  by (induction n) (auto simp: less_Suc_eq split: if_splits)

lemma clamp_digits_top: "clamp_digits ds n \<noteq> 0 \<Longrightarrow> ds ! (clamp_digits ds n - 1) \<noteq> 0"
  by (induction n) auto

lemma Clamp_ok:
  assumes "bignum_ok b"
  shows "bignum_ok (Clamp b)" "bn_value (Clamp b) = bn_value b" "IsClamped (Clamp b)"
proof -
  let ?n = "clamp_digits (bn_bigits b) (bn_used b)"
  have z: "bn_bigits b ! i = 0" if "?n \<le> i" "i < 128" for i
    using that clamp_digits_zero [of "bn_bigits b" "bn_used b" i] bignum_okD(4) [OF assms, of i] by (cases "i < bn_used b") auto
  show ok: "bignum_ok (Clamp b)"
    using bignum_okD(1-3) [OF assms] clamp_digits_le [of "bn_bigits b" "bn_used b"] z
    by (intro bignum_okI) (auto simp: Clamp_def Let_def)
  show "bn_value (Clamp b) = bn_value b"
  proof (cases "?n = 0")
    case True
    then have "digits_value (bn_bigits b) = 0"
      using z bignum_okD(1) [OF assms] by (intro digits_value_zeros) (auto simp: in_set_conv_nth)
    then show ?thesis using bn_value_all [OF ok] bn_value_all [OF assms] True by (simp add: Clamp_def Let_def)
  next
    case False
    then show ?thesis using bn_value_all [OF ok] bn_value_all [OF assms] by (simp add: Clamp_def Let_def)
  qed
  show "IsClamped (Clamp b)" using clamp_digits_top by (auto simp: IsClamped_def Clamp_def Let_def)
qed

lemma Zero_eq:
  assumes "bignum_ok b"
  shows "Zero b = b\<lparr>bn_bigits := replicate 128 0, bn_used := 0, bn_exponent := 0\<rparr>"
proof -
  have d: "drop (bn_used b) (bn_bigits b) = replicate (128 - bn_used b) 0"
    using bignum_okD(1,2) [OF assms] bignum_okD(4) [OF assms] by (intro nth_equalityI) auto
  have "bn_used b + (128 - bn_used b) = 128" using bignum_okD(2) [OF assms] by simp
  then have "replicate (bn_used b) (0::uint32) @ replicate (128 - bn_used b) 0 = replicate 128 0"
    by (simp flip: replicate_add)
  then show ?thesis using bignum_okD(1,2) [OF assms] by (simp add: Zero_def fold_zeros d)
qed

lemma Zero_ok:
  assumes "bignum_ok b"
  shows "bignum_ok (Zero b)" "bn_value (Zero b) = 0" "bn_used (Zero b) = 0" "bn_exponent (Zero b) = 0"
    "bn_bigits (Zero b) = replicate 128 0"
  using Zero_eq [OF assms] by (auto simp: bn_value_def small_digits_def intro!: bignum_okI)

lemma Bignum_new_ok: "bignum_ok Bignum_new" "bn_value Bignum_new = 0"
  by (auto simp: Bignum_new_def bn_value_def small_digits_def intro!: bignum_okI)

lemma IsClamped_pos:
  assumes "bignum_ok b" "IsClamped b" "bn_used b \<noteq> 0"
  shows "digit_base ^ (bn_used b - 1) \<le> digits_value (take (bn_used b) (bn_bigits b))"
proof -
  obtain n where n: "bn_used b = Suc n" using assms(3) not0_implies_Suc by blast
  have "0 < unat (bn_bigits b ! n)" using assms(2) n by (simp add: IsClamped_def unat_gt_0)
  then have "1 * digit_base ^ n \<le> unat (bn_bigits b ! n) * digit_base ^ n" by (intro mult_le_mono1) simp
  then have "digit_base ^ n \<le> digits_value (take n (bn_bigits b)) + unat (bn_bigits b ! n) * digit_base ^ n"
    by (intro trans_le_add2) simp
  then show ?thesis using digits_value_take_Suc [of n "bn_bigits b"] bignum_okD(1,2) [OF assms(1)] n by simp
qed

section \<open>Alignment\<close>

lemma Align_ok:
  assumes "bignum_ok b"
  shows "Align other b = Inl CapacityExceeded \<and> 128 + bn_exponent other < BigitLength b \<or>
    (\<exists>a. Align other b = Inr a \<and> bignum_ok a \<and> bn_value a = bn_value b \<and>
       bn_exponent a = min (bn_exponent b) (bn_exponent other) \<and> BigitLength a = BigitLength b \<and>
       (IsClamped b \<longrightarrow> IsClamped a))"
proof (cases "bn_exponent b > bn_exponent other")
  case False
  then show ?thesis using assms by (simp add: Align_def)
next
  case True
  define z where "z = bn_exponent b - bn_exponent other"
  have e: "bn_exponent b = z + bn_exponent other" using True by (simp add: z_def)
  show ?thesis
  proof (cases "128 < bn_used b + z")
    case True
    then show ?thesis using \<open>bn_exponent b > bn_exponent other\<close>
      by (simp add: Align_def EnsureCapacity_def z_def BigitLength_def)
  next
    case False
    note l = bignum_okD(1,2) [OF assms]
    define ds where "ds = replicate z 0 @ take (bn_used b) (bn_bigits b) @ drop (bn_used b + z) (bn_bigits b)"
    define a where "a = b\<lparr>bn_bigits := ds, bn_used := bn_used b + z, bn_exponent := bn_exponent b - z\<rparr>"
    have "fold (\<lambda>i ds. ds[i := 0]) [0..<z]
        (fold (\<lambda>i ds. ds[i + z := ds ! i]) (rev [0..<bn_used b]) (bn_bigits b)) = ds"
      using l False by (simp add: fold_shift fold_zeros ds_def)
    then have a: "Align other b = Inr a"
      using \<open>bn_exponent b > bn_exponent other\<close> False
      by (simp add: Align_def EnsureCapacity_def Let_def a_def flip: z_def)
    have "take (bn_used b + z) ds = replicate z 0 @ take (bn_used b) (bn_bigits b)"
      using l False by (simp add: ds_def min_def)
    then have v: "digits_value (take (bn_used b + z) ds) = digit_base ^ z * digits_value (take (bn_used b) (bn_bigits b))"
      by (simp add: digits_value_append digits_value_zeros)
    have "bignum_ok a"
    proof (rule bignum_okI)
      show "length (bn_bigits a) = 128" "bn_used a \<le> 128" using l False by (auto simp: a_def ds_def)
      show "small_digits (bn_bigits a)"
        using bignum_okD(3) [OF assms] set_take_subset set_drop_subset by (fastforce simp: a_def ds_def small_digits_def)
      show "bn_bigits a ! i = 0" if "bn_used a \<le> i" "i < 128" for i
      proof -
        have i: "z \<le> i" "bn_used b \<le> i - z" using that(1) by (simp_all add: a_def)
        then have "ds ! i = bn_bigits b ! i"
          using l False that by (simp add: ds_def nth_append min_def a_def)
        then show ?thesis using bignum_okD(4) [OF assms, of i] that i(2) by (simp add: a_def)
      qed
      show "bn_exponent a = 0" if "bn_used a = 0"
        using that bignum_okD(6) [OF assms] by (simp add: a_def)
    qed
    moreover have "IsClamped a" if "IsClamped b"
    proof -
      have "bn_used b \<noteq> 0" using \<open>bn_exponent b > bn_exponent other\<close> bignum_okD(6) [OF assms] by auto
      then show ?thesis using that l False
        by (simp add: IsClamped_def a_def ds_def nth_append)
    qed
    moreover have "bn_value a = bn_value b"
      by (simp add: bn_value_def a_def v) (simp add: e power_add)
    ultimately show ?thesis using a e by (intro disjI2 exI [of _ a]) (simp add: a_def BigitLength_def)
  qed
qed

section \<open>Addition\<close>

text \<open>An array of digits that are zero from position \<open>m\<close> on.\<close>

definition digits_below :: "nat \<Rightarrow> uint32 list \<Rightarrow> bool" where
  "digits_below m ds \<longleftrightarrow> length ds = 128 \<and> small_digits ds \<and> (\<forall>i. m \<le> i \<longrightarrow> i < 128 \<longrightarrow> ds ! i = 0)"

lemma bignum_ok_digits: "bignum_ok b \<longleftrightarrow> digits_below (bn_used b) (bn_bigits b) \<and> bn_used b \<le> 128 \<and> (bn_used b = 0 \<longrightarrow> bn_exponent b = 0)"
  by (auto simp: bignum_ok_def digits_below_def)

lemma digits_below_mono: "digits_below m ds \<Longrightarrow> m \<le> n \<Longrightarrow> digits_below n ds"
  by (simp add: digits_below_def)

lemma digits_below_store:
  "digits_below m ds \<Longrightarrow> unat x < digit_base \<Longrightarrow> p < m \<Longrightarrow> digits_below m (ds[p := x])"
  by (simp add: digits_below_def small_digits_update)

lemma digits_below_value: "digits_below m ds \<Longrightarrow> digits_value (take m ds) = digits_value ds"
  by (intro digits_value_take) (simp add: digits_below_def)

lemma digits_below_digit: "digits_below m ds \<Longrightarrow> i < 128 \<Longrightarrow> unat (ds ! i) < digit_base"
  by (simp add: digits_below_def small_digits_nth)

lemma store_value:
  assumes "digits_below m ds" "p < 128" "unat x + digit_base * c = unat (ds ! p) + a"
  shows "digits_value (ds[p := x]) + c * digit_base ^ Suc p = digits_value ds + a * digit_base ^ p"
proof -
  have "digits_value (ds[p := x]) + unat (ds ! p) * digit_base ^ p = digits_value ds + unat x * digit_base ^ p"
    using assms(1,2) by (intro digits_value_update) (simp add: digits_below_def)
  moreover have "unat x * digit_base ^ p + digit_base * c * digit_base ^ p = unat (ds ! p) * digit_base ^ p + a * digit_base ^ p"
    by (simp only: assms(3) distrib_right [symmetric])
  ultimately show ?thesis by (simp add: mult.assoc mult.commute mult.left_commute)
qed

text \<open>A sum of a digit, another digit and a carry of 0 or 1.\<close>

lemma unat_digit_sum:
  fixes a b c :: uint32
  assumes "unat a < digit_base" "unat b < digit_base" "unat c \<le> 1"
  shows "unat (a + b + c) = unat a + unat b + unat c" "unat (drop_bit kBigitSize (a + b + c)) \<le> 1"
proof -
  show "unat (a + b + c) = unat a + unat b + unat c" using assms by (intro unat_add3) simp
  then show "unat (drop_bit kBigitSize (a + b + c)) \<le> 1" using assms by simp
qed

lemma add_carry_stop [simp]: "add_carry ds pos 0 = Inr (ds, pos)"
  by (subst add_carry.simps) simp

lemma add_carry_ok:
  "digits_below m ds \<Longrightarrow> m < 128 \<Longrightarrow> unat carry = 1 \<Longrightarrow> pos \<le> m \<Longrightarrow>
   \<exists>ds' pos'. add_carry ds pos carry = Inr (ds', pos') \<and> digits_below (max m pos') ds' \<and>
     pos < pos' \<and> pos' \<le> m + 1 \<and> digits_value ds' = digits_value ds + digit_base ^ pos \<and> ds' ! (pos' - 1) \<noteq> 0"
proof (induction ds pos carry rule: add_carry.induct)
  case (1 ds pos carry)
  have l: "pos < 128" "length ds = 128" "carry \<noteq> 0" using 1 by (auto simp: digits_below_def)
  let ?sum = "ds ! pos + carry"
  let ?ds = "ds[pos := ?sum AND kBigitMask]" and ?carry = "drop_bit kBigitSize ?sum"
  have s: "unat ?sum = unat (ds ! pos) + 1" "unat ?carry \<le> 1"
    using unat_digit_sum [of "ds ! pos" 0 carry] digits_below_digit [OF 1(2) l(1)] 1(4) by simp_all
  have v: "digits_value ?ds + unat ?carry * digit_base ^ Suc pos = digits_value ds + 1 * digit_base ^ pos"
    using s(1) by (intro store_value [OF 1(2) l(1)]) simp
  have step: "add_carry ds pos carry = add_carry ?ds (pos + 1) ?carry"
    using l by (subst add_carry.simps) (simp add: Let_def)
  show ?case
  proof (cases "?carry = 0")
    case True
    have "unat ?carry = 0" using True by simp
    then have "unat ?sum < digit_base" by (simp add: div_eq_0_iff)
    then have "unat (?sum AND kBigitMask) \<noteq> 0" using s(1) by simp
    then have nz: "?sum AND kBigitMask \<noteq> 0" by (metis unat_0)
    have "digits_below (max m (pos + 1)) ?ds"
      using l by (intro digits_below_store digits_below_mono [OF 1(2)]) simp_all
    then show ?thesis unfolding step True
      using v True nz l 1(5) by (intro exI [of _ ?ds] exI [of _ "pos + 1"]) simp
  next
    case False
    then have c: "unat ?carry = 1" using s(2) by (metis One_nat_def le_Suc_eq le_zero_eq unat_eq_zero)
    have "pos \<noteq> m"
    proof
      assume "pos = m"
      then have "unat ?sum = 1" using s(1) 1(2) l by (simp add: digits_below_def)
      then show False using c by simp
    qed
    then have p: "pos < m" using 1(5) by simp
    have "digits_below m ?ds" using 1(2) p by (intro digits_below_store) simp_all
    moreover have "\<not> length ds \<le> pos" using l by simp
    ultimately obtain ds' pos' where "add_carry ?ds (pos + 1) ?carry = Inr (ds', pos')"
        "digits_below (max m pos') ds'" "pos + 1 < pos'" "pos' \<le> m + 1"
        "digits_value ds' = digits_value ?ds + digit_base ^ (pos + 1)" "ds' ! (pos' - 1) \<noteq> 0"
      using 1(1) [OF l(3) _ refl] 1(3) c p by auto
    then show ?thesis unfolding step using v c by (intro exI [of _ ds'] exI [of _ pos']) simp
  qed
qed

lemma add_loop:
  assumes a: "digits_below m ds" and o: "bignum_ok other" and m: "off + bn_used other \<le> m" "m \<le> 128"
  shows "case add_digits other off ds of (ds', carry) \<Rightarrow> digits_below m ds' \<and> unat carry \<le> 1 \<and>
      digits_value ds' + unat carry * digit_base ^ (off + bn_used other) =
      digits_value ds + digits_value (take (bn_used other) (bn_bigits other)) * digit_base ^ off"
proof -
  define P where "P i s = (case s of (ds', carry) \<Rightarrow> digits_below m ds' \<and> unat carry \<le> 1 \<and>
      digits_value ds' + unat carry * digit_base ^ (off + i) =
      digits_value ds + digits_value (take i (bn_bigits other)) * digit_base ^ off)"
    for i and s :: "uint32 list \<times> uint32"
  have "P (bn_used other) (add_digits other off ds)"
    unfolding add_digits_def
  proof (rule fold_upt_induct)
    show "P 0 (ds, 0)" using a by (simp add: P_def)
    fix i and s :: "uint32 list \<times> uint32"
    assume i: "i < bn_used other" "P i s"
    obtain es c where s: "s = (es, c)" by fastforce
    let ?sum = "es ! (off + i) + bn_bigits other ! i + c"
    have p: "digits_below m es" "unat c \<le> 1" "off + i < 128" "i < 128"
        "digits_value es + unat c * digit_base ^ (off + i) =
         digits_value ds + digits_value (take i (bn_bigits other)) * digit_base ^ off"
      using i s m by (simp_all add: P_def)
    have u: "unat ?sum = unat (es ! (off + i)) + unat (bn_bigits other ! i) + unat c" "unat (drop_bit kBigitSize ?sum) \<le> 1"
      using unat_digit_sum [OF digits_below_digit [OF p(1,3)] bignum_okD(5) [OF o p(4)] p(2)] by simp_all
    have v: "digits_value (es[off + i := ?sum AND kBigitMask]) + unat (drop_bit kBigitSize ?sum) * digit_base ^ Suc (off + i) =
        digits_value es + (unat (bn_bigits other ! i) + unat c) * digit_base ^ (off + i)"
      using u(1) by (intro store_value [OF p(1,3)]) simp
    have "digits_below m (es[off + i := ?sum AND kBigitMask])"
      using i(1) m p(1) by (intro digits_below_store) simp_all
    then show "P (Suc i) (case s of (ds, carry) \<Rightarrow>
        let sum = ds ! (off + i) + bn_bigits other ! i + carry
        in (ds[off + i := sum AND kBigitMask], drop_bit kBigitSize sum))"
      using u(2) v p(5) digits_value_take_Suc [of i "bn_bigits other"] bignum_okD(1) [OF o] p(4)
      by (simp add: P_def s Let_def algebra_simps power_add)
  qed simp
  then show ?thesis by (simp add: P_def)
qed

lemma IsClamped_value:
  assumes "bignum_ok b" "bn_used b = 0 \<or> digit_base ^ (bn_used b - 1) \<le> digits_value (bn_bigits b)"
  shows "IsClamped b"
proof (rule ccontr)
  assume n: "\<not> IsClamped b"
  then obtain k where k: "bn_used b = Suc k" "bn_bigits b ! k = 0"
    by (auto simp: IsClamped_def) (metis Suc_pred bot_nat_0.not_eq_extremum)
  have "bn_bigits b ! i = 0" if "k \<le> i" "i < length (bn_bigits b)" for i
    using that k bignum_okD(1,4) [OF assms(1)] by (cases "i = k") auto
  then have "digits_value (take k (bn_bigits b)) = digits_value (bn_bigits b)" by (rule digits_value_take)
  moreover have "digits_value (take k (bn_bigits b)) < digit_base ^ length (take k (bn_bigits b))"
    using bignum_okD(3) [OF assms(1)] set_take_subset by (intro digits_value_less) (fastforce simp: small_digits_def)
  ultimately show False using assms(2) k bignum_okD(1,2) [OF assms(1)] by simp
qed

lemma AddBignum_ok:
  assumes b: "bignum_ok b" and o: "bignum_ok other"
  shows "if 127 + min (bn_exponent b) (bn_exponent other) < max (BigitLength b) (BigitLength other)
    then AddBignum other b = Inl CapacityExceeded
    else \<exists>a. AddBignum other b = Inr a \<and> bignum_ok a \<and> bn_value a = bn_value b + bn_value other \<and>
      bn_exponent a = min (bn_exponent b) (bn_exponent other) \<and>
      (IsClamped b \<longrightarrow> IsClamped other \<longrightarrow> IsClamped a)"
  using Align_ok [OF b, of other]
proof (elim disjE exE conjE)
  assume "Align other b = Inl CapacityExceeded" "128 + bn_exponent other < BigitLength b"
  then show ?thesis by (simp add: AddBignum_def)
next
  fix a
  assume a: "Align other b = Inr a" "bignum_ok a" "bn_value a = bn_value b"
    "bn_exponent a = min (bn_exponent b) (bn_exponent other)" "BigitLength a = BigitLength b"
    "IsClamped b \<longrightarrow> IsClamped a"
  define off where "off = bn_exponent other - bn_exponent a"
  let ?m = "max (bn_used a) (off + bn_used other)"
  have e: "bn_exponent other = off + bn_exponent a" using a(4) by (simp add: off_def)
  have max: "max (BigitLength b) (BigitLength other) = ?m + bn_exponent a"
    using e a(5) by (auto simp: BigitLength_def)
  show ?thesis
  proof (cases "127 < ?m")
    case True
    then show ?thesis using a(1,4,5) max by (simp add: AddBignum_def EnsureCapacity_def)
  next
    case False
    then have f: "bn_used a \<le> 127" "off + bn_used other \<le> 127" by simp_all
    obtain ds c where r: "add_digits other off (bn_bigits a) = (ds, c)" by fastforce
    have below: "digits_below ?m (bn_bigits a)"
      using a(2) digits_below_mono [of "bn_used a" "bn_bigits a" ?m] by (simp add: bignum_ok_digits)
    have l: "digits_below ?m ds" "unat c \<le> 1" "digits_value ds + unat c * digit_base ^ (off + bn_used other) =
        digits_value (bn_bigits a) + digits_value (take (bn_used other) (bn_bigits other)) * digit_base ^ off"
      using add_loop [OF below o, of off] f r by simp_all
    obtain ds' pos where d: "add_carry ds (off + bn_used other) c = Inr (ds', pos)" "digits_below (max ?m pos) ds'"
        "off + bn_used other \<le> pos" "pos \<le> 128" "digits_value ds' = digits_value ds + unat c * digit_base ^ (off + bn_used other)"
        "pos = off + bn_used other \<or> ds' ! (pos - 1) \<noteq> 0"
    proof (cases "c = 0")
      case True
      then show ?thesis using that [of ds "off + bn_used other"] l(1) False by simp
    next
      case nz: False
      then have "unat c = 1" using l(2) by (metis One_nat_def le_Suc_eq le_zero_eq unat_eq_zero)
      then show ?thesis using add_carry_ok [OF l(1), of c "off + bn_used other"] False that by fastforce
    qed
    define a' where "a' = a\<lparr>bn_bigits := ds', bn_used := max pos (bn_used a)\<rparr>"
    have res: "AddBignum other b = Inr a'"
      using a(1,5) a(4) [symmetric] max False d(1) r
      by (simp add: AddBignum_def EnsureCapacity_def Let_def a'_def flip: off_def)
    have m: "max ?m pos = max pos (bn_used a)" using d(3) by simp
    have ok: "bignum_ok a'"
      using d(2,4) bignum_okD(2,6) [OF a(2)] m by (simp add: bignum_ok_digits a'_def)
    have v: "digits_value ds' = digits_value (bn_bigits a) + digits_value (take (bn_used other) (bn_bigits other)) * digit_base ^ off"
      using d(5) l(3) by simp
    have e2: "digit_base ^ bn_exponent other = digit_base ^ off * digit_base ^ bn_exponent a"
      by (simp only: e power_add)
    have "bn_value a' = bn_value a + bn_value other"
      using bn_value_all [OF ok] bn_value_all [OF a(2)]
      by (simp add: a'_def bn_value_def [of other] v e2 algebra_simps)
    moreover have "IsClamped a'" if "IsClamped b" "IsClamped other"
    proof (cases "bn_used a' = 0 \<or> ds' ! (bn_used a' - 1) \<noteq> 0")
      case True
      then show ?thesis by (auto simp: IsClamped_def a'_def)
    next
      case n: False
      have "digit_base ^ (bn_used a' - 1) \<le> digits_value ds'"
      proof (cases "pos \<le> bn_used a")
        case True
        then have "bn_used a' = bn_used a" by (simp add: a'_def)
        then show ?thesis using IsClamped_pos [OF a(2)] a(6) that(1) n digits_below_value [of "bn_used a" "bn_bigits a"] a(2) v
          by (simp add: bignum_ok_digits)
      next
        case p: False
        then have u: "bn_used a' = pos" by (simp add: a'_def)
        then have pos: "pos = off + bn_used other" using d(6) n by simp
        have nz: "bn_used other \<noteq> 0"
        proof
          assume z: "bn_used other = 0"
          then have "off = 0" using bignum_okD(6) [OF o] e by simp
          then show False using p pos z by simp
        qed
        have "digit_base ^ (bn_used other - 1) * digit_base ^ off \<le> digits_value (take (bn_used other) (bn_bigits other)) * digit_base ^ off"
          by (rule mult_le_mono1 [OF IsClamped_pos [OF o that(2) nz]])
        moreover have "digit_base ^ (pos - 1) = digit_base ^ (bn_used other - 1) * digit_base ^ off"
          using nz by (simp add: pos flip: power_add)
        ultimately show ?thesis unfolding u v by (intro trans_le_add2) (simp only:)
      qed
      then show ?thesis by (intro IsClamped_value [OF ok]) (simp add: a'_def)
    qed
    ultimately show ?thesis using res ok a(3,4) False max by (auto simp: a'_def)
  qed
qed

section \<open>Subtraction\<close>

lemma store_difference:
  assumes "digits_below m ds" "p < 128" "unat x + a = unat (ds ! p) + digit_base * c"
  shows "digits_value (ds[p := x]) + a * digit_base ^ p = digits_value ds + c * digit_base ^ Suc p"
proof -
  have "digits_value (ds[p := x]) + unat (ds ! p) * digit_base ^ p = digits_value ds + unat x * digit_base ^ p"
    using assms(1,2) by (intro digits_value_update) (simp add: digits_below_def)
  moreover have "unat x * digit_base ^ p + a * digit_base ^ p = unat (ds ! p) * digit_base ^ p + digit_base * c * digit_base ^ p"
    by (simp only: assms(3) distrib_right [symmetric])
  ultimately show ?thesis by (simp add: mult.assoc mult.commute mult.left_commute)
qed

lemma digits_below_less:
  assumes "digits_below m ds" "m \<le> 128"
  shows "digits_value ds < digit_base ^ m"
proof -
  have "digits_value (take m ds) < digit_base ^ length (take m ds)"
    using assms(1) set_take_subset by (intro digits_value_less) (fastforce simp: digits_below_def small_digits_def)
  moreover have "length (take m ds) = m" using assms by (simp add: digits_below_def)
  ultimately show ?thesis using digits_below_value [OF assms(1)] by simp
qed

lemma subtract_borrow_stop [simp]: "subtract_borrow ds pos 0 = Inr ds"
  by (subst subtract_borrow.simps) simp

lemma subtract_borrow_ok:
  "digits_below m ds \<Longrightarrow> m \<le> 128 \<Longrightarrow> unat borrow \<le> 1 \<Longrightarrow> pos \<le> m \<Longrightarrow> unat borrow * digit_base ^ pos \<le> digits_value ds \<Longrightarrow>
   \<exists>ds'. subtract_borrow ds pos borrow = Inr ds' \<and> digits_below m ds' \<and>
     digits_value ds' + unat borrow * digit_base ^ pos = digits_value ds"
proof (induction ds pos borrow rule: subtract_borrow.induct)
  case (1 ds pos borrow)
  show ?case
  proof (cases "borrow = 0")
    case False
    then have b: "unat borrow = 1" using 1(4) by (metis One_nat_def le_Suc_eq le_zero_eq unat_eq_zero)
    have "digit_base ^ pos < digit_base ^ m"
      using 1(6) [unfolded b] digits_below_less [OF 1(2,3)] by linarith
    then have "pos < m" by (rule power_less_imp_less_exp [rotated]) simp
    then have p: "pos < m" "pos < 128" using 1(3) by simp_all
    let ?d = "ds ! pos - borrow"
    let ?ds = "ds[pos := ?d AND kBigitMask]" and ?b = "drop_bit (kChunkSize - 1) ?d"
    have d: "unat (?d AND kBigitMask) + 1 = unat (ds ! pos) + digit_base * unat ?b" "unat ?b \<le> 1"
      using unat_difference [of "ds ! pos" 0 borrow] digits_below_digit [OF 1(2) p(2)] b by simp_all
    have v: "digits_value ?ds + 1 * digit_base ^ pos = digits_value ds + unat ?b * digit_base ^ Suc pos"
      by (rule store_difference [OF 1(2) p(2) d(1)])
    have "unat (?d AND kBigitMask) < digit_base" by simp
    then have below: "digits_below m ?ds" using 1(2) p by (intro digits_below_store) simp_all
    have le: "unat ?b * digit_base ^ (pos + 1) \<le> digits_value ?ds" using v 1(6) b by simp
    have "length ds = 128" using 1(2) by (simp add: digits_below_def)
    moreover from this have "\<not> length ds \<le> pos" using p by simp
    ultimately obtain ds' where ds': "subtract_borrow ?ds (pos + 1) ?b = Inr ds'" "digits_below m ds'"
        "digits_value ds' + unat ?b * digit_base ^ (pos + 1) = digits_value ?ds"
      using 1(1) [OF False _ refl below 1(3) d(2) _ le] p(1) by auto
    have "subtract_borrow ds pos borrow = subtract_borrow ?ds (pos + 1) ?b"
      using False \<open>\<not> length ds \<le> pos\<close> by (subst subtract_borrow.simps) (simp add: Let_def)
    then show ?thesis using ds' v b by (intro exI [of _ ds']) simp
  qed (use 1 in simp)
qed

lemma subtract_loop:
  assumes a: "digits_below m ds" and o: "bignum_ok other" and m: "off + bn_used other \<le> m" "m \<le> 128"
  shows "case subtract_digits other off ds of (ds', borrow) \<Rightarrow> digits_below m ds' \<and> unat borrow \<le> 1 \<and>
      digits_value ds' + digits_value (take (bn_used other) (bn_bigits other)) * digit_base ^ off =
      digits_value ds + unat borrow * digit_base ^ (off + bn_used other)"
proof -
  define P where "P i s = (case s of (ds', borrow) \<Rightarrow> digits_below m ds' \<and> unat borrow \<le> 1 \<and>
      digits_value ds' + digits_value (take i (bn_bigits other)) * digit_base ^ off =
      digits_value ds + unat borrow * digit_base ^ (off + i))"
    for i and s :: "uint32 list \<times> uint32"
  have "P (bn_used other) (subtract_digits other off ds)"
    unfolding subtract_digits_def
  proof (rule fold_upt_induct)
    show "P 0 (ds, 0)" using a by (simp add: P_def)
    fix i and s :: "uint32 list \<times> uint32"
    assume i: "i < bn_used other" "P i s"
    obtain es c where s: "s = (es, c)" by fastforce
    let ?d = "es ! (i + off) - bn_bigits other ! i - c"
    have p: "digits_below m es" "unat c \<le> 1" "i + off < 128" "i < 128"
        "digits_value es + digits_value (take i (bn_bigits other)) * digit_base ^ off =
         digits_value ds + unat c * digit_base ^ (off + i)"
      using i s m by (simp_all add: P_def)
    note u = unat_difference [OF digits_below_digit [OF p(1,3)] bignum_okD(5) [OF o p(4)] p(2)]
    have v: "digits_value (es[i + off := ?d AND kBigitMask]) + (unat (bn_bigits other ! i) + unat c) * digit_base ^ (i + off) =
        digits_value es + unat (drop_bit (kChunkSize - 1) ?d) * digit_base ^ Suc (i + off)"
      using u(1) by (intro store_difference [OF p(1,3)]) simp
    have "unat (?d AND kBigitMask) < digit_base" by simp
    then have "digits_below m (es[i + off := ?d AND kBigitMask])"
      using i(1) m p(1) by (intro digits_below_store) simp_all
    then show "P (Suc i) (case s of (ds, borrow) \<Rightarrow>
        let difference = ds ! (i + off) - bn_bigits other ! i - borrow
        in (ds[i + off := difference AND kBigitMask], drop_bit (kChunkSize - 1) difference))"
      using u(2) v p(5) digits_value_take_Suc [of i "bn_bigits other"] bignum_okD(1) [OF o] p(4)
      by (simp add: P_def s Let_def algebra_simps power_add)
  qed simp
  then show ?thesis by (simp add: P_def)
qed

lemma bn_value_less:
  assumes "bignum_ok b"
  shows "bn_value b < digit_base ^ BigitLength b"
proof -
  have "digits_value (bn_bigits b) < digit_base ^ bn_used b"
    using assms by (intro digits_below_less) (simp_all add: bignum_ok_digits)
  then show ?thesis using bn_value_all [OF assms] by (simp add: BigitLength_def power_add)
qed

lemma bn_value_ge:
  assumes "bignum_ok b" "IsClamped b" "bn_used b \<noteq> 0"
  shows "digit_base ^ (BigitLength b - 1) \<le> bn_value b"
proof -
  have "BigitLength b - 1 = (bn_used b - 1) + bn_exponent b" using assms(3) by (simp add: BigitLength_def)
  then show ?thesis using mult_le_mono1 [OF IsClamped_pos [OF assms], of "digit_base ^ bn_exponent b"]
    by (simp only: bn_value_def power_add)
qed

lemma BigitLength_mono:
  assumes "bignum_ok a" "bignum_ok b" "IsClamped a" "bn_value a \<le> bn_value b"
  shows "BigitLength a \<le> BigitLength b"
proof (cases "bn_used a = 0")
  case True
  then show ?thesis using bignum_okD(6) [OF assms(1)] by (simp add: BigitLength_def)
next
  case False
  have "digit_base ^ (BigitLength a - 1) < digit_base ^ BigitLength b"
    using bn_value_ge [OF assms(1,3) False] assms(4) bn_value_less [OF assms(2)] by linarith
  then have "BigitLength a - 1 < BigitLength b" by (rule power_less_imp_less_exp [rotated]) simp
  then show ?thesis by simp
qed

lemma SubtractBignum_ok:
  assumes b: "bignum_ok b" and o: "bignum_ok other" "IsClamped other" and le: "bn_value other \<le> bn_value b"
  shows "if 128 + bn_exponent other < BigitLength b \<and> bn_exponent other < bn_exponent b
    then SubtractBignum other b = Inl CapacityExceeded
    else \<exists>a. SubtractBignum other b = Inr a \<and> bignum_ok a \<and> bn_value a = bn_value b - bn_value other \<and> IsClamped a"
  using Align_ok [OF b, of other]
proof (elim disjE exE conjE)
  assume a: "Align other b = Inl CapacityExceeded" "128 + bn_exponent other < BigitLength b"
  then have "bn_exponent other < bn_exponent b" by (auto simp: Align_def split: if_splits)
  then show ?thesis using a by (simp add: SubtractBignum_def)
next
  fix a
  assume a: "Align other b = Inr a" "bignum_ok a" "bn_value a = bn_value b"
    "bn_exponent a = min (bn_exponent b) (bn_exponent other)" "BigitLength a = BigitLength b"
  define off where "off = bn_exponent other - bn_exponent a"
  have e: "bn_exponent other = off + bn_exponent a" using a(4) by (simp add: off_def)
  have u: "off + bn_used other \<le> bn_used a" "bn_used a \<le> 128"
    using BigitLength_mono [OF o(1) b o(2) le] e a(5) bignum_okD(2) [OF a(2)] by (simp_all add: BigitLength_def)
  have below: "digits_below (bn_used a) (bn_bigits a)" using a(2) by (simp add: bignum_ok_digits)
  obtain ds c where r: "subtract_digits other off (bn_bigits a) = (ds, c)" by fastforce
  let ?o = "digits_value (take (bn_used other) (bn_bigits other))"
  have l: "digits_below (bn_used a) ds" "unat c \<le> 1"
      "digits_value ds + ?o * digit_base ^ off = digits_value (bn_bigits a) + unat c * digit_base ^ (off + bn_used other)"
    using subtract_loop [OF below o(1) u] r by simp_all
  have v: "bn_value other = ?o * digit_base ^ off * digit_base ^ bn_exponent a" "bn_value b = digits_value (bn_bigits a) * digit_base ^ bn_exponent a"
    using e bn_value_all [OF a(2)] a(3) by (simp_all add: bn_value_def [of other] power_add)
  then have le': "?o * digit_base ^ off \<le> digits_value (bn_bigits a)" using le by simp
  then have "unat c * digit_base ^ (off + bn_used other) \<le> digits_value ds" using l(3) by linarith
  then obtain ds' where d: "subtract_borrow ds (bn_used other + off) c = Inr ds'" "digits_below (bn_used a) ds'"
      "digits_value ds' + unat c * digit_base ^ (bn_used other + off) = digits_value ds"
    using subtract_borrow_ok [OF l(1) u(2) l(2), of "bn_used other + off"] u(1) by (auto simp: add.commute)
  let ?a = "a\<lparr>bn_bigits := ds'\<rparr>"
  have ok: "bignum_ok ?a" using d(2) a(2) by (simp add: bignum_ok_digits)
  have "digits_value ds' + ?o * digit_base ^ off = digits_value (bn_bigits a)"
    using l(3) d(3) by (simp add: add.commute)
  then have "digits_value ds' = digits_value (bn_bigits a) - ?o * digit_base ^ off" by simp
  then have val: "bn_value ?a = bn_value b - bn_value other"
    using bn_value_all [OF ok] v by (simp add: diff_mult_distrib)
  have res: "SubtractBignum other b = Inr (Clamp ?a)"
    using a(1) r d(1) by (simp add: SubtractBignum_def flip: off_def)
  have "\<not> (128 + bn_exponent other < BigitLength b \<and> bn_exponent other < bn_exponent b)"
    using u(2) a(4,5) by (auto simp: BigitLength_def)
  then show ?thesis using res Clamp_ok [OF ok] val by simp
qed

end
