(* ===== verification/BignumProduct.thy ===== *)
theory BignumProduct
  imports BignumArith
begin

text \<open>
  Shifts and products of \<open>Bignum\<close>. The three loops that multiply every digit in place and carry are
  instances of one lemma.
\<close>

section \<open>Scaling the digits in place\<close>

definition scale_digits :: "(uint32 \<Rightarrow> 'c \<Rightarrow> uint32 \<times> 'c) \<Rightarrow> nat \<Rightarrow> uint32 list \<Rightarrow> 'c \<Rightarrow> uint32 list \<times> 'c" where
  "scale_digits g n ds c =
     fold (\<lambda>i (ds, c). (ds[i := fst (g (ds ! i) c)], snd (g (ds ! i) c))) [0..<n] (ds, c)"

lemma scale_loop:
  assumes ds: "digits_below n ds" "n \<le> 128" and c: "R c" "val c = 0"
    and g: "\<And>d c. unat d < digit_base \<Longrightarrow> R c \<Longrightarrow> unat (fst (g d c)) + digit_base * val (snd (g d c)) = k * unat d + val c \<and>
      unat (fst (g d c)) < digit_base \<and> R (snd (g d c))"
  shows "case scale_digits g n ds c of (ds', c') \<Rightarrow>
    digits_below n ds' \<and> R c' \<and> digits_value ds' + val c' * digit_base ^ n = k * digits_value ds"
proof -
  define P where "P i s = (case s of (ds', c') \<Rightarrow> digits_below n ds' \<and> R c' \<and> (\<forall>j. i \<le> j \<longrightarrow> ds' ! j = ds ! j) \<and>
      digits_value ds' + val c' * digit_base ^ i + digits_value (take i ds) = digits_value ds + k * digits_value (take i ds))"
    for i s
  have "P n (scale_digits g n ds c)"
    unfolding scale_digits_def
  proof (rule fold_upt_induct)
    show "P 0 (ds, c)" using ds c by (simp add: P_def)
    fix i s
    assume i: "i < n" "P i s"
    obtain es c where s: "s = (es, c)" by fastforce
    have p: "digits_below n es" "R c" "es ! i = ds ! i" "i < 128"
        "digits_value es + val c * digit_base ^ i + digits_value (take i ds) = digits_value ds + k * digits_value (take i ds)"
      using i s ds(2) by (simp_all add: P_def)
    have d: "unat (ds ! i) < digit_base" using digits_below_digit [OF p(1,4)] p(3) by simp
    let ?x = "fst (g (ds ! i) c)" and ?c = "snd (g (ds ! i) c)"
    have e: "unat ?x + digit_base * val ?c = k * unat (ds ! i) + val c" "unat ?x < digit_base" "R ?c"
      using g [OF d p(2)] by simp_all
    have b: "digits_below n (es[i := ?x])" using i(1) p(1) e(2) by (intro digits_below_store) simp_all
    have v: "digits_value (es[i := ?x]) + unat (ds ! i) * digit_base ^ i = digits_value es + unat ?x * digit_base ^ i"
      using digits_value_update [of i es ?x] p(1,3,4) by (simp add: digits_below_def)
    have "unat ?x * digit_base ^ i + digit_base * val ?c * digit_base ^ i = k * unat (ds ! i) * digit_base ^ i + val c * digit_base ^ i"
      by (simp only: e(1) distrib_right [symmetric])
    moreover have "digits_value (take (Suc i) ds) = digits_value (take i ds) + unat (ds ! i) * digit_base ^ i"
      using ds p(4) by (intro digits_value_take_Suc) (simp add: digits_below_def)
    moreover have "\<forall>j. Suc i \<le> j \<longrightarrow> es[i := ?x] ! j = ds ! j" using i s by (simp add: P_def)
    ultimately show "P (Suc i) (case s of (ds, c) \<Rightarrow> (ds[i := fst (g (ds ! i) c)], snd (g (ds ! i) c)))"
      using b e(3) v p(3,5) by (simp add: P_def s algebra_simps)
  qed simp
  then show ?thesis using digits_below_value [OF ds(1)] by (auto simp: P_def)
qed

lemma push_carry_stop [simp]: "push_carry ds n 0 = Inr (ds, n)"
  by (subst push_carry.simps) simp

lemma push_carry_ok:
  "digits_below n ds \<Longrightarrow> n \<le> 128 \<Longrightarrow>
   push_carry ds n c = Inl CapacityExceeded \<and> digit_base ^ 128 \<le> digits_value ds + unat c * digit_base ^ n \<or>
   (\<exists>ds' n'. push_carry ds n c = Inr (ds', n') \<and> digits_below n' ds' \<and> n \<le> n' \<and> n' \<le> 128 \<and>
      digits_value ds' = digits_value ds + unat c * digit_base ^ n \<and>
      (c = 0 \<and> n' = n \<and> ds' = ds \<or> n < n' \<and> ds' ! (n' - 1) \<noteq> 0))"
proof (induction ds n c rule: push_carry.induct)
  case (1 ds n c)
  show ?case
  proof (cases "c = 0")
    case False
    then have c: "1 \<le> unat c" by (metis One_nat_def Suc_leI unat_gt_0)
    show ?thesis
    proof (cases "n = 128")
      case True
      have "1 * digit_base ^ 128 \<le> unat c * digit_base ^ 128" using c by (rule mult_le_mono1)
      moreover have "push_carry ds n c = Inl CapacityExceeded"
        using False True by (subst push_carry.simps) (simp add: EnsureCapacity_def)
      ultimately show ?thesis using True by (intro disjI1) (simp only: mult_1, intro conjI trans_le_add2, simp_all)
    next
      case n: False
      then have n: "n < 128" using 1(3) by simp
      let ?x = "ucast (c AND ucast kBigitMask) :: uint32" and ?c = "drop_bit kBigitSize c"
      have step: "push_carry ds n c = push_carry (ds[n := ?x]) (n + 1) ?c"
        using False n by (subst push_carry.simps) (simp add: EnsureCapacity_def)
      have z: "ds ! n = 0" using 1(2) n by (simp add: digits_below_def)
      have b: "digits_below (n + 1) (ds[n := ?x])"
        using digits_below_mono [OF 1(2), of "n + 1"] by (intro digits_below_store) simp_all
      have v: "digits_value (ds[n := ?x]) + unat ?c * digit_base ^ (n + 1) = digits_value ds + unat c * digit_base ^ n"
        using store_value [OF 1(2) n, of ?x "unat ?c" "unat c"] z by simp
      have nz: "?x \<noteq> 0" if "?c = 0"
      proof -
        have "unat ?c = 0" using that by simp
        then have "unat ?x \<noteq> 0" using c by (simp add: div_eq_0_iff)
        then show ?thesis by (metis unat_0)
      qed
      have l: "length ds = 128" using 1(2) by (simp add: digits_below_def)
      have x: "ds[n := ?x] ! n = ?x" using l n by simp
      have "push_carry (ds[n := ?x]) (n + 1) ?c = Inl CapacityExceeded \<and>
            digit_base ^ 128 \<le> digits_value (ds[n := ?x]) + unat ?c * digit_base ^ (n + 1) \<or>
          (\<exists>ds' n'. push_carry (ds[n := ?x]) (n + 1) ?c = Inr (ds', n') \<and> digits_below n' ds' \<and> n + 1 \<le> n' \<and> n' \<le> 128 \<and>
            digits_value ds' = digits_value (ds[n := ?x]) + unat ?c * digit_base ^ (n + 1) \<and>
            (?c = 0 \<and> n' = n + 1 \<and> ds' = ds[n := ?x] \<or> n + 1 < n' \<and> ds' ! (n' - 1) \<noteq> 0))"
        using 1(1) [OF False b] n by simp
      then show ?thesis unfolding step v
      proof (elim disjE exE conjE, goal_cases)
        case (2 ds' n')
        then show ?case using x nz by (intro disjI2 exI [of _ ds'] exI [of _ n']) simp
      next
        case (3 ds' n')
        then show ?case by (intro disjI2 exI [of _ ds'] exI [of _ n']) simp
      qed simp
    qed
  qed (use 1 in simp)
qed

text \<open>What a product or a shift of \<open>b\<close> by \<open>k\<close> has to be.\<close>

definition is_multiple :: "nat \<Rightarrow> Bignum \<Rightarrow> bignum_error + Bignum \<Rightarrow> bool" where
  "is_multiple k b r \<longleftrightarrow>
     r = Inl CapacityExceeded \<and> digit_base ^ 128 \<le> k * digits_value (bn_bigits b) \<or>
     (\<exists>a. r = Inr a \<and> bignum_ok a \<and> bn_value a = k * bn_value b \<and> (IsClamped b \<longrightarrow> IsClamped a) \<and>
        (k \<noteq> 0 \<longrightarrow> bn_exponent a = bn_exponent b))"

lemma scaled_multiple:
  assumes b: "bignum_ok b" "bn_used b \<noteq> 0" "0 < k" and ds: "digits_below (bn_used b) ds"
    "digits_value ds + unat c * digit_base ^ bn_used b = k * digits_value (bn_bigits b)"
  shows "is_multiple k b (bn_then (push_carry ds (bn_used b) c) (\<lambda>(ds, n). Inr (b\<lparr>bn_bigits := ds, bn_used := n\<rparr>)))"
  using push_carry_ok [OF ds(1) bignum_okD(2) [OF b(1)], of c]
proof (elim disjE exE conjE, goal_cases)
  case 1
  then show ?thesis using ds(2) by (simp add: is_multiple_def)
next
  case (2 ds' n')
  let ?a = "b\<lparr>bn_bigits := ds', bn_used := n'\<rparr>"
  have ok: "bignum_ok ?a" using 2 b(2) by (simp add: bignum_ok_digits)
  have v: "bn_value ?a = k * bn_value b"
    using bn_value_all [OF ok] bn_value_all [OF b(1)] 2 ds(2) by simp
  have "IsClamped ?a" if "IsClamped b"
  proof (rule IsClamped_value [OF ok])
    have "digit_base ^ (bn_used b - 1) \<le> 1 * digits_value (bn_bigits b)"
      using IsClamped_pos [OF b(1) that b(2)] digits_below_value [of "bn_used b" "bn_bigits b"] b(1)
      by (simp add: bignum_ok_digits)
    also have "\<dots> \<le> k * digits_value (bn_bigits b)" using b(3) by (intro mult_le_mono1) simp
    finally show "bn_used ?a = 0 \<or> digit_base ^ (bn_used ?a - 1) \<le> digits_value (bn_bigits ?a)"
      using 2 ds(2) by simp
  qed
  then show ?thesis using ok v 2 by (simp add: is_multiple_def)
next
  case (3 ds' n')
  let ?a = "b\<lparr>bn_bigits := ds', bn_used := n'\<rparr>"
  have ok: "bignum_ok ?a" using 3 b(2) by (simp add: bignum_ok_digits)
  have v: "bn_value ?a = k * bn_value b"
    using bn_value_all [OF ok] bn_value_all [OF b(1)] 3 ds(2) by simp
  then show ?thesis using ok 3 by (simp add: is_multiple_def IsClamped_def)
qed

lemma is_multiple_one: "bignum_ok b \<Longrightarrow> is_multiple 1 b (Inr b)"
  by (simp add: is_multiple_def)

lemma is_multiple_zero: "bignum_ok b \<Longrightarrow> is_multiple 0 b (Inr (Zero b))"
  using Zero_ok [of b] by (simp add: is_multiple_def IsClamped_def)

lemma is_multiple_empty: "bignum_ok b \<Longrightarrow> bn_used b = 0 \<Longrightarrow> is_multiple k b (Inr b)"
  by (simp add: is_multiple_def bn_value_def)

section \<open>Products\<close>

lemma unat_below: "unat x < 2 ^ LENGTH('a)" for x :: "'a::len word"
  by simp

lemma unat_ucast_64 [simp]: "unat (ucast (d :: uint32) :: uint64) = unat d"
proof -
  have "unat d < 2 ^ 64" using unat_below [of d] by simp
  then show ?thesis by (simp add: unsigned_ucast_eq take_bit_eq_mod)
qed

lemma unat_mult_64:
  fixes a b :: uint64
  shows "unat a * unat b < 2 ^ 64 \<Longrightarrow> unat (a * b) = unat a * unat b"
  by (simp add: unat_mult_lem [THEN iffD1])

lemma unat_add_64:
  fixes a b :: uint64
  shows "unat a + unat b < 2 ^ 64 \<Longrightarrow> unat (a + b) = unat a + unat b"
  by (simp add: unat_add_lem [THEN iffD1])

definition multiply_step :: "uint32 \<Rightarrow> uint32 \<Rightarrow> uint64 \<Rightarrow> uint32 \<times> uint64" where
  "multiply_step factor d carry =
     (let product = ucast factor * ucast d + carry
      in (ucast (product AND ucast kBigitMask), drop_bit kBigitSize product))"

lemma multiply_digits_scale: "multiply_digits factor n ds = scale_digits (multiply_step factor) n ds 0"
  by (simp add: multiply_digits_def scale_digits_def multiply_step_def Let_def)

lemma product_bound: "(a :: nat) \<le> m \<Longrightarrow> b \<le> n \<Longrightarrow> a * b \<le> m * n"
  by (rule mult_le_mono)

lemma multiply_step_ok:
  assumes "unat d < digit_base" "unat c < 2 ^ 32"
  shows "unat (fst (multiply_step f d c)) + digit_base * unat (snd (multiply_step f d c)) = unat f * unat d + unat c"
    "unat (fst (multiply_step f d c)) < digit_base" "unat (snd (multiply_step f d c)) < 2 ^ 32"
proof -
  have fl: "unat f \<le> 4294967295" using unat_below [of f] by simp
  have le: "unat f * unat d \<le> 4294967295 * 268435455"
    using fl assms(1) by (intro product_bound) simp_all
  then have "unat (ucast f * ucast d :: uint64) = unat f * unat d" by (subst unat_mult_64) simp_all
  then have p: "unat (ucast f * ucast d + c) = unat f * unat d + unat c"
    using le assms(2) by (subst unat_add_64) simp_all
  show "unat (fst (multiply_step f d c)) + digit_base * unat (snd (multiply_step f d c)) = unat f * unat d + unat c"
    "unat (fst (multiply_step f d c)) < digit_base" "unat (snd (multiply_step f d c)) < 2 ^ 32"
    using le assms(2) by (simp_all add: multiply_step_def Let_def p less_mult_imp_div_less)
qed

lemma MultiplyByUInt32_ok:
  assumes "bignum_ok b"
  shows "is_multiple (unat factor) b (MultiplyByUInt32 factor b)"
proof (cases "factor = 1 \<or> factor = 0 \<or> bn_used b = 0")
  case True
  then show ?thesis
    using assms is_multiple_one is_multiple_zero is_multiple_empty by (auto simp: MultiplyByUInt32_def)
next
  case False
  have d: "digits_below (bn_used b) (bn_bigits b)" "bn_used b \<le> 128" using assms by (simp_all add: bignum_ok_digits)
  obtain ds c where r: "multiply_digits factor (bn_used b) (bn_bigits b) = (ds, c)" by fastforce
  have "digits_below (bn_used b) ds \<and> digits_value ds + unat c * digit_base ^ bn_used b = unat factor * digits_value (bn_bigits b)"
    using scale_loop [OF d, of "\<lambda>c. unat c < 2 ^ 32" 0 unat "multiply_step factor" "unat factor"] multiply_step_ok r
    by (simp add: multiply_digits_scale)
  moreover have "0 < unat factor" using False by (simp add: unat_gt_0)
  ultimately show ?thesis using False scaled_multiple [OF assms] r by (simp add: MultiplyByUInt32_def)
qed

definition multiply_step_64 :: "uint64 \<Rightarrow> uint32 \<Rightarrow> uint64 \<Rightarrow> uint32 \<times> uint64" where
  "multiply_step_64 factor d carry =
     (let tmp = (carry AND ucast kBigitMask) + (factor AND 0xFFFFFFFF) * ucast d
      in (ucast (tmp AND ucast kBigitMask),
          drop_bit kBigitSize carry + drop_bit kBigitSize tmp + push_bit (32 - kBigitSize) (drop_bit 32 factor * ucast d)))"

lemma multiply_digits_64_scale: "multiply_digits_64 factor n ds = scale_digits (multiply_step_64 factor) n ds 0"
  by (simp add: multiply_digits_64_def scale_digits_def multiply_step_64_def Let_def)

text \<open>The 64-bit carry never overflows, whatever the factor and the carry.\<close>

lemma multiply_step_64_ok:
  assumes "unat d < digit_base"
  shows "unat (fst (multiply_step_64 f d c)) + digit_base * unat (snd (multiply_step_64 f d c)) = unat f * unat d + unat c"
    "unat (fst (multiply_step_64 f d c)) < digit_base"
proof -
  define l h where "l = unat f mod 2 ^ 32" and "h = unat f div 2 ^ 32"
  have f: "unat f = h * 4294967296 + l" by (simp add: l_def h_def)
  have m: "0xFFFFFFFF = (mask 32 :: uint64)" by (simp add: mask_eq_exp_minus_1)
  have "unat (f AND 0xFFFFFFFF) = unat f mod 2 ^ 32"
    unfolding m take_bit_eq_mask [symmetric] unsigned_take_bit_eq by (simp add: take_bit_eq_mod)
  then have low: "unat (f AND 0xFFFFFFFF) = l" by (simp add: l_def)
  have high: "unat (drop_bit 32 f) = h" by (simp only: unat_drop_bit_word h_def)
  have "l < 2 ^ 32" by (simp add: l_def)
  then have lb: "l \<le> 4294967295" by simp
  have hb: "h \<le> 4294967295" using unat_below [of f] by (simp add: h_def)
  have p: "l * unat d \<le> 4294967295 * 268435455" "h * unat d \<le> 4294967295 * 268435455"
    using lb hb assms by (intro product_bound; simp)+
  have pl: "unat ((f AND 0xFFFFFFFF) * ucast d) = l * unat d" using p(1) low by (subst unat_mult_64) simp_all
  have ph: "unat (drop_bit 32 f * ucast d) = h * unat d" using p(2) high by (subst unat_mult_64) simp_all
  let ?tmp = "(c AND ucast kBigitMask) + (f AND 0xFFFFFFFF) * ucast d"
  have cm: "unat c mod digit_base \<le> 268435455" by (simp add: less_Suc_eq_le [symmetric])
  have tb: "unat c mod digit_base + l * unat d \<le> 4294967296 * 268435455" using p(1) cm by simp
  then have t: "unat ?tmp = unat c mod digit_base + l * unat d" using pl by (subst unat_add_64) simp_all
  have "unat (push_bit 4 (drop_bit 32 f * ucast d)) = unat ((drop_bit 32 f * ucast d) * 16)" by (simp add: push_bit_eq_mult)
  also have "\<dots> = h * unat d * 16" using p(2) ph by (subst unat_mult_64) simp_all
  finally have sh: "unat (push_bit (32 - kBigitSize) (drop_bit 32 f * ucast d)) = h * unat d * 16" by (simp add: kBigitSize_def)
  have td: "unat ?tmp div digit_base \<le> 4294967280" using tb unfolding t by simp
  have cd: "unat c div digit_base \<le> 68719476735" using unat_below [of c] by simp
  have c: "unat (drop_bit kBigitSize c + drop_bit kBigitSize ?tmp) = unat c div digit_base + unat ?tmp div digit_base"
    using td cd by (subst unat_add_64) simp_all
  then have s: "unat (snd (multiply_step_64 f d c)) = unat c div digit_base + unat ?tmp div digit_base + h * unat d * 16"
    unfolding multiply_step_64_def Let_def snd_conv using td cd p(2) sh by (subst unat_add_64) simp_all
  have x: "unat (fst (multiply_step_64 f d c)) = unat ?tmp mod digit_base"
    by (simp add: multiply_step_64_def Let_def)
  show "unat (fst (multiply_step_64 f d c)) < digit_base" by (simp add: x)
  have "unat ?tmp mod digit_base + digit_base * (unat ?tmp div digit_base) = unat c mod digit_base + l * unat d"
    using t by simp
  moreover have "unat c mod digit_base + digit_base * (unat c div digit_base) = unat c" by simp
  moreover have "unat f * unat d = digit_base * (h * unat d * 16) + l * unat d" by (simp add: f algebra_simps)
  ultimately show "unat (fst (multiply_step_64 f d c)) + digit_base * unat (snd (multiply_step_64 f d c)) = unat f * unat d + unat c"
    unfolding s x by (simp only: distrib_left)
qed

lemma bn_used_update [simp]: "bn_used b = n \<Longrightarrow> b\<lparr>bn_used := n\<rparr> = b"
  by (cases b) simp

lemma MultiplyByUInt64_ok:
  assumes "bignum_ok b"
  shows "is_multiple (unat factor) b (MultiplyByUInt64 factor b)"
proof (cases "factor = 1 \<or> factor = 0 \<or> bn_used b = 0")
  case True
  then show ?thesis
    using assms is_multiple_one is_multiple_zero is_multiple_empty
    by (auto simp: MultiplyByUInt64_def multiply_digits_64_def)
next
  case False
  have d: "digits_below (bn_used b) (bn_bigits b)" "bn_used b \<le> 128" using assms by (simp_all add: bignum_ok_digits)
  obtain ds c where r: "multiply_digits_64 factor (bn_used b) (bn_bigits b) = (ds, c)" by fastforce
  have "digits_below (bn_used b) ds \<and> digits_value ds + unat c * digit_base ^ bn_used b = unat factor * digits_value (bn_bigits b)"
    using scale_loop [OF d, of "\<lambda>c. True" 0 unat "multiply_step_64 factor" "unat factor"] multiply_step_64_ok r
    by (simp add: multiply_digits_64_scale)
  moreover have "0 < unat factor" using False by (simp add: unat_gt_0)
  ultimately show ?thesis using False scaled_multiple [OF assms] r by (simp add: MultiplyByUInt64_def)
qed

section \<open>Shifts\<close>

definition shift_step :: "nat \<Rightarrow> uint32 \<Rightarrow> uint32 \<Rightarrow> uint32 \<times> uint32" where
  "shift_step s d carry = ((push_bit s d + carry) AND kBigitMask, drop_bit (kBigitSize - s) d)"

lemma shift_digits_scale: "shift_digits s n ds = scale_digits (shift_step s) n ds 0"
  by (simp add: shift_digits_def scale_digits_def shift_step_def)

lemma shift_step_ok:
  assumes "s < 28" "unat d < digit_base" "unat c < 2 ^ s"
  shows "unat (fst (shift_step s d c)) + digit_base * unat (snd (shift_step s d c)) = 2 ^ s * unat d + unat c"
    "unat (fst (shift_step s d c)) < digit_base" "unat (snd (shift_step s d c)) < 2 ^ s"
proof -
  define q r where "q = unat d div 2 ^ (28 - s)" and "r = unat d mod 2 ^ (28 - s)"
  have B: "2 ^ (28 - s) * 2 ^ s = digit_base" using assms(1) by (simp flip: power_add)
  have d: "unat d = q * 2 ^ (28 - s) + r" unfolding q_def r_def by (rule div_mult_mod_eq [symmetric])
  have e: "2 ^ s * unat d + unat c = (r * 2 ^ s + unat c) + digit_base * q"
    by (simp add: d B [symmetric] algebra_simps)
  have "r + 1 \<le> 2 ^ (28 - s)" by (simp add: r_def Suc_leI)
  then have "(r + 1) * 2 ^ s \<le> digit_base" unfolding B [symmetric] by (rule mult_le_mono1)
  then have l: "r * 2 ^ s + unat c < digit_base" using assms(3) by simp
  have "unat (push_bit s d + c) = (unat d * 2 ^ s + unat c) mod 2 ^ 32"
    by (simp only: unat_word_ariths unsigned_push_bit_eq) (simp add: take_bit_eq_mod push_bit_eq_mult mod_simps)
  then have "unat (push_bit s d + c) mod digit_base = (unat d * 2 ^ s + unat c) mod digit_base"
    by (simp add: mod_mod_cancel)
  also have "unat d * 2 ^ s + unat c = (r * 2 ^ s + unat c) + digit_base * q" using e by (simp only: mult.commute)
  also have "((r * 2 ^ s + unat c) + digit_base * q) mod digit_base = r * 2 ^ s + unat c"
    by (simp only: mod_mult_self2) (simp add: l)
  finally have x: "unat (fst (shift_step s d c)) = r * 2 ^ s + unat c" by (simp add: shift_step_def)
  have y: "unat (snd (shift_step s d c)) = q"
    by (simp only: shift_step_def snd_conv unat_drop_bit_word q_def kBigitSize_def)
  show "unat (fst (shift_step s d c)) + digit_base * unat (snd (shift_step s d c)) = 2 ^ s * unat d + unat c"
    "unat (fst (shift_step s d c)) < digit_base"
    using l by (simp_all only: x y e)
  have "unat d < 2 ^ s * 2 ^ (28 - s)" using assms(2) B by (simp add: mult.commute)
  then show "unat (snd (shift_step s d c)) < 2 ^ s" unfolding y q_def by (rule less_mult_imp_div_less)
qed

lemma BigitsShiftLeft_ok:
  assumes "bignum_ok b" "bn_used b \<le> 127" "bn_used b \<noteq> 0" "s < 28"
  shows "bignum_ok (BigitsShiftLeft s b)" "bn_value (BigitsShiftLeft s b) = 2 ^ s * bn_value b"
    "IsClamped b \<Longrightarrow> IsClamped (BigitsShiftLeft s b)"
proof -
  have d: "digits_below (bn_used b) (bn_bigits b)" "bn_used b \<le> 128" using assms by (simp_all add: bignum_ok_digits)
  obtain ds c where r: "shift_digits s (bn_used b) (bn_bigits b) = (ds, c)" by fastforce
  have l: "digits_below (bn_used b) ds" "digits_value ds + unat c * digit_base ^ bn_used b = 2 ^ s * digits_value (bn_bigits b)"
      "unat c < 2 ^ s"
    using scale_loop [OF d, of "\<lambda>c. unat c < 2 ^ s" 0 unat "shift_step s" "2 ^ s"] shift_step_ok [OF assms(4)] r
    by (simp_all add: shift_digits_scale)
  define a where "a = (if c \<noteq> 0 then b\<lparr>bn_bigits := ds[bn_used b := c], bn_used := bn_used b + 1\<rparr> else b\<lparr>bn_bigits := ds\<rparr>)"
  have a: "BigitsShiftLeft s b = a" using r by (simp add: BigitsShiftLeft_def a_def)
  have "(2 :: nat) ^ s < 2 ^ 28" using assms(4) by (intro power_strict_increasing) simp_all
  then have c: "unat c < digit_base" using l(3) by simp
  have z: "ds ! bn_used b = 0" "length ds = 128" using l(1) assms(2) by (simp_all add: digits_below_def)
  have "digits_value (ds[bn_used b := c]) = digits_value ds + unat c * digit_base ^ bn_used b"
    using digits_value_update [of "bn_used b" ds c] z assms(2) by simp
  then have v: "digits_value (bn_bigits a) = 2 ^ s * digits_value (bn_bigits b)" using l(2)
    by (cases "c = 0") (simp_all add: a_def)
  have "digits_below (bn_used b + 1) (ds[bn_used b := c])"
    using c digits_below_mono [OF l(1), of "bn_used b + 1"] by (intro digits_below_store) simp_all
  then show ok: "bignum_ok (BigitsShiftLeft s b)" using assms l(1) by (simp add: a) (simp add: bignum_ok_digits a_def)
  show "bn_value (BigitsShiftLeft s b) = 2 ^ s * bn_value b"
    using bn_value_all [OF ok] bn_value_all [OF assms(1)] v by (simp add: a) (simp add: a_def)
  show "IsClamped (BigitsShiftLeft s b)" if "IsClamped b"
  proof (cases "c = 0")
    case True
    have "digit_base ^ (bn_used b - 1) \<le> 1 * digits_value (bn_bigits b)"
      using IsClamped_pos [OF assms(1) that assms(3)] digits_below_value [OF d(1)] by simp
    also have "\<dots> \<le> 2 ^ s * digits_value (bn_bigits b)" by (intro mult_le_mono1) simp
    finally show ?thesis using True v a by (intro IsClamped_value [OF ok]) (simp add: a_def)
  next
    case False
    then show ?thesis using z assms(2) by (simp add: a) (simp add: a_def IsClamped_def)
  qed
qed

lemma ShiftLeft_ok:
  assumes "bignum_ok b"
  shows "ShiftLeft n b = Inl CapacityExceeded \<and> bn_used b = 128 \<or>
    (\<exists>a. ShiftLeft n b = Inr a \<and> bignum_ok a \<and> bn_value a = 2 ^ n * bn_value b \<and> (IsClamped b \<longrightarrow> IsClamped a))"
proof (cases "bn_used b = 0")
  case True
  then show ?thesis using assms by (simp add: ShiftLeft_def bn_value_def)
next
  case False
  let ?b = "b\<lparr>bn_exponent := bn_exponent b + n div 28\<rparr>"
  have ok: "bignum_ok ?b" using assms False by (simp add: bignum_ok_digits)
  have "(2 :: nat) ^ n = 2 ^ (n mod 28 + 28 * (n div 28))" by simp
  also have "\<dots> = 2 ^ (n mod 28) * (2 ^ 28) ^ (n div 28)" by (simp only: power_add power_mult)
  finally have "(2 :: nat) ^ n = 2 ^ (n mod 28) * (2 ^ 28) ^ (n div 28)" .
  then have v: "2 ^ (n mod 28) * bn_value ?b = 2 ^ n * bn_value b"
    by (simp add: bn_value_def power_add)
  show ?thesis
  proof (cases "bn_used b = 128")
    case True
    then show ?thesis by (simp add: ShiftLeft_def EnsureCapacity_def)
  next
    case f: False
    then have "bn_used b \<le> 127" using bignum_okD(2) [OF assms] by simp
    then show ?thesis using False BigitsShiftLeft_ok [OF ok, of "n mod 28"] v
      by (simp add: ShiftLeft_def EnsureCapacity_def kBigitSize_def IsClamped_def)
  qed
qed

section \<open>Powers of ten\<close>

definition scaled :: "nat \<Rightarrow> Bignum \<Rightarrow> Bignum \<Rightarrow> bool" where
  "scaled k b a \<longleftrightarrow> bignum_ok a \<and> bn_exponent a = bn_exponent b \<and>
     digits_value (bn_bigits a) = k * digits_value (bn_bigits b) \<and> (IsClamped b \<longrightarrow> IsClamped a)"

text \<open>\<open>scales k b r\<close>: the result \<open>r\<close> is \<open>b\<close> times \<open>k\<close>, or there is no room for it.\<close>

definition scales :: "nat \<Rightarrow> Bignum \<Rightarrow> bignum_error + Bignum \<Rightarrow> bool" where
  "scales k b r \<longleftrightarrow> r = Inl CapacityExceeded \<and> digit_base ^ 128 \<le> k * digits_value (bn_bigits b) \<or> (\<exists>a. r = Inr a \<and> scaled k b a)"

lemma scales_multiple:
  assumes "is_multiple k b r" "k \<noteq> 0" "bignum_ok b"
  shows "scales k b r"
proof -
  have "digits_value (bn_bigits a) = k * digits_value (bn_bigits b)"
    if "bignum_ok a" "bn_value a = k * bn_value b" "bn_exponent a = bn_exponent b" for a
    using that bn_value_all [OF that(1)] bn_value_all [OF assms(3)] by simp
  then show ?thesis using assms(1,2) by (auto simp: is_multiple_def scales_def scaled_def)
qed

lemma scaled_refl: "bignum_ok b \<Longrightarrow> scaled 1 b b"
  by (simp add: scaled_def)

lemma scaled_trans: "scaled k b a \<Longrightarrow> scaled l a c \<Longrightarrow> scaled (l * k) b c"
  by (simp add: scaled_def mult.assoc)

lemma scales_trans:
  assumes "scaled k b a" "scales l a r"
  shows "scales (l * k) b r"
  using assms scaled_trans [OF assms(1)] by (auto simp: scales_def scaled_def mult.assoc)

lemma five_powers: "unat kFive27 = 5 ^ 27" "unat kFive13 = 5 ^ 13"
  by (simp_all add: kFive27_def kFive13_def)

lemma five_table:
  assumes "i < 12"
  shows "unat (kFive1_to_12 ! i) = 5 ^ (i + 1)"
proof -
  have "i \<in> {0, 1, 2, 3, 4, 5, 6, 7, 8, 9, 10, 11}" using assms by (simp, presburger)
  then show ?thesis by (elim insertE emptyE) (simp_all add: kFive1_to_12_def)
qed

lemma scales_more: "scales k b r \<Longrightarrow> r = Inl CapacityExceeded \<Longrightarrow> k \<le> l \<Longrightarrow> digit_base ^ 128 \<le> l * digits_value (bn_bigits b)"
  by (auto simp: scales_def intro: order_trans mult_le_mono1)

text \<open>The two loops: the rest of the exponent is below the step.\<close>

lemma five_loop:
  fixes loop :: "nat \<Rightarrow> Bignum \<Rightarrow> bignum_error + (nat \<times> Bignum)"
  assumes loop: "\<And>e b. loop e b = (if k \<le> e then bn_then (multiply b) (loop (e - k)) else Inr (e, b))"
    and mult: "\<And>b. bignum_ok b \<Longrightarrow> scales (5 ^ k) b (multiply b)" and k: "0 < k"
  shows "bignum_ok b \<Longrightarrow> loop e b = Inl CapacityExceeded \<and> digit_base ^ 128 \<le> 5 ^ e * digits_value (bn_bigits b) \<or>
     (\<exists>r a. loop e b = Inr (r, a) \<and> r < k \<and> r \<le> e \<and> scaled (5 ^ (e - r)) b a)"
proof (induction e arbitrary: b rule: less_induct)
  case (less e)
  show ?case
  proof (cases "k \<le> e")
    case True
    note s = mult [OF less(2)]
    have p: "(5 :: nat) ^ e = 5 ^ (e - k) * 5 ^ k" using True by (simp flip: power_add)
    show ?thesis
    proof (cases "multiply b")
      case (Inl x)
      then have "multiply b = Inl CapacityExceeded" using s by (auto simp: scales_def)
      moreover have "(5 :: nat) ^ k \<le> 5 ^ e" using True by (rule power_increasing) simp
      ultimately show ?thesis using scales_more [OF s] True loop [of e b] by simp
    next
      case (Inr c)
      then have c: "scaled (5 ^ k) b c" using s by (simp add: scales_def)
      have step: "loop e b = loop (e - k) c"
        using True Inr loop [of e b] by simp
      have "e - k < e" using True k by simp
      then have "loop (e - k) c = Inl CapacityExceeded \<and> digit_base ^ 128 \<le> 5 ^ (e - k) * digits_value (bn_bigits c) \<or>
          (\<exists>r a. loop (e - k) c = Inr (r, a) \<and> r < k \<and> r \<le> e - k \<and> scaled (5 ^ (e - k - r)) c a)"
        using c by (intro less(1)) (simp_all add: scaled_def)
      then show ?thesis unfolding step
      proof (elim disjE exE conjE, goal_cases)
        case 1
        then show ?case using c p by (simp add: scaled_def mult.assoc)
      next
        case (2 r a)
        have "(5 :: nat) ^ (e - k - r) * 5 ^ k = 5 ^ (e - r)" using 2 True by (simp flip: power_add)
        then show ?case using scaled_trans [OF c 2(4)] 2 by (intro disjI2 exI [of _ r] exI [of _ a]) simp
      qed
    qed
  next
    case False
    then show ?thesis using less(2) loop [of e b] by (simp add: scaled_refl [simplified])
  qed
qed

lemma five27_loop_ok:
  "bignum_ok b \<Longrightarrow> five27_loop e b = Inl CapacityExceeded \<and> digit_base ^ 128 \<le> 5 ^ e * digits_value (bn_bigits b) \<or>
     (\<exists>r a. five27_loop e b = Inr (r, a) \<and> r < 27 \<and> r \<le> e \<and> scaled (5 ^ (e - r)) b a)"
proof (rule five_loop)
  show "scales (5 ^ 27) b (MultiplyByUInt64 kFive27 b)" if "bignum_ok b" for b
    using scales_multiple [OF MultiplyByUInt64_ok [OF that], of kFive27] that by (simp add: five_powers)
qed (subst five27_loop.simps, simp_all)

lemma five13_loop_ok:
  "bignum_ok b \<Longrightarrow> five13_loop e b = Inl CapacityExceeded \<and> digit_base ^ 128 \<le> 5 ^ e * digits_value (bn_bigits b) \<or>
     (\<exists>r a. five13_loop e b = Inr (r, a) \<and> r < 13 \<and> r \<le> e \<and> scaled (5 ^ (e - r)) b a)"
proof (rule five_loop)
  show "scales (5 ^ 13) b (MultiplyByUInt32 kFive13 b)" if "bignum_ok b" for b
    using scales_multiple [OF MultiplyByUInt32_ok [OF that], of kFive13] that by (simp add: five_powers)
qed (subst five13_loop.simps, simp_all)

text \<open>With a value below \<open>2 ^ 3556\<close> after the multiplication by the power of five there is always room.\<close>

lemma MultiplyByPowerOfTen_ok:
  assumes b: "bignum_ok b" "IsClamped b"
  shows "MultiplyByPowerOfTen e b = Inl CapacityExceeded \<and> digit_base ^ 127 \<le> 5 ^ e * digits_value (bn_bigits b) \<or>
    (\<exists>a. MultiplyByPowerOfTen e b = Inr a \<and> bignum_ok a \<and> bn_value a = 10 ^ e * bn_value b \<and> IsClamped a)"
proof (cases "e = 0 \<or> bn_used b = 0")
  case True
  then show ?thesis using b by (auto simp: MultiplyByPowerOfTen_def bn_value_def)
next
  case False
  let ?big = "\<lambda>k. digit_base ^ 127 \<le> k * digits_value (bn_bigits b)"
  have big: "?big (5 ^ e)" if "digit_base ^ 128 \<le> 5 ^ n * digits_value (bn_bigits b)" "n \<le> e" for n
  proof -
    have "digit_base ^ 127 \<le> digit_base ^ 128" by (rule power_increasing) simp_all
    also note that(1)
    also have "5 ^ n * digits_value (bn_bigits b) \<le> 5 ^ e * digits_value (bn_bigits b)"
      using power_increasing [OF that(2), of "5 :: nat"] by (intro mult_le_mono1) simp
    finally show ?thesis .
  qed
  show ?thesis
  proof (cases "five27_loop e b")
    case (Inl x)
    then show ?thesis using five27_loop_ok [OF b(1), of e] big [of e] False by (auto simp: MultiplyByPowerOfTen_def)
  next
    case (Inr c)
    then obtain r a where a: "five27_loop e b = Inr (r, a)" "r \<le> e" "scaled (5 ^ (e - r)) b a" "bignum_ok a"
      using five27_loop_ok [OF b(1), of e] by (auto simp: scaled_def)
    have more: "5 ^ n * digits_value (bn_bigits a) = 5 ^ (n + (e - r)) * digits_value (bn_bigits b)" for n
      using a(3) by (simp add: scaled_def power_add)
    show ?thesis
    proof (cases "five13_loop r a")
      case (Inl x)
      then have "five13_loop r a = Inl CapacityExceeded" "digit_base ^ 128 \<le> 5 ^ e * digits_value (bn_bigits b)"
        using five13_loop_ok [OF a(4), of r] more [of r] a(2) by auto
      then show ?thesis using big [of e] False a by (simp add: MultiplyByPowerOfTen_def)
    next
      case (Inr c)
      then obtain q a' where a': "five13_loop r a = Inr (q, a')" "q < 13" "q \<le> r" "scaled (5 ^ (r - q)) a a'" "bignum_ok a'"
        using five13_loop_ok [OF a(4), of r] by (auto simp: scaled_def)
      have "scaled (5 ^ (r - q) * 5 ^ (e - r)) b a'" by (rule scaled_trans [OF a(3) a'(4)])
      then have ba: "scaled (5 ^ (e - q)) b a'" using a(2) a'(3) by (simp flip: power_add)
      let ?r = "if q > 0 then MultiplyByUInt32 (kFive1_to_12 ! (q - 1)) a' else Inr a'"
      have "scales (5 ^ q) a' ?r"
      proof (cases "q = 0")
        case True
        then show ?thesis using scaled_refl [OF a'(5)] by (simp add: scales_def)
      next
        case f: False
        then have "unat (kFive1_to_12 ! (q - 1)) = 5 ^ q" using a'(2) by (subst five_table) simp_all
        then show ?thesis
          using f scales_multiple [OF MultiplyByUInt32_ok [OF a'(5), of "kFive1_to_12 ! (q - 1)"] _ a'(5)] by simp
      qed
      then have "scales (5 ^ q * 5 ^ (e - q)) b ?r" by (rule scales_trans [OF ba])
      then have s: "scales (5 ^ e) b ?r" using a(2) a'(3) by (simp flip: power_add)
      have eq: "MultiplyByPowerOfTen e b = bn_then ?r (ShiftLeft e)"
        using False a(1) a'(1) by (simp add: MultiplyByPowerOfTen_def)
      from s show ?thesis unfolding eq scales_def
      proof (elim disjE exE conjE, goal_cases)
        case 1
        then show ?case using big [of e] by simp
      next
        case (2 c)
        have c: "bignum_ok c" "IsClamped c" "digits_value (bn_bigits c) = 5 ^ e * digits_value (bn_bigits b)"
          using 2(2) b(2) by (simp_all add: scaled_def)
        have "bn_value c = 5 ^ e * bn_value b"
          using bn_value_all [OF c(1)] bn_value_all [OF b(1)] 2(2) by (simp add: scaled_def)
        then have "2 ^ e * bn_value c = 10 ^ e * bn_value b" by (simp flip: power_mult_distrib add: mult.assoc [symmetric])
        moreover have "digit_base ^ 127 \<le> digits_value (bn_bigits c)" if "bn_used c = 128"
          using IsClamped_pos [OF c(1,2)] that digits_below_value [of 128 "bn_bigits c"] c(1) by (simp add: bignum_ok_digits)
        ultimately show ?case using ShiftLeft_ok [OF c(1), of e] 2(1) c(2,3) by auto
      qed
    qed
  qed
qed

end
