(* ===== verification/BignumCompare.thy ===== *)
theory BignumCompare
  imports BignumProduct
begin

text \<open>
  Comparison and division of \<open>Bignum\<close>: the comparison of two numbers and of a sum with a number, the
  subtraction of a small multiple, and the division with a 16-bit quotient.
\<close>

section \<open>Comparison\<close>

text \<open>The loops run down from index \<open>n - 1\<close> to \<open>lo\<close>.\<close>

fun compare_loop :: "Bignum \<Rightarrow> Bignum \<Rightarrow> nat \<Rightarrow> nat \<Rightarrow> int" where
  "compare_loop a b lo 0 = 0"
| "compare_loop a b lo (Suc i) =
     (if i < lo then 0
      else if BigitAt a i < BigitAt b i then -1
      else if BigitAt a i > BigitAt b i then 1
      else compare_loop a b lo i)"

definition Compare :: "Bignum \<Rightarrow> Bignum \<Rightarrow> int" where
  "Compare a b =
     (if BigitLength a < BigitLength b then -1
      else if BigitLength a > BigitLength b then 1
      else compare_loop a b (min (bn_exponent a) (bn_exponent b)) (BigitLength a))"

definition Equal :: "Bignum \<Rightarrow> Bignum \<Rightarrow> bool" where "Equal a b \<longleftrightarrow> Compare a b = 0"
definition LessEqual :: "Bignum \<Rightarrow> Bignum \<Rightarrow> bool" where "LessEqual a b \<longleftrightarrow> Compare a b \<le> 0"
definition Less :: "Bignum \<Rightarrow> Bignum \<Rightarrow> bool" where "Less a b \<longleftrightarrow> Compare a b < 0"

fun plus_compare_loop :: "Bignum \<Rightarrow> Bignum \<Rightarrow> Bignum \<Rightarrow> nat \<Rightarrow> nat \<Rightarrow> uint32 \<Rightarrow> int" where
  "plus_compare_loop a b c lo 0 borrow = (if borrow = 0 then 0 else -1)"
| "plus_compare_loop a b c lo (Suc i) borrow =
     (if i < lo then (if borrow = 0 then 0 else -1)
      else
        (let sum = BigitAt a i + BigitAt b i in
         if sum > BigitAt c i + borrow then 1
         else
           (let borrow = BigitAt c i + borrow - sum in
            if borrow > 1 then -1 else plus_compare_loop a b c lo i (push_bit kBigitSize borrow))))"

text \<open>The recursive call only swaps the two summands.\<close>

definition plus_compare :: "Bignum \<Rightarrow> Bignum \<Rightarrow> Bignum \<Rightarrow> int" where
  "plus_compare a b c =
     (if BigitLength a + 1 < BigitLength c then -1
      else if BigitLength a > BigitLength c then 1
      else if bn_exponent a \<ge> BigitLength b \<and> BigitLength a < BigitLength c then -1
      else plus_compare_loop a b c (min (min (bn_exponent a) (bn_exponent b)) (bn_exponent c)) (BigitLength c) 0)"

definition PlusCompare :: "Bignum \<Rightarrow> Bignum \<Rightarrow> Bignum \<Rightarrow> int" where
  "PlusCompare a b c = (if BigitLength a < BigitLength b then plus_compare b a c else plus_compare a b c)"

definition PlusEqual :: "Bignum \<Rightarrow> Bignum \<Rightarrow> Bignum \<Rightarrow> bool" where "PlusEqual a b c \<longleftrightarrow> PlusCompare a b c = 0"
definition PlusLessEqual :: "Bignum \<Rightarrow> Bignum \<Rightarrow> Bignum \<Rightarrow> bool" where "PlusLessEqual a b c \<longleftrightarrow> PlusCompare a b c \<le> 0"
definition PlusLess :: "Bignum \<Rightarrow> Bignum \<Rightarrow> Bignum \<Rightarrow> bool" where "PlusLess a b c \<longleftrightarrow> PlusCompare a b c < 0"

section \<open>Division\<close>

definition subtract_times_digits :: "Bignum \<Rightarrow> uint32 \<Rightarrow> nat \<Rightarrow> uint32 list \<Rightarrow> uint32 list \<times> uint32" where
  "subtract_times_digits other factor exponent_diff ds =
     fold (\<lambda>i (ds, borrow).
         let product = ucast factor * ucast (bn_bigits other ! i);
             remove = ucast borrow + (product :: uint64);
             difference = ds ! (i + exponent_diff) - ucast (remove AND ucast kBigitMask)
         in (ds[i + exponent_diff := difference AND kBigitMask],
             ucast (ucast (drop_bit (kChunkSize - 1) difference) + drop_bit kBigitSize remove)))
       [0..<bn_used other] (ds, 0)"

text \<open>The last loop steps twice in each turn. The flag says that it has returned early, without clamping.\<close>

function subtract_times_borrow :: "uint32 list \<Rightarrow> nat \<Rightarrow> nat \<Rightarrow> uint32 \<Rightarrow> bool \<times> uint32 list" where
  "subtract_times_borrow ds i n borrow =
     (if i < n then
        (if borrow = 0 then (True, ds)
         else (let difference = ds ! i - borrow
               in subtract_times_borrow (ds[i := difference AND kBigitMask]) (i + 2) n
                    (drop_bit (kChunkSize - 1) difference)))
      else (False, ds))"
  by pat_completeness auto
termination by (relation "measure (\<lambda>(ds, i, n, c). n - i)") auto

declare subtract_times_borrow.simps [simp del]

primrec subtract_repeat :: "Bignum \<Rightarrow> nat \<Rightarrow> Bignum \<Rightarrow> bignum_error + Bignum" where
  "subtract_repeat other 0 b = Inr b"
| "subtract_repeat other (Suc n) b = bn_then (SubtractBignum other b) (subtract_repeat other n)"

definition SubtractTimes :: "Bignum \<Rightarrow> uint32 \<Rightarrow> Bignum \<Rightarrow> bignum_error + Bignum" where
  "SubtractTimes other factor b =
     (if factor < 3 then subtract_repeat other (unat factor) b
      else
        (let exponent_diff = bn_exponent other - bn_exponent b;
             (ds, borrow) = subtract_times_digits other factor exponent_diff (bn_bigits b);
             (returned, ds) = subtract_times_borrow ds (bn_used other + exponent_diff) (bn_used b) borrow
         in Inr (if returned then b\<lparr>bn_bigits := ds\<rparr> else Clamp (b\<lparr>bn_bigits := ds\<rparr>))))"

text \<open>The two loops of the division have fuel; None says that it is used up.\<close>

primrec divide_top :: "nat \<Rightarrow> Bignum \<Rightarrow> Bignum \<Rightarrow> uint16 \<Rightarrow> (bignum_error + (uint16 \<times> Bignum)) option" where
  "divide_top 0 other b result = None"
| "divide_top (Suc n) other b result =
     (if BigitLength b > BigitLength other then
        (let top = bn_bigits b ! (bn_used b - 1) in
         case SubtractTimes other top b of
           Inl e \<Rightarrow> Some (Inl e)
         | Inr b \<Rightarrow> divide_top n other b (result + ucast top))
      else Some (Inr (result, b)))"

primrec divide_rest :: "nat \<Rightarrow> Bignum \<Rightarrow> Bignum \<Rightarrow> uint16 \<Rightarrow> (bignum_error + (uint16 \<times> Bignum)) option" where
  "divide_rest 0 other b result = None"
| "divide_rest (Suc n) other b result =
     (if LessEqual other b then
        (case SubtractBignum other b of
           Inl e \<Rightarrow> Some (Inl e)
         | Inr b \<Rightarrow> divide_rest n other b (result + 1))
      else Some (Inr (result, b)))"

definition divide_same_length :: "nat \<Rightarrow> Bignum \<Rightarrow> Bignum \<Rightarrow> uint16 \<Rightarrow> (bignum_error + (uint16 \<times> Bignum)) option" where
  "divide_same_length n other b result =
     (let this_bigit = bn_bigits b ! (bn_used b - 1);
          other_bigit = bn_bigits other ! (bn_used other - 1)
      in if bn_used other = 1 then
           (let quotient = this_bigit div other_bigit
            in Some (Inr (result + ucast quotient,
                 Clamp (b\<lparr>bn_bigits := (bn_bigits b)[bn_used b - 1 := this_bigit - other_bigit * quotient]\<rparr>))))
         else
           (let division_estimate = this_bigit div (other_bigit + 1);
                result = result + ucast division_estimate
            in case SubtractTimes other division_estimate b of
                 Inl e \<Rightarrow> Some (Inl e)
               | Inr b \<Rightarrow>
                   if other_bigit * (division_estimate + 1) > this_bigit then Some (Inr (result, b))
                   else divide_rest n other b result))"

definition DivideModuloIntBignum :: "nat \<Rightarrow> Bignum \<Rightarrow> Bignum \<Rightarrow> (bignum_error + (uint16 \<times> Bignum)) option" where
  "DivideModuloIntBignum n other b =
     (if BigitLength b < BigitLength other then Some (Inr (0, b))
      else
        (case Align other b of
           Inl e \<Rightarrow> Some (Inl e)
         | Inr b \<Rightarrow>
             (case divide_top n other b 0 of
                None \<Rightarrow> None
              | Some (Inl e) \<Rightarrow> Some (Inl e)
              | Some (Inr (result, b)) \<Rightarrow> divide_same_length n other b result)))"

section \<open>The digits of the value\<close>

definition bigits_upto :: "Bignum \<Rightarrow> nat \<Rightarrow> uint32 list" where
  "bigits_upto b n = map (BigitAt b) [0..<n]"

abbreviation value_upto :: "Bignum \<Rightarrow> nat \<Rightarrow> nat" where
  "value_upto b n \<equiv> digits_value (bigits_upto b n)"

lemma value_upto_Suc: "value_upto b (Suc n) = value_upto b n + unat (BigitAt b n) * digit_base ^ n"
  by (simp add: bigits_upto_def digits_value_append mult.commute)

lemma value_upto_0 [simp]: "value_upto b 0 = 0"
  by (simp add: bigits_upto_def)

lemma BigitAt_small: "bignum_ok b \<Longrightarrow> unat (BigitAt b i) < digit_base"
  using bignum_okD(2) [of b] bignum_okD(5) [of b "i - bn_exponent b"] by (auto simp: BigitAt_def BigitLength_def)

lemma value_upto_less: "bignum_ok b \<Longrightarrow> value_upto b n < digit_base ^ n"
  using digits_value_less [of "bigits_upto b n"] BigitAt_small [of b] by (auto simp: bigits_upto_def small_digits_def)

lemma bigits_upto_all:
  assumes "bignum_ok b"
  shows "bigits_upto b (BigitLength b) = replicate (bn_exponent b) 0 @ take (bn_used b) (bn_bigits b)"
proof (rule nth_equalityI)
  show "length (bigits_upto b (BigitLength b)) = length (replicate (bn_exponent b) 0 @ take (bn_used b) (bn_bigits b))"
    using bignum_okD(1,2) [OF assms] by (simp add: bigits_upto_def BigitLength_def)
  fix i assume "i < length (bigits_upto b (BigitLength b))"
  then show "bigits_upto b (BigitLength b) ! i = (replicate (bn_exponent b) 0 @ take (bn_used b) (bn_bigits b)) ! i"
    using bignum_okD(1,2) [OF assms] by (simp add: bigits_upto_def BigitAt_def BigitLength_def nth_append)
qed

lemma value_upto_all:
  assumes "bignum_ok b" "BigitLength b \<le> n"
  shows "value_upto b n = bn_value b"
  using assms(2)
proof (induction n rule: dec_induct)
  case base
  show ?case
    by (simp add: bigits_upto_all [OF assms(1)] digits_value_append digits_value_zeros bn_value_def mult.commute)
next
  case (step n)
  then show ?case by (simp add: value_upto_Suc BigitAt_def)
qed

lemma value_upto_zero: "n \<le> bn_exponent b \<Longrightarrow> value_upto b n = 0"
  by (induction n) (simp_all add: value_upto_Suc BigitAt_def)

section \<open>Comparison is that of the values\<close>

definition order_sign :: "nat \<Rightarrow> nat \<Rightarrow> int" where
  "order_sign x y = (if x < y then -1 else if y < x then 1 else 0)"

lemma leading_digit:
  assumes "x < digit_base ^ n" "(d :: nat) < e"
  shows "x + d * digit_base ^ n < y + e * digit_base ^ n"
proof -
  have "d * digit_base ^ n + digit_base ^ n \<le> e * digit_base ^ n"
    using mult_le_mono1 [of "d + 1" e "digit_base ^ n"] assms(2) by simp
  then show ?thesis using assms(1) by linarith
qed

lemma compare_loop_ok:
  assumes "bignum_ok a" "bignum_ok b" "lo \<le> bn_exponent a" "lo \<le> bn_exponent b"
  shows "compare_loop a b lo n = order_sign (value_upto a n) (value_upto b n)"
proof (induction n)
  case (Suc n)
  show ?case
  proof (cases "n < lo")
    case True
    then show ?thesis using assms(3,4) value_upto_zero [of "Suc n" a] value_upto_zero [of "Suc n" b] by (simp add: order_sign_def)
  next
    case False
    show ?thesis
      using False Suc leading_digit [OF value_upto_less [OF assms(1)], of "unat (BigitAt a n)" "unat (BigitAt b n)" n "value_upto b n"]
        leading_digit [OF value_upto_less [OF assms(2)], of "unat (BigitAt b n)" "unat (BigitAt a n)" n "value_upto a n"]
      by (auto simp: value_upto_Suc order_sign_def word_less_nat_alt)
  qed
qed (simp add: order_sign_def)

lemma shorter_less:
  assumes "bignum_ok a" "bignum_ok b" "IsClamped b" "BigitLength a < BigitLength b"
  shows "bn_value a < bn_value b"
  using BigitLength_mono [OF assms(2,1,3)] assms(4) by linarith

lemma Compare_ok:
  assumes "bignum_ok a" "bignum_ok b" "IsClamped a" "IsClamped b"
  shows "Compare a b = order_sign (bn_value a) (bn_value b)"
proof (cases "BigitLength a = BigitLength b")
  case True
  then show ?thesis
    using compare_loop_ok [OF assms(1,2), of "min (bn_exponent a) (bn_exponent b)" "BigitLength a"]
      value_upto_all [OF assms(1), of "BigitLength a"] value_upto_all [OF assms(2), of "BigitLength a"]
    by (simp add: Compare_def)
next
  case False
  then show ?thesis using shorter_less [OF assms(1,2,4)] shorter_less [OF assms(2,1,3)]
    by (auto simp: Compare_def order_sign_def)
qed

lemma LessEqual_ok:
  "bignum_ok a \<Longrightarrow> bignum_ok b \<Longrightarrow> IsClamped a \<Longrightarrow> IsClamped b \<Longrightarrow> LessEqual a b \<longleftrightarrow> bn_value a \<le> bn_value b"
  by (auto simp: LessEqual_def Compare_ok order_sign_def)

text \<open>
  The comparison of a sum: \<open>borrow\<close> is what the digits above leave of the right side, in units of the
  next digit.
\<close>

lemma plus_compare_loop_ok:
  assumes "bignum_ok a" "bignum_ok b" "bignum_ok c" "lo \<le> bn_exponent a" "lo \<le> bn_exponent b" "lo \<le> bn_exponent c"
  shows "unat borrow = 0 \<or> unat borrow = digit_base \<Longrightarrow>
    plus_compare_loop a b c lo n borrow =
    order_sign (value_upto a n + value_upto b n) (value_upto c n + unat borrow div digit_base * digit_base ^ n)"
proof (induction n arbitrary: borrow)
  case 0
  then show ?case by (auto simp: order_sign_def unat_eq_zero)
next
  case (Suc n)
  let ?bo = "unat borrow div digit_base"
  have z: "borrow = 0 \<longleftrightarrow> unat borrow = 0" by (simp add: unat_eq_zero)
  show ?case
  proof (cases "n < lo")
    case True
    then have "value_upto a (Suc n) = 0" "value_upto b (Suc n) = 0" "value_upto c (Suc n) = 0"
      using assms(4-6) by (intro value_upto_zero; simp)+
    then show ?thesis using True Suc.prems z by (auto simp: order_sign_def)
  next
    case False
    let ?a = "unat (BigitAt a n)" and ?b = "unat (BigitAt b n)" and ?c = "unat (BigitAt c n)"
    let ?L = "value_upto a n + value_upto b n" and ?R = "value_upto c n"
    note s = BigitAt_small [OF assms(1), of n] BigitAt_small [OF assms(2), of n] BigitAt_small [OF assms(3), of n]
    have sum: "unat (BigitAt a n + BigitAt b n) = ?a + ?b" using s by (subst unat_add_lem [THEN iffD1]) simp_all
    have rhs: "unat (BigitAt c n + borrow) = ?c + unat borrow"
      using s(3) Suc.prems by (subst unat_add_lem [THEN iffD1]) auto
    have bo: "unat borrow = ?bo * digit_base" using Suc.prems by auto
    have L: "value_upto a (Suc n) + value_upto b (Suc n) = ?L + (?a + ?b) * digit_base ^ n"
      by (simp add: value_upto_Suc distrib_right)
    have R: "value_upto c (Suc n) + ?bo * digit_base ^ Suc n = ?R + (?c + unat borrow) * digit_base ^ n"
      using bo by (simp add: value_upto_Suc distrib_right mult.assoc)
    have bounds: "?L < 2 * digit_base ^ n" "?R < digit_base ^ n"
      using value_upto_less [OF assms(1), of n] value_upto_less [OF assms(2), of n] value_upto_less [OF assms(3), of n] by simp_all
    show ?thesis
    proof (cases "?c + unat borrow < ?a + ?b")
      case True
      then have "BigitAt c n + borrow < BigitAt a n + BigitAt b n" by (simp add: word_less_nat_alt sum rhs)
      moreover have "?R + (?c + unat borrow) * digit_base ^ n < ?L + (?a + ?b) * digit_base ^ n"
        by (rule leading_digit [OF bounds(2) True])
      ultimately show ?thesis using False unfolding L R by (simp add: order_sign_def Let_def)
    next
      case le: False
      let ?d = "BigitAt c n + borrow - (BigitAt a n + BigitAt b n)"
      have d: "unat ?d = ?c + unat borrow - (?a + ?b)"
        using le by (subst unat_sub) (simp_all add: word_le_nat_alt sum rhs)
      have ng: "\<not> BigitAt c n + borrow < BigitAt a n + BigitAt b n" using le by (simp add: word_less_nat_alt sum rhs)
      have e: "(?c + unat borrow) * digit_base ^ n = (?a + ?b) * digit_base ^ n + unat ?d * digit_base ^ n"
        using le d by (simp flip: distrib_right)
      show ?thesis
      proof (cases "unat ?d \<le> 1")
        case True
        then have d1: "\<not> 1 < ?d" by (simp add: word_less_nat_alt)
        have sh: "unat (push_bit kBigitSize ?d) = unat ?d * digit_base"
        proof -
          have "unat (push_bit kBigitSize ?d) = take_bit 32 (unat ?d * digit_base)"
            unfolding unsigned_push_bit_eq by (simp add: push_bit_eq_mult kBigitSize_def)
          also have "\<dots> = unat ?d * digit_base" using True by (intro take_bit_nat_eq_self) simp
          finally show ?thesis .
        qed
        have "unat (push_bit kBigitSize ?d) = 0 \<or> unat (push_bit kBigitSize ?d) = digit_base"
          unfolding sh using True by (cases "unat ?d") auto
        then have "plus_compare_loop a b c lo n (push_bit kBigitSize ?d) = order_sign ?L (?R + unat ?d * digit_base ^ n)"
          using Suc.IH [of "push_bit kBigitSize ?d"] sh by simp
        then show ?thesis using False d1 ng unfolding L R e
          by (simp add: Let_def) (simp add: order_sign_def)
      next
        case big: False
        then have "1 < ?d" by (simp add: word_less_nat_alt)
        moreover have "2 * digit_base ^ n \<le> unat ?d * digit_base ^ n" using big by (intro mult_le_mono1) simp
        then have "?L < ?R + unat ?d * digit_base ^ n" using bounds(1) by linarith
        ultimately show ?thesis using False ng unfolding L R e by (simp add: Let_def order_sign_def)
      qed
    qed
  qed
qed


lemma plus_compare_ok:
  assumes ok: "bignum_ok a" "bignum_ok b" "bignum_ok c" and cl: "IsClamped a" "IsClamped b" "IsClamped c"
    and ab: "BigitLength b \<le> BigitLength a"
  shows "plus_compare a b c = order_sign (bn_value a + bn_value b) (bn_value c)"
proof -
  let ?B = "digit_base" and ?A = "BigitLength a"
  have va: "bn_value a < ?B ^ ?A" by (rule bn_value_less [OF ok(1)])
  have "bn_value b < ?B ^ BigitLength b" by (rule bn_value_less [OF ok(2)])
  also have "?B ^ BigitLength b \<le> ?B ^ ?A" using ab by (rule power_increasing) simp
  finally have vb: "bn_value b < ?B ^ ?A" .
  have vc: "?B ^ (BigitLength c - 1) \<le> bn_value c" if "BigitLength c \<noteq> 0"
  proof -
    have "bn_used c \<noteq> 0"
    proof
      assume "bn_used c = 0"
      then show False using bignum_okD(6) [OF ok(3)] that by (simp add: BigitLength_def)
    qed
    then show ?thesis by (rule bn_value_ge [OF ok(3) cl(3)])
  qed
  consider (far) "?A + 1 < BigitLength c" | (long) "?A > BigitLength c"
    | (gap) "BigitLength c = ?A + 1" "BigitLength b \<le> bn_exponent a"
    | (loop) "?A \<le> BigitLength c" "BigitLength c \<le> ?A + 1" "\<not> (BigitLength b \<le> bn_exponent a \<and> ?A < BigitLength c)"
    by linarith
  then show ?thesis
  proof cases
    case far
    have "?B ^ (?A + 1) \<le> ?B ^ (BigitLength c - 1)" using far by (intro power_increasing) simp_all
    then have "?B * ?B ^ ?A \<le> bn_value c" using vc far by simp
    then show ?thesis using va vb far by (simp add: plus_compare_def order_sign_def)
  next
    case long
    then have "bn_value c < bn_value a" by (rule shorter_less [OF ok(3,1) cl(1)])
    then show ?thesis using long by (simp add: plus_compare_def order_sign_def)
  next
    case gap
    have "bn_value a + bn_value b < ?B ^ ?A"
    proof -
      let ?d = "digits_value (take (bn_used a) (bn_bigits a))"
      have "?d < ?B ^ bn_used a"
        using digits_below_less [of "bn_used a" "bn_bigits a"] digits_below_value [of "bn_used a" "bn_bigits a"] ok(1)
        by (simp add: bignum_ok_digits)
      then have "(?d + 1) * ?B ^ bn_exponent a \<le> ?B ^ bn_used a * ?B ^ bn_exponent a" by (intro mult_le_mono1) simp
      then have "bn_value a + ?B ^ bn_exponent a \<le> ?B ^ ?A" by (simp add: bn_value_def BigitLength_def power_add)
      moreover have "?B ^ BigitLength b \<le> ?B ^ bn_exponent a" by (rule power_increasing [OF gap(2)]) simp
      then have "bn_value b < ?B ^ bn_exponent a" by (rule less_le_trans [OF bn_value_less [OF ok(2)]])
      ultimately show ?thesis by linarith
    qed
    then show ?thesis using gap vc by (simp add: plus_compare_def order_sign_def)
  next
    case loop
    have v: "value_upto a (BigitLength c) = bn_value a" "value_upto b (BigitLength c) = bn_value b" "value_upto c (BigitLength c) = bn_value c"
      using loop(1) ab by (intro value_upto_all ok; simp)+
    show ?thesis
      using plus_compare_loop_ok [OF ok, of "min (min (bn_exponent a) (bn_exponent b)) (bn_exponent c)" 0 "BigitLength c"] loop v
      by (auto simp: plus_compare_def)
  qed
qed

lemma PlusCompare_ok:
  assumes "bignum_ok a" "bignum_ok b" "bignum_ok c" "IsClamped a" "IsClamped b" "IsClamped c"
  shows "PlusCompare a b c = order_sign (bn_value a + bn_value b) (bn_value c)"
proof (cases "BigitLength a < BigitLength b")
  case True
  then have "PlusCompare a b c = plus_compare b a c" by (simp add: PlusCompare_def)
  also have "\<dots> = order_sign (bn_value b + bn_value a) (bn_value c)"
    using assms True by (intro plus_compare_ok) simp_all
  finally show ?thesis by (simp only: add.commute)
next
  case False
  then have "PlusCompare a b c = plus_compare a b c" by (simp add: PlusCompare_def)
  then show ?thesis using plus_compare_ok [OF assms] False by simp
qed

section \<open>Subtraction of a multiple\<close>

lemma subtract_repeat_ok:
  assumes o: "bignum_ok other" "IsClamped other"
  shows "bignum_ok b \<Longrightarrow> IsClamped b \<Longrightarrow> n * bn_value other \<le> bn_value b \<Longrightarrow> bn_exponent b \<le> bn_exponent other \<Longrightarrow>
    \<exists>a. subtract_repeat other n b = Inr a \<and> bignum_ok a \<and> IsClamped a \<and> bn_value a = bn_value b - n * bn_value other \<and>
      bn_exponent a \<le> bn_exponent other"
proof (induction n arbitrary: b)
  case (Suc n)
  have "bn_value other \<le> bn_value b" using Suc.prems(3) by simp
  then obtain c where c: "SubtractBignum other b = Inr c" "bignum_ok c" "bn_value c = bn_value b - bn_value other" "IsClamped c"
    using SubtractBignum_ok [OF Suc.prems(1) o] Suc.prems(4) by auto
  have "Align other b = Inr b" using Suc.prems(4) by (simp add: Align_def)
  then have "bn_exponent c \<le> bn_exponent b"
    using c(1) by (auto simp: SubtractBignum_def Let_def Clamp_def bn_then_def split: prod.splits sum.splits)
  then show ?case using Suc.IH [OF c(2,4)] c(1,3) Suc.prems(3,4) by (auto simp: diff_diff_eq)
qed simp

definition times_step :: "uint32 \<Rightarrow> uint32 \<Rightarrow> uint32 \<Rightarrow> uint32 \<Rightarrow> uint32 \<times> uint32" where
  "times_step factor d x borrow =
     (let remove = ucast borrow + (ucast factor * ucast x :: uint64);
          difference = d - ucast (remove AND ucast kBigitMask)
      in (difference AND kBigitMask, ucast (ucast (drop_bit (kChunkSize - 1) difference) + drop_bit kBigitSize remove)))"

lemma times_step_ok:
  assumes "unat d < digit_base" "unat x < digit_base" "unat f < digit_base" "unat c \<le> digit_base"
  shows "unat (fst (times_step f d x c)) + (unat f * unat x + unat c) = unat d + digit_base * unat (snd (times_step f d x c))"
    "unat (snd (times_step f d x c)) \<le> digit_base"
proof -
  let ?p = "unat f * unat x"
  have p: "?p \<le> 268435455 * 268435455" using assms(2,3) by (intro product_bound) simp_all
  have "unat (ucast f * ucast x :: uint64) = ?p" using p by (subst unat_mult_64) simp_all
  then have r: "unat (ucast c + (ucast f * ucast x :: uint64)) = ?p + unat c" (is "unat ?r = _")
    using p assms(4) by (subst unat_add_64) simp_all
  let ?d = "d - ucast (?r AND ucast kBigitMask)"
  have m: "unat (ucast (?r AND ucast kBigitMask) :: uint32) = (?p + unat c) mod digit_base" by (simp only: unat_low_chunk r)
  have d: "unat (?d AND kBigitMask) + (?p + unat c) mod digit_base = unat d + digit_base * unat (drop_bit (kChunkSize - 1) ?d)"
      "unat (drop_bit (kChunkSize - 1) ?d) \<le> 1"
    using unat_difference [of d "ucast (?r AND ucast kBigitMask)" 0] assms(1) m by simp_all
  have q: "(?p + unat c) div digit_base \<le> digit_base - 1"
  proof -
    have "?p + unat c \<le> 268435455 * 268435456 + 1" using p assms(4) by simp
    then show ?thesis by simp
  qed
  have "unat (ucast (drop_bit (kChunkSize - 1) ?d) + drop_bit kBigitSize ?r) =
      unat (drop_bit (kChunkSize - 1) ?d) + (?p + unat c) div digit_base" (is "unat ?b = _")
    using d(2) q by (subst unat_add_64) (simp_all only: unat_ucast_64 unat_carry r, simp)
  moreover from this have "unat (ucast ?b :: uint32) = unat ?b"
    using d(2) q by (simp add: unsigned_ucast_eq take_bit_nat_eq_self)
  ultimately have b: "unat (snd (times_step f d x c)) = unat (drop_bit (kChunkSize - 1) ?d) + (?p + unat c) div digit_base"
    by (simp only: times_step_def Let_def snd_conv)
  have f: "fst (times_step f d x c) = ?d AND kBigitMask" by (simp only: times_step_def Let_def fst_conv)
  show "unat (snd (times_step f d x c)) \<le> digit_base" unfolding b using d(2) q by simp
  have "(?p + unat c) mod digit_base + digit_base * ((?p + unat c) div digit_base) = ?p + unat c" by simp
  then show "unat (fst (times_step f d x c)) + (?p + unat c) = unat d + digit_base * unat (snd (times_step f d x c))"
    using d(1) unfolding b f distrib_left by linarith
qed

lemma subtract_times_loop:
  assumes a: "digits_below m ds" and o: "bignum_ok other" and m: "off + bn_used other \<le> m" "m \<le> 128" and f: "unat f < digit_base"
  shows "case subtract_times_digits other f off ds of (ds', c) \<Rightarrow> digits_below m ds' \<and> unat c \<le> digit_base \<and>
      (\<forall>j. off + bn_used other \<le> j \<longrightarrow> ds' ! j = ds ! j) \<and>
      digits_value ds' + unat f * digits_value (take (bn_used other) (bn_bigits other)) * digit_base ^ off =
      digits_value ds + unat c * digit_base ^ (off + bn_used other)"
proof -
  define P where "P i s = (case s of (ds', c) \<Rightarrow> digits_below m ds' \<and> unat c \<le> digit_base \<and>
      (\<forall>j. off + i \<le> j \<longrightarrow> ds' ! j = ds ! j) \<and>
      digits_value ds' + unat f * digits_value (take i (bn_bigits other)) * digit_base ^ off =
      digits_value ds + unat c * digit_base ^ (off + i))"
    for i and s :: "uint32 list \<times> uint32"
  define step where "step i s = (case s of (ds, c) \<Rightarrow>
      (ds[i + off := fst (times_step f (ds ! (i + off)) (bn_bigits other ! i) c)],
       snd (times_step f (ds ! (i + off)) (bn_bigits other ! i) c)))" for i and s :: "uint32 list \<times> uint32"
  have eq: "subtract_times_digits other f off ds = fold step [0..<bn_used other] (ds, 0)"
    by (simp only: subtract_times_digits_def times_step_def step_def [abs_def] Let_def fst_conv snd_conv)
  have "P (bn_used other) (fold step [0..<bn_used other] (ds, 0))"
  proof (rule fold_upt_induct)
    show "P 0 (ds, 0)" using a by (simp add: P_def)
    fix i and s :: "uint32 list \<times> uint32"
    assume i: "i < bn_used other" "P i s"
    obtain es c where s: "s = (es, c)" by fastforce
    have p: "digits_below m es" "unat c \<le> digit_base" "i + off < 128" "i < 128" "\<forall>j. off + i \<le> j \<longrightarrow> es ! j = ds ! j"
        "digits_value es + unat f * digits_value (take i (bn_bigits other)) * digit_base ^ off =
         digits_value ds + unat c * digit_base ^ (off + i)"
      using i s m by (simp_all add: P_def)
    let ?s = "times_step f (es ! (i + off)) (bn_bigits other ! i) c"
    note u = times_step_ok [OF digits_below_digit [OF p(1,3)] bignum_okD(5) [OF o p(4)] f p(2)]
    have v: "digits_value (es[i + off := fst ?s]) + (unat f * unat (bn_bigits other ! i) + unat c) * digit_base ^ (i + off) =
        digits_value es + unat (snd ?s) * digit_base ^ Suc (i + off)"
      by (rule store_difference [OF p(1,3) u(1)])
    have "unat (fst ?s) < digit_base" by (simp add: times_step_def Let_def)
    then have "digits_below m (es[i + off := fst ?s])"
      using i(1) m p(1) by (intro digits_below_store) simp_all
    then show "P (Suc i) (step i s)"
      using u(2) v p(5,6) digits_value_take_Suc [of i "bn_bigits other"] bignum_okD(1) [OF o] p(4)
      by (simp add: P_def step_def s algebra_simps power_add)
  qed simp
  then show ?thesis unfolding eq P_def by simp
qed

text \<open>With at most one more digit than \<open>other\<close> the last loop has at most one turn.\<close>

lemma SubtractTimes_ok:
  assumes b: "bignum_ok b" "IsClamped b" and o: "bignum_ok other" "IsClamped other"
    and e: "bn_exponent b \<le> bn_exponent other" "BigitLength b \<le> BigitLength other + 1"
    and f: "unat f < digit_base" "unat f * bn_value other \<le> bn_value b"
  shows "\<exists>a. SubtractTimes other f b = Inr a \<and> bignum_ok a \<and> IsClamped a \<and>
    bn_value a = bn_value b - unat f * bn_value other \<and> bn_exponent a \<le> bn_exponent other"
proof (cases "f < 3")
  case True
  then show ?thesis using subtract_repeat_ok [OF o b f(2) e(1)] by (simp add: SubtractTimes_def)
next
  case False
  then have f3: "3 \<le> unat f" by (simp add: word_less_nat_alt)
  define off where "off = bn_exponent other - bn_exponent b"
  have off: "bn_exponent other = off + bn_exponent b" using e(1) by (simp add: off_def)
  have "1 * bn_value other \<le> unat f * bn_value other" using f3 by (intro mult_le_mono1) simp
  then have "1 * bn_value other \<le> bn_value b" using f(2) by (rule order_trans)
  then have "bn_value other \<le> bn_value b" by (simp only: mult_1)
  then have "BigitLength other \<le> BigitLength b" by (rule BigitLength_mono [OF o(1) b(1) o(2)])
  then have u: "off + bn_used other \<le> bn_used b" "bn_used b \<le> off + bn_used other + 1" "bn_used b \<le> 128"
    using off e(2) bignum_okD(2) [OF b(1)] by (simp_all add: BigitLength_def)
  have d: "digits_below (bn_used b) (bn_bigits b)" using b(1) by (simp add: bignum_ok_digits)
  let ?O = "digits_value (take (bn_used other) (bn_bigits other))" and ?i = "off + bn_used other"
  obtain ds c where r: "subtract_times_digits other f off (bn_bigits b) = (ds, c)" by fastforce
  have l: "digits_below (bn_used b) ds" "\<forall>j. ?i \<le> j \<longrightarrow> ds ! j = bn_bigits b ! j"
      "digits_value ds + unat f * ?O * digit_base ^ off = digits_value (bn_bigits b) + unat c * digit_base ^ ?i"
    using subtract_times_loop [OF d o(1) u(1,3) f(1)] r by simp_all
  have vb: "bn_value b = digits_value (bn_bigits b) * digit_base ^ bn_exponent b" by (rule bn_value_all [OF b(1)])
  have vo: "bn_value other = ?O * digit_base ^ off * digit_base ^ bn_exponent b" by (simp add: bn_value_def off power_add)
  have le: "unat f * ?O * digit_base ^ off \<le> digits_value (bn_bigits b)" using f(2) unfolding vb vo by (simp add: mult.assoc [symmetric])
  then have cd: "unat c * digit_base ^ ?i \<le> digits_value ds" using l(3) by linarith
  have val: "bn_value (b\<lparr>bn_bigits := es\<rparr>) = bn_value b - unat f * bn_value other"
    if "digits_below (bn_used b) es" "digits_value es + unat c * digit_base ^ ?i = digits_value ds" for es
  proof -
    have ok: "bignum_ok (b\<lparr>bn_bigits := es\<rparr>)" using that(1) b(1) by (simp add: bignum_ok_digits)
    have "digits_value es = digits_value (bn_bigits b) - unat f * ?O * digit_base ^ off" using that(2) l(3) by linarith
    then show ?thesis using bn_value_all [OF ok] by (simp add: vb vo diff_mult_distrib mult.assoc)
  qed
  have st: "SubtractTimes other f b = (case subtract_times_borrow ds (bn_used other + off) (bn_used b) c of (returned, ds) \<Rightarrow>
      Inr (if returned then b\<lparr>bn_bigits := ds\<rparr> else Clamp (b\<lparr>bn_bigits := ds\<rparr>)))"
    using False r by (simp add: SubtractTimes_def flip: off_def)
  have fin: ?thesis if "digits_below (bn_used b) es" "digits_value es + unat c * digit_base ^ ?i = digits_value ds"
      "subtract_times_borrow ds (bn_used other + off) (bn_used b) c = (returned, es)" "returned \<Longrightarrow> IsClamped (b\<lparr>bn_bigits := es\<rparr>)"
    for es returned
  proof -
    have ok: "bignum_ok (b\<lparr>bn_bigits := es\<rparr>)" using that(1) b(1) by (simp add: bignum_ok_digits)
    show ?thesis using st val [OF that(1,2)] Clamp_ok [OF ok] ok that(3,4) e(1)
      by (cases returned) (simp_all add: Clamp_def Let_def)
  qed
  show ?thesis
  proof (cases "bn_used b = ?i")
    case True
    have "digits_value ds < 1 * digit_base ^ ?i" using digits_below_less [OF l(1) u(3)] True by simp
    then have "unat c * digit_base ^ ?i < 1 * digit_base ^ ?i" using cd by linarith
    then have c: "unat c = 0" by simp
    have "subtract_times_borrow ds (bn_used other + off) (bn_used b) c = (False, ds)"
      using True by (subst subtract_times_borrow.simps) simp
    moreover have "digits_value ds + unat c * digit_base ^ ?i = digits_value ds" using c by simp
    ultimately show ?thesis using fin [where es = ds and returned = False] l(1) by blast
  next
    case n: False
    then have i: "bn_used b = Suc ?i" "?i < 128" using u by simp_all
    show ?thesis
    proof (cases "c = 0")
      case True
      have "subtract_times_borrow ds (bn_used other + off) (bn_used b) c = (True, ds)"
        using True i by (subst subtract_times_borrow.simps) simp
      moreover have "IsClamped (b\<lparr>bn_bigits := ds\<rparr>)" using b(2) l(2) i by (simp add: IsClamped_def)
      moreover have "digits_value ds + unat c * digit_base ^ ?i = digits_value ds" using True by simp
      ultimately show ?thesis using fin [where es = ds and returned = True] l(1) by blast
    next
      case nz: False
      let ?d = "ds ! ?i"
      have "digits_value (take (Suc ?i) ds) = digits_value (take ?i ds) + unat ?d * digit_base ^ ?i"
        using l(1) i(2) by (intro digits_value_take_Suc) (simp add: digits_below_def)
      then have ds: "digits_value ds = digits_value (take ?i ds) + unat ?d * digit_base ^ ?i"
        using digits_below_value [OF l(1)] i(1) by simp
      have "digits_value (take ?i ds) < digit_base ^ length (take ?i ds)"
        using l(1) set_take_subset by (intro digits_value_less) (fastforce simp: digits_below_def small_digits_def)
      then have "digits_value (take ?i ds) < digit_base ^ ?i" using l(1) i(2) by (simp add: digits_below_def)
      then have "unat c * digit_base ^ ?i < (unat ?d + 1) * digit_base ^ ?i" using cd ds by (simp add: distrib_right)
      then have "unat c < unat ?d + 1" by (simp only: mult_less_cancel2)
      then have cl: "unat c \<le> unat ?d" by simp
      have dm: "unat (?d - c) = unat ?d - unat c" using cl by (subst unat_sub) (simp_all add: word_le_nat_alt)
      have db: "unat ?d < digit_base" using digits_below_digit [OF l(1) i(2)] .
      have m: "unat (?d - c AND kBigitMask) = unat ?d - unat c" using dm db by simp
      have z: "drop_bit (kChunkSize - 1) (?d - c) = 0"
      proof -
        have "unat (drop_bit (kChunkSize - 1) (?d - c)) = 0"
          using db dm by (simp only: unat_drop_bit_word kChunkSize_def) simp
        then show ?thesis by (simp only: unat_eq_zero)
      qed
      let ?es = "ds[?i := ?d - c AND kBigitMask]"
      have "subtract_times_borrow ds ?i (bn_used b) c = subtract_times_borrow ?es (?i + 2) (bn_used b) 0"
        using nz i z by (subst subtract_times_borrow.simps) (simp add: Let_def)
      also have "\<dots> = (False, ?es)" using i(1) by (subst subtract_times_borrow.simps) simp
      finally have res: "subtract_times_borrow ds (bn_used other + off) (bn_used b) c = (False, ?es)" by (simp add: add.commute)
      have v: "digits_value ?es + unat ?d * digit_base ^ ?i = digits_value ds + (unat ?d - unat c) * digit_base ^ ?i"
        using digits_value_update [of ?i ds "?d - c AND kBigitMask"] l(1) i(2) unfolding m by (simp add: digits_below_def)
      have "(unat ?d - unat c) * digit_base ^ ?i + unat c * digit_base ^ ?i = unat ?d * digit_base ^ ?i"
        using cl by (simp flip: distrib_right)
      then have "digits_value ?es + unat c * digit_base ^ ?i = digits_value ds" using v by linarith
      moreover have "digits_below (bn_used b) ?es" using l(1) i(1) m db by (intro digits_below_store) simp_all
      ultimately show ?thesis using fin [where es = ?es and returned = False] res by blast
    qed
  qed
qed

end
