(* ===== verification/BignumDivide.thy ===== *)
theory BignumDivide
  imports BignumCompare
begin

text \<open>
  The division of \<open>Bignum\<close> with a 16-bit quotient returns the quotient and leaves the remainder: the first
  loop takes away the multiple of the divisor that the extra digit stands for, the estimate from the
  leading digits is never too large, and the rest is taken away one by one.
\<close>

lemma bn_value_top:
  assumes b: "bignum_ok b" and u: "bn_used b \<noteq> 0"
  shows "\<exists>l. l < digit_base ^ (BigitLength b - 1) \<and>
    bn_value b = l + unat (bn_bigits b ! (bn_used b - 1)) * digit_base ^ (BigitLength b - 1)"
proof -
  obtain n where n: "bn_used b = Suc n" using u not0_implies_Suc by blast
  have len: "length (bn_bigits b) = 128" "n < 128" using bignum_okD(1,2) [OF b] n by simp_all
  let ?l = "digits_value (take n (bn_bigits b))"
  have v: "digits_value (take (Suc n) (bn_bigits b)) = ?l + unat (bn_bigits b ! n) * digit_base ^ n"
    using len by (intro digits_value_take_Suc) simp
  have d: "digits_below (bn_used b) (bn_bigits b)" using b by (simp add: bignum_ok_digits)
  have "?l < digit_base ^ length (take n (bn_bigits b))"
    using d set_take_subset by (intro digits_value_less) (fastforce simp: digits_below_def small_digits_def)
  then have "?l < digit_base ^ n" using len by simp
  then have "?l * digit_base ^ bn_exponent b < digit_base ^ n * digit_base ^ bn_exponent b"
    by (simp only: mult_less_cancel2) simp
  then have "?l * digit_base ^ bn_exponent b < digit_base ^ (BigitLength b - 1)"
    by (simp only: BigitLength_def n power_add [symmetric]) simp
  moreover have "bn_value b = ?l * digit_base ^ bn_exponent b + unat (bn_bigits b ! (bn_used b - 1)) * digit_base ^ (BigitLength b - 1)"
    using v by (simp add: bn_value_def n BigitLength_def distrib_right power_add)
  ultimately show ?thesis by blast
qed

lemma bn_used_pos:
  assumes "bignum_ok b" "BigitLength b \<noteq> 0"
  shows "bn_used b \<noteq> 0"
proof
  assume "bn_used b = 0"
  then show False using bignum_okD(6) [OF assms(1)] assms(2) by (simp add: BigitLength_def)
qed

lemma quotient_step:
  fixes v d :: nat
  assumes "t * d \<le> v" "0 < d"
  shows "v div d = (v - t * d) div d + t"
proof -
  have "v div d = ((v - t * d) + t * d) div d" using assms(1) by simp
  also have "\<dots> = t + (v - t * d) div d" using assms(2) by (intro div_mult_self1) simp
  finally show ?thesis by simp
qed

lemma divide_rest_ok:
  assumes o: "bignum_ok other" "IsClamped other" "0 < bn_value other"
  shows "bignum_ok b \<Longrightarrow> IsClamped b \<Longrightarrow> bn_exponent b \<le> bn_exponent other \<Longrightarrow> bn_value b div bn_value other < n \<Longrightarrow>
    \<exists>a. divide_rest n other b result = Some (Inr (result + of_nat (bn_value b div bn_value other), a)) \<and>
      bignum_ok a \<and> IsClamped a \<and> bn_value a = bn_value b mod bn_value other"
proof (induction n arbitrary: b result)
  case (Suc n)
  show ?case
  proof (cases "bn_value other \<le> bn_value b")
    case True
    obtain c where c: "SubtractBignum other b = Inr c" "bignum_ok c" "IsClamped c"
        "bn_value c = bn_value b - 1 * bn_value other" "bn_exponent c \<le> bn_exponent other"
      using subtract_repeat_ok [OF o(1,2) Suc.prems(1,2), of 1] Suc.prems(3) True by (auto simp: bn_then_def split: sum.splits)
    have q: "bn_value b div bn_value other = Suc (bn_value c div bn_value other)"
      using quotient_step [of 1 "bn_value other" "bn_value b"] True o(3) c(4) by simp
    have "bn_value c mod bn_value other = bn_value b mod bn_value other"
      using True c(4) by (simp add: le_mod_geq)
    then show ?thesis
      using Suc.IH [OF c(2,3,5), of "result + 1"] Suc.prems(1-4) q True c(1) LessEqual_ok [OF o(1) Suc.prems(1) o(2) Suc.prems(2)]
      by (simp add: ac_simps)
  next
    case False
    then show ?thesis using Suc.prems LessEqual_ok [OF o(1) Suc.prems(1) o(2) Suc.prems(2)] by simp
  qed
qed simp

lemma divide_top_ok:
  assumes o: "bignum_ok other" "IsClamped other" "bn_used other \<noteq> 0"
  shows "bignum_ok b \<Longrightarrow> IsClamped b \<Longrightarrow> bn_exponent b \<le> bn_exponent other \<Longrightarrow> bn_value b < 2 ^ 16 * bn_value other \<Longrightarrow>
    bn_value b div bn_value other < n \<Longrightarrow>
    \<exists>r a. divide_top n other b result = Some (Inr (result + of_nat r, a)) \<and> bignum_ok a \<and> IsClamped a \<and>
      bn_exponent a \<le> bn_exponent other \<and> bn_value b = bn_value a + r * bn_value other \<and> BigitLength a \<le> BigitLength other \<and>
      (a = b \<or> digit_base ^ BigitLength other \<le> bn_value a + bn_value other)"
proof (induction n arbitrary: b result)
  case (Suc n)
  let ?K = "BigitLength other" and ?D = "bn_value other"
  have D: "?D < digit_base ^ ?K" by (rule bn_value_less [OF o(1)])
  have D0: "0 < ?D" using bn_value_ge [OF o] by (rule order_less_le_trans [rotated]) simp
  show ?case
  proof (cases "?K < BigitLength b")
    case False
    then show ?thesis using Suc.prems by (intro exI [of _ 0] exI [of _ b]) simp
  next
    case True
    let ?L = "BigitLength b - 1" and ?t = "bn_bigits b ! (bn_used b - 1)"
    have u: "bn_used b \<noteq> 0" using True by (intro bn_used_pos Suc.prems) simp
    obtain l where l: "bn_value b = l + unat ?t * digit_base ^ ?L" using bn_value_top [OF Suc.prems(1) u] by blast
    have t: "unat ?t < digit_base" using bignum_okD(2,5) [OF Suc.prems(1)] by simp
    have t0: "unat ?t \<noteq> 0" using Suc.prems(2) u by (simp add: IsClamped_def unat_eq_zero)
    have "digit_base ^ ?L \<le> bn_value b" using t0 l by (simp add: trans_le_add2)
    also have "bn_value b < 2 ^ 16 * ?D" by (rule Suc.prems(4))
    also have "2 ^ 16 * ?D \<le> 2 ^ 16 * digit_base ^ ?K" using D by (intro mult_le_mono2) simp
    finally have "digit_base ^ ?L < 2 ^ 16 * digit_base ^ ?K" .
    also have "2 ^ 16 * digit_base ^ ?K \<le> digit_base * digit_base ^ ?K" by (intro mult_le_mono1) simp
    also have "\<dots> = digit_base ^ Suc ?K" by (simp only: power_Suc)
    finally have "?L < Suc ?K" by (rule power_less_imp_less_exp [rotated]) simp
    then have L: "?L = ?K" "BigitLength b \<le> ?K + 1" using True by simp_all
    have tv: "unat ?t * digit_base ^ ?K \<le> bn_value b" using l L(1) by simp
    have "unat ?t * ?D \<le> unat ?t * digit_base ^ ?K" using D by (intro mult_le_mono2) simp
    then have tD: "unat ?t * ?D \<le> bn_value b" using tv by linarith
    obtain a where a: "SubtractTimes other ?t b = Inr a" "bignum_ok a" "IsClamped a"
        "bn_value a = bn_value b - unat ?t * ?D" "bn_exponent a \<le> bn_exponent other"
      using SubtractTimes_ok [OF Suc.prems(1,2) o(1,2) Suc.prems(3) L(2) t tD] by blast
    have sum: "bn_value b = bn_value a + unat ?t * ?D" using a(4) tD by simp
    have q: "bn_value b div ?D = bn_value a div ?D + unat ?t"
      using quotient_step [OF tD D0] a(4) by simp
    have "bn_value b div ?D < 2 ^ 16" using Suc.prems(4) D0 by (simp add: less_mult_imp_div_less)
    then have "unat ?t < 2 ^ 16" using q by simp
    then have uc: "ucast ?t = (of_nat (unat ?t) :: uint16)" by simp
    have "unat ?t * (digit_base ^ ?K - ?D) \<le> bn_value a" using tv sum by (simp add: diff_mult_distrib2)
    moreover have "1 * (digit_base ^ ?K - ?D) \<le> unat ?t * (digit_base ^ ?K - ?D)" using t0 by (intro mult_le_mono1) simp
    ultimately have big: "digit_base ^ ?K \<le> bn_value a + ?D" by linarith
    have "bn_value a < 2 ^ 16 * ?D" "bn_value a div ?D < n" using Suc.prems(4,5) sum q t0 by simp_all
    then obtain r c where rc: "divide_top n other a (result + ucast ?t) = Some (Inr (result + ucast ?t + of_nat r, c))"
        "bignum_ok c" "IsClamped c" "bn_exponent c \<le> bn_exponent other" "bn_value a = bn_value c + r * ?D"
        "BigitLength c \<le> ?K" "c = a \<or> digit_base ^ ?K \<le> bn_value c + ?D"
      using Suc.IH [OF a(2,3,5), of "result + ucast ?t"] by blast
    have "divide_top (Suc n) other b result = Some (Inr (result + of_nat (unat ?t + r), c))"
      using True a(1) rc(1) uc by (simp add: ac_simps)
    moreover have "bn_value b = bn_value c + (unat ?t + r) * ?D" using sum rc(5) by (simp add: distrib_right)
    ultimately show ?thesis using rc big by blast
  qed
qed simp

lemma quotient_below:
  fixes v w d :: nat
  assumes "v = w + q * d" "w < d"
  shows "v div d = q" "v mod d = w"
proof -
  have "d \<noteq> 0" using assms(2) by simp
  then show "v div d = q" "v mod d = w" using assms by simp_all
qed

lemma divide_one_digit:
  assumes o: "bignum_ok other" "IsClamped other" "bn_used other = 1"
    and b: "bignum_ok b" and e: "BigitLength b = BigitLength other"
  shows "\<exists>a. divide_same_length n other b result = Some (Inr (result + of_nat (bn_value b div bn_value other), a)) \<and>
    bignum_ok a \<and> IsClamped a \<and> bn_value a = bn_value b mod bn_value other"
proof -
  let ?L = "BigitLength b - 1" and ?t = "bn_bigits b ! (bn_used b - 1)" and ?o = "bn_bigits other ! 0"
  have u: "bn_used b \<noteq> 0" using e o(3) by (intro bn_used_pos b) (simp add: BigitLength_def)
  obtain l where l: "l < digit_base ^ ?L" "bn_value b = l + unat ?t * digit_base ^ ?L" using bn_value_top [OF b u] by blast
  obtain k where k: "k < digit_base ^ ?L" "bn_value other = k + unat ?o * digit_base ^ ?L"
    using bn_value_top [OF o(1)] o(3) e by auto
  have v0: "bn_value other = unat ?o * digit_base ^ ?L"
    using o(3) e bignum_okD(1) [OF o(1)] by (cases "bn_bigits other") (simp_all add: bn_value_def BigitLength_def)
  have o0: "unat ?o \<noteq> 0" using o(2,3) by (simp add: IsClamped_def unat_eq_zero)
  let ?q = "?t div ?o" and ?es = "(bn_bigits b)[bn_used b - 1 := ?t - ?o * (?t div ?o)]"
  have q: "unat ?q = unat ?t div unat ?o" by (rule unat_div)
  have m: "?t - ?o * ?q = ?t mod ?o" by (metis add_diff_cancel_left' mult_div_mod_eq)
  have um: "unat (?t - ?o * ?q) = unat ?t mod unat ?o" unfolding m by (rule unat_mod)
  have tb: "unat ?t < digit_base" using bignum_okD(2,5) [OF b] by simp
  have d: "digits_below (bn_used b) ?es"
  proof (rule digits_below_store)
    show "digits_below (bn_used b) (bn_bigits b)" using b by (simp add: bignum_ok_digits)
    have "unat ?t mod unat ?o \<le> unat ?t" by (rule mod_less_eq_dividend)
    then show "unat (?t - ?o * ?q) < digit_base" using um tb by linarith
  qed (use u in simp)
  let ?a = "b\<lparr>bn_bigits := ?es\<rparr>"
  have ok: "bignum_ok ?a" using d b by (simp add: bignum_ok_digits)
  have upd: "digits_value ?es + unat ?t * digit_base ^ (bn_used b - 1) =
      digits_value (bn_bigits b) + unat (?t - ?o * ?q) * digit_base ^ (bn_used b - 1)"
    using bignum_okD(1,2) [OF b] u by (intro digits_value_update) simp
  have L: "digit_base ^ ?L = digit_base ^ (bn_used b - 1) * digit_base ^ bn_exponent b"
    using u by (simp add: BigitLength_def flip: power_add)
  have va: "bn_value ?a + unat ?t * digit_base ^ ?L = bn_value b + unat ?t mod unat ?o * digit_base ^ ?L"
  proof -
    have "bn_value ?a = digits_value ?es * digit_base ^ bn_exponent b" using bn_value_all [OF ok] by simp
    then show ?thesis using arg_cong [OF upd, of "\<lambda>x. x * digit_base ^ bn_exponent b"]
      by (simp only: bn_value_all [OF b] L distrib_right mult.assoc um)
  qed
  then have va': "bn_value ?a = l + unat ?t mod unat ?o * digit_base ^ ?L" using l(2) by linarith
  have "(unat ?t mod unat ?o + 1) * digit_base ^ ?L \<le> unat ?o * digit_base ^ ?L"
    using o0 by (intro mult_le_mono1) (simp add: Suc_le_eq)
  then have less: "bn_value ?a < bn_value other" using l(1) va' v0 unfolding distrib_right by linarith
  have "unat ?t * digit_base ^ ?L = (unat ?t div unat ?o * unat ?o + unat ?t mod unat ?o) * digit_base ^ ?L" by simp
  then have "bn_value b = bn_value ?a + unat ?t div unat ?o * bn_value other"
    unfolding l(2) va' v0 distrib_right by (simp only: mult.assoc)
  note Q = quotient_below [OF this less]
  have uc: "ucast ?q = (of_nat (unat ?t div unat ?o) :: uint16)" unfolding q [symmetric] by simp
  have "divide_same_length n other b result = Some (Inr (result + ucast ?q, Clamp ?a))"
    using o(3) by (simp add: divide_same_length_def Let_def)
  then show ?thesis using Clamp_ok [OF ok] Q uc by simp
qed

lemma divide_estimate:
  assumes o: "bignum_ok other" "IsClamped other" "1 < bn_used other"
    and b: "bignum_ok b" "IsClamped b" "bn_exponent b \<le> bn_exponent other"
    and e: "BigitLength b = BigitLength other" and n: "bn_value b div bn_value other < n"
  shows "\<exists>a. divide_same_length n other b result = Some (Inr (result + of_nat (bn_value b div bn_value other), a)) \<and>
    bignum_ok a \<and> IsClamped a \<and> bn_value a = bn_value b mod bn_value other"
proof -
  let ?L = "BigitLength b - 1" and ?t = "bn_bigits b ! (bn_used b - 1)" and ?o = "bn_bigits other ! (bn_used other - 1)"
  have u: "bn_used b \<noteq> 0" using e o(3) by (intro bn_used_pos b) (simp add: BigitLength_def)
  obtain l where l: "l < digit_base ^ ?L" "bn_value b = l + unat ?t * digit_base ^ ?L" using bn_value_top [OF b(1) u] by blast
  obtain k where k: "k < digit_base ^ ?L" "bn_value other = k + unat ?o * digit_base ^ ?L"
    using bn_value_top [OF o(1)] o(3) e by auto
  have tb: "unat ?t < digit_base" using bignum_okD(2,5) [OF b(1)] by simp
  have ob: "unat ?o < digit_base" using bignum_okD(2,5) [OF o(1)] by simp
  have o0: "unat ?o \<noteq> 0" using o(2,3) by (simp add: IsClamped_def unat_eq_zero)
  then have D0: "0 < bn_value other" using k(2) by simp
  let ?q = "?t div (?o + 1)"
  have o1: "unat (?o + 1) = unat ?o + 1" using ob by (subst unat_add_lem [THEN iffD1]) simp_all
  have q: "unat ?q = unat ?t div (unat ?o + 1)" unfolding unat_div o1 by (rule refl)
  have qb: "unat ?q \<le> unat ?t" unfolding q by (rule div_le_dividend)
  have qo: "unat ?q * (unat ?o + 1) \<le> unat ?t" unfolding q by (rule div_times_less_eq_dividend)
  then have qt: "unat ?q * unat ?o + unat ?q \<le> unat ?t" by simp
  have "bn_value other \<le> (unat ?o + 1) * digit_base ^ ?L" using k by (simp add: distrib_right)
  then have "unat ?q * bn_value other \<le> unat ?q * ((unat ?o + 1) * digit_base ^ ?L)" by (rule mult_le_mono2)
  also have "\<dots> = unat ?q * (unat ?o + 1) * digit_base ^ ?L" by (simp only: mult.assoc)
  also have "\<dots> \<le> unat ?t * digit_base ^ ?L" by (rule mult_le_mono1 [OF qo])
  also have "\<dots> \<le> bn_value b" using l(2) by simp
  finally have fits: "unat ?q * bn_value other \<le> bn_value b" .
  obtain a where a: "SubtractTimes other ?q b = Inr a" "bignum_ok a" "IsClamped a"
      "bn_value a = bn_value b - unat ?q * bn_value other" "bn_exponent a \<le> bn_exponent other"
    using SubtractTimes_ok [OF b(1,2) o(1,2) b(3) _ _ fits] e qb tb by auto
  have Q: "bn_value b div bn_value other = bn_value a div bn_value other + unat ?q"
    using quotient_step [OF fits D0] a(4) by simp
  have R: "bn_value b mod bn_value other = bn_value a mod bn_value other"
    using fits a(4) by (metis le_add_diff_inverse mod_mult_self2 mult.commute add.commute)
  have uc: "ucast ?q = (of_nat (unat ?q) :: uint16)" by simp
  have res: "divide_same_length n other b result =
      (if ?o * (?q + 1) > ?t then Some (Inr (result + of_nat (unat ?q), a)) else divide_rest n other a (result + of_nat (unat ?q)))"
    using o(3) a(1) by (simp add: divide_same_length_def Let_def)
  show ?thesis
  proof (cases "?o * (?q + 1) > ?t")
    case True
    have "unat (?q + 1) = unat ?q + 1" using qb tb by (subst unat_add_lem [THEN iffD1]) simp_all
    then have "unat (?o * (?q + 1)) = unat ?o * (unat ?q + 1)"
      using qt tb ob by (subst unat_mult_lem [THEN iffD1]) (simp_all add: distrib_left mult.commute)
    then have "unat ?t + 1 \<le> unat ?o * (unat ?q + 1)" using True by (simp add: word_less_nat_alt)
    then have "(unat ?t + 1) * digit_base ^ ?L \<le> unat ?o * (unat ?q + 1) * digit_base ^ ?L" by (rule mult_le_mono1)
    also have "\<dots> = (unat ?q + 1) * (unat ?o * digit_base ^ ?L)" by (simp only: ac_simps)
    also have "\<dots> \<le> (unat ?q + 1) * bn_value other" using k(2) by (intro mult_le_mono2) simp
    finally have "bn_value b < (unat ?q + 1) * bn_value other" using l by (simp add: distrib_right)
    then have "bn_value b < unat ?q * bn_value other + bn_value other" by (simp only: distrib_right mult_1)
    then have less: "bn_value a < bn_value other" using a(4) fits by linarith
    then show ?thesis using res True a(2,3) Q R by simp
  next
    case False
    have "bn_value a div bn_value other < n" using Q n by simp
    then show ?thesis
      using divide_rest_ok [OF o(1,2) D0 a(2,3,5), of n "result + of_nat (unat ?q)"] res False Q R by (simp add: ac_simps)
  qed
qed

text \<open>
  After a turn of the first loop the number may be shorter than the divisor. Then the divisor's leading
  digit is the largest one, the estimate is 0 and nothing is taken away.
\<close>

lemma divide_shorter:
  assumes o: "bignum_ok other" "IsClamped other" "bn_used other \<noteq> 0"
    and b: "bignum_ok b" "IsClamped b"
    and e: "BigitLength b < BigitLength other" and n: "0 < n"
    and gap: "digit_base ^ BigitLength other \<le> bn_value b + bn_value other"
  shows "divide_same_length n other b result = Some (Inr (result, b))"
proof -
  let ?K = "BigitLength other" and ?o = "bn_bigits other ! (bn_used other - 1)" and ?t = "bn_bigits b ! (bn_used b - 1)"
  obtain L where L: "?K = Suc L" using e by (cases ?K) simp_all
  have "bn_value b < digit_base ^ BigitLength b" by (rule bn_value_less [OF b(1)])
  also have "\<dots> \<le> digit_base ^ L" using e L by (intro power_increasing) simp_all
  finally have vb: "bn_value b < digit_base ^ L" .
  obtain k where k: "k < digit_base ^ L" "bn_value other = k + unat ?o * digit_base ^ L"
    using bn_value_top [OF o(1,3)] L by auto
  have ob: "unat ?o < digit_base" using bignum_okD(2,5) [OF o(1)] by simp
  have "digit_base ^ ?K = digit_base * digit_base ^ L" by (simp only: L power_Suc)
  then have "digit_base * digit_base ^ L < digit_base ^ L + digit_base ^ L + unat ?o * digit_base ^ L"
    using gap k vb by linarith
  then have "digit_base * digit_base ^ L < (2 + unat ?o) * digit_base ^ L" by (simp add: distrib_right)
  then have top: "unat ?o = digit_base - 1" using ob by (simp only: mult_less_cancel2) simp
  have one: "bn_used other \<noteq> 1"
  proof
    assume u: "bn_used other = 1"
    then have "bn_value other = unat ?o * digit_base ^ L"
      using bignum_okD(1) [OF o(1)] L by (cases "bn_bigits other") (simp_all add: bn_value_def BigitLength_def)
    then have "digit_base * digit_base ^ L < (1 + unat ?o) * digit_base ^ L"
      using gap vb by (simp only: L power_Suc distrib_right)
    then show False using top by simp
  qed
  have tb: "unat ?t < digit_base" using bignum_okD(2,5) [OF b(1)] by simp
  have "unat (?o + 1) = digit_base" using top by (subst unat_add_lem [THEN iffD1]) simp_all
  then have "unat (?t div (?o + 1)) = 0" using tb by (simp only: unat_div div_less)
  then have q: "?t div (?o + 1) = 0" by (simp only: unat_eq_zero)
  have "\<not> bn_value other \<le> bn_value b"
    using BigitLength_mono [OF o(1) b(1) o(2)] e by linarith
  then have "divide_rest n other b result = Some (Inr (result, b))"
    using n LessEqual_ok [OF o(1) b(1) o(2) b(2)] by (cases n) simp_all
  then show ?thesis using one q by (simp add: divide_same_length_def SubtractTimes_def)
qed

lemma DivideModuloIntBignum_ok:
  assumes o: "bignum_ok other" "IsClamped other" "bn_used other \<noteq> 0" "bn_used other < kBigitCapacity"
    and b: "bignum_ok b" "IsClamped b" "bn_value b < 2 ^ 16 * bn_value other"
    and n: "bn_value b div bn_value other < n"
  shows "\<exists>a. DivideModuloIntBignum n other b = Some (Inr (of_nat (bn_value b div bn_value other), a)) \<and>
    bignum_ok a \<and> IsClamped a \<and> bn_value a = bn_value b mod bn_value other"
proof (cases "BigitLength b < BigitLength other")
  case True
  then have "bn_value b < bn_value other" by (rule shorter_less [OF b(1) o(1,2)])
  then show ?thesis using True b by (simp add: DivideModuloIntBignum_def)
next
  case False
  let ?D = "bn_value other"
  have "digit_base ^ (BigitLength b - 1) \<le> bn_value b"
  proof (rule bn_value_ge [OF b(1,2)])
    have "BigitLength other \<noteq> 0" using o(3) by (simp add: BigitLength_def)
    then show "bn_used b \<noteq> 0" using False by (intro bn_used_pos b) linarith
  qed
  also have "bn_value b < 2 ^ 16 * ?D" by (rule b(3))
  also have "2 ^ 16 * ?D \<le> digit_base * digit_base ^ BigitLength other"
    using bn_value_less [OF o(1)] by (intro mult_le_mono) simp_all
  also have "\<dots> = digit_base ^ Suc (BigitLength other)" by (simp only: power_Suc)
  finally have "BigitLength b - 1 < Suc (BigitLength other)" by (rule power_less_imp_less_exp [rotated]) simp
  then have "\<not> 128 + bn_exponent other < BigitLength b" using o(4) by (simp add: BigitLength_def)
  then obtain c where c: "Align other b = Inr c" "bignum_ok c" "bn_value c = bn_value b" "IsClamped c"
      "bn_exponent c \<le> bn_exponent other" "BigitLength c = BigitLength b"
    using Align_ok [OF b(1), of other] b(2) by auto
  have D0: "0 < ?D" using bn_value_ge [OF o(1-3)] by (rule order_less_le_trans [rotated]) simp
  have cb: "bn_value c < 2 ^ 16 * ?D" "bn_value c div ?D < n" unfolding c(3) by (rule b(3), rule n)
  obtain r d where d: "divide_top n other c 0 = Some (Inr (0 + of_nat r, d))" "bignum_ok d" "IsClamped d"
      "bn_exponent d \<le> bn_exponent other" "bn_value b = bn_value d + r * ?D" "BigitLength d \<le> BigitLength other"
      "d = c \<or> digit_base ^ BigitLength other \<le> bn_value d + ?D"
    using divide_top_ok [OF o(1-3) c(2,4,5) cb, of 0] unfolding c(3) by blast
  have q: "bn_value b div ?D = bn_value d div ?D + r" "bn_value b mod ?D = bn_value d mod ?D"
    unfolding d(5) using D0 by simp_all
  have res: "DivideModuloIntBignum n other b = divide_same_length n other d (of_nat r)"
    using False c(1) d(1) by (simp add: DivideModuloIntBignum_def)
  show ?thesis
  proof (cases "BigitLength d = BigitLength other")
    case True
    have nd: "bn_value d div ?D < n" using q n by simp
    have "bn_used other = 1 \<or> 1 < bn_used other" using o(3) by linarith
    then have "\<exists>a. divide_same_length n other d (of_nat r) = Some (Inr (of_nat r + of_nat (bn_value d div ?D), a))
        \<and> bignum_ok a \<and> IsClamped a \<and> bn_value a = bn_value d mod ?D"
      using divide_one_digit [OF o(1,2) _ d(2) True, of n "of_nat r"]
        divide_estimate [OF o(1,2) _ d(2,3,4) True nd, of "of_nat r"] by blast
    moreover have "of_nat r + of_nat (bn_value d div ?D) = (of_nat (bn_value b div ?D) :: uint16)"
      unfolding q(1) by (simp only: of_nat_add add.commute)
    ultimately show ?thesis unfolding res q(2) by simp
  next
    case short: False
    then have lt: "BigitLength d < BigitLength other" using d(6) by simp
    have "d \<noteq> c"
    proof
      assume "d = c"
      then show False using c(6) False lt by simp
    qed
    then have gap: "digit_base ^ BigitLength other \<le> bn_value d + ?D" using d(7) by blast
    have n0: "0 < n" using n by linarith
    have less: "bn_value d < ?D" by (rule shorter_less [OF d(2) o(1,2) lt])
    show ?thesis unfolding res divide_shorter [OF o(1-3) d(2,3) lt n0 gap]
      using q less d(2,3) by simp
  qed
qed

section \<open>The step of the borrow\<close>

text \<open>
  The loop of \<open>SubtractTimes\<close> over the digits behind the other number steps twice in a turn. With one
  digit there, as in the division, it makes no difference; with three a digit is left out: \<open>2 ^ 84\<close>
  less three is \<open>2 ^ 56\<close> less three.
\<close>

definition two_84 :: Bignum where
  "two_84 = \<lparr>bn_bigits = [0, 0, 0, 1] @ replicate 124 0, bn_used = 4, bn_exponent = 0\<rparr>"

definition number_one :: Bignum where
  "number_one = \<lparr>bn_bigits = 1 # replicate 127 0, bn_used = 1, bn_exponent = 0\<rparr>"

lemma subtract_times_skips_digit:
  "SubtractTimes number_one 3 two_84 =
     Inr \<lparr>bn_bigits = [0xFFFFFFD, 0xFFFFFFF, 0, 0] @ replicate 124 0, bn_used = 2, bn_exponent = 0\<rparr>"
proof -
  have d: "subtract_times_digits number_one 3 0 ([0, 0, 0, 1] @ replicate 124 0) = ([0xFFFFFFD, 0, 0, 1] @ replicate 124 0, 1)"
    by (simp add: subtract_times_digits_def number_one_def Let_def kBigitMask_def kBigitSize_def kChunkSize_def)
  have up: "(w # x # y # z # r)[3 := e] = w # x # y # e # r" for w x y z e :: uint32 and r by (simp add: numeral_eq_Suc)
  have b: "subtract_times_borrow ([0xFFFFFFD, 0, 0, 1] @ replicate 124 0) 1 4 1 = (False, [0xFFFFFFD, 0xFFFFFFF, 0, 0] @ replicate 124 0)"
    by (subst subtract_times_borrow.simps, simp add: Let_def kBigitMask_def kChunkSize_def up)+
  have n: "bn_used number_one = 1" "bn_exponent number_one = 0" by (simp_all add: number_one_def)
  have c: "clamp_digits ([0xFFFFFFD, 0xFFFFFFF, 0, 0] @ replicate 124 0) (Suc (Suc (Suc (Suc 0)))) = 2" by simp
  have four: "4 = Suc (Suc (Suc (Suc 0)))" by simp
  show ?thesis using d b n c [folded four] by (simp add: SubtractTimes_def two_84_def Clamp_def Let_def)
qed

end
