(* ===== verification/BignumText.thy ===== *)
theory BignumText
  imports BignumProduct
begin

text \<open>
  The conversions of src/src/bignum.cc: decimal and hexadecimal text into a \<open>Bignum\<close>, and a \<open>Bignum\<close> into
  hexadecimal text.
\<close>

section \<open>Reading text\<close>

text \<open>\<open>ReadUInt64\<close> on the digits from \<open>from\<close> on, with the characters as bytes.\<close>

definition ReadUInt64 :: "uint8 list \<Rightarrow> nat \<Rightarrow> nat \<Rightarrow> uint64" where
  "ReadUInt64 buffer start digits_to_read =
     fold (\<lambda>i result. result * 10 + (ucast (buffer ! i) - 48)) [start..<start + digits_to_read] 0"

definition kMaxUint64DecimalDigits :: nat where "kMaxUint64DecimalDigits = 19"

function decimal_loop :: "uint8 list \<Rightarrow> nat \<Rightarrow> nat \<Rightarrow> Bignum \<Rightarrow> bignum_error + (nat \<times> nat \<times> Bignum)" where
  "decimal_loop value pos len b =
     (if len \<ge> kMaxUint64DecimalDigits then
        (let digits = ReadUInt64 value pos kMaxUint64DecimalDigits in
         bn_then (bn_then (MultiplyByPowerOfTen kMaxUint64DecimalDigits b) (AddUInt64 digits))
           (decimal_loop value (pos + kMaxUint64DecimalDigits) (len - kMaxUint64DecimalDigits)))
      else Inr (pos, len, b))"
  by pat_completeness auto
termination by (relation "measure (\<lambda>(value, pos, len, b). len)") (auto simp: kMaxUint64DecimalDigits_def)

declare decimal_loop.simps [simp del]

definition AssignDecimalString :: "uint8 list \<Rightarrow> Bignum \<Rightarrow> bignum_error + Bignum" where
  "AssignDecimalString value b =
     bn_then (decimal_loop value 0 (length value) (Zero b)) (\<lambda>(pos, len, b).
       let digits = ReadUInt64 value pos len in
       bn_then (bn_then (MultiplyByPowerOfTen len b) (AddUInt64 digits)) (\<lambda>b. Inr (Clamp b)))"

definition HexCharValue :: "uint8 \<Rightarrow> uint32" where
  "HexCharValue c =
     (if 48 \<le> c \<and> c \<le> 57 then ucast c - 48
      else if 97 \<le> c \<and> c \<le> 102 then 10 + ucast c - 97
      else if 65 \<le> c \<and> c \<le> 70 then 10 + ucast c - 65
      else 0)"

text \<open>A full digit is read from its last character, at \<open>string_index\<close>, towards its first.\<close>

definition hex_bigit :: "uint8 list \<Rightarrow> nat \<Rightarrow> uint32" where
  "hex_bigit value string_index =
     fold (\<lambda>j current_bigit. current_bigit + push_bit (j * 4) (HexCharValue (value ! (string_index - j))))
       [0..<kBigitSize div 4] 0"

definition AssignHexString :: "uint8 list \<Rightarrow> Bignum \<Rightarrow> bignum_error + Bignum" where
  "AssignHexString value b =
     (let b = Zero b;
          len = length value;
          needed_bigits = len * 4 div kBigitSize + 1
      in EnsureCapacity needed_bigits
        (let ds = fold (\<lambda>i ds. ds[i := hex_bigit value (len - 1 - i * (kBigitSize div 4))]) [0..<needed_bigits - 1] (bn_bigits b);
             rest = len - (needed_bigits - 1) * (kBigitSize div 4);
             most_significant_bigit = fold (\<lambda>j x. push_bit 4 x + HexCharValue (value ! j)) [0..<rest] 0;
             used = needed_bigits - 1
         in Inr (Clamp (if most_significant_bigit \<noteq> 0
              then b\<lparr>bn_bigits := ds[used := most_significant_bigit], bn_used := used + 1\<rparr>
              else b\<lparr>bn_bigits := ds, bn_used := used\<rparr>))))"

section \<open>Writing hexadecimal text\<close>

function SizeInHexChars :: "uint32 \<Rightarrow> nat" where
  "SizeInHexChars number = (if number \<noteq> 0 then SizeInHexChars (drop_bit 4 number) + 1 else 0)"
  by pat_completeness auto
termination
proof (relation "measure unat", goal_cases)
  case (2 number)
  then have "0 < unat number" by (simp add: unat_gt_0)
  then show ?case using unat_drop_bit_word [of 4 number] by simp
qed simp

declare SizeInHexChars.simps [simp del]

definition HexCharOfValue :: "uint32 \<Rightarrow> uint8" where
  "HexCharOfValue value = (if value < 10 then ucast value + 48 else ucast value - 10 + 65)"

text \<open>
  The buffer is filled from its end to its front, so every character goes in front of the text so
  far: zeros for the hidden digits, seven characters for each digit, and the last digit without
  leading zeros.
\<close>

definition push_bigit :: "uint32 \<Rightarrow> uint8 list \<Rightarrow> uint8 list" where
  "push_bigit bigit text =
     snd (fold (\<lambda>j (current_bigit, text). (drop_bit 4 current_bigit, HexCharOfValue (current_bigit AND 0xF) # text))
       [0..<kBigitSize div 4] (bigit, text))"

function push_last_bigit :: "uint32 \<Rightarrow> uint8 list \<Rightarrow> uint8 list" where
  "push_last_bigit bigit chars =
     (if bigit \<noteq> 0 then push_last_bigit (drop_bit 4 bigit) (HexCharOfValue (bigit AND 0xF) # chars) else chars)"
  by pat_completeness auto
termination
proof (relation "measure (\<lambda>(bigit, chars). unat bigit)", goal_cases)
  case (2 bigit chars)
  then have "0 < unat bigit" by (simp add: unat_gt_0)
  then show ?case using unat_drop_bit_word [of 4 bigit] by simp
qed simp

declare push_last_bigit.simps [simp del]

text \<open>None when the buffer is too small; the terminating NUL is not part of the result.\<close>

definition ToHexString :: "nat \<Rightarrow> Bignum \<Rightarrow> uint8 list option" where
  "ToHexString buffer_size b =
     (if bn_used b = 0 then (if buffer_size < 2 then None else Some [48])
      else
        (let last_bigit = bn_bigits b ! (bn_used b - 1);
             needed_chars = (BigitLength b - 1) * (kBigitSize div 4) + SizeInHexChars last_bigit + 1
         in if needed_chars > buffer_size then None
            else
              (let text = fold (\<lambda>i text. fold (\<lambda>j text. 48 # text) [0..<kBigitSize div 4] text) [0..<bn_exponent b] [];
                   text = fold (\<lambda>i text. push_bigit (bn_bigits b ! i) text) [0..<bn_used b - 1] text
               in Some (push_last_bigit last_bigit text))))"

section \<open>Small numbers\<close>

text \<open>Assignments of a 64-bit number.\<close>

lemma assign_loop:
  assumes "digits_below 0 ds" "n \<le> 128"
  shows "case fold (\<lambda>i (ds, value :: uint64). (ds[i := ucast (value AND ucast kBigitMask)], drop_bit kBigitSize value)) [0..<n] (ds, v) of
    (ds', v') \<Rightarrow> digits_below n ds' \<and> digits_value ds' + unat v' * digit_base ^ n = unat v"
proof -
  define P where "P i s = (case s of (ds', v' :: uint64) \<Rightarrow> digits_below i ds' \<and> digits_value ds' + unat v' * digit_base ^ i = unat v)"
    for i s
  have "P n (fold (\<lambda>i (ds, value). (ds[i := ucast (value AND ucast kBigitMask)], drop_bit kBigitSize value)) [0..<n] (ds, v))"
  proof (rule fold_upt_induct)
    have "digits_value ds = 0" using digits_below_value [OF assms(1)] by simp
    then show "P 0 (ds, v)" using assms(1) by (simp add: P_def)
    fix i and s :: "uint32 list \<times> uint64"
    assume i: "i < n" "P i s"
    obtain es c where s: "s = (es, c)" by fastforce
    have p: "digits_below i es" "digits_value es + unat c * digit_base ^ i = unat v" using i(2) by (simp_all add: P_def s)
    have z: "es ! i = 0" "i < 128" using p(1) i(1) assms(2) by (simp_all add: digits_below_def)
    have "digits_below (Suc i) (es[i := ucast (c AND ucast kBigitMask)])"
      by (intro digits_below_store digits_below_mono [OF p(1)]) simp_all
    moreover have "digits_value (es[i := ucast (c AND ucast kBigitMask)]) + unat (drop_bit kBigitSize c) * digit_base ^ Suc i =
        digits_value es + unat c * digit_base ^ i"
      using z by (intro store_value [OF p(1)]) simp_all
    ultimately show "P (Suc i) (case s of (ds, value) \<Rightarrow> (ds[i := ucast (value AND ucast kBigitMask)], drop_bit kBigitSize value))"
      using p(2) by (simp add: P_def s)
  qed simp
  then show ?thesis by (simp add: P_def)
qed

lemma AssignUInt64_ok:
  assumes "bignum_ok b"
  shows "\<exists>a. AssignUInt64 v b = Inr a \<and> bignum_ok a \<and> bn_value a = unat v \<and> IsClamped a \<and> bn_exponent a = 0"
proof (cases "v = 0")
  case True
  then show ?thesis using Zero_ok [OF assms] by (simp add: AssignUInt64_def Let_def IsClamped_def)
next
  case False
  note z = Zero_ok [OF assms]
  have "digits_below 0 (bn_bigits (Zero b))" using z by (simp add: bignum_ok_digits)
  moreover obtain ds w where r: "fold (\<lambda>i (ds, value). (ds[i := ucast (value AND ucast kBigitMask)], drop_bit kBigitSize value))
      [0..<3] (bn_bigits (Zero b), v) = (ds, w)" by (rule prod.exhaust)
  ultimately have d: "digits_below 3 ds" "digits_value ds + unat w * digit_base ^ 3 = unat v"
    using assign_loop [of "bn_bigits (Zero b)" 3 v] by simp_all
  have "unat v < 2 ^ 64" using unat_below [of v] by simp
  moreover have "unat w * digit_base ^ 3 \<ge> digit_base ^ 3" if "unat w \<noteq> 0" using that by simp
  ultimately have w: "unat w = 0" using d(2) by (cases "unat w = 0") simp_all
  let ?a = "(Zero b)\<lparr>bn_bigits := ds, bn_used := 3\<rparr>"
  have ok: "bignum_ok ?a" using d(1) by (simp add: bignum_ok_digits)
  have "bn_value ?a = unat v" using bn_value_all [OF ok] d(2) w z by simp
  moreover have "AssignUInt64 v b = Inr (Clamp ?a)"
  proof -
    have n: "64 div kBigitSize + 1 = 3" by (simp add: kBigitSize_def)
    show ?thesis using False r unfolding AssignUInt64_def Let_def n by (simp only: EnsureCapacity_def capacity) simp
  qed
  ultimately show ?thesis using Clamp_ok [OF ok] z by (simp add: Clamp_def Let_def)
qed

lemma AssignUInt16_ok:
  assumes "bignum_ok b"
  shows "\<exists>a. AssignUInt16 v b = Inr a \<and> bignum_ok a \<and> bn_value a = unat v \<and> IsClamped a"
proof (cases "v = 0")
  case True
  then show ?thesis using Zero_ok [OF assms] by (simp add: AssignUInt16_def Let_def IsClamped_def)
next
  case False
  note z = Zero_ok [OF assms]
  let ?a = "(Zero b)\<lparr>bn_bigits := (bn_bigits (Zero b))[0 := ucast v], bn_used := 1\<rparr>"
  have "unat v < 2 ^ 16" using unat_below [of v] by simp
  then have u: "unat (ucast v :: uint32) = unat v" by (simp add: unsigned_ucast_eq take_bit_eq_mod)
  have "digits_below 1 (bn_bigits (Zero b))" using z by (auto simp: digits_below_def small_digits_def)
  then have "digits_below 1 (bn_bigits ?a)" using u \<open>unat v < 2 ^ 16\<close> by (simp add: digits_below_store)
  then have ok: "bignum_ok ?a" by (simp add: bignum_ok_digits)
  have "bn_value ?a = unat v" using z u by (simp add: bn_value_def take_Suc_conv_app_nth)
  moreover have "IsClamped ?a" using False z u by (simp add: IsClamped_def) (metis unat_eq_zero unat_0)
  moreover have "AssignUInt16 v b = Inr ?a" using False by (simp add: AssignUInt16_def Let_def EnsureCapacity_def)
  ultimately show ?thesis using ok by blast
qed

text \<open>Every number below \<open>bignum_room\<close> has its digits and one to spare.\<close>

definition bignum_room :: nat where "bignum_room = digit_base ^ 127"

lemma AddUInt64_ok:
  assumes "bignum_ok b" "IsClamped b" "bn_value b < bignum_room"
  shows "\<exists>a. AddUInt64 v b = Inr a \<and> bignum_ok a \<and> bn_value a = bn_value b + unat v \<and> IsClamped a"
proof (cases "v = 0")
  case True
  then show ?thesis using assms by (simp add: AddUInt64_def)
next
  case False
  obtain c where c: "AssignUInt64 v Bignum_new = Inr c" "bignum_ok c" "bn_value c = unat v" "IsClamped c"
    using AssignUInt64_ok [OF Bignum_new_ok(1), of v] by blast
  have small: "BigitLength a \<le> 127" if "bignum_ok a" "IsClamped a" "bn_value a < bignum_room" for a
  proof (cases "bn_used a = 0")
    case True
    then show ?thesis using bignum_okD(6) [OF that(1)] by (simp add: BigitLength_def)
  next
    case nz: False
    have "digit_base ^ (BigitLength a - 1) < digit_base ^ 127"
      using bn_value_ge [OF that(1,2) nz] that(3) unfolding bignum_room_def by (rule le_less_trans)
    then have "BigitLength a - 1 < 127" by (rule power_less_imp_less_exp [rotated]) simp
    then show ?thesis by simp
  qed
  have "unat v < 2 ^ 64" using unat_below [of v] by simp
  also have "(2 :: nat) ^ 64 < bignum_room" by (simp add: bignum_room_def)
  finally have "BigitLength c \<le> 127" "BigitLength b \<le> 127" using small c assms by simp_all
  then have "\<not> 127 + min (bn_exponent b) (bn_exponent c) < max (BigitLength b) (BigitLength c)" by simp
  then show ?thesis using AddBignum_ok [OF assms(1) c(2)] False c assms(2) by (auto simp: AddUInt64_def)
qed

section \<open>Decimal text\<close>

definition decimal_digits :: "uint8 list \<Rightarrow> bool" where
  "decimal_digits t \<longleftrightarrow> list_all (\<lambda>c. 48 \<le> c \<and> c \<le> 57) t"

definition decimal_value :: "uint8 list \<Rightarrow> nat" where
  "decimal_value t = foldl (\<lambda>r c. r * 10 + (unat c - 48)) 0 t"

lemma decimal_value_Nil [simp]: "decimal_value [] = 0"
  by (simp add: decimal_value_def)

lemma decimal_value_snoc [simp]: "decimal_value (t @ [c]) = decimal_value t * 10 + (unat c - 48)"
  by (simp add: decimal_value_def)

lemma decimal_value_append: "decimal_value (s @ t) = decimal_value s * 10 ^ length t + decimal_value t"
  by (induction t rule: rev_induct) (simp_all add: append_assoc [symmetric] algebra_simps del: append_assoc)

lemma decimal_value_less: "decimal_digits t \<Longrightarrow> decimal_value t < 10 ^ length t"
proof (induction t rule: rev_induct)
  case (snoc c t)
  have "unat c \<le> 57" using snoc.prems by (simp add: decimal_digits_def word_le_nat_alt)
  then show ?case using snoc by (simp add: decimal_digits_def)
qed simp

lemma unat_ucast_8_64: "unat (ucast (c :: uint8) :: uint64) = unat c"
proof -
  have "unat c < 2 ^ 64" using unat_below [of c] by simp
  then show ?thesis by (simp add: unsigned_ucast_eq take_bit_eq_mod)
qed

lemma ReadUInt64_ok:
  assumes "decimal_digits (take n (drop start buffer))" "start + n \<le> length buffer" "n \<le> 19"
  shows "unat (ReadUInt64 buffer start n) = decimal_value (take n (drop start buffer))"
proof -
  define P where "P i r \<longleftrightarrow> unat (r :: uint64) = decimal_value (take (i - start) (drop start buffer))" for i r
  have "P (start + n) (ReadUInt64 buffer start n)"
    unfolding ReadUInt64_def
  proof (rule fold_upt_induct)
    show "P start 0" by (simp add: P_def)
    fix i and r :: uint64
    assume i: "start \<le> i" "i < start + n" "P i r"
    define k where "k = i - start"
    let ?t = "take k (drop start buffer)"
    have k: "i = start + k" "k < n" using i by (simp_all add: k_def)
    have s: "take (Suc k) (drop start buffer) = ?t @ [buffer ! i]"
      using k assms(2) by (simp add: take_Suc_conv_app_nth)
    have d: "decimal_digits (?t @ [buffer ! i])"
      using assms(1) k(2) set_take_subset_set_take [of "Suc k" n "drop start buffer"]
      unfolding s [symmetric] decimal_digits_def list_all_iff by fastforce
    then have c: "48 \<le> buffer ! i" "unat (buffer ! i) \<le> 57" "decimal_digits ?t"
      by (simp_all add: decimal_digits_def word_le_nat_alt)
    have "unat (buffer ! i) \<ge> 48" using c(1) by (simp add: word_le_nat_alt)
    then have x: "unat (ucast (buffer ! i) - 48 :: uint64) = unat (buffer ! i) - 48"
      by (subst unat_sub) (simp_all add: word_le_nat_alt unat_ucast_8_64)
    have "length ?t = k" using k assms(2) by simp
    then have "decimal_value ?t < 10 ^ k" using decimal_value_less [OF c(3)] by simp
    also have "(10 :: nat) ^ k \<le> 10 ^ 18" using k(2) assms(3) by (intro power_increasing) simp_all
    finally have l: "unat r < 10 ^ 18" using i(3) by (simp add: P_def k_def)
    then have "unat (r * 10) = unat r * 10" by (subst unat_mult_64) simp_all
    then have "unat (r * 10 + (ucast (buffer ! i) - 48)) = unat r * 10 + (unat (buffer ! i) - 48)"
      using l c(2) x by (subst unat_add_64) simp_all
    then show "P (Suc i) (r * 10 + (ucast (buffer ! i) - 48))"
      using i(3) s k by (simp add: P_def Suc_diff_le)
  qed simp
  then show ?thesis by (simp add: P_def)
qed

text \<open>One turn: a number with \<open>n\<close> more decimal digits.\<close>

lemma decimal_turn:
  assumes "bignum_ok b" "IsClamped b" "bn_value b * 10 ^ n + unat v < bignum_room" "unat v < 10 ^ n"
  shows "\<exists>a. bn_then (MultiplyByPowerOfTen n b) (AddUInt64 v) = Inr a \<and> bignum_ok a \<and> IsClamped a \<and>
    bn_value a = bn_value b * 10 ^ n + unat v"
proof -
  have "digits_value (bn_bigits b) \<le> bn_value b" using bn_value_all [OF assms(1)] by simp
  then have "5 ^ n * digits_value (bn_bigits b) \<le> 10 ^ n * bn_value b"
    using power_mono [of "5 :: nat" 10 n] by (intro mult_le_mono) simp_all
  moreover have "10 ^ n * bn_value b < bignum_room" using assms(3) by (simp add: mult.commute)
  ultimately have "\<not> digit_base ^ 127 \<le> 5 ^ n * digits_value (bn_bigits b)" unfolding bignum_room_def by linarith
  then obtain c where c: "MultiplyByPowerOfTen n b = Inr c" "bignum_ok c" "bn_value c = 10 ^ n * bn_value b" "IsClamped c"
    using MultiplyByPowerOfTen_ok [OF assms(1,2), of n] by blast
  have "bn_value c < bignum_room" using c(3) assms(3) by (simp add: mult.commute)
  then show ?thesis using AddUInt64_ok [OF c(2,4), of v] c(1,3) by (auto simp: mult.commute)
qed

lemma decimal_digits_part: "decimal_digits t \<Longrightarrow> decimal_digits (take n (drop k t))"
  by (auto simp: decimal_digits_def list_all_iff dest: in_set_takeD in_set_dropD)

lemma decimal_value_part:
  "k + n \<le> length t \<Longrightarrow> decimal_value (take (k + n) t) = decimal_value (take k t) * 10 ^ n + decimal_value (take n (drop k t))"
  by (auto simp: take_add decimal_value_append)

lemma thousand_digits: "n \<le> 1000 \<Longrightarrow> (10 :: nat) ^ n < bignum_room"
proof -
  assume n: "n \<le> 1000"
  have "(10 :: nat) ^ n \<le> 10 ^ (4 * 250)" using n by (intro power_increasing) simp_all
  also have "\<dots> = (10 ^ 4) ^ 250" by (rule power_mult)
  also have "\<dots> \<le> (2 ^ 14) ^ 250" by (rule power_mono) simp_all
  also have "\<dots> = 2 ^ (14 * 250)" by (rule power_mult [symmetric])
  also have "(2 :: nat) ^ (14 * 250) < 2 ^ (28 * 127)" by (rule power_strict_increasing) simp_all
  also have "(2 :: nat) ^ (28 * 127) = (2 ^ 28) ^ 127" by (rule power_mult)
  also have "(2 :: nat) ^ 28 = digit_base" by simp
  finally show ?thesis unfolding bignum_room_def .
qed

lemma decimal_value_take_less:
  assumes "decimal_digits t" "length t \<le> 1000"
  shows "decimal_value (take k t) < bignum_room"
proof -
  have "decimal_value (take k t) < 10 ^ length (take k t)"
    using decimal_digits_part [OF assms(1), of k 0] by (intro decimal_value_less) simp
  also have "(10 :: nat) ^ length (take k t) < bignum_room" using assms(2) by (intro thousand_digits) simp
  finally show ?thesis .
qed

lemma decimal_loop_ok:
  "decimal_digits t \<Longrightarrow> length t \<le> 1000 \<Longrightarrow> pos + len = length t \<Longrightarrow> bignum_ok b \<Longrightarrow> IsClamped b \<Longrightarrow>
   bn_value b = decimal_value (take pos t) \<Longrightarrow>
   \<exists>pos' len' a. decimal_loop t pos len b = Inr (pos', len', a) \<and> pos' + len' = length t \<and> len' < 19 \<and>
     bignum_ok a \<and> IsClamped a \<and> bn_value a = decimal_value (take pos' t)"
proof (induction t pos len b rule: decimal_loop.induct)
  case (1 t pos len b)
  show ?case
  proof (cases "19 \<le> len")
    case True
    let ?v = "ReadUInt64 t pos 19"
    have v: "unat ?v = decimal_value (take 19 (drop pos t))"
      using True 1(4) decimal_digits_part [OF 1(2)] by (intro ReadUInt64_ok) simp_all
    have d: "decimal_value (take (pos + 19) t) = bn_value b * 10 ^ 19 + unat ?v"
      unfolding v 1(7) by (rule decimal_value_part) (use True 1(4) in simp)
    have "decimal_value (take 19 (drop pos t)) < 10 ^ length (take 19 (drop pos t))"
      by (rule decimal_value_less [OF decimal_digits_part [OF 1(2)]])
    moreover have "length (take 19 (drop pos t)) = 19" using True 1(4) by simp
    ultimately have l: "unat ?v < 10 ^ 19" unfolding v by (simp only:)
    have room: "bn_value b * 10 ^ 19 + unat ?v < bignum_room"
      unfolding d [symmetric] by (rule decimal_value_take_less [OF 1(2,3)])
    obtain a where a: "bn_then (MultiplyByPowerOfTen 19 b) (AddUInt64 ?v) = Inr a" "bignum_ok a" "IsClamped a"
        "bn_value a = bn_value b * 10 ^ 19 + unat ?v"
      using decimal_turn [OF 1(5,6) room l] by blast
    have "decimal_loop t pos len b = decimal_loop t (pos + 19) (len - 19) a"
      using True a(1) by (subst decimal_loop.simps) (simp add: Let_def kMaxUint64DecimalDigits_def)
    moreover have "\<exists>pos' len' c. decimal_loop t (pos + 19) (len - 19) a = Inr (pos', len', c) \<and> pos' + len' = length t \<and>
        len' < 19 \<and> bignum_ok c \<and> IsClamped c \<and> bn_value c = decimal_value (take pos' t)"
    proof (rule 1(1) [of ?v a, unfolded kMaxUint64DecimalDigits_def])
      show "bn_value a = decimal_value (take (pos + 19) t)" unfolding d by (rule a(4))
    qed (use True a 1(2-4) in simp_all)
    ultimately show ?thesis by simp
  next
    case False
    then have "decimal_loop t pos len b = Inr (pos, len, b)"
      by (subst decimal_loop.simps) (simp add: kMaxUint64DecimalDigits_def)
    then show ?thesis using 1 False by simp
  qed
qed

lemma AssignDecimalString_ok:
  assumes t: "decimal_digits t" "length t \<le> 1000" and b: "bignum_ok b"
  shows "\<exists>a. AssignDecimalString t b = Inr a \<and> bignum_ok a \<and> IsClamped a \<and> bn_value a = decimal_value t"
proof -
  note z = Zero_ok [OF b]
  obtain pos len a where a: "decimal_loop t 0 (length t) (Zero b) = Inr (pos, len, a)" "pos + len = length t" "len < 19"
      "bignum_ok a" "IsClamped a" "bn_value a = decimal_value (take pos t)"
    using decimal_loop_ok [OF t, of 0 "length t" "Zero b"] z by (auto simp: IsClamped_def)
  let ?v = "ReadUInt64 t pos len"
  have v: "unat ?v = decimal_value (take len (drop pos t))"
    by (rule ReadUInt64_ok [OF decimal_digits_part [OF t(1)]]) (use a in simp_all)
  have d: "decimal_value t = bn_value a * 10 ^ len + unat ?v"
    using decimal_value_part [of pos len t] a v by simp
  have "decimal_value (take len (drop pos t)) < 10 ^ length (take len (drop pos t))"
    by (rule decimal_value_less [OF decimal_digits_part [OF t(1)]])
  moreover have "length (take len (drop pos t)) = len" using a(2) by simp
  ultimately have "unat ?v < 10 ^ len" using v by simp
  then obtain c where c: "bn_then (MultiplyByPowerOfTen len a) (AddUInt64 ?v) = Inr c" "bignum_ok c" "IsClamped c"
      "bn_value c = decimal_value t"
    using decimal_turn [OF a(4,5), of len ?v] decimal_value_take_less [OF t, of "length t"] d by auto
  then show ?thesis using Clamp_ok [OF c(2)] a(1) by (simp add: AssignDecimalString_def Let_def)
qed

section \<open>Hexadecimal text\<close>

definition hex_value :: "uint8 list \<Rightarrow> nat" where
  "hex_value t = foldl (\<lambda>r c. r * 16 + unat (HexCharValue c)) 0 t"

lemma hex_value_Nil [simp]: "hex_value [] = 0"
  by (simp add: hex_value_def)

lemma hex_value_snoc [simp]: "hex_value (t @ [c]) = hex_value t * 16 + unat (HexCharValue c)"
  by (simp add: hex_value_def)

lemma hex_value_append: "hex_value (s @ t) = hex_value s * 16 ^ length t + hex_value t"
  by (induction t rule: rev_induct) (simp_all add: append_assoc [symmetric] algebra_simps del: append_assoc)

lemma hex_value_Cons: "hex_value (c # t) = unat (HexCharValue c) * 16 ^ length t + hex_value t"
  using hex_value_append [of "[c]" t] hex_value_snoc [of "[]" c] by simp

lemma unat_ucast_8_32: "unat (ucast (c :: uint8) :: uint32) = unat c"
proof -
  have "unat c < 2 ^ 32" using unat_below [of c] by simp
  then show ?thesis by (simp add: unsigned_ucast_eq take_bit_eq_mod)
qed

lemma HexCharValue_less: "unat (HexCharValue c) < 16"
proof -
  have s: "unat (ucast c - k :: uint32) = unat c - unat k" if "unat k \<le> unat c" for k :: uint32
    using that by (subst unat_sub) (simp_all add: word_le_nat_alt unat_ucast_8_32)
  have p: "unat (10 + ucast c - k :: uint32) = 10 + unat c - unat k" if "unat k \<le> 10 + unat c" "unat c < 256" for k :: uint32
  proof -
    have "unat (10 + ucast c :: uint32) = 10 + unat c"
      using that(2) by (subst unat_add_lem [THEN iffD1]) (simp_all add: unat_ucast_8_32)
    then show ?thesis using that(1) by (subst unat_sub) (simp_all add: word_le_nat_alt)
  qed
  have "unat c < 256" using unat_below [of c] by simp
  then show ?thesis using s [of 48] p [of 97] p [of 65] by (auto simp: HexCharValue_def word_le_nat_alt)
qed

lemma hex_value_less: "hex_value t < 16 ^ length t"
proof (induction t rule: rev_induct)
  case (snoc c t)
  then show ?case using HexCharValue_less [of c] by simp
qed simp

lemma HexCharOfValue_inverse:
  assumes "unat x < 16"
  shows "HexCharValue (HexCharOfValue x) = x"
proof -
  have "unat x \<in> {0, 1, 2, 3, 4, 5, 6, 7, 8, 9, 10, 11, 12, 13, 14, 15}" using assms by (simp, presburger)
  moreover have "x = word_of_nat (unat x)" by simp
  ultimately show ?thesis
    by (elim insertE emptyE) (simp_all add: HexCharOfValue_def HexCharValue_def)
qed

text \<open>Writing.\<close>

lemma unat_and_15: "unat (x AND 0xF) = unat x mod 16" for x :: uint32
proof -
  have m: "0xF = (mask 4 :: uint32)" by (simp add: mask_eq_exp_minus_1)
  show ?thesis unfolding m take_bit_eq_mask [symmetric] unsigned_take_bit_eq by (simp add: take_bit_eq_mod)
qed

lemma HexChar_digit: "unat (HexCharValue (HexCharOfValue (x AND 0xF))) = unat x mod 16"
  by (subst HexCharOfValue_inverse) (simp_all add: unat_and_15)

lemma push_bigit_ok:
  assumes "unat d < digit_base"
  shows "hex_value (push_bigit d t) = unat d * 16 ^ length t + hex_value t" "length (push_bigit d t) = 7 + length t"
proof -
  define P where "P i s = (case s of (c, u) \<Rightarrow> unat c = unat d div 16 ^ i \<and> length u = i + length t \<and>
      hex_value u = unat d mod 16 ^ i * 16 ^ length t + hex_value t)" for i and s :: "uint32 \<times> uint8 list"
  have "P 7 (fold (\<lambda>j (current_bigit, text). (drop_bit 4 current_bigit, HexCharOfValue (current_bigit AND 0xF) # text)) [0..<7] (d, t))"
  proof (rule fold_upt_induct)
    show "P 0 (d, t)" by (simp add: P_def)
    fix i and s :: "uint32 \<times> uint8 list"
    assume "P i s"
    obtain c u where s: "s = (c, u)" by fastforce
    have p: "unat c = unat d div 16 ^ i" "length u = i + length t" "hex_value u = unat d mod 16 ^ i * 16 ^ length t + hex_value t"
      using \<open>P i s\<close> by (simp_all add: P_def s)
    have "unat (drop_bit 4 c) = unat c div 16" by (simp only: unat_drop_bit_word) simp
    then have c: "unat (drop_bit 4 c) = unat d div 16 ^ Suc i" by (simp only: p(1) div_mult2_eq [symmetric] power_Suc2)
    have "unat d mod 16 ^ Suc i = unat d mod (16 ^ i * 16)" by (simp only: power_Suc2)
    also have "\<dots> = 16 ^ i * (unat d div 16 ^ i mod 16) + unat d mod 16 ^ i" by (rule mod_mult2_eq)
    finally show "P (Suc i) (case s of (current_bigit, text) \<Rightarrow> (drop_bit 4 current_bigit, HexCharOfValue (current_bigit AND 0xF) # text))"
      using c p by (simp add: P_def s hex_value_Cons HexChar_digit power_add algebra_simps del: drop_bit_eq_div)
  qed simp
  then show "hex_value (push_bigit d t) = unat d * 16 ^ length t + hex_value t" "length (push_bigit d t) = 7 + length t"
    using assms by (simp_all add: P_def push_bigit_def kBigitSize_def split: prod.splits)
qed

lemma push_last_bigit_ok:
  "hex_value (push_last_bigit d t) = unat d * 16 ^ length t + hex_value t \<and>
   length (push_last_bigit d t) = SizeInHexChars d + length t"
proof (induction d t rule: push_last_bigit.induct)
  case (1 d t)
  show ?case
  proof (cases "d = 0")
    case True
    then show ?thesis using push_last_bigit.simps [of d t] SizeInHexChars.simps [of d] by simp
  next
    case False
    let ?t = "HexCharOfValue (d AND 0xF) # t"
    have e: "push_last_bigit d t = push_last_bigit (drop_bit 4 d) ?t" "SizeInHexChars d = SizeInHexChars (drop_bit 4 d) + 1"
      using False push_last_bigit.simps [of d t] SizeInHexChars.simps [of d] by simp_all
    have "unat (drop_bit 4 d) = unat d div 16" by (simp only: unat_drop_bit_word) simp
    moreover have "unat d = unat d div 16 * 16 + unat d mod 16" by simp
    ultimately have "unat (drop_bit 4 d) * 16 ^ length ?t + hex_value ?t = unat d * 16 ^ length t + hex_value t"
      by (simp only: hex_value_Cons HexChar_digit) (metis (no_types, lifting) add.assoc distrib_right length_Cons mult.assoc power_Suc)
    then show ?thesis using 1(1) [OF False] unfolding e by simp
  qed
qed


lemma fold_push_zeros: "fold (\<lambda>j text. 48 # text) [0..<k] t = replicate k 48 @ (t :: uint8 list)"
  by (induction k) simp_all

lemma hex_value_zeros: "hex_value (replicate k 48) = 0"
proof (induction k)
  case (Suc k)
  then show ?case using hex_value_Cons [of 48 "replicate k 48"] by (simp add: HexCharValue_def)
qed simp

lemma hidden_digits:
  "fold (\<lambda>i text. fold (\<lambda>j text. 48 # text) [0..<7] text) [0..<n] [] = replicate (7 * n) (48 :: uint8)"
  by (induction n) (simp_all add: fold_push_zeros flip: replicate_add)

lemma sixteen_power: "(16 :: nat) ^ (7 * k) = digit_base ^ k" "(16 :: nat) ^ (k * 7) = digit_base ^ k"
  by (simp_all add: power_mult mult.commute [of k])

lemma written_digits:
  assumes "small_digits ds" "n \<le> length ds"
  shows "hex_value (fold (\<lambda>i text. push_bigit (ds ! i) text) [0..<n] t) = digits_value (take n ds) * 16 ^ length t + hex_value t \<and>
    length (fold (\<lambda>i text. push_bigit (ds ! i) text) [0..<n] t) = 7 * n + length t"
  using assms(2)
proof (induction n)
  case (Suc n)
  then have "unat (ds ! n) < digit_base" using small_digits_nth [OF assms(1)] by simp
  note p = push_bigit_ok [OF this]
  show ?case using Suc by (simp add: p digits_value_take_Suc power_add sixteen_power algebra_simps)
qed simp

lemma ToHexString_value:
  assumes "bignum_ok b" "ToHexString n b = Some t"
  shows "hex_value t = bn_value b \<and> length t < n"
proof (cases "bn_used b = 0")
  case True
  then have "t = [48]" "2 \<le> n" using assms(2) by (simp_all add: ToHexString_def split: if_splits)
  then show ?thesis using True by (simp add: bn_value_def hex_value_def HexCharValue_def)
next
  case False
  let ?ds = "bn_bigits b" and ?last = "bn_bigits b ! (bn_used b - 1)"
  obtain m where m: "bn_used b = Suc m" using False not0_implies_Suc by blast
  let ?zeros = "replicate (7 * bn_exponent b) (48 :: uint8)"
  define u where "u = fold (\<lambda>i text. push_bigit (?ds ! i) text) [0..<m] ?zeros"
  have t: "t = push_last_bigit (?ds ! m) u" and len: "(m + bn_exponent b) * 7 + SizeInHexChars (?ds ! m) + 1 \<le> n"
    using assms(2) m by (simp_all add: ToHexString_def Let_def kBigitSize_def hidden_digits BigitLength_def u_def split: if_splits)
  have l: "m < length ?ds" using bignum_okD(1,2) [OF assms(1)] m by simp
  have w: "hex_value u = digits_value (take m ?ds) * 16 ^ (7 * bn_exponent b)" "length u = 7 * m + 7 * bn_exponent b"
    using written_digits [OF bignum_okD(3) [OF assms(1)], of m ?zeros] l by (simp_all add: hex_value_zeros u_def)
  have "hex_value t = bn_value b"
    using push_last_bigit_ok [of "?ds ! m" u] digits_value_take_Suc [OF l]
    by (simp add: t bn_value_def m w sixteen_power power_add algebra_simps)
  moreover have "length t < n" using push_last_bigit_ok [of "?ds ! m" u] w(2) len t by simp
  ultimately show ?thesis by simp
qed

text \<open>Reading.\<close>

lemma hex_bigit_ok:
  assumes "6 \<le> k" "k < length t"
  shows "unat (hex_bigit t k) = hex_value (take 7 (drop (k - 6) t))"
proof -
  define P where "P j x \<longleftrightarrow> unat (x :: uint32) = hex_value (take j (drop (k + 1 - j) t))" for j x
  have "P 7 (fold (\<lambda>j current_bigit. current_bigit + push_bit (j * 4) (HexCharValue (t ! (k - j)))) [0..<7] 0)"
  proof (rule fold_upt_induct)
    show "P 0 0" by (simp add: P_def)
    fix j and x :: uint32
    assume j: "j < 7" "P j x"
    let ?t = "take j (drop (k + 1 - j) t)" and ?v = "HexCharValue (t ! (k - j))"
    have d: "drop (k - j) t = t ! (k - j) # drop (k + 1 - j) t"
      using j(1) assms Cons_nth_drop_Suc [of "k - j" t] by (simp add: Suc_diff_le)
    have l: "length ?t = j" using assms j(1) by simp
    have x: "unat x < 16 ^ j" using j(2) hex_value_less [of ?t] l by (simp add: P_def)
    have "(2 :: nat) ^ (j * 4) = (2 ^ 4) ^ j" by (simp only: power_mult [symmetric] mult.commute)
    then have pw: "(2 :: nat) ^ (j * 4) = 16 ^ j" by simp
    have sx: "(16 :: nat) ^ j \<le> 16 ^ 6" using j(1) by (intro power_increasing) simp_all
    have "unat ?v \<le> 15" using HexCharValue_less [of "t ! (k - j)"] by simp
    then have v: "unat ?v * 16 ^ j \<le> 15 * 16 ^ 6" using sx by (rule mult_le_mono)
    have vx: "unat x < 16 ^ 6" using x sx by (rule less_le_trans)
    have "unat (push_bit (j * 4) ?v) = take_bit 32 (unat ?v * 16 ^ j)"
      unfolding unsigned_push_bit_eq by (simp add: push_bit_eq_mult pw)
    also have "\<dots> = unat ?v * 16 ^ j" using v(1) by (intro take_bit_nat_eq_self) simp
    finally have s: "unat (push_bit (j * 4) ?v) = unat ?v * 16 ^ j" .
    then have "unat (x + push_bit (j * 4) ?v) = unat x + unat ?v * 16 ^ j"
      using v vx by (subst unat_add_lem [THEN iffD1]) simp_all
    then show "P (Suc j) (x + push_bit (j * 4) ?v)"
      using j(2) by (simp add: P_def d hex_value_Cons l [simplified])
  qed simp
  moreover have "kBigitSize div 4 = 7" "k + 1 - 7 = k - 6" using assms(1) by (simp_all add: kBigitSize_def)
  ultimately show ?thesis by (simp only: P_def hex_bigit_def)
qed

text \<open>The digits read so far are the last \<open>7 * i\<close> characters.\<close>

lemma hex_digits_ok:
  assumes "digits_below 0 ds" "7 * n \<le> length t" "n \<le> 128"
  shows "digits_below n (fold (\<lambda>i ds. ds[i := hex_bigit t (length t - 1 - i * 7)]) [0..<n] ds) \<and>
    digits_value (fold (\<lambda>i ds. ds[i := hex_bigit t (length t - 1 - i * 7)]) [0..<n] ds) = hex_value (drop (length t - 7 * n) t)"
proof -
  define P where "P i es \<longleftrightarrow> digits_below i es \<and> digits_value es = hex_value (drop (length t - 7 * i) t)" for i es
  have "P n (fold (\<lambda>i ds. ds[i := hex_bigit t (length t - 1 - i * 7)]) [0..<n] ds)"
  proof (rule fold_upt_induct)
    have "digits_value ds = 0" using digits_below_value [OF assms(1)] by simp
    then show "P 0 ds" using assms(1) by (simp add: P_def)
    fix i es
    assume i: "i < n" "P i es"
    let ?k = "length t - 1 - i * 7" and ?s = "drop (length t - 7 * i) t"
    let ?c = "take 7 (drop (?k - 6) t)"
    have k: "6 \<le> ?k" "?k < length t" using i(1) assms(2) by simp_all
    note x = hex_bigit_ok [OF k]
    have p: "?k - 6 = length t - 7 * Suc i" "length t - 7 * Suc i + 7 = length t - 7 * i" using i(1) assms(2) by simp_all
    have "drop (?k - 6) t = take 7 (drop (?k - 6) t) @ drop 7 (drop (?k - 6) t)" by (rule append_take_drop_id [symmetric])
    also have "drop 7 (drop (?k - 6) t) = drop (?k - 6 + 7) t" by (simp only: drop_drop add.commute)
    finally have s: "drop (length t - 7 * Suc i) t = ?c @ ?s" by (simp only: p)
    have l: "length ?s = 7 * i" "length ?c = 7" using i(1) assms(2) by simp_all
    have b: "unat (hex_bigit t ?k) < digit_base" using hex_value_less [of ?c] l(2) x by simp
    have e: "digits_below i es" "digits_value es = hex_value ?s" using i(2) by (simp_all add: P_def)
    have z: "es ! i = 0" "i < length es" using e(1) i(1) assms(3) by (simp_all add: digits_below_def)
    have "digits_value (es[i := hex_bigit t ?k]) = hex_value (?c @ ?s)"
      using digits_value_update [OF z(2), of "hex_bigit t ?k"] z(1) e(2) x
      by (simp only: hex_value_append l(1) sixteen_power) simp
    moreover have "digits_below (Suc i) (es[i := hex_bigit t ?k])"
      using b by (intro digits_below_store digits_below_mono [OF e(1)]) simp_all
    ultimately show "P (Suc i) (es[i := hex_bigit t ?k])" unfolding P_def s by simp
  qed simp
  then show ?thesis by (simp add: P_def)
qed

lemma hex_top_ok:
  assumes "n < 7" "n \<le> length t"
  shows "unat (fold (\<lambda>j x. push_bit 4 x + HexCharValue (t ! j)) [0..<n] 0) = hex_value (take n t)"
proof -
  define P where "P j x \<longleftrightarrow> unat (x :: uint32) = hex_value (take j t)" for j x
  have "P n (fold (\<lambda>j x. push_bit 4 x + HexCharValue (t ! j)) [0..<n] 0)"
  proof (rule fold_upt_induct)
    show "P 0 0" by (simp add: P_def)
    fix j and x :: uint32
    assume j: "j < n" "P j x"
    have "length (take j t) = j" using j(1) assms(2) by simp
    then have "unat x < 16 ^ j" using j(2) hex_value_less [of "take j t"] by (simp add: P_def)
    also have "(16 :: nat) ^ j \<le> 16 ^ 6" using j(1) assms(1) by (intro power_increasing) simp_all
    finally have x: "unat x < 16777216" by simp
    have "unat (push_bit 4 x) = take_bit 32 (unat x * 16)"
      unfolding unsigned_push_bit_eq by (simp add: push_bit_eq_mult)
    then have "unat (push_bit 4 x) = unat x * 16" using x by (simp add: take_bit_nat_eq_self)
    then have "unat (push_bit 4 x + HexCharValue (t ! j)) = unat x * 16 + unat (HexCharValue (t ! j))"
      using x HexCharValue_less [of "t ! j"] by (subst unat_add_lem [THEN iffD1]) simp_all
    then show "P (Suc j) (push_bit 4 x + HexCharValue (t ! j))"
      using j assms(2) by (simp add: P_def take_Suc_conv_app_nth)
  qed simp
  then show ?thesis by (simp add: P_def)
qed

lemma AssignHexString_ok:
  assumes b: "bignum_ok b"
  shows "if 128 < length t div 7 + 1 then AssignHexString t b = Inl CapacityExceeded
    else \<exists>a. AssignHexString t b = Inr a \<and> bignum_ok a \<and> IsClamped a \<and> bn_value a = hex_value t"
proof -
  define n where "n = length t div 7"
  have k: "kBigitSize div 4 = 7" "length t * 4 div kBigitSize = n" by (simp_all add: kBigitSize_def n_def)
  have n: "length t - n * 7 = length t mod 7" "7 * n \<le> length t" by (simp_all add: n_def minus_div_mult_eq_mod)
  note z = Zero_ok [OF b]
  show ?thesis
  proof (cases "128 < n + 1")
    case True
    then show ?thesis by (simp add: AssignHexString_def Let_def k EnsureCapacity_def flip: n_def)
  next
    case False
    define ds where "ds = fold (\<lambda>i ds. ds[i := hex_bigit t (length t - 1 - i * 7)]) [0..<n] (bn_bigits (Zero b))"
    define x where "x = fold (\<lambda>j x. push_bit 4 x + HexCharValue (t ! j)) [0..<length t - n * 7] (0 :: uint32)"
    have d: "digits_below n ds" "digits_value ds = hex_value (drop (length t - 7 * n) t)"
      using hex_digits_ok [of "bn_bigits (Zero b)" n t] n(2) False z by (simp_all add: ds_def bignum_ok_digits)
    have xv: "unat x = hex_value (take (length t - 7 * n) t)"
      unfolding x_def by (subst hex_top_ok) (simp_all add: n mult.commute)
    have l: "length (take (length t - 7 * n) t) < 7" using n by (simp add: mult.commute)
    have "(16 :: nat) ^ length (take (length t - 7 * n) t) \<le> 16 ^ 6" using l by (intro power_increasing) simp_all
    then have xb: "unat x < digit_base" using hex_value_less [of "take (length t - 7 * n) t"] xv by simp
    have ht: "hex_value t = unat x * digit_base ^ n + digits_value ds"
      using hex_value_append [of "take (length t - 7 * n) t" "drop (length t - 7 * n) t"] n(2)
      by (simp add: d(2) xv sixteen_power)
    define a where "a = (if x \<noteq> 0 then (Zero b)\<lparr>bn_bigits := ds[n := x], bn_used := n + 1\<rparr>
        else (Zero b)\<lparr>bn_bigits := ds, bn_used := n\<rparr>)"
    have e: "AssignHexString t b = Inr (Clamp a)"
    proof -
      have "\<not> kBigitCapacity < n + 1" "n + 1 - 1 = n" using False by simp_all
      then show ?thesis
        by (simp only: AssignHexString_def Let_def k EnsureCapacity_def a_def ds_def [symmetric] x_def [symmetric] if_False)
    qed
    have zn: "ds ! n = 0" "n < length ds" using d(1) False by (simp_all add: digits_below_def)
    have "digits_below (n + 1) (ds[n := x])"
      using xb by (intro digits_below_store digits_below_mono [OF d(1)]) simp_all
    then have ok: "bignum_ok a" using d(1) z(4) False by (simp add: bignum_ok_digits a_def)
    have "digits_value (bn_bigits a) = hex_value t"
      using digits_value_update [OF zn(2), of x] zn(1) ht by (cases "x = 0") (simp_all add: a_def)
    then have "bn_value a = hex_value t" using bn_value_all [OF ok] z(4) by (simp add: a_def)
    then show ?thesis using False e Clamp_ok [OF ok] by (simp flip: n_def)
  qed
qed

end
