(* ===== verification/BignumPower.thy ===== *)
theory BignumPower
  imports BignumText
begin

text \<open>
  The square and the power of \<open>Bignum\<close>. The square is computed in place, column by column, from a copy
  of the digits behind the number; the columns are convolutions of the digits, and the accumulator of
  64 bits never overflows. The power squares and multiplies from the left, first in 64 bits.
\<close>

section \<open>The operations\<close>

definition square_low :: "nat \<Rightarrow> nat \<Rightarrow> uint32 list \<times> uint64 \<Rightarrow> uint32 list \<times> uint64" where
  "square_low used i s =
     (case s of (ds, accumulator) \<Rightarrow>
       (let accumulator = fold (\<lambda>index2 accumulator.
              accumulator + ucast (ds ! (used + (i - index2))) * ucast (ds ! (used + index2))) [0..<i + 1] accumulator
        in (ds[i := ucast accumulator AND kBigitMask], drop_bit kBigitSize accumulator)))"

definition square_high :: "nat \<Rightarrow> nat \<Rightarrow> uint32 list \<times> uint64 \<Rightarrow> uint32 list \<times> uint64" where
  "square_high used i s =
     (case s of (ds, accumulator) \<Rightarrow>
       (let accumulator = fold (\<lambda>index2 accumulator.
              accumulator + ucast (ds ! (used + (i - index2))) * ucast (ds ! (used + index2))) [i - (used - 1)..<used] accumulator
        in (ds[i := ucast accumulator AND kBigitMask], drop_bit kBigitSize accumulator)))"

definition Square :: "Bignum \<Rightarrow> bignum_error + Bignum" where
  "Square b =
     (let used = bn_used b; product_length = 2 * used in
      EnsureCapacity product_length
        (if 2 ^ (2 * (kChunkSize - kBigitSize)) \<le> used then Inl TooManyDigits
         else
           (let ds = fold (\<lambda>i ds. ds[used + i := ds ! i]) [0..<used] (bn_bigits b);
                s = fold (square_low used) [0..<used] (ds, 0);
                (ds, _) = fold (square_high used) [used..<product_length] s
            in Inr (Clamp (b\<lparr>bn_bigits := ds, bn_used := product_length, bn_exponent := bn_exponent b * 2\<rparr>)))))"

text \<open>The factors two of the base; the loop does not end for zero.\<close>

function strip_shifts :: "uint16 \<Rightarrow> nat \<Rightarrow> bignum_error + (uint16 \<times> nat)" where
  "strip_shifts base shifts =
     (if base AND 1 = 0 then
        (if base = 0 then Inl EndlessLoop else strip_shifts (drop_bit 1 base) (shifts + 1))
      else Inr (base, shifts))"
  by pat_completeness auto
termination
  by (relation "measure (\<lambda>(base, shifts). unat base)") (simp_all add: unat_drop_bit_word unat_gt_0)

declare strip_shifts.simps [simp del]

fun count_bits :: "nat \<Rightarrow> nat" where
  "count_bits tmp_base = (if tmp_base = 0 then 0 else count_bits (tmp_base div 2) + 1)"

declare count_bits.simps [simp del]

function mask_above :: "nat \<Rightarrow> nat \<Rightarrow> nat" where
  "mask_above power_exponent bit_mask =
     (if bit_mask = 0 then bit_mask else if power_exponent \<ge> bit_mask then mask_above power_exponent (2 * bit_mask) else bit_mask)"
  by pat_completeness auto
termination by (relation "measure (\<lambda>(p, m). Suc p - m)") auto

declare mask_above.simps [simp del]

text \<open>The loop over the bits below the leading one while the value has 32 bits: the value, the flag of the delayed multiplication and the mask.\<close>

function power_loop :: "uint16 \<Rightarrow> nat \<Rightarrow> nat \<Rightarrow> nat \<Rightarrow> uint64 \<Rightarrow> bool \<Rightarrow> uint64 \<times> bool \<times> nat" where
  "power_loop base bit_size power_exponent bit_mask this_value delayed =
     (if bit_mask \<noteq> 0 \<and> this_value \<le> 0xFFFFFFFF then
        (let this_value = this_value * this_value;
             (this_value, delayed) =
               (if power_exponent AND bit_mask \<noteq> 0 then
                  (let base_bits_mask = NOT (push_bit (64 - bit_size) 1 - 1);
                       high_bits_zero = (this_value AND base_bits_mask = 0)
                   in if high_bits_zero then (this_value * ucast base, delayed) else (this_value, True))
                else (this_value, delayed))
         in power_loop base bit_size power_exponent (bit_mask div 2) this_value delayed)
      else (this_value, delayed, bit_mask))"
  by pat_completeness auto
termination by (relation "measure (\<lambda>(b, s, p, m, v, d). m)") auto

declare power_loop.simps [simp del]

function square_loop :: "uint32 \<Rightarrow> nat \<Rightarrow> nat \<Rightarrow> Bignum \<Rightarrow> bignum_error + Bignum" where
  "square_loop base power_exponent bit_mask b =
     (if bit_mask \<noteq> 0 then
        bn_then (Square b) (\<lambda>b.
          bn_then (if power_exponent AND bit_mask \<noteq> 0 then MultiplyByUInt32 base b else Inr b)
            (square_loop base power_exponent (bit_mask div 2)))
      else Inr b)"
  by pat_completeness auto
termination by (relation "measure (\<lambda>(f, p, m, b). m)") auto

declare square_loop.simps [simp del]

definition AssignPowerUInt16 :: "uint16 \<Rightarrow> nat \<Rightarrow> Bignum \<Rightarrow> bignum_error + Bignum" where
  "AssignPowerUInt16 base power_exponent b =
     (if power_exponent = 0 then AssignUInt16 1 b
      else
        (let b = Zero b in
         bn_then (strip_shifts base 0) (\<lambda>(base, shifts).
           (let bit_size = count_bits (unat base);
                final_size = bit_size * power_exponent
            in EnsureCapacity (final_size div kBigitSize + 2)
                 (let bit_mask = mask_above power_exponent 1 div 4;
                      (this_value, delayed, bit_mask) = power_loop base bit_size power_exponent bit_mask (ucast base) False
                  in bn_then (AssignUInt64 this_value b) (\<lambda>b.
                       bn_then (if delayed then MultiplyByUInt32 (ucast base) b else Inr b) (\<lambda>b.
                         bn_then (square_loop (ucast base) power_exponent bit_mask b)
                           (ShiftLeft (shifts * power_exponent)))))))))"

section \<open>The square\<close>

text \<open>The columns of the square of the number with digits \<open>x\<close>.\<close>

definition column :: "nat \<Rightarrow> (nat \<Rightarrow> nat) \<Rightarrow> nat \<Rightarrow> nat" where
  "column n x c = (\<Sum>k = c - (n - 1)..<min n (c + 1). x (c - k) * x k)"

lemma column_low: "c < n \<Longrightarrow> column n x c = (\<Sum>k = 0..<c + 1. x (c - k) * x k)"
  by (simp add: column_def)

lemma column_high: "n \<le> c \<Longrightarrow> column n x c = (\<Sum>k = c - (n - 1)..<n. x (c - k) * x k)"
  by (simp add: column_def)

lemma column_bound:
  assumes "\<And>i. i < n \<Longrightarrow> x i < digit_base"
  shows "column n x c \<le> n * (268435455 * 268435455)"
proof -
  have "column n x c \<le> (\<Sum>k = c - (n - 1)..<min n (c + 1). 268435455 * 268435455)"
    unfolding column_def
  proof (rule sum_mono)
    fix k assume k: "k \<in> {c - (n - 1)..<min n (c + 1)}"
    then have "x (c - k) < digit_base" "x k < digit_base" by (auto intro!: assms)
    then show "x (c - k) * x k \<le> 268435455 * 268435455" by (intro mult_le_mono) simp_all
  qed
  also have "\<dots> \<le> n * (268435455 * 268435455)" by simp
  finally show ?thesis .
qed

lemma column_sum:
  assumes "\<And>i. n \<le> i \<Longrightarrow> x i = 0"
  shows "column n x c = (\<Sum>k\<le>c. x k * x (c - k))"
proof -
  have "(\<Sum>k\<le>c. x k * x (c - k)) = (\<Sum>k = c - (n - 1)..<min n (c + 1). x k * x (c - k))"
  proof (rule sum.mono_neutral_right)
    show "\<forall>k \<in> {..c} - {c - (n - 1)..<min n (c + 1)}. x k * x (c - k) = 0"
      using assms by (cases "n = 0") (auto simp: not_less not_le)
  qed auto
  then show ?thesis by (simp add: column_def mult.commute)
qed

lemma square_columns:
  fixes x :: "nat \<Rightarrow> nat"
  assumes "\<And>i. n \<le> i \<Longrightarrow> x i = 0" "n \<noteq> 0"
  shows "(\<Sum>c<2 * n. column n x c * z ^ c) = (\<Sum>i<n. x i * z ^ i) * (\<Sum>i<n. x i * z ^ i)"
proof -
  obtain m where m: "n = Suc m" using assms(2) not0_implies_Suc by blast
  have "(\<Sum>i\<le>m. x i * z ^ i) * (\<Sum>j\<le>m. x j * z ^ j) = (\<Sum>r\<le>m + m. (\<Sum>k\<le>r. x k * x (r - k)) * z ^ r)"
  proof -
    have "(\<Sum>i\<le>m. int (x i) * int z ^ i) * (\<Sum>j\<le>m. int (x j) * int z ^ j) =
        (\<Sum>r\<le>m + m. (\<Sum>k\<le>r. int (x k) * int (x (r - k))) * int z ^ r)"
      using assms(1) m by (intro polynomial_product) simp_all
    then have "int ((\<Sum>i\<le>m. x i * z ^ i) * (\<Sum>j\<le>m. x j * z ^ j)) = int (\<Sum>r\<le>m + m. (\<Sum>k\<le>r. x k * x (r - k)) * z ^ r)"
      by simp
    then show ?thesis by (simp only: of_nat_eq_iff)
  qed
  also have "\<dots> = (\<Sum>r\<le>m + m. column n x r * z ^ r)" by (simp add: column_sum [OF assms(1)])
  also have "\<dots> = (\<Sum>c<2 * n. column n x c * z ^ c)"
  proof -
    have "column n x (Suc (m + m)) = 0" by (simp add: column_def m)
    moreover have "2 * n = Suc (Suc (m + m))" using m by simp
    ultimately show ?thesis by (simp add: lessThan_Suc_atMost)
  qed
  finally show ?thesis by (simp only: m lessThan_Suc_atMost)
qed

lemma accumulate:
  fixes p :: "nat \<Rightarrow> uint64"
  assumes "\<And>k. a \<le> k \<Longrightarrow> k < e \<Longrightarrow> unat (p k) = q k" "unat c + (\<Sum>k = a..<e. q k) < 2 ^ 64"
  shows "unat (fold (\<lambda>k c. c + p k) [a..<e] c) = unat c + (\<Sum>k = a..<e. q k)"
  using assms
proof (induction e)
  case (Suc e)
  show ?case
  proof (cases "a \<le> e")
    case True
    then have s: "(\<Sum>k = a..<Suc e. q k) = (\<Sum>k = a..<e. q k) + q e" by simp
    have ih: "unat (fold (\<lambda>k c. c + p k) [a..<e] c) = unat c + (\<Sum>k = a..<e. q k)"
    proof (rule Suc.IH)
      show "unat (p k) = q k" if "a \<le> k" "k < e" for k using Suc.prems(1) [of k] that by simp
      show "unat c + (\<Sum>k = a..<e. q k) < 2 ^ 64" using Suc.prems(2) unfolding s by linarith
    qed
    have pe: "unat (p e) = q e" using Suc.prems(1) [of e] True by simp
    have "unat (fold (\<lambda>k c. c + p k) [a..<e] c + p e) = unat (fold (\<lambda>k c. c + p k) [a..<e] c) + unat (p e)"
      using Suc.prems(2) unfolding s by (intro unat_add_64) (simp add: ih pe)
    then show ?thesis using True s ih pe by simp
  qed simp
qed simp

text \<open>The state of the columns: \<open>x\<close> are the digits of the number, the first \<open>i\<close> columns are done.\<close>

definition squaring :: "nat \<Rightarrow> (nat \<Rightarrow> nat) \<Rightarrow> nat \<Rightarrow> uint32 list \<times> uint64 \<Rightarrow> bool" where
  "squaring n x i s = (case s of (ds, c) \<Rightarrow>
     digits_below (2 * n) ds \<and> (\<forall>k < n. i \<le> n + k \<longrightarrow> unat (ds ! (n + k)) = x k) \<and> unat c \<le> n * digit_base \<and>
     digits_value (take i ds) + unat c * digit_base ^ i = (\<Sum>j<i. column n x j * digit_base ^ j))"

lemma squaring_step:
  assumes s: "squaring n x i (ds, c)" and i: "i < 2 * n" "n \<le> 64" and x: "\<And>i. i < n \<Longrightarrow> x i < digit_base"
    and d: "unat d = unat c + column n x i"
  shows "squaring n x (Suc i) (ds[i := ucast d AND kBigitMask], drop_bit kBigitSize d)"
proof -
  have p: "digits_below (2 * n) ds" "\<forall>k < n. i \<le> n + k \<longrightarrow> unat (ds ! (n + k)) = x k" "unat c \<le> n * digit_base"
      "digits_value (take i ds) + unat c * digit_base ^ i = (\<Sum>j<i. column n x j * digit_base ^ j)"
    using s by (simp_all add: squaring_def)
  have low: "unat (ucast d AND kBigitMask :: uint32) = unat d mod digit_base"
    unfolding unat_bigit_mask by (simp add: unsigned_ucast_eq take_bit_eq_mod mod_mod_cancel)
  have carry: "unat (drop_bit kBigitSize d) = unat d div digit_base"
    by (simp add: unat_drop_bit_word kBigitSize_def)
  have "column n x i \<le> n * (268435455 * 268435455)" by (rule column_bound) (rule x)
  then have "unat d \<le> n * (digit_base * digit_base)" using d p(3) by simp
  also have "\<dots> = n * digit_base * digit_base" by simp
  finally have "unat d div digit_base \<le> n * digit_base * digit_base div digit_base" by (rule div_le_mono)
  then have c: "unat d div digit_base \<le> n * digit_base" by simp
  have len: "i < length ds" using p(1) i by (simp add: digits_below_def)
  have "digits_value (take (Suc i) (ds[i := ucast d AND kBigitMask])) = digits_value (take i ds) + unat d mod digit_base * digit_base ^ i"
    using digits_value_take_Suc [of i "ds[i := ucast d AND kBigitMask]"] len by (simp add: low del: unat_bigit_mask)
  moreover have "unat d mod digit_base * digit_base ^ i + unat d div digit_base * digit_base ^ Suc i = unat d * digit_base ^ i"
  proof -
    have "unat d mod digit_base * digit_base ^ i + unat d div digit_base * digit_base ^ Suc i =
        (unat d mod digit_base + unat d div digit_base * digit_base) * digit_base ^ i"
      by (simp only: power_Suc distrib_right mult.assoc)
    then show ?thesis by (simp only: mod_div_mult_eq add.commute)
  qed
  ultimately have v: "digits_value (take (Suc i) (ds[i := ucast d AND kBigitMask])) + unat d div digit_base * digit_base ^ Suc i =
      (\<Sum>j<Suc i. column n x j * digit_base ^ j)"
    using p(4) d by (simp add: distrib_right)
  have "digits_below (2 * n) (ds[i := ucast d AND kBigitMask])"
    using p(1) i(1) by (intro digits_below_store) (simp_all add: low del: unat_bigit_mask)
  then show ?thesis using p(2) c v unfolding squaring_def carry by simp
qed

lemma square_low_ok:
  assumes s: "squaring n x i s" and i: "i < n" "n \<le> 64" and x: "\<And>i. i < n \<Longrightarrow> x i < digit_base"
  shows "squaring n x (Suc i) (square_low n i s)"
proof -
  obtain ds c where sc: "s = (ds, c)" by fastforce
  let ?p = "\<lambda>k. ucast (ds ! (n + (i - k))) * ucast (ds ! (n + k)) :: uint64"
  have p: "\<forall>k < n. i \<le> n + k \<longrightarrow> unat (ds ! (n + k)) = x k" "unat c \<le> n * digit_base" using s sc by (simp_all add: squaring_def)
  have "column n x i \<le> n * (268435455 * 268435455)" by (rule column_bound) (rule x)
  then have b: "unat c + (\<Sum>k = 0..<i + 1. x (i - k) * x k) < 2 ^ 64" using p(2) i column_low [OF i(1), of x] by simp
  have "unat (fold (\<lambda>k c. c + ?p k) [0..<i + 1] c) = unat c + (\<Sum>k = 0..<i + 1. x (i - k) * x k)"
  proof (rule accumulate [OF _ b])
    fix k assume k: "k < i + 1"
    have e: "unat (ds ! (n + (i - k))) = x (i - k)" "unat (ds ! (n + k)) = x k" using p(1) [rule_format, of "i - k"] p(1) [rule_format, of k] k i(1) by simp_all
    have "k < n" "i - k < n" using k i by linarith+
    then have "x (i - k) * x k \<le> 268435455 * 268435455" using x [of k] x [of "i - k"] by (intro mult_le_mono) simp_all
    then show "unat (?p k) = x (i - k) * x k" by (subst unat_mult_64) (simp_all add: e)
  qed
  then show ?thesis
    using squaring_step [OF s [unfolded sc] _ i(2) x] i column_low [OF i(1), of x] by (simp add: square_low_def sc Let_def)
qed

lemma square_high_ok:
  assumes s: "squaring n x i s" and i: "n \<le> i" "i < 2 * n" "n \<le> 64" and x: "\<And>i. i < n \<Longrightarrow> x i < digit_base"
  shows "squaring n x (Suc i) (square_high n i s)"
proof -
  obtain ds c where sc: "s = (ds, c)" by fastforce
  let ?p = "\<lambda>k. ucast (ds ! (n + (i - k))) * ucast (ds ! (n + k)) :: uint64"
  have p: "\<forall>k < n. i \<le> n + k \<longrightarrow> unat (ds ! (n + k)) = x k" "unat c \<le> n * digit_base" using s sc by (simp_all add: squaring_def)
  have "column n x i \<le> n * (268435455 * 268435455)" by (rule column_bound) (rule x)
  then have b: "unat c + (\<Sum>k = i - (n - 1)..<n. x (i - k) * x k) < 2 ^ 64" using p(2) i column_high [OF i(1), of x] by simp
  have "unat (fold (\<lambda>k c. c + ?p k) [i - (n - 1)..<n] c) = unat c + (\<Sum>k = i - (n - 1)..<n. x (i - k) * x k)"
  proof (rule accumulate [OF _ b])
    fix k assume k: "i - (n - 1) \<le> k" "k < n"
    have e: "unat (ds ! (n + (i - k))) = x (i - k)" "unat (ds ! (n + k)) = x k" using p(1) [rule_format, of "i - k"] p(1) [rule_format, of k] k i by simp_all
    have "k < n" "i - k < n" using k i by linarith+
    then have "x (i - k) * x k \<le> 268435455 * 268435455" using x [of k] x [of "i - k"] by (intro mult_le_mono) simp_all
    then show "unat (?p k) = x (i - k) * x k" by (subst unat_mult_64) (simp_all add: e)
  qed
  then show ?thesis
    using squaring_step [OF s [unfolded sc] i(2,3) x] column_high [OF i(1), of x] by (simp add: square_high_def sc Let_def)
qed

lemma fold_copy:
  "2 * n \<le> length ds \<Longrightarrow> m \<le> n \<Longrightarrow>
   fold (\<lambda>i ds. ds[n + i := ds ! i]) [0..<m] ds = take n ds @ take m ds @ drop (n + m) ds"
proof (induction m)
  case (Suc m)
  let ?ds = "take n ds @ take m ds @ drop (n + m) ds"
  have d: "drop (n + m) ds = ds ! (n + m) # drop (Suc (n + m)) ds" using Suc.prems by (simp add: Cons_nth_drop_Suc)
  have "?ds ! m = ds ! m" using Suc.prems by (simp add: nth_append)
  moreover have "?ds[n + m := ds ! m] = take n ds @ (take m ds @ drop (n + m) ds)[m := ds ! m]"
    using Suc.prems by (simp add: list_update_append)
  moreover have "(take m ds @ drop (n + m) ds)[m := ds ! m] = take m ds @ ds ! m # drop (Suc (n + m)) ds"
    using Suc.prems d by (simp add: list_update_append)
  moreover have "take (Suc m) ds = take m ds @ [ds ! m]" using Suc.prems by (intro take_Suc_conv_app_nth) simp
  ultimately show ?case using Suc.IH Suc.prems by simp
qed simp

lemma squaring_start:
  assumes b: "digits_below n ds" and n: "n \<le> 64"
  shows "squaring n (\<lambda>i. unat (ds ! i)) 0 (fold (\<lambda>i ds. ds[n + i := ds ! i]) [0..<n] ds, 0)"
proof -
  let ?es = "take n ds @ take n ds @ drop (n + n) ds"
  have len: "length ds = 128" using b by (simp add: digits_below_def)
  have es: "fold (\<lambda>i ds. ds[n + i := ds ! i]) [0..<n] ds = ?es" using len n by (intro fold_copy) simp_all
  have "set ?es \<subseteq> set ds" using set_take_subset [of n ds] set_drop_subset [of "n + n" ds] by auto
  then have "digits_below (2 * n) ?es" using b n by (auto simp: digits_below_def small_digits_def nth_append)
  moreover have "?es ! (n + k) = ds ! k" if "k < n" for k using that len n by (simp add: nth_append)
  ultimately show ?thesis unfolding es by (simp add: squaring_def)
qed

lemma square_digits:
  assumes b: "digits_below n ds" and n: "n \<le> 64" "n \<noteq> 0"
  shows "case fold (square_high n) [n..<2 * n] (fold (square_low n) [0..<n] (fold (\<lambda>i ds. ds[n + i := ds ! i]) [0..<n] ds, 0)) of (es, c) \<Rightarrow>
    digits_below (2 * n) es \<and> c = 0 \<and> digits_value es = digits_value ds * digits_value ds"
proof -
  define y where "y i = (if i < n then unat (ds ! i) else 0)" for i
  let ?x = "\<lambda>i. unat (ds ! i)" and ?s = "(fold (\<lambda>i ds. ds[n + i := ds ! i]) [0..<n] ds, 0)"
  have x: "?x i < digit_base" if "i < n" for i using that n digits_below_digit [OF b] by simp
  have "squaring n ?x n (fold (square_low n) [0..<n] ?s)"
    by (rule fold_upt_induct) (use squaring_start [OF b n(1)] square_low_ok [OF _ _ n(1) x] in simp_all)
  then have "squaring n ?x (2 * n) (fold (square_high n) [n..<2 * n] (fold (square_low n) [0..<n] ?s))"
    by (rule fold_upt_induct [rotated]) (use square_high_ok [OF _ _ _ n(1) x] in simp_all)
  moreover obtain es c where r: "fold (square_high n) [n..<2 * n] (fold (square_low n) [0..<n] ?s) = (es, c)" by fastforce
  ultimately have s: "digits_below (2 * n) es"
      "digits_value (take (2 * n) es) + unat c * digit_base ^ (2 * n) = (\<Sum>j<2 * n. column n ?x j * digit_base ^ j)"
    by (simp_all add: squaring_def)
  have dv: "digits_value ds = (\<Sum>i<n. y i * digit_base ^ i)"
  proof -
    have "digits_value ds = digits_value (take n ds)" using digits_below_value [OF b] by simp
    also have "\<dots> = (\<Sum>i<n. unat (take n ds ! i) * digit_base ^ i)"
      using b n by (simp add: digits_value_def digits_below_def)
    also have "\<dots> = (\<Sum>i<n. y i * digit_base ^ i)" by (intro sum.cong) (simp_all add: y_def)
    finally show ?thesis .
  qed
  have "column n ?x j = column n y j" for j
    unfolding column_def by (intro sum.cong refl) (use n in \<open>auto simp: y_def\<close>)
  then have sq: "digits_value (take (2 * n) es) + unat c * digit_base ^ (2 * n) = digits_value ds * digits_value ds"
    using s(2) square_columns [of n y digit_base] n by (simp add: dv y_def)
  have "digits_value ds < digit_base ^ n" using b n by (intro digits_below_less) simp_all
  then have "digits_value ds * digits_value ds < digit_base ^ n * digit_base ^ n" by (intro mult_strict_mono) simp_all
  also have "\<dots> = digit_base ^ (2 * n)" by (simp only: power_add [symmetric] mult_2)
  finally have "unat c * digit_base ^ (2 * n) < 1 * digit_base ^ (2 * n)" using sq by linarith
  then have "unat c < 1" by (simp only: mult_less_cancel2)
  then have c: "c = 0" by (simp add: unat_eq_zero)
  then show ?thesis using r s(1) sq digits_below_value [OF s(1)] by simp
qed

lemma Square_ok:
  assumes b: "bignum_ok b"
  shows "if 64 < bn_used b then Square b = Inl CapacityExceeded
    else \<exists>a. Square b = Inr a \<and> bignum_ok a \<and> bn_value a = bn_value b * bn_value b \<and> IsClamped a"
proof (cases "bn_used b \<le> 64")
  case True
  let ?n = "bn_used b"
  obtain es c where r: "fold (square_high ?n) [?n..<2 * ?n] (fold (square_low ?n) [0..<?n]
      (fold (\<lambda>i ds. ds[?n + i := ds ! i]) [0..<?n] (bn_bigits b), 0)) = (es, c)" by fastforce
  let ?a = "b\<lparr>bn_bigits := es, bn_used := 2 * ?n, bn_exponent := bn_exponent b * 2\<rparr>"
  have sq: "Square b = Inr (Clamp ?a)"
    using True r by (simp add: Square_def EnsureCapacity_def Let_def kChunkSize_def kBigitSize_def)
  have "bignum_ok ?a \<and> bn_value ?a = bn_value b * bn_value b"
  proof (cases "?n = 0")
    case n: True
    then have "es = bn_bigits b" "bn_exponent b = 0" using r bignum_okD(6) [OF b] by simp_all
    then show ?thesis using n b by (simp add: bn_value_def bignum_ok_digits)
  next
    case n: False
    have d: "digits_below ?n (bn_bigits b)" using b by (simp add: bignum_ok_digits)
    have es: "digits_below (2 * ?n) es" "digits_value es = digits_value (bn_bigits b) * digits_value (bn_bigits b)"
      using square_digits [OF d True n] r by simp_all
    have ok: "bignum_ok ?a" using es(1) True n by (simp add: bignum_ok_digits)
    have "bn_value ?a = digits_value es * digit_base ^ (bn_exponent b * 2)" using bn_value_all [OF ok] by simp
    also have "\<dots> = bn_value b * bn_value b"
      unfolding bn_value_all [OF b] es(2) mult_2_right power_add by (simp only: ac_simps)
    finally show ?thesis using ok by blast
  qed
  then show ?thesis using sq True Clamp_ok [of ?a] by simp
next
  case False
  then show ?thesis by (simp add: Square_def EnsureCapacity_def Let_def)
qed

section \<open>The power\<close>

lemma strip_shifts_zero: "strip_shifts 0 shifts = Inl EndlessLoop"
  by (subst strip_shifts.simps) simp

lemma strip_shifts_ok:
  "base \<noteq> 0 \<Longrightarrow> \<exists>odd_part n. strip_shifts base shifts = Inr (odd_part, shifts + n) \<and> unat base = unat odd_part * 2 ^ n \<and> odd_part \<noteq> 0"
proof (induction base shifts rule: strip_shifts.induct)
  case (1 base shifts)
  show ?case
  proof (cases "base AND 1 = 0")
    case True
    have "unat base AND unat (1 :: uint16) = 0" using arg_cong [OF True, of unat] by (simp only: unsigned_and_eq unsigned_0)
    then have e: "even (unat base)" by (simp add: and_one_eq even_iff_mod_2_eq_zero)
    have h: "unat (drop_bit 1 base) = unat base div 2" by (simp only: unat_drop_bit_word power_one_right)
    have "drop_bit 1 base \<noteq> 0"
    proof
      assume "drop_bit 1 base = 0"
      then have "unat base div 2 = 0" using h by simp
      then show False using e 1(2) by (auto simp: unat_eq_zero elim: evenE)
    qed
    then obtain p n where p: "strip_shifts (drop_bit 1 base) (shifts + 1) = Inr (p, shifts + 1 + n)"
        "unat (drop_bit 1 base) = unat p * 2 ^ n" "p \<noteq> 0"
      using 1(1) [OF True 1(2)] by blast
    have "unat base = unat p * 2 ^ Suc n" using e h p(2) by (auto elim!: evenE)
    then show ?thesis using True 1(2) p by (subst strip_shifts.simps) (auto intro: exI [of _ "Suc n"])
  next
    case False
    then show ?thesis using 1(2) by (subst strip_shifts.simps) (auto intro: exI [of _ 0])
  qed
qed

lemma count_bits_less: "v < 2 ^ count_bits v"
proof (induction v rule: count_bits.induct)
  case (1 v)
  then show ?case by (subst count_bits.simps) (cases "v = 0"; simp; linarith)
qed

lemma count_bits_le: "v < 2 ^ n \<Longrightarrow> count_bits v \<le> n"
proof (induction v arbitrary: n rule: count_bits.induct)
  case (1 v)
  show ?case
  proof (cases "v = 0")
    case False
    then obtain m where m: "n = Suc m" using 1(2) by (cases n) simp_all
    then have "v div 2 < 2 ^ m" using 1(2) by (simp add: less_mult_imp_div_less)
    then show ?thesis using 1(1) [OF False] False m by (subst count_bits.simps) simp
  qed (subst count_bits.simps, simp)
qed

text \<open>The mask with \<open>j\<close> bits below it to come.\<close>

definition mask_for :: "nat \<Rightarrow> nat" where "mask_for j = 2 ^ j div 2"

lemma mask_for_simps [simp]: "mask_for 0 = 0" "mask_for (Suc j) = 2 ^ j" "2 ^ j div 2 = mask_for j"
  by (simp_all add: mask_for_def)

lemma mask_above_ok:
  "2 ^ k \<le> p \<Longrightarrow> \<exists>n. 2 ^ n \<le> p \<and> p < 2 ^ Suc n \<and> mask_above p (2 ^ k) = 2 ^ Suc n"
proof (induction "p - 2 ^ k" arbitrary: k rule: less_induct)
  case less
  have step: "mask_above p (2 ^ k) = mask_above p (2 ^ Suc k)" using less.prems by (subst mask_above.simps) simp
  show ?case
  proof (cases "2 ^ Suc k \<le> p")
    case True
    have "(0 :: nat) < 2 ^ k" by simp
    then have "p - 2 ^ Suc k < p - 2 ^ k" using True unfolding power_Suc by linarith
    then show ?thesis using less.hyps [OF _ True] step by simp
  next
    case False
    then have "mask_above p (2 ^ Suc k) = 2 ^ Suc k" by (subst mask_above.simps) simp
    then show ?thesis using less.prems False step by (intro exI [of _ k]) simp
  qed
qed

lemma mask_test: "p AND 2 ^ j \<noteq> 0 \<longleftrightarrow> odd (p div 2 ^ j)" for p :: nat
  by (simp add: bit_iff_odd [symmetric] and_exp_eq_0_iff_not_bit)

lemma prefix_step: "p div 2 ^ j = 2 * (p div 2 ^ Suc j) + (if odd (p div 2 ^ j) then 1 else 0)" for p :: nat
proof -
  have "p div 2 ^ Suc j = p div 2 ^ j div 2" by (simp only: power_Suc2 div_mult2_eq)
  then show ?thesis by (simp add: div_mult_mod_eq [of _ 2, symmetric] odd_two_times_div_two_succ)
qed

lemma high_bits_zero:
  fixes v :: uint64
  assumes "n < 64"
  shows "v AND NOT (push_bit n 1 - 1) = 0 \<longleftrightarrow> unat v < 2 ^ n"
proof -
  have m: "push_bit n 1 - 1 = (mask n :: uint64)" by (simp add: mask_eq_exp_minus_1 push_bit_eq_mult)
  have "v AND NOT (mask n) = 0 \<longleftrightarrow> take_bit n v = v"
    by (auto simp: bit_eq_iff bit_simps)
  also have "\<dots> \<longleftrightarrow> unat (take_bit n v) = unat v" by (rule word_unat_eq_iff)
  also have "\<dots> \<longleftrightarrow> unat v < 2 ^ n"
    unfolding unsigned_take_bit_eq by (simp add: take_bit_nat_eq_self_iff)
  finally show ?thesis unfolding m .
qed

lemma unat_ucast_base [simp]: "unat (ucast (base :: uint16) :: uint64) = unat base" "unat (ucast base :: uint32) = unat base"
  using unat_below [of base] by (simp_all add: unsigned_ucast_eq take_bit_nat_eq_self_iff)

text \<open>Before each turn the value is the power of the bits of the exponent above the mask.\<close>

lemma power_loop_ok:
  assumes B: "unat base < 2 ^ s" "0 < s" "s \<le> 16"
  shows "unat v = unat base ^ (p div 2 ^ j) \<Longrightarrow>
    \<exists>v' d' j'. power_loop base s p (mask_for j) v False = (v', d', mask_for j') \<and> j' \<le> j \<and>
      unat v' * (if d' then unat base else 1) = unat base ^ (p div 2 ^ j')"
proof (induction j arbitrary: v)
  case 0
  have "power_loop base s p (mask_for 0) v False = (v, False, mask_for 0)" by (subst power_loop.simps) simp
  then show ?case using 0 by (intro exI [of _ v] exI [of _ False] exI [of _ 0]) simp
next
  case (Suc j)
  show ?case
  proof (cases "v \<le> 0xFFFFFFFF")
    case False
    then have "power_loop base s p (mask_for (Suc j)) v False = (v, False, mask_for (Suc j))" by (subst power_loop.simps) simp
    then show ?thesis using Suc.prems by (intro exI [of _ v] exI [of _ False] exI [of _ "Suc j"]) simp
  next
    case True
    let ?B = "unat base" and ?q = "p div 2 ^ Suc j"
    have v: "unat v \<le> 4294967295" using True by (simp add: word_le_nat_alt)
    have "unat v * unat v \<le> 4294967295 * 4294967295" by (rule product_bound [OF v v])
    then have sq: "unat (v * v) = unat v * unat v" by (intro unat_mult_64) simp
    have pw: "unat (v * v) = ?B ^ (2 * ?q)" unfolding sq Suc.prems power_add [symmetric] mult_2 ..
    show ?thesis
    proof (cases "p AND 2 ^ j \<noteq> 0")
      case False
      then have "\<not> odd (p div 2 ^ j)" using mask_test by blast
      then have "p div 2 ^ j = 2 * ?q" using prefix_step [of p j] by presburger
      then have "unat (v * v) = ?B ^ (p div 2 ^ j)" using pw by simp
      moreover have "power_loop base s p (mask_for (Suc j)) v False = power_loop base s p (mask_for j) (v * v) False"
        using False True by (subst power_loop.simps) simp
      ultimately show ?thesis using Suc.IH le_SucI by metis
    next
      case bit: True
      then have "odd (p div 2 ^ j)" using mask_test by blast
      then have odd: "p div 2 ^ j = Suc (2 * ?q)" using prefix_step [of p j] by presburger
      have hb: "v * v AND NOT (push_bit (64 - s) 1 - 1) = 0 \<longleftrightarrow> unat (v * v) < 2 ^ (64 - s)" using B by (intro high_bits_zero) simp
      show ?thesis
      proof (cases "unat (v * v) < 2 ^ (64 - s)")
        case small: True
        have "unat (v * v) * unat (ucast base :: uint64) < 2 ^ (64 - s) * 2 ^ s"
          using small B(1) by (intro mult_strict_mono) simp_all
        also have "\<dots> = 2 ^ 64" using B(3) by (simp flip: power_add)
        finally have "unat (v * v * ucast base) = unat (v * v) * unat (ucast base :: uint64)" by (rule unat_mult_64)
        then have "unat (v * v * ucast base) = ?B ^ (p div 2 ^ j)" unfolding pw odd by simp
        moreover have "power_loop base s p (mask_for (Suc j)) v False = power_loop base s p (mask_for j) (v * v * ucast base) False"
          using bit True small hb by (subst power_loop.simps) (simp add: Let_def)
        ultimately show ?thesis using Suc.IH le_SucI by metis
      next
        case big: False
        have "(2 :: nat) ^ 48 \<le> 2 ^ (64 - s)" using B by (intro power_increasing) simp_all
        then have "(2 :: nat) ^ 48 \<le> unat (v * v)" using big by linarith
        then have "\<not> v * v \<le> 0xFFFFFFFF" by (simp add: word_le_nat_alt)
        then have "power_loop base s p (mask_for j) (v * v) True = (v * v, True, mask_for j)"
          by (subst power_loop.simps) simp
        moreover have "unat (v * v) * ?B = ?B ^ (p div 2 ^ j)" unfolding pw odd by simp
        moreover have "power_loop base s p (mask_for (Suc j)) v False = power_loop base s p (mask_for j) (v * v) True"
          using bit True big hb by (subst power_loop.simps) (simp add: Let_def)
        ultimately show ?thesis by (intro exI [of _ "v * v"] exI [of _ True] exI [of _ j]) simp
      qed
    qed
  qed
qed

lemma digit_base_power: "digit_base ^ n = 2 ^ (28 * n)"
  by (simp add: power_mult)

lemma digits_le_value: "bignum_ok b \<Longrightarrow> digits_value (bn_bigits b) \<le> bn_value b"
  by (simp add: bn_value_all)

lemma bn_used_bound:
  assumes b: "bignum_ok b" "IsClamped b" and v: "bn_value b \<le> 2 ^ m"
  shows "28 * (bn_used b - 1) \<le> m"
proof (cases "bn_used b = 0")
  case False
  have "digit_base ^ (bn_used b - 1) \<le> digits_value (take (bn_used b) (bn_bigits b))" by (rule IsClamped_pos [OF b False])
  also have "\<dots> \<le> bn_value b" by (simp add: bn_value_def)
  finally have "(2 :: nat) ^ (28 * (bn_used b - 1)) \<le> 2 ^ m" using v unfolding digit_base_power by (rule order_trans)
  then show ?thesis by (rule power_le_imp_le_exp [rotated]) simp
qed simp

lemma power_bound:
  fixes B :: nat
  assumes "B \<le> 2 ^ s" "q \<le> p"
  shows "B ^ q \<le> 2 ^ (s * p)"
proof -
  have "B ^ q \<le> (2 ^ s) ^ q" using assms(1) by (intro power_mono) simp_all
  also have "\<dots> = 2 ^ (s * q)" by (simp only: power_mult)
  also have "(2 :: nat) ^ (s * q) \<le> 2 ^ (s * p)" using assms(2) by (intro power_increasing mult_le_mono2) simp_all
  finally show ?thesis .
qed

lemma multiply_fits:
  assumes b: "bignum_ok b" "IsClamped b" and f: "unat f \<noteq> 0" "unat f * bn_value b \<le> 2 ^ m" "m < 28 * 128"
  shows "\<exists>a. MultiplyByUInt32 f b = Inr a \<and> bignum_ok a \<and> IsClamped a \<and> bn_value a = unat f * bn_value b"
proof -
  have "\<not> digit_base ^ 128 \<le> unat f * digits_value (bn_bigits b)"
  proof
    assume "digit_base ^ 128 \<le> unat f * digits_value (bn_bigits b)"
    also have "\<dots> \<le> unat f * bn_value b" by (intro mult_le_mono2 digits_le_value b)
    also have "\<dots> \<le> 2 ^ m" by (rule f(2))
    finally have "(2 :: nat) ^ (28 * 128) \<le> 2 ^ m" unfolding digit_base_power .
    then have "28 * 128 \<le> m" by (rule power_le_imp_le_exp [rotated]) simp
    then show False using f(3) by simp
  qed
  then show ?thesis using MultiplyByUInt32_ok [OF b(1), of f] b(2) unfolding is_multiple_def by blast
qed

lemma square_loop_ok:
  assumes B: "unat f \<noteq> 0" "unat f \<le> 2 ^ s" and p: "s * p < 28 * 127"
  shows "bignum_ok b \<Longrightarrow> IsClamped b \<Longrightarrow> bn_value b = unat f ^ (p div 2 ^ j) \<Longrightarrow>
    \<exists>a. square_loop f p (mask_for j) b = Inr a \<and> bignum_ok a \<and> IsClamped a \<and> bn_value a = unat f ^ p"
proof (induction j arbitrary: b)
  case 0
  have "square_loop f p (mask_for 0) b = Inr b" by (subst square_loop.simps) simp
  then show ?case using 0 by simp
next
  case (Suc j)
  let ?q = "p div 2 ^ Suc j" and ?m = "\<lambda>b. if p AND 2 ^ j \<noteq> 0 then MultiplyByUInt32 f b else Inr b"
  have "2 * ?q \<le> p" using prefix_step [of p j] div_le_dividend [of p "2 ^ j"] by linarith
  then have "s * (2 * ?q) \<le> s * p" by (rule mult_le_mono2)
  then have sq: "2 * (s * ?q) < 28 * 127" using p by linarith
  have "bn_value b \<le> 2 ^ (s * ?q)" unfolding Suc.prems(3) by (rule power_bound [OF B(2) order_refl])
  then have "28 * (bn_used b - 1) \<le> s * ?q" by (rule bn_used_bound [OF Suc.prems(1,2)])
  then have "bn_used b \<le> 64" using sq by linarith
  then obtain c where c: "Square b = Inr c" "bignum_ok c" "bn_value c = bn_value b * bn_value b" "IsClamped c"
    using Square_ok [OF Suc.prems(1)] by auto
  have pw: "bn_value c = unat f ^ (2 * ?q)" unfolding c(3) Suc.prems(3) power_add [symmetric] mult_2 ..
  have "\<exists>d. ?m c = Inr d \<and> bignum_ok d \<and> IsClamped d \<and> bn_value d = unat f ^ (p div 2 ^ j)"
  proof (cases "p AND 2 ^ j \<noteq> 0")
    case True
    then have "odd (p div 2 ^ j)" using mask_test by blast
    then have odd: "p div 2 ^ j = Suc (2 * ?q)" using prefix_step [of p j] by presburger
    have v: "unat f * bn_value c = unat f ^ (p div 2 ^ j)" unfolding pw odd by (simp only: power_Suc)
    have "unat f ^ (p div 2 ^ j) \<le> 2 ^ (s * p)" by (rule power_bound [OF B(2) div_le_dividend])
    then obtain d where "MultiplyByUInt32 f c = Inr d" "bignum_ok d" "IsClamped d" "bn_value d = unat f ^ (p div 2 ^ j)"
      using multiply_fits [OF c(2,4) B(1), of "s * p"] p unfolding v by auto
    then show ?thesis using True by simp
  next
    case False
    then have "\<not> odd (p div 2 ^ j)" using mask_test by blast
    then have "p div 2 ^ j = 2 * ?q" using prefix_step [of p j] by presburger
    then have "bn_value c = unat f ^ (p div 2 ^ j)" using pw by (simp only:)
    then show ?thesis using False c(2,4) by simp
  qed
  then obtain d where d: "?m c = Inr d" "bignum_ok d" "IsClamped d" "bn_value d = unat f ^ (p div 2 ^ j)" by blast
  have "square_loop f p (mask_for (Suc j)) b = square_loop f p (mask_for j) d"
    using c(1) d(1) by (subst square_loop.simps) simp
  then show ?case using Suc.IH [OF d(2-4)] by simp
qed

lemma AssignPowerUInt16_zero_base: "p \<noteq> 0 \<Longrightarrow> AssignPowerUInt16 0 p b = Inl EndlessLoop"
  by (simp add: AssignPowerUInt16_def strip_shifts_zero Let_def)

lemma AssignPowerUInt16_ok:
  assumes b: "bignum_ok b" and base: "strip_shifts base 0 = Inr (odd_part, n)" and p: "p \<noteq> 0"
  shows "if kBigitCapacity < count_bits (unat odd_part) * p div 28 + 2 then AssignPowerUInt16 base p b = Inl CapacityExceeded
    else \<exists>a. AssignPowerUInt16 base p b = Inr a \<and> bignum_ok a \<and> IsClamped a \<and> bn_value a = unat base ^ p"
proof -
  have "base \<noteq> 0" using base strip_shifts_zero by auto
  then have o: "unat base = unat odd_part * 2 ^ n" "odd_part \<noteq> 0" using strip_shifts_ok [of base 0] base by auto
  let ?o = "unat odd_part" and ?s = "count_bits (unat odd_part)"
  have o0: "?o \<noteq> 0" using o(2) by (simp add: unat_eq_zero)
  have B: "?o < 2 ^ ?s" by (rule count_bits_less)
  have s: "0 < ?s" using o0 B by (cases ?s) simp_all
  have "?s \<le> 16" using unat_below [of odd_part] by (intro count_bits_le) simp
  obtain k where k: "2 ^ k \<le> p" "p < 2 ^ Suc k" "mask_above p 1 = 2 ^ Suc k" using mask_above_ok [of 0 p] p by auto
  have "(2 :: nat) ^ Suc k div 4 = mask_for k" by (cases k) (simp_all add: mask_for_def)
  then have m: "mask_above p 1 div 4 = mask_for k" by (simp only: k(3))
  have "p div 2 ^ k = 1" using k(1,2) by (simp add: div_nat_eqI)
  then have start: "unat (ucast odd_part :: uint64) = ?o ^ (p div 2 ^ k)" by simp
  obtain v d j where r: "power_loop odd_part ?s p (mask_for k) (ucast odd_part) False = (v, d, mask_for j)"
      "unat v * (if d then ?o else 1) = ?o ^ (p div 2 ^ j)"
    using power_loop_ok [OF B s \<open>?s \<le> 16\<close> start] by blast
  let ?m = "\<lambda>b. if d then MultiplyByUInt32 (ucast odd_part) b else Inr b"
  have run: "AssignPowerUInt16 base p b = EnsureCapacity (?s * p div 28 + 2)
      (bn_then (AssignUInt64 v (Zero b)) (\<lambda>b. bn_then (?m b) (\<lambda>b.
         bn_then (square_loop (ucast odd_part) p (mask_for j) b) (ShiftLeft (n * p)))))"
    using p base r(1) m by (simp add: AssignPowerUInt16_def Let_def kBigitSize_def)
  show ?thesis
  proof (cases "kBigitCapacity < ?s * p div 28 + 2")
    case True
    then show ?thesis unfolding run by (simp add: EnsureCapacity_def)
  next
    case False
    then have sp: "?s * p < 28 * 127" by simp
    obtain c where c: "AssignUInt64 v (Zero b) = Inr c" "bignum_ok c" "bn_value c = unat v" "IsClamped c"
      using AssignUInt64_ok [OF Zero_ok(1) [OF b]] by blast
    have lim: "?o ^ (p div 2 ^ j) \<le> 2 ^ (?s * p)" using B by (intro power_bound) simp_all
    have "\<exists>e. ?m c = Inr e \<and> bignum_ok e \<and> IsClamped e \<and> bn_value e = ?o ^ (p div 2 ^ j)"
    proof (cases d)
      case True
      then have "unat (ucast odd_part :: uint32) * bn_value c = ?o ^ (p div 2 ^ j)" using r(2) c(3) by (simp add: mult.commute)
      then show ?thesis using multiply_fits [OF c(2,4), of "ucast odd_part" "?s * p"] o0 lim sp True by simp
    next
      case False
      then show ?thesis using c r(2) by simp
    qed
    then obtain e where e: "?m c = Inr e" "bignum_ok e" "IsClamped e" "bn_value e = ?o ^ (p div 2 ^ j)" by blast
    obtain f where f: "square_loop (ucast odd_part) p (mask_for j) e = Inr f" "bignum_ok f" "IsClamped f" "bn_value f = ?o ^ p"
      using square_loop_ok [of "ucast odd_part" ?s p e j] o0 B sp e by auto
    have "bn_value f \<le> 2 ^ (?s * p)" using B unfolding f(4) by (intro power_bound) simp_all
    then have "28 * (bn_used f - 1) \<le> ?s * p" by (rule bn_used_bound [OF f(2,3)])
    then have "bn_used f \<noteq> 128" using sp by linarith
    then obtain a where a: "ShiftLeft (n * p) f = Inr a" "bignum_ok a" "bn_value a = 2 ^ (n * p) * bn_value f" "IsClamped a"
      using ShiftLeft_ok [OF f(2), of "n * p"] f(3) by blast
    have "bn_value a = unat base ^ p" unfolding a(3) f(4) o(1) by (simp only: power_mult_distrib power_mult mult.commute)
    moreover have "AssignPowerUInt16 base p b = Inr a"
      unfolding run using False c(1) e(1) f(1) a(1) by (simp add: EnsureCapacity_def)
    ultimately show ?thesis using False a by simp
  qed
qed

end
