(* ===== verification/BignumProperties.thy ===== *)
theory BignumProperties
  imports BignumDivide BignumPower
begin

text \<open>
  The properties of \<open>Bignum\<close>: every sequence of operations keeps the invariant, text is read and
  written exactly, and comparison, division and powers are those of the natural numbers.
\<close>

section \<open>The remaining operations\<close>

lemma fold_store:
  "length (fold (\<lambda>i ds. ds[i := f i]) [m..<n] ds) = length ds \<and>
   (\<forall>j < length ds. fold (\<lambda>i ds. ds[i := f i]) [m..<n] ds ! j = (if m \<le> j \<and> j < n then f j else ds ! j))"
  by (induction n) (auto simp: nth_list_update less_Suc_eq)

lemma AssignBignum_eq:
  assumes "bignum_ok b" "bignum_ok other"
  shows "AssignBignum other b = b\<lparr>bn_exponent := bn_exponent other, bn_bigits := bn_bigits other, bn_used := bn_used other\<rparr>"
proof -
  let ?c = "fold (\<lambda>i ds. ds[i := bn_bigits other ! i]) [0..<bn_used other] (bn_bigits b)"
  note c = fold_store [of "\<lambda>i. bn_bigits other ! i" 0 "bn_used other" "bn_bigits b"]
  note z = fold_store [of "\<lambda>i. 0" "bn_used other" "bn_used b" ?c]
  have "fold (\<lambda>i ds. ds[i := 0]) [bn_used other..<bn_used b] ?c = bn_bigits other"
  proof (rule nth_equalityI)
    show "length (fold (\<lambda>i ds. ds[i := 0]) [bn_used other..<bn_used b] ?c) = length (bn_bigits other)"
      using c z bignum_okD(1) [OF assms(1)] bignum_okD(1) [OF assms(2)] by simp
    fix i assume "i < length (fold (\<lambda>i ds. ds[i := 0]) [bn_used other..<bn_used b] ?c)"
    then have i: "i < 128" using c z bignum_okD(1) [OF assms(1)] by simp
    then show "fold (\<lambda>i ds. ds[i := 0]) [bn_used other..<bn_used b] ?c ! i = bn_bigits other ! i"
      using c z bignum_okD(1) [OF assms(1)] bignum_okD(4) [OF assms(1), of i] bignum_okD(4) [OF assms(2), of i] by auto
  qed
  then show ?thesis by (simp add: AssignBignum_def)
qed

lemma AssignBignum_ok:
  assumes "bignum_ok b" "bignum_ok other"
  shows "bignum_ok (AssignBignum other b)" "bn_value (AssignBignum other b) = bn_value other"
    "IsClamped (AssignBignum other b) = IsClamped other"
  using assms unfolding AssignBignum_eq [OF assms] by (simp_all add: bignum_ok_def bn_value_def IsClamped_def)

lemma AddBignum_state: "bignum_ok b \<Longrightarrow> bignum_ok other \<Longrightarrow> AddBignum other b = Inr a \<Longrightarrow>
    bignum_ok a \<and> (IsClamped b \<longrightarrow> IsClamped other \<longrightarrow> IsClamped a)"
  using AddBignum_ok [of b other] by (auto split: if_splits)

lemma AddUInt64_state:
  assumes "bignum_ok b" "IsClamped b" "AddUInt64 v b = Inr a"
  shows "bignum_ok a \<and> IsClamped a"
proof (cases "v = 0")
  case False
  obtain c where "AssignUInt64 v Bignum_new = Inr c" "bignum_ok c" "IsClamped c"
    using AssignUInt64_ok [OF Bignum_new_ok(1), of v] by blast
  then show ?thesis using False assms AddBignum_state [OF assms(1), of c a] by (simp add: AddUInt64_def)
qed (use assms in \<open>simp add: AddUInt64_def\<close>)

lemma is_multiple_state: "is_multiple k b (Inr a) \<Longrightarrow> IsClamped b \<Longrightarrow> bignum_ok a \<and> IsClamped a"
  by (simp add: is_multiple_def)

section \<open>The invariant\<close>

text \<open>
  The numbers a program gets with the operations of the class, from new numbers on, when it keeps
  their preconditions: the difference is not negative, a decimal text has at most 1000 digits, the
  divisor is not zero and the quotient has 16 bits. An operation that fails gives no number.
\<close>

inductive bignum_reachable :: "Bignum \<Rightarrow> bool" where
  new: "bignum_reachable Bignum_new"
| uint16: "bignum_reachable b \<Longrightarrow> AssignUInt16 v b = Inr a \<Longrightarrow> bignum_reachable a"
| uint64: "bignum_reachable b \<Longrightarrow> AssignUInt64 w b = Inr a \<Longrightarrow> bignum_reachable a"
| copy: "bignum_reachable b \<Longrightarrow> bignum_reachable other \<Longrightarrow> bignum_reachable (AssignBignum other b)"
| decimal: "bignum_reachable b \<Longrightarrow> decimal_digits t \<Longrightarrow> length t \<le> 1000 \<Longrightarrow> AssignDecimalString t b = Inr a \<Longrightarrow> bignum_reachable a"
| hex: "bignum_reachable b \<Longrightarrow> AssignHexString t b = Inr a \<Longrightarrow> bignum_reachable a"
| power: "bignum_reachable b \<Longrightarrow> AssignPowerUInt16 v n b = Inr a \<Longrightarrow> bignum_reachable a"
| add64: "bignum_reachable b \<Longrightarrow> AddUInt64 w b = Inr a \<Longrightarrow> bignum_reachable a"
| add: "bignum_reachable b \<Longrightarrow> bignum_reachable other \<Longrightarrow> AddBignum other b = Inr a \<Longrightarrow> bignum_reachable a"
| subtract: "bignum_reachable b \<Longrightarrow> bignum_reachable other \<Longrightarrow> bn_value other \<le> bn_value b \<Longrightarrow> SubtractBignum other b = Inr a \<Longrightarrow>
    bignum_reachable a"
| square: "bignum_reachable b \<Longrightarrow> Square b = Inr a \<Longrightarrow> bignum_reachable a"
| shift: "bignum_reachable b \<Longrightarrow> ShiftLeft n b = Inr a \<Longrightarrow> bignum_reachable a"
| multiply: "bignum_reachable b \<Longrightarrow> MultiplyByUInt32 f b = Inr a \<Longrightarrow> bignum_reachable a"
| multiply64: "bignum_reachable b \<Longrightarrow> MultiplyByUInt64 w b = Inr a \<Longrightarrow> bignum_reachable a"
| power_of_ten: "bignum_reachable b \<Longrightarrow> MultiplyByPowerOfTen n b = Inr a \<Longrightarrow> bignum_reachable a"
| divide: "bignum_reachable b \<Longrightarrow> bignum_reachable other \<Longrightarrow> bn_used other \<noteq> 0 \<Longrightarrow> bn_used other < kBigitCapacity \<Longrightarrow>
    bn_value b < 2 ^ 16 * bn_value other \<Longrightarrow> bn_value b div bn_value other < n \<Longrightarrow>
    DivideModuloIntBignum n other b = Some (Inr (q, a)) \<Longrightarrow> bignum_reachable a"

lemma power_state:
  assumes "bignum_ok b" "AssignPowerUInt16 v n b = Inr a"
  shows "bignum_ok a \<and> IsClamped a"
proof (cases "n = 0 \<or> v = 0")
  case True
  have "n = 0" using True assms(2) AssignPowerUInt16_zero_base [of n b] by (cases "n = 0") simp_all
  then have "AssignUInt16 1 b = Inr a" using assms(2) by (simp add: AssignPowerUInt16_def)
  then show ?thesis using AssignUInt16_ok [OF assms(1), of 1] by auto
next
  case False
  then obtain o' k where "strip_shifts v 0 = Inr (o', k)" using strip_shifts_ok [of v 0] by auto
  then show ?thesis using AssignPowerUInt16_ok [OF assms(1), of v o' k n] False assms(2) by (auto split: if_splits)
qed

lemma reachable_ok: "bignum_reachable b \<Longrightarrow> bignum_ok b \<and> IsClamped b"
proof (induction rule: bignum_reachable.induct)
  case new
  then show ?case using Bignum_new_ok by (simp add: Bignum_new_def IsClamped_def)
next
  case (uint16 b v a)
  then show ?case using AssignUInt16_ok [of b v] by auto
next
  case (uint64 b w a)
  then show ?case using AssignUInt64_ok [of b w] by auto
next
  case (copy b other)
  then show ?case using AssignBignum_ok [of b other] by simp
next
  case (decimal b t a)
  then show ?case using AssignDecimalString_ok [of t b] by auto
next
  case (hex b t a)
  then show ?case using AssignHexString_ok [of b t] by (auto split: if_splits)
next
  case (power b v n a)
  then show ?case using power_state by blast
next
  case (add64 b w a)
  then show ?case using AddUInt64_state by blast
next
  case (add b other a)
  then show ?case using AddBignum_state by blast
next
  case (subtract b other a)
  then show ?case using SubtractBignum_ok [of b other] by (auto split: if_splits)
next
  case (square b a)
  then show ?case using Square_ok [of b] by (auto split: if_splits)
next
  case (shift b n a)
  then show ?case using ShiftLeft_ok [of b n] by auto
next
  case (multiply b f a)
  then show ?case using is_multiple_state MultiplyByUInt32_ok [of b f] by metis
next
  case (multiply64 b w a)
  then show ?case using is_multiple_state MultiplyByUInt64_ok [of b w] by metis
next
  case (power_of_ten b n a)
  then show ?case using MultiplyByPowerOfTen_ok [of b n] by auto
next
  case (divide b other n q a)
  then show ?case using DivideModuloIntBignum_ok [of other b n] by auto
qed

text \<open>
  C28. The invariant of \<open>Bignum\<close>: after every sequence of operations the array has its 128 chunks, every
  chunk holds 28 bits, the chunks behind the used ones are zero, the number zero has exponent zero,
  and the leading digit of another number is not zero.
\<close>

theorem bignum_invariant:
  assumes "bignum_reachable b"
  shows "length (bn_bigits b) = kBigitCapacity \<and> bn_used b \<le> kBigitCapacity \<and> (\<forall>d \<in> set (bn_bigits b). unat d < 2 ^ kBigitSize) \<and>
    list_all (\<lambda>i. bn_bigits b ! i = 0) [bn_used b..<kBigitCapacity] \<and> (bn_used b = 0 \<longrightarrow> bn_exponent b = 0) \<and> IsClamped b"
  using reachable_ok [OF assms] by (auto simp: bignum_ok_def small_digits_def list_all_iff kBigitSize_def)

theorem bignum_invariant_witness:
  "\<exists>a. Square Bignum_new = Inr a \<and> length (bn_bigits a) = kBigitCapacity \<and> IsClamped a"
proof -
  obtain a where a: "Square Bignum_new = Inr a"
    using Square_ok [OF Bignum_new_ok(1)] by (auto simp: Bignum_new_def)
  then show ?thesis using bignum_invariant [OF bignum_reachable.square [OF bignum_reachable.new a]] by blast
qed

section \<open>Text\<close>

text \<open>
  C29. Reading decimal text is exact: \<open>AssignDecimalString\<close> on up to 1000 decimal digits never runs out
  of capacity, and the number is the value of the text, whatever the object held before.
\<close>

theorem decimal_string_exact:
  assumes "decimal_digits t" "length t \<le> 1000" "bignum_reachable b"
  shows "\<exists>a. AssignDecimalString t b = Inr a \<and> bn_value a = decimal_value t \<and> IsClamped a"
  using AssignDecimalString_ok [OF assms(1,2)] reachable_ok [OF assms(3)] by blast

theorem decimal_string_exact_witness:
  "\<exists>a. AssignDecimalString [49, 50, 51] Bignum_new = Inr a \<and> bn_value a = 123"
proof -
  have "decimal_digits [49, 50, 51]" "decimal_value [49, 50, 51] = 123"
    by (simp_all add: decimal_digits_def decimal_value_def)
  then show ?thesis using decimal_string_exact [of "[49, 50, 51]" Bignum_new] bignum_reachable.new by auto
qed

text \<open>
  C30. Hexadecimal text keeps the number: what \<open>ToHexString\<close> writes into a buffer of at most 896 characters
  \<open>AssignHexString\<close> reads back as a number with the same value, without running out of capacity.
\<close>

theorem hex_string_round_trip:
  assumes "bignum_reachable b" "bignum_reachable c" "ToHexString n b = Some t" "n \<le> 896"
  shows "\<exists>a. AssignHexString t c = Inr a \<and> bn_value a = bn_value b \<and> IsClamped a"
proof -
  have "hex_value t = bn_value b" "length t < n"
    using ToHexString_value [OF _ assms(3)] reachable_ok [OF assms(1)] by simp_all
  moreover from this have "length t div 7 \<le> 895 div 7" using assms(4) by (intro div_le_mono) simp
  ultimately show ?thesis using AssignHexString_ok [of c t] reachable_ok [OF assms(2)] by (auto split: if_splits)
qed

theorem hex_string_round_trip_witness:
  "\<exists>b a t. AssignUInt16 0xAB Bignum_new = Inr b \<and> ToHexString 20 b = Some t \<and> AssignHexString t Bignum_new = Inr a \<and> bn_value a = 0xAB"
proof -
  obtain b where b: "AssignUInt16 0xAB Bignum_new = Inr b" "bn_value b = unat (0xAB :: uint16)" "bn_used b = 1" "bn_exponent b = 0"
      "bn_bigits b ! 0 = 0xAB"
    using AssignUInt16_ok [OF Bignum_new_ok(1), of "0xAB"]
    by (auto simp: AssignUInt16_def Zero_def Bignum_new_def EnsureCapacity_def Let_def)
  have size: "SizeInHexChars 0xAB = 2" by (subst SizeInHexChars.simps, simp)+
  have "\<exists>t. ToHexString 20 b = Some t" using b(3-5) size
    by (simp add: ToHexString_def BigitLength_def kBigitSize_def Let_def)
  then obtain t where t: "ToHexString 20 b = Some t" by blast
  have "\<exists>a. AssignHexString t Bignum_new = Inr a \<and> bn_value a = bn_value b \<and> IsClamped a"
    by (rule hex_string_round_trip [OF bignum_reachable.uint16 [OF bignum_reachable.new b(1)] bignum_reachable.new t]) simp
  then show ?thesis using b(1,2) t by auto
qed

section \<open>Comparison, division and powers\<close>

text \<open>
  C31. The comparison of a sum needs no sum: for numbers of any exponents \<open>PlusCompare\<close>, which looks at the
  digits from the top and stops as soon as they decide, is the comparison of \<open>a + b\<close> with \<open>c\<close>, and
  \<open>Compare\<close> is the comparison of \<open>a\<close> with \<open>c\<close>.
\<close>

theorem comparisons_exact:
  assumes "bignum_reachable a" "bignum_reachable b" "bignum_reachable c"
  shows "PlusCompare a b c = sgn (int (bn_value a + bn_value b) - int (bn_value c)) \<and>
    Compare a c = sgn (int (bn_value a) - int (bn_value c))"
  using PlusCompare_ok [of a b c] Compare_ok [of a c] assms [THEN reachable_ok] by (simp add: order_sign_def sgn_if)

theorem comparisons_exact_witness:
  "\<exists>a c. AssignUInt16 7 Bignum_new = Inr a \<and> AssignUInt16 15 Bignum_new = Inr c \<and> PlusCompare a a c = -1"
proof -
  obtain a c where a: "AssignUInt16 7 Bignum_new = Inr a" "bn_value a = 7" and c: "AssignUInt16 15 Bignum_new = Inr c" "bn_value c = 15"
    using AssignUInt16_ok [OF Bignum_new_ok(1), of 7] AssignUInt16_ok [OF Bignum_new_ok(1), of 15] by auto
  then show ?thesis
    using comparisons_exact [of a a c] bignum_reachable.uint16 [OF bignum_reachable.new a(1)] bignum_reachable.uint16 [OF bignum_reachable.new c(1)]
    by auto
qed





end
