(* ===== verification/MachineBytes.thy ===== *)
theory MachineBytes
  imports V8Prelude "HOL-Library.Monad_Syntax"
begin

text \<open>
  Words in an array of bytes, with the low byte first, as on the platforms of the interpreter of regular
  expressions (src/src/interpreter-irregexp.cc) and of the preparser data (src/src/preparse-data.cc).
\<close>

section \<open>Bytes\<close>

definition bytes16 :: "uint16 \<Rightarrow> uint8 list" where
  "bytes16 w = [ucast w, ucast (drop_bit 8 w)]"

definition bytes32 :: "uint32 \<Rightarrow> uint8 list" where
  "bytes32 w = [ucast w, ucast (drop_bit 8 w), ucast (drop_bit 16 w), ucast (drop_bit 24 w)]"

definition get16 :: "uint8 list \<Rightarrow> nat \<Rightarrow> uint16" where
  "get16 bs p = ucast (bs ! p) OR push_bit 8 (ucast (bs ! (p + 1)))"

definition get32 :: "uint8 list \<Rightarrow> nat \<Rightarrow> uint32" where
  "get32 bs p = ucast (bs ! p) OR push_bit 8 (ucast (bs ! (p + 1))) OR push_bit 16 (ucast (bs ! (p + 2))) OR
     push_bit 24 (ucast (bs ! (p + 3)))"

definition put :: "nat \<Rightarrow> uint8 list \<Rightarrow> uint8 list \<Rightarrow> uint8 list" where
  "put p ws bs = take p bs @ ws @ drop (p + length ws) bs"

lemma length_bytes [simp]: "length (bytes16 w) = 2" "length (bytes32 v) = 4"
  by (simp_all add: bytes16_def bytes32_def)

lemma join_bytes:
  "ucast (ucast w :: uint8) OR push_bit 8 (ucast (ucast (drop_bit 8 w) :: uint8)) = w" (is ?half)
  "ucast (ucast v :: uint8) OR push_bit 8 (ucast (ucast (drop_bit 8 v) :: uint8)) OR push_bit 16 (ucast (ucast (drop_bit 16 v) :: uint8)) OR
     push_bit 24 (ucast (ucast (drop_bit 24 v) :: uint8)) = v" (is "?l = v")
  for w :: uint16 and v :: uint32
proof -
  show ?half by (rule bit_word_eqI) (auto simp: bit_simps)
  show "?l = v"
  proof (rule bit_word_eqI)
    fix n :: nat
    assume "n < LENGTH(32)"
    then consider "n < 8" | "8 \<le> n" "n < 16" | "16 \<le> n" "n < 24" | "24 \<le> n" "n < 32" by fastforce
    then show "bit ?l n = bit v n" by cases (simp_all add: bit_simps, linarith+)
  qed
qed

lemma get_bytes:
  "bs ! p = ucast w \<Longrightarrow> bs ! (p + 1) = ucast (drop_bit 8 w) \<Longrightarrow> get16 bs p = w"
  "bs ! p = ucast v \<Longrightarrow> bs ! (p + 1) = ucast (drop_bit 8 v) \<Longrightarrow> bs ! (p + 2) = ucast (drop_bit 16 v) \<Longrightarrow>
   bs ! (p + 3) = ucast (drop_bit 24 v) \<Longrightarrow> get32 bs p = v"
  by (simp_all only: get16_def get32_def join_bytes)

lemma length_put [simp]: "p + length ws \<le> length bs \<Longrightarrow> length (put p ws bs) = length bs"
  by (simp add: put_def)

lemma put_nth: "p + length ws \<le> length bs \<Longrightarrow>
    put p ws bs ! i = (if p \<le> i \<and> i < p + length ws then ws ! (i - p) else bs ! i)"
  by (cases "p = length bs") (auto simp: put_def nth_append not_less min_def)

lemma get16_put [simp]: "p + 2 \<le> length bs \<Longrightarrow> get16 (put p (bytes16 w) bs) p = w"
  by (rule get_bytes(1)) (simp_all add: put_nth bytes16_def)

lemma get32_put [simp]: "p + 4 \<le> length bs \<Longrightarrow> get32 (put p (bytes32 w) bs) p = w"
  by (rule get_bytes(2)) (simp_all add: put_nth bytes32_def)

lemma get_put_other:
  assumes "p + length ws \<le> length bs"
  shows "q + 2 \<le> p \<or> p + length ws \<le> q \<Longrightarrow> get16 (put p ws bs) q = get16 bs q"
    "q + 4 \<le> p \<or> p + length ws \<le> q \<Longrightarrow> get32 (put p ws bs) q = get32 bs q"
  using assms by (auto simp: get16_def get32_def put_nth)

lemma bytes_get:
  "p + 2 \<le> length bs \<Longrightarrow> bytes16 (get16 bs p) = take 2 (drop p bs)"
  "p + 4 \<le> length bs \<Longrightarrow> bytes32 (get32 bs p) = take 4 (drop p bs)"
proof -
  show "bytes16 (get16 bs p) = take 2 (drop p bs)" if "p + 2 \<le> length bs"
  proof (rule nth_equalityI)
    fix i assume "i < length (bytes16 (get16 bs p))"
    then consider "i = 0" | "i = 1" by fastforce
    then show "bytes16 (get16 bs p) ! i = take 2 (drop p bs) ! i" using that
      by cases (simp_all add: bytes16_def get16_def, (rule bit_word_eqI, auto simp: bit_simps dest: bit_imp_le_length)+)
  qed (use that in simp)
  show "bytes32 (get32 bs p) = take 4 (drop p bs)" if "p + 4 \<le> length bs"
  proof (rule nth_equalityI)
    fix i assume "i < length (bytes32 (get32 bs p))"
    then consider "i = 0" | "i = 1" | "i = 2" | "i = 3" by fastforce
    then show "bytes32 (get32 bs p) ! i = take 4 (drop p bs) ! i" using that
      by cases (simp_all add: bytes32_def get32_def, (rule bit_word_eqI, auto simp: bit_simps dest: bit_imp_le_length)+)
  qed (use that in simp)
qed

section \<open>Arrays of words as arrays of bytes\<close>

definition bytes_of_words :: "uint32 list \<Rightarrow> uint8 list" where
  "bytes_of_words ws = concat (map bytes32 ws)"

fun words_of_bytes :: "uint8 list \<Rightarrow> uint32 list" where
  "words_of_bytes (a # b # c # d # bs) = get32 [a, b, c, d] 0 # words_of_bytes bs"
| "words_of_bytes bs = []"

lemma length_bytes_of_words [simp]: "length (bytes_of_words ws) = 4 * length ws"
  by (induction ws) (simp_all add: bytes_of_words_def)

lemma bytes_of_words_simps [simp]:
  "bytes_of_words [] = []" "bytes_of_words (w # ws) = bytes32 w @ bytes_of_words ws" "bytes_of_words (ws @ vs) = bytes_of_words ws @ bytes_of_words vs"
  by (simp_all add: bytes_of_words_def)

lemma bytes_of_words_of_bytes: "length bs mod 4 = 0 \<Longrightarrow> bytes_of_words (words_of_bytes bs) = bs"
proof (induction bs rule: words_of_bytes.induct)
  case (1 a b c d bs)
  have "bytes32 (get32 [a, b, c, d] 0) = [a, b, c, d]" using bytes_get(2) [of 0 "[a, b, c, d]"] by simp
  then show ?case using 1 by simp
qed simp_all

lemma drop_bytes_of_words: "drop (4 * n) (bytes_of_words ws) = bytes_of_words (drop n ws)"
proof (induction ws arbitrary: n)
  case (Cons w ws)
  then show ?case by (cases n) simp_all
qed simp

lemma sint_of_nat: "a < 2 ^ 31 \<Longrightarrow> sint (of_nat a :: uint32) = int a"
proof -
  assume "a < 2 ^ 31"
  then have "signed_take_bit 31 (int a) = int a" by (simp add: signed_take_bit_int_eq_self_iff)
  then show ?thesis by (simp add: signed_of_nat)
qed

end
