(* ===== verification/IrregexpBytecodes.thy ===== *)
theory IrregexpBytecodes
  imports MachineBytes
begin

text \<open>
  The bytecodes of interpreted regular expressions (src/src/bytecodes-irregexp.h).
\<close>

section \<open>Bytecodes\<close>

definition BYTECODE_MASK :: uint32 where "BYTECODE_MASK = 0xff"
definition MAX_FIRST_ARG :: uint32 where "MAX_FIRST_ARG = 0x7fffff"
definition BYTECODE_SHIFT :: nat where "BYTECODE_SHIFT = 8"

definition BC_BREAK :: uint32 where "BC_BREAK = 0"
definition BC_PUSH_CP :: uint32 where "BC_PUSH_CP = 1"
definition BC_PUSH_BT :: uint32 where "BC_PUSH_BT = 2"
definition BC_PUSH_REGISTER :: uint32 where "BC_PUSH_REGISTER = 3"
definition BC_SET_REGISTER_TO_CP :: uint32 where "BC_SET_REGISTER_TO_CP = 4"
definition BC_SET_CP_TO_REGISTER :: uint32 where "BC_SET_CP_TO_REGISTER = 5"
definition BC_SET_REGISTER_TO_SP :: uint32 where "BC_SET_REGISTER_TO_SP = 6"
definition BC_SET_SP_TO_REGISTER :: uint32 where "BC_SET_SP_TO_REGISTER = 7"
definition BC_SET_REGISTER :: uint32 where "BC_SET_REGISTER = 8"
definition BC_ADVANCE_REGISTER :: uint32 where "BC_ADVANCE_REGISTER = 9"
definition BC_POP_CP :: uint32 where "BC_POP_CP = 10"
definition BC_POP_BT :: uint32 where "BC_POP_BT = 11"
definition BC_POP_REGISTER :: uint32 where "BC_POP_REGISTER = 12"
definition BC_FAIL :: uint32 where "BC_FAIL = 13"
definition BC_SUCCEED :: uint32 where "BC_SUCCEED = 14"
definition BC_ADVANCE_CP :: uint32 where "BC_ADVANCE_CP = 15"
definition BC_GOTO :: uint32 where "BC_GOTO = 16"
definition BC_LOAD_CURRENT_CHAR :: uint32 where "BC_LOAD_CURRENT_CHAR = 17"
definition BC_LOAD_CURRENT_CHAR_UNCHECKED :: uint32 where "BC_LOAD_CURRENT_CHAR_UNCHECKED = 18"
definition BC_LOAD_2_CURRENT_CHARS :: uint32 where "BC_LOAD_2_CURRENT_CHARS = 19"
definition BC_LOAD_2_CURRENT_CHARS_UNCHECKED :: uint32 where "BC_LOAD_2_CURRENT_CHARS_UNCHECKED = 20"
definition BC_LOAD_4_CURRENT_CHARS :: uint32 where "BC_LOAD_4_CURRENT_CHARS = 21"
definition BC_LOAD_4_CURRENT_CHARS_UNCHECKED :: uint32 where "BC_LOAD_4_CURRENT_CHARS_UNCHECKED = 22"
definition BC_CHECK_4_CHARS :: uint32 where "BC_CHECK_4_CHARS = 23"
definition BC_CHECK_CHAR :: uint32 where "BC_CHECK_CHAR = 24"
definition BC_CHECK_NOT_4_CHARS :: uint32 where "BC_CHECK_NOT_4_CHARS = 25"
definition BC_CHECK_NOT_CHAR :: uint32 where "BC_CHECK_NOT_CHAR = 26"
definition BC_AND_CHECK_4_CHARS :: uint32 where "BC_AND_CHECK_4_CHARS = 27"
definition BC_AND_CHECK_CHAR :: uint32 where "BC_AND_CHECK_CHAR = 28"
definition BC_AND_CHECK_NOT_4_CHARS :: uint32 where "BC_AND_CHECK_NOT_4_CHARS = 29"
definition BC_AND_CHECK_NOT_CHAR :: uint32 where "BC_AND_CHECK_NOT_CHAR = 30"
definition BC_MINUS_AND_CHECK_NOT_CHAR :: uint32 where "BC_MINUS_AND_CHECK_NOT_CHAR = 31"
definition BC_CHECK_LT :: uint32 where "BC_CHECK_LT = 32"
definition BC_CHECK_GT :: uint32 where "BC_CHECK_GT = 33"
definition BC_CHECK_NOT_BACK_REF :: uint32 where "BC_CHECK_NOT_BACK_REF = 34"
definition BC_CHECK_NOT_BACK_REF_NO_CASE :: uint32 where "BC_CHECK_NOT_BACK_REF_NO_CASE = 35"
definition BC_CHECK_NOT_REGS_EQUAL :: uint32 where "BC_CHECK_NOT_REGS_EQUAL = 36"
definition BC_LOOKUP_MAP1 :: uint32 where "BC_LOOKUP_MAP1 = 37"
definition BC_LOOKUP_MAP2 :: uint32 where "BC_LOOKUP_MAP2 = 38"
definition BC_LOOKUP_MAP8 :: uint32 where "BC_LOOKUP_MAP8 = 39"
definition BC_LOOKUP_HI_MAP8 :: uint32 where "BC_LOOKUP_HI_MAP8 = 40"
definition BC_CHECK_REGISTER_LT :: uint32 where "BC_CHECK_REGISTER_LT = 41"
definition BC_CHECK_REGISTER_GE :: uint32 where "BC_CHECK_REGISTER_GE = 42"
definition BC_CHECK_REGISTER_EQ_POS :: uint32 where "BC_CHECK_REGISTER_EQ_POS = 43"
definition BC_CHECK_AT_START :: uint32 where "BC_CHECK_AT_START = 44"
definition BC_CHECK_NOT_AT_START :: uint32 where "BC_CHECK_NOT_AT_START = 45"
definition BC_CHECK_GREEDY :: uint32 where "BC_CHECK_GREEDY = 46"
definition BC_ADVANCE_CP_AND_GOTO :: uint32 where "BC_ADVANCE_CP_AND_GOTO = 47"
definition BC_SET_CURRENT_POSITION_FROM_END :: uint32 where "BC_SET_CURRENT_POSITION_FROM_END = 48"

definition BC_BREAK_LENGTH :: int where "BC_BREAK_LENGTH = 4"
definition BC_PUSH_CP_LENGTH :: int where "BC_PUSH_CP_LENGTH = 4"
definition BC_PUSH_BT_LENGTH :: int where "BC_PUSH_BT_LENGTH = 8"
definition BC_PUSH_REGISTER_LENGTH :: int where "BC_PUSH_REGISTER_LENGTH = 4"
definition BC_SET_REGISTER_TO_CP_LENGTH :: int where "BC_SET_REGISTER_TO_CP_LENGTH = 8"
definition BC_SET_CP_TO_REGISTER_LENGTH :: int where "BC_SET_CP_TO_REGISTER_LENGTH = 4"
definition BC_SET_REGISTER_TO_SP_LENGTH :: int where "BC_SET_REGISTER_TO_SP_LENGTH = 4"
definition BC_SET_SP_TO_REGISTER_LENGTH :: int where "BC_SET_SP_TO_REGISTER_LENGTH = 4"
definition BC_SET_REGISTER_LENGTH :: int where "BC_SET_REGISTER_LENGTH = 8"
definition BC_ADVANCE_REGISTER_LENGTH :: int where "BC_ADVANCE_REGISTER_LENGTH = 8"
definition BC_POP_CP_LENGTH :: int where "BC_POP_CP_LENGTH = 4"
definition BC_POP_BT_LENGTH :: int where "BC_POP_BT_LENGTH = 4"
definition BC_POP_REGISTER_LENGTH :: int where "BC_POP_REGISTER_LENGTH = 4"
definition BC_FAIL_LENGTH :: int where "BC_FAIL_LENGTH = 4"
definition BC_SUCCEED_LENGTH :: int where "BC_SUCCEED_LENGTH = 4"
definition BC_ADVANCE_CP_LENGTH :: int where "BC_ADVANCE_CP_LENGTH = 4"
definition BC_GOTO_LENGTH :: int where "BC_GOTO_LENGTH = 8"
definition BC_LOAD_CURRENT_CHAR_LENGTH :: int where "BC_LOAD_CURRENT_CHAR_LENGTH = 8"
definition BC_LOAD_CURRENT_CHAR_UNCHECKED_LENGTH :: int where "BC_LOAD_CURRENT_CHAR_UNCHECKED_LENGTH = 4"
definition BC_LOAD_2_CURRENT_CHARS_LENGTH :: int where "BC_LOAD_2_CURRENT_CHARS_LENGTH = 8"
definition BC_LOAD_2_CURRENT_CHARS_UNCHECKED_LENGTH :: int where "BC_LOAD_2_CURRENT_CHARS_UNCHECKED_LENGTH = 4"
definition BC_LOAD_4_CURRENT_CHARS_LENGTH :: int where "BC_LOAD_4_CURRENT_CHARS_LENGTH = 8"
definition BC_LOAD_4_CURRENT_CHARS_UNCHECKED_LENGTH :: int where "BC_LOAD_4_CURRENT_CHARS_UNCHECKED_LENGTH = 4"
definition BC_CHECK_4_CHARS_LENGTH :: int where "BC_CHECK_4_CHARS_LENGTH = 12"
definition BC_CHECK_CHAR_LENGTH :: int where "BC_CHECK_CHAR_LENGTH = 8"
definition BC_CHECK_NOT_4_CHARS_LENGTH :: int where "BC_CHECK_NOT_4_CHARS_LENGTH = 12"
definition BC_CHECK_NOT_CHAR_LENGTH :: int where "BC_CHECK_NOT_CHAR_LENGTH = 8"
definition BC_AND_CHECK_4_CHARS_LENGTH :: int where "BC_AND_CHECK_4_CHARS_LENGTH = 16"
definition BC_AND_CHECK_CHAR_LENGTH :: int where "BC_AND_CHECK_CHAR_LENGTH = 12"
definition BC_AND_CHECK_NOT_4_CHARS_LENGTH :: int where "BC_AND_CHECK_NOT_4_CHARS_LENGTH = 16"
definition BC_AND_CHECK_NOT_CHAR_LENGTH :: int where "BC_AND_CHECK_NOT_CHAR_LENGTH = 12"
definition BC_MINUS_AND_CHECK_NOT_CHAR_LENGTH :: int where "BC_MINUS_AND_CHECK_NOT_CHAR_LENGTH = 12"
definition BC_CHECK_LT_LENGTH :: int where "BC_CHECK_LT_LENGTH = 8"
definition BC_CHECK_GT_LENGTH :: int where "BC_CHECK_GT_LENGTH = 8"
definition BC_CHECK_NOT_BACK_REF_LENGTH :: int where "BC_CHECK_NOT_BACK_REF_LENGTH = 8"
definition BC_CHECK_NOT_BACK_REF_NO_CASE_LENGTH :: int where "BC_CHECK_NOT_BACK_REF_NO_CASE_LENGTH = 8"
definition BC_CHECK_NOT_REGS_EQUAL_LENGTH :: int where "BC_CHECK_NOT_REGS_EQUAL_LENGTH = 12"
definition BC_LOOKUP_MAP1_LENGTH :: int where "BC_LOOKUP_MAP1_LENGTH = 12"
definition BC_LOOKUP_MAP2_LENGTH :: int where "BC_LOOKUP_MAP2_LENGTH = 96"
definition BC_LOOKUP_MAP8_LENGTH :: int where "BC_LOOKUP_MAP8_LENGTH = 96"
definition BC_LOOKUP_HI_MAP8_LENGTH :: int where "BC_LOOKUP_HI_MAP8_LENGTH = 96"
definition BC_CHECK_REGISTER_LT_LENGTH :: int where "BC_CHECK_REGISTER_LT_LENGTH = 12"
definition BC_CHECK_REGISTER_GE_LENGTH :: int where "BC_CHECK_REGISTER_GE_LENGTH = 12"
definition BC_CHECK_REGISTER_EQ_POS_LENGTH :: int where "BC_CHECK_REGISTER_EQ_POS_LENGTH = 8"
definition BC_CHECK_AT_START_LENGTH :: int where "BC_CHECK_AT_START_LENGTH = 8"
definition BC_CHECK_NOT_AT_START_LENGTH :: int where "BC_CHECK_NOT_AT_START_LENGTH = 8"
definition BC_CHECK_GREEDY_LENGTH :: int where "BC_CHECK_GREEDY_LENGTH = 8"
definition BC_ADVANCE_CP_AND_GOTO_LENGTH :: int where "BC_ADVANCE_CP_AND_GOTO_LENGTH = 8"
definition BC_SET_CURRENT_POSITION_FROM_END_LENGTH :: int where "BC_SET_CURRENT_POSITION_FROM_END_LENGTH = 4"

lemmas bytecodes =
  BC_BREAK_def BC_BREAK_LENGTH_def
  BC_PUSH_CP_def BC_PUSH_CP_LENGTH_def
  BC_PUSH_BT_def BC_PUSH_BT_LENGTH_def
  BC_PUSH_REGISTER_def BC_PUSH_REGISTER_LENGTH_def
  BC_SET_REGISTER_TO_CP_def BC_SET_REGISTER_TO_CP_LENGTH_def
  BC_SET_CP_TO_REGISTER_def BC_SET_CP_TO_REGISTER_LENGTH_def
  BC_SET_REGISTER_TO_SP_def BC_SET_REGISTER_TO_SP_LENGTH_def
  BC_SET_SP_TO_REGISTER_def BC_SET_SP_TO_REGISTER_LENGTH_def
  BC_SET_REGISTER_def BC_SET_REGISTER_LENGTH_def
  BC_ADVANCE_REGISTER_def BC_ADVANCE_REGISTER_LENGTH_def
  BC_POP_CP_def BC_POP_CP_LENGTH_def
  BC_POP_BT_def BC_POP_BT_LENGTH_def
  BC_POP_REGISTER_def BC_POP_REGISTER_LENGTH_def
  BC_FAIL_def BC_FAIL_LENGTH_def
  BC_SUCCEED_def BC_SUCCEED_LENGTH_def
  BC_ADVANCE_CP_def BC_ADVANCE_CP_LENGTH_def
  BC_GOTO_def BC_GOTO_LENGTH_def
  BC_LOAD_CURRENT_CHAR_def BC_LOAD_CURRENT_CHAR_LENGTH_def
  BC_LOAD_CURRENT_CHAR_UNCHECKED_def BC_LOAD_CURRENT_CHAR_UNCHECKED_LENGTH_def
  BC_LOAD_2_CURRENT_CHARS_def BC_LOAD_2_CURRENT_CHARS_LENGTH_def
  BC_LOAD_2_CURRENT_CHARS_UNCHECKED_def BC_LOAD_2_CURRENT_CHARS_UNCHECKED_LENGTH_def
  BC_LOAD_4_CURRENT_CHARS_def BC_LOAD_4_CURRENT_CHARS_LENGTH_def
  BC_LOAD_4_CURRENT_CHARS_UNCHECKED_def BC_LOAD_4_CURRENT_CHARS_UNCHECKED_LENGTH_def
  BC_CHECK_4_CHARS_def BC_CHECK_4_CHARS_LENGTH_def
  BC_CHECK_CHAR_def BC_CHECK_CHAR_LENGTH_def
  BC_CHECK_NOT_4_CHARS_def BC_CHECK_NOT_4_CHARS_LENGTH_def
  BC_CHECK_NOT_CHAR_def BC_CHECK_NOT_CHAR_LENGTH_def
  BC_AND_CHECK_4_CHARS_def BC_AND_CHECK_4_CHARS_LENGTH_def
  BC_AND_CHECK_CHAR_def BC_AND_CHECK_CHAR_LENGTH_def
  BC_AND_CHECK_NOT_4_CHARS_def BC_AND_CHECK_NOT_4_CHARS_LENGTH_def
  BC_AND_CHECK_NOT_CHAR_def BC_AND_CHECK_NOT_CHAR_LENGTH_def
  BC_MINUS_AND_CHECK_NOT_CHAR_def BC_MINUS_AND_CHECK_NOT_CHAR_LENGTH_def
  BC_CHECK_LT_def BC_CHECK_LT_LENGTH_def
  BC_CHECK_GT_def BC_CHECK_GT_LENGTH_def
  BC_CHECK_NOT_BACK_REF_def BC_CHECK_NOT_BACK_REF_LENGTH_def
  BC_CHECK_NOT_BACK_REF_NO_CASE_def BC_CHECK_NOT_BACK_REF_NO_CASE_LENGTH_def
  BC_CHECK_NOT_REGS_EQUAL_def BC_CHECK_NOT_REGS_EQUAL_LENGTH_def
  BC_LOOKUP_MAP1_def BC_LOOKUP_MAP1_LENGTH_def
  BC_LOOKUP_MAP2_def BC_LOOKUP_MAP2_LENGTH_def
  BC_LOOKUP_MAP8_def BC_LOOKUP_MAP8_LENGTH_def
  BC_LOOKUP_HI_MAP8_def BC_LOOKUP_HI_MAP8_LENGTH_def
  BC_CHECK_REGISTER_LT_def BC_CHECK_REGISTER_LT_LENGTH_def
  BC_CHECK_REGISTER_GE_def BC_CHECK_REGISTER_GE_LENGTH_def
  BC_CHECK_REGISTER_EQ_POS_def BC_CHECK_REGISTER_EQ_POS_LENGTH_def
  BC_CHECK_AT_START_def BC_CHECK_AT_START_LENGTH_def
  BC_CHECK_NOT_AT_START_def BC_CHECK_NOT_AT_START_LENGTH_def
  BC_CHECK_GREEDY_def BC_CHECK_GREEDY_LENGTH_def
  BC_ADVANCE_CP_AND_GOTO_def BC_ADVANCE_CP_AND_GOTO_LENGTH_def
  BC_SET_CURRENT_POSITION_FROM_END_def BC_SET_CURRENT_POSITION_FROM_END_LENGTH_def

end
