(* ===== verification/IrregexpAssembler.thy ===== *)
theory IrregexpAssembler
  imports IrregexpBytecodes
begin

text \<open>
  The assembler of regular expression bytecodes (src/src/regexp-macro-assembler-irregexp.h, .cc and -inl.h).
  It writes instructions into a buffer that it doubles when it is full. A reference to a label that has no
  position yet is written as the address of the previous reference to it, so that the references form
  a chain through the buffer, which \<open>Bind\<close> follows to write the position into each of them. A label is
  given by a name; the pointer NULL stands for the label of the backtracking code at the end. The position
  in a label is negative when it is bound and positive when it is linked. None is the result of a write
  outside of the buffer, or of a chain without an end.
\<close>

section \<open>State\<close>

type_synonym label = "nat option"

record RegExpMacroAssemblerIrregexp =
  rx_buffer :: "uint8 list"
  rx_pc :: nat
  rx_own_buffer :: bool
  rx_labels :: "label \<Rightarrow> int"
  advance_current_start :: nat
  advance_current_offset :: uint32
  advance_current_end :: int

type_synonym assembler = RegExpMacroAssemblerIrregexp

definition kInvalidPC :: int where "kInvalidPC = -1"

definition Assembler_new :: "uint8 list \<Rightarrow> assembler" where
  "Assembler_new buffer =
     \<lparr>rx_buffer = buffer, rx_pc = 0, rx_own_buffer = False, rx_labels = (\<lambda>l. 0),
      advance_current_start = 0, advance_current_offset = 0, advance_current_end = kInvalidPC\<rparr>"

text \<open>\<open>Label\<close> of src/src/assembler.h.\<close>

definition is_bound :: "int \<Rightarrow> bool" where "is_bound lpos \<longleftrightarrow> lpos < 0"
definition is_linked :: "int \<Rightarrow> bool" where "is_linked lpos \<longleftrightarrow> lpos > 0"
definition label_pos :: "int \<Rightarrow> nat" where "label_pos lpos = (if lpos < 0 then nat (- lpos - 1) else nat (lpos - 1))"
definition bind_to :: "nat \<Rightarrow> int" where "bind_to pos = - int pos - 1"
definition link_to :: "nat \<Rightarrow> int" where "link_to pos = int pos + 1"

section \<open>Emitting\<close>

text \<open>The new half of the buffer is memory that is not initialised, given by \<open>fresh\<close>.\<close>

definition Expand :: "(nat \<Rightarrow> uint8) \<Rightarrow> assembler \<Rightarrow> assembler" where
  "Expand fresh a = a\<lparr>rx_buffer := rx_buffer a @ map fresh [length (rx_buffer a)..<2 * length (rx_buffer a)], rx_own_buffer := True\<rparr>"

definition emit_bytes :: "(nat \<Rightarrow> uint8) \<Rightarrow> uint8 list \<Rightarrow> assembler \<Rightarrow> assembler option" where
  "emit_bytes fresh ws a =
     (let a = (if rx_pc a + (length ws - 1) \<ge> length (rx_buffer a) then Expand fresh a else a) in
      if rx_pc a + length ws \<le> length (rx_buffer a)
      then Some (a\<lparr>rx_buffer := put (rx_pc a) ws (rx_buffer a), rx_pc := rx_pc a + length ws\<rparr>) else None)"

definition Emit32 :: "(nat \<Rightarrow> uint8) \<Rightarrow> uint32 \<Rightarrow> assembler \<Rightarrow> assembler option" where
  "Emit32 fresh word = emit_bytes fresh (bytes32 word)"

definition Emit16 :: "(nat \<Rightarrow> uint8) \<Rightarrow> uint16 \<Rightarrow> assembler \<Rightarrow> assembler option" where
  "Emit16 fresh word = emit_bytes fresh (bytes16 word)"

definition Emit :: "(nat \<Rightarrow> uint8) \<Rightarrow> uint32 \<Rightarrow> uint32 \<Rightarrow> assembler \<Rightarrow> assembler option" where
  "Emit fresh byte twenty_four_bits = Emit32 fresh (push_bit BYTECODE_SHIFT twenty_four_bits OR byte)"

definition EmitOrLink :: "(nat \<Rightarrow> uint8) \<Rightarrow> label \<Rightarrow> assembler \<Rightarrow> assembler option" where
  "EmitOrLink fresh l a =
     (let lpos = rx_labels a l in
      if is_bound lpos then Emit32 fresh (of_nat (label_pos lpos)) a
      else
        (let pos = (if is_linked lpos then label_pos lpos else 0);
             a = a\<lparr>rx_labels := (rx_labels a)(l := link_to (rx_pc a))\<rparr>
         in Emit32 fresh (of_nat pos) a))"

text \<open>The loop of \<open>Bind\<close> through the chain of references.\<close>

partial_function (option) fixup :: "uint32 \<Rightarrow> nat \<Rightarrow> uint8 list \<Rightarrow> uint8 list option" where
  "fixup pc pos buffer =
     (if pos = 0 then Some buffer
      else if length buffer < pos + 4 then None
      else fixup pc (unat (get32 buffer pos)) (put pos (bytes32 pc) buffer))"

definition Bind :: "label \<Rightarrow> assembler \<Rightarrow> assembler option" where
  "Bind l a =
     (let lpos = rx_labels a l in
      do { buffer \<leftarrow> (if is_linked lpos then fixup (of_nat (rx_pc a)) (label_pos lpos) (rx_buffer a) else Some (rx_buffer a));
           Some (a\<lparr>advance_current_end := kInvalidPC, rx_buffer := buffer,
                   rx_labels := (rx_labels a)(l := bind_to (rx_pc a))\<rparr>) })"

section \<open>Instructions\<close>

text \<open>
  The calls of the interface. An argument of type \<open>int\<close> is a 32-bit word; the stack check flag of
  \<open>PushRegister\<close> has no effect here.
\<close>

datatype rx_call =
    CBind nat
  | CAdvanceCurrentPosition uint32
  | CPopCurrentPosition
  | CPushCurrentPosition
  | CBacktrack
  | CGoTo label
  | CPushBacktrack label
  | CSucceed
  | CFail
  | CPopRegister uint32
  | CPushRegister uint32
  | CAdvanceRegister uint32 uint32
  | CSetCurrentPositionFromEnd uint32
  | CSetRegister uint32 uint32
  | CWriteCurrentPositionToRegister uint32 uint32
  | CClearRegisters uint32 uint32
  | CReadCurrentPositionFromRegister uint32
  | CWriteStackPointerToRegister uint32
  | CReadStackPointerFromRegister uint32
  | CLoadCurrentCharacter uint32 label bool nat
  | CCheckCharacter uint32 label
  | CCheckCharacterAfterAnd uint32 uint32 label
  | CCheckCharacterGT uint16 label
  | CCheckCharacterLT uint16 label
  | CCheckGreedyLoop label
  | CCheckAtStart label
  | CCheckNotAtStart label
  | CCheckNotCharacter uint32 label
  | CCheckNotCharacterAfterAnd uint32 uint32 label
  | CCheckNotCharacterAfterMinusAnd uint16 uint16 uint16 label
  | CCheckNotBackReference uint32 label
  | CCheckNotBackReferenceIgnoreCase uint32 label
  | CCheckNotRegistersEqual uint32 uint32 label
  | CCheckCharacters "uint16 list" uint32 label bool
  | CIfRegisterLT uint32 uint32 label
  | CIfRegisterGE uint32 uint32 label
  | CIfRegisterEqPos uint32 label

text \<open>\<open>emit_label\<close>: an instruction word and a reference to a label.\<close>

definition emit_label :: "(nat \<Rightarrow> uint8) \<Rightarrow> uint32 \<Rightarrow> uint32 \<Rightarrow> label \<Rightarrow> assembler \<Rightarrow> assembler option" where
  "emit_label fresh byte arg l a = do { a \<leftarrow> Emit fresh byte arg a; EmitOrLink fresh l a }"

text \<open>\<open>emit_word_label\<close>: an instruction word, a second word and a reference to a label.\<close>

definition emit_word_label :: "(nat \<Rightarrow> uint8) \<Rightarrow> uint32 \<Rightarrow> uint32 \<Rightarrow> uint32 \<Rightarrow> label \<Rightarrow> assembler \<Rightarrow> assembler option" where
  "emit_word_label fresh byte arg word l a =
     do { a \<leftarrow> Emit fresh byte arg a; a \<leftarrow> Emit32 fresh word a; EmitOrLink fresh l a }"

definition PopRegister :: "(nat \<Rightarrow> uint8) \<Rightarrow> uint32 \<Rightarrow> assembler \<Rightarrow> assembler option" where
  "PopRegister fresh register_index = Emit fresh BC_POP_REGISTER register_index"

definition PushRegister :: "(nat \<Rightarrow> uint8) \<Rightarrow> uint32 \<Rightarrow> assembler \<Rightarrow> assembler option" where
  "PushRegister fresh register_index = Emit fresh BC_PUSH_REGISTER register_index"

definition WriteCurrentPositionToRegister :: "(nat \<Rightarrow> uint8) \<Rightarrow> uint32 \<Rightarrow> uint32 \<Rightarrow> assembler \<Rightarrow> assembler option" where
  "WriteCurrentPositionToRegister fresh register_index cp_offset a =
     do { a \<leftarrow> Emit fresh BC_SET_REGISTER_TO_CP register_index a; Emit32 fresh cp_offset a }"

definition ReadCurrentPositionFromRegister :: "(nat \<Rightarrow> uint8) \<Rightarrow> uint32 \<Rightarrow> assembler \<Rightarrow> assembler option" where
  "ReadCurrentPositionFromRegister fresh register_index = Emit fresh BC_SET_CP_TO_REGISTER register_index"

definition WriteStackPointerToRegister :: "(nat \<Rightarrow> uint8) \<Rightarrow> uint32 \<Rightarrow> assembler \<Rightarrow> assembler option" where
  "WriteStackPointerToRegister fresh register_index = Emit fresh BC_SET_REGISTER_TO_SP register_index"

definition ReadStackPointerFromRegister :: "(nat \<Rightarrow> uint8) \<Rightarrow> uint32 \<Rightarrow> assembler \<Rightarrow> assembler option" where
  "ReadStackPointerFromRegister fresh register_index = Emit fresh BC_SET_SP_TO_REGISTER register_index"

definition SetCurrentPositionFromEnd :: "(nat \<Rightarrow> uint8) \<Rightarrow> uint32 \<Rightarrow> assembler \<Rightarrow> assembler option" where
  "SetCurrentPositionFromEnd fresh by_chars = Emit fresh BC_SET_CURRENT_POSITION_FROM_END by_chars"

definition SetRegister :: "(nat \<Rightarrow> uint8) \<Rightarrow> uint32 \<Rightarrow> uint32 \<Rightarrow> assembler \<Rightarrow> assembler option" where
  "SetRegister fresh register_index to_value a =
     do { a \<leftarrow> Emit fresh BC_SET_REGISTER register_index a; Emit32 fresh to_value a }"

text \<open>The registers of \<open>ClearRegisters\<close> and the characters of \<open>CheckCharacters\<close>, in the order of the loops.\<close>

primrec clear_loop :: "(nat \<Rightarrow> uint8) \<Rightarrow> int list \<Rightarrow> assembler \<Rightarrow> assembler option" where
  "clear_loop fresh [] a = Some a"
| "clear_loop fresh (reg # regs) a = do { a \<leftarrow> SetRegister fresh (word_of_int reg) (- 1) a; clear_loop fresh regs a }"

definition ClearRegisters :: "(nat \<Rightarrow> uint8) \<Rightarrow> uint32 \<Rightarrow> uint32 \<Rightarrow> assembler \<Rightarrow> assembler option" where
  "ClearRegisters fresh reg_from reg_to = clear_loop fresh [sint reg_from..sint reg_to]"

definition AdvanceRegister :: "(nat \<Rightarrow> uint8) \<Rightarrow> uint32 \<Rightarrow> uint32 \<Rightarrow> assembler \<Rightarrow> assembler option" where
  "AdvanceRegister fresh register_index by_value a =
     do { a \<leftarrow> Emit fresh BC_ADVANCE_REGISTER register_index a; Emit32 fresh by_value a }"

definition PopCurrentPosition :: "(nat \<Rightarrow> uint8) \<Rightarrow> assembler \<Rightarrow> assembler option" where
  "PopCurrentPosition fresh = Emit fresh BC_POP_CP 0"

definition PushCurrentPosition :: "(nat \<Rightarrow> uint8) \<Rightarrow> assembler \<Rightarrow> assembler option" where
  "PushCurrentPosition fresh = Emit fresh BC_PUSH_CP 0"

definition Backtrack :: "(nat \<Rightarrow> uint8) \<Rightarrow> assembler \<Rightarrow> assembler option" where
  "Backtrack fresh = Emit fresh BC_POP_BT 0"

definition GoTo :: "(nat \<Rightarrow> uint8) \<Rightarrow> label \<Rightarrow> assembler \<Rightarrow> assembler option" where
  "GoTo fresh l a =
     (if advance_current_end a = int (rx_pc a) then
        do { a \<leftarrow> emit_label fresh BC_ADVANCE_CP_AND_GOTO (advance_current_offset a) l (a\<lparr>rx_pc := advance_current_start a\<rparr>);
             Some (a\<lparr>advance_current_end := kInvalidPC\<rparr>) }
      else emit_label fresh BC_GOTO 0 l a)"

definition PushBacktrack :: "(nat \<Rightarrow> uint8) \<Rightarrow> label \<Rightarrow> assembler \<Rightarrow> assembler option" where
  "PushBacktrack fresh l = emit_label fresh BC_PUSH_BT 0 l"

definition Succeed :: "(nat \<Rightarrow> uint8) \<Rightarrow> assembler \<Rightarrow> assembler option" where
  "Succeed fresh = Emit fresh BC_SUCCEED 0"

definition Fail :: "(nat \<Rightarrow> uint8) \<Rightarrow> assembler \<Rightarrow> assembler option" where
  "Fail fresh = Emit fresh BC_FAIL 0"

definition AdvanceCurrentPosition :: "(nat \<Rightarrow> uint8) \<Rightarrow> uint32 \<Rightarrow> assembler \<Rightarrow> assembler option" where
  "AdvanceCurrentPosition fresh by_chars a =
     do { a \<leftarrow> Emit fresh BC_ADVANCE_CP by_chars (a\<lparr>advance_current_start := rx_pc a, advance_current_offset := by_chars\<rparr>);
          Some (a\<lparr>advance_current_end := int (rx_pc a)\<rparr>) }"

definition CheckGreedyLoop :: "(nat \<Rightarrow> uint8) \<Rightarrow> label \<Rightarrow> assembler \<Rightarrow> assembler option" where
  "CheckGreedyLoop fresh l = emit_label fresh BC_CHECK_GREEDY 0 l"

definition load_bytecode :: "bool \<Rightarrow> nat \<Rightarrow> uint32" where
  "load_bytecode check_bounds characters =
     (if check_bounds then
        (if characters = 4 then BC_LOAD_4_CURRENT_CHARS
         else if characters = 2 then BC_LOAD_2_CURRENT_CHARS else BC_LOAD_CURRENT_CHAR)
      else
        (if characters = 4 then BC_LOAD_4_CURRENT_CHARS_UNCHECKED
         else if characters = 2 then BC_LOAD_2_CURRENT_CHARS_UNCHECKED else BC_LOAD_CURRENT_CHAR_UNCHECKED))"

definition LoadCurrentCharacter :: "(nat \<Rightarrow> uint8) \<Rightarrow> uint32 \<Rightarrow> label \<Rightarrow> bool \<Rightarrow> nat \<Rightarrow> assembler \<Rightarrow> assembler option" where
  "LoadCurrentCharacter fresh cp_offset on_failure check_bounds characters a =
     do { a \<leftarrow> Emit fresh (load_bytecode check_bounds characters) cp_offset a;
          if check_bounds then EmitOrLink fresh on_failure a else Some a }"

definition CheckCharacterLT :: "(nat \<Rightarrow> uint8) \<Rightarrow> uint16 \<Rightarrow> label \<Rightarrow> assembler \<Rightarrow> assembler option" where
  "CheckCharacterLT fresh limit l = emit_label fresh BC_CHECK_LT (ucast limit) l"

definition CheckCharacterGT :: "(nat \<Rightarrow> uint8) \<Rightarrow> uint16 \<Rightarrow> label \<Rightarrow> assembler \<Rightarrow> assembler option" where
  "CheckCharacterGT fresh limit l = emit_label fresh BC_CHECK_GT (ucast limit) l"

definition CheckCharacter :: "(nat \<Rightarrow> uint8) \<Rightarrow> uint32 \<Rightarrow> label \<Rightarrow> assembler \<Rightarrow> assembler option" where
  "CheckCharacter fresh c l =
     (if c > MAX_FIRST_ARG then emit_word_label fresh BC_CHECK_4_CHARS 0 c l else emit_label fresh BC_CHECK_CHAR c l)"

definition CheckAtStart :: "(nat \<Rightarrow> uint8) \<Rightarrow> label \<Rightarrow> assembler \<Rightarrow> assembler option" where
  "CheckAtStart fresh l = emit_label fresh BC_CHECK_AT_START 0 l"

definition CheckNotAtStart :: "(nat \<Rightarrow> uint8) \<Rightarrow> label \<Rightarrow> assembler \<Rightarrow> assembler option" where
  "CheckNotAtStart fresh l = emit_label fresh BC_CHECK_NOT_AT_START 0 l"

definition CheckNotCharacter :: "(nat \<Rightarrow> uint8) \<Rightarrow> uint32 \<Rightarrow> label \<Rightarrow> assembler \<Rightarrow> assembler option" where
  "CheckNotCharacter fresh c l =
     (if c > MAX_FIRST_ARG then emit_word_label fresh BC_CHECK_NOT_4_CHARS 0 c l else emit_label fresh BC_CHECK_NOT_CHAR c l)"

definition CheckCharacterAfterAnd :: "(nat \<Rightarrow> uint8) \<Rightarrow> uint32 \<Rightarrow> uint32 \<Rightarrow> label \<Rightarrow> assembler \<Rightarrow> assembler option" where
  "CheckCharacterAfterAnd fresh c m l a =
     do { a \<leftarrow> (if c > MAX_FIRST_ARG then do { a \<leftarrow> Emit fresh BC_AND_CHECK_4_CHARS 0 a; Emit32 fresh c a }
               else Emit fresh BC_AND_CHECK_CHAR c a);
          a \<leftarrow> Emit32 fresh m a; EmitOrLink fresh l a }"

definition CheckNotCharacterAfterAnd :: "(nat \<Rightarrow> uint8) \<Rightarrow> uint32 \<Rightarrow> uint32 \<Rightarrow> label \<Rightarrow> assembler \<Rightarrow> assembler option" where
  "CheckNotCharacterAfterAnd fresh c m l a =
     do { a \<leftarrow> (if c > MAX_FIRST_ARG then do { a \<leftarrow> Emit fresh BC_AND_CHECK_NOT_4_CHARS 0 a; Emit32 fresh c a }
               else Emit fresh BC_AND_CHECK_NOT_CHAR c a);
          a \<leftarrow> Emit32 fresh m a; EmitOrLink fresh l a }"

definition CheckNotCharacterAfterMinusAnd :: "(nat \<Rightarrow> uint8) \<Rightarrow> uint16 \<Rightarrow> uint16 \<Rightarrow> uint16 \<Rightarrow> label \<Rightarrow> assembler \<Rightarrow> assembler option" where
  "CheckNotCharacterAfterMinusAnd fresh c sub m l a =
     do { a \<leftarrow> Emit fresh BC_MINUS_AND_CHECK_NOT_CHAR (ucast c) a; a \<leftarrow> Emit16 fresh sub a; a \<leftarrow> Emit16 fresh m a;
          EmitOrLink fresh l a }"

definition CheckNotBackReference :: "(nat \<Rightarrow> uint8) \<Rightarrow> uint32 \<Rightarrow> label \<Rightarrow> assembler \<Rightarrow> assembler option" where
  "CheckNotBackReference fresh start_reg l = emit_label fresh BC_CHECK_NOT_BACK_REF start_reg l"

definition CheckNotBackReferenceIgnoreCase :: "(nat \<Rightarrow> uint8) \<Rightarrow> uint32 \<Rightarrow> label \<Rightarrow> assembler \<Rightarrow> assembler option" where
  "CheckNotBackReferenceIgnoreCase fresh start_reg l = emit_label fresh BC_CHECK_NOT_BACK_REF_NO_CASE start_reg l"

definition CheckNotRegistersEqual :: "(nat \<Rightarrow> uint8) \<Rightarrow> uint32 \<Rightarrow> uint32 \<Rightarrow> label \<Rightarrow> assembler \<Rightarrow> assembler option" where
  "CheckNotRegistersEqual fresh reg1 reg2 l = emit_word_label fresh BC_CHECK_NOT_REGS_EQUAL reg1 reg2 l"

text \<open>The turns for the indices below \<open>n\<close>, downwards; only the last character is loaded with a check.\<close>

primrec characters_loop :: "(nat \<Rightarrow> uint8) \<Rightarrow> uint16 list \<Rightarrow> uint32 \<Rightarrow> label \<Rightarrow> bool \<Rightarrow> nat \<Rightarrow> assembler \<Rightarrow> assembler option" where
  "characters_loop fresh str cp_offset l check_end_of_string 0 a = Some a"
| "characters_loop fresh str cp_offset l check_end_of_string (Suc i) a =
     do { a \<leftarrow> (if check_end_of_string \<and> i = length str - 1
               then emit_label fresh BC_LOAD_CURRENT_CHAR (cp_offset + of_nat i) l a
               else Emit fresh BC_LOAD_CURRENT_CHAR_UNCHECKED (cp_offset + of_nat i) a);
          a \<leftarrow> emit_label fresh BC_CHECK_NOT_CHAR (ucast (str ! i)) l a;
          characters_loop fresh str cp_offset l check_end_of_string i a }"

definition CheckCharacters :: "(nat \<Rightarrow> uint8) \<Rightarrow> uint16 list \<Rightarrow> uint32 \<Rightarrow> label \<Rightarrow> bool \<Rightarrow> assembler \<Rightarrow> assembler option" where
  "CheckCharacters fresh str cp_offset l check_end_of_string = characters_loop fresh str cp_offset l check_end_of_string (length str)"

definition IfRegisterLT :: "(nat \<Rightarrow> uint8) \<Rightarrow> uint32 \<Rightarrow> uint32 \<Rightarrow> label \<Rightarrow> assembler \<Rightarrow> assembler option" where
  "IfRegisterLT fresh register_index comparand l = emit_word_label fresh BC_CHECK_REGISTER_LT register_index comparand l"

definition IfRegisterGE :: "(nat \<Rightarrow> uint8) \<Rightarrow> uint32 \<Rightarrow> uint32 \<Rightarrow> label \<Rightarrow> assembler \<Rightarrow> assembler option" where
  "IfRegisterGE fresh register_index comparand l = emit_word_label fresh BC_CHECK_REGISTER_GE register_index comparand l"

definition IfRegisterEqPos :: "(nat \<Rightarrow> uint8) \<Rightarrow> uint32 \<Rightarrow> label \<Rightarrow> assembler \<Rightarrow> assembler option" where
  "IfRegisterEqPos fresh register_index l = emit_label fresh BC_CHECK_REGISTER_EQ_POS register_index l"

definition GetCode :: "(nat \<Rightarrow> uint8) \<Rightarrow> assembler \<Rightarrow> uint8 list option" where
  "GetCode fresh a =
     do { a \<leftarrow> Bind None a; a \<leftarrow> Emit fresh BC_POP_BT 0 a; Some (take (rx_pc a) (rx_buffer a)) }"

section \<open>Sequences of calls\<close>

fun perform :: "(nat \<Rightarrow> uint8) \<Rightarrow> rx_call \<Rightarrow> assembler \<Rightarrow> assembler option" where
  "perform fresh (CBind l) = Bind (Some l)"
| "perform fresh (CAdvanceCurrentPosition by_chars) = AdvanceCurrentPosition fresh by_chars"
| "perform fresh CPopCurrentPosition = PopCurrentPosition fresh"
| "perform fresh CPushCurrentPosition = PushCurrentPosition fresh"
| "perform fresh CBacktrack = Backtrack fresh"
| "perform fresh (CGoTo l) = GoTo fresh l"
| "perform fresh (CPushBacktrack l) = PushBacktrack fresh l"
| "perform fresh CSucceed = Succeed fresh"
| "perform fresh CFail = Fail fresh"
| "perform fresh (CPopRegister r) = PopRegister fresh r"
| "perform fresh (CPushRegister r) = PushRegister fresh r"
| "perform fresh (CAdvanceRegister r v) = AdvanceRegister fresh r v"
| "perform fresh (CSetCurrentPositionFromEnd n) = SetCurrentPositionFromEnd fresh n"
| "perform fresh (CSetRegister r v) = SetRegister fresh r v"
| "perform fresh (CWriteCurrentPositionToRegister r v) = WriteCurrentPositionToRegister fresh r v"
| "perform fresh (CClearRegisters r s) = ClearRegisters fresh r s"
| "perform fresh (CReadCurrentPositionFromRegister r) = ReadCurrentPositionFromRegister fresh r"
| "perform fresh (CWriteStackPointerToRegister r) = WriteStackPointerToRegister fresh r"
| "perform fresh (CReadStackPointerFromRegister r) = ReadStackPointerFromRegister fresh r"
| "perform fresh (CLoadCurrentCharacter v l b n) = LoadCurrentCharacter fresh v l b n"
| "perform fresh (CCheckCharacter c l) = CheckCharacter fresh c l"
| "perform fresh (CCheckCharacterAfterAnd c m l) = CheckCharacterAfterAnd fresh c m l"
| "perform fresh (CCheckCharacterGT c l) = CheckCharacterGT fresh c l"
| "perform fresh (CCheckCharacterLT c l) = CheckCharacterLT fresh c l"
| "perform fresh (CCheckGreedyLoop l) = CheckGreedyLoop fresh l"
| "perform fresh (CCheckAtStart l) = CheckAtStart fresh l"
| "perform fresh (CCheckNotAtStart l) = CheckNotAtStart fresh l"
| "perform fresh (CCheckNotCharacter c l) = CheckNotCharacter fresh c l"
| "perform fresh (CCheckNotCharacterAfterAnd c m l) = CheckNotCharacterAfterAnd fresh c m l"
| "perform fresh (CCheckNotCharacterAfterMinusAnd c n m l) = CheckNotCharacterAfterMinusAnd fresh c n m l"
| "perform fresh (CCheckNotBackReference r l) = CheckNotBackReference fresh r l"
| "perform fresh (CCheckNotBackReferenceIgnoreCase r l) = CheckNotBackReferenceIgnoreCase fresh r l"
| "perform fresh (CCheckNotRegistersEqual r s l) = CheckNotRegistersEqual fresh r s l"
| "perform fresh (CCheckCharacters str v l b) = CheckCharacters fresh str v l b"
| "perform fresh (CIfRegisterLT r v l) = IfRegisterLT fresh r v l"
| "perform fresh (CIfRegisterGE r v l) = IfRegisterGE fresh r v l"
| "perform fresh (CIfRegisterEqPos r l) = IfRegisterEqPos fresh r l"

primrec perform_all :: "(nat \<Rightarrow> uint8) \<Rightarrow> rx_call list \<Rightarrow> assembler \<Rightarrow> assembler option" where
  "perform_all fresh [] a = Some a"
| "perform_all fresh (c # cs) a = do { a \<leftarrow> perform fresh c a; perform_all fresh cs a }"

text \<open>An assembler over a buffer, a sequence of calls, and the code.\<close>

definition assemble :: "(nat \<Rightarrow> uint8) \<Rightarrow> uint8 list \<Rightarrow> rx_call list \<Rightarrow> uint8 list option" where
  "assemble fresh buffer calls = do { a \<leftarrow> perform_all fresh calls (Assembler_new buffer); GetCode fresh a }"

end
