(* ===== verification/IrregexpLayout.thy ===== *)
theory IrregexpLayout
  imports IrregexpAssembler
begin

text \<open>
  What the assembler has written after a part of its calls: a sequence of items, each at its address, with
  the references to a label that is not bound chained through the buffer. Every emitting operation
  appends its items, and binding a label resolves its references.
\<close>

section \<open>Items and their addresses\<close>

datatype item = Word uint32 | Half uint16 | Ref label

fun item_size :: "item \<Rightarrow> nat" where
  "item_size (Word w) = 4"
| "item_size (Half w) = 2"
| "item_size (Ref l) = 4"

lemma item_size_pos: "2 \<le> item_size i"
  by (cases i) simp_all

abbreviation items_size :: "item list \<Rightarrow> nat" where
  "items_size its \<equiv> sum_list (map item_size its)"

fun positions :: "nat \<Rightarrow> item list \<Rightarrow> (nat \<times> item) list" where
  "positions p [] = []"
| "positions p (i # its) = (p, i) # positions (p + item_size i) its"

lemma positions_append [simp]: "positions p (xs @ ys) = positions p xs @ positions (p + items_size xs) ys"
  by (induction xs arbitrary: p) (simp_all add: add.assoc)

lemma positions_bounds: "(q, i) \<in> set (positions p its) \<Longrightarrow> p \<le> q \<and> q + item_size i \<le> p + items_size its"
  by (induction its arbitrary: p) (auto, fastforce+)

lemma positions_apart:
  "(q, i) \<in> set (positions p its) \<Longrightarrow> (r, j) \<in> set (positions p its) \<Longrightarrow>
   q = r \<and> i = j \<or> q + item_size i \<le> r \<or> r + item_size j \<le> q"
proof (induction its arbitrary: p)
  case (Cons k its)
  then show ?case using positions_bounds [of _ _ "p + item_size k" its] by auto
qed simp

text \<open>The addresses of the references to a label, the last one first.\<close>

definition refs :: "item list \<Rightarrow> label \<Rightarrow> nat list" where
  "refs its l = map fst (filter (\<lambda>(q, i). i = Ref l) (rev (positions 0 its)))"

lemma refs_Nil [simp]: "refs [] l = []"
  by (simp add: refs_def)

lemma refs_snoc [simp]: "refs (its @ [i]) l = (if i = Ref l then items_size its # refs its l else refs its l)"
  by (simp add: refs_def)

lemma refs_iff: "q \<in> set (refs its l) \<longleftrightarrow> (q, Ref l) \<in> set (positions 0 its)"
  by (force simp: refs_def)

lemma refs_bound: "q \<in> set (refs its l) \<Longrightarrow> q + 4 \<le> items_size its"
  using positions_bounds [of q "Ref l" 0 its] by (simp add: refs_iff)

lemma refs_spaced: "sorted_wrt (\<lambda>a b. b + 4 \<le> a) (refs its l)"
  by (induction its rule: rev_induct) (auto dest: refs_bound)

section \<open>The buffer\<close>

definition holds :: "uint8 list \<Rightarrow> (label \<Rightarrow> nat option) \<Rightarrow> nat \<times> item \<Rightarrow> bool" where
  "holds buf bnd = (\<lambda>(q, i). case i of
      Word w \<Rightarrow> get32 buf q = w
    | Half w \<Rightarrow> get16 buf q = w
    | Ref l \<Rightarrow> (case bnd l of None \<Rightarrow> True | Some a \<Rightarrow> get32 buf q = of_nat a))"

primrec chained :: "uint8 list \<Rightarrow> nat list \<Rightarrow> bool" where
  "chained buf [] = True"
| "chained buf (a # as) = (get32 buf a = of_nat (case as of [] \<Rightarrow> 0 | b # _ \<Rightarrow> b) \<and> chained buf as)"

definition label_ok :: "item list \<Rightarrow> (label \<Rightarrow> nat option) \<Rightarrow> assembler \<Rightarrow> label \<Rightarrow> bool" where
  "label_ok its bnd a l = (case bnd l of
      Some p \<Rightarrow> rx_labels a l = bind_to p
    | None \<Rightarrow> rx_labels a l = (case refs its l of [] \<Rightarrow> 0 | q # _ \<Rightarrow> link_to q) \<and> chained (rx_buffer a) (refs its l))"

definition asm_ok :: "item list \<Rightarrow> (label \<Rightarrow> nat option) \<Rightarrow> assembler \<Rightarrow> bool" where
  "asm_ok its bnd a \<longleftrightarrow>
     rx_pc a = items_size its \<and> rx_pc a \<le> length (rx_buffer a) \<and> 4 \<le> length (rx_buffer a) \<and>
     (\<forall>x \<in> set (positions 0 its). holds (rx_buffer a) bnd x) \<and> (\<forall>l. label_ok its bnd a l \<and> 0 \<notin> set (refs its l))"

definition same_below :: "nat \<Rightarrow> uint8 list \<Rightarrow> uint8 list \<Rightarrow> bool" where
  "same_below n xs ys \<longleftrightarrow> (\<forall>i < n. xs ! i = ys ! i)"

lemma get_same:
  "same_below n xs ys \<Longrightarrow> p + 2 \<le> n \<Longrightarrow> get16 xs p = get16 ys p"
  "same_below n xs ys \<Longrightarrow> p + 4 \<le> n \<Longrightarrow> get32 xs p = get32 ys p"
  by (simp_all add: same_below_def get16_def get32_def)

lemma holds_same:
  "same_below n xs ys \<Longrightarrow> q + item_size i \<le> n \<Longrightarrow> holds xs bnd (q, i) = holds ys bnd (q, i)"
  by (cases i) (simp_all add: holds_def get_same split: option.splits)

lemma chained_same:
  "same_below n xs ys \<Longrightarrow> \<forall>a \<in> set as. a + 4 \<le> n \<Longrightarrow> chained xs as = chained ys as"
  by (induction as) (simp_all add: get_same)

section \<open>Emitting\<close>

lemma emit_bytes_ok:
  assumes "rx_pc a \<le> length (rx_buffer a)" "4 \<le> length (rx_buffer a)" "ws \<noteq> []" "length ws \<le> 4"
  shows "\<exists>buf own. emit_bytes fresh ws a = Some (a\<lparr>rx_buffer := buf, rx_pc := rx_pc a + length ws, rx_own_buffer := own\<rparr>) \<and>
    same_below (rx_pc a) (rx_buffer a) buf \<and> rx_pc a + length ws \<le> length buf \<and> 4 \<le> length buf \<and>
    (\<forall>k < length ws. buf ! (rx_pc a + k) = ws ! k)"
proof -
  define e where "e = (if rx_pc a + (length ws - 1) \<ge> length (rx_buffer a) then Expand fresh a else a)"
  have e: "rx_pc e = rx_pc a" "same_below (rx_pc a) (rx_buffer a) (rx_buffer e)" "rx_pc a + length ws \<le> length (rx_buffer e)"
      "4 \<le> length (rx_buffer e)" "e = a\<lparr>rx_buffer := rx_buffer e, rx_own_buffer := rx_own_buffer e\<rparr>"
    using assms by (auto simp: e_def Expand_def same_below_def nth_append Suc_le_eq)
  let ?buf = "put (rx_pc a) ws (rx_buffer e)"
  have "emit_bytes fresh ws a = Some (e\<lparr>rx_buffer := ?buf, rx_pc := rx_pc a + length ws\<rparr>)"
    unfolding emit_bytes_def e_def [symmetric] Let_def using e(1,3) by simp
  also have "e\<lparr>rx_buffer := ?buf, rx_pc := rx_pc a + length ws\<rparr> = a\<lparr>rx_buffer := ?buf, rx_pc := rx_pc a + length ws, rx_own_buffer := rx_own_buffer e\<rparr>"
    by (subst e(5)) simp
  finally show ?thesis using e(2-4)
    by (intro exI [of _ ?buf] exI [of _ "rx_own_buffer e"]) (auto simp: same_below_def put_nth)
qed

text \<open>The fields \<open>GoTo\<close> looks at are changed by \<open>AdvanceCurrentPosition\<close>, \<open>GoTo\<close> and \<open>Bind\<close> only.\<close>

definition same_advance :: "assembler \<Rightarrow> assembler \<Rightarrow> bool" where
  "same_advance a b \<longleftrightarrow> advance_current_start b = advance_current_start a \<and>
     advance_current_offset b = advance_current_offset a \<and> advance_current_end b = advance_current_end a"

lemma asm_ok_frame:
  assumes ok: "asm_ok its bnd a" and buf: "same_below (items_size its) (rx_buffer a) (rx_buffer b)"
  shows "\<forall>x \<in> set (positions 0 its). holds (rx_buffer b) bnd x" "chained (rx_buffer a) (refs its l) \<longleftrightarrow> chained (rx_buffer b) (refs its l)"
proof -
  show "\<forall>x \<in> set (positions 0 its). holds (rx_buffer b) bnd x"
  proof
    fix x assume x: "x \<in> set (positions 0 its)"
    obtain q i where qi: "x = (q, i)" by fastforce
    then have "q + item_size i \<le> items_size its" using x positions_bounds [of q i 0 its] by simp
    then show "holds (rx_buffer b) bnd x" using holds_same [OF buf] ok x unfolding qi asm_ok_def by blast
  qed
  show "chained (rx_buffer a) (refs its l) \<longleftrightarrow> chained (rx_buffer b) (refs its l)"
    using chained_same [OF buf] refs_bound by blast
qed

text \<open>Appending a plain item.\<close>

lemma asm_ok_snoc:
  assumes ok: "asm_ok its bnd a" and i: "\<And>l. i \<noteq> Ref l"
    and b: "rx_pc b = items_size its + item_size i" "rx_labels b = rx_labels a" "rx_pc b \<le> length (rx_buffer b)" "4 \<le> length (rx_buffer b)"
    and buf: "same_below (items_size its) (rx_buffer a) (rx_buffer b)" and h: "holds (rx_buffer b) bnd (items_size its, i)"
  shows "asm_ok (its @ [i]) bnd b"
proof -
  have "label_ok (its @ [i]) bnd b l \<and> 0 \<notin> set (refs (its @ [i]) l)" for l
  proof -
    have "label_ok its bnd a l" "0 \<notin> set (refs its l)" using ok by (simp_all add: asm_ok_def)
    then show ?thesis using b(2) i asm_ok_frame(2) [OF ok buf, of l] by (cases "bnd l") (simp_all add: label_ok_def)
  qed
  then show ?thesis using asm_ok_frame(1) [OF ok buf] b h by (simp add: asm_ok_def)
qed

definition emits :: "item list \<Rightarrow> (assembler \<Rightarrow> assembler option) \<Rightarrow> bool" where
  "emits ys f \<longleftrightarrow> (\<forall>xs bnd a. asm_ok xs bnd a \<and> items_size (xs @ ys) < 2 ^ 31 \<and> (xs \<noteq> [] \<or> (\<exists>w r. ys = Word w # r)) \<longrightarrow>
     (\<exists>b. f a = Some b \<and> asm_ok (xs @ ys) bnd b \<and> same_advance a b))"

lemma emits_Nil: "emits [] Some"
  by (simp add: emits_def same_advance_def)

lemma emits_then:
  assumes f: "emits ys f" and g: "emits zs g" and ne: "ys \<noteq> []"
  shows "emits (ys @ zs) (\<lambda>a. do { a \<leftarrow> f a; g a })"
  unfolding emits_def
proof (intro allI impI, elim conjE)
  fix xs bnd a
  assume a: "asm_ok xs bnd a" "items_size (xs @ ys @ zs) < 2 ^ 31" "xs \<noteq> [] \<or> (\<exists>w r. ys @ zs = Word w # r)"
  have "xs \<noteq> [] \<or> (\<exists>w r. ys = Word w # r)" using a(3) ne by (cases ys) auto
  moreover have "items_size (xs @ ys) < 2 ^ 31" using a(2) by simp
  ultimately obtain b where b: "f a = Some b" "asm_ok (xs @ ys) bnd b" "same_advance a b"
    using f a(1) unfolding emits_def by blast
  have "xs @ ys \<noteq> []" "items_size ((xs @ ys) @ zs) < 2 ^ 31" using ne a(2) by simp_all
  then obtain c where c: "g b = Some c" "asm_ok ((xs @ ys) @ zs) bnd c" "same_advance b c"
    using g b(2) unfolding emits_def by blast
  then show "\<exists>c. (do { a \<leftarrow> f a; g a }) = Some c \<and> asm_ok (xs @ ys @ zs) bnd c \<and> same_advance a c"
    using b by (intro exI [of _ c]) (simp add: same_advance_def)
qed

lemma get_bytes_at:
  assumes "\<forall>k < length ws. bs ! (p + k) = ws ! k"
  shows "ws = bytes32 v \<Longrightarrow> get32 bs p = v" "ws = bytes16 w \<Longrightarrow> get16 bs p = w"
proof -
  show "get32 bs p = v" if ws: "ws = bytes32 v"
  proof (rule get_bytes(2))
    show "bs ! p = ucast v" using assms [rule_format, of 0] ws by (simp add: bytes32_def)
    show "bs ! (p + 1) = ucast (drop_bit 8 v)" using assms [rule_format, of 1] ws by (simp add: bytes32_def)
    show "bs ! (p + 2) = ucast (drop_bit 16 v)" using assms [rule_format, of 2] ws by (simp add: bytes32_def)
    show "bs ! (p + 3) = ucast (drop_bit 24 v)" using assms [rule_format, of 3] ws by (simp add: bytes32_def)
  qed
  show "get16 bs p = w" if ws: "ws = bytes16 w"
  proof (rule get_bytes(1))
    show "bs ! p = ucast w" using assms [rule_format, of 0] ws by (simp add: bytes16_def)
    show "bs ! (p + 1) = ucast (drop_bit 8 w)" using assms [rule_format, of 1] ws by (simp add: bytes16_def)
  qed
qed

lemma emits_plain:
  assumes "length ws = item_size i" "\<And>l. i \<noteq> Ref l" "\<And>buf q bnd. \<forall>k < length ws. buf ! (q + k) = ws ! k \<Longrightarrow> holds buf bnd (q, i)"
  shows "emits [i] (emit_bytes fresh ws)"
  unfolding emits_def
proof (intro allI impI, elim conjE)
  fix xs bnd a
  assume a: "asm_ok xs bnd a"
  have ws: "ws \<noteq> []" "length ws \<le> 4" using assms(1) item_size_pos [of i] by (auto, cases i, auto)
  have pc: "rx_pc a = items_size xs" "rx_pc a \<le> length (rx_buffer a)" "4 \<le> length (rx_buffer a)" using a by (simp_all add: asm_ok_def)
  obtain buf own where b: "emit_bytes fresh ws a = Some (a\<lparr>rx_buffer := buf, rx_pc := rx_pc a + length ws, rx_own_buffer := own\<rparr>)"
      "same_below (rx_pc a) (rx_buffer a) buf" "rx_pc a + length ws \<le> length buf" "4 \<le> length buf"
      "\<forall>k < length ws. buf ! (rx_pc a + k) = ws ! k"
    using emit_bytes_ok [OF pc(2,3) ws] by blast
  have "asm_ok (xs @ [i]) bnd (a\<lparr>rx_buffer := buf, rx_pc := rx_pc a + length ws, rx_own_buffer := own\<rparr>)"
    using assms b(2-5) pc(1) by (intro asm_ok_snoc [OF a]) simp_all
  then show "\<exists>b. emit_bytes fresh ws a = Some b \<and> asm_ok (xs @ [i]) bnd b \<and> same_advance a b"
    using b(1) by (simp add: same_advance_def)
qed

lemma emits_Word: "emits [Word w] (Emit32 fresh w)"
  unfolding Emit32_def by (rule emits_plain) (auto simp: holds_def intro: get_bytes_at(1) [OF _ refl])

lemma emits_Half: "emits [Half w] (Emit16 fresh w)"
  unfolding Emit16_def by (rule emits_plain) (auto simp: holds_def intro: get_bytes_at(2) [OF _ refl])

lemma emits_Emit: "emits [Word (push_bit BYTECODE_SHIFT arg OR byte)] (Emit fresh byte arg)"
  unfolding Emit_def by (rule emits_Word)

text \<open>Appending a reference.\<close>

lemma emits_Ref: "emits [Ref l] (EmitOrLink fresh l)"
  unfolding emits_def
proof (intro allI impI, elim conjE)
  fix xs bnd a
  assume a: "asm_ok xs bnd a" and n: "items_size (xs @ [Ref l]) < 2 ^ 31" and ne: "xs \<noteq> [] \<or> (\<exists>w r. [Ref l] = Word w # r)"
  have pc: "rx_pc a = items_size xs" "rx_pc a \<le> length (rx_buffer a)" "4 \<le> length (rx_buffer a)" using a by (simp_all add: asm_ok_def)
  define v where "v = (case bnd l of Some p \<Rightarrow> p | None \<Rightarrow> (case refs xs l of [] \<Rightarrow> 0 | q # _ \<Rightarrow> q))"
  define ls where "ls = (case bnd l of Some p \<Rightarrow> rx_labels a | None \<Rightarrow> (rx_labels a)(l := link_to (rx_pc a)))"
  have l: "label_ok xs bnd a l" using a by (simp add: asm_ok_def)
  have eq: "EmitOrLink fresh l a = Emit32 fresh (of_nat v) (a\<lparr>rx_labels := ls\<rparr>)"
    using l by (auto simp: EmitOrLink_def v_def ls_def label_ok_def is_bound_def is_linked_def bind_to_def link_to_def label_pos_def
        Let_def split: option.splits list.splits)
  have ws: "bytes32 (of_nat v) \<noteq> []" by (simp add: bytes32_def)
  obtain buf own where b: "emit_bytes fresh (bytes32 (of_nat v)) (a\<lparr>rx_labels := ls\<rparr>) =
        Some (a\<lparr>rx_labels := ls, rx_buffer := buf, rx_pc := rx_pc a + 4, rx_own_buffer := own\<rparr>)"
      "same_below (rx_pc a) (rx_buffer a) buf" "rx_pc a + 4 \<le> length buf" "4 \<le> length buf"
      "\<forall>k < 4. buf ! (rx_pc a + k) = bytes32 (of_nat v) ! k"
    using emit_bytes_ok [of "a\<lparr>rx_labels := ls\<rparr>" "bytes32 (of_nat v)" fresh] pc ws by auto
  let ?b = "a\<lparr>rx_labels := ls, rx_buffer := buf, rx_pc := rx_pc a + 4, rx_own_buffer := own\<rparr>"
  have g: "get32 buf (items_size xs) = of_nat v" using get_bytes_at(1) [of "bytes32 (of_nat v)" buf "rx_pc a"] b(5) pc(1) by simp
  have buf: "same_below (items_size xs) (rx_buffer a) (rx_buffer ?b)" using b(2) pc(1) by simp
  have "xs \<noteq> []" using ne by simp
  then have pos: "0 < items_size xs" using item_size_pos [of "hd xs"] by (cases xs) simp_all
  have lab: "label_ok (xs @ [Ref l]) bnd ?b m \<and> 0 \<notin> set (refs (xs @ [Ref l]) m)" for m
  proof -
    have m: "label_ok xs bnd a m" "0 \<notin> set (refs xs m)" using a by (simp_all add: asm_ok_def)
    show ?thesis
    proof (cases "m = l")
      case True
      show ?thesis using m g pos asm_ok_frame(2) [OF a buf, of l] pc(1) unfolding True
        by (cases "bnd l") (auto simp: label_ok_def ls_def v_def simp del: sum_list_eq_0_iff)
    next
      case False
      then show ?thesis using m asm_ok_frame(2) [OF a buf, of m]
        by (auto simp: label_ok_def ls_def split: option.splits)
    qed
  qed
  have "holds buf bnd (items_size xs, Ref l)" using g by (simp add: holds_def v_def split: option.splits)
  then have "asm_ok (xs @ [Ref l]) bnd ?b"
    using asm_ok_frame(1) [OF a buf] lab b(3,4) pc(1) by (simp add: asm_ok_def)
  then show "\<exists>b. EmitOrLink fresh l a = Some b \<and> asm_ok (xs @ [Ref l]) bnd b \<and> same_advance a b"
    using b(1) unfolding eq Emit32_def by (simp add: same_advance_def)
qed

section \<open>Binding\<close>

lemma fixup_ok:
  "chained buf as \<Longrightarrow> sorted_wrt (\<lambda>a b. b + 4 \<le> a) as \<Longrightarrow> 0 \<notin> set as \<Longrightarrow> \<forall>a \<in> set as. a + 4 \<le> length buf \<and> a < 2 ^ 32 \<Longrightarrow>
   \<exists>buf'. fixup pc (case as of [] \<Rightarrow> 0 | b # _ \<Rightarrow> b) buf = Some buf' \<and> length buf' = length buf \<and>
     (\<forall>a \<in> set as. get32 buf' a = pc) \<and> (\<forall>i. (\<forall>a \<in> set as. i < a \<or> a + 4 \<le> i) \<longrightarrow> buf' ! i = buf ! i)"
proof (induction as arbitrary: buf)
  case Nil
  then show ?case by (subst fixup.simps) simp
next
  case (Cons a as)
  let ?b = "put a (bytes32 pc) buf" and ?next = "case as of [] \<Rightarrow> 0 | b # _ \<Rightarrow> b"
  have a: "a \<noteq> 0" "a + 4 \<le> length buf" "\<forall>b \<in> set as. b + 4 \<le> a" using Cons.prems by auto
  have "?next < 2 ^ 32" using Cons.prems(4) by (cases as) simp_all
  then have u: "unat (get32 buf a) = ?next" using Cons.prems(1) by (simp add: unsigned_of_nat take_bit_nat_eq_self_iff)
  have step: "fixup pc a buf = fixup pc ?next ?b" using a u by (subst fixup.simps) simp
  have same: "same_below a ?b buf" using a(2) by (simp add: same_below_def put_nth)
  have "chained ?b as" using Cons.prems(1) chained_same [OF same] a(3) by simp
  then obtain buf' where b: "fixup pc ?next ?b = Some buf'" "length buf' = length ?b" "\<forall>c \<in> set as. get32 buf' c = pc"
      "\<forall>i. (\<forall>c \<in> set as. i < c \<or> c + 4 \<le> i) \<longrightarrow> buf' ! i = ?b ! i"
    using Cons.IH [of ?b] Cons.prems(2-4) a(2) by auto
  have out: "buf' ! i = ?b ! i" if "a \<le> i" for i
    using b(4) a(3) that by (meson order_trans)
  have "get32 buf' a = get32 ?b a" by (simp add: get32_def out)
  then have g: "get32 buf' a = pc" using a(2) by simp
  have "buf' ! i = buf ! i" if "\<forall>c \<in> set (a # as). i < c \<or> c + 4 \<le> i" for i
    using b(4) that a(2) by (auto simp: put_nth)
  then show ?case using b(1-3) a(2) g step by (intro exI [of _ buf']) simp
qed

lemma Bind_ok:
  assumes a: "asm_ok its bnd a" and l: "bnd l = None" and n: "items_size its < 2 ^ 31"
  shows "\<exists>b. Bind l a = Some b \<and> asm_ok its (bnd(l \<mapsto> items_size its)) b \<and> advance_current_end b = kInvalidPC"
proof -
  let ?as = "refs its l" and ?pc = "of_nat (rx_pc a) :: uint32"
  have pc: "rx_pc a = items_size its" "rx_pc a \<le> length (rx_buffer a)" "4 \<le> length (rx_buffer a)" using a by (simp_all add: asm_ok_def)
  have lab: "rx_labels a l = (case ?as of [] \<Rightarrow> 0 | q # _ \<Rightarrow> link_to q)" "chained (rx_buffer a) ?as" "0 \<notin> set ?as"
  proof -
    have "label_ok its bnd a l" "0 \<notin> set ?as" using a by (simp_all add: asm_ok_def)
    then show "rx_labels a l = (case ?as of [] \<Rightarrow> 0 | q # _ \<Rightarrow> link_to q)" "chained (rx_buffer a) ?as" "0 \<notin> set ?as"
      using l by (simp_all add: label_ok_def)
  qed
  have "\<forall>q \<in> set ?as. q + 4 \<le> length (rx_buffer a) \<and> q < 2 ^ 32"   proof
    fix q assume "q \<in> set ?as"
    then show "q + 4 \<le> length (rx_buffer a) \<and> q < 2 ^ 32" using refs_bound [of q its l] pc n by simp
  qed
  then obtain buf where buf: "fixup ?pc (case ?as of [] \<Rightarrow> 0 | q # _ \<Rightarrow> q) (rx_buffer a) = Some buf" "length buf = length (rx_buffer a)"
      "\<forall>q \<in> set ?as. get32 buf q = ?pc" "\<forall>i. (\<forall>q \<in> set ?as. i < q \<or> q + 4 \<le> i) \<longrightarrow> buf ! i = rx_buffer a ! i"
    using fixup_ok [OF lab(2) refs_spaced lab(3)] by blast
  let ?b = "a\<lparr>advance_current_end := kInvalidPC, rx_buffer := buf, rx_labels := (rx_labels a)(l := bind_to (rx_pc a))\<rparr>"
  have "Bind l a = Some ?b"
  proof (cases ?as)
    case Nil
    have "buf = rx_buffer a" using buf(2,4) Nil by (intro nth_equalityI) auto
    then show ?thesis using lab(1) Nil by (simp add: Bind_def is_linked_def)
  next
    case (Cons q qs)
    then show ?thesis using lab(1) buf(1) by (simp add: Bind_def is_linked_def label_pos_def link_to_def Let_def)
  qed
  have other: "get32 buf q = get32 (rx_buffer a) q" if "(q, i) \<in> set (positions 0 its)" "i \<noteq> Ref l" "item_size i = 4" for q i
  proof -
    have "\<forall>r \<in> set ?as. q + 4 \<le> r \<or> r + 4 \<le> q" using positions_apart [OF that(1)] that(2,3) by (fastforce simp: refs_iff)
    then have "buf ! (q + k) = rx_buffer a ! (q + k)" if "k < 4" for k using buf(4) that by (meson add_less_cancel_left less_le_trans trans_le_add1)
    from this [of 0] this [of 1] this [of 2] this [of 3] show ?thesis by (simp add: get32_def)
  qed
  have other16: "get16 buf q = get16 (rx_buffer a) q" if "(q, Half w) \<in> set (positions 0 its)" for q w
  proof -
    have "\<forall>r \<in> set ?as. q + 2 \<le> r \<or> r + 4 \<le> q" using positions_apart [OF that] by (fastforce simp: refs_iff)
    then have "buf ! (q + k) = rx_buffer a ! (q + k)" if "k < 2" for k using buf(4) that by (meson add_less_cancel_left less_le_trans trans_le_add1)
    from this [of 0] this [of 1] show ?thesis by (simp add: get16_def)
  qed
  have "holds buf (bnd(l \<mapsto> items_size its)) (q, i)" if qi: "(q, i) \<in> set (positions 0 its)" for q i
  proof -
    have h: "holds (rx_buffer a) bnd (q, i)" using a qi unfolding asm_ok_def by blast
    show ?thesis
    proof (cases i)
      case (Word w)
      then show ?thesis using h other [OF qi] by (simp add: holds_def)
    next
      case (Half w)
      then show ?thesis using h other16 qi by (auto simp: holds_def)
    next
      case (Ref m)
      show ?thesis
      proof (cases "m = l")
        case True
        then have "q \<in> set ?as" using qi Ref by (simp add: refs_iff)
        then show ?thesis using buf(3) Ref True pc(1) by (simp add: holds_def)
      next
        case False
        then show ?thesis using h other [OF qi] Ref by (simp add: holds_def split: option.splits)
      qed
    qed
  qed
  moreover have "label_ok its (bnd(l \<mapsto> items_size its)) ?b m \<and> 0 \<notin> set (refs its m)" for m
  proof (cases "m = l")
    case True
    then show ?thesis using lab(3) pc(1) by (simp add: label_ok_def)
  next
    case False
    have m: "label_ok its bnd a m" "0 \<notin> set (refs its m)" using a by (simp_all add: asm_ok_def)
    have "get32 buf q = get32 (rx_buffer a) q" if "q \<in> set (refs its m)" for q
      using other [of q "Ref m"] that False by (simp add: refs_iff)
    then have "chained buf qs \<longleftrightarrow> chained (rx_buffer a) qs" if "set qs \<subseteq> set (refs its m)" for qs
      using that by (induction qs) auto
    from this [OF order_refl] show ?thesis using m False by (simp add: label_ok_def split: option.splits)
  qed
  ultimately have "asm_ok its (bnd(l \<mapsto> items_size its)) ?b" using pc buf(2) unfolding asm_ok_def by auto
  then show ?thesis using \<open>Bind l a = Some ?b\<close> by simp
qed

end
