(* ===== verification/IrregexpProgram.thy ===== *)
theory IrregexpProgram
  imports IrregexpLayout
begin

text \<open>
  The program a sequence of calls of the assembler stands for: a list of lines, each an instruction or the
  target of a label, with an advance of the position and a jump that follows it put together. The code of a
  program is given by a second pass: once every line has its address, the bytes of an instruction are
  those of its items. The assembler, which makes one pass, is shown to write this code.
\<close>

section \<open>Programs\<close>

text \<open>A label of \<open>ILoad\<close> is there when the load checks the end of the subject.\<close>

datatype rx_instr =
    IPushCp
  | IPushBt label
  | IPushRegister uint32
  | ISetRegister uint32 uint32
  | IAdvanceRegister uint32 uint32
  | ISetRegisterToCp uint32 uint32
  | ISetCpToRegister uint32
  | ISetRegisterToSp uint32
  | ISetSpToRegister uint32
  | IPopCp
  | IPopBt
  | IPopRegister uint32
  | IFail
  | ISucceed
  | IAdvanceCp uint32
  | IGoTo label
  | IAdvanceCpAndGoTo uint32 label
  | ICheckGreedy label
  | ILoad nat uint32 "label option"
  | ICheckChar uint32 label
  | ICheckNotChar uint32 label
  | IAndCheckChar uint32 uint32 label
  | IAndCheckNotChar uint32 uint32 label
  | IMinusAndCheckNotChar uint16 uint16 uint16 label
  | ICheckLT uint16 label
  | ICheckGT uint16 label
  | IRegisterLT uint32 uint32 label
  | IRegisterGE uint32 uint32 label
  | IRegisterEqPos uint32 label
  | INotRegsEqual uint32 uint32 label
  | INotBackRef uint32 label
  | INotBackRefNoCase uint32 label
  | ICheckAtStart label
  | ICheckNotAtStart label
  | ISetCpFromEnd uint32

datatype rx_line = Instr rx_instr | Target label

fun call_lines :: "rx_call \<Rightarrow> rx_line list" where
  "call_lines (CBind l) = [Target (Some l)]"
| "call_lines (CAdvanceCurrentPosition v) = [Instr (IAdvanceCp v)]"
| "call_lines CPopCurrentPosition = [Instr IPopCp]"
| "call_lines CPushCurrentPosition = [Instr IPushCp]"
| "call_lines CBacktrack = [Instr IPopBt]"
| "call_lines (CGoTo l) = [Instr (IGoTo l)]"
| "call_lines (CPushBacktrack l) = [Instr (IPushBt l)]"
| "call_lines CSucceed = [Instr ISucceed]"
| "call_lines CFail = [Instr IFail]"
| "call_lines (CPopRegister r) = [Instr (IPopRegister r)]"
| "call_lines (CPushRegister r) = [Instr (IPushRegister r)]"
| "call_lines (CAdvanceRegister r v) = [Instr (IAdvanceRegister r v)]"
| "call_lines (CSetCurrentPositionFromEnd n) = [Instr (ISetCpFromEnd n)]"
| "call_lines (CSetRegister r v) = [Instr (ISetRegister r v)]"
| "call_lines (CWriteCurrentPositionToRegister r v) = [Instr (ISetRegisterToCp r v)]"
| "call_lines (CClearRegisters r s) = map (\<lambda>reg. Instr (ISetRegister (word_of_int reg) (- 1))) [sint r..sint s]"
| "call_lines (CReadCurrentPositionFromRegister r) = [Instr (ISetCpToRegister r)]"
| "call_lines (CWriteStackPointerToRegister r) = [Instr (ISetRegisterToSp r)]"
| "call_lines (CReadStackPointerFromRegister r) = [Instr (ISetSpToRegister r)]"
| "call_lines (CLoadCurrentCharacter v l b n) = [Instr (ILoad n v (if b then Some l else None))]"
| "call_lines (CCheckCharacter c l) = [Instr (ICheckChar c l)]"
| "call_lines (CCheckCharacterAfterAnd c m l) = [Instr (IAndCheckChar c m l)]"
| "call_lines (CCheckCharacterGT c l) = [Instr (ICheckGT c l)]"
| "call_lines (CCheckCharacterLT c l) = [Instr (ICheckLT c l)]"
| "call_lines (CCheckGreedyLoop l) = [Instr (ICheckGreedy l)]"
| "call_lines (CCheckAtStart l) = [Instr (ICheckAtStart l)]"
| "call_lines (CCheckNotAtStart l) = [Instr (ICheckNotAtStart l)]"
| "call_lines (CCheckNotCharacter c l) = [Instr (ICheckNotChar c l)]"
| "call_lines (CCheckNotCharacterAfterAnd c m l) = [Instr (IAndCheckNotChar c m l)]"
| "call_lines (CCheckNotCharacterAfterMinusAnd c s m l) = [Instr (IMinusAndCheckNotChar c s m l)]"
| "call_lines (CCheckNotBackReference r l) = [Instr (INotBackRef r l)]"
| "call_lines (CCheckNotBackReferenceIgnoreCase r l) = [Instr (INotBackRefNoCase r l)]"
| "call_lines (CCheckNotRegistersEqual r s l) = [Instr (INotRegsEqual r s l)]"
| "call_lines (CCheckCharacters str v l b) =
     concat (map (\<lambda>i. [Instr (ILoad 1 (v + of_nat i) (if b \<and> i = length str - 1 then Some l else None)),
                       Instr (ICheckNotChar (ucast (str ! i)) l)]) (rev [0..<length str]))"
| "call_lines (CIfRegisterLT r v l) = [Instr (IRegisterLT r v l)]"
| "call_lines (CIfRegisterGE r v l) = [Instr (IRegisterGE r v l)]"
| "call_lines (CIfRegisterEqPos r l) = [Instr (IRegisterEqPos r l)]"

definition add_line :: "rx_line list \<Rightarrow> rx_line \<Rightarrow> rx_line list" where
  "add_line ls x = (case (ls, x) of
      (_ # _, Instr (IGoTo l)) \<Rightarrow>
        (case last ls of Instr (IAdvanceCp v) \<Rightarrow> butlast ls @ [Instr (IAdvanceCpAndGoTo v l)] | _ \<Rightarrow> ls @ [x])
    | _ \<Rightarrow> ls @ [x])"

definition program :: "rx_call list \<Rightarrow> rx_line list" where
  "program calls = foldl add_line [] (concat (map call_lines calls)) @ [Target None, Instr IPopBt]"

section \<open>The second pass\<close>

abbreviation code_word :: "uint32 \<Rightarrow> uint32 \<Rightarrow> item" where
  "code_word byte arg \<equiv> Word (push_bit BYTECODE_SHIFT arg OR byte)"

fun instr_items :: "rx_instr \<Rightarrow> item list" where
  "instr_items IPushCp = [code_word BC_PUSH_CP 0]"
| "instr_items (IPushBt l) = [code_word BC_PUSH_BT 0, Ref l]"
| "instr_items (IPushRegister r) = [code_word BC_PUSH_REGISTER r]"
| "instr_items (ISetRegister r v) = [code_word BC_SET_REGISTER r, Word v]"
| "instr_items (IAdvanceRegister r v) = [code_word BC_ADVANCE_REGISTER r, Word v]"
| "instr_items (ISetRegisterToCp r v) = [code_word BC_SET_REGISTER_TO_CP r, Word v]"
| "instr_items (ISetCpToRegister r) = [code_word BC_SET_CP_TO_REGISTER r]"
| "instr_items (ISetRegisterToSp r) = [code_word BC_SET_REGISTER_TO_SP r]"
| "instr_items (ISetSpToRegister r) = [code_word BC_SET_SP_TO_REGISTER r]"
| "instr_items IPopCp = [code_word BC_POP_CP 0]"
| "instr_items IPopBt = [code_word BC_POP_BT 0]"
| "instr_items (IPopRegister r) = [code_word BC_POP_REGISTER r]"
| "instr_items IFail = [code_word BC_FAIL 0]"
| "instr_items ISucceed = [code_word BC_SUCCEED 0]"
| "instr_items (IAdvanceCp v) = [code_word BC_ADVANCE_CP v]"
| "instr_items (IGoTo l) = [code_word BC_GOTO 0, Ref l]"
| "instr_items (IAdvanceCpAndGoTo v l) = [code_word BC_ADVANCE_CP_AND_GOTO v, Ref l]"
| "instr_items (ICheckGreedy l) = [code_word BC_CHECK_GREEDY 0, Ref l]"
| "instr_items (ILoad n v l) = code_word (load_bytecode (l \<noteq> None) n) v # (case l of None \<Rightarrow> [] | Some l \<Rightarrow> [Ref l])"
| "instr_items (ICheckChar c l) =
     (if c > MAX_FIRST_ARG then [code_word BC_CHECK_4_CHARS 0, Word c, Ref l] else [code_word BC_CHECK_CHAR c, Ref l])"
| "instr_items (ICheckNotChar c l) =
     (if c > MAX_FIRST_ARG then [code_word BC_CHECK_NOT_4_CHARS 0, Word c, Ref l] else [code_word BC_CHECK_NOT_CHAR c, Ref l])"
| "instr_items (IAndCheckChar c m l) =
     (if c > MAX_FIRST_ARG then [code_word BC_AND_CHECK_4_CHARS 0, Word c] else [code_word BC_AND_CHECK_CHAR c]) @ [Word m, Ref l]"
| "instr_items (IAndCheckNotChar c m l) =
     (if c > MAX_FIRST_ARG then [code_word BC_AND_CHECK_NOT_4_CHARS 0, Word c] else [code_word BC_AND_CHECK_NOT_CHAR c]) @ [Word m, Ref l]"
| "instr_items (IMinusAndCheckNotChar c s m l) = [code_word BC_MINUS_AND_CHECK_NOT_CHAR (ucast c), Half s, Half m, Ref l]"
| "instr_items (ICheckLT c l) = [code_word BC_CHECK_LT (ucast c), Ref l]"
| "instr_items (ICheckGT c l) = [code_word BC_CHECK_GT (ucast c), Ref l]"
| "instr_items (IRegisterLT r v l) = [code_word BC_CHECK_REGISTER_LT r, Word v, Ref l]"
| "instr_items (IRegisterGE r v l) = [code_word BC_CHECK_REGISTER_GE r, Word v, Ref l]"
| "instr_items (IRegisterEqPos r l) = [code_word BC_CHECK_REGISTER_EQ_POS r, Ref l]"
| "instr_items (INotRegsEqual r s l) = [code_word BC_CHECK_NOT_REGS_EQUAL r, Word s, Ref l]"
| "instr_items (INotBackRef r l) = [code_word BC_CHECK_NOT_BACK_REF r, Ref l]"
| "instr_items (INotBackRefNoCase r l) = [code_word BC_CHECK_NOT_BACK_REF_NO_CASE r, Ref l]"
| "instr_items (ICheckAtStart l) = [code_word BC_CHECK_AT_START 0, Ref l]"
| "instr_items (ICheckNotAtStart l) = [code_word BC_CHECK_NOT_AT_START 0, Ref l]"
| "instr_items (ISetCpFromEnd n) = [code_word BC_SET_CURRENT_POSITION_FROM_END n]"

fun line_items :: "rx_line \<Rightarrow> item list" where
  "line_items (Instr i) = instr_items i"
| "line_items (Target l) = []"

definition items :: "rx_line list \<Rightarrow> item list" where
  "items ls = concat (map line_items ls)"

fun target :: "nat \<Rightarrow> rx_line list \<Rightarrow> label \<Rightarrow> nat option" where
  "target p [] l = None"
| "target p (Target m # ls) l = (if m = l then Some p else target p ls l)"
| "target p (Instr i # ls) l = target (p + items_size (instr_items i)) ls l"

fun item_bytes :: "(label \<Rightarrow> nat option) \<Rightarrow> item \<Rightarrow> uint8 list" where
  "item_bytes bnd (Word w) = bytes32 w"
| "item_bytes bnd (Half w) = bytes16 w"
| "item_bytes bnd (Ref l) = bytes32 (of_nat (the (bnd l)))"

definition program_code :: "rx_line list \<Rightarrow> uint8 list" where
  "program_code ls = concat (map (item_bytes (target 0 ls)) (items ls))"

end
