(* ===== verification/IrregexpTwoPass.thy ===== *)
theory IrregexpTwoPass
  imports IrregexpProgram
begin

text \<open>
  The assembler writes the code of the program: after each call the items of the lines so far are in the
  buffer, with the labels bound whose targets are among the lines.
\<close>

section \<open>Lines\<close>

lemma items_simps [simp]: "items [] = []" "items (xs @ ys) = items xs @ items ys" "items (x # xs) = line_items x @ items xs"
  by (simp_all add: items_def)

lemma target_append: "target p (xs @ ys) l = (case target p xs l of Some a \<Rightarrow> Some a | None \<Rightarrow> target (p + items_size (items xs)) ys l)"
proof (induction xs arbitrary: p)
  case (Cons x xs)
  then show ?case by (cases x) (simp_all add: add.assoc split: option.split)
qed (simp split: option.split)

lemma target_snoc_Instr [simp]: "target p (xs @ [Instr i]) = target p xs"
  by (rule ext) (simp add: target_append split: option.split)

lemma target_snoc_Target: "target p xs l = None \<Longrightarrow> target p (xs @ [Target l]) = (target p xs)(l \<mapsto> p + items_size (items xs))"
  by (rule ext) (auto simp: target_append split: option.split)

lemma instr_items_Word: "\<exists>w r. instr_items i = Word w # r"
  by (cases i) auto

lemma instr_size_pos: "4 \<le> items_size (instr_items i)"
  using instr_items_Word [of i] by auto

lemma add_line_Target [simp]: "add_line ls (Target l) = ls @ [Target l]"
  by (cases ls) (simp_all add: add_line_def)

definition last_advance :: "rx_line list \<Rightarrow> uint32 option" where
  "last_advance ls = (if ls = [] then None else case last ls of Instr (IAdvanceCp v) \<Rightarrow> Some v | _ \<Rightarrow> None)"

lemma last_advance_snoc [simp]: "last_advance (ls @ [x]) = (case x of Instr (IAdvanceCp v) \<Rightarrow> Some v | _ \<Rightarrow> None)"
  by (simp add: last_advance_def)

lemma last_advance_SomeD: "last_advance ls = Some v \<Longrightarrow> \<exists>ks. ls = ks @ [Instr (IAdvanceCp v)]"
  by (cases ls rule: rev_cases) (auto simp: last_advance_def split: rx_line.splits rx_instr.splits)

lemma add_line_Instr:
  assumes "\<And>l. i \<noteq> IGoTo l"
  shows "add_line ls (Instr i) = ls @ [Instr i]"
proof (cases ls)
  case (Cons x xs)
  then show ?thesis using assms by (cases i) (auto simp: add_line_def)
qed (simp add: add_line_def)

lemma add_line_GoTo: "add_line ls (Instr (IGoTo l)) =
    (case last_advance ls of Some v \<Rightarrow> butlast ls @ [Instr (IAdvanceCpAndGoTo v l)] | None \<Rightarrow> ls @ [Instr (IGoTo l)])"
proof (cases ls)
  case (Cons x xs)
  then show ?thesis by (cases "last ls") (auto simp: add_line_def last_advance_def split: rx_instr.split)
qed (simp add: add_line_def last_advance_def)

lemma add_line_size: "items_size (items ls) \<le> items_size (items (add_line ls x))"
proof (cases "\<exists>l. x = Instr (IGoTo l)")
  case True
  then obtain l where x: "x = Instr (IGoTo l)" by blast
  show ?thesis
  proof (cases "last_advance ls")
    case (Some v)
    then obtain ks where "ls = ks @ [Instr (IAdvanceCp v)]" using last_advance_SomeD by blast
    then show ?thesis by (simp add: x add_line_GoTo)
  qed (simp add: x add_line_GoTo)
next
  case False
  then show ?thesis by (cases x) (simp_all add: add_line_Instr)
qed

lemma add_lines_size: "items_size (items ls) \<le> items_size (items (foldl add_line ls xs))"
  by (induction xs arbitrary: ls) (auto intro: order_trans [OF add_line_size])

section \<open>The state after some lines\<close>

definition lines_ok :: "rx_line list \<Rightarrow> assembler \<Rightarrow> bool" where
  "lines_ok ls a \<longleftrightarrow> asm_ok (items ls) (target 0 ls) a \<and>
     (case last_advance ls of
        None \<Rightarrow> advance_current_end a < int (rx_pc a)
      | Some v \<Rightarrow> advance_current_end a = int (rx_pc a) \<and> advance_current_offset a = v \<and>
          advance_current_start a = items_size (items (butlast ls)))"

lemma lines_ok_pc: "lines_ok ls a \<Longrightarrow> rx_pc a = items_size (items ls) \<and> advance_current_end a \<le> int (rx_pc a)"
  by (auto simp: lines_ok_def asm_ok_def split: option.splits)

definition adds :: "rx_line list \<Rightarrow> (assembler \<Rightarrow> assembler option) \<Rightarrow> bool" where
  "adds xs f \<longleftrightarrow> (\<forall>ls a. lines_ok ls a \<and> items_size (items (foldl add_line ls xs)) < 2 ^ 31 \<and>
       (\<forall>l. Target l \<in> set xs \<longrightarrow> target 0 ls l = None) \<longrightarrow>
     (\<exists>b. f a = Some b \<and> lines_ok (foldl add_line ls xs) b))"

lemma adds_Nil: "adds [] Some"
  by (simp add: adds_def)

lemma emits_instr:
  assumes e: "emits (instr_items i) f" and ls: "asm_ok (items ls) (target 0 ls) a" "items_size (items ls) + items_size (instr_items i) < 2 ^ 31"
  shows "\<exists>b. f a = Some b \<and> asm_ok (items (ls @ [Instr i])) (target 0 (ls @ [Instr i])) b \<and> same_advance a b"
  using e [unfolded emits_def, rule_format, of "items ls" "target 0 ls" a] ls instr_items_Word [of i] by simp

lemma adds_instr:
  assumes e: "emits (instr_items i) f" and i: "\<And>l. i \<noteq> IGoTo l" "\<And>v. i \<noteq> IAdvanceCp v"
  shows "adds [Instr i] f"
  unfolding adds_def
proof (intro allI impI, elim conjE)
  fix ls a
  assume ls: "lines_ok ls a" "items_size (items (foldl add_line ls [Instr i])) < 2 ^ 31"
  have add: "foldl add_line ls [Instr i] = ls @ [Instr i]" using i(1) by (simp add: add_line_Instr)
  obtain b where b: "f a = Some b" "asm_ok (items (ls @ [Instr i])) (target 0 (ls @ [Instr i])) b" "same_advance a b"
    using emits_instr [OF e, of ls a] ls add by (auto simp: lines_ok_def)
  have "rx_pc b = rx_pc a + items_size (instr_items i)" using b(2) lines_ok_pc [OF ls(1)] by (simp add: asm_ok_def)
  then have "advance_current_end b < int (rx_pc b)"
    using lines_ok_pc [OF ls(1)] instr_size_pos [of i] b(3) by (simp add: same_advance_def)
  moreover have "last_advance (ls @ [Instr i]) = None" using i(2) by (simp split: rx_instr.split)
  ultimately show "\<exists>b. f a = Some b \<and> lines_ok (foldl add_line ls [Instr i]) b"
    unfolding add lines_ok_def using b(1,2) by simp
qed

lemma target_add_line: "target 0 (add_line ls x) l = None \<longleftrightarrow> target 0 ls l = None \<and> x \<noteq> Target l"
proof (cases x)
  case (Target m)
  then show ?thesis by (auto simp: target_append split: option.split)
next
  case (Instr i)
  show ?thesis
  proof (cases "\<exists>m. i = IGoTo m")
    case True
    then obtain m where x: "x = Instr (IGoTo m)" using Instr by blast
    show ?thesis
    proof (cases "last_advance ls")
      case (Some v)
      then obtain ks where "ls = ks @ [Instr (IAdvanceCp v)]" using last_advance_SomeD by blast
      then show ?thesis by (simp add: x add_line_GoTo)
    qed (simp add: x add_line_GoTo)
  next
    case False
    then have "add_line ls (Instr i) = ls @ [Instr i]" by (intro add_line_Instr) blast
    then show ?thesis by (simp add: Instr)
  qed
qed

lemma target_add_lines: "target 0 (foldl add_line ls xs) l = None \<longleftrightarrow> target 0 ls l = None \<and> Target l \<notin> set xs"
  by (induction xs arbitrary: ls) (auto simp: target_add_line)

lemma adds_then:
  assumes f: "adds xs f" and g: "adds ys g" and d: "\<And>l. Target l \<in> set xs \<Longrightarrow> Target l \<notin> set ys"
  shows "adds (xs @ ys) (\<lambda>a. do { a \<leftarrow> f a; g a })"
  unfolding adds_def
proof (intro allI impI, elim conjE)
  fix ls a
  assume ls: "lines_ok ls a" "items_size (items (foldl add_line ls (xs @ ys))) < 2 ^ 31"
    "\<forall>l. Target l \<in> set (xs @ ys) \<longrightarrow> target 0 ls l = None"
  have "items_size (items (foldl add_line ls xs)) < 2 ^ 31"
    using ls(2) add_lines_size [of "foldl add_line ls xs" ys] by simp
  then obtain b where b: "f a = Some b" "lines_ok (foldl add_line ls xs) b"
    using f ls(1,3) unfolding adds_def by (metis Un_iff set_append)
  have "\<forall>l. Target l \<in> set ys \<longrightarrow> target 0 (foldl add_line ls xs) l = None"
    using ls(3) d by (auto simp: target_add_lines)
  then obtain c where "g b = Some c" "lines_ok (foldl add_line (foldl add_line ls xs) ys) c"
    using g b(2) ls(2) unfolding adds_def by fastforce
  then show "\<exists>c. (do { a \<leftarrow> f a; g a }) = Some c \<and> lines_ok (foldl add_line ls (xs @ ys)) c" using b(1) by simp
qed

lemma asm_ok_advance [simp]:
  "asm_ok its bnd (a\<lparr>advance_current_start := x\<rparr>) = asm_ok its bnd a"
  "asm_ok its bnd (a\<lparr>advance_current_offset := y\<rparr>) = asm_ok its bnd a"
  "asm_ok its bnd (a\<lparr>advance_current_end := z\<rparr>) = asm_ok its bnd a"
  by (simp_all add: asm_ok_def label_ok_def cong: option.case_cong)

lemma adds_AdvanceCp: "adds [Instr (IAdvanceCp v)] (AdvanceCurrentPosition fresh v)"
  unfolding adds_def
proof (intro allI impI, elim conjE)
  fix ls a
  assume ls: "lines_ok ls a" "items_size (items (foldl add_line ls [Instr (IAdvanceCp v)])) < 2 ^ 31"
  have add: "foldl add_line ls [Instr (IAdvanceCp v)] = ls @ [Instr (IAdvanceCp v)]" by (simp add: add_line_Instr)
  let ?a = "a\<lparr>advance_current_start := rx_pc a, advance_current_offset := v\<rparr>"
  have "emits (instr_items (IAdvanceCp v)) (Emit fresh BC_ADVANCE_CP v)" unfolding instr_items.simps by (rule emits_Emit)
  then obtain b where b: "Emit fresh BC_ADVANCE_CP v ?a = Some b"
      "asm_ok (items (ls @ [Instr (IAdvanceCp v)])) (target 0 (ls @ [Instr (IAdvanceCp v)])) b" "same_advance ?a b"
    using emits_instr [of "IAdvanceCp v" "Emit fresh BC_ADVANCE_CP v" ls ?a] ls add by (auto simp: lines_ok_def)
  then have "AdvanceCurrentPosition fresh v a = Some (b\<lparr>advance_current_end := int (rx_pc b)\<rparr>)"
    by (simp add: AdvanceCurrentPosition_def)
  moreover have "lines_ok (ls @ [Instr (IAdvanceCp v)]) (b\<lparr>advance_current_end := int (rx_pc b)\<rparr>)"
    using b(2,3) lines_ok_pc [OF ls(1)] unfolding lines_ok_def by (simp add: same_advance_def)
  ultimately show "\<exists>b. AdvanceCurrentPosition fresh v a = Some b \<and> lines_ok (foldl add_line ls [Instr (IAdvanceCp v)]) b"
    unfolding add by blast
qed

lemma emits_label: "emits [code_word byte arg, Ref l] (emit_label fresh byte arg l)"
  using emits_then [OF emits_Emit emits_Ref] unfolding emit_label_def [abs_def] by simp

lemma asm_ok_butlast:
  assumes "asm_ok (its @ [Word w]) bnd a"
  shows "asm_ok its bnd (a\<lparr>rx_pc := items_size its\<rparr>)"
proof -
  have "label_ok its bnd a l \<and> 0 \<notin> set (refs its l)" for l
  proof -
    have "label_ok (its @ [Word w]) bnd a l" "0 \<notin> set (refs (its @ [Word w]) l)" using assms by (simp_all add: asm_ok_def)
    then show ?thesis by (simp add: label_ok_def split: option.splits)
  qed
  then show ?thesis using assms by (simp add: asm_ok_def label_ok_def cong: option.case_cong)
qed

lemma adds_GoTo: "adds [Instr (IGoTo l)] (GoTo fresh l)"
  unfolding adds_def
proof (intro allI impI, elim conjE)
  fix ls a
  assume ls: "lines_ok ls a" "items_size (items (foldl add_line ls [Instr (IGoTo l)])) < 2 ^ 31"
  have ok: "asm_ok (items ls) (target 0 ls) a" using ls(1) by (simp add: lines_ok_def)
  show "\<exists>b. GoTo fresh l a = Some b \<and> lines_ok (foldl add_line ls [Instr (IGoTo l)]) b"
  proof (cases "last_advance ls")
    case None
    have add: "foldl add_line ls [Instr (IGoTo l)] = ls @ [Instr (IGoTo l)]" using None by (simp add: add_line_GoTo)
    have e: "advance_current_end a < int (rx_pc a)" using ls(1) None by (simp add: lines_ok_def)
    have "emits (instr_items (IGoTo l)) (emit_label fresh BC_GOTO 0 l)" unfolding instr_items.simps by (rule emits_label)
    then obtain b where b: "emit_label fresh BC_GOTO 0 l a = Some b"
        "asm_ok (items (ls @ [Instr (IGoTo l)])) (target 0 (ls @ [Instr (IGoTo l)])) b" "same_advance a b"
      using emits_instr [of "IGoTo l" "emit_label fresh BC_GOTO 0 l" ls a] ok ls(2) add by auto
    have "rx_pc b = rx_pc a + 8" using b(2) ok by (simp add: asm_ok_def)
    then have "lines_ok (ls @ [Instr (IGoTo l)]) b" using b(2,3) e unfolding lines_ok_def by (simp add: same_advance_def)
    then show ?thesis unfolding add using b(1) e by (simp add: GoTo_def)
  next
    case (Some v)
    then obtain ks where ks: "ls = ks @ [Instr (IAdvanceCp v)]" using last_advance_SomeD by blast
    let ?i = "IAdvanceCpAndGoTo v l"
    have add: "foldl add_line ls [Instr (IGoTo l)] = ks @ [Instr ?i]" using Some by (simp add: add_line_GoTo ks)
    have adv: "advance_current_end a = int (rx_pc a)" "advance_current_offset a = v" "advance_current_start a = items_size (items ks)"
      using ls(1) Some by (simp_all add: lines_ok_def ks)
    let ?a = "a\<lparr>rx_pc := advance_current_start a\<rparr>"
    have a: "asm_ok (items ks) (target 0 ks) ?a" using asm_ok_butlast ok unfolding adv(3) by (simp add: ks)
    have "emits (instr_items ?i) (emit_label fresh BC_ADVANCE_CP_AND_GOTO v l)" unfolding instr_items.simps by (rule emits_label)
    then obtain b where b: "emit_label fresh BC_ADVANCE_CP_AND_GOTO v l ?a = Some b"
        "asm_ok (items (ks @ [Instr ?i])) (target 0 (ks @ [Instr ?i])) b"
      using emits_instr [of ?i "emit_label fresh BC_ADVANCE_CP_AND_GOTO v l" ks ?a] a ls(2) add by auto
    then have "GoTo fresh l a = Some (b\<lparr>advance_current_end := kInvalidPC\<rparr>)" using adv(1,2) by (simp add: GoTo_def)
    moreover have "lines_ok (ks @ [Instr ?i]) (b\<lparr>advance_current_end := kInvalidPC\<rparr>)"
      using b(2) unfolding lines_ok_def by (simp add: kInvalidPC_def)
    ultimately show ?thesis unfolding add by blast
  qed
qed

lemma adds_Bind: "adds [Target l] (Bind l)"
  unfolding adds_def
proof (intro allI impI, elim conjE)
  fix ls a
  assume ls: "lines_ok ls a" "items_size (items (foldl add_line ls [Target l])) < 2 ^ 31" "\<forall>m. Target m \<in> set [Target l] \<longrightarrow> target 0 ls m = None"
  have t: "target 0 ls l = None" using ls(3) by simp
  have a: "asm_ok (items ls) (target 0 ls) a" using ls(1) by (simp add: lines_ok_def)
  obtain b where b: "Bind l a = Some b" "asm_ok (items ls) ((target 0 ls)(l \<mapsto> items_size (items ls))) b" "advance_current_end b = kInvalidPC"
    using Bind_ok [OF a t] ls(2) by auto
  have "lines_ok (ls @ [Target l]) b"
    using b(2,3) unfolding lines_ok_def target_snoc_Target [OF t] by (simp add: kInvalidPC_def)
  then show "\<exists>b. Bind l a = Some b \<and> lines_ok (foldl add_line ls [Target l]) b" using b(1) by simp
qed

section \<open>The calls\<close>

lemma emits_Cons: "emits [x] f \<Longrightarrow> emits zs g \<Longrightarrow> emits (x # zs) (\<lambda>a. do { a \<leftarrow> f a; g a })"
  using emits_then [of "[x]" f zs g] by simp

lemma emits_word_label: "emits [code_word byte arg, Word v, Ref l] (emit_word_label fresh byte arg v l)"
  unfolding emit_word_label_def [abs_def] by (intro emits_Cons emits_Emit emits_Word emits_Ref)

lemmas emits_rules = emits_Cons emits_Emit emits_Word emits_Half emits_Ref emits_label emits_word_label

lemma emits_CheckCharacter: "emits (instr_items (ICheckChar c l)) (CheckCharacter fresh c l)"
  by (cases "c > MAX_FIRST_ARG") (simp_all only: instr_items.simps CheckCharacter_def if_True if_False emits_rules)

lemma emits_CheckNotCharacter: "emits (instr_items (ICheckNotChar c l)) (CheckNotCharacter fresh c l)"
  by (cases "c > MAX_FIRST_ARG") (simp_all only: instr_items.simps CheckNotCharacter_def if_True if_False emits_rules)

lemma emits_SetRegister: "emits (instr_items (ISetRegister r v)) (SetRegister fresh r v)"
  unfolding instr_items.simps SetRegister_def [abs_def] by (intro emits_rules)

lemma option_bind_assoc: "Option.bind (Option.bind m f) g = Option.bind m (\<lambda>x. Option.bind (f x) g)"
  by (cases m) simp_all

lemma emits_AndCheck:
  "emits (instr_items (IAndCheckChar c m l)) (CheckCharacterAfterAnd fresh c m l)"
  "emits (instr_items (IAndCheckNotChar c m l)) (CheckNotCharacterAfterAnd fresh c m l)"
proof -
  note defs = CheckCharacterAfterAnd_def [abs_def] CheckNotCharacterAfterAnd_def [abs_def]
  show "emits (instr_items (IAndCheckChar c m l)) (CheckCharacterAfterAnd fresh c m l)"
  proof (cases "c > MAX_FIRST_ARG")
    case True
    show ?thesis unfolding defs instr_items.simps if_P [OF True] option_bind_assoc append.simps by (intro emits_rules)
  next
    case False
    show ?thesis unfolding defs instr_items.simps if_not_P [OF False] append.simps by (intro emits_rules)
  qed
  show "emits (instr_items (IAndCheckNotChar c m l)) (CheckNotCharacterAfterAnd fresh c m l)"
  proof (cases "c > MAX_FIRST_ARG")
    case True
    show ?thesis unfolding defs instr_items.simps if_P [OF True] option_bind_assoc append.simps by (intro emits_rules)
  next
    case False
    show ?thesis unfolding defs instr_items.simps if_not_P [OF False] append.simps by (intro emits_rules)
  qed
qed

lemma emits_Load:
  "emits (instr_items (ILoad n v (if b then Some l else None))) (LoadCurrentCharacter fresh v l b n)"
proof (cases b)
  case True
  then show ?thesis unfolding LoadCurrentCharacter_def [abs_def] by simp (intro emits_rules)
next
  case False
  have "(\<lambda>a. Option.bind (Emit fresh w v a) Some) = Emit fresh w v" for w by (rule ext) simp
  then show ?thesis using False emits_Emit unfolding LoadCurrentCharacter_def [abs_def] by simp
qed

lemma adds_one: "emits (instr_items i) f \<Longrightarrow> (\<And>l. i \<noteq> IGoTo l) \<Longrightarrow> (\<And>v. i \<noteq> IAdvanceCp v) \<Longrightarrow> adds [Instr i] f"
  by (rule adds_instr)

lemma adds_clear_loop: "adds (map (\<lambda>reg. Instr (ISetRegister (word_of_int reg) (- 1))) regs) (clear_loop fresh regs)"
proof (induction regs)
  case Nil
  then show ?case using adds_Nil by (simp add: fun_eq_iff [symmetric])
next
  case (Cons reg regs)
  have "adds [Instr (ISetRegister (word_of_int reg) (- 1))] (SetRegister fresh (word_of_int reg) (- 1))"
    by (intro adds_one emits_SetRegister) simp_all
  then have "adds ([Instr (ISetRegister (word_of_int reg) (- 1))] @ map (\<lambda>reg. Instr (ISetRegister (word_of_int reg) (- 1))) regs)
      (\<lambda>a. do { a \<leftarrow> SetRegister fresh (word_of_int reg) (- 1) a; clear_loop fresh regs a })"
    using Cons.IH by (rule adds_then) simp
  then show ?case by (simp add: clear_loop.simps [abs_def])
qed

lemma small_char: "\<not> ucast (c :: uint16) > MAX_FIRST_ARG"
proof -
  have "unat (ucast c :: uint32) = take_bit 32 (unat c)" by (simp add: unsigned_ucast_eq)
  also have "\<dots> \<le> unat c" by (rule take_bit_nat_less_eq_self)
  also have "\<dots> < 65536" using unsigned_less [of c] by simp
  finally show ?thesis by (simp add: MAX_FIRST_ARG_def word_less_nat_alt not_less)
qed

lemma adds_characters_loop:
  "adds (concat (map (\<lambda>i. [Instr (ILoad 1 (v + of_nat i) (if b \<and> i = length str - 1 then Some l else None)),
                          Instr (ICheckNotChar (ucast (str ! i)) l)]) (rev [0..<n])))
    (characters_loop fresh str v l b n)"
proof (induction n)
  case 0
  then show ?case using adds_Nil by (simp add: fun_eq_iff [symmetric])
next
  case (Suc n)
  let ?load = "ILoad 1 (v + of_nat n) (if b \<and> n = length str - 1 then Some l else None)" and ?c = "ucast (str ! n) :: uint32"
  let ?f = "\<lambda>a. if b \<and> n = length str - 1 then emit_label fresh BC_LOAD_CURRENT_CHAR (v + of_nat n) l a
      else Emit fresh BC_LOAD_CURRENT_CHAR_UNCHECKED (v + of_nat n) a"
  have "emits (instr_items ?load) ?f"
  proof (cases "b \<and> n = length str - 1")
    case True
    then show ?thesis using emits_label [where byte = BC_LOAD_CURRENT_CHAR] by (simp add: load_bytecode_def)
  next
    case False
    then show ?thesis using emits_Emit [where byte = BC_LOAD_CURRENT_CHAR_UNCHECKED] by (auto simp: load_bytecode_def)
  qed
  then have l: "adds [Instr ?load] ?f" by (rule adds_one) simp_all
  have "emits (instr_items (ICheckNotChar ?c l)) (emit_label fresh BC_CHECK_NOT_CHAR ?c l)"
    unfolding instr_items.simps if_not_P [OF small_char] by (rule emits_label)
  then have c: "adds [Instr (ICheckNotChar ?c l)] (emit_label fresh BC_CHECK_NOT_CHAR ?c l)" by (rule adds_one) simp_all
  have "adds ([Instr (ICheckNotChar ?c l)] @ concat (map (\<lambda>i. [Instr (ILoad 1 (v + of_nat i) (if b \<and> i = length str - 1 then Some l else None)),
        Instr (ICheckNotChar (ucast (str ! i)) l)]) (rev [0..<n])))
      (\<lambda>a. do { a \<leftarrow> emit_label fresh BC_CHECK_NOT_CHAR ?c l a; characters_loop fresh str v l b n a })"
    using c Suc.IH by (rule adds_then) simp
  with l have "adds ([Instr ?load] @ ([Instr (ICheckNotChar ?c l)] @ concat (map (\<lambda>i. [Instr (ILoad 1 (v + of_nat i) (if b \<and> i = length str - 1 then Some l else None)),
        Instr (ICheckNotChar (ucast (str ! i)) l)]) (rev [0..<n]))))
      (\<lambda>a. do { a \<leftarrow> ?f a; a \<leftarrow> emit_label fresh BC_CHECK_NOT_CHAR ?c l a; characters_loop fresh str v l b n a })"
    by (rule adds_then) simp
  then show ?case by (simp add: characters_loop.simps [abs_def])
qed

lemmas label_calls = PushBacktrack_def CheckGreedyLoop_def CheckCharacterLT_def CheckCharacterGT_def CheckAtStart_def CheckNotAtStart_def
  CheckNotBackReference_def CheckNotBackReferenceIgnoreCase_def IfRegisterEqPos_def
lemmas word_calls = PopCurrentPosition_def PushCurrentPosition_def Backtrack_def Succeed_def Fail_def PopRegister_def PushRegister_def
  SetCurrentPositionFromEnd_def ReadCurrentPositionFromRegister_def WriteStackPointerToRegister_def ReadStackPointerFromRegister_def
lemmas two_word_calls = CheckNotRegistersEqual_def IfRegisterLT_def IfRegisterGE_def

lemma emits_plain_calls:
  "emits (instr_items IPopCp) (PopCurrentPosition fresh)"
  "emits (instr_items IPushCp) (PushCurrentPosition fresh)"
  "emits (instr_items IPopBt) (Backtrack fresh)"
  "emits (instr_items ISucceed) (Succeed fresh)"
  "emits (instr_items IFail) (Fail fresh)"
  "emits (instr_items (IPopRegister r)) (PopRegister fresh r)"
  "emits (instr_items (IPushRegister r)) (PushRegister fresh r)"
  "emits (instr_items (ISetCpFromEnd v)) (SetCurrentPositionFromEnd fresh v)"
  "emits (instr_items (ISetCpToRegister r)) (ReadCurrentPositionFromRegister fresh r)"
  "emits (instr_items (ISetRegisterToSp r)) (WriteStackPointerToRegister fresh r)"
  "emits (instr_items (ISetSpToRegister r)) (ReadStackPointerFromRegister fresh r)"
  "emits (instr_items (IPushBt l)) (PushBacktrack fresh l)"
  "emits (instr_items (ICheckGreedy l)) (CheckGreedyLoop fresh l)"
  "emits (instr_items (ICheckLT c l)) (CheckCharacterLT fresh c l)"
  "emits (instr_items (ICheckGT c l)) (CheckCharacterGT fresh c l)"
  "emits (instr_items (ICheckAtStart l)) (CheckAtStart fresh l)"
  "emits (instr_items (ICheckNotAtStart l)) (CheckNotAtStart fresh l)"
  "emits (instr_items (INotBackRef r l)) (CheckNotBackReference fresh r l)"
  "emits (instr_items (INotBackRefNoCase r l)) (CheckNotBackReferenceIgnoreCase fresh r l)"
  "emits (instr_items (IRegisterEqPos r l)) (IfRegisterEqPos fresh r l)"
  "emits (instr_items (INotRegsEqual r v l)) (CheckNotRegistersEqual fresh r v l)"
  "emits (instr_items (IRegisterLT r v l)) (IfRegisterLT fresh r v l)"
  "emits (instr_items (IRegisterGE r v l)) (IfRegisterGE fresh r v l)"
  by (simp_all only: instr_items.simps word_calls label_calls two_word_calls emits_Emit emits_label emits_word_label)

lemma emits_two_words:
  "emits (instr_items (IAdvanceRegister r v)) (AdvanceRegister fresh r v)"
  "emits (instr_items (ISetRegisterToCp r v)) (WriteCurrentPositionToRegister fresh r v)"
  "emits (instr_items (IMinusAndCheckNotChar c s m l)) (CheckNotCharacterAfterMinusAnd fresh c s m l)"
  unfolding instr_items.simps AdvanceRegister_def [abs_def] WriteCurrentPositionToRegister_def [abs_def] CheckNotCharacterAfterMinusAnd_def [abs_def]
  by (intro emits_rules)+

lemmas emits_calls = emits_plain_calls emits_two_words emits_SetRegister emits_CheckCharacter emits_CheckNotCharacter emits_AndCheck emits_Load

lemma adds_call: "adds (call_lines c) (perform fresh c)"
proof (cases c)
  case (CBind l)
  then show ?thesis by (simp add: adds_Bind)
next
  case (CAdvanceCurrentPosition v)
  then show ?thesis by (simp add: adds_AdvanceCp)
next
  case (CGoTo l)
  then show ?thesis by (simp add: adds_GoTo)
next
  case (CClearRegisters r s)
  then show ?thesis by (simp add: adds_clear_loop ClearRegisters_def)
next
  case (CCheckCharacters str v l b)
  then show ?thesis using adds_characters_loop by (simp add: CheckCharacters_def)
qed (simp_all only: call_lines.simps perform.simps, (rule adds_one, rule emits_calls, (simp; fail), (simp; fail))+)

end
