(* ===== verification/IrregexpCode.thy ===== *)
theory IrregexpCode
  imports IrregexpTwoPass
begin

text \<open>
  From the calls to the code: a sequence of calls that binds every label it uses, each once, is assembled
  to the code of its program.
\<close>

section \<open>Calls\<close>

fun bound_labels :: "rx_call list \<Rightarrow> nat list" where
  "bound_labels [] = []"
| "bound_labels (CBind l # cs) = l # bound_labels cs"
| "bound_labels (c # cs) = bound_labels cs"

definition resolved :: "rx_line list \<Rightarrow> bool" where
  "resolved ls = list_all (\<lambda>i. case i of Ref l \<Rightarrow> target 0 ls l \<noteq> None | _ \<Rightarrow> True) (items ls)"

lemma resolved_Ref: "resolved ls \<Longrightarrow> Ref l \<in> set (items ls) \<Longrightarrow> \<exists>a. target 0 ls l = Some a"
  by (auto simp: resolved_def list_all_iff split: item.splits)

lemma Target_call_lines: "Target l \<in> set (call_lines c) \<longleftrightarrow> (\<exists>n. c = CBind n \<and> l = Some n)"
  by (cases c) auto

lemma Target_calls: "Target l \<in> set (concat (map call_lines cs)) \<longleftrightarrow> (\<exists>n \<in> set (bound_labels cs). l = Some n)"
  by (induction cs rule: bound_labels.induct) (auto simp: Target_call_lines)

lemma adds_calls: "distinct (bound_labels cs) \<Longrightarrow> adds (concat (map call_lines cs)) (perform_all fresh cs)"
proof (induction cs)
  case Nil
  then show ?case using adds_Nil by (simp add: fun_eq_iff [symmetric])
next
  case (Cons c cs)
  have "distinct (bound_labels cs)" using Cons.prems by (cases c) simp_all
  moreover have "Target l \<notin> set (concat (map call_lines cs))" if "Target l \<in> set (call_lines c)" for l
    using that Cons.prems unfolding Target_calls by (auto simp: Target_call_lines)
  ultimately have "adds (call_lines c @ concat (map call_lines cs)) (\<lambda>a. do { a \<leftarrow> perform fresh c a; perform_all fresh cs a })"
    using Cons.IH by (intro adds_then adds_call) simp_all
  then show ?case by (simp add: perform_all.simps [abs_def])
qed

section \<open>The bytes\<close>

lemma holds_bytes:
  assumes "holds buf bnd (p, i)" "p + item_size i \<le> length buf" "\<And>l. i = Ref l \<Longrightarrow> bnd l \<noteq> None"
  shows "item_bytes bnd i = take (item_size i) (drop p buf)"
  using assms by (cases i) (auto simp: holds_def bytes_get [symmetric])

lemma items_bytes:
  "\<forall>x \<in> set (positions p its). holds buf bnd x \<Longrightarrow> p + items_size its \<le> length buf \<Longrightarrow> \<forall>l. Ref l \<in> set its \<longrightarrow> bnd l \<noteq> None \<Longrightarrow>
   concat (map (item_bytes bnd) its) = take (items_size its) (drop p buf)"
proof (induction its arbitrary: p)
  case (Cons i its)
  have "item_bytes bnd i = take (item_size i) (drop p buf)" using Cons.prems by (intro holds_bytes) auto
  moreover have "concat (map (item_bytes bnd) its) = take (items_size its) (drop (p + item_size i) buf)"
    using Cons.prems by (intro Cons.IH) auto
  ultimately show ?case by (simp add: take_add add.commute)
qed simp

section \<open>The assembled code\<close>

lemma lines_ok_new: "4 \<le> length buffer \<Longrightarrow> lines_ok [] (Assembler_new buffer)"
  by (simp add: lines_ok_def asm_ok_def label_ok_def Assembler_new_def last_advance_def kInvalidPC_def)

lemma adds_new:
  assumes "adds xs f" "items_size (items (foldl add_line [] xs)) < 2 ^ 31" "4 \<le> length buffer"
  obtains a where "f (Assembler_new buffer) = Some a" "lines_ok (foldl add_line [] xs) a"
  using assms(1) [unfolded adds_def, rule_format, of "[]" "Assembler_new buffer"] assms(2) lines_ok_new [OF assms(3)] by auto

lemma assemble_program_code:
  assumes "4 \<le> length buffer" "distinct (bound_labels calls)" "resolved (program calls)" "items_size (items (program calls)) < 2 ^ 31"
  shows "assemble fresh buffer calls = Some (program_code (program calls))"
proof -
  let ?ls = "concat (map call_lines calls)" and ?p = "program calls"
  have p: "?p = foldl add_line [] (?ls @ [Target None] @ [Instr IPopBt])"
    by (simp add: program_def add_line_Instr)
  have "adds ([Target None] @ [Instr IPopBt]) (\<lambda>a. do { a \<leftarrow> Bind None a; Emit fresh BC_POP_BT 0 a })"
    using emits_Emit [of 0 BC_POP_BT fresh] by (intro adds_then adds_Bind adds_instr) simp_all
  with adds_calls [OF assms(2)] have "adds (?ls @ [Target None] @ [Instr IPopBt])
      (\<lambda>a. do { a \<leftarrow> perform_all fresh calls a; a \<leftarrow> Bind None a; Emit fresh BC_POP_BT 0 a })"
  proof (rule adds_then)
    show "Target l \<notin> set ([Target None] @ [Instr IPopBt])" if "Target l \<in> set ?ls" for l
      using that unfolding Target_calls by auto
  qed
  moreover have "items_size (items (foldl add_line [] (?ls @ [Target None] @ [Instr IPopBt]))) < 2 ^ 31"
    using assms(4) p by simp
  ultimately obtain a where a: "(do { a \<leftarrow> perform_all fresh calls (Assembler_new buffer); a \<leftarrow> Bind None a; Emit fresh BC_POP_BT 0 a }) = Some a"
      "lines_ok ?p a"
    unfolding p using assms(1) by (rule adds_new)
  have ok: "asm_ok (items ?p) (target 0 ?p) a" using a(2) by (simp add: lines_ok_def)
  have "program_code ?p = take (items_size (items ?p)) (drop 0 (rx_buffer a))"
    unfolding program_code_def using ok resolved_Ref [OF assms(3)] by (intro items_bytes) (auto simp: asm_ok_def)
  moreover have "assemble fresh buffer calls = Some (take (rx_pc a) (rx_buffer a))"
    using a(1) by (auto simp: assemble_def GetCode_def split: bind_splits)
  ultimately show ?thesis using ok by (simp add: asm_ok_def)
qed

end
