(* ===== verification/IrregexpInterpreter.thy ===== *)
theory IrregexpInterpreter
  imports IrregexpBytecodes CaseConversions
begin

text \<open>
  The interpreter of regular expression bytecodes (src/src/interpreter-irregexp.cc). \<open>RawMatch\<close> is a loop
  over the code bytes with the program counter, the current position and character, the registers and
  the backtrack stack, an array of \<open>int\<close> with a stack pointer and the space left. One turn of the loop
  is \<open>step\<close>. The values of type \<open>int\<close> are 32-bit words, compared as signed numbers; a character of an
  ASCII subject is below 128. Reading or writing outside of the code, the subject, the registers
  or the stack is a \<open>Fault\<close>, and so are the bytecodes the code declares unreachable.
\<close>

section \<open>State\<close>

definition kBacktrackStackSize :: nat where "kBacktrackStackSize = 10000"

record rx_state =
  rs_pc :: int
  rs_current :: uint32
  rs_char :: uint32
  rs_registers :: "uint32 list"
  rs_stack :: "uint32 list"
  rs_sp :: int
  rs_space :: int

datatype rx_result = Next rx_state | Result bool | Fault

text \<open>The subject with the type of its characters: \<open>char\<close> or \<open>uc16\<close>.\<close>

datatype subject = Subject (is_ascii: bool) (chars: "uint16 list")

section \<open>Access to memory\<close>

definition Load32Aligned :: "uint8 list \<Rightarrow> int \<Rightarrow> (uint32 \<Rightarrow> rx_result) \<Rightarrow> rx_result" where
  "Load32Aligned code p k = (if 0 \<le> p \<and> p + 4 \<le> int (length code) then k (get32 code (nat p)) else Fault)"

definition Load16Aligned :: "uint8 list \<Rightarrow> int \<Rightarrow> (uint32 \<Rightarrow> rx_result) \<Rightarrow> rx_result" where
  "Load16Aligned code p k = (if 0 \<le> p \<and> p + 2 \<le> int (length code) then k (ucast (get16 code (nat p))) else Fault)"

definition code_byte :: "uint8 list \<Rightarrow> int \<Rightarrow> (uint8 \<Rightarrow> rx_result) \<Rightarrow> rx_result" where
  "code_byte code p k = (if 0 \<le> p \<and> p < int (length code) then k (code ! nat p) else Fault)"

definition subject_char :: "subject \<Rightarrow> uint32 \<Rightarrow> uint32 option" where
  "subject_char s pos = (if 0 \<le> sint pos \<and> sint pos < int (length (chars s)) then Some (ucast (chars s ! nat (sint pos))) else None)"

definition load_char :: "subject \<Rightarrow> uint32 \<Rightarrow> (uint32 \<Rightarrow> rx_result) \<Rightarrow> rx_result" where
  "load_char s pos k = (case subject_char s pos of None \<Rightarrow> Fault | Some c \<Rightarrow> k c)"

definition subject_length :: "subject \<Rightarrow> uint32" where
  "subject_length s = of_nat (length (chars s))"

definition read_register :: "rx_state \<Rightarrow> uint32 \<Rightarrow> (uint32 \<Rightarrow> rx_result) \<Rightarrow> rx_result" where
  "read_register s r k =
     (if 0 \<le> sint r \<and> sint r < int (length (rs_registers s)) then k (rs_registers s ! nat (sint r)) else Fault)"

definition write_register :: "uint32 \<Rightarrow> uint32 \<Rightarrow> rx_state \<Rightarrow> rx_result" where
  "write_register r v s =
     (if 0 \<le> sint r \<and> sint r < int (length (rs_registers s))
      then Next (s\<lparr>rs_registers := (rs_registers s)[nat (sint r) := v]\<rparr>) else Fault)"

text \<open>The stack pointer is an index into the array.\<close>

definition push :: "uint32 \<Rightarrow> rx_state \<Rightarrow> rx_result" where
  "push v s =
     (let space = rs_space s - 1 in
      if space < 0 then Result False
      else if 0 \<le> rs_sp s \<and> rs_sp s < int (length (rs_stack s))
        then Next (s\<lparr>rs_stack := (rs_stack s)[nat (rs_sp s) := v], rs_sp := rs_sp s + 1, rs_space := space\<rparr>)
        else Fault)"

definition stack_top :: "rx_state \<Rightarrow> (uint32 \<Rightarrow> rx_result) \<Rightarrow> rx_result" where
  "stack_top s k =
     (let p = rs_sp s - 1 in if 0 \<le> p \<and> p < int (length (rs_stack s)) then k (rs_stack s ! nat p) else Fault)"

definition drop_top :: "rx_state \<Rightarrow> rx_state" where
  "drop_top s = s\<lparr>rs_space := rs_space s + 1, rs_sp := rs_sp s - 1\<rparr>"

definition pop :: "rx_state \<Rightarrow> (uint32 \<Rightarrow> rx_state \<Rightarrow> rx_result) \<Rightarrow> rx_result" where
  "pop s k = stack_top s (\<lambda>v. k v (drop_top s))"

definition advance :: "int \<Rightarrow> rx_result \<Rightarrow> rx_result" where
  "advance n r = (case r of Next s \<Rightarrow> Next (s\<lparr>rs_pc := rs_pc s + n\<rparr>) | _ \<Rightarrow> r)"

text \<open>A jump to the address in the code word at \<open>p\<close>, or to the instruction \<open>n\<close> bytes on.\<close>

definition jump :: "uint8 list \<Rightarrow> int \<Rightarrow> rx_state \<Rightarrow> rx_result" where
  "jump code p s = Load32Aligned code p (\<lambda>a. Next (s\<lparr>rs_pc := sint a\<rparr>))"

definition branch :: "uint8 list \<Rightarrow> bool \<Rightarrow> int \<Rightarrow> int \<Rightarrow> rx_state \<Rightarrow> rx_result" where
  "branch code taken p n s = (if taken then jump code p s else Next (s\<lparr>rs_pc := rs_pc s + n\<rparr>))"

section \<open>Back references\<close>

primrec back_ref_matches :: "subject \<Rightarrow> uint32 \<Rightarrow> uint32 \<Rightarrow> nat \<Rightarrow> bool option" where
  "back_ref_matches s start current 0 = Some True"
| "back_ref_matches s start current (Suc n) =
     do { a \<leftarrow> subject_char s start; b \<leftarrow> subject_char s current;
          if a \<noteq> b then Some False else back_ref_matches s (start + 1) (current + 1) n }"

text \<open>The canonical character; the cache of the mapping the code asks is transparent.\<close>

definition interp_canonicalize :: "uint32 \<Rightarrow> uint32" where
  "interp_canonicalize c =
     (case Ecma262Canonicalize_Convert (unat c) 0 True of Some (x # _, _) \<Rightarrow> of_nat x | _ \<Rightarrow> c)"

definition ascii_lower :: "uint32 \<Rightarrow> uint32" where
  "ascii_lower c = (if c - 65 \<le> 25 then c OR 0x20 else c)"

primrec BackRefMatchesNoCase :: "subject \<Rightarrow> uint32 \<Rightarrow> uint32 \<Rightarrow> nat \<Rightarrow> bool option" where
  "BackRefMatchesNoCase s start current 0 = Some True"
| "BackRefMatchesNoCase s start current (Suc n) =
     do { old_char \<leftarrow> subject_char s start; new_char \<leftarrow> subject_char s current;
          if old_char = new_char then BackRefMatchesNoCase s (start + 1) (current + 1) n
          else if is_ascii s then
            (if ascii_lower old_char \<noteq> ascii_lower new_char then Some False
             else BackRefMatchesNoCase s (start + 1) (current + 1) n)
          else
            (if interp_canonicalize old_char \<noteq> interp_canonicalize new_char then Some False
             else BackRefMatchesNoCase s (start + 1) (current + 1) n) }"

text \<open>The two bytecodes for back references differ in the comparison.\<close>

definition check_back_ref :: "(uint32 \<Rightarrow> uint32 \<Rightarrow> nat \<Rightarrow> bool option) \<Rightarrow> uint8 list \<Rightarrow> subject \<Rightarrow> uint32 \<Rightarrow> int \<Rightarrow> int \<Rightarrow> rx_state \<Rightarrow> rx_result" where
  "check_back_ref same code subj r p n s =
     read_register s r (\<lambda>start. read_register s (r + 1) (\<lambda>end_pos.
       let len = end_pos - start in
       if sint start < 0 \<or> sint len \<le> 0 then Next (s\<lparr>rs_pc := rs_pc s + n\<rparr>)
       else if sint (rs_current s + len) > int (length (chars subj)) then jump code p s
       else (case same start (rs_current s) (nat (sint len)) of
               None \<Rightarrow> Fault
             | Some True \<Rightarrow> Next (s\<lparr>rs_current := rs_current s + len, rs_pc := rs_pc s + n\<rparr>)
             | Some False \<Rightarrow> jump code p s)))"

section \<open>One turn of the loop\<close>

definition load_2_chars :: "subject \<Rightarrow> uint32 \<Rightarrow> (uint32 \<Rightarrow> rx_result) \<Rightarrow> rx_result" where
  "load_2_chars subj pos k =
     load_char subj (pos + 1) (\<lambda>next. load_char subj pos (\<lambda>c.
       k (c OR push_bit (if is_ascii subj then 8 else 16) next)))"

definition load_4_chars :: "subject \<Rightarrow> uint32 \<Rightarrow> (uint32 \<Rightarrow> rx_result) \<Rightarrow> rx_result" where
  "load_4_chars subj pos k =
     load_char subj (pos + 1) (\<lambda>next1. load_char subj (pos + 2) (\<lambda>next2. load_char subj (pos + 3) (\<lambda>next3.
       load_char subj pos (\<lambda>c. k (c OR push_bit 8 next1 OR push_bit 16 next2 OR push_bit 24 next3)))))"

definition set_char :: "rx_state \<Rightarrow> int \<Rightarrow> uint32 \<Rightarrow> rx_result" where
  "set_char s n c = Next (s\<lparr>rs_char := c, rs_pc := rs_pc s + n\<rparr>)"

text \<open>The bytecodes for the stack, the registers and the position.\<close>

definition step_state :: "uint8 list \<Rightarrow> uint32 \<Rightarrow> uint32 \<Rightarrow> rx_state \<Rightarrow> rx_result" where
  "step_state code bc arg s =
     (let pc = rs_pc s; current = rs_current s in
      if bc = BC_BREAK then Fault
      else if bc = BC_PUSH_CP then advance BC_PUSH_CP_LENGTH (push current s)
      else if bc = BC_PUSH_BT then Load32Aligned code (pc + 4) (\<lambda>a. advance BC_PUSH_BT_LENGTH (push a s))
      else if bc = BC_PUSH_REGISTER then
        (if rs_space s - 1 < 0 then Result False
         else read_register s arg (\<lambda>v. advance BC_PUSH_REGISTER_LENGTH (push v s)))
      else if bc = BC_SET_REGISTER then
        Load32Aligned code (pc + 4) (\<lambda>v. advance BC_SET_REGISTER_LENGTH (write_register arg v s))
      else if bc = BC_ADVANCE_REGISTER then
        Load32Aligned code (pc + 4) (\<lambda>by. read_register s arg (\<lambda>v.
          advance BC_ADVANCE_REGISTER_LENGTH (write_register arg (v + by) s)))
      else if bc = BC_SET_REGISTER_TO_CP then
        Load32Aligned code (pc + 4) (\<lambda>by. advance BC_SET_REGISTER_TO_CP_LENGTH (write_register arg (current + by) s))
      else if bc = BC_SET_CP_TO_REGISTER then
        read_register s arg (\<lambda>v. Next (s\<lparr>rs_current := v, rs_pc := pc + BC_SET_CP_TO_REGISTER_LENGTH\<rparr>))
      else if bc = BC_SET_REGISTER_TO_SP then
        advance BC_SET_REGISTER_TO_SP_LENGTH (write_register arg (word_of_int (rs_sp s)) s)
      else if bc = BC_SET_SP_TO_REGISTER then
        read_register s arg (\<lambda>v. Next (s\<lparr>rs_sp := sint v, rs_space := int kBacktrackStackSize - sint v,
          rs_pc := pc + BC_SET_SP_TO_REGISTER_LENGTH\<rparr>))
      else if bc = BC_POP_CP then pop s (\<lambda>v s. Next (s\<lparr>rs_current := v, rs_pc := pc + BC_POP_CP_LENGTH\<rparr>))
      else if bc = BC_POP_BT then pop s (\<lambda>v s. Next (s\<lparr>rs_pc := sint v\<rparr>))
      else if bc = BC_POP_REGISTER then pop s (\<lambda>v s. advance BC_POP_REGISTER_LENGTH (write_register arg v s))
      else if bc = BC_FAIL then Result False
      else if bc = BC_SUCCEED then Result True
      else if bc = BC_ADVANCE_CP then Next (s\<lparr>rs_current := current + arg, rs_pc := pc + BC_ADVANCE_CP_LENGTH\<rparr>)
      else if bc = BC_GOTO then jump code (pc + 4) s
      else if bc = BC_ADVANCE_CP_AND_GOTO then jump code (pc + 4) (s\<lparr>rs_current := current + arg\<rparr>)
      else if bc = BC_CHECK_GREEDY then
        stack_top s (\<lambda>v. if current = v then jump code (pc + 4) (drop_top s)
                         else Next (s\<lparr>rs_pc := pc + BC_CHECK_GREEDY_LENGTH\<rparr>))
      else Fault)"

text \<open>The bytecodes that load characters.\<close>

definition step_load :: "uint8 list \<Rightarrow> subject \<Rightarrow> uint32 \<Rightarrow> uint32 \<Rightarrow> rx_state \<Rightarrow> rx_result" where
  "step_load code subj bc arg s =
     (let pc = rs_pc s; pos = rs_current s + arg; len = int (length (chars subj)) in
      if bc = BC_LOAD_CURRENT_CHAR then
        (if sint pos \<ge> len then jump code (pc + 4) s else load_char subj pos (set_char s BC_LOAD_CURRENT_CHAR_LENGTH))
      else if bc = BC_LOAD_CURRENT_CHAR_UNCHECKED then load_char subj pos (set_char s BC_LOAD_CURRENT_CHAR_UNCHECKED_LENGTH)
      else if bc = BC_LOAD_2_CURRENT_CHARS then
        (if sint (pos + 2) > len then jump code (pc + 4) s
         else load_2_chars subj pos (set_char s BC_LOAD_2_CURRENT_CHARS_LENGTH))
      else if bc = BC_LOAD_2_CURRENT_CHARS_UNCHECKED then
        load_2_chars subj pos (set_char s BC_LOAD_2_CURRENT_CHARS_UNCHECKED_LENGTH)
      else if bc = BC_LOAD_4_CURRENT_CHARS then
        (if sint (pos + 4) > len then jump code (pc + 4) s
         else load_4_chars subj pos (set_char s BC_LOAD_4_CURRENT_CHARS_LENGTH))
      else if bc = BC_LOAD_4_CURRENT_CHARS_UNCHECKED then
        load_4_chars subj pos (set_char s BC_LOAD_4_CURRENT_CHARS_UNCHECKED_LENGTH)
      else Fault)"

text \<open>The bytecodes that compare the current character.\<close>

definition step_check :: "uint8 list \<Rightarrow> uint32 \<Rightarrow> uint32 \<Rightarrow> rx_state \<Rightarrow> rx_result" where
  "step_check code bc arg s =
     (let pc = rs_pc s; c = rs_char s in
      if bc = BC_CHECK_4_CHARS then
        Load32Aligned code (pc + 4) (\<lambda>v. branch code (v = c) (pc + 8) BC_CHECK_4_CHARS_LENGTH s)
      else if bc = BC_CHECK_CHAR then branch code (arg = c) (pc + 4) BC_CHECK_CHAR_LENGTH s
      else if bc = BC_CHECK_NOT_4_CHARS then
        Load32Aligned code (pc + 4) (\<lambda>v. branch code (v \<noteq> c) (pc + 8) BC_CHECK_NOT_4_CHARS_LENGTH s)
      else if bc = BC_CHECK_NOT_CHAR then branch code (arg \<noteq> c) (pc + 4) BC_CHECK_NOT_CHAR_LENGTH s
      else if bc = BC_AND_CHECK_4_CHARS then
        Load32Aligned code (pc + 4) (\<lambda>v. Load32Aligned code (pc + 8) (\<lambda>m.
          branch code (v = c AND m) (pc + 12) BC_AND_CHECK_4_CHARS_LENGTH s))
      else if bc = BC_AND_CHECK_CHAR then
        Load32Aligned code (pc + 4) (\<lambda>m. branch code (arg = c AND m) (pc + 8) BC_AND_CHECK_CHAR_LENGTH s)
      else if bc = BC_AND_CHECK_NOT_4_CHARS then
        Load32Aligned code (pc + 4) (\<lambda>v. Load32Aligned code (pc + 8) (\<lambda>m.
          branch code (v \<noteq> c AND m) (pc + 12) BC_AND_CHECK_NOT_4_CHARS_LENGTH s))
      else if bc = BC_AND_CHECK_NOT_CHAR then
        Load32Aligned code (pc + 4) (\<lambda>m. branch code (arg \<noteq> c AND m) (pc + 8) BC_AND_CHECK_NOT_CHAR_LENGTH s)
      else if bc = BC_MINUS_AND_CHECK_NOT_CHAR then
        Load16Aligned code (pc + 4) (\<lambda>minus. Load16Aligned code (pc + 6) (\<lambda>m.
          branch code (arg \<noteq> (c - minus) AND m) (pc + 8) BC_MINUS_AND_CHECK_NOT_CHAR_LENGTH s))
      else if bc = BC_CHECK_LT then branch code (c < arg) (pc + 4) BC_CHECK_LT_LENGTH s
      else if bc = BC_CHECK_GT then branch code (c > arg) (pc + 4) BC_CHECK_GT_LENGTH s
      else Fault)"

text \<open>The bytecodes that look up the current character in a table.\<close>

definition step_lookup :: "uint8 list \<Rightarrow> uint32 \<Rightarrow> uint32 \<Rightarrow> rx_state \<Rightarrow> rx_result" where
  "step_lookup code bc arg s =
     (let pc = rs_pc s; c = rs_char s in
      if bc = BC_LOOKUP_MAP1 then
        (let index = sint (c - arg) in
         Load32Aligned code (pc + 4) (\<lambda>a. code_byte code (sint a + index div 8) (\<lambda>m.
           branch code (drop_bit (nat (index mod 8)) m AND 1 = 0) (pc + 8) BC_LOOKUP_MAP1_LENGTH s)))
      else if bc = BC_LOOKUP_MAP2 then
        (let index = sint (push_bit 1 (c - arg)) in
         Load32Aligned code (pc + 3) (\<lambda>a. code_byte code (sint a + index div 8) (\<lambda>m.
           (let m = drop_bit (nat (index mod 8)) m AND 3 in
            if m < 2 then (if m = 0 then jump code (pc + 8) s else jump code (pc + 12) s)
            else (if m = 2 then jump code (pc + 16) s else jump code (pc + 20) s)))))
      else if bc = BC_LOOKUP_MAP8 then
        (let index = sint (c - arg) in
         Load32Aligned code (pc + 4) (\<lambda>a. code_byte code (sint a + index) (\<lambda>m.
           Load32Aligned code (pc + 8) (\<lambda>t. jump code (sint t + uint m * 4) s))))
      else if bc = BC_LOOKUP_HI_MAP8 then
        (let index = sint (drop_bit 8 c - arg) in
         Load32Aligned code (pc + 4) (\<lambda>a. code_byte code (sint a + index) (\<lambda>m.
           Load32Aligned code (pc + 8) (\<lambda>t. jump code (sint t + uint m * 4) s))))
      else Fault)"

text \<open>The bytecodes that compare registers and positions.\<close>

definition step_test :: "uint8 list \<Rightarrow> subject \<Rightarrow> uint32 \<Rightarrow> uint32 \<Rightarrow> uint32 \<Rightarrow> rx_state \<Rightarrow> rx_result" where
  "step_test code subj bc arg insn s =
     (let pc = rs_pc s; current = rs_current s in
      if bc = BC_CHECK_REGISTER_LT then
        read_register s arg (\<lambda>v. Load32Aligned code (pc + 4) (\<lambda>w.
          branch code (sint v < sint w) (pc + 8) BC_CHECK_REGISTER_LT_LENGTH s))
      else if bc = BC_CHECK_REGISTER_GE then
        read_register s arg (\<lambda>v. Load32Aligned code (pc + 4) (\<lambda>w.
          branch code (sint v \<ge> sint w) (pc + 8) BC_CHECK_REGISTER_GE_LENGTH s))
      else if bc = BC_CHECK_REGISTER_EQ_POS then
        read_register s arg (\<lambda>v. branch code (v = current) (pc + 4) BC_CHECK_REGISTER_EQ_POS_LENGTH s)
      else if bc = BC_CHECK_NOT_REGS_EQUAL then
        read_register s arg (\<lambda>v. Load32Aligned code (pc + 4) (\<lambda>r. read_register s r (\<lambda>w.
          branch code (v \<noteq> w) (pc + 8) BC_CHECK_NOT_REGS_EQUAL_LENGTH s)))
      else if bc = BC_CHECK_NOT_BACK_REF then
        check_back_ref (back_ref_matches subj) code subj arg (pc + 4) BC_CHECK_NOT_BACK_REF_LENGTH s
      else if bc = BC_CHECK_NOT_BACK_REF_NO_CASE then
        check_back_ref (BackRefMatchesNoCase subj) code subj arg (pc + 4) BC_CHECK_NOT_BACK_REF_NO_CASE_LENGTH s
      else if bc = BC_CHECK_AT_START then branch code (current = 0) (pc + 4) BC_CHECK_AT_START_LENGTH s
      else if bc = BC_CHECK_NOT_AT_START then branch code (current \<noteq> 0) (pc + 4) BC_CHECK_NOT_AT_START_LENGTH s
      else if bc = BC_SET_CURRENT_POSITION_FROM_END then
        (let by = drop_bit BYTECODE_SHIFT insn in
         if sint (subject_length subj - current) > sint by then
           (let current = subject_length subj - by in
            load_char subj (current - 1) (\<lambda>c.
              Next (s\<lparr>rs_current := current, rs_char := c, rs_pc := pc + BC_SET_CURRENT_POSITION_FROM_END_LENGTH\<rparr>)))
         else Next (s\<lparr>rs_pc := pc + BC_SET_CURRENT_POSITION_FROM_END_LENGTH\<rparr>))
      else Fault)"

text \<open>The switch is split by the groups of bytecodes.\<close>

definition dispatch :: "uint8 list \<Rightarrow> subject \<Rightarrow> uint32 \<Rightarrow> rx_state \<Rightarrow> rx_result" where
  "dispatch code subj insn s =
     (let bc = insn AND BYTECODE_MASK; arg = signed_drop_bit BYTECODE_SHIFT insn in
      if bc \<le> BC_GOTO \<or> bc = BC_CHECK_GREEDY \<or> bc = BC_ADVANCE_CP_AND_GOTO then step_state code bc arg s
      else if bc \<le> BC_LOAD_4_CURRENT_CHARS_UNCHECKED then step_load code subj bc arg s
      else if bc \<le> BC_CHECK_GT then step_check code bc arg s
      else if BC_LOOKUP_MAP1 \<le> bc \<and> bc \<le> BC_LOOKUP_HI_MAP8 then step_lookup code bc arg s
      else step_test code subj bc arg insn s)"

definition step :: "uint8 list \<Rightarrow> subject \<Rightarrow> rx_state \<Rightarrow> rx_result" where
  "step code subj s = Load32Aligned code (rs_pc s) (\<lambda>insn. dispatch code subj insn s)"

text \<open>The loop may run forever: its fuel is the number of turns, and None says that it is used up.\<close>

primrec run_loop :: "(rx_state \<Rightarrow> rx_result) \<Rightarrow> nat \<Rightarrow> rx_state \<Rightarrow> rx_result option" where
  "run_loop f 0 s = None"
| "run_loop f (Suc n) s = (case f s of Next s \<Rightarrow> run_loop f n s | r \<Rightarrow> Some r)"

text \<open>The backtrack stack is allocated or comes from a cache, so its contents are arbitrary.\<close>

definition start_state :: "uint32 list \<Rightarrow> uint32 list \<Rightarrow> uint32 \<Rightarrow> uint32 \<Rightarrow> rx_state" where
  "start_state stack registers current current_char =
     \<lparr>rs_pc = 0, rs_current = current, rs_char = current_char, rs_registers = registers, rs_stack = stack,
      rs_sp = 0, rs_space = int kBacktrackStackSize\<rparr>"

definition RawMatch :: "nat \<Rightarrow> uint32 list \<Rightarrow> uint8 list \<Rightarrow> subject \<Rightarrow> uint32 list \<Rightarrow> uint32 \<Rightarrow> uint32 \<Rightarrow> rx_result option" where
  "RawMatch n stack code subj registers current current_char =
     run_loop (step code subj) n (start_state stack registers current current_char)"

definition Match :: "nat \<Rightarrow> uint32 list \<Rightarrow> uint8 list \<Rightarrow> subject \<Rightarrow> uint32 list \<Rightarrow> nat \<Rightarrow> rx_result option" where
  "Match n stack code subj registers start_position =
     (let previous_char = (if start_position \<noteq> 0 then ucast (chars subj ! (start_position - 1)) else 10)
      in RawMatch n stack code subj registers (of_nat start_position) previous_char)"

end
