(* ===== verification/IrregexpMachine.thy ===== *)
theory IrregexpMachine
  imports IrregexpCode IrregexpInterpreter
begin

text \<open>
  What the instructions of a program mean: a machine that runs the lines of the program, with the labels as
  the targets of its jumps, one equation for each instruction. The interpreter is shown to do on the
  code of a program what this machine does on the program.
\<close>

section \<open>The machine\<close>

abbreviation instr_size :: "rx_instr \<Rightarrow> nat" where
  "instr_size i \<equiv> items_size (instr_items i)"

definition fall :: "rx_instr \<Rightarrow> rx_state \<Rightarrow> rx_result" where
  "fall i s = Next (s\<lparr>rs_pc := rs_pc s + int (instr_size i)\<rparr>)"

definition go :: "rx_line list \<Rightarrow> label \<Rightarrow> rx_state \<Rightarrow> rx_result" where
  "go ls l s = (case target 0 ls l of None \<Rightarrow> Fault | Some a \<Rightarrow> Next (s\<lparr>rs_pc := int a\<rparr>))"

definition test :: "rx_line list \<Rightarrow> rx_instr \<Rightarrow> label \<Rightarrow> bool \<Rightarrow> rx_state \<Rightarrow> rx_result" where
  "test ls i l taken s = (if taken then go ls l s else fall i s)"

definition past_end :: "subject \<Rightarrow> nat \<Rightarrow> uint32 \<Rightarrow> bool" where
  "past_end subj n pos = (if n = 2 \<or> n = 4 then sint (pos + of_nat n) > int (length (chars subj)) else sint pos \<ge> int (length (chars subj)))"

definition load_chars :: "subject \<Rightarrow> nat \<Rightarrow> uint32 \<Rightarrow> (uint32 \<Rightarrow> rx_result) \<Rightarrow> rx_result" where
  "load_chars subj n = (if n = 4 then load_4_chars subj else if n = 2 then load_2_chars subj else load_char subj)"

definition exec_back_ref :: "(uint32 \<Rightarrow> uint32 \<Rightarrow> nat \<Rightarrow> bool option) \<Rightarrow> rx_line list \<Rightarrow> subject \<Rightarrow> rx_instr \<Rightarrow> uint32 \<Rightarrow> label \<Rightarrow> rx_state \<Rightarrow> rx_result" where
  "exec_back_ref same ls subj i r l s =
     read_register s r (\<lambda>start. read_register s (r + 1) (\<lambda>end_pos.
       let len = end_pos - start in
       if sint start < 0 \<or> sint len \<le> 0 then fall i s
       else if sint (rs_current s + len) > int (length (chars subj)) then go ls l s
       else (case same start (rs_current s) (nat (sint len)) of
               None \<Rightarrow> Fault
             | Some True \<Rightarrow> fall i (s\<lparr>rs_current := rs_current s + len\<rparr>)
             | Some False \<Rightarrow> go ls l s)))"

fun exec :: "rx_line list \<Rightarrow> subject \<Rightarrow> rx_instr \<Rightarrow> rx_state \<Rightarrow> rx_result" where
  "exec ls subj IPushCp s = advance (int (instr_size IPushCp)) (push (rs_current s) s)"
| "exec ls subj (IPushBt l) s =
     (case target 0 ls l of None \<Rightarrow> Fault | Some a \<Rightarrow> advance (int (instr_size (IPushBt l))) (push (of_nat a) s))"
| "exec ls subj (IPushRegister r) s =
     (if rs_space s < 1 then Result False
      else read_register s r (\<lambda>v. advance (int (instr_size (IPushRegister r))) (push v s)))"
| "exec ls subj (ISetRegister r v) s = advance (int (instr_size (ISetRegister r v))) (write_register r v s)"
| "exec ls subj (IAdvanceRegister r v) s =
     read_register s r (\<lambda>w. advance (int (instr_size (IAdvanceRegister r v))) (write_register r (w + v) s))"
| "exec ls subj (ISetRegisterToCp r v) s = advance (int (instr_size (ISetRegisterToCp r v))) (write_register r (rs_current s + v) s)"
| "exec ls subj (ISetCpToRegister r) s = read_register s r (\<lambda>v. fall (ISetCpToRegister r) (s\<lparr>rs_current := v\<rparr>))"
| "exec ls subj (ISetRegisterToSp r) s = advance (int (instr_size (ISetRegisterToSp r))) (write_register r (word_of_int (rs_sp s)) s)"
| "exec ls subj (ISetSpToRegister r) s =
     read_register s r (\<lambda>v. fall (ISetSpToRegister r) (s\<lparr>rs_sp := sint v, rs_space := int kBacktrackStackSize - sint v\<rparr>))"
| "exec ls subj IPopCp s = pop s (\<lambda>v s. fall IPopCp (s\<lparr>rs_current := v\<rparr>))"
| "exec ls subj IPopBt s = pop s (\<lambda>v s. Next (s\<lparr>rs_pc := sint v\<rparr>))"
| "exec ls subj (IPopRegister r) s = pop s (\<lambda>v s. advance (int (instr_size (IPopRegister r))) (write_register r v s))"
| "exec ls subj IFail s = Result False"
| "exec ls subj ISucceed s = Result True"
| "exec ls subj (IAdvanceCp v) s = fall (IAdvanceCp v) (s\<lparr>rs_current := rs_current s + v\<rparr>)"
| "exec ls subj (IGoTo l) s = go ls l s"
| "exec ls subj (IAdvanceCpAndGoTo v l) s = go ls l (s\<lparr>rs_current := rs_current s + v\<rparr>)"
| "exec ls subj (ICheckGreedy l) s =
     stack_top s (\<lambda>v. if rs_current s = v then go ls l (drop_top s) else fall (ICheckGreedy l) s)"
| "exec ls subj (ILoad n v l) s =
     (if l \<noteq> None \<and> past_end subj n (rs_current s + v) then go ls (the l) s
      else load_chars subj n (rs_current s + v) (\<lambda>c. fall (ILoad n v l) (s\<lparr>rs_char := c\<rparr>)))"
| "exec ls subj (ICheckChar c l) s = test ls (ICheckChar c l) l (c = rs_char s) s"
| "exec ls subj (ICheckNotChar c l) s = test ls (ICheckNotChar c l) l (c \<noteq> rs_char s) s"
| "exec ls subj (IAndCheckChar c m l) s = test ls (IAndCheckChar c m l) l (c = rs_char s AND m) s"
| "exec ls subj (IAndCheckNotChar c m l) s = test ls (IAndCheckNotChar c m l) l (c \<noteq> rs_char s AND m) s"
| "exec ls subj (IMinusAndCheckNotChar c d m l) s =
     test ls (IMinusAndCheckNotChar c d m l) l (ucast c \<noteq> (rs_char s - ucast d) AND ucast m) s"
| "exec ls subj (ICheckLT c l) s = test ls (ICheckLT c l) l (rs_char s < ucast c) s"
| "exec ls subj (ICheckGT c l) s = test ls (ICheckGT c l) l (rs_char s > ucast c) s"
| "exec ls subj (IRegisterLT r v l) s = read_register s r (\<lambda>w. test ls (IRegisterLT r v l) l (sint w < sint v) s)"
| "exec ls subj (IRegisterGE r v l) s = read_register s r (\<lambda>w. test ls (IRegisterGE r v l) l (sint w \<ge> sint v) s)"
| "exec ls subj (IRegisterEqPos r l) s = read_register s r (\<lambda>w. test ls (IRegisterEqPos r l) l (w = rs_current s) s)"
| "exec ls subj (INotRegsEqual r q l) s =
     read_register s r (\<lambda>v. read_register s q (\<lambda>w. test ls (INotRegsEqual r q l) l (v \<noteq> w) s))"
| "exec ls subj (INotBackRef r l) s = exec_back_ref (back_ref_matches subj) ls subj (INotBackRef r l) r l s"
| "exec ls subj (INotBackRefNoCase r l) s = exec_back_ref (BackRefMatchesNoCase subj) ls subj (INotBackRefNoCase r l) r l s"
| "exec ls subj (ICheckAtStart l) s = test ls (ICheckAtStart l) l (rs_current s = 0) s"
| "exec ls subj (ICheckNotAtStart l) s = test ls (ICheckNotAtStart l) l (rs_current s \<noteq> 0) s"
| "exec ls subj (ISetCpFromEnd n) s =
     (if sint (subject_length subj - rs_current s) > sint n
      then load_char subj (subject_length subj - n - 1) (\<lambda>c.
             fall (ISetCpFromEnd n) (s\<lparr>rs_current := subject_length subj - n, rs_char := c\<rparr>))
      else fall (ISetCpFromEnd n) s)"

fun instr_at :: "nat \<Rightarrow> rx_line list \<Rightarrow> nat \<Rightarrow> rx_instr option" where
  "instr_at p [] a = None"
| "instr_at p (Target l # ls) a = instr_at p ls a"
| "instr_at p (Instr i # ls) a = (if a = p then Some i else instr_at (p + instr_size i) ls a)"

definition exec_step :: "rx_line list \<Rightarrow> subject \<Rightarrow> rx_state \<Rightarrow> rx_result" where
  "exec_step ls subj s =
     (case (if rs_pc s < 0 then None else instr_at 0 ls (nat (rs_pc s))) of
        None \<Rightarrow> Fault
      | Some i \<Rightarrow> exec ls subj i s)"

section \<open>The code at an address\<close>

lemma instr_at_positions: "instr_at p ls a = Some i \<Longrightarrow> set (positions a (instr_items i)) \<subseteq> set (positions p (items ls))"
proof (induction p ls a rule: instr_at.induct)
  case (3 p j ls a)
  then show ?case by (cases "a = p") auto
qed simp_all

lemma length_item_bytes [simp]: "length (item_bytes bnd i) = item_size i"
  by (cases i) simp_all

lemma length_program_code [simp]: "length (program_code ls) = items_size (items ls)"
  by (simp add: program_code_def length_concat comp_def)

lemma get_at_length:
  "get32 (pre @ bytes32 w @ post) (length pre) = w" "get16 (pre @ bytes16 v @ post) (length pre) = v"
proof -
  have "\<forall>k < length (bytes32 w). (pre @ bytes32 w @ post) ! (length pre + k) = bytes32 w ! k" by (simp add: nth_append)
  then show "get32 (pre @ bytes32 w @ post) (length pre) = w" by (rule get_bytes_at(1)) simp
  have "\<forall>k < length (bytes16 v). (pre @ bytes16 v @ post) ! (length pre + k) = bytes16 v ! k" by (simp add: nth_append)
  then show "get16 (pre @ bytes16 v @ post) (length pre) = v" by (rule get_bytes_at(2)) simp
qed

lemma holds_concat: "x \<in> set (positions (length pre) its) \<Longrightarrow> holds (pre @ concat (map (item_bytes bnd) its)) bnd x"
proof (induction its arbitrary: pre)
  case (Cons i its)
  let ?rest = "concat (map (item_bytes bnd) its)"
  show ?case
  proof (cases "x = (length pre, i)")
    case True
    then show ?thesis by (cases i) (simp_all add: holds_def get_at_length split: option.split)
  next
    case False
    then have "x \<in> set (positions (length (pre @ item_bytes bnd i)) its)" using Cons.prems by simp
    then show ?thesis using Cons.IH [of "pre @ item_bytes bnd i"] by simp
  qed
qed simp

lemma holds_program_code: "x \<in> set (positions 0 (items ls)) \<Longrightarrow> holds (program_code ls) (target 0 ls) x"
  using holds_concat [of x "[]"] by (simp add: program_code_def)

lemma target_bound: "target p ls l = Some a \<Longrightarrow> a \<le> p + items_size (items ls)"
  by (induction p ls l rule: target.induct) (auto split: if_splits)

lemma Load_Word:
  assumes "(q, Word w) \<in> set (positions 0 (items ls))"
  shows "Load32Aligned (program_code ls) (int q) k = k w"
  using holds_program_code [OF assms] positions_bounds [OF assms] by (simp add: Load32Aligned_def holds_def)

lemma Load_Half:
  assumes "(q, Half w) \<in> set (positions 0 (items ls))"
  shows "Load16Aligned (program_code ls) (int q) k = k (ucast w)"
  using holds_program_code [OF assms] positions_bounds [OF assms] by (simp add: Load16Aligned_def holds_def)

lemma Load_Ref:
  assumes "(q, Ref l) \<in> set (positions 0 (items ls))" "target 0 ls l = Some a"
  shows "Load32Aligned (program_code ls) (int q) k = k (of_nat a)"
  using holds_program_code [OF assms(1)] positions_bounds [OF assms(1)] assms(2) by (simp add: Load32Aligned_def holds_def)

section \<open>Decoding\<close>

text \<open>The argument in the upper 24 bits of an instruction word, as a signed number.\<close>

definition fits24 :: "uint32 \<Rightarrow> bool" where
  "fits24 v \<longleftrightarrow> - (2 ^ 23) \<le> sint v \<and> sint v < 2 ^ 23"

lemma sint_small: "uint v < 2 ^ 31 \<Longrightarrow> sint v = uint v" for v :: uint32
  by (simp add: sint_uint signed_take_bit_int_eq_self_iff order_trans [OF _ uint_ge_0])

lemma take_bit_word_id: "v < 2 ^ 24 \<Longrightarrow> take_bit 24 v = v" for v :: uint32
proof -
  assume "v < 2 ^ 24"
  then have "unat (take_bit 24 v) = unat v" by (simp add: unsigned_take_bit_eq word_less_nat_alt take_bit_nat_eq_self_iff)
  then show "take_bit 24 v = v" by (simp only: unsigned_word_eqI)
qed

lemma fits24_0 [simp]: "fits24 0"
  by (simp add: fits24_def)

lemma fits24_bit:
  assumes "fits24 v" "23 \<le> n" "n < 32"
  shows "bit v n = bit v 23"
proof -
  have "signed_take_bit 23 (sint v) = sint v" using assms(1) by (simp add: fits24_def signed_take_bit_int_eq_self_iff)
  then have "bit (sint v) n = bit (signed_take_bit 23 (sint v)) n" by simp
  then show ?thesis using assms(2,3) by (simp add: bit_signed_take_bit_iff bit_sint_iff min_def)
qed

lemma decode:
  assumes "bc < 256"
  shows "(push_bit BYTECODE_SHIFT v OR bc) AND BYTECODE_MASK = bc"
    "fits24 v \<Longrightarrow> signed_drop_bit BYTECODE_SHIFT (push_bit BYTECODE_SHIFT v OR bc) = v"
    "drop_bit BYTECODE_SHIFT (push_bit BYTECODE_SHIFT v OR bc) = take_bit 24 v"
proof -
  have bc: "\<not> bit bc n" if "8 \<le> n" for n
  proof -
    have "unat (take_bit 8 bc) = unat bc" using assms by (simp add: unsigned_take_bit_eq word_less_nat_alt take_bit_nat_eq_self_iff)
    then have "take_bit 8 bc = bc" by (simp only: unsigned_word_eqI)
    then show ?thesis using that by (metis bit_take_bit_iff not_less)
  qed
  have m: "BYTECODE_MASK = mask 8" by (simp add: BYTECODE_MASK_def mask_eq_exp_minus_1)
  show "(push_bit BYTECODE_SHIFT v OR bc) AND BYTECODE_MASK = bc"
  proof (rule bit_word_eqI)
    fix n :: nat
    assume "n < LENGTH(32)"
    then show "bit ((push_bit BYTECODE_SHIFT v OR bc) AND BYTECODE_MASK) n = bit bc n"
    proof (cases "n < 8")
      case True
      then show ?thesis unfolding m by (simp add: BYTECODE_SHIFT_def bit_simps)
    next
      case False
      then show ?thesis using bc unfolding m by (simp add: bit_simps)
    qed
  qed
  show "drop_bit BYTECODE_SHIFT (push_bit BYTECODE_SHIFT v OR bc) = take_bit 24 v"
    by (rule bit_word_eqI) (simp add: BYTECODE_SHIFT_def bit_simps bc conj_commute)
  show "signed_drop_bit BYTECODE_SHIFT (push_bit BYTECODE_SHIFT v OR bc) = v" if "fits24 v"
  proof (rule bit_word_eqI)
    fix n :: nat
    assume n: "n < LENGTH(32)"
    show "bit (signed_drop_bit BYTECODE_SHIFT (push_bit BYTECODE_SHIFT v OR bc)) n = bit v n"
    proof (cases "n < 24")
      case True
      then show ?thesis using bc [of "8 + n"] by (simp add: BYTECODE_SHIFT_def bit_signed_drop_bit_iff bit_or_iff bit_push_bit_iff)
    next
      case False
      then show ?thesis using n bc [of 31] fits24_bit [OF that, of n]
        by (simp add: BYTECODE_SHIFT_def bit_signed_drop_bit_iff bit_or_iff bit_push_bit_iff)
    qed
  qed
qed

fun instr_ok :: "rx_instr \<Rightarrow> bool" where
  "instr_ok (IPushRegister r) = fits24 r"
| "instr_ok (ISetRegister r v) = fits24 r"
| "instr_ok (IAdvanceRegister r v) = fits24 r"
| "instr_ok (ISetRegisterToCp r v) = fits24 r"
| "instr_ok (ISetCpToRegister r) = fits24 r"
| "instr_ok (ISetRegisterToSp r) = fits24 r"
| "instr_ok (ISetSpToRegister r) = fits24 r"
| "instr_ok (IPopRegister r) = fits24 r"
| "instr_ok (IAdvanceCp v) = fits24 v"
| "instr_ok (IAdvanceCpAndGoTo v l) = fits24 v"
| "instr_ok (ILoad n v l) = fits24 v"
| "instr_ok (IRegisterLT r v l) = fits24 r"
| "instr_ok (IRegisterGE r v l) = fits24 r"
| "instr_ok (IRegisterEqPos r l) = fits24 r"
| "instr_ok (INotRegsEqual r q l) = fits24 r"
| "instr_ok (INotBackRef r l) = fits24 r"
| "instr_ok (INotBackRefNoCase r l) = fits24 r"
| "instr_ok (ISetCpFromEnd n) = (n < 2 ^ 24)"
| "instr_ok i = True"

lemma fits24_char: "fits24 (ucast (c :: uint16))" "\<not> c' > MAX_FIRST_ARG \<Longrightarrow> fits24 c'"
proof -
  show *: "fits24 c'" if "\<not> c' > MAX_FIRST_ARG" for c'
    using that sint_small [of c'] by (simp add: fits24_def MAX_FIRST_ARG_def word_less_def order_trans [OF _ uint_ge_0])
  show "fits24 (ucast c)" by (rule *) (rule small_char)
qed

text \<open>What the interpreter reads for an item of the code.\<close>

definition reads :: "rx_line list \<Rightarrow> nat \<times> item \<Rightarrow> bool" where
  "reads ls = (\<lambda>(q, i). case i of
      Word w \<Rightarrow> \<forall>k. Load32Aligned (program_code ls) (int q) k = k w
    | Half w \<Rightarrow> \<forall>k. Load16Aligned (program_code ls) (int q) k = k (ucast w)
    | Ref l \<Rightarrow> (\<exists>a. target 0 ls l = Some a \<and> (\<forall>k. Load32Aligned (program_code ls) (int q) k = k (of_nat a))) \<and>
        (\<forall>s. jump (program_code ls) (int q) s = go ls l s))"

lemma reads_items:
  assumes "resolved ls" "items_size (items ls) < 2 ^ 31" "x \<in> set (positions 0 (items ls))"
  shows "reads ls x"
proof (cases x)
  case (Pair q i)
  note at = assms(3) [unfolded Pair]
  show ?thesis
  proof (cases i)
    case (Ref l)
    have "set (map snd (positions p its)) = set its" for p its by (induction its arbitrary: p) auto
    then have "Ref l \<in> set (items ls)" using at unfolding Ref by (metis image_eqI list.set_map snd_conv)
    then obtain a where a: "target 0 ls l = Some a" using resolved_Ref [OF assms(1)] by blast
    have "a < 2 ^ 31" using target_bound [OF a] assms(2) by simp
    then have "uint (of_nat a :: uint32) = int a" by (simp add: unsigned_of_nat take_bit_nat_eq_self_iff)
    then have "sint (of_nat a :: uint32) = int a" using sint_small [of "of_nat a"] \<open>a < 2 ^ 31\<close> by simp
    then show ?thesis using Load_Ref [OF at [unfolded Ref] a] a
      by (simp add: Pair Ref reads_def jump_def go_def)
  qed (use at Load_Word Load_Half in \<open>auto simp: Pair reads_def\<close>)
qed

lemma dispatch_code:
  assumes "bc < 256" "fits24 arg"
  shows "dispatch code subj (push_bit BYTECODE_SHIFT arg OR bc) s =
    (if bc \<le> BC_GOTO \<or> bc = BC_CHECK_GREEDY \<or> bc = BC_ADVANCE_CP_AND_GOTO then step_state code bc arg s
     else if bc \<le> BC_LOAD_4_CURRENT_CHARS_UNCHECKED then step_load code subj bc arg s
     else if bc \<le> BC_CHECK_GT then step_check code bc arg s
     else if BC_LOOKUP_MAP1 \<le> bc \<and> bc \<le> BC_LOOKUP_HI_MAP8 then step_lookup code bc arg s
     else step_test code subj bc arg (push_bit BYTECODE_SHIFT arg OR bc) s)"
  using decode(1,2) [OF assms(1)] assms(2) by (simp add: dispatch_def)

lemma dispatch_code_0:
  "bc < 256 \<Longrightarrow> dispatch code subj bc s =
    (if bc \<le> BC_GOTO \<or> bc = BC_CHECK_GREEDY \<or> bc = BC_ADVANCE_CP_AND_GOTO then step_state code bc 0 s
     else if bc \<le> BC_LOAD_4_CURRENT_CHARS_UNCHECKED then step_load code subj bc 0 s
     else if bc \<le> BC_CHECK_GT then step_check code bc 0 s
     else if BC_LOOKUP_MAP1 \<le> bc \<and> bc \<le> BC_LOOKUP_HI_MAP8 then step_lookup code bc 0 s
     else step_test code subj bc 0 bc s)"
  using dispatch_code [OF _ fits24_0, of bc] by (simp only: push_bit_of_0 or.left_neutral)

section \<open>One instruction\<close>

definition first_word :: "item list \<Rightarrow> uint32" where
  "first_word its = (case its of Word w # r \<Rightarrow> w | _ \<Rightarrow> 0)"

lemma step_Word:
  assumes "reads ls (a, Word w)" "rs_pc s = int a"
  shows "step (program_code ls) subj s = dispatch (program_code ls) subj w s"
  using assms by (simp add: step_def reads_def)

lemma drop_top_pc [simp]: "rs_pc (drop_top s) = rs_pc s"
  by (simp add: drop_top_def)

lemma address: "numeral m + int a = int a + numeral m" "int a + numeral m + numeral n = int a + numeral (m + n)"
  by simp_all

lemmas instr_simps = dispatch_code dispatch_code_0 fits24_char bytecodes fall_def advance_def test_def branch_def Let_def

lemma step_exec:
  assumes ls: "resolved ls" "items_size (items ls) < 2 ^ 31" and i: "instr_at 0 ls a = Some i" "instr_ok i" and s: "rs_pc s = int a"
  shows "step (program_code ls) subj s = exec ls subj i s"
proof -
  have r: "\<forall>x \<in> set (positions a (instr_items i)). reads ls x"
    using instr_at_positions [OF i(1)] reads_items [OF ls] by blast
  obtain w where w: "\<exists>r. instr_items i = Word w # r" using instr_items_Word [of i] by blast
  then have "reads ls (a, Word w)" "first_word (instr_items i) = w" using r by (auto simp: first_word_def)
  then have st: "step (program_code ls) subj s = dispatch (program_code ls) subj (first_word (instr_items i)) s"
    using s step_Word by simp
  note reads = r [unfolded reads_def]
  show ?thesis
  proof (cases i)
    case IPushCp
    show ?thesis using reads i(2) s unfolding st IPushCp by (auto simp: instr_simps first_word_def step_state_def address pop_def split: if_splits)
  next
    case (IPushBt l)
    show ?thesis using reads i(2) s unfolding st IPushBt by (auto simp: instr_simps first_word_def step_state_def address pop_def split: if_splits)
  next
    case (IPushRegister r)
    show ?thesis using reads i(2) s unfolding st IPushRegister by (auto simp: instr_simps first_word_def step_state_def address pop_def split: if_splits)
  next
    case (ISetRegister r v)
    show ?thesis using reads i(2) s unfolding st ISetRegister by (auto simp: instr_simps first_word_def step_state_def address pop_def split: if_splits)
  next
    case (IAdvanceRegister r v)
    show ?thesis using reads i(2) s unfolding st IAdvanceRegister by (auto simp: instr_simps first_word_def step_state_def address pop_def split: if_splits)
  next
    case (ISetRegisterToCp r v)
    show ?thesis using reads i(2) s unfolding st ISetRegisterToCp by (auto simp: instr_simps first_word_def step_state_def address pop_def split: if_splits)
  next
    case (ISetCpToRegister r)
    show ?thesis using reads i(2) s unfolding st ISetCpToRegister by (auto simp: instr_simps first_word_def step_state_def address pop_def split: if_splits)
  next
    case (ISetRegisterToSp r)
    show ?thesis using reads i(2) s unfolding st ISetRegisterToSp by (auto simp: instr_simps first_word_def step_state_def address pop_def split: if_splits)
  next
    case (ISetSpToRegister r)
    show ?thesis using reads i(2) s unfolding st ISetSpToRegister by (auto simp: instr_simps first_word_def step_state_def address pop_def split: if_splits)
  next
    case IPopCp
    show ?thesis using reads i(2) s unfolding st IPopCp by (auto simp: instr_simps first_word_def step_state_def address pop_def split: if_splits)
  next
    case IPopBt
    show ?thesis using reads i(2) s unfolding st IPopBt by (auto simp: instr_simps first_word_def step_state_def address pop_def split: if_splits)
  next
    case (IPopRegister r)
    show ?thesis using reads i(2) s unfolding st IPopRegister by (auto simp: instr_simps first_word_def step_state_def address pop_def split: if_splits)
  next
    case IFail
    show ?thesis using reads i(2) s unfolding st IFail by (auto simp: instr_simps first_word_def step_state_def address pop_def split: if_splits)
  next
    case ISucceed
    show ?thesis using reads i(2) s unfolding st ISucceed by (auto simp: instr_simps first_word_def step_state_def address pop_def split: if_splits)
  next
    case (IAdvanceCp v)
    show ?thesis using reads i(2) s unfolding st IAdvanceCp by (auto simp: instr_simps first_word_def step_state_def address pop_def split: if_splits)
  next
    case (IGoTo l)
    show ?thesis using reads i(2) s unfolding st IGoTo by (auto simp: instr_simps first_word_def step_state_def address pop_def split: if_splits)
  next
    case (IAdvanceCpAndGoTo v l)
    show ?thesis using reads i(2) s unfolding st IAdvanceCpAndGoTo by (auto simp: instr_simps first_word_def step_state_def address pop_def split: if_splits)
  next
    case (ICheckGreedy l)
    show ?thesis using reads i(2) s unfolding st ICheckGreedy by (auto simp: instr_simps first_word_def step_state_def address pop_def split: if_splits cong: if_cong)
  next
    case (ILoad n v l)
    show ?thesis using reads i(2) s unfolding st ILoad by (auto simp: instr_simps first_word_def step_load_def address load_bytecode_def load_chars_def past_end_def set_char_def [abs_def] split: if_splits cong: if_cong)
  next
    case (ICheckChar c l)
    show ?thesis using reads i(2) s unfolding st ICheckChar
      by (cases "c > MAX_FIRST_ARG") (simp_all add: instr_simps first_word_def step_check_def address)
  next
    case (ICheckNotChar c l)
    show ?thesis using reads i(2) s unfolding st ICheckNotChar
      by (cases "c > MAX_FIRST_ARG") (simp_all add: instr_simps first_word_def step_check_def address)
  next
    case (IAndCheckChar c m l)
    show ?thesis using reads i(2) s unfolding st IAndCheckChar
      by (cases "c > MAX_FIRST_ARG") (simp_all add: instr_simps first_word_def step_check_def address)
  next
    case (IAndCheckNotChar c m l)
    show ?thesis using reads i(2) s unfolding st IAndCheckNotChar
      by (cases "c > MAX_FIRST_ARG") (simp_all add: instr_simps first_word_def step_check_def address)
  next
    case (IMinusAndCheckNotChar c d m l)
    show ?thesis using reads i(2) s unfolding st IMinusAndCheckNotChar by (auto simp: instr_simps first_word_def step_check_def address split: if_splits)
  next
    case (ICheckLT c l)
    show ?thesis using reads i(2) s unfolding st ICheckLT by (auto simp: instr_simps first_word_def step_check_def address split: if_splits)
  next
    case (ICheckGT c l)
    show ?thesis using reads i(2) s unfolding st ICheckGT by (auto simp: instr_simps first_word_def step_check_def address split: if_splits)
  next
    case (IRegisterLT r v l)
    show ?thesis using reads i(2) s unfolding st IRegisterLT by (auto simp: instr_simps first_word_def step_test_def address exec_back_ref_def check_back_ref_def split: if_splits cong: if_cong)
  next
    case (IRegisterGE r v l)
    show ?thesis using reads i(2) s unfolding st IRegisterGE by (auto simp: instr_simps first_word_def step_test_def address exec_back_ref_def check_back_ref_def split: if_splits cong: if_cong)
  next
    case (IRegisterEqPos r l)
    show ?thesis using reads i(2) s unfolding st IRegisterEqPos by (auto simp: instr_simps first_word_def step_test_def address exec_back_ref_def check_back_ref_def split: if_splits cong: if_cong)
  next
    case (INotRegsEqual r q l)
    show ?thesis using reads i(2) s unfolding st INotRegsEqual by (auto simp: instr_simps first_word_def step_test_def address exec_back_ref_def check_back_ref_def split: if_splits cong: if_cong)
  next
    case (INotBackRef r l)
    show ?thesis using reads i(2) s unfolding st INotBackRef by (auto simp: instr_simps first_word_def step_test_def address exec_back_ref_def check_back_ref_def split: if_splits cong: if_cong option.case_cong bool.case_cong)
  next
    case (INotBackRefNoCase r l)
    show ?thesis using reads i(2) s unfolding st INotBackRefNoCase by (auto simp: instr_simps first_word_def step_test_def address exec_back_ref_def check_back_ref_def split: if_splits cong: if_cong option.case_cong bool.case_cong)
  next
    case (ICheckAtStart l)
    show ?thesis using reads i(2) s unfolding st ICheckAtStart by (auto simp: instr_simps first_word_def step_test_def address exec_back_ref_def check_back_ref_def split: if_splits cong: if_cong)
  next
    case (ICheckNotAtStart l)
    show ?thesis using reads i(2) s unfolding st ICheckNotAtStart by (auto simp: instr_simps first_word_def step_test_def address exec_back_ref_def check_back_ref_def split: if_splits cong: if_cong)
  next
    case (ISetCpFromEnd n)
    have bc: "BC_SET_CURRENT_POSITION_FROM_END < 256" by (simp add: bytecodes)
    have n: "take_bit 24 n = n" using i(2) ISetCpFromEnd take_bit_word_id [of n] by simp
    let ?w = "first_word (instr_items i)"
    have w: "?w = push_bit BYTECODE_SHIFT n OR BC_SET_CURRENT_POSITION_FROM_END" by (simp add: ISetCpFromEnd first_word_def)
    have "dispatch (program_code ls) subj ?w s = step_test (program_code ls) subj BC_SET_CURRENT_POSITION_FROM_END
        (signed_drop_bit BYTECODE_SHIFT ?w) ?w s" "drop_bit BYTECODE_SHIFT ?w = n"
      using decode [OF bc, of n] n unfolding w by (simp_all add: dispatch_def bytecodes Let_def)
    then show ?thesis using s ISetCpFromEnd unfolding st by (auto simp: step_test_def bytecodes Let_def fall_def)
  qed
qed

end
