(* ===== verification/IrregexpRefinement.thy ===== *)
theory IrregexpRefinement
  imports IrregexpMachine
begin

text \<open>
  The interpreter on the assembled code runs the program: the arguments that the assertions of the
  assembler admit fit into the instruction words, and every turn of the interpreter is a turn of the machine.
\<close>

section \<open>The assertions of the assembler\<close>

definition kMaxRegister :: int where "kMaxRegister = 2 ^ 16 - 1"
definition kMaxCPOffset :: int where "kMaxCPOffset = 2 ^ 15 - 1"
definition kMinCPOffset :: int where "kMinCPOffset = - (2 ^ 15)"

definition register_ok :: "uint32 \<Rightarrow> bool" where
  "register_ok r \<longleftrightarrow> 0 \<le> sint r \<and> sint r \<le> kMaxRegister"

definition offset_ok :: "uint32 \<Rightarrow> bool" where
  "offset_ok v \<longleftrightarrow> kMinCPOffset \<le> sint v \<and> sint v \<le> kMaxCPOffset"

fun call_ok :: "rx_call \<Rightarrow> bool" where
  "call_ok (CAdvanceCurrentPosition v) = offset_ok v"
| "call_ok (CPopRegister r) = register_ok r"
| "call_ok (CPushRegister r) = register_ok r"
| "call_ok (CAdvanceRegister r v) = register_ok r"
| "call_ok (CSetCurrentPositionFromEnd n) = (n < 2 ^ 24)"
| "call_ok (CSetRegister r v) = register_ok r"
| "call_ok (CWriteCurrentPositionToRegister r v) = register_ok r"
| "call_ok (CClearRegisters r s) = (sint r \<le> sint s \<and> register_ok r \<and> register_ok s)"
| "call_ok (CReadCurrentPositionFromRegister r) = register_ok r"
| "call_ok (CWriteStackPointerToRegister r) = register_ok r"
| "call_ok (CReadStackPointerFromRegister r) = register_ok r"
| "call_ok (CLoadCurrentCharacter v l b n) = (offset_ok v \<and> (n = 1 \<or> n = 2 \<or> n = 4))"
| "call_ok (CCheckNotBackReference r l) = register_ok r"
| "call_ok (CCheckNotBackReferenceIgnoreCase r l) = register_ok r"
| "call_ok (CCheckNotRegistersEqual r s l) = register_ok r"
| "call_ok (CCheckCharacters str v l b) = (kMinCPOffset \<le> sint v \<and> sint v + int (length str) - 1 \<le> kMaxCPOffset)"
| "call_ok (CIfRegisterLT r v l) = register_ok r"
| "call_ok (CIfRegisterGE r v l) = register_ok r"
| "call_ok (CIfRegisterEqPos r l) = register_ok r"
| "call_ok c = True"

lemmas limits = kMaxRegister_def kMaxCPOffset_def kMinCPOffset_def

lemma ok_fits24: "register_ok r \<Longrightarrow> fits24 r" "offset_ok v \<Longrightarrow> fits24 v"
  by (simp_all add: register_ok_def offset_ok_def fits24_def limits)

lemma fits24_of_int: "- (2 ^ 23) \<le> k \<Longrightarrow> k < 2 ^ 23 \<Longrightarrow> fits24 (word_of_int k)"
proof -
  assume k: "- (2 ^ 23) \<le> k" "k < 2 ^ 23"
  then have "signed_take_bit 31 k = k" by (simp add: signed_take_bit_int_eq_self_iff)
  then show ?thesis using k by (simp add: fits24_def signed_of_int)
qed

definition line_ok :: "rx_line \<Rightarrow> bool" where
  "line_ok x = (case x of Instr i \<Rightarrow> instr_ok i | Target l \<Rightarrow> True)"

lemma line_ok_simps [simp]: "line_ok (Instr i) = instr_ok i" "line_ok (Target l)"
  by (simp_all add: line_ok_def)

lemma call_lines_ok:
  assumes "call_ok c" "x \<in> set (call_lines c)"
  shows "line_ok x"
proof (cases c)
  case (CClearRegisters r s)
  then show ?thesis using assms by (auto simp: register_ok_def limits intro!: fits24_of_int)
next
  case (CCheckCharacters str v l b)
  have "fits24 (v + of_nat i)" if "i < length str" for i
  proof -
    have "v + of_nat i = word_of_int (sint v + int i)" by simp
    moreover have "fits24 (word_of_int (sint v + int i))"
      using assms(1) that CCheckCharacters by (intro fits24_of_int) (simp_all add: limits)
    ultimately show ?thesis by (simp only:)
  qed
  then show ?thesis using assms(2) CCheckCharacters by auto
qed (use assms in \<open>auto intro: ok_fits24\<close>)

lemma add_line_ok: "\<forall>x \<in> set ls. line_ok x \<Longrightarrow> line_ok x \<Longrightarrow> \<forall>y \<in> set (add_line ls x). line_ok y"
proof (cases "\<exists>l. x = Instr (IGoTo l)")
  case True
  then obtain l where x: "x = Instr (IGoTo l)" by blast
  assume "\<forall>x \<in> set ls. line_ok x"
  then show ?thesis unfolding x add_line_GoTo
  proof (cases "last_advance ls")
    case (Some v)
    then obtain ks where "ls = ks @ [Instr (IAdvanceCp v)]" using last_advance_SomeD by blast
    then show "\<forall>y \<in> set (case last_advance ls of None \<Rightarrow> ls @ [Instr (IGoTo l)] | Some v \<Rightarrow> butlast ls @ [Instr (IAdvanceCpAndGoTo v l)]). line_ok y"
      using \<open>\<forall>x \<in> set ls. line_ok x\<close> by auto
  qed auto
next
  case False
  assume "\<forall>x \<in> set ls. line_ok x" "line_ok x"
  then show ?thesis using False by (cases x) (auto simp: add_line_Instr)
qed

lemma add_lines_ok: "\<forall>x \<in> set ls. line_ok x \<Longrightarrow> \<forall>x \<in> set xs. line_ok x \<Longrightarrow> \<forall>y \<in> set (foldl add_line ls xs). line_ok y"
proof (induction xs arbitrary: ls)
  case (Cons x xs)
  have "\<forall>y \<in> set (add_line ls x). line_ok y" using Cons.prems by (intro add_line_ok) simp_all
  then have "\<forall>y \<in> set (foldl add_line (add_line ls x) xs). line_ok y" by (rule Cons.IH) (use Cons.prems in simp)
  then show ?case by simp
qed simp

lemma program_lines_ok:
  assumes "list_all call_ok calls"
  shows "\<forall>x \<in> set (program calls). line_ok x"
proof -
  have "\<forall>x \<in> set (concat (map call_lines calls)). line_ok x" using assms call_lines_ok by (auto simp: list_all_iff)
  then have "\<forall>x \<in> set (foldl add_line [] (concat (map call_lines calls))). line_ok x"
    by (intro add_lines_ok) simp_all
  then show ?thesis unfolding program_def by (simp add: ball_Un)
qed

section \<open>The refinement\<close>

lemma instr_at_in: "instr_at p ls a = Some i \<Longrightarrow> Instr i \<in> set ls"
  by (induction p ls a rule: instr_at.induct) (auto split: if_splits)

lemma step_refines:
  assumes "\<forall>x \<in> set ls. line_ok x" "resolved ls" "items_size (items ls) < 2 ^ 31" "exec_step ls subj s \<noteq> Fault"
  shows "step (program_code ls) subj s = exec_step ls subj s"
proof -
  have "\<not> rs_pc s < 0" using assms(4) by (auto simp: exec_step_def)
  then have s: "rs_pc s = int (nat (rs_pc s))" by simp
  obtain i where i: "instr_at 0 ls (nat (rs_pc s)) = Some i"
    using assms(4) by (auto simp: exec_step_def split: if_splits option.splits)
  have "instr_ok i" using assms(1) instr_at_in [OF i] by force
  then have "step (program_code ls) subj s = exec ls subj i s" by (rule step_exec [OF assms(2,3) i _ s])
  then show ?thesis using i \<open>\<not> rs_pc s < 0\<close> by (simp add: exec_step_def)
qed

lemma run_refines:
  assumes "\<And>s. f s \<noteq> Fault \<Longrightarrow> g s = f s" "run_loop f n s \<noteq> Some Fault"
  shows "run_loop g n s = run_loop f n s"
  using assms(2)
proof (induction n arbitrary: s)
  case (Suc n)
  then have "f s \<noteq> Fault" by auto
  then show ?case using Suc assms(1) by (auto split: rx_result.splits)
qed simp

end
