(* ===== verification/IrregexpShape.thy ===== *)
theory IrregexpShape
  imports IrregexpInterpreter
begin

text \<open>
  What every turn of the interpreter keeps, whatever the code is: the space left and the stack pointer add
  up to the size of the stack, and the arrays keep their sizes. The comparisons of back references are
  described as comparisons of two pieces of the subject.
\<close>

section \<open>The shape of a state\<close>

definition shape :: "nat \<Rightarrow> rx_state \<Rightarrow> bool" where
  "shape n s \<longleftrightarrow> rs_sp s + rs_space s = int kBacktrackStackSize \<and> length (rs_stack s) = kBacktrackStackSize \<and>
     length (rs_registers s) = n"

definition keeps :: "nat \<Rightarrow> rx_result \<Rightarrow> bool" where
  "keeps n r \<longleftrightarrow> (\<forall>s. r = Next s \<longrightarrow> shape n s)"

named_theorems keeps_intros

lemma keeps_basic [keeps_intros, simp]: "keeps n Fault" "keeps n (Result b)"
  by (simp_all add: keeps_def)

lemma keeps_Next [keeps_intros]: "shape n s \<Longrightarrow> keeps n (Next s)"
  by (simp add: keeps_def)

lemma shape_update [keeps_intros]:
  "shape n s \<Longrightarrow> shape n (s\<lparr>rs_pc := p\<rparr>)"
  "shape n s \<Longrightarrow> shape n (s\<lparr>rs_current := c\<rparr>)"
  "shape n s \<Longrightarrow> shape n (s\<lparr>rs_char := c\<rparr>)"
  "shape n s \<Longrightarrow> shape n (drop_top s)"
  "shape n s \<Longrightarrow> shape n (s\<lparr>rs_sp := k, rs_space := int kBacktrackStackSize - k\<rparr>)"
  by (simp_all add: shape_def drop_top_def)

lemma keeps_read [keeps_intros]:
  "(\<And>v. keeps n (k v)) \<Longrightarrow> keeps n (Load32Aligned code p k)"
  "(\<And>v. keeps n (k v)) \<Longrightarrow> keeps n (Load16Aligned code p k)"
  "(\<And>v. keeps n (kb v)) \<Longrightarrow> keeps n (code_byte code p kb)"
  "(\<And>v. keeps n (k v)) \<Longrightarrow> keeps n (load_char subj pos k)"
  "(\<And>v. keeps n (k v)) \<Longrightarrow> keeps n (read_register s r k)"
  "(\<And>v. keeps n (k v)) \<Longrightarrow> keeps n (stack_top s k)"
  by (simp_all add: Load32Aligned_def Load16Aligned_def code_byte_def load_char_def read_register_def stack_top_def Let_def split: option.split)

lemma keeps_if [keeps_intros]: "(b \<Longrightarrow> keeps n x) \<Longrightarrow> (\<not> b \<Longrightarrow> keeps n y) \<Longrightarrow> keeps n (if b then x else y)"
  by simp

lemma keeps_advance [keeps_intros]: "keeps n r \<Longrightarrow> keeps n (advance k r)"
  by (cases r) (auto simp: advance_def keeps_def shape_def)

lemma keeps_change [keeps_intros]:
  "shape n s \<Longrightarrow> keeps n (push v s)"
  "shape n s \<Longrightarrow> keeps n (write_register r v s)"
  "(\<And>v s. shape n s \<Longrightarrow> keeps n (kp v s)) \<Longrightarrow> shape n s \<Longrightarrow> keeps n (pop s kp)"
  "shape n s \<Longrightarrow> keeps n (jump code p s)"
  "shape n s \<Longrightarrow> keeps n (branch code b p m s)"
  "shape n s \<Longrightarrow> keeps n (set_char s m c)"
proof -
  show "shape n s \<Longrightarrow> keeps n (push v s)" by (simp add: push_def keeps_def shape_def Let_def)
  show "shape n s \<Longrightarrow> keeps n (write_register r v s)" by (simp add: write_register_def keeps_def shape_def)
  show "keeps n (pop s kp)" if "\<And>v s. shape n s \<Longrightarrow> keeps n (kp v s)" "shape n s"
    unfolding pop_def by (intro keeps_intros that)
  show jump: "shape n s \<Longrightarrow> keeps n (jump code p s)" unfolding jump_def by (intro keeps_intros)
  show "shape n s \<Longrightarrow> keeps n (branch code b p m s)" unfolding branch_def by (intro keeps_intros jump)
  show "shape n s \<Longrightarrow> keeps n (set_char s m c)" unfolding set_char_def by (intro keeps_intros)
qed

lemma keeps_loads [keeps_intros]:
  "(\<And>v. keeps n (k v)) \<Longrightarrow> keeps n (load_2_chars subj pos k)"
  "(\<And>v. keeps n (k v)) \<Longrightarrow> keeps n (load_4_chars subj pos k)"
  unfolding load_2_chars_def load_4_chars_def by (intro keeps_intros; assumption)+

lemma keeps_back_ref [keeps_intros]:
  assumes "shape n s"
  shows "keeps n (check_back_ref same code subj r p m s)"
proof -
  have "keeps n (case b of None \<Rightarrow> Fault | Some True \<Rightarrow> Next (s\<lparr>rs_current := c, rs_pc := q\<rparr>) | Some False \<Rightarrow> jump code p s)" for b c q
    using assms by (auto split: option.split bool.split intro!: keeps_intros)
  then show ?thesis unfolding check_back_ref_def Let_def by (intro keeps_intros assms)
qed

lemma keeps_step_state: "shape n s \<Longrightarrow> keeps n (step_state code bc arg s)"
  unfolding step_state_def Let_def by (intro keeps_intros; assumption?)

lemma keeps_step_load: "shape n s \<Longrightarrow> keeps n (step_load code subj bc arg s)"
  unfolding step_load_def Let_def by (intro keeps_intros; assumption?)

lemma keeps_step_check: "shape n s \<Longrightarrow> keeps n (step_check code bc arg s)"
  unfolding step_check_def Let_def by (intro keeps_intros; assumption?)

lemma keeps_step_lookup: "shape n s \<Longrightarrow> keeps n (step_lookup code bc arg s)"
  unfolding step_lookup_def Let_def by (intro keeps_intros; assumption?)

lemma keeps_step_test: "shape n s \<Longrightarrow> keeps n (step_test code subj bc arg insn s)"
  unfolding step_test_def Let_def by (intro keeps_intros; assumption?)

lemma step_keeps: "shape n s \<Longrightarrow> keeps n (step code subj s)"
  unfolding step_def dispatch_def Let_def
  by (intro keeps_intros keeps_step_state keeps_step_load keeps_step_check keeps_step_lookup keeps_step_test)

lemma push_in_bounds: "shape n s \<Longrightarrow> 0 \<le> rs_sp s \<Longrightarrow> push v s \<noteq> Fault"
  by (simp add: push_def shape_def Let_def)

section \<open>Back references\<close>

definition same_letter :: "bool \<Rightarrow> uint16 \<Rightarrow> uint16 \<Rightarrow> bool" where
  "same_letter ascii x y \<longleftrightarrow> x = y \<or>
     (if ascii then ascii_lower (ucast x) = ascii_lower (ucast y)
      else interp_canonicalize (ucast x) = interp_canonicalize (ucast y))"

lemma subject_char_nat: "length (chars subj) < 2 ^ 31 \<Longrightarrow> a < length (chars subj) \<Longrightarrow>
    subject_char subj (of_nat a) = Some (ucast (chars subj ! a))"
  by (simp add: subject_char_def sint_of_nat)

lemma ucast_uc16: "(ucast (x :: uint16) :: uint32) = ucast y \<longleftrightarrow> x = y"
proof
  assume "(ucast x :: uint32) = ucast y"
  then have "unat (ucast x :: uint32) = unat (ucast y :: uint32)" by simp
  moreover have "unat x < 2 ^ 32" "unat y < 2 ^ 32" using unsigned_less [where 'a = nat, of x] unsigned_less [where 'a = nat, of y] by simp_all
  ultimately have "unat x = unat y" by (simp add: unsigned_ucast_eq take_bit_nat_eq_self)
  then show "x = y" by (rule unsigned_word_eqI)
qed simp

lemma back_ref_matches_eq:
  "length (chars subj) < 2 ^ 31 \<Longrightarrow> a + n \<le> length (chars subj) \<Longrightarrow> b + n \<le> length (chars subj) \<Longrightarrow>
   back_ref_matches subj (of_nat a) (of_nat b) n = Some (take n (drop a (chars subj)) = take n (drop b (chars subj)))"
proof (induction n arbitrary: a b)
  case (Suc n)
  have "back_ref_matches subj (of_nat a + 1) (of_nat b + 1) n = Some (take n (drop (Suc a) (chars subj)) = take n (drop (Suc b) (chars subj)))"
    using Suc.IH [of "Suc a" "Suc b"] Suc.prems by (simp add: add.commute)
  moreover have "take (Suc n) (drop c (chars subj)) = chars subj ! c # take n (drop (Suc c) (chars subj))" if "c < length (chars subj)" for c
    using that by (simp add: Cons_nth_drop_Suc [symmetric])
  ultimately show ?case using Suc.prems by (simp add: subject_char_nat ucast_uc16)
qed simp

lemma back_ref_no_case_eq:
  "length (chars subj) < 2 ^ 31 \<Longrightarrow> a + n \<le> length (chars subj) \<Longrightarrow> b + n \<le> length (chars subj) \<Longrightarrow>
   BackRefMatchesNoCase subj (of_nat a) (of_nat b) n =
     Some (list_all2 (same_letter (is_ascii subj)) (take n (drop a (chars subj))) (take n (drop b (chars subj))))"
proof (induction n arbitrary: a b)
  case (Suc n)
  have "BackRefMatchesNoCase subj (of_nat a + 1) (of_nat b + 1) n =
      Some (list_all2 (same_letter (is_ascii subj)) (take n (drop (Suc a) (chars subj))) (take n (drop (Suc b) (chars subj))))"
    using Suc.IH [of "Suc a" "Suc b"] Suc.prems by (simp add: add.commute)
  moreover have "take (Suc n) (drop c (chars subj)) = chars subj ! c # take n (drop (Suc c) (chars subj))" if "c < length (chars subj)" for c
    using that by (simp add: Cons_nth_drop_Suc [symmetric])
  ultimately show ?case using Suc.prems same_letter_def [of "is_ascii subj" "chars subj ! a" "chars subj ! b"]
    by (simp add: subject_char_nat ucast_uc16)
qed simp

end
