(* ===== verification/IrregexpProperties.thy ===== *)
theory IrregexpProperties
  imports IrregexpRefinement IrregexpShape
begin

text \<open>The properties of the regular expression bytecodes.\<close>

section \<open>The assembler\<close>

text \<open>
  C34. The assembler makes one pass: it links the references to labels that are not bound yet through the
  buffer, patches them when the label is bound, overwrites an advance that a jump follows, and grows the
  buffer. For a sequence of calls that binds every label it uses, each once, its code is the one of the
  program in two passes: every instruction of the program, with the address of its target in each
  reference. No write is outside of the buffer and every chain of references ends.
\<close>

theorem assembled_code:
  assumes "4 \<le> length buffer" "distinct (bound_labels calls)" "resolved (program calls)"
    "items_size (items (program calls)) < 2 ^ 31"
  shows "assemble fresh buffer calls = Some (program_code (program calls))"
  using assms by (rule assemble_program_code)

text \<open>A loop over the characters a, with a jump back and a jump forward.\<close>

definition loop_calls :: "rx_call list" where
  "loop_calls = [CBind 0, CLoadCurrentCharacter 0 (Some 1) True 1, CCheckNotCharacter 97 (Some 1),
     CAdvanceCurrentPosition 1, CGoTo (Some 0), CBind 1, CSetRegister 0 7, CSucceed]"

lemma loop_program: "program loop_calls =
    [Target (Some 0), Instr (ILoad 1 0 (Some (Some 1))), Instr (ICheckNotChar 97 (Some 1)), Instr (IAdvanceCpAndGoTo 1 (Some 0)),
     Target (Some 1), Instr (ISetRegister 0 7), Instr ISucceed, Target None, Instr IPopBt]"
  by (simp add: program_def loop_calls_def add_line_def)

lemma loop_labels:
  "distinct (bound_labels loop_calls)" "resolved (program loop_calls)" "items_size (items (program loop_calls)) = 40"
  unfolding loop_program by (simp_all add: loop_calls_def resolved_def load_bytecode_def MAX_FIRST_ARG_def)

lemma loop_code: "program_code (program loop_calls) =
    [17, 0, 0, 0, 24, 0, 0, 0, 26, 97, 0, 0, 24, 0, 0, 0, 47, 1, 0, 0, 0, 0, 0, 0, 8, 0, 0, 0, 7, 0, 0, 0,
     14, 0, 0, 0, 11, 0, 0, 0]"
  unfolding loop_program
  by (simp add: program_code_def load_bytecode_def MAX_FIRST_ARG_def bytes32_def bytecodes BYTECODE_SHIFT_def)

theorem assembled_code_witness:
  "assemble (\<lambda>i. 5) [1, 2, 3, 4] loop_calls = Some
    [17, 0, 0, 0, 24, 0, 0, 0, 26, 97, 0, 0, 24, 0, 0, 0, 47, 1, 0, 0, 0, 0, 0, 0, 8, 0, 0, 0, 7, 0, 0, 0,
     14, 0, 0, 0, 11, 0, 0, 0]"
  using assembled_code [of "[1, 2, 3, 4]" loop_calls "\<lambda>i. 5"] loop_labels by (simp add: loop_code)

section \<open>The interpreter\<close>

text \<open>
  C35. The interpreter runs the program: when the calls satisfy the assertions of the assembler, the
  interpreter on the assembled code does what the machine does on the lines of the program, which
  knows instructions and labels and no bytes. The two give the same result after any number of turns, and both
  are still running when one is, as long as the machine has no access outside of the registers, of the
  stack or of the subject and jumps to no address inside of an instruction.
\<close>

theorem interpreter_runs_program:
  assumes calls: "list_all call_ok calls" "distinct (bound_labels calls)" "resolved (program calls)"
      "items_size (items (program calls)) < 2 ^ 31" "4 \<le> length buffer"
    and run: "run_loop (exec_step (program calls) subj) n (start_state stack registers current current_char) \<noteq> Some Fault"
  shows "\<exists>code. assemble fresh buffer calls = Some code \<and>
    RawMatch n stack code subj registers current current_char =
      run_loop (exec_step (program calls) subj) n (start_state stack registers current current_char)"
proof -
  have "step (program_code (program calls)) subj s = exec_step (program calls) subj s" if "exec_step (program calls) subj s \<noteq> Fault" for s
    using program_lines_ok [OF calls(1)] calls(3,4) that by (rule step_refines)
  then have "RawMatch n stack (program_code (program calls)) subj registers current current_char =
      run_loop (exec_step (program calls) subj) n (start_state stack registers current current_char)"
    unfolding RawMatch_def using run by (rule run_refines)
  then show ?thesis using assemble_program_code [OF calls(5,2-4)] by blast
qed

lemma loop_run: "run_loop (exec_step (program loop_calls) (Subject True [97, 98])) 7 (start_state [] [0, 0] 0 10) = Some (Result True)"
  unfolding loop_program by code_simp

theorem interpreter_runs_program_witness:
  "\<exists>code. assemble (\<lambda>i. 5) [1, 2, 3, 4] loop_calls = Some code \<and> RawMatch 7 [] code (Subject True [97, 98]) [0, 0] 0 10 = Some (Result True)"
proof -
  have "list_all call_ok loop_calls" by (simp add: loop_calls_def offset_ok_def register_ok_def limits)
  then show ?thesis
    using interpreter_runs_program [of loop_calls "[1, 2, 3, 4]" "Subject True [97, 98]" 7 "[]" "[0, 0]" 0 10 "\<lambda>i. 5"] loop_labels loop_run by simp
qed

text \<open>
  C36. In every state the interpreter reaches, whatever the code is, the stack pointer and the space left add up
  to the size of the backtrack stack and the arrays have the sizes they had, so a push at a
  stack pointer that is not negative either writes inside of the array or gives up the match.
\<close>

inductive rx_reaches :: "uint8 list \<Rightarrow> subject \<Rightarrow> rx_state \<Rightarrow> rx_state \<Rightarrow> bool" for code subj s where
  reaches_start: "rx_reaches code subj s s"
| reaches_step: "rx_reaches code subj s t \<Longrightarrow> step code subj t = Next u \<Longrightarrow> rx_reaches code subj s u"

lemma reaches_shape: "rx_reaches code subj s t \<Longrightarrow> shape n s \<Longrightarrow> shape n t"
proof (induction rule: rx_reaches.induct)
  case (reaches_step t u)
  then show ?case using step_keeps [of n t code subj] by (simp add: keeps_def)
qed

theorem backtrack_stack_in_bounds:
  assumes "length stack = kBacktrackStackSize" "rx_reaches code subj (start_state stack registers current current_char) s"
  shows "rs_sp s + rs_space s = int kBacktrackStackSize \<and> length (rs_stack s) = kBacktrackStackSize \<and>
    length (rs_registers s) = length registers \<and> (0 \<le> rs_sp s \<longrightarrow> push v s \<noteq> Fault)"
proof -
  have "shape (length registers) s"
    using assms(2) by (rule reaches_shape) (simp add: shape_def start_state_def assms(1))
  then show ?thesis using push_in_bounds [of "length registers" s v] by (simp add: shape_def)
qed

theorem backtrack_stack_in_bounds_witness:
  "\<exists>s. rx_reaches [1, 0, 0, 0] (Subject True []) (start_state (replicate kBacktrackStackSize 0) [] 5 10) s \<and>
     rs_sp s = 1 \<and> rs_space s = 9999 \<and> push 3 s \<noteq> Fault"
proof -
  let ?s = "start_state (replicate kBacktrackStackSize 0) [] 5 10" and ?code = "[1, 0, 0, 0] :: uint8 list"
  obtain s where s: "step ?code (Subject True []) ?s = Next s" "rs_sp s = 1"
    by (simp add: step_def Load32Aligned_def get32_def dispatch_def step_state_def BYTECODE_MASK_def bytecodes
        advance_def push_def start_state_def kBacktrackStackSize_def)
  then have "rx_reaches ?code (Subject True []) ?s s" using reaches_start reaches_step by blast
  then show ?thesis
    using backtrack_stack_in_bounds [of "replicate kBacktrackStackSize 0" ?code "Subject True []" "[]" 5 10 s 3] s(2)
    by (intro exI [of _ s]) (simp add: kBacktrackStackSize_def)
qed



end
