(* ===== verification/Collector.thy ===== *)
theory Collector
  imports V8Prelude
begin

text \<open>
  The collector of src/src/utils.h: a store that grows by chunks. A chunk that is full is put aside, cut to
  the elements in it, and a new one is allocated; no element moves. The memory of a new chunk is not
  initialised and given by \<open>fresh\<close>. The counters are natural numbers.
\<close>

section \<open>Operations\<close>

record 'a Collector =
  col_chunks :: "'a list list"
  col_current :: "'a list"
  col_index :: nat
  col_size :: nat

definition kMinCapacity :: nat where "kMinCapacity = 16"
definition growth_factor :: nat where "growth_factor = 2"
definition max_growth :: nat where "max_growth = 2 ^ 20"

definition Collector_new :: "(nat \<Rightarrow> 'a) \<Rightarrow> nat \<Rightarrow> 'a Collector" where
  "Collector_new fresh initial_capacity =
     \<lparr>col_chunks = [], col_current = map fresh [0..<max initial_capacity kMinCapacity], col_index = 0, col_size = 0\<rparr>"

definition Grow :: "(nat \<Rightarrow> 'a) \<Rightarrow> nat \<Rightarrow> 'a Collector \<Rightarrow> 'a Collector" where
  "Grow fresh min_capacity c =
     (let growth = min (length (col_current c) * (growth_factor - 1)) max_growth;
          capacity = length (col_current c) + growth;
          new_capacity = (if capacity < min_capacity then min_capacity + growth else capacity)
      in c\<lparr>col_chunks := (if col_index c > 0 then col_chunks c @ [take (col_index c) (col_current c)] else col_chunks c),
           col_current := map fresh [0..<new_capacity], col_index := 0\<rparr>)"

definition Add :: "(nat \<Rightarrow> 'a) \<Rightarrow> 'a \<Rightarrow> 'a Collector \<Rightarrow> 'a Collector" where
  "Add fresh v c =
     (let c = (if col_index c \<ge> length (col_current c) then Grow fresh 1 c else c) in
      c\<lparr>col_current := (col_current c)[col_index c := v], col_index := col_index c + 1, col_size := col_size c + 1\<rparr>)"

text \<open>The block \<open>AddBlock\<close> returns is the part of the current chunk it has filled.\<close>

definition AddBlock :: "(nat \<Rightarrow> 'a) \<Rightarrow> nat \<Rightarrow> 'a \<Rightarrow> 'a Collector \<Rightarrow> 'a Collector" where
  "AddBlock fresh n v c =
     (let c = (if n > length (col_current c) - col_index c then Grow fresh n c else c) in
      c\<lparr>col_current := foldl (\<lambda>xs i. xs[col_index c + i := v]) (col_current c) [0..<n],
        col_index := col_index c + n, col_size := col_size c + n\<rparr>)"

primrec copy_to :: "nat \<Rightarrow> 'a list \<Rightarrow> 'a list \<Rightarrow> 'a list" where
  "copy_to position [] destination = destination"
| "copy_to position (x # xs) destination = copy_to (Suc position) xs (destination[position := x])"

primrec copy_chunks :: "nat \<Rightarrow> 'a list list \<Rightarrow> 'a list \<Rightarrow> nat \<times> 'a list" where
  "copy_chunks position [] destination = (position, destination)"
| "copy_chunks position (chunk # chunks) destination =
     copy_chunks (position + length chunk) chunks (copy_to position chunk destination)"

definition WriteTo :: "'a Collector \<Rightarrow> 'a list \<Rightarrow> 'a list" where
  "WriteTo c destination =
     (case copy_chunks 0 (col_chunks c) destination of
        (position, destination) \<Rightarrow> copy_to position (take (col_index c) (col_current c)) destination)"

definition ToVector :: "(nat \<Rightarrow> 'a) \<Rightarrow> 'a Collector \<Rightarrow> 'a list" where
  "ToVector fresh c = WriteTo c (map fresh [0..<col_size c])"

definition Collector_Reset :: "'a Collector \<Rightarrow> 'a Collector" where
  "Collector_Reset c = c\<lparr>col_chunks := [], col_index := 0, col_size := 0\<rparr>"

section \<open>What a collector holds\<close>

definition contents :: "'a Collector \<Rightarrow> 'a list" where
  "contents c = concat (col_chunks c) @ take (col_index c) (col_current c)"

definition col_ok :: "'a Collector \<Rightarrow> bool" where
  "col_ok c \<longleftrightarrow> col_index c \<le> length (col_current c) \<and> col_size c = length (contents c)"

lemma new_collector [simp]: "col_ok (Collector_new fresh n)" "contents (Collector_new fresh n) = []"
  by (simp_all add: Collector_new_def col_ok_def contents_def)

lemma Grow_ok:
  assumes "col_ok c"
  shows "contents (Grow fresh n c) = contents c" "col_ok (Grow fresh n c)" "n \<le> length (col_current (Grow fresh n c))"
    "col_index (Grow fresh n c) = 0" "col_size (Grow fresh n c) = col_size c"
proof -
  show *: "contents (Grow fresh n c) = contents c" by (simp add: Grow_def contents_def Let_def)
  show "col_index (Grow fresh n c) = 0" "n \<le> length (col_current (Grow fresh n c))" "col_size (Grow fresh n c) = col_size c"
    by (simp_all add: Grow_def Let_def)
  then show "col_ok (Grow fresh n c)" using assms * by (simp add: col_ok_def)
qed

lemma Add_ok:
  assumes "col_ok c"
  shows "contents (Add fresh v c) = contents c @ [v]" "col_ok (Add fresh v c)"
proof -
  define d where "d = (if col_index c \<ge> length (col_current c) then Grow fresh 1 c else c)"
  have d: "contents d = contents c" "col_ok d" "col_index d < length (col_current d)" "col_size d = col_size c"
    using Grow_ok [OF assms, where fresh = fresh and n = 1] assms by (auto simp: d_def)
  have "Add fresh v c = d\<lparr>col_current := (col_current d)[col_index d := v], col_index := col_index d + 1, col_size := col_size d + 1\<rparr>"
    by (simp add: Add_def d_def Let_def)
  note add = this
  have "take (col_index d + 1) ((col_current d)[col_index d := v]) = take (col_index d) (col_current d) @ [v]"
    using d(3) by (simp add: take_Suc_conv_app_nth)
  then show eq: "contents (Add fresh v c) = contents c @ [v]" using add d(1) by (simp add: contents_def)
  show "col_ok (Add fresh v c)" unfolding col_ok_def eq using d by (simp add: add col_ok_def)
qed

lemma fill_block: "p + n \<le> length xs \<Longrightarrow>
    foldl (\<lambda>xs i. xs[p + i := v]) xs [0..<n] = take p xs @ replicate n v @ drop (p + n) xs"
proof (induction n)
  case (Suc n)
  then have "drop (p + n) xs = xs ! (p + n) # drop (p + Suc n) xs" by (simp add: Cons_nth_drop_Suc [symmetric])
  then show ?case using Suc by (simp add: list_update_append replicate_append_same)
qed simp

lemma AddBlock_ok:
  assumes "col_ok c"
  shows "contents (AddBlock fresh n v c) = contents c @ replicate n v" "col_ok (AddBlock fresh n v c)"
proof -
  define d where "d = (if n > length (col_current c) - col_index c then Grow fresh n c else c)"
  have d: "contents d = contents c" "col_ok d" "col_index d + n \<le> length (col_current d)" "col_size d = col_size c"
    using Grow_ok [OF assms, where fresh = fresh and n = n] assms by (auto simp: d_def col_ok_def)
  have "AddBlock fresh n v c = d\<lparr>col_current := foldl (\<lambda>xs i. xs[col_index d + i := v]) (col_current d) [0..<n],
      col_index := col_index d + n, col_size := col_size d + n\<rparr>"
    by (simp add: AddBlock_def d_def Let_def)
  note add = this
  show eq: "contents (AddBlock fresh n v c) = contents c @ replicate n v"
    using d(1,3) by (simp add: add contents_def fill_block)
  show "col_ok (AddBlock fresh n v c)" unfolding col_ok_def eq using d by (simp add: add col_ok_def fill_block)
qed

lemma copy_to_eq: "p + length xs \<le> length d \<Longrightarrow> copy_to p xs d = take p d @ xs @ drop (p + length xs) d"
proof (induction xs arbitrary: p d)
  case (Cons x xs)
  have "copy_to p (x # xs) d = take (Suc p) (d[p := x]) @ xs @ drop (Suc p + length xs) (d[p := x])"
    using Cons.IH [of "Suc p" "d[p := x]"] Cons.prems by simp
  then show ?case using Cons.prems by (simp add: take_Suc_conv_app_nth)
qed simp

lemma copy_chunks_eq: "p + length (concat cs) \<le> length d \<Longrightarrow>
    copy_chunks p cs d = (p + length (concat cs), take p d @ concat cs @ drop (p + length (concat cs)) d)"
proof (induction cs arbitrary: p d)
  case (Cons c cs)
  then show ?case by (simp add: copy_to_eq add_ac)
qed simp

lemma WriteTo_eq:
  assumes "col_ok c" "col_size c \<le> length d"
  shows "WriteTo c d = contents c @ drop (length (contents c)) d"
  using assms by (simp add: WriteTo_def contents_def col_ok_def copy_chunks_eq copy_to_eq add_ac)

lemma ToVector_eq: "col_ok c \<Longrightarrow> ToVector fresh c = contents c"
  using WriteTo_eq [of c "map fresh [0..<col_size c]"] by (simp add: ToVector_def col_ok_def)

lemma Reset_ok: "contents (Collector_Reset c) = []" "col_ok (Collector_Reset c)"
  by (simp_all add: Collector_Reset_def contents_def col_ok_def)

end
