(* ===== verification/PreparseData.thy ===== *)
theory PreparseData
  imports HashMap Collector MachineBytes
begin

text \<open>
  The recorders of preparser data (src/src/preparse-data.h and .cc): they log function entries, symbols and the
  first error message, and lay them out as an array of words. A class that extends another is a record that
  extends a record. Positions and counts in the data are 32-bit words, sizes are natural numbers, and
  memory that is not initialised is given by \<open>fresh\<close>. A \<open>char\<close> is signed.
\<close>

section \<open>The format\<close>

definition kMagicNumber :: uint32 where "kMagicNumber = 0xBadDead"
definition kCurrentVersion :: uint32 where "kCurrentVersion = 5"
definition kMagicOffset :: nat where "kMagicOffset = 0"
definition kVersionOffset :: nat where "kVersionOffset = 1"
definition kHasErrorOffset :: nat where "kHasErrorOffset = 2"
definition kFunctionsSizeOffset :: nat where "kFunctionsSizeOffset = 3"
definition kSymbolCountOffset :: nat where "kSymbolCountOffset = 4"
definition kSizeOffset :: nat where "kSizeOffset = 5"
definition kHeaderSize :: nat where "kHeaderSize = 6"
definition kMessageStartPos :: uint32 where "kMessageStartPos = 0"
definition kMessageEndPos :: uint32 where "kMessageEndPos = 1"
definition kMessageArgCountPos :: uint32 where "kMessageArgCountPos = 2"
definition kMessageTextPos :: uint32 where "kMessageTextPos = 3"
definition kNumberTerminator :: uint8 where "kNumberTerminator = 0x80"

lemmas offsets = kMagicOffset_def kVersionOffset_def kHasErrorOffset_def kFunctionsSizeOffset_def kSymbolCountOffset_def
  kSizeOffset_def kHeaderSize_def
lemmas message_offsets = kMessageStartPos_def kMessageEndPos_def kMessageArgCountPos_def kMessageTextPos_def

section \<open>Function entries and messages\<close>

record FunctionLoggingParserRecorder =
  function_store :: "uint32 Collector"
  preamble :: "uint32 list"
  is_recording :: bool
  pause_count :: nat

definition new_preamble :: "(nat \<Rightarrow> uint32) \<Rightarrow> uint32 list" where
  "new_preamble fresh =
     (map fresh [0..<kHeaderSize])[kMagicOffset := kMagicNumber, kVersionOffset := kCurrentVersion, kHasErrorOffset := 0,
       kFunctionsSizeOffset := 0, kSymbolCountOffset := 0, kSizeOffset := 0]"

definition has_error :: "'a FunctionLoggingParserRecorder_scheme \<Rightarrow> bool" where
  "has_error r \<longleftrightarrow> preamble r ! kHasErrorOffset \<noteq> 0"

definition LogFunction :: "(nat \<Rightarrow> uint32) \<Rightarrow> uint32 \<Rightarrow> uint32 \<Rightarrow> uint32 \<Rightarrow> uint32 \<Rightarrow>
    'a FunctionLoggingParserRecorder_scheme \<Rightarrow> 'a FunctionLoggingParserRecorder_scheme" where
  "LogFunction fresh start_pos end_pos literals properties r =
     r\<lparr>function_store := Add fresh properties (Add fresh literals (Add fresh end_pos (Add fresh start_pos (function_store r))))\<rparr>"

primrec write_chars :: "(nat \<Rightarrow> uint32) \<Rightarrow> uint8 list \<Rightarrow> uint32 Collector \<Rightarrow> uint32 Collector" where
  "write_chars fresh [] c = c"
| "write_chars fresh (ch # str) c = write_chars fresh str (Add fresh (scast ch) c)"

definition WriteString :: "(nat \<Rightarrow> uint32) \<Rightarrow> uint8 list \<Rightarrow> 'a FunctionLoggingParserRecorder_scheme \<Rightarrow>
    'a FunctionLoggingParserRecorder_scheme" where
  "WriteString fresh str r =
     r\<lparr>function_store := write_chars fresh str (Add fresh (of_nat (length str)) (function_store r))\<rparr>"

definition LogMessage :: "(nat \<Rightarrow> uint32) \<Rightarrow> uint32 \<Rightarrow> uint32 \<Rightarrow> uint8 list \<Rightarrow> uint8 list option \<Rightarrow>
    'a FunctionLoggingParserRecorder_scheme \<Rightarrow> 'a FunctionLoggingParserRecorder_scheme" where
  "LogMessage fresh start_pos end_pos message arg_opt r =
     (if has_error r then r
      else
        let r = r\<lparr>preamble := (preamble r)[kHasErrorOffset := 1]\<rparr>;
            store = Collector_Reset (function_store r);
            store = Add fresh start_pos store;
            store = Add fresh end_pos store;
            store = Add fresh (case arg_opt of None \<Rightarrow> 0 | Some arg \<Rightarrow> 1) store;
            r = WriteString fresh message (r\<lparr>function_store := store\<rparr>);
            r = (case arg_opt of None \<Rightarrow> r | Some arg \<Rightarrow> WriteString fresh arg r)
        in r\<lparr>is_recording := False\<rparr>)"

definition PauseRecording :: "'a FunctionLoggingParserRecorder_scheme \<Rightarrow> 'a FunctionLoggingParserRecorder_scheme" where
  "PauseRecording r = r\<lparr>pause_count := pause_count r + 1, is_recording := False\<rparr>"

definition ResumeRecording :: "'a FunctionLoggingParserRecorder_scheme \<Rightarrow> 'a FunctionLoggingParserRecorder_scheme" where
  "ResumeRecording r =
     (let r = r\<lparr>pause_count := pause_count r - 1\<rparr> in
      if pause_count r = 0 then r\<lparr>is_recording := \<not> has_error r\<rparr> else r)"

section \<open>Symbols\<close>

record CompleteParserRecorder = FunctionLoggingParserRecorder +
  symbol_store :: "uint8 Collector"
  symbol_entries :: "uint8 list Collector"
  symbol_table :: "(uint8 list, nat) HashMap"
  symbol_id :: nat

primrec hash_chars :: "uint32 \<Rightarrow> uint8 list \<Rightarrow> uint32" where
  "hash_chars hash [] = hash"
| "hash_chars hash (ch # str) =
     (let hash = hash + scast ch; hash = hash + push_bit 10 hash; hash = hash XOR signed_drop_bit 6 hash in hash_chars hash str)"

definition vector_hash :: "uint8 list \<Rightarrow> uint32" where
  "vector_hash str = hash_chars 0 str"

definition vector_compare :: "uint8 list \<Rightarrow> uint8 list \<Rightarrow> bool" where
  "vector_compare string1 string2 =
     (if length string2 \<noteq> length string1 then False else list_all2 (=) string1 string2)"

text \<open>The loop of \<open>WriteNumber\<close>, with the collector it writes to.\<close>

fun write_number_loop :: "(nat \<Rightarrow> uint8) \<Rightarrow> nat \<Rightarrow> nat \<Rightarrow> nat \<Rightarrow> uint8 Collector \<Rightarrow> uint8 Collector" where
  "write_number_loop fresh i m number c =
     (if i = 0 then Add fresh (of_nat number) c
      else if number > m
        then write_number_loop fresh (i - 7) (drop_bit 7 m) (number AND m) (Add fresh (of_nat (drop_bit i number) OR 0x80) c)
        else write_number_loop fresh (i - 7) (drop_bit 7 m) number c)"

declare write_number_loop.simps [simp del]

definition WriteNumber :: "(nat \<Rightarrow> uint8) \<Rightarrow> nat \<Rightarrow> CompleteParserRecorder \<Rightarrow> CompleteParserRecorder" where
  "WriteNumber fresh number r =
     r\<lparr>symbol_store := write_number_loop fresh 28 (2 ^ 28 - 1) number (symbol_store r)\<rparr>"

definition CompleteParserRecorder_new :: "(nat \<Rightarrow> uint32) \<Rightarrow> (nat \<Rightarrow> (uint8 list, nat) Entry list option) \<Rightarrow>
    hm_error + CompleteParserRecorder" where
  "CompleteParserRecorder_new fresh allocator =
     (case HashMap_new vector_compare allocator 8 of
        Inl e \<Rightarrow> Inl e
      | Inr table \<Rightarrow> Inr
          \<lparr>function_store = Collector_new fresh 0, preamble = new_preamble fresh, is_recording = True, pause_count = 0,
           symbol_store = Collector_new (ucast \<circ> fresh) 0, symbol_entries = Collector_new (\<lambda>i. []) 0,
           symbol_table = table, symbol_id = 0\<rparr>)"

definition LogSymbol :: "(nat \<Rightarrow> uint32) \<Rightarrow> uint8 list \<Rightarrow> CompleteParserRecorder \<Rightarrow> hm_error + CompleteParserRecorder" where
  "LogSymbol fresh literal r =
     (if \<not> is_recording r then Inr r
      else
        case HashMap_Lookup (symbol_table r) literal (vector_hash literal) True of
          Inl e \<Rightarrow> Inl e
        | Inr (None, m) \<Rightarrow> Inl BadAccess
        | Inr (Some p, m) \<Rightarrow>
            (let id = (case e_value (hm_map m ! p) of None \<Rightarrow> 0 | Some v \<Rightarrow> v) in
             if id = 0 then
               (let id = symbol_id r + 1;
                    m = m\<lparr>hm_map := (hm_map m)[p := (hm_map m ! p)\<lparr>e_value := Some id\<rparr>]\<rparr>;
                    m = m\<lparr>hm_map := (hm_map m)[p := (hm_map m ! p)\<lparr>e_key := Some literal\<rparr>]\<rparr>
                in Inr (WriteNumber (ucast \<circ> fresh) (id - 1)
                     (r\<lparr>symbol_table := m, symbol_id := id, symbol_entries := AddBlock (\<lambda>i. []) 1 literal (symbol_entries r)\<rparr>)))
             else Inr (WriteNumber (ucast \<circ> fresh) (id - 1) (r\<lparr>symbol_table := m\<rparr>))))"

section \<open>The data\<close>

definition write_functions :: "uint32 Collector \<Rightarrow> nat \<Rightarrow> uint32 list \<Rightarrow> uint32 list" where
  "write_functions store symbol_start data =
     (if col_size store > 0
      then take kHeaderSize data @ WriteTo store (take (symbol_start - kHeaderSize) (drop kHeaderSize data)) @ drop symbol_start data
      else data)"

definition Partial_ExtractData :: "(nat \<Rightarrow> uint32) \<Rightarrow> FunctionLoggingParserRecorder \<Rightarrow> uint32 list \<times> FunctionLoggingParserRecorder" where
  "Partial_ExtractData fresh r =
     (let function_size = col_size (function_store r);
          total_size = kHeaderSize + function_size;
          data = map fresh [0..<total_size];
          r = r\<lparr>preamble := (preamble r)[kFunctionsSizeOffset := of_nat function_size, kSymbolCountOffset := 0]\<rparr>;
          data = copy_to 0 (preamble r) data;
          symbol_start = kHeaderSize + function_size
      in (write_functions (function_store r) symbol_start data, r))"

definition Complete_ExtractData :: "(nat \<Rightarrow> uint32) \<Rightarrow> CompleteParserRecorder \<Rightarrow> uint32 list \<times> CompleteParserRecorder" where
  "Complete_ExtractData fresh r =
     (let function_size = col_size (function_store r);
          symbol_size = col_size (symbol_store r);
          padding = 4 - symbol_size mod 4;
          r = r\<lparr>symbol_store := AddBlock (ucast \<circ> fresh) padding kNumberTerminator (symbol_store r)\<rparr>;
          symbol_size = symbol_size + padding;
          total_size = kHeaderSize + function_size + symbol_size div 4;
          data = map fresh [0..<total_size];
          r = r\<lparr>preamble := (preamble r)[kFunctionsSizeOffset := of_nat function_size, kSymbolCountOffset := of_nat (symbol_id r)]\<rparr>;
          data = copy_to 0 (preamble r) data;
          symbol_start = kHeaderSize + function_size;
          data = write_functions (function_store r) symbol_start data;
          data = (if \<not> has_error r
                  then take symbol_start data @ words_of_bytes (WriteTo (symbol_store r) (bytes_of_words (drop symbol_start data)))
                  else data)
      in (data, r))"

end
