(* ===== verification/ScriptData.thy ===== *)
theory ScriptData
  imports PreparseData
begin

text \<open>
  The reader of preparser data (\<open>FunctionEntry\<close> and \<open>ScriptDataImpl\<close> in src/src/parser.h and parser.cc). The
  symbol data are read byte by byte from the same array of words; a pointer into it is a byte offset. The
  arithmetic of \<open>int\<close> is the one of 32-bit words. None is the result of a read outside of the array.
\<close>

section \<open>State\<close>

type_synonym FunctionEntry = "uint32 list"

definition FunctionEntry_kSize :: nat where "FunctionEntry_kSize = 4"
definition entry_start_pos :: "FunctionEntry \<Rightarrow> uint32" where "entry_start_pos e = e ! 0"
definition entry_end_pos :: "FunctionEntry \<Rightarrow> uint32" where "entry_end_pos e = e ! 1"
definition entry_literal_count :: "FunctionEntry \<Rightarrow> uint32" where "entry_literal_count e = e ! 2"
definition entry_property_count :: "FunctionEntry \<Rightarrow> uint32" where "entry_property_count e = e ! 3"
definition entry_is_valid :: "FunctionEntry \<Rightarrow> bool" where "entry_is_valid e \<longleftrightarrow> length e > 0"

record ScriptDataImpl =
  sd_store :: "uint32 list"
  symbol_data :: int
  symbol_data_end :: int
  function_index :: nat

definition ScriptDataImpl_new :: "uint32 list \<Rightarrow> ScriptDataImpl" where
  "ScriptDataImpl_new store = \<lparr>sd_store = store, symbol_data = 0, symbol_data_end = 0, function_index = 0\<rparr>"

definition store_length :: "ScriptDataImpl \<Rightarrow> int" where
  "store_length s = int (length (sd_store s))"

definition sd_magic :: "ScriptDataImpl \<Rightarrow> uint32" where "sd_magic s = sd_store s ! kMagicOffset"
definition sd_version :: "ScriptDataImpl \<Rightarrow> uint32" where "sd_version s = sd_store s ! kVersionOffset"
definition sd_has_error :: "ScriptDataImpl \<Rightarrow> bool" where "sd_has_error s \<longleftrightarrow> sd_store s ! kHasErrorOffset \<noteq> 0"

definition symbol_count :: "ScriptDataImpl \<Rightarrow> uint32" where
  "symbol_count s = (if store_length s > int kHeaderSize then sd_store s ! kSymbolCountOffset else 0)"

section \<open>Functions and symbols\<close>

definition ScriptData_Initialize :: "ScriptDataImpl \<Rightarrow> ScriptDataImpl" where
  "ScriptData_Initialize s =
     (if store_length s \<ge> int kHeaderSize then
        let symbol_data_offset = of_nat kHeaderSize + sd_store s ! kFunctionsSizeOffset in
        s\<lparr>function_index := kHeaderSize,
          symbol_data := (if store_length s > sint symbol_data_offset then 4 * sint symbol_data_offset else 4 * store_length s),
          symbol_data_end := 4 * store_length s\<rparr>
      else s)"

definition GetFunctionEntry :: "uint32 \<Rightarrow> ScriptDataImpl \<Rightarrow> FunctionEntry \<times> ScriptDataImpl" where
  "GetFunctionEntry start s =
     (if function_index s + FunctionEntry_kSize \<le> length (sd_store s) \<and> sd_store s ! function_index s = start
      then (take FunctionEntry_kSize (drop (function_index s) (sd_store s)), s\<lparr>function_index := function_index s + FunctionEntry_kSize\<rparr>)
      else ([], s))"

definition symbol_byte :: "ScriptDataImpl \<Rightarrow> int \<Rightarrow> uint8 option" where
  "symbol_byte s p =
     (if 0 \<le> p \<and> p < 4 * store_length s then Some (bytes_of_words (sd_store s) ! nat p) else None)"

text \<open>
  The loop of \<open>ReadNumber\<close>, from the byte \<open>input\<close> read last. The bytes left bound its turns. The inner
  None says that the data end inside of a number, for which the code returns -1 and does not move.
\<close>

function read_number_loop :: "ScriptDataImpl \<Rightarrow> uint32 \<Rightarrow> uint8 \<Rightarrow> int \<Rightarrow> (uint32 \<times> int) option option" where
  "read_number_loop s result input data =
     (if input AND 0x80 \<noteq> 0 then
        if data \<ge> symbol_data_end s then Some None
        else
          case symbol_byte s data of
            None \<Rightarrow> None
          | Some input \<Rightarrow> read_number_loop s (push_bit 7 result OR ucast (input AND 0x7f)) input (data + 1)
      else Some (Some (result, data)))"
  by auto
termination by (relation "measure (\<lambda>(s, result, input, data). nat (symbol_data_end s - data))") auto

declare read_number_loop.simps [simp del]

definition ReadNumber :: "ScriptDataImpl \<Rightarrow> (uint32 \<times> ScriptDataImpl) option" where
  "ReadNumber s =
     (if symbol_data s \<ge> symbol_data_end s then Some (- 1, s)
      else
        case symbol_byte s (symbol_data s) of
          None \<Rightarrow> None
        | Some input \<Rightarrow>
            if input = kNumberTerminator then Some (- 1, s)
            else
              case read_number_loop s (ucast (input AND 0x7f)) input (symbol_data s + 1) of
                None \<Rightarrow> None
              | Some None \<Rightarrow> Some (- 1, s)
              | Some (Some (result, data)) \<Rightarrow> Some (result, s\<lparr>symbol_data := data\<rparr>))"

definition GetSymbolIdentifier :: "ScriptDataImpl \<Rightarrow> (uint32 \<times> ScriptDataImpl) option" where
  "GetSymbolIdentifier s = ReadNumber s"

section \<open>Messages\<close>

definition Read :: "ScriptDataImpl \<Rightarrow> uint32 \<Rightarrow> uint32 option" where
  "Read s position =
     (let i = sint (of_nat kHeaderSize + position) in
      if 0 \<le> i \<and> i < store_length s then Some (sd_store s ! nat i) else None)"

text \<open>The strings of the message in \<open>SanityCheck\<close>: the text and the arguments.\<close>

primrec check_strings :: "ScriptDataImpl \<Rightarrow> nat \<Rightarrow> uint32 \<Rightarrow> bool option" where
  "check_strings s 0 pos = Some (\<not> store_length s < sint (of_nat kHeaderSize + pos))"
| "check_strings s (Suc n) pos =
     (if store_length s \<le> sint (of_nat kHeaderSize + pos) then Some False
      else do { len \<leftarrow> Read s pos;
                if sint len < 0 then Some False else check_strings s n (pos + (1 + len)) })"

definition SanityCheck :: "ScriptDataImpl \<Rightarrow> bool option" where
  "SanityCheck s =
     (if store_length s < int kHeaderSize then Some False
      else if sd_magic s \<noteq> kMagicNumber then Some False
      else if sd_version s \<noteq> kCurrentVersion then Some False
      else if sd_has_error s then
        if store_length s \<le> int kHeaderSize + sint kMessageTextPos then Some False
        else do { start_pos \<leftarrow> Read s kMessageStartPos; end_pos \<leftarrow> Read s kMessageEndPos;
                  if start_pos > end_pos then Some False
                  else do { arg_count \<leftarrow> Read s kMessageArgCountPos; check_strings s (unat arg_count + 1) kMessageTextPos } }
      else
        let functions_size = sd_store s ! kFunctionsSizeOffset in
        if sint functions_size < 0 then Some False
        else if sint functions_size mod int FunctionEntry_kSize \<noteq> 0 then Some False
        else
          let symbol_count = sd_store s ! kSymbolCountOffset in
          if sint symbol_count < 0 then Some False
          else
            let minimum_size = of_nat kHeaderSize + functions_size in
            if store_length s < sint minimum_size then Some False else Some True)"

definition MessageLocation :: "ScriptDataImpl \<Rightarrow> (uint32 \<times> uint32) option" where
  "MessageLocation s = do { beg_pos \<leftarrow> Read s kMessageStartPos; end_pos \<leftarrow> Read s kMessageEndPos; Some (beg_pos, end_pos) }"

text \<open>The characters of a string at position \<open>start\<close>, whose first word is the length.\<close>

primrec read_chars :: "ScriptDataImpl \<Rightarrow> uint32 \<Rightarrow> nat \<Rightarrow> uint8 list option" where
  "read_chars s start 0 = Some []"
| "read_chars s start (Suc n) =
     do { str \<leftarrow> read_chars s start n; w \<leftarrow> Read s (start + (of_nat n + 1)); Some (str @ [ucast w]) }"

definition ReadString :: "ScriptDataImpl \<Rightarrow> uint32 \<Rightarrow> uint8 list option" where
  "ReadString s start = do { len \<leftarrow> Read s start; if sint len < 0 then None else read_chars s start (nat (sint len)) }"

definition BuildMessage :: "ScriptDataImpl \<Rightarrow> uint8 list option" where
  "BuildMessage s = ReadString s kMessageTextPos"

primrec build_args :: "ScriptDataImpl \<Rightarrow> nat \<Rightarrow> uint32 \<Rightarrow> uint8 list list option" where
  "build_args s 0 pos = Some []"
| "build_args s (Suc n) pos =
     do { str \<leftarrow> ReadString s pos; rest \<leftarrow> build_args s n (pos + (of_nat (length str) + 1)); Some (str # rest) }"

definition BuildArgs :: "ScriptDataImpl \<Rightarrow> uint8 list list option" where
  "BuildArgs s =
     do { arg_count \<leftarrow> Read s kMessageArgCountPos; text_length \<leftarrow> Read s kMessageTextPos;
          if sint arg_count < 0 then None else build_args s (nat (sint arg_count)) (kMessageTextPos + 1 + text_length) }"

text \<open>
  The additions of \<open>SanityCheck\<close> may wrap: it accepts a message whose length says that it ends behind the
  data, and a size of the function entries that is larger than the data.
\<close>

lemma sanity_check_accepts_long_text:
  "SanityCheck (ScriptDataImpl_new [0xBadDead, 5, 1, 0, 0, 0, 0, 0, 0, 0x7fffffff]) = Some True"
  by (simp add: SanityCheck_def ScriptDataImpl_new_def store_length_def sd_magic_def sd_version_def sd_has_error_def Read_def
      offsets message_offsets kMagicNumber_def kCurrentVersion_def)

lemma sanity_check_accepts_many_functions:
  "SanityCheck (ScriptDataImpl_new [0xBadDead, 5, 0, 0x7ffffffc, 0, 0]) = Some True"
  by (simp add: SanityCheck_def ScriptDataImpl_new_def store_length_def sd_magic_def sd_version_def sd_has_error_def
      offsets kMagicNumber_def kCurrentVersion_def FunctionEntry_kSize_def)

text \<open>An entry is looked for in the whole array, so the symbols may be taken for one.\<close>

lemma symbols_taken_for_a_function:
  "entry_is_valid (fst (GetFunctionEntry 0x03020100 (ScriptData_Initialize (ScriptDataImpl_new
     ([0xBadDead, 5, 0, 0, 17, 0] @ words_of_bytes ([0, 1, 2, 3, 4, 5, 6, 7, 8, 9, 10, 11, 12, 13, 14, 15, 16, 128, 128, 128]))))))"
  by (simp add: GetFunctionEntry_def ScriptData_Initialize_def ScriptDataImpl_new_def store_length_def entry_is_valid_def
      FunctionEntry_kSize_def offsets get32_def)

end
