(* ===== verification/PreparseNumbers.thy ===== *)
theory PreparseNumbers
  imports ScriptData
begin

text \<open>
  The numbers of the symbol data: the writer puts a group of seven bits only when it is not zero, the reader
  joins the groups it finds. What the reader gets is the number exactly when no group is left out between
  two others.
\<close>

section \<open>The collector as an interface\<close>

text \<open>What the recorder relies on: adding an element appends it, as long as the collector is in order.\<close>

locale appender =
  fixes add :: "'a \<Rightarrow> 'c \<Rightarrow> 'c"
    and held :: "'c \<Rightarrow> 'a list"
    and valid :: "'c \<Rightarrow> bool"
  assumes add_held: "valid c \<Longrightarrow> held (add v c) = held c @ [v]"
    and add_valid: "valid c \<Longrightarrow> valid (add v c)"
begin

definition adds_to :: "'c \<Rightarrow> 'a list \<Rightarrow> 'c \<Rightarrow> bool" where
  "adds_to c vs d \<longleftrightarrow> held d = held c @ vs \<and> valid d"

lemma adds_nothing: "valid c \<Longrightarrow> adds_to c [] c"
  by (simp add: adds_to_def)

lemma adds_next: "valid c \<Longrightarrow> adds_to (add v c) vs d \<Longrightarrow> adds_to c (v # vs) d"
  by (simp add: adds_to_def add_held)

end

interpretation col: appender "Add fresh" contents col_ok for fresh
  by unfold_locales (simp_all add: Add_ok)

section \<open>The writer\<close>

text \<open>The groups of a number, \<open>k\<close> of them above the last one; the ones that are zero are left out.\<close>

fun groups :: "nat \<Rightarrow> nat \<Rightarrow> nat list" where
  "groups 0 n = [n]"
| "groups (Suc k) n =
     (if n div 128 ^ Suc k = 0 then groups k n else n div 128 ^ Suc k # groups k (n mod 128 ^ Suc k))"

fun encode_groups :: "nat list \<Rightarrow> uint8 list" where
  "encode_groups [] = []"
| "encode_groups [d] = [of_nat d]"
| "encode_groups (d # ds) = (of_nat d OR 0x80) # encode_groups ds"

lemma groups_not_Nil [simp]: "groups k n \<noteq> []"
  by (induction k n rule: groups.induct) simp_all

lemma encode_groups_Cons: "ds \<noteq> [] \<Longrightarrow> encode_groups (d # ds) = (of_nat d OR 0x80) # encode_groups ds"
  by (cases ds) simp_all

lemma length_encode_groups [simp]: "length (encode_groups ds) = length ds"
  by (induction ds rule: encode_groups.induct) simp_all

lemma power_128: "(128 :: nat) ^ k = 2 ^ (7 * k)"
  by (simp add: power_mult)

lemma write_groups:
  "n < 128 ^ Suc k \<Longrightarrow> col_ok c \<Longrightarrow>
   col.adds_to c (encode_groups (groups k n)) (write_number_loop fresh (7 * k) (128 ^ k - 1) n c)"
proof (induction k arbitrary: n c)
  case 0
  then show ?case by (subst write_number_loop.simps) (simp add: col.adds_to_def Add_ok)
next
  case (Suc k)
  have p: "(128 :: nat) ^ Suc k = 2 ^ (7 * Suc k)" by (rule power_128)
  have i: "7 * Suc k - 7 = 7 * k" "7 * Suc k \<noteq> 0" by simp_all
  have m: "drop_bit 7 (128 ^ Suc k - 1 :: nat) = 128 ^ k - 1"
  proof -
    have "(128 ^ Suc k - 1 :: nat) = mask (7 * Suc k)" by (simp only: p mask_eq_exp_minus_1)
    also have "drop_bit 7 (mask (7 * Suc k) :: nat) = mask (7 * k)" by (simp add: drop_bit_mask_eq)
    finally show ?thesis by (simp add: power_128 mask_eq_exp_minus_1)
  qed
  have d: "drop_bit (7 * Suc k) n = n div 128 ^ Suc k" unfolding p by (rule drop_bit_eq_div)
  have "n AND (128 ^ Suc k - 1) = take_bit (7 * Suc k) n"
    by (simp only: p take_bit_eq_mask mask_eq_exp_minus_1)
  then have a: "n AND (128 ^ Suc k - 1) = n mod 128 ^ Suc k" by (simp only: p take_bit_eq_mod)
  have pos: "0 < (128 :: nat) ^ Suc k" by simp
  show ?case
  proof (cases "n div 128 ^ Suc k = 0")
    case True
    then have "n < 128 ^ Suc k" using pos by (simp only: div_eq_0_iff) auto
    then have "\<not> n > 128 ^ Suc k - 1" by linarith
    then have "write_number_loop fresh (7 * Suc k) (128 ^ Suc k - 1) n c = write_number_loop fresh (7 * k) (128 ^ k - 1) n c"
      by (subst write_number_loop.simps) (simp only: i m if_False)
    then show ?thesis using Suc.IH [OF \<open>n < 128 ^ Suc k\<close> Suc.prems(2)] unfolding groups.simps if_P [OF True] by (simp only:)
  next
    case False
    then have "n > 128 ^ Suc k - 1" using pos by (simp only: div_eq_0_iff) linarith
    then have w: "write_number_loop fresh (7 * Suc k) (128 ^ Suc k - 1) n c =
        write_number_loop fresh (7 * k) (128 ^ k - 1) (n mod 128 ^ Suc k) (Add fresh (of_nat (n div 128 ^ Suc k) OR 0x80) c)"
      by (subst write_number_loop.simps) (simp only: i m a d if_True if_False)
    have "col.adds_to (Add fresh (of_nat (n div 128 ^ Suc k) OR 0x80) c) (encode_groups (groups k (n mod 128 ^ Suc k)))
        (write_number_loop fresh (7 * k) (128 ^ k - 1) (n mod 128 ^ Suc k) (Add fresh (of_nat (n div 128 ^ Suc k) OR 0x80) c))"
      using Suc.prems(2) by (intro Suc.IH) (simp_all add: Add_ok)
    then show ?thesis unfolding w groups.simps if_not_P [OF False] encode_groups_Cons [OF groups_not_Nil]
      using Suc.prems(2) by (intro col.adds_next)
  qed
qed

definition number_bytes :: "nat \<Rightarrow> uint8 list" where
  "number_bytes n = encode_groups (groups 4 n)"

lemma WriteNumber_ok:
  assumes "n < 2 ^ 31" "col_ok (symbol_store r)"
  shows "contents (symbol_store (WriteNumber fresh n r)) = contents (symbol_store r) @ number_bytes n"
    "col_ok (symbol_store (WriteNumber fresh n r))"
  using write_groups [of n 4 "symbol_store r" fresh] assms
  by (simp_all add: WriteNumber_def number_bytes_def col.adds_to_def)

section \<open>The value the reader joins\<close>

definition join_groups :: "nat list \<Rightarrow> nat" where
  "join_groups ds = foldl (\<lambda>r d. r * 128 + d) 0 ds"

lemma foldl_join: "foldl (\<lambda>r d. r * 128 + d) a ds = a * 128 ^ length ds + join_groups ds" for a :: nat
proof (induction ds arbitrary: a)
  case (Cons d ds)
  show ?case using Cons [of "a * 128 + d"] Cons [of d] by (simp add: join_groups_def algebra_simps)
qed (simp add: join_groups_def)

lemma join_groups_Cons: "join_groups (d # ds) = d * 128 ^ length ds + join_groups ds"
  using foldl_join [of d ds] by (simp add: join_groups_def)

lemma join_groups_less: "\<forall>d \<in> set ds. d < 128 \<Longrightarrow> join_groups ds < 128 ^ length ds"
proof (induction ds)
  case (Cons d ds)
  then have "d * 128 ^ length ds + join_groups ds < (d + 1) * 128 ^ length ds" by simp
  also have "\<dots> \<le> 128 * 128 ^ length ds" using Cons.prems by (intro mult_le_mono1) simp
  finally show ?case by (simp add: join_groups_Cons)
qed (simp add: join_groups_def)

lemma groups_digits: "n < 128 ^ Suc k \<Longrightarrow> \<forall>d \<in> set (groups k n). d < 128"
proof (induction k arbitrary: n)
  case (Suc k)
  have "n div 128 ^ Suc k < 128" using Suc.prems by (intro less_mult_imp_div_less) simp
  moreover have "n < 128 ^ Suc k" if "n div 128 ^ Suc k = 0" using that by (simp add: div_eq_0_iff del: power_Suc)
  moreover have "n mod 128 ^ Suc k < 128 ^ Suc k" by simp
  ultimately show ?case using Suc.IH [of n] Suc.IH [of "n mod 128 ^ Suc k"] by (simp del: power_Suc)
qed simp

text \<open>No group is left out, counting from group \<open>k\<close>.\<close>

definition full_groups :: "nat \<Rightarrow> nat \<Rightarrow> bool" where
  "full_groups k n \<longleftrightarrow> (\<forall>i \<in> {1..k}. n div 128 ^ i mod 128 \<noteq> 0)"

definition no_inner_zero :: "nat \<Rightarrow> bool" where
  "no_inner_zero n \<longleftrightarrow> (\<forall>i \<in> {1..4}. 128 ^ i \<le> n \<longrightarrow> n div 128 ^ i mod 128 \<noteq> 0)"

lemma digit_of_mod: "i \<le> k \<Longrightarrow> (n mod 128 ^ Suc k) div 128 ^ i mod 128 = n div 128 ^ i mod (128 :: nat)"
proof -
  assume "i \<le> k"
  then obtain j where k: "Suc k = i + Suc j" by (metis add_Suc_right le_Suc_ex)
  have "n mod (128 ^ i * 128 ^ Suc j) div 128 ^ i = n div 128 ^ i mod (128 :: nat) ^ Suc j"
    by (simp only: mod_mult2_eq) simp
  moreover have "n div 128 ^ i mod (128 :: nat) ^ Suc j mod 128 = n div 128 ^ i mod 128"
    by (rule mod_mod_cancel) simp
  ultimately show ?thesis unfolding k power_add by simp
qed

lemma full_groups_Suc:
  "n < 128 ^ Suc (Suc k) \<Longrightarrow> full_groups (Suc k) n \<longleftrightarrow> n div 128 ^ Suc k \<noteq> 0 \<and> full_groups k (n mod 128 ^ Suc k)"
proof -
  assume "n < 128 ^ Suc (Suc k)"
  then have "n div 128 ^ Suc k < 128" by (intro less_mult_imp_div_less) simp
  then have "n div 128 ^ Suc k mod 128 = n div 128 ^ Suc k" by (rule mod_less)
  moreover have "{1..Suc k} = insert (Suc k) {1..k}" by auto
  ultimately show ?thesis unfolding full_groups_def using digit_of_mod [of _ k n] by (simp del: power_Suc)
qed

lemma groups_full:
  "n < 128 ^ Suc k \<Longrightarrow> length (groups k n) \<le> Suc k \<and>
     (if full_groups k n then length (groups k n) = Suc k \<and> join_groups (groups k n) = n else length (groups k n) \<le> k)"
proof (induction k arbitrary: n)
  case 0
  then show ?case by (simp add: full_groups_def join_groups_def)
next
  case (Suc k)
  note full = full_groups_Suc [OF Suc.prems]
  show ?case
  proof (cases "n div 128 ^ Suc k = 0")
    case True
    then have "n < 128 ^ Suc k" by (simp add: div_eq_0_iff del: power_Suc)
    then show ?thesis using Suc.IH [of n] full True by (simp del: power_Suc split: if_splits)
  next
    case False
    let ?r = "n mod 128 ^ Suc k"
    have n: "n div 128 ^ Suc k * 128 ^ Suc k + ?r = n" by (rule div_mult_mod_eq)
    have "groups (Suc k) n = n div 128 ^ Suc k # groups k ?r" using False by (simp del: power_Suc)
    moreover have "?r < 128 ^ Suc k" by simp
    ultimately show ?thesis using Suc.IH [of ?r] full False n
      by (auto simp: join_groups_Cons simp del: power_Suc split: if_splits)
  qed
qed

lemma join_groups_iff:
  "n < 128 ^ Suc k \<Longrightarrow> join_groups (groups k n) \<le> n \<and>
     (join_groups (groups k n) = n \<longleftrightarrow> (\<forall>i \<in> {1..k}. 128 ^ i \<le> n \<longrightarrow> n div 128 ^ i mod 128 \<noteq> 0))"
proof (induction k arbitrary: n)
  case 0
  then show ?case by (simp add: join_groups_def)
next
  case (Suc k)
  have dom: "{1..Suc k} = insert (Suc k) {1..k}" by auto
  show ?case
  proof (cases "n div 128 ^ Suc k = 0")
    case True
    then have "n < 128 ^ Suc k" by (simp add: div_eq_0_iff del: power_Suc)
    then show ?thesis using Suc.IH [of n] True unfolding dom by (simp del: power_Suc)
  next
    case False
    let ?r = "n mod 128 ^ Suc k" and ?d = "n div 128 ^ Suc k"
    have n: "?d * 128 ^ Suc k + ?r = n" by (rule div_mult_mod_eq)
    have g: "join_groups (groups (Suc k) n) = ?d * 128 ^ length (groups k ?r) + join_groups (groups k ?r)"
      using False by (simp add: join_groups_Cons del: power_Suc)
    have r: "?r < 128 ^ Suc k" by simp
    have le: "128 ^ i \<le> n" if "i \<le> Suc k" for i
    proof -
      have "(128 :: nat) ^ i \<le> 128 ^ Suc k" using that by (rule power_increasing) simp
      also have "\<dots> \<le> n" using False by (simp add: div_eq_0_iff not_less del: power_Suc)
      finally show ?thesis .
    qed
    have cond: "(\<forall>i \<in> {1..Suc k}. 128 ^ i \<le> n \<longrightarrow> n div 128 ^ i mod 128 \<noteq> 0) \<longleftrightarrow> full_groups k ?r"
      using full_groups_Suc [OF Suc.prems] False le unfolding full_groups_def by auto
    show ?thesis
    proof (cases "full_groups k ?r")
      case True
      then show ?thesis using groups_full [OF r] cond g n by (simp del: power_Suc)
    next
      case F: False
      then have l: "length (groups k ?r) \<le> k" using groups_full [OF r] by simp
      have "join_groups (groups k ?r) < 128 ^ length (groups k ?r)" by (rule join_groups_less [OF groups_digits [OF r]])
      then have "join_groups (groups (Suc k) n) < (?d + 1) * 128 ^ length (groups k ?r)" unfolding g by simp
      also have "\<dots> \<le> (?d + 1) * 128 ^ k" using l by (intro mult_le_mono2 power_increasing) simp_all
      also have "\<dots> \<le> (?d * 128) * 128 ^ k" using False by (intro mult_le_mono1) simp
      also have "\<dots> \<le> n" using n by (simp add: mult.assoc)
      finally show ?thesis using cond F by simp
    qed
  qed
qed

section \<open>The reader\<close>

text \<open>The bytes that are left in the symbol data.\<close>

definition symbols_left :: "ScriptDataImpl \<Rightarrow> int \<Rightarrow> uint8 list \<Rightarrow> bool" where
  "symbols_left s p bs \<longleftrightarrow> 0 \<le> p \<and> symbol_data_end s = 4 * store_length s \<and> drop (nat p) (bytes_of_words (sd_store s)) = bs"

lemma symbols_left_Cons:
  assumes "symbols_left s p (b # bs)"
  shows "p < symbol_data_end s" "symbol_byte s p = Some b" "symbols_left s (p + 1) bs"
proof -
  have d: "drop (nat p) (bytes_of_words (sd_store s)) = b # bs" and p: "0 \<le> p" and e: "symbol_data_end s = 4 * store_length s"
    using assms by (simp_all add: symbols_left_def)
  then have l: "nat p < length (bytes_of_words (sd_store s))" by (metis drop_all list.distinct(1) not_less)
  then show "p < symbol_data_end s" using e p by (simp add: store_length_def)
  then have "p < 4 * store_length s" using e by simp
  moreover have "bytes_of_words (sd_store s) ! nat p = b" using d l by (metis Cons_nth_drop_Suc list.inject)
  ultimately show "symbol_byte s p = Some b" using p by (simp add: symbol_byte_def)
  have "nat (p + 1) = Suc (nat p)" using p by simp
  moreover have "drop (Suc (nat p)) (bytes_of_words (sd_store s)) = bs" using d by (metis drop_Suc list.sel(3) tl_drop)
  ultimately show "symbols_left s (p + 1) bs" using p e by (simp add: symbols_left_def)
qed

lemma group_bits:
  assumes "d < 128"
  shows "(of_nat d OR 0x80) AND (0x80 :: uint8) \<noteq> 0" "(of_nat d OR 0x80) AND (0x7f :: uint8) = of_nat d"
    "of_nat d AND (0x80 :: uint8) = 0" "of_nat d AND (0x7f :: uint8) = of_nat d"
proof -
  have d: "\<not> bit d n" if "7 \<le> n" for n
  proof -
    have "take_bit 7 d = d" using assms by (simp add: take_bit_nat_eq_self_iff)
    then show ?thesis using that by (metis bit_take_bit_iff not_less)
  qed
  have m: "(0x7f :: uint8) = mask 7" by (simp add: mask_eq_exp_minus_1)
  have "(0x80 :: uint8) = push_bit 7 1" by (simp add: push_bit_eq_mult)
  then have high: "\<not> bit (0x80 :: uint8) n" if "n < 7" for n
    using that by (simp only: bit_push_bit_iff) simp
  show "of_nat d AND (0x7f :: uint8) = of_nat d"
  proof (rule bit_word_eqI)
    show "bit (of_nat d AND (0x7f :: uint8)) n = bit (of_nat d :: uint8) n" for n
      using d [of n] by (cases "n < 7") (simp_all add: m bit_simps)
  qed
  show a: "of_nat d AND (0x80 :: uint8) = 0"
  proof (rule bit_word_eqI)
    show "bit (of_nat d AND (0x80 :: uint8)) n = bit (0 :: uint8) n" for n
      using d [of n] high [of n] by (cases "n < 7") (simp_all add: bit_and_iff bit_of_nat_iff)
  qed
  show "(of_nat d OR 0x80) AND (0x7f :: uint8) = of_nat d"
    unfolding bit.conj_disj_distrib2 \<open>of_nat d AND (0x7f :: uint8) = of_nat d\<close> by simp
  show "(of_nat d OR 0x80) AND (0x80 :: uint8) \<noteq> 0" unfolding bit.conj_disj_distrib2 a by simp
qed

lemma ucast_group: "d < 128 \<Longrightarrow> (ucast (of_nat d :: uint8) :: uint32) = of_nat d"
  by (rule unsigned_word_eqI) (simp add: unsigned_ucast_eq unsigned_of_nat take_bit_nat_eq_self)

lemma shift_in: "d < 128 \<Longrightarrow> push_bit 7 (of_nat r) OR of_nat d = (of_nat (r * 128 + d) :: uint32)"
proof -
  assume "d < 128"
  then have d: "take_bit 7 d = d" by (simp add: take_bit_nat_eq_self_iff)
  have "push_bit 7 (of_nat r) + of_nat d = (push_bit 7 (of_nat r) OR of_nat d :: uint32)"
  proof (rule disjunctive_add)
    fix n
    have "\<not> bit d n" if "7 \<le> n" using d that by (metis bit_take_bit_iff not_less)
    then show "\<not> bit (push_bit 7 (of_nat r) :: uint32) n \<or> \<not> bit (of_nat d :: uint32) n" by (auto simp: bit_simps)
  qed
  then show ?thesis by (simp add: push_bit_eq_mult mult.commute)
qed

lemma read_groups:
  assumes "ds \<noteq> []" "\<forall>d \<in> set ds. d < 128"
  shows "symbols_left s p (encode_groups ds @ rest) \<Longrightarrow> input AND 0x80 \<noteq> 0 \<Longrightarrow>
     read_number_loop s (of_nat r) input p = Some (Some (of_nat (r * 128 ^ length ds + join_groups ds), p + int (length ds))) \<and>
     symbols_left s (p + int (length ds)) rest"
  using assms
proof (induction ds arbitrary: p r input)
  case (Cons d ds)
  have d: "d < 128" using Cons.prems by simp
  show ?case
  proof (cases ds)
    case Nil
    have left: "symbols_left s p (of_nat d # rest)" using Cons.prems(1) Nil by simp
    have "read_number_loop s (of_nat (r * 128 + d)) (of_nat d) (p + 1) = Some (Some (of_nat (r * 128 + d), p + 1))"
      by (subst read_number_loop.simps) (simp add: group_bits(3) [OF d])
    then show ?thesis using symbols_left_Cons [OF left] Cons.prems(2) Nil
      by (subst read_number_loop.simps) (simp add: group_bits [OF d] ucast_group [OF d] shift_in [OF d] join_groups_def del: of_nat_add of_nat_mult)
  next
    case (Cons d' ds')
    then have "encode_groups (d # ds) = (of_nat d OR 0x80) # encode_groups ds" by simp
    then have left: "symbols_left s p ((of_nat d OR 0x80) # encode_groups ds @ rest)" using Cons.prems(1) by simp
    have "read_number_loop s (of_nat r) input p = read_number_loop s (of_nat (r * 128 + d)) (of_nat d OR 0x80) (p + 1)"
      using symbols_left_Cons [OF left] Cons.prems(2)
      by (subst read_number_loop.simps) (simp add: group_bits [OF d] ucast_group [OF d] shift_in [OF d] del: of_nat_add of_nat_mult)
    moreover note Cons.IH [OF symbols_left_Cons(3) [OF left] group_bits(1) [OF d], of "r * 128 + d"]
    ultimately show ?thesis using Cons.prems(4) Cons by (simp add: join_groups_Cons algebra_simps del: of_nat_add of_nat_mult)
  qed
qed simp

lemma groups_head: "groups k n = d # ds \<Longrightarrow> ds \<noteq> [] \<Longrightarrow> d \<noteq> 0"
  by (induction k n rule: groups.induct) (auto split: if_splits)

lemma ReadNumber_ok:
  assumes n: "n < 2 ^ 31" and left: "symbols_left s (symbol_data s) (number_bytes n @ rest)"
  shows "ReadNumber s = Some (of_nat (join_groups (groups 4 n)), s\<lparr>symbol_data := symbol_data s + int (length (number_bytes n))\<rparr>)"
    "symbols_left s (symbol_data s + int (length (number_bytes n))) rest"
proof -
  obtain d ds where g: "groups 4 n = d # ds" by (metis groups_not_Nil neq_Nil_conv)
  have dig: "\<forall>d \<in> set (d # ds). d < 128" using groups_digits [of n 4] n by (simp add: g)
  then have d: "d < 128" by simp
  have "ReadNumber s = Some (of_nat (join_groups (d # ds)), s\<lparr>symbol_data := symbol_data s + int (length (d # ds))\<rparr>) \<and>
      symbols_left s (symbol_data s + int (length (d # ds))) rest"
  proof (cases "ds = []")
    case True
    then have "symbols_left s (symbol_data s) (of_nat d # rest)" using left by (simp add: number_bytes_def g)
    note l = symbols_left_Cons [OF this]
    have "of_nat d \<noteq> (0x80 :: uint8)" using group_bits(3) [OF d] by auto
    moreover have "read_number_loop s (of_nat d) (of_nat d) (symbol_data s + 1) = Some (Some (of_nat d, symbol_data s + 1))"
      by (subst read_number_loop.simps) (simp add: group_bits(3) [OF d])
    ultimately show ?thesis using l True
      by (simp add: ReadNumber_def kNumberTerminator_def group_bits(4) [OF d] ucast_group [OF d] join_groups_def)
  next
    case False
    then have "symbols_left s (symbol_data s) ((of_nat d OR 0x80) # encode_groups ds @ rest)"
      using left by (simp add: number_bytes_def g encode_groups_Cons)
    note l = symbols_left_Cons [OF this]
    have "of_nat d \<noteq> (0 :: uint8)"
    proof
      assume "of_nat d = (0 :: uint8)"
      then have "unat (of_nat d :: uint8) = 0" by simp
      then show False using d groups_head [OF g False] by (simp add: unsigned_of_nat take_bit_nat_eq_self)
    qed
    then have "of_nat d OR 0x80 \<noteq> (0x80 :: uint8)" using group_bits(2) [OF d] by auto
    moreover have "\<forall>d \<in> set ds. d < 128" using dig by simp
    note read_groups [OF False this l(3) group_bits(1) [OF d], of d]
    ultimately show ?thesis using l
      by (simp add: ReadNumber_def kNumberTerminator_def group_bits(2) [OF d] ucast_group [OF d] join_groups_Cons algebra_simps
          del: of_nat_add of_nat_mult)
  qed
  moreover have "length (number_bytes n) = length (d # ds)" by (simp add: number_bytes_def g)
  ultimately show "ReadNumber s = Some (of_nat (join_groups (groups 4 n)), s\<lparr>symbol_data := symbol_data s + int (length (number_bytes n))\<rparr>)"
      "symbols_left s (symbol_data s + int (length (number_bytes n))) rest"
    unfolding g by simp_all
qed

lemma join_groups_number: "n < 2 ^ 31 \<Longrightarrow> join_groups (groups 4 n) = n \<longleftrightarrow> no_inner_zero n"
  using join_groups_iff [of n 4] by (simp add: no_inner_zero_def)

lemma small_no_inner_zero: "n < 16384 \<Longrightarrow> no_inner_zero n"
proof -
  assume n: "n < 16384"
  have "n div 128 ^ i mod 128 \<noteq> 0" if "i \<in> {1..4}" "128 ^ i \<le> n" for i
  proof (cases "i = 1")
    case True
    then have "n div 128 < 128" "n div 128 \<noteq> 0" using n that by (auto simp: div_eq_0_iff)
    then show ?thesis using True by simp
  next
    case False
    then have "(128 :: nat) ^ 2 \<le> 128 ^ i" using that by (intro power_increasing) simp_all
    then show ?thesis using n that by simp
  qed
  then show "no_inner_zero n" by (simp add: no_inner_zero_def)
qed

end
