(* ===== verification/PreparseLog.thy ===== *)
theory PreparseLog
  imports PreparseNumbers
begin

text \<open>
  What the recorder holds after a sequence of calls: the function entries, the numbers of the symbols in the
  order of their first occurrence, or the first message.
\<close>

section \<open>Sequences of calls\<close>

datatype log_call =
    LFunction uint32 uint32 uint32 uint32
  | LSymbol "uint8 list"
  | LMessage uint32 uint32 "uint8 list" "uint8 list option"
  | LPause
  | LResume

fun perform_log :: "(nat \<Rightarrow> uint32) \<Rightarrow> log_call \<Rightarrow> CompleteParserRecorder \<Rightarrow> hm_error + CompleteParserRecorder" where
  "perform_log fresh (LFunction start_pos end_pos literals properties) r = Inr (LogFunction fresh start_pos end_pos literals properties r)"
| "perform_log fresh (LSymbol literal) r = LogSymbol fresh literal r"
| "perform_log fresh (LMessage start_pos end_pos message arg_opt) r = Inr (LogMessage fresh start_pos end_pos message arg_opt r)"
| "perform_log fresh LPause r = Inr (PauseRecording r)"
| "perform_log fresh LResume r = Inr (ResumeRecording r)"

fun run_log :: "(nat \<Rightarrow> uint32) \<Rightarrow> log_call list \<Rightarrow> CompleteParserRecorder \<Rightarrow> hm_error + CompleteParserRecorder" where
  "run_log fresh [] r = Inr r"
| "run_log fresh (c # cs) r = (case perform_log fresh c r of Inl e \<Rightarrow> Inl e | Inr r \<Rightarrow> run_log fresh cs r)"

text \<open>The entries and the symbols that are logged while the recording is not paused.\<close>

fun logged_functions :: "log_call list \<Rightarrow> FunctionEntry list" where
  "logged_functions [] = []"
| "logged_functions (LFunction a b c d # cs) = [a, b, c, d] # logged_functions cs"
| "logged_functions (_ # cs) = logged_functions cs"

fun logged_symbols :: "nat \<Rightarrow> log_call list \<Rightarrow> uint8 list list" where
  "logged_symbols p [] = []"
| "logged_symbols p (LSymbol str # cs) = (if p = 0 then str # logged_symbols p cs else logged_symbols p cs)"
| "logged_symbols p (LPause # cs) = logged_symbols (p + 1) cs"
| "logged_symbols p (LResume # cs) = logged_symbols (p - 1) cs"
| "logged_symbols p (_ # cs) = logged_symbols p cs"

text \<open>The symbols in the order of their first occurrence, after those in \<open>seen\<close>, and the numbers of all.\<close>

definition position_of :: "'a \<Rightarrow> 'a list \<Rightarrow> nat" where
  "position_of x xs = length (takeWhile (\<lambda>y. y \<noteq> x) xs)"

definition see :: "'a list \<Rightarrow> 'a \<Rightarrow> 'a list" where
  "see seen x = (if x \<in> set seen then seen else seen @ [x])"

fun symbol_numbers :: "'a list \<Rightarrow> 'a list \<Rightarrow> nat list" where
  "symbol_numbers seen [] = []"
| "symbol_numbers seen (x # xs) = position_of x seen # symbol_numbers (see seen x) xs"

lemma position_of_see: "y \<in> set seen \<Longrightarrow> position_of y (see seen x) = position_of y seen"
  by (auto simp: see_def position_of_def takeWhile_append)

lemma position_of_new: "x \<notin> set seen \<Longrightarrow> position_of x seen = length seen \<and> position_of x (see seen x) = length seen"
proof -
  assume x: "x \<notin> set seen"
  then have t: "takeWhile (\<lambda>y. y \<noteq> x) seen = seen" unfolding takeWhile_eq_all_conv by auto
  have "\<forall>y \<in> set seen. y \<noteq> x" using x by auto
  then show ?thesis using x by (simp add: see_def position_of_def takeWhile_append t)
qed

lemma position_of_less: "x \<in> set seen \<Longrightarrow> position_of x seen < length seen"
  unfolding position_of_def by (induction seen) auto

lemma set_see [simp]: "set (see seen x) = insert x (set seen)"
  by (auto simp: see_def)

lemma length_see: "length (see seen x) \<le> Suc (length seen)"
  by (simp add: see_def)

lemma symbol_numbers_length [simp]: "length (symbol_numbers seen xs) = length xs"
  by (induction seen xs rule: symbol_numbers.induct) simp_all

lemma foldl_see_mono: "length seen \<le> length (foldl see seen xs)"
proof (induction xs arbitrary: seen)
  case (Cons x xs)
  have "length seen \<le> length (see seen x)" by (simp add: see_def)
  also have "\<dots> \<le> length (foldl see (see seen x) xs)" by (rule Cons.IH)
  finally show ?case by simp
qed simp

lemma symbol_numbers_less: "n \<in> set (symbol_numbers seen xs) \<Longrightarrow> n < length (foldl see seen xs)"
proof (induction seen xs rule: symbol_numbers.induct)
  case (2 seen x xs)
  have "position_of x seen < length (see seen x)"
    using position_of_less [of x seen] position_of_new [of x seen] by (auto simp: see_def)
  then show ?case using 2 foldl_see_mono [of "see seen x" xs] by auto
qed simp

lemma symbol_numbers_append: "symbol_numbers seen (xs @ ys) = symbol_numbers seen xs @ symbol_numbers (foldl see seen xs) ys"
  by (induction xs arbitrary: seen) simp_all

section \<open>The symbol table\<close>

lemma vector_compare_eq: "vector_compare = (=)"
proof (intro ext iffI)
  show "vector_compare a b \<Longrightarrow> a = b" for a b by (simp add: vector_compare_def list.rel_eq split: if_splits)
  show "a = b \<Longrightarrow> vector_compare a b" for a b by (simp add: vector_compare_def list.rel_eq)
qed

interpretation symbols: match_fun vector_compare vector_hash
  by unfold_locales (simp_all add: vector_compare_eq)

definition symbol_map :: "uint8 list list \<Rightarrow> uint8 list \<Rightarrow> nat option option" where
  "symbol_map seen = (\<lambda>k. if k \<in> set seen then Some (Some (position_of k seen + 1)) else None)"

abbreviation table_holds :: "nat \<Rightarrow> uint8 list list \<Rightarrow> (uint8 list, nat) HashMap \<Rightarrow> bool" where
  "table_holds n seen m \<equiv> simulates vector_compare vector_hash m (symbol_map seen) n"

lemma table_lookup:
  assumes t: "table_holds n seen m" and n: "n < 2 ^ 29" and num: "num = length seen"
  shows "HashMap_Lookup m k (vector_hash k) True = Inl OutOfMemory \<or>
    (\<exists>p m'. HashMap_Lookup m k (vector_hash k) True = Inr (Some p, m') \<and>
      e_value (hm_map m' ! p) = (if k \<in> set seen then Some (position_of k seen + 1) else None) \<and>
      e_key (hm_map m' ! p) = Some k \<and>
      (if k \<in> set seen then table_holds (Suc n) seen m' else table_holds (Suc n) (see seen k) (set_value m' p (Some (num + 1)))))"
proof (cases "HashMap_Lookup m k (vector_hash k) True = Inl OutOfMemory")
  case False
  have s: "store_ok vector_compare vector_hash m" "store_room m" and f: "tbl_find vector_compare (hm_map m) k = symbol_map seen k"
    using t store_okD(1) [of vector_compare vector_hash m] by (auto simp: simulates_def)
  obtain p m' where p: "HashMap_Lookup m k (vector_hash k) True = Inr (Some p, m')" "entry_for m' p k" "store_ok vector_compare vector_hash m'"
      "e_value (hm_map m' ! p) = (case tbl_find vector_compare (hm_map m) k of Some v \<Rightarrow> v | None \<Rightarrow> None)"
    using symbols.store.lookup_or_oom [OF s, of k] False by blast
  have key: "e_key (hm_map m' ! p) = Some k"
    using p(2) store_okD(1) [OF p(3)] by (auto simp: entry_for_def vector_compare_eq)
  have v: "e_value (hm_map m' ! p) = (if k \<in> set seen then Some (position_of k seen + 1) else None)"
    unfolding p(4) f by (simp add: symbol_map_def)
  show ?thesis
  proof (cases "k \<in> set seen")
    case True
    have "m' = m" using symbols.store.lookup_present [OF s(1), of k _ True] f True p(1) by (auto simp: symbol_map_def)
    moreover have "table_holds (Suc n) seen m" using t by (simp add: simulates_def)
    ultimately show ?thesis using p(1) key v True by simp
  next
    case new: False
    have "run_op vector_hash (Put k (Some (num + 1))) m = Inr (set_value m' p (Some (num + 1)))" using p(1) by simp
    then have "simulates vector_compare vector_hash (set_value m' p (Some (num + 1)))
        (spec_op vector_compare (Put k (Some (num + 1))) (symbol_map seen)) (Suc n)"
      using symbols.run_op_simulates [OF t n, of "Put k (Some (num + 1))"] by simp
    moreover have "spec_op vector_compare (Put k (Some (num + 1))) (symbol_map seen) = symbol_map (see seen k)"
      using position_of_new [OF new] position_of_see [of _ seen k] num
      by (auto simp: symbol_map_def vector_compare_eq fun_eq_iff)
    ultimately show ?thesis using p(1) key v new by simp
  qed
qed blast

section \<open>The recorder\<close>

lemma LogFunction_ok:
  assumes "col_ok (function_store r)"
  shows "contents (function_store (LogFunction fresh a b c d r)) = contents (function_store r) @ [a, b, c, d]"
    "col_ok (function_store (LogFunction fresh a b c d r))"
  using assms by (simp_all add: LogFunction_def Add_ok)

lemma write_chars_ok: "col_ok c \<Longrightarrow> contents (write_chars fresh str c) = contents c @ map scast str \<and> col_ok (write_chars fresh str c)"
  by (induction str arbitrary: c) (simp_all add: Add_ok)

lemma WriteString_ok:
  assumes "col_ok (function_store r)"
  shows "contents (function_store (WriteString fresh str r)) = contents (function_store r) @ of_nat (length str) # map scast str"
    "col_ok (function_store (WriteString fresh str r))"
  using assms by (simp_all add: WriteString_def write_chars_ok Add_ok)

definition recorded :: "nat \<Rightarrow> FunctionEntry list \<Rightarrow> uint8 list list \<Rightarrow> nat list \<Rightarrow> CompleteParserRecorder \<Rightarrow> bool" where
  "recorded n fs seen nums r \<longleftrightarrow>
     col_ok (function_store r) \<and> contents (function_store r) = concat fs \<and>
     col_ok (symbol_store r) \<and> contents (symbol_store r) = concat (map number_bytes nums) \<and>
     table_holds n seen (symbol_table r) \<and> symbol_id r = length seen \<and> length seen \<le> n \<and>
     preamble r = [kMagicNumber, kCurrentVersion, 0, 0, 0, 0] \<and> (is_recording r \<longleftrightarrow> pause_count r = 0)"

definition is_message :: "log_call \<Rightarrow> bool" where
  "is_message c = (case c of LMessage a b m arg \<Rightarrow> True | _ \<Rightarrow> False)"

fun pause_after :: "nat \<Rightarrow> log_call \<Rightarrow> nat" where
  "pause_after p LPause = p + 1"
| "pause_after p LResume = p - 1"
| "pause_after p c = p"

lemma logged_Cons:
  "logged_functions (c # cs) = logged_functions [c] @ logged_functions cs"
  "logged_symbols p (c # cs) = logged_symbols p [c] @ logged_symbols (pause_after p c) cs"
  by (cases c; simp)+

lemma LogSymbol_ok:
  assumes r: "recorded n fs seen nums r" and n: "n < 2 ^ 29" and l: "LogSymbol fresh k r = Inr r'"
  shows "recorded (Suc n) fs (foldl see seen (logged_symbols (pause_count r) [LSymbol k])) (nums @ symbol_numbers seen (logged_symbols (pause_count r) [LSymbol k])) r' \<and>
    pause_count r' = pause_count r"
proof (cases "is_recording r")
  case False
  then have "r' = r" "pause_count r \<noteq> 0" using l r by (auto simp: LogSymbol_def recorded_def)
  then show ?thesis using r by (simp add: recorded_def simulates_def)
next
  case True
  have t: "table_holds n seen (symbol_table r)" and num: "symbol_id r = length seen" and sn: "length seen \<le> n"
      and c: "col_ok (symbol_store r)" "contents (symbol_store r) = concat (map number_bytes nums)"
    using r by (simp_all add: recorded_def)
  have p0: "pause_count r = 0" using r True by (simp add: recorded_def)
  obtain p m where p: "HashMap_Lookup (symbol_table r) k (vector_hash k) True = Inr (Some p, m)" "e_key (hm_map m ! p) = Some k"
      "e_value (hm_map m ! p) = (if k \<in> set seen then Some (position_of k seen + 1) else None)"
      "if k \<in> set seen then table_holds (Suc n) seen m else table_holds (Suc n) (see seen k) (set_value m p (Some (symbol_id r + 1)))"
    using table_lookup [OF t n num, of k] l True by (auto simp: LogSymbol_def)
  show ?thesis
  proof (cases "k \<in> set seen")
    case old: True
    let ?q = "r\<lparr>symbol_table := m\<rparr>" and ?i = "position_of k seen"
    have "r' = WriteNumber (ucast \<circ> fresh) ?i ?q" using l True p old by (simp add: LogSymbol_def)
    moreover have "?i < 2 ^ 31" using position_of_less [OF old] sn n by simp
    ultimately show ?thesis using WriteNumber_ok [of ?i ?q "ucast \<circ> fresh"] r p(4) old p0 c
      by (simp add: recorded_def WriteNumber_def see_def)
  next
    case new: False
    let ?m = "set_value m p (Some (symbol_id r + 1))"
    have "?m\<lparr>hm_map := (hm_map ?m)[p := (hm_map ?m ! p)\<lparr>e_key := Some k\<rparr>]\<rparr> = ?m"
    proof (cases "p < length (hm_map m)")
      case True
      then have "e_key (hm_map ?m ! p) = Some k" using p(2) by (simp add: set_value_def)
      then have "(hm_map ?m ! p)\<lparr>e_key := Some k\<rparr> = hm_map ?m ! p" by simp
      then show ?thesis by (simp only: list_update_id) simp
    qed (simp add: set_value_def list_update_beyond not_less)
    then have e: "r' = WriteNumber (ucast \<circ> fresh) (symbol_id r)
        (r\<lparr>symbol_table := ?m, symbol_id := symbol_id r + 1, symbol_entries := AddBlock (\<lambda>i. []) 1 k (symbol_entries r)\<rparr>)"
      using l True p new by (simp add: LogSymbol_def set_value_def Let_def)
    have "symbol_id r < 2 ^ 31" using num sn n by simp
    then show ?thesis using WriteNumber_ok [of "symbol_id r" "r\<lparr>symbol_table := ?m, symbol_id := symbol_id r + 1,
          symbol_entries := AddBlock (\<lambda>i. []) 1 k (symbol_entries r)\<rparr>" "ucast \<circ> fresh"] r p(4) new p0 c position_of_new [OF new] num
      unfolding e by (simp add: recorded_def WriteNumber_def see_def)
  qed
qed

lemma perform_log_ok:
  assumes r: "recorded n fs seen nums r" and n: "n < 2 ^ 29" and l: "perform_log fresh c r = Inr r'" and c: "\<not> is_message c"
  shows "recorded (Suc n) (fs @ logged_functions [c]) (foldl see seen (logged_symbols (pause_count r) [c]))
      (nums @ symbol_numbers seen (logged_symbols (pause_count r) [c])) r' \<and> pause_count r' = pause_after (pause_count r) c"
proof (cases c)
  case (LFunction a b c' d)
  then have "r' = LogFunction fresh a b c' d r" using l by simp
  then show ?thesis using r LogFunction_ok [of r fresh a b c' d] LFunction
    by (simp add: recorded_def simulates_def LogFunction_def)
next
  case (LSymbol k)
  then show ?thesis using LogSymbol_ok [OF r n] l by simp
next
  case LPause
  then show ?thesis using r l by (auto simp: PauseRecording_def recorded_def simulates_def)
next
  case LResume
  then show ?thesis using r l by (auto simp: ResumeRecording_def recorded_def simulates_def has_error_def offsets Let_def split: if_splits)
qed (use c in \<open>simp add: is_message_def\<close>)

lemma run_log_ok:
  "recorded n fs seen nums r \<Longrightarrow> n + length cs \<le> 2 ^ 29 \<Longrightarrow> run_log fresh cs r = Inr r' \<Longrightarrow> \<forall>c \<in> set cs. \<not> is_message c \<Longrightarrow>
   recorded (n + length cs) (fs @ logged_functions cs) (foldl see seen (logged_symbols (pause_count r) cs))
     (nums @ symbol_numbers seen (logged_symbols (pause_count r) cs)) r'"
proof (induction cs arbitrary: n fs seen nums r)
  case (Cons c cs)
  obtain q where q: "perform_log fresh c r = Inr q" "run_log fresh cs q = Inr r'" using Cons.prems(3) by (auto split: sum.splits)
  have n: "n < 2 ^ 29" using Cons.prems(2) by simp
  have "\<not> is_message c" using Cons.prems(4) by simp
  note s = perform_log_ok [OF Cons.prems(1) n q(1) this]
  have "recorded (Suc n + length cs) ((fs @ logged_functions [c]) @ logged_functions cs)
      (foldl see (foldl see seen (logged_symbols (pause_count r) [c])) (logged_symbols (pause_count q) cs))
      ((nums @ symbol_numbers seen (logged_symbols (pause_count r) [c])) @
        symbol_numbers (foldl see seen (logged_symbols (pause_count r) [c])) (logged_symbols (pause_count q) cs)) r'"
    by (rule Cons.IH [OF _ _ q(2)]) (use s Cons.prems(2,4) in auto)
  then show ?case using s unfolding logged_Cons [where c = c and cs = cs] symbol_numbers_append by simp
qed simp

lemma new_recorder:
  assumes "allocator_ok alloc" "CompleteParserRecorder_new fresh alloc = Inr r"
  shows "recorded 0 [] [] [] r" "pause_count r = 0"
proof -
  obtain m where m: "HashMap_new vector_compare alloc 8 = Inr m" and r: "r =
      \<lparr>function_store = Collector_new fresh 0, preamble = new_preamble fresh, is_recording = True, pause_count = 0,
       symbol_store = Collector_new (ucast \<circ> fresh) 0, symbol_entries = Collector_new (\<lambda>i. []) 0, symbol_table = m, symbol_id = 0\<rparr>"
    using assms(2) by (auto simp: CompleteParserRecorder_new_def split: sum.splits)
  have cap: "unat (8 :: uint32) = 2 ^ 3" by simp
  have init: "HashMap_Initialize 8 \<lparr>hm_allocator = alloc, hm_match = vector_compare, hm_map = [], hm_capacity = 0, hm_occupancy = 0\<rparr> = Inr m"
    using m by (simp add: HashMap_new_def)
  have "table_holds 0 [] m"
    using Initialize_correct [OF _ cap init] assms(1) by (simp add: simulates_def store_ok_def store_room_def symbol_map_def)
  moreover have "new_preamble fresh = [kMagicNumber, kCurrentVersion, 0, 0, 0, 0]"
    by (simp add: new_preamble_def offsets upt_rec)
  ultimately show "recorded 0 [] [] [] r" "pause_count r = 0" by (simp_all add: recorded_def r)
qed

section \<open>Messages\<close>

definition string_words :: "uint8 list \<Rightarrow> uint32 list" where
  "string_words str = of_nat (length str) # map scast str"

definition message_words :: "uint32 \<Rightarrow> uint32 \<Rightarrow> uint8 list \<Rightarrow> uint8 list option \<Rightarrow> uint32 list" where
  "message_words start_pos end_pos message arg_opt =
     [start_pos, end_pos, case arg_opt of None \<Rightarrow> 0 | Some arg \<Rightarrow> 1] @ string_words message @
     (case arg_opt of None \<Rightarrow> [] | Some arg \<Rightarrow> string_words arg)"

definition reported :: "uint32 list \<Rightarrow> CompleteParserRecorder \<Rightarrow> bool" where
  "reported ws r \<longleftrightarrow> col_ok (function_store r) \<and> (\<exists>more. contents (function_store r) = ws @ more) \<and> col_ok (symbol_store r) \<and>
     \<not> is_recording r \<and> preamble r = [kMagicNumber, kCurrentVersion, 1, 0, 0, 0]"

lemma LogMessage_ok:
  assumes "recorded n fs seen nums r"
  shows "reported (message_words a b m arg) (LogMessage fresh a b m arg r)"
proof -
  have e: "\<not> has_error r" using assms by (simp add: has_error_def recorded_def offsets)
  have w: "preamble (WriteString fresh x s) = preamble s" "symbol_store (WriteString fresh x s) = symbol_store s" for x and s :: CompleteParserRecorder
    by (simp_all add: WriteString_def)
  show ?thesis using assms e
    by (cases arg) (simp_all add: reported_def LogMessage_def Let_def WriteString_ok w Add_ok Reset_ok message_words_def string_words_def
        recorded_def offsets)
qed

lemma perform_log_reported:
  assumes r: "reported ws r" and l: "perform_log fresh c r = Inr r'"
  shows "reported ws r'"
proof -
  have e: "has_error r" "\<not> is_recording r" using r by (simp_all add: has_error_def reported_def offsets)
  show ?thesis
  proof (cases c)
    case (LFunction a b c' d)
    then show ?thesis using r l LogFunction_ok [of r fresh a b c' d] by (auto simp: reported_def) (simp_all add: LogFunction_def)
  next
    case (LSymbol k)
    then show ?thesis using r l e by (simp add: LogSymbol_def)
  next
    case (LMessage a b m arg)
    then show ?thesis using r l e by (simp add: LogMessage_def)
  next
    case LPause
    then show ?thesis using r l by (auto simp: PauseRecording_def reported_def)
  next
    case LResume
    then show ?thesis using r l by (auto simp: ResumeRecording_def reported_def has_error_def offsets Let_def split: if_splits)
  qed
qed

lemma run_log_reported: "reported ws r \<Longrightarrow> run_log fresh cs r = Inr r' \<Longrightarrow> reported ws r'"
proof (induction cs arbitrary: r)
  case (Cons c cs)
  obtain q where q: "perform_log fresh c r = Inr q" "run_log fresh cs q = Inr r'" using Cons.prems(2) by (auto split: sum.splits)
  have "reported ws q" using Cons.prems(1) q(1) by (rule perform_log_reported)
  then show ?case using q(2) by (rule Cons.IH)
qed simp

lemma run_log_append: "run_log fresh (xs @ ys) r = (case run_log fresh xs r of Inl e \<Rightarrow> Inl e | Inr q \<Rightarrow> run_log fresh ys q)"
  by (induction xs arbitrary: r) (simp_all split: sum.split)

section \<open>The recorder returns\<close>

text \<open>
  As long as the allocator of the symbol table gives memory, every call returns. \<open>working\<close> is what holds
  of the recorder before a call: it records faithfully, or it has a message and does not look up symbols.
\<close>

abbreviation gives_memory :: "(nat \<Rightarrow> (uint8 list, nat) Entry list option) \<Rightarrow> bool" where
  "gives_memory alloc \<equiv> \<forall>n. alloc n \<noteq> None"

definition working :: "nat \<Rightarrow> CompleteParserRecorder \<Rightarrow> bool" where
  "working n r \<longleftrightarrow> (\<exists>fs seen nums. recorded n fs seen nums r) \<or> (\<exists>ws. reported ws r)"

lemma lookup_returns:
  assumes t: "table_holds n seen m" and n: "n < 2 ^ 29" and al: "gives_memory (hm_allocator m)"
  shows "\<exists>p m'. HashMap_Lookup m k (vector_hash k) True = Inr (Some p, m') \<and> hm_allocator m' = hm_allocator m"
proof -
  have s: "store_ok vector_compare vector_hash m" "store_room m" using t by (simp_all add: simulates_def)
  have m: "hm_match m = vector_compare" "HashMap_ok vector_hash m" "allocator_ok (hm_allocator m)" "unat (hm_capacity m) \<le> 2 ^ 30"
    using s by (auto simp: store_ok_def store_room_def)
  show ?thesis
  proof (cases "hm_find m k")
    case None
    then show ?thesis using symbols.Lookup_insert [OF m(1,2) None m(3,4)] al by blast
  next
    case (Some v)
    then show ?thesis using symbols.store.lookup_present [OF s(1), of k v True] m(1) by auto
  qed
qed

lemma LogSymbol_returns:
  assumes r: "working n r" and n: "n < 2 ^ 29" and al: "gives_memory (hm_allocator (symbol_table r))"
  shows "\<exists>r'. LogSymbol fresh k r = Inr r' \<and> hm_allocator (symbol_table r') = hm_allocator (symbol_table r)"
proof (cases "is_recording r")
  case True
  then obtain fs seen nums where "recorded n fs seen nums r" using r by (auto simp: working_def reported_def)
  then have "table_holds n seen (symbol_table r)" by (simp add: recorded_def)
  then obtain p m' where "HashMap_Lookup (symbol_table r) k (vector_hash k) True = Inr (Some p, m')" "hm_allocator m' = hm_allocator (symbol_table r)"
    using lookup_returns [OF _ n al] by blast
  then show ?thesis using True by (simp add: LogSymbol_def WriteNumber_def Let_def)
qed (simp add: LogSymbol_def)

lemma perform_log_returns:
  assumes r: "working n r" and n: "n < 2 ^ 29" and al: "gives_memory (hm_allocator (symbol_table r))"
  shows "\<exists>r'. perform_log fresh c r = Inr r' \<and> working (Suc n) r' \<and> gives_memory (hm_allocator (symbol_table r'))"
proof -
  obtain r' where r': "perform_log fresh c r = Inr r'" "hm_allocator (symbol_table r') = hm_allocator (symbol_table r)"
  proof (cases c)
    case (LSymbol k)
    then show ?thesis using LogSymbol_returns [OF r n al, of fresh k] that by auto
  next
    case (LMessage a b m arg)
    have "symbol_table (WriteString fresh x s) = symbol_table s" for x and s :: CompleteParserRecorder by (simp add: WriteString_def)
    then have "symbol_table (LogMessage fresh a b m arg r) = symbol_table r" by (simp add: LogMessage_def Let_def split: option.split)
    then show ?thesis using that LMessage by simp
  qed (use that in \<open>simp_all add: LogFunction_def PauseRecording_def ResumeRecording_def Let_def\<close>)
  have "working (Suc n) r'"
  proof (cases "\<exists>ws. reported ws r")
    case True
    then show ?thesis using perform_log_reported [OF _ r'(1)] unfolding working_def by blast
  next
    case False
    then obtain fs seen nums where rec: "recorded n fs seen nums r" using r by (auto simp: working_def)
    show ?thesis
    proof (cases "is_message c")
      case True
      then obtain a b m arg where "c = LMessage a b m arg" by (cases c) (auto simp: is_message_def)
      then have "reported (message_words a b m arg) r'" using r'(1) LogMessage_ok [OF rec, of a b m arg fresh] by simp
      then show ?thesis unfolding working_def by blast
    next
      case False
      then show ?thesis using perform_log_ok [OF rec n r'(1)] by (auto simp: working_def)
    qed
  qed
  then show ?thesis using r' al by simp
qed

lemma run_log_returns:
  "working n r \<Longrightarrow> n + length cs \<le> 2 ^ 29 \<Longrightarrow> gives_memory (hm_allocator (symbol_table r)) \<Longrightarrow> \<exists>r'. run_log fresh cs r = Inr r'"
proof (induction cs arbitrary: n r)
  case (Cons c cs)
  have "n < 2 ^ 29" using Cons.prems(2) by simp
  then obtain q where q: "perform_log fresh c r = Inr q" "working (Suc n) q" "gives_memory (hm_allocator (symbol_table q))"
    using perform_log_returns [OF Cons.prems(1) _ Cons.prems(3), of fresh c] by auto
  then show ?case using Cons.IH [OF q(2) _ q(3)] Cons.prems(2) by simp
qed simp

lemma new_recorder_returns:
  assumes "gives_memory alloc" "allocator_ok alloc" "length cs \<le> 2 ^ 29"
  shows "\<exists>r0 r. CompleteParserRecorder_new fresh alloc = Inr r0 \<and> run_log fresh cs r0 = Inr r"
proof -
  obtain m where m: "HashMap_new vector_compare alloc 8 = Inr m" "hm_allocator m = alloc"
    using assms(1) [rule_format, of 8] by (auto simp: HashMap_new_def HashMap_Initialize_def HashMap_Clear_def)
  then obtain r0 where r0: "CompleteParserRecorder_new fresh alloc = Inr r0" "symbol_table r0 = m" by (simp add: CompleteParserRecorder_new_def)
  have "working 0 r0" using new_recorder(1) [OF assms(2) r0(1)] by (auto simp: working_def)
  then show ?thesis using run_log_returns [of 0 r0 cs fresh] assms(1,3) r0 m(2) by auto
qed

end
