(* ===== verification/PreparseProperties.thy ===== *)
theory PreparseProperties
  imports PreparseLog
begin

text \<open>The properties of the preparser data: what the recorder writes is what the reader reads.\<close>

section \<open>The layout of the data\<close>

lemma extracted:
  assumes "col_ok (function_store r)" "col_ok (symbol_store r)" "length (preamble r) = 6"
  shows "\<exists>ws. fst (Complete_ExtractData fresh r) =
      (preamble r)[3 := of_nat (col_size (function_store r)), 4 := of_nat (symbol_id r)] @ contents (function_store r) @ ws \<and> ws \<noteq> [] \<and>
    (\<not> has_error r \<longrightarrow> (\<exists>k. bytes_of_words ws = contents (symbol_store r) @ replicate (Suc k) kNumberTerminator))"
proof -
  let ?f = "col_size (function_store r)" and ?n = "col_size (symbol_store r)"
  let ?pad = "4 - ?n mod 4" and ?pre = "(preamble r)[3 := of_nat (col_size (function_store r)), 4 := of_nat (symbol_id r)]"
  let ?ss = "AddBlock (ucast \<circ> fresh) ?pad kNumberTerminator (symbol_store r)"
  let ?total = "6 + ?f + (?n + ?pad) div 4"
  define data where "data = copy_to 0 ?pre (map fresh [0..<?total])"
  have m: "?n mod 4 < 4" by simp
  have q: "(?n + ?pad) mod 4 = 0" using m by presburger
  have q4: "4 * ((?n + ?pad) div 4) = ?n + ?pad" using q by presburger
  have q0: "0 < (?n + ?pad) div 4" using q4 m by linarith
  have data: "data = ?pre @ drop 6 (map fresh [0..<?total])" using assms(3) by (simp add: data_def copy_to_eq)
  have f: "length (contents (function_store r)) = ?f" "length (contents (symbol_store r)) = ?n" using assms(1,2) by (simp_all add: col_ok_def)
  have wf: "write_functions (function_store r) (6 + ?f) data = ?pre @ contents (function_store r) @ drop (6 + ?f) (map fresh [0..<?total])"
  proof (cases "?f > 0")
    case True
    have "WriteTo (function_store r) (take ?f (drop 6 (map fresh [0..<?total]))) = contents (function_store r)"
      using assms(1) f by (subst WriteTo_eq) simp_all
    then show ?thesis using True assms(3) by (simp add: write_functions_def kHeaderSize_def data add.commute [of ?f])
  next
    case False
    then show ?thesis using f(1) assms(3) by (simp add: write_functions_def data)
  qed
  have ss: "contents ?ss = contents (symbol_store r) @ replicate ?pad kNumberTerminator" "col_ok ?ss"
    using assms(2) by (simp_all add: AddBlock_ok)
  show ?thesis
  proof (cases "has_error r")
    case True
    then have "has_error (r\<lparr>symbol_store := ?ss, preamble := ?pre\<rparr>)" by (simp add: has_error_def offsets)
    then have "fst (Complete_ExtractData fresh r) = ?pre @ contents (function_store r) @ drop (6 + ?f) (map fresh [0..<?total])"
      using wf by (simp add: Complete_ExtractData_def Let_def data_def offsets AddBlock_ok)
    moreover have "drop (6 + ?f) (map fresh [0..<?total]) \<noteq> []" using q0 by simp
    ultimately show ?thesis using True by blast
  next
    case False
    let ?ws = "words_of_bytes (contents ?ss)"
    have l: "length (contents ?ss) = ?n + ?pad" using f(2) ss(1) by simp
    have "WriteTo ?ss (bytes_of_words (drop (6 + ?f) (map fresh [0..<?total]))) = contents ?ss"
      using ss(2) l q4 by (subst WriteTo_eq) (simp_all add: col_ok_def)
    moreover have "\<not> has_error (r\<lparr>symbol_store := ?ss, preamble := ?pre\<rparr>)" using False by (simp add: has_error_def offsets)
    ultimately have "fst (Complete_ExtractData fresh r) = ?pre @ contents (function_store r) @ ?ws"
      using wf f(1) assms(3) by (simp add: Complete_ExtractData_def Let_def data_def offsets AddBlock_ok)
    moreover have b: "bytes_of_words ?ws = contents ?ss" using l q by (intro bytes_of_words_of_bytes) simp
    moreover have "?ws \<noteq> []" using b l q0 q4 by auto
    moreover obtain k where "?pad = Suc k" using m by (metis Suc_diff_Suc diff_zero zero_less_diff gr0_conv_Suc)
    ultimately show ?thesis using ss(1) by (intro exI [of _ ?ws]) auto
  qed
qed

section \<open>Reading the data\<close>

text \<open>What the parser gets: the data of a recorder, its entries in the order of \<open>starts\<close>, its first \<open>n\<close> symbols.\<close>

definition recorded_data :: "(nat \<Rightarrow> uint32) \<Rightarrow> CompleteParserRecorder \<Rightarrow> ScriptDataImpl" where
  "recorded_data fresh r = ScriptData_Initialize (ScriptDataImpl_new (fst (Complete_ExtractData fresh r)))"




lemma symbols_left_update [simp]: "symbols_left (s\<lparr>symbol_data := d\<rparr>) p bs = symbols_left s p bs"
  by (simp add: symbols_left_def store_length_def)


lemma recorded_data_simps:
  "sd_store (recorded_data fresh r) = fst (Complete_ExtractData fresh r)"
  "sd_has_error (recorded_data fresh r) = sd_has_error (ScriptDataImpl_new (fst (Complete_ExtractData fresh r)))"
  by (simp_all add: recorded_data_def ScriptData_Initialize_def ScriptDataImpl_new_def sd_has_error_def Let_def)





section \<open>The data of a run\<close>



section \<open>Messages\<close>

lemma Read_at: "drop (6 + p) (sd_store s) = w # ws \<Longrightarrow> p < 2 ^ 30 \<Longrightarrow> Read s (of_nat p) = Some w"
proof -
  assume d: "drop (6 + p) (sd_store s) = w # ws" and p: "p < 2 ^ 30"
  have l: "6 + p < length (sd_store s)" using d by (metis drop_all list.distinct(1) not_less)
  then have "sd_store s ! (6 + p) = w" using d by (metis Cons_nth_drop_Suc list.inject)
  then show "Read s (of_nat p) = Some w"
    using sint_of_nat [of "6 + p"] p l by (simp add: Read_def offsets store_length_def nat_add_distrib)
qed

lemma drop_at: "drop n xs = ys @ zs \<Longrightarrow> k = n + length ys \<Longrightarrow> drop k xs = zs"
  by (metis add.commute append_eq_conv_conj drop_drop)

lemma read_chars_at:
  "drop (6 + p) (sd_store s) = w # map scast str @ ws \<Longrightarrow> p + length str < 2 ^ 30 - 1 \<Longrightarrow> n \<le> length str \<Longrightarrow>
   read_chars s (of_nat p) n = Some (take n str)"
proof (induction n)
  case (Suc n)
  have "map scast str = map scast (take n str) @ scast (str ! n) # map scast (drop (Suc n) str)"
    using Suc.prems(3) by (metis Cons_nth_drop_Suc Suc_le_lessD append_take_drop_id list.simps(9) map_append)
  then have "drop (6 + p) (sd_store s) = (w # map scast (take n str)) @ scast (str ! n) # map scast (drop (Suc n) str) @ ws"
    using Suc.prems(1) by simp
  from drop_at [OF this, of "6 + (p + (n + 1))"] Suc.prems(3)
  have "drop (6 + (p + (n + 1))) (sd_store s) = scast (str ! n) # map scast (drop (Suc n) str) @ ws" by simp
  from Read_at [OF this] Suc.prems(2,3)
  have "Read s (of_nat p + (of_nat n + 1)) = Some (scast (str ! n))" by (simp add: add_ac)
  moreover have "ucast (scast ch :: uint32) = ch" for ch :: uint8 by (rule bit_word_eqI) (auto simp: bit_simps)
  moreover have "take (Suc n) str = take n str @ [str ! n]" using Suc.prems(3) by (simp add: take_Suc_conv_app_nth)
  ultimately show ?case using Suc by simp
qed simp

lemma ReadString_at:
  assumes "drop (6 + p) (sd_store s) = string_words str @ ws" "p + length str < 2 ^ 30 - 1"
  shows "Read s (of_nat p) = Some (of_nat (length str))" "ReadString s (of_nat p) = Some str"
proof -
  have d: "drop (6 + p) (sd_store s) = of_nat (length str) # map scast str @ ws" using assms(1) by (simp add: string_words_def)
  then show r: "Read s (of_nat p) = Some (of_nat (length str))" using assms(2) by (intro Read_at) simp_all
  have "read_chars s (of_nat p) (length str) = Some str" using read_chars_at [OF d assms(2), of "length str"] by simp
  then show "ReadString s (of_nat p) = Some str" using r sint_of_nat [of "length str"] assms(2) by (simp add: ReadString_def)
qed

text \<open>One step of the loop over the strings, in \<open>SanityCheck\<close>, and its end.\<close>

lemma check_strings_at:
  assumes "drop (6 + p) (sd_store s) = string_words str @ ws" "p + length str < 2 ^ 30 - 1"
  shows "check_strings s (Suc n) (of_nat p) = check_strings s n (of_nat (p + (1 + length str)))"
proof -
  have "6 + p < length (sd_store s)" using assms(1) by (metis append_is_Nil_conv drop_all list.distinct(1) not_less string_words_def)
  then show ?thesis using sint_of_nat [of "6 + p"] sint_of_nat [of "length str"] assms(2) ReadString_at(1) [OF assms]
    by (simp add: store_length_def offsets add_ac)
qed

lemma check_strings_end: "6 + p \<le> length (sd_store s) \<Longrightarrow> p < 2 ^ 30 \<Longrightarrow> check_strings s 0 (of_nat p) = Some True"
  using sint_of_nat [of "6 + p"] by (simp add: store_length_def offsets)

lemma message_read:
  fixes m :: "uint8 list"
  assumes st: "sd_store s = [kMagicNumber, kCurrentVersion, 1, x, y, 0] @ message_words a b m arg @ tail"
    and le: "a \<le> b" "length m < 2 ^ 28" "\<forall>str. arg = Some str \<longrightarrow> length str < 2 ^ 28"
  shows "SanityCheck s = Some True \<and> sd_has_error s \<and> MessageLocation s = Some (a, b) \<and> BuildMessage s = Some m \<and>
    BuildArgs s = Some (case arg of None \<Rightarrow> [] | Some str \<Rightarrow> [str])"
proof -
  define k :: nat where "k = (case arg of None \<Rightarrow> 0 | Some str \<Rightarrow> 1)"
  define tl where "tl = (case arg of None \<Rightarrow> tail | Some str \<Rightarrow> string_words str @ tail)"
  have mw: "message_words a b m arg @ tail = [a, b, of_nat k] @ string_words m @ tl"
    by (simp add: message_words_def k_def tl_def split: option.split)
  have st: "sd_store s = [kMagicNumber, kCurrentVersion, 1, x, y, 0, a, b, of_nat k] @ string_words m @ tl" using st mw by simp
  have "drop (6 + 0) (sd_store s) = a # b # of_nat k # string_words m @ tl" "drop (6 + 1) (sd_store s) = b # of_nat k # string_words m @ tl"
      "drop (6 + 2) (sd_store s) = of_nat k # string_words m @ tl" and d3: "drop (6 + 3) (sd_store s) = string_words m @ tl"
    by (simp_all add: st)
  note Read_at [OF this(1)] Read_at [OF this(2)] Read_at [OF this(3)]
  then have rd: "Read s 0 = Some a" "Read s 1 = Some b" "Read s 2 = Some (of_nat k)" by simp_all
  note txts = ReadString_at [OF d3] check_strings_at [OF d3]
  have len: "length (sd_store s) = 10 + length m + length tl" by (simp add: st string_words_def)
  have d4: "drop (6 + (4 + length m)) (sd_store s) = tl" using drop_at [OF d3, of "6 + (4 + length m)"] by (simp add: string_words_def)
  have args: "check_strings s k (of_nat (4 + length m)) = Some True \<and>
      build_args s k (of_nat (4 + length m)) = Some (case arg of None \<Rightarrow> [] | Some str \<Rightarrow> [str])"
  proof (cases arg)
    case None
    then show ?thesis using check_strings_end [of "4 + length m" s] len le(2) by (simp add: k_def)
  next
    case (Some str)
    have d4: "drop (6 + (4 + length m)) (sd_store s) = string_words str @ tail" using d4 Some by (simp add: tl_def)
    have l: "4 + length m + length str < 2 ^ 30 - 1" using le(2,3) Some by simp
    have "check_strings s 0 (of_nat (4 + length m + (1 + length str))) = Some True"
      using len l Some by (intro check_strings_end) (simp_all add: tl_def string_words_def)
    then show ?thesis using check_strings_at [OF d4 l, of 0] ReadString_at(2) [OF d4 l] Some
      by (simp add: k_def del: check_strings.simps(1))
  qed
  have "check_strings s (Suc k) 3 = Some True" using txts(3) [of k] args le(2) by simp
  moreover have "unat (of_nat k :: uint32) + 1 = Suc k" "sint (of_nat k :: uint32) = int k" by (simp_all add: k_def split: option.split)
  moreover have "build_args s k (3 + 1 + of_nat (length m)) = Some (case arg of None \<Rightarrow> [] | Some str \<Rightarrow> [str])"
    using args by simp
  ultimately show ?thesis using rd txts(1,2) le(1,2) len sint_of_nat [of "length m"]
    by (simp add: SanityCheck_def MessageLocation_def BuildMessage_def BuildArgs_def message_offsets sd_magic_def sd_version_def
        sd_has_error_def offsets store_length_def st)
qed

lemma recorded_message_read:
  assumes "allocator_ok alloc" "CompleteParserRecorder_new fresh alloc = Inr r0"
    and run: "run_log fresh (cs1 @ LMessage a b m arg # cs2) r0 = Inr r"
    and "\<forall>c \<in> set cs1. \<not> is_message c" "length cs1 \<le> 2 ^ 28"
    and "a \<le> b" "length m < 2 ^ 28" "\<forall>str. arg = Some str \<longrightarrow> length str < 2 ^ 28"
    and s: "s = recorded_data fresh r"
  shows "SanityCheck s = Some True \<and> sd_has_error s \<and> MessageLocation s = Some (a, b) \<and> BuildMessage s = Some m \<and>
    BuildArgs s = Some (case arg of None \<Rightarrow> [] | Some str \<Rightarrow> [str])"
proof -
  obtain q where q: "run_log fresh cs1 r0 = Inr q" "run_log fresh cs2 (LogMessage fresh a b m arg q) = Inr r"
    using run by (auto simp: run_log_append split: sum.splits)
  have "reported (message_words a b m arg) (LogMessage fresh a b m arg q)"
    using run_log_ok [OF new_recorder(1) [OF assms(1,2)] _ q(1) assms(4)] assms(5) by (intro LogMessage_ok) simp
  then have "reported (message_words a b m arg) r" using q(2) by (rule run_log_reported)
  then obtain tail where r: "col_ok (function_store r)" "col_ok (symbol_store r)" "contents (function_store r) = message_words a b m arg @ tail"
      "preamble r = [kMagicNumber, kCurrentVersion, 1, 0, 0, 0]"
    by (auto simp: reported_def)
  obtain ws x y where "fst (Complete_ExtractData fresh r) = [kMagicNumber, kCurrentVersion, 1, x, y, 0] @ message_words a b m arg @ tail @ ws"
    using extracted [OF r(1,2), of fresh] r(3,4) by auto
  then have "sd_store s = [kMagicNumber, kCurrentVersion, 1, x, y, 0] @ message_words a b m arg @ tail @ ws" by (simp add: s recorded_data_simps)
  then show ?thesis using assms(6-8) by (rule message_read)
qed

section \<open>The properties\<close>

text \<open>
  C38. For a number below 2 to the power of 31, ReadNumber of ScriptDataImpl, at the bytes that WriteNumber of
  CompleteParserRecorder appends to the symbol store, consumes exactly these bytes, whatever follows; the
  number it gives is the one written exactly when no group of seven bits between the first and the last is
  zero. In particular 16384 is read as 128.
\<close>

theorem number_round_trip:
  assumes "n < 2 ^ 31" "col_ok (symbol_store r)"
    and "contents (symbol_store (WriteNumber fresh n r)) = contents (symbol_store r) @ bs"
    and "symbols_left s (symbol_data s) (bs @ rest)"
  shows "\<exists>v. ReadNumber s = Some (v, s\<lparr>symbol_data := symbol_data s + int (length bs)\<rparr>) \<and>
    symbols_left s (symbol_data s + int (length bs)) rest \<and> (v = of_nat n \<longleftrightarrow> no_inner_zero n)"
proof -
  have bs: "bs = number_bytes n" using WriteNumber_ok(1) [OF assms(1,2), of fresh] assms(3) by simp
  have le: "join_groups (groups 4 n) < 2 ^ 32" using join_groups_iff [of n 4] assms(1) by simp
  have "(of_nat (join_groups (groups 4 n)) = (of_nat n :: uint32)) = (join_groups (groups 4 n) = n)"
    using le assms(1) by (simp add: word_of_nat_eq_iff take_bit_nat_eq_self)
  then show ?thesis using ReadNumber_ok [OF assms(1), of s rest] assms(4) join_groups_number [OF assms(1)] unfolding bs by simp
qed

text \<open>The number 16384 in an empty symbol store.\<close>

definition literal_block :: "nat \<Rightarrow> (uint8 list, nat) Entry list option" where
  "literal_block n = Some (replicate n \<lparr>e_key = None, e_value = None, e_hash = 0\<rparr>)"

lemma literal_block_ok: "gives_memory literal_block" "allocator_ok literal_block"
  by (simp_all add: literal_block_def allocator_ok_def)

definition zero_group :: ScriptDataImpl where
  "zero_group = \<lparr>sd_store = words_of_bytes [0x81, 0, 0x80, 0x80], symbol_data = 0, symbol_data_end = 4, function_index = 0\<rparr>"

theorem number_round_trip_witness:
  "\<exists>r v. contents (symbol_store (WriteNumber (\<lambda>i. 0) 16384 r)) = contents (symbol_store r) @ [0x81, 0] \<and>
     ReadNumber zero_group = Some (v, zero_group\<lparr>symbol_data := 2\<rparr>) \<and> v \<noteq> 16384"
proof -
  obtain r0 where r0: "CompleteParserRecorder_new (\<lambda>i. 0) literal_block = Inr r0"
    using new_recorder_returns [OF literal_block_ok, of "[]"] by auto
  have ok: "col_ok (symbol_store r0)" using new_recorder(1) [OF literal_block_ok(2) r0] by (simp add: recorded_def)
  have four: "(4 :: nat) = Suc (Suc (Suc (Suc 0)))" by simp
  have bs: "number_bytes 16384 = [0x81, 0]" unfolding number_bytes_def four by simp
  have w: "contents (symbol_store (WriteNumber (\<lambda>i. 0) 16384 r0)) = contents (symbol_store r0) @ [0x81, 0]"
    using WriteNumber_ok(1) [of 16384 r0, OF _ ok] by (simp add: bs)
  have left: "symbols_left zero_group (symbol_data zero_group) ([0x81, 0] @ [0x80, 0x80])"
    using bytes_of_words_of_bytes [of "[0x81, 0, 0x80, 0x80]"] by (simp add: symbols_left_def zero_group_def store_length_def del: bytes_of_words_simps)
  have "\<not> no_inner_zero 16384" by (auto simp: no_inner_zero_def intro!: bexI [of _ 1])
  then show ?thesis using number_round_trip [OF _ ok w left] w by (auto simp: zero_group_def)
qed


text \<open>Two functions, the symbols f and ga, and one that is logged in a pause.\<close>

definition logged_calls :: "log_call list" where
  "logged_calls = [LSymbol [0x66], LFunction 3 40 1 2, LPause, LSymbol [0x79], LResume, LSymbol [0x67, 0x61], LSymbol [0x66],
     LFunction 50 60 0 4]"


text \<open>
  C40. As long as the allocator gives memory, a new CompleteParserRecorder logs entries and symbols, then a
  message, and whatever comes after; then the data ExtractData lays out pass the SanityCheck of
  ScriptDataImpl, are marked as an error, and MessageLocation, BuildMessage and BuildArgs give back the
  positions, the text and the argument of the first message, as long as the start is not after the end and
  the strings are shorter than 2 to the power of 28 characters.
\<close>

theorem message_round_trip:
  assumes "gives_memory alloc" "allocator_ok alloc" "\<forall>c \<in> set cs1. \<not> is_message c" "length cs1 + length cs2 < 2 ^ 28"
    and "a \<le> b" "length m < 2 ^ 28" "\<forall>str. arg = Some str \<longrightarrow> length str < 2 ^ 28"
  shows "\<exists>r0 r s. CompleteParserRecorder_new fresh alloc = Inr r0 \<and>
    run_log fresh (cs1 @ LMessage a b m arg # cs2) r0 = Inr r \<and> s = recorded_data fresh r \<and>
    SanityCheck s = Some True \<and> sd_has_error s \<and> MessageLocation s = Some (a, b) \<and> BuildMessage s = Some m \<and>
    BuildArgs s = Some (case arg of None \<Rightarrow> [] | Some str \<Rightarrow> [str])"
proof -
  obtain r0 r where r: "CompleteParserRecorder_new fresh alloc = Inr r0" "run_log fresh (cs1 @ LMessage a b m arg # cs2) r0 = Inr r"
    using new_recorder_returns [OF assms(1,2), of "cs1 @ LMessage a b m arg # cs2" fresh] assms(4) by auto
  have "length cs1 \<le> 2 ^ 28" using assms(4) by simp
  from recorded_message_read [OF assms(2) r assms(3) this assms(5-7) refl] show ?thesis using r by blast
qed

theorem message_round_trip_witness:
  "\<exists>r0 r s. CompleteParserRecorder_new (\<lambda>i. 0) literal_block = Inr r0 \<and>
     run_log (\<lambda>i. 0) (logged_calls @ LMessage 7 9 [0x62, 0x61, 0x64] (Some [0x78]) # logged_calls) r0 = Inr r \<and> s = recorded_data (\<lambda>i. 0) r \<and>
     SanityCheck s = Some True \<and> sd_has_error s \<and> MessageLocation s = Some (7, 9) \<and> BuildMessage s = Some [0x62, 0x61, 0x64] \<and>
     BuildArgs s = Some [[0x78]]"
proof -
  have n: "\<forall>c \<in> set logged_calls. \<not> is_message c" "length logged_calls + length logged_calls < 2 ^ 28"
    by (simp_all add: logged_calls_def is_message_def)
  have le: "(7 :: uint32) \<le> 9" "length [0x62, 0x61, 0x64 :: uint8] < 2 ^ 28" "\<forall>str. Some [0x78 :: uint8] = Some str \<longrightarrow> length str < 2 ^ 28"
    by simp_all
  show ?thesis using message_round_trip [OF literal_block_ok n le, of "\<lambda>i. 0"] by simp
qed

end
