(* ===== verification/Spec2Isabelle.thy ===== *)
theory Spec2Isabelle
  imports HashMap CodeMap OutSet CharPredicates Utf8 KeywordMatcher CaseConversions ScannerProperties
    JsonProperties BignumProperties IrregexpProperties PreparseProperties
begin

text \<open>
  A verification library for the V8 sources under src/src/.
  The library follows the code component by component; every theory names the files it models, and
  every definition has the name of the function, class or loop it translates. \<open>V8Prelude\<close> holds the
  word types and the lemmas on lists, options and words that the components share.

  \<^bold>\<open>Containers\<close>
  \<^item> \<open>HashMap\<close> (hashmap.cc, hashmap.h): the open-addressing hash map. The table is a list of slots,
    capacity and occupancy are 32-bit words. The lemmas show that the table refines a finite map, that
    removal keeps every probe sequence intact, and that iteration visits each entry once. The locales
    \<open>match_fun\<close> and \<open>keyed_store\<close> state what a client has to provide and what it may rely on.
  \<^item> \<open>SplayTree\<close> (splay-tree.h, splay-tree-inl.h): the top-down splay tree over an arbitrary
    comparison; \<open>CodeMap\<close> (profile-generator.cc, cpu-profiler-inl.h) is its client in the profiler.
  \<^item> \<open>OutSet\<close> (jsregexp.cc): the sets of the regular expression compiler with their shared lists
    in an explicit store, because extending one set can change another.

  \<^bold>\<open>Characters\<close>
  \<^item> \<open>UnicodeLookup\<close>, \<open>UnicodeTables\<close>, \<open>CharPredicates\<close>, \<open>AsciiChars\<close> (unicode.cc, unicode.h,
    unicode-inl.h, char-predicates.h, scanner-base.h): the range tables with the binary search over
    them, their caches and the character predicates. The search is shown to decide the listed ranges of
    every table that is well formed, and the tables are.
  \<^item> \<open>CaseMapping\<close>, \<open>CaseTables\<close>, \<open>CaseConversions\<close> (the same files): the case mapping tables, the mixed
    search over single entries and ranges, the cache of a mapping and the five conversions.
  \<^item> \<open>Utf8\<close> (unicode.cc, unicode-inl.h): encoding and decoding of one character and of a text.

  \<^bold>\<open>The scanner\<close>
  \<^item> \<open>Token\<close> and \<open>KeywordMatcher\<close> (token.h, token.cc, scanner-base.cc): the tokens and the state
    machine that recognises keywords, equal to the keyword table.
  \<^item> \<open>UTF16Buffer\<close> (scanner.h, scanner.cc, preparser-api.cc, preparser-process.cc): the sources of
    characters. \<open>ScannerBase\<close> (scanner-base.h, scanner-base.cc) has the state of every scanner: the
    look-ahead character, the three token descriptors and the literal buffer. \<open>ScannerReads\<close> relates the
    state to the characters not read yet.
  \<^item> \<open>JavaScriptScanner\<close> is the scanner of the language: tokens, comments, strings, numbers, identifiers
    and regular expression literals. \<open>ScannerSpec\<close> is the lexical grammar as functions on lists of
    characters, and \<open>ScannerProperties\<close> shows that the scanner implements it and always reaches the end.

  \<^bold>\<open>JSON\<close>
  \<^item> \<open>JsonScanner\<close> and \<open>JsonParser\<close> (scanner.cc, parser.h, parser.cc, heap.cc): the scanner of JSON text and the
    recursive descent parser over it. A heap object is a tree, and the stack limit bounds the nesting.
  \<^item> \<open>JsonLexer\<close> and \<open>JsonTokens\<close> show what the scanner returns on every text; \<open>JsonGrammar\<close> is the grammar as
    inductive relations with the parser shown to follow it in both directions, and \<open>JsonProperties\<close> has
    the properties of the whole.

  \<^bold>\<open>Large numbers\<close>
  \<^item> \<open>Bignum\<close> (bignum.h, bignum.cc): the numbers of 28-bit digits of the conversions between text and
    double, with \<open>BignumText\<close> (decimal and hexadecimal text), \<open>BignumCompare\<close> (comparison and division) and
    \<open>BignumPower\<close> (square and power). \<open>BignumDigits\<close>, \<open>BignumArith\<close>, \<open>BignumProduct\<close> and \<open>BignumDivide\<close> hold the value
    of an array of digits, the invariant, and for every loop the sum it keeps; \<open>BignumProperties\<close> has the
    properties of the operations on reachable numbers.

  \<^bold>\<open>Regular expression bytecodes\<close>
  \<^item> \<open>IrregexpBytecodes\<close> (bytecodes-irregexp.h) and \<open>IrregexpAssembler\<close> (regexp-macro-assembler-irregexp.h, .cc,
    -inl.h, assembler.h): the bytecodes and the assembler, with the references to a label that is not bound
    chained through the buffer. A label is a name, and the memory a grown buffer starts with is a parameter.
  \<^item> \<open>IrregexpLayout\<close>, \<open>IrregexpProgram\<close>, \<open>IrregexpTwoPass\<close>, \<open>IrregexpCode\<close>: the items the assembler has written, the
    program its calls stand for, the code of a program in two passes, and the proof that the assembler
    writes it.
  \<^item> \<open>IrregexpInterpreter\<close> (interpreter-irregexp.cc): one turn of the loop of \<open>RawMatch\<close> and its iteration, with an
    access outside of an array as a fault. \<open>IrregexpMachine\<close> and \<open>IrregexpRefinement\<close> have a machine over
    instructions and labels that the interpreter refines, \<open>IrregexpShape\<close> what every turn keeps;
    \<open>IrregexpProperties\<close> has the properties of the whole.

  \<^bold>\<open>Preparser data\<close>
  \<^item> \<open>Collector\<close> (utils.h): the store of chunks the recorders write to, which holds what was added in order.
    \<open>MachineBytes\<close> reads and writes words in an array of bytes, for the recorders and the bytecodes.
  \<^item> \<open>PreparseData\<close> (preparse-data.h, preparse-data.cc): the recorders of function entries, symbols and the
    first error message, with the layout of their data. \<open>ScriptData\<close> (parser.h, parser.cc) is the reader.
  \<^item> \<open>PreparseNumbers\<close> relates the numbers the recorder writes in groups of seven bits to the ones the reader
    joins; \<open>PreparseLog\<close> says what the recorder holds after any sequence of calls, and that every call
    returns; \<open>PreparseProperties\<close> shows that the reader gets back what was logged. The symbol table is the
    hash map of \<open>HashMap\<close>, and the collector is used through the locale \<open>appender\<close>.

  \<^bold>\<open>Loops and bounds.\<close> Loops that always end are total functions with a measure. A loop whose end has to be
  proved from an invariant has fuel and returns None when the fuel runs out; the properties show how
  much is enough: the capacity for a probe sequence, the size of a splay tree, twice the length of a JSON
  text, the quotient for a division. The interpreter may run forever; its fuel is the number of turns,
  and the refinement holds for every number. Machine integers are words of the width in the code where they can
  wrap; the counters of type \<open>int\<close> of \<open>Bignum\<close> are natural numbers, kept small by its capacity.

  \<^bold>\<open>Not modelled.\<close> The heap and the garbage collector, the compilers and code generators of the
  architectures, the assemblers, the inline caches, the JavaScript and regular expression parsers above the
  scanner and beside the preparser data, the runtime, the debugger, the API and the platform layer: they act on the layout of objects in memory and on
  machine code, or are clients of parts not modelled yet. The kinds of heap objects, allocation failure
  except where a component tests for it, and destructors are outside the library.
\<close>

end
